(* ===== verification/Mud_Prelude.thy ===== *)
theory Mud_Prelude
  imports Main "HOL-Library.Word" "HOL-Library.Multiset" "HOL-Library.Monad_Syntax"
begin

text \<open>
  What every component of the server shares: the C integer conversions the code relies on
  (\<open>size_t\<close> is 64 bits and \<open>int\<close> 32 bits, as on the x86-64 target of the Makefile), memory as
  lists of cells with checked access (\<open>None\<close> is undefined behaviour: a read or write outside the
  block, or through a null pointer), the system allocator as a parameter, and generic lemmas on
  lists and multisets.
\<close>

named_theorems mem_simps "rewriting of checked memory accesses that stay in bounds"
named_theorems size_simps "size_t arithmetic that does not wrap"

type_synonym byte = "8 word"

text \<open>What a call that may not return comes to, after the steps it was given.\<close>

datatype 'a outcome = Returns 'a | Faults | Running

definition bind_outcome :: "'a outcome \<Rightarrow> ('a \<Rightarrow> 'b outcome) \<Rightarrow> 'b outcome" where
  "bind_outcome x f = (case x of Returns v \<Rightarrow> f v | Faults \<Rightarrow> Faults | Running \<Rightarrow> Running)"

lemma bind_outcome_simps [simp]:
  "bind_outcome (Returns v) f = f v" "bind_outcome Faults f = Faults" "bind_outcome Running f = Running"
  by (simp_all add: bind_outcome_def)

definition defined :: "'a option \<Rightarrow> 'a outcome" where
  "defined x = (case x of Some v \<Rightarrow> Returns v | None \<Rightarrow> Faults)"

lemma defined_simps [simp]: "defined (Some v) = Returns v" "defined None = Faults"
  by (simp_all add: defined_def)

section \<open>C integers\<close>

text \<open>\<open>size_t\<close> values are naturals below \<open>2 ^ 64\<close>; each operation that can wrap says so.\<close>

definition sz :: "nat \<Rightarrow> nat" where
  "sz n = n mod 2 ^ 64"

definition sz_sub :: "nat \<Rightarrow> nat \<Rightarrow> nat" where
  "sz_sub a b = (a + 2 ^ 64 - b) mod 2 ^ 64"

definition sz_of_int :: "int \<Rightarrow> nat" where
  "sz_of_int i = nat (i mod 2 ^ 64)"

text \<open>The implicit conversion of a \<open>size_t\<close> to an \<open>int\<close> keeps the low 32 bits.\<close>

definition to_int32 :: "nat \<Rightarrow> int" where
  "to_int32 n = sint (word_of_nat n :: 32 word)"

lemma sz_small [size_simps]: "n < 2 ^ 64 \<Longrightarrow> sz n = n"
  by (simp add: sz_def)

lemma sz_less: "sz n < 2 ^ 64"
  by (simp add: sz_def)

lemma sz_sub_le [size_simps]: "b \<le> a \<Longrightarrow> a < 2 ^ 64 \<Longrightarrow> sz_sub a b = a - b"
proof -
  assume "b \<le> a" "a < 2 ^ 64"
  then have "a + 2 ^ 64 - b = (a - b) + 2 ^ 64" and "a - b < 2 ^ 64" by simp_all
  then show ?thesis by (simp only: sz_sub_def mod_add_self2 mod_less)
qed

lemma sz_sub_wrap: "a < b \<Longrightarrow> b \<le> 2 ^ 64 \<Longrightarrow> sz_sub a b = a + 2 ^ 64 - b"
  by (simp add: sz_sub_def)

lemma sz_of_int_nat [size_simps]: "0 \<le> i \<Longrightarrow> i < 2 ^ 64 \<Longrightarrow> sz_of_int i = nat i"
  by (simp add: sz_of_int_def)

lemma to_int32_small [size_simps]: "n < 2 ^ 31 \<Longrightarrow> to_int32 n = int n"
  by (simp add: to_int32_def word_of_nat_eq_0_iff signed_of_nat signed_take_bit_int_eq_self)

section \<open>Memory blocks\<close>

definition rd :: "'a list \<Rightarrow> nat \<Rightarrow> 'a option" where
  "rd xs i = (if i < length xs then Some (xs ! i) else None)"

definition wr :: "'a list \<Rightarrow> nat \<Rightarrow> 'a \<Rightarrow> 'a list option" where
  "wr xs i v = (if i < length xs then Some (xs[i := v]) else None)"

text \<open>Access through a pointer that may be null: a null pointer has no cells.\<close>

definition cells :: "'a list option \<Rightarrow> 'a list" where
  "cells p = (case p of None \<Rightarrow> [] | Some xs \<Rightarrow> xs)"

text \<open>\<open>memset\<close> of \<open>n\<close> cells from cell \<open>i\<close>, and \<open>memcpy\<close> of \<open>ys\<close> to cell \<open>i\<close>.\<close>

definition fill_cells :: "'a list \<Rightarrow> nat \<Rightarrow> nat \<Rightarrow> 'a \<Rightarrow> 'a list option" where
  "fill_cells xs i n v =
     (if i + n \<le> length xs then Some (take i xs @ replicate n v @ drop (i + n) xs) else None)"

definition copy_cells :: "'a list \<Rightarrow> nat \<Rightarrow> 'a list \<Rightarrow> 'a list option" where
  "copy_cells xs i ys =
     (if i + length ys \<le> length xs
      then Some (take i xs @ ys @ drop (i + length ys) xs) else None)"

text \<open>Reading \<open>n\<close> cells from cell \<open>i\<close> (the source of a \<open>memcpy\<close>).\<close>

definition read_cells :: "'a list \<Rightarrow> nat \<Rightarrow> nat \<Rightarrow> 'a list option" where
  "read_cells xs i n = (if i + n \<le> length xs then Some (take n (drop i xs)) else None)"

lemma rd_in [mem_simps]: "i < length xs \<Longrightarrow> rd xs i = Some (xs ! i)"
  by (simp add: rd_def)

lemma wr_in [mem_simps]: "i < length xs \<Longrightarrow> wr xs i v = Some (xs[i := v])"
  by (simp add: wr_def)

lemma rd_Some_iff: "rd xs i = Some v \<longleftrightarrow> i < length xs \<and> v = xs ! i"
  by (auto simp: rd_def)

lemma wr_Some_iff: "wr xs i v = Some ys \<longleftrightarrow> i < length xs \<and> ys = xs[i := v]"
  by (auto simp: wr_def)

lemma cells_Some [simp]: "cells (Some xs) = xs"
  by (simp add: cells_def)

lemma cells_None [simp]: "cells None = []"
  by (simp add: cells_def)

lemma copy_cells_in [mem_simps]:
  "i + length ys \<le> length xs \<Longrightarrow>
   copy_cells xs i ys = Some (take i xs @ ys @ drop (i + length ys) xs)"
  by (simp add: copy_cells_def)

lemma fill_cells_in [mem_simps]:
  "i + n \<le> length xs \<Longrightarrow>
   fill_cells xs i n v = Some (take i xs @ replicate n v @ drop (i + n) xs)"
  by (simp add: fill_cells_def)

lemma read_cells_in [mem_simps]:
  "i + n \<le> length xs \<Longrightarrow> read_cells xs i n = Some (take n (drop i xs))"
  by (simp add: read_cells_def)

lemma length_read_cells: "read_cells xs i n = Some ys \<Longrightarrow> length ys = n"
  by (auto simp: read_cells_def split: if_splits)

section \<open>The system allocator\<close>

text \<open>
  \<open>malloc\<close> and \<open>realloc\<close> are not code of the repository. A manager says which requests (in
  bytes) are granted and what the cells of fresh memory hold; every definition that allocates
  takes one, and the theorems hold for every choice of fresh contents.
\<close>

record 'a mem_mgr =
  grants :: "nat \<Rightarrow> bool"
  fresh :: "nat \<Rightarrow> 'a"

definition malloc_cells :: "'a mem_mgr \<Rightarrow> nat \<Rightarrow> nat \<Rightarrow> 'a list option" where
  "malloc_cells M width bytes =
     (if grants M bytes then Some (map (fresh M) [0..<bytes div width]) else None)"

definition realloc_cells :: "'a mem_mgr \<Rightarrow> nat \<Rightarrow> 'a list option \<Rightarrow> nat \<Rightarrow> 'a list option" where
  "realloc_cells M width p bytes =
     (if grants M bytes
      then Some (take (bytes div width) (cells p)
                 @ map (fresh M) [length (cells p)..<bytes div width])
      else None)"

definition grants_all :: "'a mem_mgr \<Rightarrow> bool" where
  "grants_all M \<longleftrightarrow> (\<forall>n. grants M n)"

lemma grants_all_malloc [mem_simps]:
  "grants_all M \<Longrightarrow> malloc_cells M w b = Some (map (fresh M) [0..<b div w])"
  by (simp add: malloc_cells_def grants_all_def)

lemma grants_all_realloc [mem_simps]:
  "grants_all M \<Longrightarrow> realloc_cells M w p b =
     Some (take (b div w) (cells p) @ map (fresh M) [length (cells p)..<b div w])"
  by (simp add: realloc_cells_def grants_all_def)

lemma length_realloc_cells: "realloc_cells M w p b = Some d \<Longrightarrow> length d = b div w"
  by (auto simp: realloc_cells_def min_def split: if_splits)

section \<open>Lists and multisets\<close>

definition swap_at :: "'a list \<Rightarrow> nat \<Rightarrow> nat \<Rightarrow> 'a list" where
  "swap_at xs i j = xs[i := xs ! j, j := xs ! i]"

lemma length_swap_at [simp]: "length (swap_at xs i j) = length xs"
  by (simp add: swap_at_def)

lemma nth_swap_at:
  "i < length xs \<Longrightarrow> j < length xs \<Longrightarrow>
   swap_at xs i j ! k = (if k = j then xs ! i else if k = i then xs ! j else xs ! k)"
  by (cases "k < length xs") (auto simp: swap_at_def nth_list_update)

lemma mset_swap_at: "i < length xs \<Longrightarrow> j < length xs \<Longrightarrow> mset (swap_at xs i j) = mset xs"
  by (simp add: swap_at_def mset_swap)

lemma take_swap_at:
  "i < n \<Longrightarrow> j < n \<Longrightarrow> n \<le> length xs \<Longrightarrow> take n (swap_at xs i j) = swap_at (take n xs) i j"
  by (simp add: swap_at_def take_update_swap)

lemma drop_swap_at: "i < n \<Longrightarrow> j < n \<Longrightarrow> drop n (swap_at xs i j) = drop n xs"
  by (simp add: swap_at_def)

lemma mset_take_swap_at:
  "i < n \<Longrightarrow> j < n \<Longrightarrow> n \<le> length xs \<Longrightarrow> mset (take n (swap_at xs i j)) = mset (take n xs)"
  by (simp add: take_swap_at mset_swap_at)

text \<open>The position of the first and of the last element that satisfies a predicate.\<close>

fun first_idx :: "('a \<Rightarrow> bool) \<Rightarrow> 'a list \<Rightarrow> nat option" where
  "first_idx P [] = None"
| "first_idx P (x # xs) = (if P x then Some 0 else map_option Suc (first_idx P xs))"

definition last_idx :: "('a \<Rightarrow> bool) \<Rightarrow> 'a list \<Rightarrow> nat option" where
  "last_idx P xs = map_option (\<lambda>i. length xs - Suc i) (first_idx P (rev xs))"

lemma first_idx_None: "first_idx P xs = None \<longleftrightarrow> (\<forall>x \<in> set xs. \<not> P x)"
  by (induction xs) auto

lemma first_idx_Some:
  "first_idx P xs = Some i \<longleftrightarrow> i < length xs \<and> P (xs ! i) \<and> (\<forall>j<i. \<not> P (xs ! j))"
proof (induction xs arbitrary: i)
  case (Cons x xs)
  show ?case
    by (cases i) (auto simp: Cons.IH All_less_Suc2)
qed simp

lemma first_idx_append:
  "first_idx P (xs @ ys) =
     (case first_idx P xs of Some i \<Rightarrow> Some i | None \<Rightarrow> map_option (\<lambda>i. length xs + i) (first_idx P ys))"
  by (induction xs; cases "first_idx P ys") (auto split: option.splits)

lemma last_idx_append:
  "last_idx P (xs @ ys) =
     (case last_idx P ys of Some i \<Rightarrow> Some (length xs + i) | None \<Rightarrow> last_idx P xs)"
  by (cases "first_idx P (rev ys)"; cases "first_idx P (rev xs)")
     (auto simp: last_idx_def first_idx_append dest: first_idx_Some[THEN iffD1])

lemma last_idx_Some:
  "last_idx P xs = Some i \<longleftrightarrow> i < length xs \<and> P (xs ! i) \<and> (\<forall>j. i < j \<longrightarrow> j < length xs \<longrightarrow> \<not> P (xs ! j))"
proof
  assume "last_idx P xs = Some i"
  then obtain k where k: "first_idx P (rev xs) = Some k" "i = length xs - Suc k"
    by (auto simp: last_idx_def)
  then have k': "k < length xs" "P (rev xs ! k)" "\<And>j. j < k \<Longrightarrow> \<not> P (rev xs ! j)"
    by (auto simp: first_idx_Some)
  have "\<not> P (xs ! j)" if "i < j" "j < length xs" for j
    using k'(3)[of "length xs - Suc j"] that k(2) k'(1) by (simp add: rev_nth)
  then show "i < length xs \<and> P (xs ! i) \<and> (\<forall>j. i < j \<longrightarrow> j < length xs \<longrightarrow> \<not> P (xs ! j))"
    using k' k(2) by (simp add: rev_nth)
next
  assume a: "i < length xs \<and> P (xs ! i) \<and> (\<forall>j. i < j \<longrightarrow> j < length xs \<longrightarrow> \<not> P (xs ! j))"
  then have "first_idx P (rev xs) = Some (length xs - Suc i)"
    by (auto simp: first_idx_Some rev_nth)
  with a show "last_idx P xs = Some i" by (simp add: last_idx_def)
qed

lemma first_idx_skip:
  "\<forall>x \<in> set xs. \<not> P x \<Longrightarrow> P y \<Longrightarrow> first_idx P (xs @ y # ys) = Some (length xs)"
  by (induction xs) auto

end
