(* ===== verification/BinHeap.thy ===== *)
theory BinHeap
  imports Mud_Prelude
begin

text \<open>
  The array heap that prioq.c and hrt_prioq.c share: the two files hold the same loops over
  different node types and comparisons. The loops are defined here once over the comparison
  \<open>gt\<close> ("the key of the first node is greater"), with every array access checked; the
  specification is given by their unchecked counterparts on lists, and the locale \<open>heap_order\<close>
  proves the heap theory for any strict weak order. The interface \<open>min_queue\<close> is what the rest of
  the server relies on.
\<close>

section \<open>The loops\<close>

text \<open>
  The macros \<open>parent\<close>, \<open>left\<close> and \<open>right\<close>. A node takes at least 16 bytes, so an index below the
  length of an allocated array leaves room for \<open>2 * idx + 2\<close> in a \<open>size_t\<close>.
\<close>

definition parent :: "nat \<Rightarrow> nat" where
  "parent idx = (idx - 1) div 2"

definition left :: "nat \<Rightarrow> nat" where
  "left idx = 2 * idx + 1"

definition right :: "nat \<Rightarrow> nat" where
  "right idx = 2 * idx + 2"

function heapify_loop :: "('a \<Rightarrow> 'a \<Rightarrow> bool) \<Rightarrow> nat \<Rightarrow> 'a list \<Rightarrow> nat \<Rightarrow> 'a list option" where
  "heapify_loop gt arraylen arr idx =
     do {
       s1 \<leftarrow> (if left idx < arraylen
             then do { a \<leftarrow> rd arr idx; b \<leftarrow> rd arr (left idx);
                       Some (if gt a b then left idx else idx) }
             else Some idx);
       s2 \<leftarrow> (if right idx < arraylen
             then do { a \<leftarrow> rd arr s1; b \<leftarrow> rd arr (right idx);
                       Some (if gt a b then right idx else s1) }
             else Some s1);
       if idx < arraylen \<and> s2 \<noteq> idx
       then do { a \<leftarrow> rd arr idx; b \<leftarrow> rd arr s2;
                 heapify_loop gt arraylen (arr[idx := b, s2 := a]) s2 }
       else Some arr
     }"
  by pat_completeness auto
termination
  by (relation "measure (\<lambda>(gt, n, arr, idx). n - idx)")
     (auto simp: left_def right_def rd_Some_iff Option.bind_eq_Some_conv split: if_splits)

declare heapify_loop.simps [simp del]

function siftup_loop :: "('a \<Rightarrow> 'a \<Rightarrow> bool) \<Rightarrow> 'a list \<Rightarrow> nat \<Rightarrow> 'a list option" where
  "siftup_loop gt arr i =
     (if 0 < i
      then do {
        p \<leftarrow> rd arr (parent i);
        c \<leftarrow> rd arr i;
        if gt p c then siftup_loop gt (arr[i := p, parent i := c]) (parent i) else Some arr
      }
      else Some arr)"
  by pat_completeness auto
termination
  by (relation "measure (\<lambda>(gt, arr, i). i)") (auto simp: parent_def)

declare siftup_loop.simps [simp del]

text \<open>The loop of \<open>BuildMinHeap\<close>: \<open>idx\<close> counts down from \<open>len / 2 - 1\<close>; the argument is \<open>idx + 1\<close>.\<close>

fun build_loop :: "('a \<Rightarrow> 'a \<Rightarrow> bool) \<Rightarrow> nat \<Rightarrow> 'a list \<Rightarrow> nat \<Rightarrow> 'a list option" where
  "build_loop gt len arr 0 = Some arr"
| "build_loop gt len arr (Suc idx) =
     do { arr' \<leftarrow> heapify_loop gt len arr idx; build_loop gt len arr' idx }"

text \<open>The debugging predicate \<open>IsMinHeap\<close>; \<open>lt\<close> is its strict comparison.\<close>

function isminheap_rec :: "('a \<Rightarrow> 'a \<Rightarrow> bool) \<Rightarrow> 'a list \<Rightarrow> nat \<Rightarrow> nat \<Rightarrow> bool" where
  "isminheap_rec lt arr len idx =
     (if len \<le> idx then True
      else (len \<le> right idx
            \<or> (lt (arr ! idx) (arr ! right idx) \<and> isminheap_rec lt arr len (right idx)))
         \<or> (len \<le> left idx
            \<or> (lt (arr ! idx) (arr ! left idx) \<and> isminheap_rec lt arr len (left idx))))"
  by pat_completeness auto
termination
  by (relation "measure (\<lambda>(lt, arr, n, idx). n - idx)") (auto simp: left_def right_def)

declare isminheap_rec.simps [simp del]

section \<open>The specification on lists\<close>

definition smallest :: "('a \<Rightarrow> 'a \<Rightarrow> bool) \<Rightarrow> nat \<Rightarrow> 'a list \<Rightarrow> nat \<Rightarrow> nat" where
  "smallest gt n xs i =
     (let s1 = (if left i < n \<and> gt (xs ! i) (xs ! left i) then left i else i)
      in if right i < n \<and> gt (xs ! s1) (xs ! right i) then right i else s1)"

function sift_down :: "('a \<Rightarrow> 'a \<Rightarrow> bool) \<Rightarrow> nat \<Rightarrow> 'a list \<Rightarrow> nat \<Rightarrow> 'a list" where
  "sift_down gt n xs i =
     (if i < n \<and> smallest gt n xs i \<noteq> i
      then sift_down gt n (swap_at xs i (smallest gt n xs i)) (smallest gt n xs i)
      else xs)"
  by pat_completeness auto
termination
  by (relation "measure (\<lambda>(gt, n, xs, i). n - i)")
     (auto simp: smallest_def left_def right_def Let_def split: if_splits)

declare sift_down.simps [simp del]

function sift_up :: "('a \<Rightarrow> 'a \<Rightarrow> bool) \<Rightarrow> 'a list \<Rightarrow> nat \<Rightarrow> 'a list" where
  "sift_up gt xs i =
     (if 0 < i \<and> gt (xs ! parent i) (xs ! i) then sift_up gt (swap_at xs i (parent i)) (parent i)
      else xs)"
  by pat_completeness auto
termination
  by (relation "measure (\<lambda>(gt, xs, i). i)") (auto simp: parent_def)

declare sift_up.simps [simp del]

fun build_heap :: "('a \<Rightarrow> 'a \<Rightarrow> bool) \<Rightarrow> nat \<Rightarrow> 'a list \<Rightarrow> nat \<Rightarrow> 'a list" where
  "build_heap gt n xs 0 = xs"
| "build_heap gt n xs (Suc i) = build_heap gt n (sift_down gt n xs i) i"

lemma parent_less [simp]: "0 < i \<Longrightarrow> parent i < i"
  by (simp add: parent_def)

lemma parent_left [simp]: "parent (left i) = i" and parent_right [simp]: "parent (right i) = i"
  by (simp_all add: parent_def left_def right_def)

lemma child_cases: "0 < j \<Longrightarrow> j = left (parent j) \<or> j = right (parent j)"
  by (simp add: parent_def left_def right_def) presburger

lemma left_gt [simp]: "i < left i" and right_gt [simp]: "i < right i"
  by (simp_all add: left_def right_def)

lemma left_neq_right [simp]: "left i \<noteq> right j"
  by (simp add: left_def right_def) presburger

lemma left_pos [simp]: "0 < left i" and right_pos [simp]: "0 < right i"
  by (simp_all add: left_def right_def)

lemma smallest_cases: "smallest gt n xs i \<in> {i, left i, right i}"
  by (auto simp: smallest_def Let_def)

lemma smallest_less: "i < n \<Longrightarrow> smallest gt n xs i < n"
  by (auto simp: smallest_def Let_def)

lemma heapify_loop_eq:
  "i < n \<Longrightarrow> n \<le> length xs \<Longrightarrow> heapify_loop gt n xs i = Some (sift_down gt n xs i)"
proof (induction gt n xs i rule: sift_down.induct)
  case (1 gt n xs i)
  show ?case
  proof (cases "smallest gt n xs i = i")
    case True
    with 1(2,3) show ?thesis
      by (subst heapify_loop.simps, subst sift_down.simps)
         (auto simp: smallest_def rd_def Let_def split: if_splits)
  next
    case False
    let ?s = "smallest gt n xs i"
    have s: "?s < n" using 1(2) by (rule smallest_less)
    have "heapify_loop gt n (swap_at xs i ?s) ?s = Some (sift_down gt n (swap_at xs i ?s) ?s)"
      using 1 False s by simp
    then show ?thesis using 1(2,3) False s
      by (subst heapify_loop.simps, subst sift_down.simps)
         (auto simp: smallest_def rd_def swap_at_def Let_def split: if_splits)
  qed
qed

text \<open>On an empty heap (\<open>extract_min\<close> of the last node) the loop touches no cell.\<close>

lemma heapify_loop_beyond: "n \<le> i \<Longrightarrow> heapify_loop gt n xs i = Some xs"
  by (subst heapify_loop.simps) (simp add: left_def right_def)

lemma siftup_loop_eq: "i < length xs \<Longrightarrow> siftup_loop gt xs i = Some (sift_up gt xs i)"
proof (induction gt xs i rule: sift_up.induct)
  case (1 gt xs i)
  then have p: "0 < i \<Longrightarrow> parent i < length xs" using parent_less order.strict_trans by blast
  show ?case
    by (subst siftup_loop.simps, subst sift_up.simps)
       (use 1 p in \<open>auto simp: rd_def swap_at_def\<close>)
qed

lemma length_sift_down [simp]: "length (sift_down gt n xs i) = length xs"
  by (induction gt n xs i rule: sift_down.induct) (subst sift_down.simps, simp)

lemma length_sift_up [simp]: "length (sift_up gt xs i) = length xs"
  by (induction gt xs i rule: sift_up.induct) (subst sift_up.simps, simp)

lemma length_build_heap [simp]: "length (build_heap gt n xs k) = length xs"
  by (induction gt n xs k rule: build_heap.induct) simp_all

lemma build_loop_eq:
  "k \<le> n \<Longrightarrow> n \<le> length xs \<Longrightarrow> build_loop gt n xs k = Some (build_heap gt n xs k)"
  by (induction gt n xs k rule: build_heap.induct) (simp_all add: heapify_loop_eq)

lemma take_sift_down:
  "i < n \<Longrightarrow> n \<le> length xs \<Longrightarrow> mset (take n (sift_down gt n xs i)) = mset (take n xs)"
proof (induction gt n xs i rule: sift_down.induct)
  case (1 gt n xs i)
  then show ?case
    by (subst sift_down.simps) (simp add: smallest_less mset_take_swap_at)
qed

lemma drop_sift_down: "i < n \<Longrightarrow> drop n (sift_down gt n xs i) = drop n xs"
proof (induction gt n xs i rule: sift_down.induct)
  case (1 gt n xs i)
  then show ?case
    by (subst sift_down.simps) (simp add: smallest_less drop_swap_at)
qed

lemma take_sift_up:
  "i < n \<Longrightarrow> n \<le> length xs \<Longrightarrow> mset (take n (sift_up gt xs i)) = mset (take n xs)"
proof (induction gt xs i rule: sift_up.induct)
  case (1 gt xs i)
  then have "0 < i \<Longrightarrow> parent i < n" using parent_less order.strict_trans by blast
  with 1 show ?case
    by (subst sift_up.simps) (simp add: mset_take_swap_at)
qed

lemma take_build_heap:
  "k \<le> n \<Longrightarrow> n \<le> length xs \<Longrightarrow> mset (take n (build_heap gt n xs k)) = mset (take n xs)"
  by (induction gt n xs k rule: build_heap.induct) (simp_all add: take_sift_down)

section \<open>Heaps, and heaps with one position out of order\<close>

definition heap_from :: "('a \<Rightarrow> 'a \<Rightarrow> bool) \<Rightarrow> nat \<Rightarrow> nat \<Rightarrow> 'a list \<Rightarrow> bool" where
  "heap_from gt m n xs \<longleftrightarrow>
     (\<forall>j<n. 0 < j \<longrightarrow> m \<le> parent j \<longrightarrow> \<not> gt (xs ! parent j) (xs ! j))"

definition heap_but_down :: "('a \<Rightarrow> 'a \<Rightarrow> bool) \<Rightarrow> nat \<Rightarrow> nat \<Rightarrow> nat \<Rightarrow> 'a list \<Rightarrow> bool" where
  "heap_but_down gt m n i xs \<longleftrightarrow>
     (\<forall>j<n. 0 < j \<longrightarrow> m \<le> parent j \<longrightarrow>
        (parent j \<noteq> i \<longrightarrow> \<not> gt (xs ! parent j) (xs ! j)) \<and>
        (parent j = i \<longrightarrow> 0 < i \<longrightarrow> m \<le> parent i \<longrightarrow> \<not> gt (xs ! parent i) (xs ! j)))"

definition heap_but_up :: "('a \<Rightarrow> 'a \<Rightarrow> bool) \<Rightarrow> nat \<Rightarrow> nat \<Rightarrow> 'a list \<Rightarrow> bool" where
  "heap_but_up gt n i xs \<longleftrightarrow>
     (\<forall>j<n. 0 < j \<longrightarrow>
        (j \<noteq> i \<longrightarrow> \<not> gt (xs ! parent j) (xs ! j)) \<and>
        (parent j = i \<longrightarrow> 0 < i \<longrightarrow> \<not> gt (xs ! parent i) (xs ! j)))"

abbreviation is_heap :: "('a \<Rightarrow> 'a \<Rightarrow> bool) \<Rightarrow> 'a list \<Rightarrow> bool" where
  "is_heap gt xs \<equiv> heap_from gt 0 (length xs) xs"

lemma heap_from_cong:
  "n \<le> length xs \<Longrightarrow> take n ys = take n xs \<Longrightarrow> heap_from gt m n ys = heap_from gt m n xs"
  unfolding heap_from_def
  by (metis nth_take order_le_less_trans order_less_imp_le parent_less)

lemma is_heap_take: "n \<le> length xs \<Longrightarrow> heap_from gt 0 n xs \<Longrightarrow> is_heap gt (take n xs)"
  using heap_from_cong[of n xs "take n xs"] by (simp add: min_absorb2)

lemma heap_from_take: "n \<le> length xs \<Longrightarrow> is_heap gt (take n xs) \<Longrightarrow> heap_from gt 0 n xs"
  using heap_from_cong[of n xs "take n xs"] by (simp add: min_absorb2)

lemma heap_from_half: "n div 2 \<le> m \<Longrightarrow> heap_from gt m n xs"
  by (auto simp: heap_from_def parent_def)

lemma heap_but_down_start:
  "heap_from gt (Suc m) n xs \<Longrightarrow> heap_but_down gt m n m xs"
  by (auto simp: heap_from_def heap_but_down_def dest: parent_less)

text \<open>Removing the root (the code moves the last node there): only position 0 is out of order.\<close>

lemma heap_but_down_root:
  assumes "heap_from gt 0 n xs" "k \<le> n" "\<And>j. 0 < j \<Longrightarrow> j < k \<Longrightarrow> ys ! j = xs ! j"
  shows "heap_but_down gt 0 k 0 ys"
proof -
  have "\<not> gt (ys ! parent j) (ys ! j)" if "j < k" "0 < j" "parent j \<noteq> 0" for j
  proof -
    have "parent j < k" using that parent_less[of j] by linarith
    with assms that show ?thesis by (simp add: heap_from_def)
  qed
  then show ?thesis by (simp add: heap_but_down_def)
qed

text \<open>Appending a node: only the last position is out of order.\<close>

lemma heap_but_up_append:
  assumes "heap_from gt 0 n xs" "\<And>j. j < n \<Longrightarrow> ys ! j = xs ! j"
  shows "heap_but_up gt (Suc n) n ys"
proof -
  have "\<not> gt (ys ! parent j) (ys ! j)" if "j < Suc n" "0 < j" "j \<noteq> n" for j
  proof -
    have "j < n" "parent j < n" using that parent_less[of j] by linarith+
    with assms that show ?thesis by (simp add: heap_from_def)
  qed
  moreover have "parent j \<noteq> n" if "j < Suc n" "0 < j" for j
    using that parent_less[of j] by linarith
  ultimately show ?thesis by (simp add: heap_but_up_def)
qed

section \<open>The heap theory of a strict weak order\<close>

locale heap_order =
  fixes gt :: "'a \<Rightarrow> 'a \<Rightarrow> bool"
  assumes gt_asym: "gt a b \<Longrightarrow> \<not> gt b a"
    and not_gt_trans: "\<not> gt a b \<Longrightarrow> \<not> gt b c \<Longrightarrow> \<not> gt a c"
begin

lemma gt_trans: "gt a b \<Longrightarrow> gt b c \<Longrightarrow> gt a c"
  using gt_asym not_gt_trans by blast

lemma gt_irrefl: "\<not> gt a a"
  using gt_asym by blast

lemma smallest_gt: "smallest gt n xs i \<noteq> i \<Longrightarrow> gt (xs ! i) (xs ! smallest gt n xs i)"
  by (auto simp: smallest_def Let_def split: if_splits intro: gt_trans)

lemma smallest_child:
  assumes "0 < j" "j < n" "parent j = i"
  shows "\<not> gt (xs ! smallest gt n xs i) (xs ! j)"
proof -
  define s1 where "s1 = (if left i < n \<and> gt (xs ! i) (xs ! left i) then left i else i)"
  have l: "\<not> gt (xs ! s1) (xs ! left i)" if "left i < n"
    using that gt_irrefl by (simp add: s1_def)
  have s: "smallest gt n xs i = (if right i < n \<and> gt (xs ! s1) (xs ! right i) then right i else s1)"
    by (simp add: smallest_def s1_def Let_def)
  consider "j = left i" | "j = right i" using assms child_cases by blast
  then show ?thesis
  proof cases
    case 1
    show ?thesis
    proof (cases "right i < n \<and> gt (xs ! s1) (xs ! right i)")
      case True
      with l 1 assms(2) have "\<not> gt (xs ! right i) (xs ! left i)"
        by (metis gt_asym not_gt_trans)
      with True 1 show ?thesis by (simp add: s)
    next
      case False with l 1 assms(2) show ?thesis unfolding s by auto
    qed
  next
    case 2 with assms(2) gt_irrefl show ?thesis by (simp add: s)
  qed
qed

lemma sift_down_step:
  assumes "heap_but_down gt m n i xs" "i < n" "n \<le> length xs" "m \<le> i"
    and s: "s = smallest gt n xs i" "s \<noteq> i"
  shows "heap_but_down gt m n s (swap_at xs i s)"
proof -
  have sn: "s < n" and ps: "parent s = i" and pos: "0 < s"
    using smallest_less[OF assms(2)] smallest_cases[of gt n xs i] s by auto
  have nth: "swap_at xs i s ! k = (if k = s then xs ! i else if k = i then xs ! s else xs ! k)" for k
    using assms(2,3) sn by (simp add: nth_swap_at)
  have up: "gt (xs ! i) (xs ! s)" using smallest_gt s by blast
  have *: "\<not> gt (swap_at xs i s ! parent j) (swap_at xs i s ! j)"
    if j: "j < n" "0 < j" "m \<le> parent j" "parent j \<noteq> s" for j
  proof -
    consider "j = s" | "j \<noteq> s" "parent j = i" | "j = i" "parent j \<noteq> i" | "j \<noteq> s" "j \<noteq> i" "parent j \<noteq> i"
      by blast
    then show ?thesis
    proof cases
      case 1 then show ?thesis using gt_asym[OF up] ps s(2) by (simp only: nth) simp
    next
      case 2
      have "j \<noteq> i" using 2(2) parent_less[OF j(2)] by auto
      moreover have "\<not> gt (xs ! s) (xs ! j)" using smallest_child[OF j(2,1) 2(2)] s(1) by simp
      ultimately show ?thesis using 2 s(2) by (simp add: nth)
    next
      case 3
      then have "\<not> gt (xs ! parent i) (xs ! s)"
        using assms(1) sn pos ps j assms(4) by (auto simp: heap_but_down_def)
      then show ?thesis using 3 s(2) j by (simp add: nth)
    next
      case 4 then show ?thesis using assms(1) j by (simp add: nth heap_but_down_def)
    qed
  qed
  have "\<not> gt (swap_at xs i s ! parent s) (swap_at xs i s ! j)"
    if j: "j < n" "0 < j" "parent j = s" for j
  proof -
    have "j \<noteq> s" "j \<noteq> i" using j parent_less pos ps by (metis less_asym less_irrefl)+
    moreover have "\<not> gt (xs ! parent j) (xs ! j)"
      using assms(1,4) j s(2) ps pos parent_less[OF pos]
      by (auto simp: heap_but_down_def)
    ultimately show ?thesis using j ps s(2) by (simp add: nth)
  qed
  with * show ?thesis by (auto simp: heap_but_down_def)
qed

lemma sift_down_heap:
  "heap_but_down gt m n i xs \<Longrightarrow> i < n \<Longrightarrow> n \<le> length xs \<Longrightarrow> m \<le> i \<Longrightarrow>
   heap_from gt m n (sift_down gt n xs i)"
proof (induction gt\<equiv>gt n xs i rule: sift_down.induct)
  case (1 n xs i)
  let ?s = "smallest gt n xs i"
  show ?case
  proof (cases "?s = i")
    case True
    have "\<not> gt (xs ! parent j) (xs ! j)" if "j < n" "0 < j" "m \<le> parent j" for j
      using that 1(2) smallest_child[of j n i xs] True
      by (cases "parent j = i") (auto simp: heap_but_down_def)
    with True show ?thesis by (subst sift_down.simps) (simp add: heap_from_def)
  next
    case False
    have "heap_but_down gt m n ?s (swap_at xs i ?s)"
      using sift_down_step[OF 1(2,3,4,5)] False by simp
    moreover have "?s < n" "m \<le> ?s"
      using smallest_less[OF 1(3)] smallest_cases[of gt n xs i] 1(5)
      by (auto simp: left_def right_def)
    ultimately have "heap_from gt m n (sift_down gt n (swap_at xs i ?s) ?s)"
      using 1(1,3,4) False by simp
    with False 1(3) show ?thesis by (subst sift_down.simps) simp
  qed
qed

lemma build_heap_heap:
  "heap_from gt k n xs \<Longrightarrow> k \<le> n \<Longrightarrow> n \<le> length xs \<Longrightarrow> heap_from gt 0 n (build_heap gt n xs k)"
proof (induction gt\<equiv>gt n xs k rule: build_heap.induct)
  case (2 n xs i)
  have "heap_from gt i n (sift_down gt n xs i)"
    using 2(2,3,4) heap_but_down_start[of gt i n xs] by (intro sift_down_heap) auto
  with 2 show ?case by simp
qed simp

lemma sift_up_step:
  assumes "heap_but_up gt n i xs" "0 < i" "i < n" "n \<le> length xs" "gt (xs ! parent i) (xs ! i)"
  shows "heap_but_up gt n (parent i) (swap_at xs i (parent i))"
proof -
  let ?p = "parent i"
  have p: "?p < i" "?p < n" "?p < length xs" "i < length xs" "?p \<noteq> i"
    using assms(2,3,4) parent_less[of i] by linarith+
  have nth: "swap_at xs i ?p ! k = (if k = ?p then xs ! i else if k = i then xs ! ?p else xs ! k)" for k
    using p by (simp add: nth_swap_at)
  have ok: "\<not> gt (xs ! parent j) (xs ! j)" if "j < n" "0 < j" "j \<noteq> i" for j
    using assms(1) that by (auto simp: heap_but_up_def)
  have sub: "\<not> gt (xs ! ?p) (xs ! j)" if "j < n" "0 < j" "parent j = i" for j
    using assms(1,2) that by (auto simp: heap_but_up_def)
  have "\<not> gt (swap_at xs i ?p ! parent j) (swap_at xs i ?p ! j)"
    if j: "j < n" "0 < j" "j \<noteq> ?p" for j
  proof (cases "j = i")
    case True then show ?thesis using gt_asym[OF assms(5)] p by (simp add: nth)
  next
    case False
    have "\<not> gt (xs ! i) (xs ! j)" if "parent j = ?p"
      using ok[OF j(1,2) False] that gt_asym[OF assms(5)] not_gt_trans by metis
    then show ?thesis using False j ok[OF j(1,2) False] sub[OF j(1,2)] by (auto simp: nth)
  qed
  moreover have "\<not> gt (swap_at xs i ?p ! parent ?p) (swap_at xs i ?p ! j)"
    if j: "j < n" "0 < j" "parent j = ?p" "0 < ?p" for j
  proof -
    have pp: "parent ?p < ?p" using j by simp
    have g: "\<not> gt (xs ! parent ?p) (xs ! ?p)" using ok[of ?p] p j by simp
    have "\<not> gt (xs ! parent ?p) (xs ! j)" if "j \<noteq> i"
      using ok[OF j(1,2) that] j(3) g not_gt_trans by metis
    moreover have "j \<noteq> ?p" using j parent_less[of j] by auto
    ultimately show ?thesis using g pp p by (auto simp: nth)
  qed
  ultimately show ?thesis by (auto simp: heap_but_up_def)
qed

lemma sift_up_heap:
  "heap_but_up gt n i xs \<Longrightarrow> i < n \<Longrightarrow> n \<le> length xs \<Longrightarrow> heap_from gt 0 n (sift_up gt xs i)"
proof (induction gt\<equiv>gt xs i rule: sift_up.induct)
  case (1 xs i)
  show ?case
  proof (cases "0 < i \<and> gt (xs ! parent i) (xs ! i)")
    case True
    then have "parent i < n" using 1(3) parent_less[of i] by linarith
    with True 1 sift_up_step[of n i xs] show ?thesis by (subst sift_up.simps) simp
  next
    case False
    then have "heap_from gt 0 n xs"
      using 1(2) by (auto simp: heap_from_def heap_but_up_def)
    with False show ?thesis by (subst sift_up.simps) auto
  qed
qed

lemma heap_root_least: "heap_from gt 0 n xs \<Longrightarrow> j < n \<Longrightarrow> \<not> gt (xs ! 0) (xs ! j)"
proof (induction j rule: less_induct)
  case (less j)
  show ?case
  proof (cases "j = 0")
    case True then show ?thesis using gt_irrefl by simp
  next
    case False
    then have "parent j < j" by simp
    moreover have "\<not> gt (xs ! parent j) (xs ! j)"
      using less.prems False by (simp add: heap_from_def)
    ultimately show ?thesis using less not_gt_trans by (meson order.strict_trans)
  qed
qed

end

section \<open>The interface of a priority queue\<close>

text \<open>
  \<open>insert_all\<close> and \<open>drain\<close> are the two ways the server uses a queue: enqueuing tasks one after the
  other, and taking them out until it is empty.
\<close>

fun insert_all :: "('e \<Rightarrow> 'q \<Rightarrow> 'q option) \<Rightarrow> 'e list \<Rightarrow> 'q \<Rightarrow> 'q option" where
  "insert_all ins [] q = Some q"
| "insert_all ins (e # es) q = do { q' \<leftarrow> ins e q; insert_all ins es q' }"

fun drain :: "('q \<Rightarrow> ('e \<times> 'q) option) \<Rightarrow> nat \<Rightarrow> 'q \<Rightarrow> 'e list option" where
  "drain ext 0 q = Some []"
| "drain ext (Suc n) q = do { (e, q') \<leftarrow> ext q; es \<leftarrow> drain ext n q'; Some (e # es) }"

locale min_queue = heap_order gt for gt :: "'e \<Rightarrow> 'e \<Rightarrow> bool" +
  fixes wf :: "'q \<Rightarrow> bool"
    and items :: "'q \<Rightarrow> 'e multiset"
    and bound :: nat
    and ins :: "'e \<Rightarrow> 'q \<Rightarrow> 'q option"
    and ext :: "'q \<Rightarrow> ('e \<times> 'q) option"
  assumes ins_ok: "wf q \<Longrightarrow> size (items q) < bound \<Longrightarrow>
      \<exists>q'. ins e q = Some q' \<and> wf q' \<and> items q' = add_mset e (items q)"
    and ext_ok: "wf q \<Longrightarrow> items q \<noteq> {#} \<Longrightarrow>
      \<exists>e q'. ext q = Some (e, q') \<and> wf q' \<and> items q = add_mset e (items q') \<and>
             (\<forall>x \<in># items q. \<not> gt e x)"
begin

lemma insert_all_ok:
  "wf q \<Longrightarrow> size (items q) + length es \<le> bound \<Longrightarrow>
   \<exists>q'. insert_all ins es q = Some q' \<and> wf q' \<and> items q' = mset es + items q"
proof (induction es arbitrary: q)
  case (Cons e es)
  from Cons.prems ins_ok[of q e] obtain q1
    where q1: "ins e q = Some q1" "wf q1" "items q1 = add_mset e (items q)" by auto
  with Cons.IH[of q1] Cons.prems show ?case by auto
qed simp

lemma drain_ok:
  "wf q \<Longrightarrow> size (items q) = n \<Longrightarrow>
   \<exists>es. drain ext n q = Some es \<and> mset es = items q \<and> sorted_wrt (\<lambda>a b. \<not> gt a b) es"
proof (induction n arbitrary: q)
  case (Suc n)
  from Suc.prems have "items q \<noteq> {#}" by auto
  from ext_ok[OF Suc.prems(1) this] obtain e q' where
    e: "ext q = Some (e, q')" "wf q'" "items q = add_mset e (items q')" "\<forall>x \<in># items q. \<not> gt e x"
    by blast
  with Suc.IH[of q'] Suc.prems obtain es where
    es: "drain ext n q' = Some es" "mset es = items q'" "sorted_wrt (\<lambda>a b. \<not> gt a b) es" by auto
  then have "\<forall>x \<in> set es. \<not> gt e x"
    using e(3,4) by (metis add_mset_add_single set_mset_mset union_iff)
  with e es show ?case by simp
qed simp

lemma insert_drain_sorts:
  assumes "wf q" "items q = {#}" "length es \<le> bound"
  shows "\<exists>q' out. insert_all ins es q = Some q' \<and> drain ext (length es) q' = Some out \<and>
    mset out = mset es \<and> sorted_wrt (\<lambda>a b. \<not> gt a b) out"
proof -
  from assms insert_all_ok[of q es] obtain q' where
    "insert_all ins es q = Some q'" "wf q'" "items q' = mset es" by auto
  with drain_ok[of q' "length es"] show ?thesis by auto
qed

end

end
