(* ===== verification/ArrayHeap.thy ===== *)
theory ArrayHeap
  imports BinHeap
begin

text \<open>
  The growable array heap of prioq.c and hrt_prioq.c. The two files differ only in the node type,
  its size and the comparison of keys, so the operations are defined here over \<open>gt\<close> (greater key),
  \<open>w\<close> (bytes per node) and \<open>zero\<close> (the node of zero bytes); Prioq and HrtPrioq instantiate them. The
  array is a block of \<open>capacity\<close> nodes of which the first \<open>len\<close> are the heap; an operation returns
  \<open>None\<close> where the C code has undefined behaviour. The locale \<open>array_heap\<close> proves that the
  operations implement the interface \<open>min_queue\<close>.
\<close>

definition PARAMETER_K :: nat where
  "PARAMETER_K = 2"

record 'n aheap =
  ah_array :: "'n list option"
  ah_len :: nat
  ah_capacity :: nat

definition set_array :: "'n aheap \<Rightarrow> 'n list \<Rightarrow> 'n aheap" where
  "set_array h arr = h\<lparr>ah_array := map_option (\<lambda>_. arr) (ah_array h)\<rparr>"

definition ah_node_at :: "'n aheap \<Rightarrow> int \<Rightarrow> 'n option" where
  "ah_node_at h idx = (if idx < 0 then None else rd (cells (ah_array h)) (nat idx))"

definition ah_heapify :: "('n \<Rightarrow> 'n \<Rightarrow> bool) \<Rightarrow> 'n aheap \<Rightarrow> nat \<Rightarrow> 'n aheap option" where
  "ah_heapify gt h idx =
     map_option (set_array h) (heapify_loop gt (ah_len h) (cells (ah_array h)) idx)"

definition ah_build :: "('n \<Rightarrow> 'n \<Rightarrow> bool) \<Rightarrow> 'n aheap \<Rightarrow> 'n aheap option" where
  "ah_build gt h =
     (let idx = to_int32 (sz_sub (ah_len h div 2) 1)
      in map_option (set_array h)
           (build_loop gt (ah_len h) (cells (ah_array h)) (nat (idx + 1))))"

text \<open>\<open>talloc\<close>, then \<open>memset\<close> of the whole block (through a null pointer if the allocation failed).\<close>

definition ah_alloc_zeroed :: "'n mem_mgr \<Rightarrow> nat \<Rightarrow> 'n \<Rightarrow> nat \<Rightarrow> 'n list option" where
  "ah_alloc_zeroed M w zero c =
     (let bytes = sz (w * c) in do {
        arr \<leftarrow> malloc_cells M w bytes;
        fill_cells arr 0 (bytes div w) zero
      })"

definition ah_create :: "'n mem_mgr \<Rightarrow> nat \<Rightarrow> 'n \<Rightarrow> int \<Rightarrow> (int \<times> 'n aheap) option" where
  "ah_create M w zero l =
     (let c = sz_of_int (2 * l) in do {
        arr \<leftarrow> ah_alloc_zeroed M w zero c;
        Some (0, \<lparr>ah_array = Some arr, ah_len = 0, ah_capacity = c\<rparr>)
      })"

definition ah_decreasekey :: "('n \<Rightarrow> 'n \<Rightarrow> bool) \<Rightarrow> 'n aheap \<Rightarrow> int \<Rightarrow> 'n \<Rightarrow> 'n aheap option" where
  "ah_decreasekey gt h idx node = do {
     k \<leftarrow> ah_node_at h idx;
     if \<not> gt node k
     then map_option (set_array h) (siftup_loop gt (cells (ah_array h)) (nat idx))
     else Some h
   }"

text \<open>The part both extraction functions share: clear the root, swap it with the last node, shrink
  the array, restore the heap.\<close>

definition ah_remove_root ::
    "('n \<Rightarrow> 'n \<Rightarrow> bool) \<Rightarrow> nat \<Rightarrow> 'n \<Rightarrow> 'n mem_mgr \<Rightarrow> 'n aheap \<Rightarrow> 'n aheap option" where
  "ah_remove_root gt w zero M h = do {
     let arr = cells (ah_array h);
     let last = ah_len h - 1;
     arr \<leftarrow> wr arr 0 zero;
     a \<leftarrow> rd arr 0;
     b \<leftarrow> rd arr last;
     let h = (set_array h (arr[0 := b, last := a]))\<lparr>ah_len := last\<rparr>;
     let c = sz (ah_capacity h div 2 + PARAMETER_K);
     let h = (if ah_len h < sz_sub (ah_capacity h div 2) PARAMETER_K
              then h\<lparr>ah_capacity := c,
                     ah_array := realloc_cells M w (ah_array h) (sz (c * w))\<rparr>
              else h);
     ah_heapify gt h 0
   }"

definition ah_extract ::
    "('n \<Rightarrow> 'n \<Rightarrow> bool) \<Rightarrow> nat \<Rightarrow> 'n \<Rightarrow> 'n mem_mgr \<Rightarrow> 'n aheap \<Rightarrow> ('n \<times> 'n aheap) option" where
  "ah_extract gt w zero M h =
     (if 0 < ah_len h
      then do { mn \<leftarrow> rd (cells (ah_array h)) 0;
                h' \<leftarrow> ah_remove_root gt w zero M h;
                Some (mn, h') }
      else Some (zero, h))"

definition ah_grow :: "nat \<Rightarrow> 'n mem_mgr \<Rightarrow> 'n aheap \<Rightarrow> 'n aheap" where
  "ah_grow w M h =
     (let c = sz (2 * ah_capacity h + PARAMETER_K)
      in h\<lparr>ah_capacity := c, ah_array := realloc_cells M w (ah_array h) (sz (c * w))\<rparr>)"

definition ah_append :: "('n \<Rightarrow> 'n \<Rightarrow> bool) \<Rightarrow> 'n aheap \<Rightarrow> 'n \<Rightarrow> (int \<times> 'n aheap) option" where
  "ah_append gt h e = do {
     arr \<leftarrow> wr (cells (ah_array h)) (ah_len h) e;
     let h = (set_array h arr)\<lparr>ah_len := sz (ah_len h + 1)\<rparr>;
     node \<leftarrow> rd (cells (ah_array h)) (sz_sub (ah_len h) 1);
     h \<leftarrow> ah_decreasekey gt h (to_int32 (sz_sub (ah_len h) 1)) node;
     Some (0, h)
   }"

definition ah_insert ::
    "('n \<Rightarrow> 'n \<Rightarrow> bool) \<Rightarrow> nat \<Rightarrow> 'n mem_mgr \<Rightarrow> 'n aheap \<Rightarrow> 'n \<Rightarrow> (int \<times> 'n aheap) option" where
  "ah_insert gt w M h e =
     (if ah_len h = ah_capacity h
      then let h' = ah_grow w M h
           in if ah_array h' = None then Some (- 1, h') else ah_append gt h' e
      else ah_append gt h e)"

definition ah_destroy :: "'n aheap \<Rightarrow> 'n aheap" where
  "ah_destroy h = h\<lparr>ah_array := None, ah_len := 0\<rparr>"

text \<open>How a client enqueues: the call, with its status checked for 0.\<close>

definition ah_enqueue ::
    "('n \<Rightarrow> 'n \<Rightarrow> bool) \<Rightarrow> nat \<Rightarrow> 'n mem_mgr \<Rightarrow> 'n \<Rightarrow> 'n aheap \<Rightarrow> 'n aheap option" where
  "ah_enqueue gt w M e h = do {
     (r, h') \<leftarrow> ah_insert gt w M h e;
     if r = 0 then Some h' else None
   }"

section \<open>Representation invariant and abstraction\<close>

definition ah_nodes :: "'n aheap \<Rightarrow> 'n list" where
  "ah_nodes h = take (ah_len h) (cells (ah_array h))"

definition ah_items :: "'n aheap \<Rightarrow> 'n multiset" where
  "ah_items h = mset (ah_nodes h)"

definition ah_shape :: "'n aheap \<Rightarrow> bool" where
  "ah_shape h \<longleftrightarrow> ah_array h \<noteq> None \<and> length (cells (ah_array h)) = ah_capacity h \<and>
     ah_len h \<le> ah_capacity h \<and> ah_capacity h \<le> 2 ^ 32"

definition ah_wf :: "('n \<Rightarrow> 'n \<Rightarrow> bool) \<Rightarrow> 'n aheap \<Rightarrow> bool" where
  "ah_wf gt h \<longleftrightarrow> ah_shape h \<and> heap_from gt 0 (ah_len h) (cells (ah_array h))"

lemma set_array_simps [simp]:
  "ah_len (set_array h a) = ah_len h" "ah_capacity (set_array h a) = ah_capacity h"
  "ah_array h \<noteq> None \<Longrightarrow> cells (ah_array (set_array h a)) = a"
  "ah_array (set_array h a) = None \<longleftrightarrow> ah_array h = None"
  by (auto simp: set_array_def)

lemma ah_shapeD:
  assumes "ah_shape h"
  shows "ah_array h \<noteq> None" "length (cells (ah_array h)) = ah_capacity h"
    "ah_len h \<le> ah_capacity h" "ah_capacity h \<le> 2 ^ 32"
  using assms by (auto simp: ah_shape_def)

lemma ah_wf_shape: "ah_wf gt h \<Longrightarrow> ah_shape h"
  by (simp add: ah_wf_def)

lemma size_ah_items: "ah_shape h \<Longrightarrow> size (ah_items h) = ah_len h"
  by (simp add: ah_items_def ah_nodes_def ah_shape_def)

lemma set_array_shape:
  "ah_shape h \<Longrightarrow> length a = length (cells (ah_array h)) \<Longrightarrow> ah_shape (set_array h a)"
  by (simp add: ah_shape_def)

lemma block_size:
  "0 < w \<Longrightarrow> w \<le> 2 ^ 20 \<Longrightarrow> c \<le> 2 ^ 33 \<Longrightarrow> sz (c * w) div w = c \<and> sz (w * c) div w = c"
proof -
  assume "0 < w" "w \<le> 2 ^ 20" "c \<le> 2 ^ 33"
  then have "c * w \<le> 2 ^ 33 * 2 ^ 20" by (intro mult_mono) auto
  then have "sz (c * w) = c * w" by (intro sz_small) simp
  with \<open>0 < w\<close> show ?thesis by (simp add: mult.commute)
qed

lemma shrink_cond:
  assumes "n \<le> c" "c \<le> 2 ^ 32"
  shows "n - 1 < sz_sub (c div 2) PARAMETER_K \<Longrightarrow>
      n - 1 \<le> c div 2 + PARAMETER_K \<and> sz (c div 2 + PARAMETER_K) = c div 2 + PARAMETER_K"
  using assms
  by (cases "2 \<le> c div 2") (auto simp: PARAMETER_K_def size_simps)

text \<open>What remains in the array once the root is swapped out, whatever the capacity becomes.\<close>

lemma root_swapped_mset:
  assumes "0 < n" "n \<le> length arr"
  shows "mset (take n arr) = add_mset (arr ! 0) (mset (take (n - 1) (arr[0 := arr ! (n - 1)])))"
proof (cases "n = 1")
  case True
  with assms show ?thesis by (cases arr) auto
next
  case False
  then obtain m where n: "n = Suc (Suc m)" using assms by (cases n; cases "n - 1") auto
  obtain x xs where arr: "arr = x # xs" using assms by (cases arr) auto
  have "mset (take (Suc m) xs) = add_mset (xs ! m) (mset (take m xs))"
    using assms by (simp add: n arr take_Suc_conv_app_nth)
  then show ?thesis by (simp add: n arr)
qed

section \<open>The operations keep the heap\<close>

locale array_heap = heap_order gt for gt :: "'n \<Rightarrow> 'n \<Rightarrow> bool" +
  fixes w :: nat and zero :: 'n
  assumes w_pos: "0 < w" and w_small: "w \<le> 2 ^ 20"
begin

lemma ah_create_ok:
  assumes "grants_all M" "0 \<le> l" "l \<le> 2 ^ 31"
  shows "\<exists>h. ah_create M w zero l = Some (0, h) \<and> ah_wf gt h \<and> ah_items h = {#}"
proof -
  have c: "sz_of_int (2 * l) = nat (2 * l)" "nat (2 * l) \<le> 2 ^ 32"
    using assms by (auto intro!: sz_of_int_nat)
  with block_size[OF w_pos w_small, of "nat (2 * l)"] assms show ?thesis
    by (simp add: ah_create_def ah_alloc_zeroed_def mem_simps Let_def ah_wf_def
        ah_shape_def heap_from_def ah_items_def ah_nodes_def)
qed

lemma ah_heapify_ok:
  assumes sh: "ah_shape h" and hp: "heap_but_down gt 0 (ah_len h) 0 (cells (ah_array h))"
  shows "\<exists>h'. ah_heapify gt h 0 = Some h' \<and> ah_wf gt h' \<and> ah_items h' = ah_items h \<and>
              ah_len h' = ah_len h"
proof (cases "ah_len h = 0")
  case True
  with sh show ?thesis
    by (auto simp: ah_heapify_def heapify_loop_beyond ah_wf_def heap_from_def
        ah_items_def ah_nodes_def set_array_shape)
next
  case False
  let ?a = "cells (ah_array h)"
  have n: "ah_len h \<le> length ?a" using ah_shapeD[OF sh] by simp
  have "heapify_loop gt (ah_len h) ?a 0 = Some (sift_down gt (ah_len h) ?a 0)"
    using False n by (simp add: heapify_loop_eq)
  moreover have "heap_from gt 0 (ah_len h) (sift_down gt (ah_len h) ?a 0)"
    using sift_down_heap[OF hp] False n by simp
  ultimately show ?thesis
    using False n sh ah_shapeD[OF sh]
    by (auto simp: ah_heapify_def ah_wf_def ah_items_def ah_nodes_def
        set_array_shape take_sift_down)
qed

lemma ah_remove_root_ok:
  assumes wf: "ah_wf gt h" and n: "0 < ah_len h" and M: "grants_all M"
  shows "\<exists>h'. ah_remove_root gt w zero M h = Some h' \<and> ah_wf gt h' \<and> ah_len h' = ah_len h - 1 \<and>
    ah_items h = add_mset (cells (ah_array h) ! 0) (ah_items h')"
proof -
  define arr where "arr = cells (ah_array h)"
  define last where "last = ah_len h - 1"
  define c where "c = sz (ah_capacity h div 2 + PARAMETER_K)"
  define arr2 where "arr2 = arr[0 := arr[0 := zero] ! last, last := zero]"
  define h1 where "h1 = (set_array h arr2)\<lparr>ah_len := last\<rparr>"
  define h2 where "h2 = (if last < sz_sub (ah_capacity h div 2) PARAMETER_K
     then h1\<lparr>ah_capacity := c, ah_array := realloc_cells M w (ah_array h1)
                                   (sz (c * w))\<rparr> else h1)"
  have sh: "ah_shape h" using wf by (simp add: ah_wf_def)
  note shD = ah_shapeD[OF sh]
  have len: "ah_len h \<le> length arr" "last < length arr" "0 < length arr"
    using shD n by (auto simp: arr_def last_def)
  have unfold: "ah_remove_root gt w zero M h = ah_heapify gt h2 0"
    using len n
    by (simp add: ah_remove_root_def mem_simps Let_def h2_def h1_def arr2_def c_def
        last_def arr_def[symmetric] set_array_def)
  have t2: "take last arr2 = take last (arr[0 := arr ! last])"
    by (cases "last = 0") (auto simp: arr2_def)
  have h2: "ah_shape h2 \<and> ah_len h2 = last \<and> take last (cells (ah_array h2)) = take last arr2"
  proof (cases "last < sz_sub (ah_capacity h div 2) PARAMETER_K")
    case True
    have c': "last \<le> c" "c \<le> 2 ^ 32"
      using shrink_cond[of "ah_len h" "ah_capacity h"] True shD n
      by (auto simp: c_def last_def PARAMETER_K_def)
    then have "sz (c * w) div w = c"
      using block_size[OF w_pos w_small, of c] by simp
    with True c' shD len M show ?thesis
      by (auto simp: h2_def h1_def ah_shape_def mem_simps arr2_def arr_def
          min_def)
  next
    case False
    with shD len n show ?thesis
      by (auto simp: h2_def h1_def ah_shape_def arr2_def arr_def last_def set_array_def)
  qed
  have nth: "cells (ah_array h2) ! j = arr ! j" if "0 < j" "j < last" for j
    using that h2 t2 by (metis nth_list_update_neq nth_take order_less_irrefl)
  have "heap_but_down gt 0 last 0 (cells (ah_array h2))"
    using wf nth last_def arr_def
    by (intro heap_but_down_root[of _ "ah_len h" arr]) (auto simp: ah_wf_def)
  with h2 ah_heapify_ok[of h2] obtain h' where
    h': "ah_heapify gt h2 0 = Some h'" "ah_wf gt h'" "ah_items h' = ah_items h2" "ah_len h' = last"
    by auto
  have "ah_items h2 = mset (take last (arr[0 := arr ! last]))"
    using h2 t2 by (simp add: ah_items_def ah_nodes_def)
  moreover have "ah_items h = add_mset (arr ! 0) (mset (take last (arr[0 := arr ! last])))"
    using root_swapped_mset[OF n len(1)]
    by (simp add: ah_items_def ah_nodes_def arr_def last_def)
  ultimately show ?thesis using h' unfold by (auto simp: arr_def last_def)
qed

lemma ah_min_least:
  assumes "ah_wf gt h" "x \<in># ah_items h"
  shows "\<not> gt (cells (ah_array h) ! 0) x"
proof -
  obtain j where "j < ah_len h" "x = cells (ah_array h) ! j"
    using assms by (auto simp: ah_items_def ah_nodes_def in_set_conv_nth)
  with assms(1) show ?thesis
    using heap_root_least[of "ah_len h" "cells (ah_array h)" j] by (simp add: ah_wf_def)
qed

lemma ah_extract_ok:
  assumes "ah_wf gt h" "ah_items h \<noteq> {#}" "grants_all M"
  shows "\<exists>e h'. ah_extract gt w zero M h = Some (e, h') \<and> ah_wf gt h' \<and>
      ah_items h = add_mset e (ah_items h') \<and> (\<forall>x \<in># ah_items h. \<not> gt e x)"
proof -
  have sh: "ah_shape h" using assms(1) by (simp add: ah_wf_def)
  have n: "0 < ah_len h" using size_ah_items[OF sh] assms(2) by (metis gr0I size_eq_0_iff_empty)
  then have l: "0 < length (cells (ah_array h))" using ah_shapeD[OF sh] by simp
  from ah_remove_root_ok[OF assms(1) n assms(3)] obtain h' where
    h': "ah_remove_root gt w zero M h = Some h'" "ah_wf gt h'"
      "ah_items h = add_mset (cells (ah_array h) ! 0) (ah_items h')" by blast
  have "ah_extract gt w zero M h = Some (cells (ah_array h) ! 0, h')"
    using n l h' by (simp add: ah_extract_def mem_simps)
  with h' ah_min_least[OF assms(1)] show ?thesis by blast
qed

lemma ah_append_ok:
  assumes sh: "ah_shape h" and hp: "heap_from gt 0 (ah_len h) (cells (ah_array h))"
    and room: "ah_len h < ah_capacity h" and small: "ah_len h < 2 ^ 30"
  shows "\<exists>h'. ah_append gt h e = Some (0, h') \<and> ah_wf gt h' \<and> ah_len h' = ah_len h + 1 \<and>
    ah_items h' = add_mset e (ah_items h)"
proof -
  let ?n = "ah_len h" and ?a = "cells (ah_array h)"
  define arr where "arr = ?a[?n := e]"
  note shD = ah_shapeD[OF sh]
  have n: "?n < length ?a" using shD room by simp
  have conv: "sz (?n + 1) = ?n + 1" "sz_sub (?n + 1) 1 = ?n" "to_int32 ?n = int ?n"
    using small by (simp_all add: size_simps)
  have up: "heap_but_up gt (Suc ?n) ?n arr"
    by (rule heap_but_up_append[OF hp]) (simp add: arr_def)
  define arr' where "arr' = sift_up gt arr ?n"
  have hp': "heap_from gt 0 (Suc ?n) arr'"
    unfolding arr'_def by (rule sift_up_heap[OF up]) (use n in \<open>simp_all add: arr_def\<close>)
  have ms: "mset (take (Suc ?n) arr') = mset (take (Suc ?n) arr)"
    unfolding arr'_def by (rule take_sift_up) (use n in \<open>simp_all add: arr_def\<close>)
  have "ah_append gt h e = Some (0, (set_array ((set_array h arr)\<lparr>ah_len := ?n + 1\<rparr>) arr'))"
    using n conv shD(1)
    by (simp add: ah_append_def mem_simps Let_def ah_decreasekey_def ah_node_at_def gt_irrefl
        arr_def[symmetric] siftup_loop_eq arr'_def[symmetric])
       (simp add: mem_simps arr_def gt_irrefl siftup_loop_eq arr'_def)
  moreover have "ah_items h + {#e#} = mset (take (Suc ?n) arr)"
    using n by (simp add: arr_def ah_items_def ah_nodes_def take_Suc_conv_app_nth)
  moreover have "length arr' = ah_capacity h" using shD by (simp add: arr'_def arr_def)
  ultimately show ?thesis
    using hp' ms shD room
    by (auto simp: ah_wf_def ah_shape_def ah_items_def ah_nodes_def
        set_array_def)
qed

lemma ah_grow_ok:
  assumes sh: "ah_shape h" and "ah_capacity h < 2 ^ 31" and M: "grants_all M"
  shows "ah_shape (ah_grow w M h) \<and> ah_len (ah_grow w M h) = ah_len h \<and>
    ah_len h < ah_capacity (ah_grow w M h) \<and>
    take (ah_len h) (cells (ah_array (ah_grow w M h))) = ah_nodes h"
proof -
  let ?c = "2 * ah_capacity h + 2"
  have "sz ?c = ?c" using assms(2) by (simp add: sz_def)
  moreover have "sz (?c * w) div w = ?c"
    using assms(2) block_size[OF w_pos w_small, of ?c] by simp
  moreover note c = calculation
  with ah_shapeD[OF sh] assms(2) M show ?thesis
    by (simp add: ah_grow_def PARAMETER_K_def mem_simps ah_shape_def
        ah_nodes_def Let_def)
qed

lemma ah_insert_ok:
  assumes wf: "ah_wf gt h" and small: "ah_len h < 2 ^ 30" and M: "grants_all M"
  shows "\<exists>h'. ah_insert gt w M h e = Some (0, h') \<and> ah_wf gt h' \<and> ah_len h' = ah_len h + 1 \<and>
    ah_items h' = add_mset e (ah_items h)"
proof (cases "ah_len h = ah_capacity h")
  case False
  then have "ah_len h < ah_capacity h"
    using wf by (simp add: ah_wf_def ah_shape_def)
  with False wf small ah_append_ok[of h e] show ?thesis
    by (simp add: ah_insert_def ah_wf_def)
next
  case True
  let ?g = "ah_grow w M h"
  have sh: "ah_shape h" using wf by (simp add: ah_wf_def)
  have g: "ah_shape ?g" "ah_len ?g = ah_len h" "ah_len h < ah_capacity ?g"
      "take (ah_len h) (cells (ah_array ?g)) = ah_nodes h"
    using ah_grow_ok[OF sh _ M] True small by simp_all
  have "heap_from gt 0 (ah_len ?g) (cells (ah_array ?g))"
    using wf g(2,4) ah_shapeD[OF sh] heap_from_cong
    by (metis ah_nodes_def ah_wf_def)
  moreover have "ah_items ?g = ah_items h"
    using g by (simp add: ah_items_def ah_nodes_def)
  ultimately show ?thesis
    using ah_append_ok[of ?g e] g True small ah_shapeD[OF g(1)]
    by (simp add: ah_insert_def Let_def)
qed

lemma ah_build_ok:
  assumes "ah_shape h" "ah_len h < 2 ^ 31"
  shows "\<exists>h'. ah_build gt h = Some h' \<and> ah_wf gt h' \<and> ah_items h' = ah_items h"
proof -
  let ?n = "ah_len h" and ?a = "cells (ah_array h)"
  note shD = ah_shapeD[OF assms(1)]
  have idx: "nat (to_int32 (sz_sub (?n div 2) 1) + 1) = ?n div 2"
  proof (cases "?n div 2 = 0")
    case True
    have "to_int32 (sz_sub 0 1) = - 1" by (simp add: sz_sub_def to_int32_def)
    with True show ?thesis by simp
  next
    case False
    with assms(2) show ?thesis by (simp add: size_simps)
  qed
  let ?b = "build_heap gt ?n ?a (?n div 2)"
  have n: "?n \<le> length ?a" using shD by simp
  have "build_loop gt ?n ?a (?n div 2) = Some ?b"
    using n by (simp add: build_loop_eq)
  then have "ah_build gt h = Some (set_array h ?b)"
    using idx by (simp add: ah_build_def Let_def)
  moreover have "heap_from gt 0 ?n ?b"
    using n by (intro build_heap_heap heap_from_half) simp_all
  ultimately show ?thesis
    using shD n assms(1)
    by (auto simp: ah_wf_def set_array_shape ah_items_def ah_nodes_def take_build_heap)
qed

lemma ah_failed_growth:
  assumes "ah_shape h" "ah_len h = ah_capacity h" "\<forall>n. \<not> grants M n"
  shows "\<exists>h'. ah_insert gt w M h e = Some (- 1, h') \<and> ah_len h' = ah_len h \<and>
    ah_nodes h' = [] \<and> (\<forall>M' e'. ah_insert gt w M' h' e' = None)"
proof -
  let ?h = "ah_grow w M h"
  have c: "ah_capacity ?h = 2 * ah_capacity h + 2" "ah_len ?h = ah_len h" "ah_array ?h = None"
    using ah_shapeD[OF assms(1)] assms(3)
    by (simp_all add: ah_grow_def Let_def realloc_cells_def PARAMETER_K_def sz_def)
  then have "ah_insert gt w M h e = Some (- 1, ?h)"
    using assms(2) by (simp add: ah_insert_def)
  moreover have "ah_insert gt w M' ?h e' = None" for M' e'
    using c assms(2) by (simp add: ah_insert_def ah_append_def wr_def)
  moreover have "ah_nodes ?h = []" using c by (simp add: ah_nodes_def)
  ultimately show ?thesis using c(2) by blast
qed

lemma ah_enqueue_ok:
  assumes "ah_wf gt q \<and> grants_all M" "size (ah_items q) < 2 ^ 30"
  shows "\<exists>q'. ah_enqueue gt w M e q = Some q' \<and> (ah_wf gt q' \<and> grants_all M) \<and>
      ah_items q' = add_mset e (ah_items q)"
proof -
  have "ah_len q < 2 ^ 30" using assms size_ah_items[OF ah_wf_shape[of gt q]] by auto
  with assms(1) obtain h' where "ah_insert gt w M q e = Some (0, h')" "ah_wf gt h'"
      "ah_items h' = add_mset e (ah_items q)"
    using ah_insert_ok[of q M e] by auto
  with assms(1) show ?thesis by (simp add: ah_enqueue_def)
qed

lemma array_heap_is_min_queue:
  "min_queue gt (\<lambda>h. ah_wf gt h \<and> grants_all M) ah_items (2 ^ 30)
     (ah_enqueue gt w M) (ah_extract gt w zero M)"
proof (unfold_locales, goal_cases)
  case (1 q e)
  then show ?case by (rule ah_enqueue_ok)
next
  case (2 q)
  then show ?case using ah_extract_ok[of q M] by blast
qed

lemma ah_drains_sorted:
  assumes "grants_all M" "0 \<le> l" "l \<le> 2 ^ 31" "length es \<le> 2 ^ 30"
  shows "\<exists>h0 h out. ah_create M w zero l = Some (0, h0) \<and>
    insert_all (ah_enqueue gt w M) es h0 = Some h \<and>
    drain (ah_extract gt w zero M) (length es) h = Some out \<and>
    mset out = mset es \<and> sorted_wrt (\<lambda>a b. \<not> gt a b) out"
proof -
  from ah_create_ok[OF assms(1-3)] obtain h0 where
    h0: "ah_create M w zero l = Some (0, h0)" "ah_wf gt h0" "ah_items h0 = {#}" by auto
  with assms min_queue.insert_drain_sorts[OF array_heap_is_min_queue, of h0 M es]
  show ?thesis by auto
qed

end

end
