(* ===== verification/Prioq.thy ===== *)
theory Prioq
  imports ArrayHeap
begin

text \<open>
  prioq.c: the min-heap keyed by a \<open>time_t\<close> (task priority or due time) that the thread pool and the
  timed-task queue use, as the instance of ArrayHeap for \<open>struct prioqnode\<close>. A null data pointer is
  \<open>None\<close>.
\<close>

definition sizeof_prioqnode :: nat where
  "sizeof_prioqnode = 16"

record 'd prioqnode =
  pn_key :: int
  pn_data :: "'d option"

type_synonym 'd prioq = "'d prioqnode aheap"

definition prioqnode_Init :: "int \<Rightarrow> 'd option \<Rightarrow> 'd prioqnode" where
  "prioqnode_Init key d = \<lparr>pn_key = key, pn_data = d\<rparr>"

definition prioqnode_copy :: "'d prioqnode \<Rightarrow> 'd prioqnode" where
  "prioqnode_copy src = \<lparr>pn_key = pn_key src, pn_data = pn_data src\<rparr>"

definition zero_node :: "'d prioqnode" where
  "zero_node = \<lparr>pn_key = 0, pn_data = None\<rparr>"

definition node_gt :: "'d prioqnode \<Rightarrow> 'd prioqnode \<Rightarrow> bool" where
  "node_gt a b \<longleftrightarrow> pn_key b < pn_key a"

definition prioq_get_size :: "'d prioq \<Rightarrow> nat" where
  "prioq_get_size h = ah_len h"

definition prioq_get_key_at :: "'d prioq \<Rightarrow> int \<Rightarrow> int option" where
  "prioq_get_key_at h idx = map_option pn_key (ah_node_at h idx)"

definition prioq_IsMinHeap :: "'d prioq \<Rightarrow> nat \<Rightarrow> bool" where
  "prioq_IsMinHeap h idx =
     isminheap_rec (\<lambda>a b. pn_key a < pn_key b) (cells (ah_array h)) (ah_len h) idx"

definition min_heapify_it :: "'d prioq \<Rightarrow> nat \<Rightarrow> 'd prioq option" where
  "min_heapify_it h idx = ah_heapify node_gt h idx"

text \<open>\<open>prioq_print\<close>: the keys it prints, in array order.\<close>

definition prioq_print :: "'d prioq \<Rightarrow> int list option" where
  "prioq_print h =
     those (map (\<lambda>i. prioq_get_key_at h (int i)) [0..<nat (to_int32 (ah_len h))])"

definition prioq_BuildMinHeap :: "'d prioq \<Rightarrow> 'd prioq option" where
  "prioq_BuildMinHeap h = ah_build node_gt h"

definition prioq_create :: "'d prioqnode mem_mgr \<Rightarrow> int \<Rightarrow> (int \<times> 'd prioq) option" where
  "prioq_create M l = ah_create M sizeof_prioqnode zero_node l"

definition prioq_initfromarray ::
    "'d prioqnode mem_mgr \<Rightarrow> int list \<Rightarrow> int \<Rightarrow> (int \<times> 'd prioq) option" where
  "prioq_initfromarray M xs l =
     (let c = sz_of_int (2 * l + int PARAMETER_K) in do {
        arr \<leftarrow> ah_alloc_zeroed M sizeof_prioqnode zero_node c;
        src \<leftarrow> read_cells xs 0 (nat l);
        arr \<leftarrow> copy_cells arr 0 (map (\<lambda>k. prioqnode_Init k None) src);
        Some (0, \<lparr>ah_array = Some arr, ah_len = sz_of_int l, ah_capacity = c\<rparr>)
      })"

definition prioq_DecreaseKey ::
    "'d prioq \<Rightarrow> int \<Rightarrow> 'd prioqnode \<Rightarrow> 'd prioq option" where
  "prioq_DecreaseKey h idx node = ah_decreasekey node_gt h idx node"

definition prioq_extract_min_node ::
    "'d prioqnode mem_mgr \<Rightarrow> 'd prioq \<Rightarrow> ('d prioqnode \<times> 'd prioq) option" where
  "prioq_extract_min_node M h =
     map_option (\<lambda>(e, h'). (prioqnode_copy e, h'))
       (ah_extract node_gt sizeof_prioqnode zero_node M h)"

definition prioq_extract_min ::
    "'d prioqnode mem_mgr \<Rightarrow> 'd prioq \<Rightarrow> ('d option \<times> 'd prioq) option" where
  "prioq_extract_min M h =
     map_option (\<lambda>(e, h'). (pn_data e, h'))
       (ah_extract node_gt sizeof_prioqnode zero_node M h)"

definition prioq_GetMinimum :: "'d prioq \<Rightarrow> 'd prioqnode option" where
  "prioq_GetMinimum h = rd (cells (ah_array h)) 0"

definition prioq_min_insert ::
    "'d prioqnode mem_mgr \<Rightarrow> 'd prioq \<Rightarrow> int \<Rightarrow> 'd option \<Rightarrow> (int \<times> 'd prioq) option" where
  "prioq_min_insert M h key d = ah_insert node_gt sizeof_prioqnode M h (prioqnode_Init key d)"

definition prioq_destroy :: "'d prioq \<Rightarrow> 'd prioq" where
  "prioq_destroy h = ah_destroy h"

section \<open>The queue interface\<close>

definition prioq_enqueue ::
    "'d prioqnode mem_mgr \<Rightarrow> 'd prioqnode \<Rightarrow> 'd prioq \<Rightarrow> 'd prioq option" where
  "prioq_enqueue M e h = do {
     (r, h') \<leftarrow> prioq_min_insert M h (pn_key e) (pn_data e);
     if r = 0 then Some h' else None
   }"

abbreviation prioq_wf :: "'d prioq \<Rightarrow> bool" where
  "prioq_wf h \<equiv> ah_wf node_gt h"

interpretation node: array_heap node_gt sizeof_prioqnode zero_node
  by unfold_locales (auto simp: node_gt_def sizeof_prioqnode_def)

lemma prioqnode_copy_id [simp]: "prioqnode_copy e = e"
  by (simp add: prioqnode_copy_def)

lemma prioqnode_Init_eta [simp]: "prioqnode_Init (pn_key e) (pn_data e) = e"
  by (simp add: prioqnode_Init_def)

lemma prioq_enqueue_eq: "prioq_enqueue M = ah_enqueue node_gt sizeof_prioqnode M"
  by (simp add: fun_eq_iff prioq_enqueue_def ah_enqueue_def prioq_min_insert_def)

lemma prioq_extract_min_node_eq:
  "prioq_extract_min_node M = ah_extract node_gt sizeof_prioqnode zero_node M"
  by (simp add: fun_eq_iff prioq_extract_min_node_def case_prod_unfold option.map_ident)

interpretation pq: min_queue node_gt "\<lambda>h. prioq_wf h \<and> grants_all M" ah_items "2 ^ 30"
    "prioq_enqueue M" "prioq_extract_min_node M" for M
  unfolding prioq_enqueue_eq prioq_extract_min_node_eq by (rule node.array_heap_is_min_queue)

lemma sorted_node_iff: "sorted_wrt (\<lambda>a b. \<not> node_gt a b) es \<longleftrightarrow> sorted (map pn_key es)"
  by (simp add: sorted_wrt_map node_gt_def not_less)

text \<open>What the callers of \<open>prioq_extract_min\<close> and \<open>prioq_min_insert\<close> use.\<close>

lemma prioq_extract_min_some:
  assumes "prioq_wf h" "0 < ah_len h" "grants_all M"
  shows "\<exists>e h'. prioq_extract_min M h = Some (pn_data e, h') \<and> prioq_wf h' \<and>
    ah_len h' = ah_len h - 1 \<and> ah_items h = add_mset e (ah_items h') \<and>
    (\<forall>x \<in># ah_items h. pn_key e \<le> pn_key x)"
proof -
  have sh: "ah_shape h" using assms(1) by (rule ah_wf_shape)
  have "ah_items h \<noteq> {#}" using size_ah_items[OF sh] assms(2) by auto
  with pq.ext_ok[of h M] assms(1,3) obtain e h' where
    e: "prioq_extract_min_node M h = Some (e, h')" "prioq_wf h'"
      "ah_items h = add_mset e (ah_items h')" "\<forall>x \<in># ah_items h. \<not> node_gt e x" by blast
  have "ah_len h' = ah_len h - 1"
    using e(2,3) size_ah_items[OF sh] size_ah_items[of h'] by (simp add: ah_wf_def)
  with e show ?thesis
    by (auto simp: prioq_extract_min_def prioq_extract_min_node_eq node_gt_def not_less)
qed

lemma prioq_min_insert_some:
  assumes "prioq_wf h" "ah_len h < 2 ^ 30" "grants_all M"
  shows "\<exists>h'. prioq_min_insert M h k d = Some (0, h') \<and> prioq_wf h' \<and> ah_len h' = ah_len h + 1 \<and>
    ah_items h' = add_mset (prioqnode_Init k d) (ah_items h)"
  unfolding prioq_min_insert_def by (rule node.ah_insert_ok[OF assms])

definition granting :: "'a \<Rightarrow> 'a mem_mgr" where
  "granting x = \<lparr>grants = (\<lambda>_. True), fresh = (\<lambda>_. x)\<rparr>"

lemma granting_all [simp]: "grants_all (granting x)"
  by (simp add: granting_def grants_all_def)

section \<open>Properties\<close>

text \<open>C16: a queue created as the thread pool creates it (\<open>prioq_create\<close> with 256), filled with any
  tasks (up to \<open>2 ^ 30\<close>), gives them all back, each once, in the order of their keys, when it is
  drained; no operation reads or writes outside the array, whatever resizing happens on the way.\<close>

theorem prioq_drains_sorted:
  assumes "grants_all M" "length es \<le> 2 ^ 30"
  shows "\<exists>h0 h out. prioq_create M 256 = Some (0, h0) \<and>
    insert_all (prioq_enqueue M) es h0 = Some h \<and>
    drain (prioq_extract_min_node M) (length es) h = Some out \<and>
    mset out = mset es \<and> sorted (map pn_key out)"
  using assms node.ah_drains_sorted[of M 256 es]
  by (simp add: prioq_create_def prioq_enqueue_eq prioq_extract_min_node_eq sorted_node_iff)

theorem prioq_drains_sorted_witness:
  "\<exists>h0 h out. prioq_create (granting zero_node) 256 = Some (0, h0) \<and>
    insert_all (prioq_enqueue (granting zero_node))
      [prioqnode_Init 3 (Some ''c''), prioqnode_Init 1 None, prioqnode_Init 2 None] h0 = Some h \<and>
    drain (prioq_extract_min_node (granting zero_node)) (length
      [prioqnode_Init 3 (Some ''c''), prioqnode_Init 1 None, prioqnode_Init 2 None]) h = Some out \<and>
    mset out = mset [prioqnode_Init 3 (Some ''c''), prioqnode_Init 1 None, prioqnode_Init 2 None] \<and>
    sorted (map pn_key out)"
  by (rule prioq_drains_sorted) simp_all

text \<open>taking the minimum from a non-empty well-formed queue never faults, returns the data of a
  node whose key is least, removes exactly that node and leaves a well-formed queue, also when
  the shrink test \<open>(capacity >> 1) - PARAMETER_K\<close> wraps around on small capacities.\<close>

theorem prioq_extract_min_correct:
  assumes "prioq_wf h" "0 < ah_len h" "grants_all M"
  shows "\<exists>e h'. prioq_extract_min M h = Some (pn_data e, h') \<and> prioq_wf h' \<and>
    ah_len h' = ah_len h - 1 \<and> ah_items h = add_mset e (ah_items h') \<and>
    (\<forall>x \<in># ah_items h. pn_key e \<le> pn_key x)"
  using assms by (rule prioq_extract_min_some)

definition small_queue :: "nat prioq" where
  "small_queue = \<lparr>ah_array = Some [prioqnode_Init 1 (Some 7), prioqnode_Init 5 None, zero_node],
                  ah_len = 2, ah_capacity = 3\<rparr>"

lemma small_queue_wf: "prioq_wf small_queue"
  by (auto simp: ah_wf_def ah_shape_def small_queue_def heap_from_def parent_def
      prioqnode_Init_def node_gt_def less_2_cases_iff)

theorem prioq_extract_min_correct_witness:
  "\<exists>e h'. prioq_extract_min (granting zero_node) small_queue = Some (pn_data e, h') \<and> prioq_wf h' \<and>
    ah_len h' = ah_len small_queue - 1 \<and> ah_items small_queue = add_mset e (ah_items h') \<and>
    (\<forall>x \<in># ah_items small_queue. pn_key e \<le> pn_key x)"
  by (rule prioq_extract_min_correct[OF small_queue_wf]) (simp_all add: small_queue_def)

text \<open>a failed growth loses the queue. When the array is full and \<open>trealloc\<close> returns null,
  \<open>prioq_min_insert\<close> reports -1 but has already overwritten the array pointer and the capacity:
  the queued nodes are unreachable although \<open>len\<close> still counts them, and the next insertion
  writes through the null pointer.\<close>

theorem prioq_failed_growth_loses_queue:
  assumes "ah_shape h" "ah_len h = ah_capacity h" "\<forall>n. \<not> grants M n"
  shows "\<exists>h'. prioq_min_insert M h k d = Some (- 1, h') \<and> ah_len h' = ah_len h \<and>
    ah_nodes h' = [] \<and> (\<forall>M' k' d'. prioq_min_insert M' h' k' d' = None)"
  using node.ah_failed_growth[OF assms, of "prioqnode_Init k d"]
  by (auto simp: prioq_min_insert_def)

theorem prioq_failed_growth_loses_queue_witness:
  "\<exists>h'. prioq_min_insert \<lparr>grants = (\<lambda>_. False), fresh = (\<lambda>_. zero_node)\<rparr>
      \<lparr>ah_array = Some [prioqnode_Init 4 (Some True)], ah_len = 1, ah_capacity = 1\<rparr> 9 None
        = Some (- 1, h') \<and>
    ah_len h' = ah_len \<lparr>ah_array = Some [prioqnode_Init 4 (Some True)], ah_len = 1, ah_capacity = 1\<rparr> \<and>
    ah_nodes h' = [] \<and> (\<forall>M' k' d'. prioq_min_insert M' h' k' d' = None)"
  by (rule prioq_failed_growth_loses_queue) (simp_all add: ah_shape_def)

text \<open>\<open>prioq_BuildMinHeap\<close> turns any array into a heap of the same nodes. The loop index is an
  \<open>int\<close> computed from a \<open>size_t\<close> that wraps around for fewer than two nodes, which makes the loop
  body run zero times there.\<close>

theorem prioq_BuildMinHeap_correct:
  assumes "ah_shape h" "ah_len h < 2 ^ 31"
  shows "\<exists>h'. prioq_BuildMinHeap h = Some h' \<and> prioq_wf h' \<and> ah_items h' = ah_items h"
  unfolding prioq_BuildMinHeap_def by (rule node.ah_build_ok[OF assms])

theorem prioq_BuildMinHeap_correct_witness:
  "\<exists>h'. prioq_BuildMinHeap (small_queue\<lparr>ah_array := Some (rev (cells (ah_array small_queue)))\<rparr>) = Some h' \<and>
    prioq_wf h' \<and> ah_items h' =
      ah_items (small_queue\<lparr>ah_array := Some (rev (cells (ah_array small_queue)))\<rparr>)"
  by (rule prioq_BuildMinHeap_correct) (simp_all add: ah_shape_def small_queue_def)

text \<open>the debugging check \<open>prioq_IsMinHeap\<close> joins the tests of the two subtrees with \<open>||\<close>: as soon
  as the right child is larger than its parent and has no children of its own, the array passes,
  whatever the left subtree holds. An array that is not a heap is accepted.\<close>

theorem prioq_IsMinHeap_ignores_left:
  assumes "ah_len h = 3" "pn_key (cells (ah_array h) ! 0) < pn_key (cells (ah_array h) ! 2)"
  shows "prioq_IsMinHeap h 0"
proof -
  have "isminheap_rec (\<lambda>a b. pn_key a < pn_key b) (cells (ah_array h)) 3 (right 0)"
    by (subst isminheap_rec.simps) (simp add: left_def right_def)
  then show ?thesis
    using assms
    by (simp add: prioq_IsMinHeap_def isminheap_rec.simps[of _ _ _ 0] numeral_eq_Suc right_def)
qed

definition broken_queue :: "nat prioq" where
  "broken_queue = \<lparr>ah_array = Some [prioqnode_Init 5 None, prioqnode_Init 1 None, prioqnode_Init 9 None],
                   ah_len = 3, ah_capacity = 3\<rparr>"

theorem prioq_IsMinHeap_ignores_left_witness:
  "prioq_IsMinHeap broken_queue 0 \<and> \<not> prioq_wf broken_queue"
proof
  show "prioq_IsMinHeap broken_queue 0"
    by (rule prioq_IsMinHeap_ignores_left) (simp_all add: broken_queue_def prioqnode_Init_def)
  have "node_gt (cells (ah_array broken_queue) ! parent 1) (cells (ah_array broken_queue) ! 1)"
    by (simp add: broken_queue_def parent_def node_gt_def prioqnode_Init_def)
  then show "\<not> prioq_wf broken_queue"
    by (auto simp: ah_wf_def heap_from_def broken_queue_def intro!: exI[of _ 1])
qed

end
