(* ===== verification/HrtPrioq.thy ===== *)
theory HrtPrioq
  imports ArrayHeap
begin

text \<open>
  hrt_prioq.c: the high-resolution queue keyed by \<open>struct timespec\<close> (the action scheduler's), as the
  instance of ArrayHeap for \<open>struct hrt_prioqnode\<close>, with the comparison \<open>CmpTs\<close> and the difference
  \<open>DiffTs\<close>. Seconds and nanoseconds are 64-bit signed in C; they are read from clocks, so the model
  keeps them as integers.
\<close>

record timespec =
  tv_sec :: int
  tv_nsec :: int

record 'd hrt_prioqnode =
  hn_key :: timespec
  hn_data :: "'d option"

type_synonym 'd hrt_prioq = "'d hrt_prioqnode aheap"

definition sizeof_hrt_prioqnode :: nat where
  "sizeof_hrt_prioqnode = 24"

definition hrt_prioqnode_init :: "timespec \<Rightarrow> 'd option \<Rightarrow> 'd hrt_prioqnode" where
  "hrt_prioqnode_init key d = \<lparr>hn_key = key, hn_data = d\<rparr>"

definition zero_hrt_node :: "'d hrt_prioqnode" where
  "zero_hrt_node = \<lparr>hn_key = \<lparr>tv_sec = 0, tv_nsec = 0\<rparr>, hn_data = None\<rparr>"

definition hrt_prioqnode_copy :: "'d hrt_prioqnode \<Rightarrow> 'd hrt_prioqnode" where
  "hrt_prioqnode_copy src = \<lparr>hn_key = hn_key src, hn_data = hn_data src\<rparr>"

definition CmpTs :: "timespec \<Rightarrow> timespec \<Rightarrow> int" where
  "CmpTs a b =
     (let crit_a = of_bool (tv_sec a > tv_sec b) - of_bool (tv_sec a < tv_sec b)
      in if crit_a \<noteq> 0 then crit_a
         else of_bool (tv_nsec a > tv_nsec b) - of_bool (tv_nsec a < tv_nsec b))"

definition DiffTs :: "timespec \<Rightarrow> timespec \<Rightarrow> timespec" where
  "DiffTs a b =
     (let ns_in_s = 1000000000;
          ndiff = tv_nsec a - tv_nsec b;
          tdiff = tv_sec a - tv_sec b
      in if ndiff < 0 then \<lparr>tv_sec = tdiff - 1, tv_nsec = ns_in_s + ndiff\<rparr>
         else \<lparr>tv_sec = tdiff, tv_nsec = ndiff\<rparr>)"

definition hrt_gt :: "'d hrt_prioqnode \<Rightarrow> 'd hrt_prioqnode \<Rightarrow> bool" where
  "hrt_gt a b \<longleftrightarrow> CmpTs (hn_key a) (hn_key b) = 1"

definition hrt_prioq_get_size :: "'d hrt_prioq \<Rightarrow> nat" where
  "hrt_prioq_get_size h = ah_len h"

definition hrt_prioq_get_key_at :: "'d hrt_prioq \<Rightarrow> int \<Rightarrow> timespec option" where
  "hrt_prioq_get_key_at h idx = map_option hn_key (ah_node_at h idx)"

text \<open>Unlike prioq.c, the debugging check compares with both children before it tests their indices.\<close>

function hrt_isminheap_rec :: "'d hrt_prioqnode list \<Rightarrow> nat \<Rightarrow> nat \<Rightarrow> bool option" where
  "hrt_isminheap_rec arr len idx =
     (if len \<le> idx then Some True
      else do {
        top \<leftarrow> rd arr idx;
        r \<leftarrow> rd arr (right idx);
        let rightcmp = CmpTs (hn_key top) (hn_key r);
        l \<leftarrow> rd arr (left idx);
        let leftcmp = CmpTs (hn_key top) (hn_key l);
        rok \<leftarrow> (if len \<le> right idx then Some True
               else if rightcmp = - 1 then hrt_isminheap_rec arr len (right idx) else Some False);
        if rok then Some True
        else if len \<le> left idx then Some True
        else if leftcmp = - 1 then hrt_isminheap_rec arr len (left idx) else Some False
      })"
  by pat_completeness auto
termination
  by (relation "measure (\<lambda>(arr, n, idx). n - idx)") (auto simp: left_def right_def)

declare hrt_isminheap_rec.simps [simp del]

definition hrt_prioq_isminheap :: "'d hrt_prioq \<Rightarrow> nat \<Rightarrow> bool option" where
  "hrt_prioq_isminheap h idx = hrt_isminheap_rec (cells (ah_array h)) (ah_len h) idx"

definition hrt_min_heapify_it :: "'d hrt_prioq \<Rightarrow> nat \<Rightarrow> 'd hrt_prioq option" where
  "hrt_min_heapify_it h idx = ah_heapify hrt_gt h idx"

definition hrt_prioq_buildminheap :: "'d hrt_prioq \<Rightarrow> 'd hrt_prioq option" where
  "hrt_prioq_buildminheap h = ah_build hrt_gt h"

definition hrt_prioq_create ::
    "'d hrt_prioqnode mem_mgr \<Rightarrow> int \<Rightarrow> (int \<times> 'd hrt_prioq) option" where
  "hrt_prioq_create M l = ah_create M sizeof_hrt_prioqnode zero_hrt_node l"

text \<open>The guard \<open>CmpTs(node, array[idx]) <= 0\<close> is "not greater".\<close>

definition hrt_prioq_decreasekey ::
    "'d hrt_prioq \<Rightarrow> int \<Rightarrow> 'd hrt_prioqnode \<Rightarrow> 'd hrt_prioq option" where
  "hrt_prioq_decreasekey h idx node = ah_decreasekey hrt_gt h idx node"

definition hrt_prioq_extract_min_node ::
    "'d hrt_prioqnode mem_mgr \<Rightarrow> 'd hrt_prioq \<Rightarrow> ('d hrt_prioqnode \<times> 'd hrt_prioq) option" where
  "hrt_prioq_extract_min_node M h =
     map_option (\<lambda>(e, h'). (hrt_prioqnode_copy e, h'))
       (ah_extract hrt_gt sizeof_hrt_prioqnode zero_hrt_node M h)"

definition hrt_prioq_extract_min ::
    "'d hrt_prioqnode mem_mgr \<Rightarrow> 'd hrt_prioq \<Rightarrow> ('d option \<times> 'd hrt_prioq) option" where
  "hrt_prioq_extract_min M h =
     map_option (\<lambda>(e, h'). (hn_data e, h'))
       (ah_extract hrt_gt sizeof_hrt_prioqnode zero_hrt_node M h)"

definition hrt_prioq_getminimum :: "'d hrt_prioq \<Rightarrow> 'd hrt_prioqnode option" where
  "hrt_prioq_getminimum h = rd (cells (ah_array h)) 0"

definition hrt_prioq_min_insert ::
    "'d hrt_prioqnode mem_mgr \<Rightarrow> 'd hrt_prioq \<Rightarrow> timespec \<Rightarrow> 'd option \<Rightarrow> (int \<times> 'd hrt_prioq) option"
where
  "hrt_prioq_min_insert M h key d =
     ah_insert hrt_gt sizeof_hrt_prioqnode M h (hrt_prioqnode_init key d)"

definition hrt_prioq_destroy :: "'d hrt_prioq \<Rightarrow> 'd hrt_prioq" where
  "hrt_prioq_destroy h = ah_destroy h"

definition hrt_prioq_enqueue ::
    "'d hrt_prioqnode mem_mgr \<Rightarrow> 'd hrt_prioqnode \<Rightarrow> 'd hrt_prioq \<Rightarrow> 'd hrt_prioq option" where
  "hrt_prioq_enqueue M e h = do {
     (r, h') \<leftarrow> hrt_prioq_min_insert M h (hn_key e) (hn_data e);
     if r = 0 then Some h' else None
   }"

section \<open>Time order\<close>

definition ts_nsecs :: "timespec \<Rightarrow> int" where
  "ts_nsecs t = tv_sec t * 1000000000 + tv_nsec t"

definition ts_normal :: "timespec \<Rightarrow> bool" where
  "ts_normal t \<longleftrightarrow> 0 \<le> tv_nsec t \<and> tv_nsec t < 1000000000"

lemma CmpTs_cases:
  "CmpTs a b = 1 \<longleftrightarrow> tv_sec b < tv_sec a \<or> tv_sec a = tv_sec b \<and> tv_nsec b < tv_nsec a"
  "CmpTs a b = - 1 \<longleftrightarrow> tv_sec a < tv_sec b \<or> tv_sec a = tv_sec b \<and> tv_nsec a < tv_nsec b"
  "CmpTs a b \<in> {- 1, 0, 1}"
  by (auto simp: CmpTs_def Let_def)

lemma CmpTs_sgn: "ts_normal a \<Longrightarrow> ts_normal b \<Longrightarrow> CmpTs a b = sgn (ts_nsecs a - ts_nsecs b)"
  by (auto simp: CmpTs_def ts_nsecs_def ts_normal_def Let_def sgn_if)

lemma hrt_decreasekey_guard: "CmpTs (hn_key a) (hn_key b) \<le> 0 \<longleftrightarrow> \<not> hrt_gt a b"
  using CmpTs_cases(3)[of "hn_key a" "hn_key b"] by (auto simp: hrt_gt_def)

interpretation hnode: array_heap hrt_gt sizeof_hrt_prioqnode zero_hrt_node
  by unfold_locales (auto simp: hrt_gt_def CmpTs_cases sizeof_hrt_prioqnode_def)

lemma hrt_prioqnode_eta [simp]:
  "hrt_prioqnode_copy e = e" "hrt_prioqnode_init (hn_key e) (hn_data e) = e"
  by (simp_all add: hrt_prioqnode_copy_def hrt_prioqnode_init_def)

lemma hrt_prioq_enqueue_eq: "hrt_prioq_enqueue M = ah_enqueue hrt_gt sizeof_hrt_prioqnode M"
  by (simp add: fun_eq_iff hrt_prioq_enqueue_def ah_enqueue_def hrt_prioq_min_insert_def)

lemma hrt_prioq_extract_min_node_eq:
  "hrt_prioq_extract_min_node M = ah_extract hrt_gt sizeof_hrt_prioqnode zero_hrt_node M"
  by (simp add: fun_eq_iff hrt_prioq_extract_min_node_def case_prod_unfold option.map_ident)

interpretation hrt: min_queue hrt_gt "\<lambda>h. ah_wf hrt_gt h \<and> grants_all M" ah_items "2 ^ 30"
    "hrt_prioq_enqueue M" "hrt_prioq_extract_min_node M" for M
  unfolding hrt_prioq_enqueue_eq hrt_prioq_extract_min_node_eq
  by (rule hnode.array_heap_is_min_queue)

lemma hrt_sorted_nsecs:
  "\<forall>e \<in> set es. ts_normal (hn_key e) \<Longrightarrow>
   sorted_wrt (\<lambda>a b. \<not> hrt_gt a b) es = sorted (map (ts_nsecs \<circ> hn_key) es)"
  by (induction es) (auto simp: hrt_gt_def CmpTs_sgn sgn_if not_less split: if_splits)

text \<open>The early comparison reads past the array: with room for two nodes the check of the root
  already does.\<close>

lemma hrt_isminheap_overread:
  "ah_shape h \<Longrightarrow> 0 < ah_len h \<Longrightarrow> ah_capacity h \<le> 2 \<Longrightarrow> hrt_prioq_isminheap h 0 = None"
  by (auto simp: hrt_prioq_isminheap_def hrt_isminheap_rec.simps[of _ _ 0] ah_shape_def rd_def
      right_def)

section \<open>Properties\<close>

text \<open>a queue of timed actions with normalised timespecs gives every action back exactly once,
  earliest first on the nanosecond time line, when it is drained.\<close>

theorem hrt_prioq_drains_in_time_order:
  assumes "grants_all M" "length es \<le> 2 ^ 30" "\<forall>e \<in> set es. ts_normal (hn_key e)"
  shows "\<exists>h0 h out. hrt_prioq_create M 32 = Some (0, h0) \<and>
    insert_all (hrt_prioq_enqueue M) es h0 = Some h \<and>
    drain (hrt_prioq_extract_min_node M) (length es) h = Some out \<and>
    mset out = mset es \<and> sorted (map (ts_nsecs \<circ> hn_key) out)"
proof -
  from hnode.ah_drains_sorted[OF assms(1) _ _ assms(2), of 32] obtain h0 h out where
    "hrt_prioq_create M 32 = Some (0, h0)" "insert_all (hrt_prioq_enqueue M) es h0 = Some h"
    "drain (hrt_prioq_extract_min_node M) (length es) h = Some out" "mset out = mset es"
    "sorted_wrt (\<lambda>a b. \<not> hrt_gt a b) out"
    by (auto simp: hrt_prioq_create_def hrt_prioq_enqueue_eq hrt_prioq_extract_min_node_eq)
  moreover from this(4) assms(3) have "\<forall>e \<in> set out. ts_normal (hn_key e)"
    by (metis set_mset_mset)
  ultimately show ?thesis using hrt_sorted_nsecs[of out] by blast
qed

theorem hrt_prioq_drains_in_time_order_witness:
  "\<exists>h0 h out. hrt_prioq_create \<lparr>grants = (\<lambda>_. True), fresh = (\<lambda>_. zero_hrt_node)\<rparr> 32 = Some (0, h0) \<and>
    insert_all (hrt_prioq_enqueue \<lparr>grants = (\<lambda>_. True), fresh = (\<lambda>_. zero_hrt_node)\<rparr>)
      [hrt_prioqnode_init \<lparr>tv_sec = 2, tv_nsec = 5\<rparr> (Some ''a''),
       hrt_prioqnode_init \<lparr>tv_sec = 1, tv_nsec = 999999999\<rparr> None] h0 = Some h \<and>
    drain (hrt_prioq_extract_min_node \<lparr>grants = (\<lambda>_. True), fresh = (\<lambda>_. zero_hrt_node)\<rparr>)
      (length [hrt_prioqnode_init \<lparr>tv_sec = 2, tv_nsec = 5\<rparr> (Some ''a''),
       hrt_prioqnode_init \<lparr>tv_sec = 1, tv_nsec = 999999999\<rparr> None]) h = Some out \<and>
    mset out = mset [hrt_prioqnode_init \<lparr>tv_sec = 2, tv_nsec = 5\<rparr> (Some ''a''),
       hrt_prioqnode_init \<lparr>tv_sec = 1, tv_nsec = 999999999\<rparr> None] \<and>
    sorted (map (ts_nsecs \<circ> hn_key) out)"
  by (rule hrt_prioq_drains_in_time_order)
     (simp_all add: grants_all_def ts_normal_def hrt_prioqnode_init_def)

text \<open>\<open>DiffTs\<close> borrows correctly: for normalised times the result is normalised, and it is the
  exact difference on the nanosecond time line, also when that difference is negative.\<close>

theorem DiffTs_exact:
  assumes "ts_normal a" "ts_normal b"
  shows "ts_normal (DiffTs a b) \<and> ts_nsecs (DiffTs a b) = ts_nsecs a - ts_nsecs b"
  using assms by (auto simp: DiffTs_def ts_nsecs_def ts_normal_def Let_def algebra_simps)

theorem DiffTs_exact_witness:
  "ts_normal (DiffTs \<lparr>tv_sec = 5, tv_nsec = 1\<rparr> \<lparr>tv_sec = 3, tv_nsec = 999999999\<rparr>) \<and>
   ts_nsecs (DiffTs \<lparr>tv_sec = 5, tv_nsec = 1\<rparr> \<lparr>tv_sec = 3, tv_nsec = 999999999\<rparr>) =
   ts_nsecs \<lparr>tv_sec = 5, tv_nsec = 1\<rparr> - ts_nsecs \<lparr>tv_sec = 3, tv_nsec = 999999999\<rparr>"
  by (rule DiffTs_exact) (simp_all add: ts_normal_def)

end
