(* ===== verification/BitUtils.thy ===== *)
theory BitUtils
  imports Mud_Prelude
begin

text \<open>
  bitutils.c: counting leading and trailing zeros by table, the number of leading ones of a byte, and
  the scans for the first and last byte of a buffer that is not a space, which read the buffer one
  machine word at a time. The file has an x86-64 version of the scans (64-bit words and the compiler's
  \<open>__builtin_ctzll\<close>/\<open>__builtin_clzll\<close>) and a portable one (32-bit words, \<open>ntz\<close> and \<open>nlz\<close>); both are
  modelled. A buffer is the list of bytes readable from the pointer; a scan returns \<open>None\<close> for a
  read outside of it, \<open>Some None\<close> for the null pointer and \<open>Some (Some i)\<close> for \<open>&str[i]\<close>.
\<close>

unbundle bit_operations_syntax

section \<open>Trailing and leading zeros\<close>

text \<open>The meaning of the compiler builtins on a non-zero word.\<close>

definition ctz :: "'w::len word \<Rightarrow> nat" where
  "ctz x = length (takeWhile (\<lambda>i. \<not> bit x i) [0..<LENGTH('w)])"

definition clz :: "'w::len word \<Rightarrow> nat" where
  "clz x = length (takeWhile (\<lambda>i. \<not> bit x i) (rev [0..<LENGTH('w)]))"

text \<open>The tables are of type \<open>char\<close>, which is signed: the filler 255 reads back as -1.\<close>

definition schar :: "int \<Rightarrow> int" where
  "schar n = (if n < 128 then n else n - 256)"

definition nlz_table :: "int list" where
  "nlz_table =
     [32, 20, 19, 255, 255, 18, 255, 7, 10, 17, 255, 255, 14, 255, 6,
      255, 255, 9, 255, 16, 255, 255, 1, 26, 255, 13, 255, 255,
      24, 5, 255, 255, 255, 21, 255, 8, 11, 255, 15, 255, 255,
      255, 255, 2, 27, 0, 25, 255, 22, 255, 12, 255, 255, 3, 28,
      255, 23, 255, 4, 29, 255, 255, 30, 31]"

definition nlz_smear :: "32 word \<Rightarrow> 32 word" where
  "nlz_smear x =
     (let x = x OR drop_bit 1 x;
          x = x OR drop_bit 2 x;
          x = x OR drop_bit 4 x;
          x = x OR drop_bit 8 x
      in x AND NOT (drop_bit 16 x))"

definition nlz :: "32 word \<Rightarrow> int" where
  "nlz x = schar (nlz_table ! unat (drop_bit 26 (nlz_smear x * 0xfd7049ff)))"

definition ntz_table :: "int list" where
  "ntz_table =
     [32, 0, 1, 26, 2, 23, 27, 255, 3, 16, 24, 30, 28, 11, 255, 13, 4,
      7, 17, 255, 25, 22, 31, 15, 29, 10, 12, 6, 255, 21, 14, 9,
      5, 20, 8, 19, 18]"

definition ntz :: "32 word \<Rightarrow> int" where
  "ntz x = schar (ntz_table ! unat ((x AND - x) mod 37))"

text \<open>The table of \<open>leadingones\<close> has 256 entries, of which the source writes 246: C fills the rest
  with zeros.\<close>

definition leadingones_table :: "nat list" where
  "leadingones_table =
     replicate 128 0 @ replicate 64 1 @ replicate 32 2 @ replicate 16 3 @ replicate 6 4
     @ replicate 10 0"

definition leadingones :: "byte \<Rightarrow> nat" where
  "leadingones b = leadingones_table ! unat b"

subsection \<open>Lemmas on bit positions\<close>

lemma takeWhile_upt:
  "k < n \<Longrightarrow> P k \<Longrightarrow> (\<And>i. i < k \<Longrightarrow> \<not> P i) \<Longrightarrow> takeWhile (\<lambda>i. \<not> P i) [0..<n] = [0..<k]"
proof -
  assume a: "k < n" "P k" "\<And>i. i < k \<Longrightarrow> \<not> P i"
  have "[0..<n] = [0..<k] @ k # [Suc k..<n]"
    using a(1) by (metis less_imp_le_nat upt_add_eq_append upt_conv_Cons le0 le_add_diff_inverse)
  then show ?thesis using a by (simp add: takeWhile_append)
qed

lemma takeWhile_rev_upt:
  "k < n \<Longrightarrow> P k \<Longrightarrow> (\<And>i. k < i \<Longrightarrow> i < n \<Longrightarrow> \<not> P i) \<Longrightarrow>
   takeWhile (\<lambda>i. \<not> P i) (rev [0..<n]) = rev [Suc k..<n]"
proof -
  assume a: "k < n" "P k" "\<And>i. k < i \<Longrightarrow> i < n \<Longrightarrow> \<not> P i"
  have "rev [0..<n] = rev [Suc k..<n] @ k # rev [0..<k]"
    using a(1) by (metis append.assoc append_Cons append_Nil le0 le_add_diff_inverse less_imp_le_nat
        rev.simps(2) rev_append upt_add_eq_append upt_conv_Cons)
  then show ?thesis using a by (simp add: takeWhile_append)
qed

lemma ctzI:
  fixes x :: "'w::len word"
  shows "bit x k \<Longrightarrow> (\<And>i. i < k \<Longrightarrow> \<not> bit x i) \<Longrightarrow> ctz x = k"
  using takeWhile_upt[of k "LENGTH('w)" "bit x"] bit_imp_le_length[of x k] by (simp add: ctz_def)

lemma clzI:
  fixes x :: "'w::len word"
  shows "bit x k \<Longrightarrow> (\<And>i. k < i \<Longrightarrow> \<not> bit x i) \<Longrightarrow> clz x = LENGTH('w) - Suc k"
  using takeWhile_rev_upt[of k "LENGTH('w)" "bit x"] bit_imp_le_length[of x k]
  by (simp add: clz_def)

lemma nonzero_bit: "x \<noteq> 0 \<longleftrightarrow> (\<exists>i. bit (x :: 'w::len word) i)"
  by (auto simp: bit_eq_iff dest: bit_imp_le_length)

lemma lowest_bit:
  fixes x :: "'w::len word"
  assumes "x \<noteq> 0"
  obtains k where "bit x k" "\<And>i. i < k \<Longrightarrow> \<not> bit x i" "k < LENGTH('w)" "ctz x = k"
proof -
  from assms nonzero_bit have "\<exists>i. bit x i" by blast
  then have k: "bit x (LEAST i. bit x i)" by (rule LeastI_ex)
  moreover have "i < (LEAST i. bit x i) \<Longrightarrow> \<not> bit x i" for i by (rule not_less_Least)
  ultimately show thesis using that ctzI bit_imp_le_length[OF k] by blast
qed

lemma highest_bit:
  fixes x :: "'w::len word"
  assumes "x \<noteq> 0"
  obtains k where "bit x k" "\<And>i. k < i \<Longrightarrow> \<not> bit x i" "k < LENGTH('w)" "clz x = LENGTH('w) - Suc k"
proof -
  let ?S = "{i. bit x i}"
  have fin: "finite ?S"
    by (rule finite_subset[of _ "{..<LENGTH('w)}"]) (auto dest: bit_imp_le_length)
  moreover have ne: "?S \<noteq> {}" using assms nonzero_bit by blast
  ultimately have k: "bit x (Max ?S)" using Max_in by blast
  have top: "\<not> bit x i" if "Max ?S < i" for i
  proof
    assume "bit x i"
    then have "i \<le> Max ?S" by (intro Max_ge[OF fin]) simp
    with that show False by simp
  qed
  show thesis using that[OF k top bit_imp_le_length[OF k] clzI[OF k top]] by blast
qed

lemma isolate_low:
  fixes x :: "'w::len word"
  assumes "bit x k" "\<And>i. i < k \<Longrightarrow> \<not> bit x i"
  shows "x AND - x = 2 ^ k"
proof -
  define y where "y = drop_bit k x"
  have k: "k < LENGTH('w)" using assms(1) by (rule bit_imp_le_length)
  have x: "x = push_bit k y"
  proof (intro bit_word_eqI)
    fix n assume "n < LENGTH('w)"
    then show "bit x n = bit (push_bit k y) n"
      using assms(2)[of n] by (cases "n < k") (auto simp: y_def bit_push_bit_iff bit_drop_bit_eq)
  qed
  have odd: "odd y" using assms(1) by (simp add: y_def bit_iff_odd_drop_bit)
  have "y AND - y = 1"
  proof (rule bit_eqI)
    fix n
    have "y - 1 = y XOR 1" using odd by (simp add: xor_one_eq)
    then show "bit (y AND - y) n = bit 1 n"
      using odd bit_imp_le_length[of y n]
      by (auto simp: minus_eq_not_minus_1 bit_and_iff bit_not_iff bit_xor_iff bit_1_iff even_iff_mod_2_eq_zero
          bit_0 simp del: minus_diff_eq)
  qed
  moreover have "x AND - x = push_bit k (y AND - y)"
    by (simp add: x push_bit_eq_mult flip: push_bit_and) 
       (metis mult_minus_left push_bit_and push_bit_eq_mult)
  ultimately show ?thesis by (simp add: push_bit_eq_mult)
qed

lemma ntz_powers: "\<forall>k<32. schar (ntz_table ! unat ((2 ^ k :: 32 word) mod 37)) = int k"
  by code_simp

lemma smear_step:
  assumes "\<And>i. bit y i \<longleftrightarrow> (\<exists>d<m. bit (x :: 32 word) (i + d))"
  shows "bit (y OR drop_bit m y) i \<longleftrightarrow> (\<exists>d<2 * m. bit x (i + d))"
proof -
  have "(\<exists>d<2 * m. bit x (i + d)) \<longleftrightarrow> (\<exists>d<m. bit x (i + d)) \<or> (\<exists>d<m. bit x (i + (m + d)))"
    (is "?l \<longleftrightarrow> ?a \<or> ?b")
  proof
    assume ?l
    then obtain d where d: "d < 2 * m" "bit x (i + d)" by blast
    show "?a \<or> ?b"
    proof (cases "d < m")
      case False
      then have "d - m < m \<and> bit x (i + (m + (d - m)))" using d by simp
      then show ?thesis by blast
    qed (use d in blast)
  next
    assume "?a \<or> ?b"
    then show ?l
    proof
      assume ?a
      then obtain d where "d < m" "bit x (i + d)" by blast
      then show ?l by (intro exI[of _ d]) simp
    next
      assume ?b
      then obtain d where "d < m" "bit x (i + (m + d))" by blast
      then show ?l by (intro exI[of _ "m + d"]) simp
    qed
  qed
  then show ?thesis
    using assms[of i] assms[of "m + i"] by (simp add: bit_or_iff bit_drop_bit_eq ac_simps)
qed

lemma nlz_smear_bit:
  "bit (nlz_smear x) i \<longleftrightarrow>
     (\<exists>d<16. bit x (i + d)) \<and> \<not> (\<exists>d<16. bit x (i + 16 + d))"
proof -
  define y1 where "y1 = x OR drop_bit 1 x"
  define y2 where "y2 = y1 OR drop_bit 2 y1"
  define y3 where "y3 = y2 OR drop_bit 4 y2"
  define y4 where "y4 = y3 OR drop_bit 8 y3"
  have 1: "bit y1 i \<longleftrightarrow> (\<exists>d<2. bit x (i + d))" for i
    using smear_step[of x 1 x i] by (simp add: y1_def)
  have 2: "bit y2 i \<longleftrightarrow> (\<exists>d<4. bit x (i + d))" for i
    using smear_step[of y1 2 x i] 1 by (simp add: y2_def)
  have 3: "bit y3 i \<longleftrightarrow> (\<exists>d<8. bit x (i + d))" for i
    using smear_step[of y2 4 x i] 2 by (simp add: y3_def)
  have 4: "bit y4 i \<longleftrightarrow> (\<exists>d<16. bit x (i + d))" for i
    using smear_step[of y3 8 x i] 3 by (simp add: y4_def)
  have "nlz_smear x = y4 AND NOT (drop_bit 16 y4)"
    by (simp add: nlz_smear_def Let_def y1_def y2_def y3_def y4_def)
  then show ?thesis
    using 4[of i] 4[of "16 + i"] bit_imp_le_length[of y4 i]
    by (auto simp: bit_and_iff bit_not_iff bit_drop_bit_eq add.commute)
qed

text \<open>After the smearing only the 16 bits down from the highest one are set.\<close>

lemma nlz_smear_top:
  fixes x :: "32 word"
  assumes k: "bit x k" "\<And>i. k < i \<Longrightarrow> \<not> bit x i"
  shows "nlz_smear x = mask (Suc k) AND NOT (mask (k - 15))"
proof (rule bit_word_eqI)
  fix i assume i: "i < LENGTH(32)"
  have k32: "k < 32" using bit_imp_le_length[OF k(1)] by simp
  have upper: "(\<exists>d<16. bit x (j + d)) \<longleftrightarrow> j \<le> k" if "k < j + 16" for j
  proof
    assume "\<exists>d<16. bit x (j + d)"
    then show "j \<le> k" using k(2) by (meson leI le_add1 order_less_le_trans)
  next
    assume "j \<le> k"
    then show "\<exists>d<16. bit x (j + d)" using that k(1) by (intro exI[of _ "k - j"]) auto
  qed
  show "bit (nlz_smear x) i = bit (mask (Suc k) AND NOT (mask (k - 15)) :: 32 word) i"
  proof (cases "k < i + 16")
    case True
    then have "\<not> (\<exists>d<16. bit x (i + 16 + d))" using k(2) by simp
    then show ?thesis
      using upper[OF True] True i by (auto simp: nlz_smear_bit bit_and_iff bit_not_iff bit_mask_iff)
  next
    case False
    then have "\<exists>d<16. bit x (i + 16 + d)" using upper[of "i + 16"] k32 by simp
    then show ?thesis
      using False i by (auto simp: nlz_smear_bit bit_and_iff bit_not_iff bit_mask_iff)
  qed
qed

lemma nlz_tops:
  "\<forall>k<32. schar (nlz_table ! unat (drop_bit 26
       ((mask (Suc k) AND NOT (mask (k - 15)) :: 32 word) * 0xfd7049ff))) = 31 - int k"
  by code_simp

lemma ntz_correct: "x \<noteq> 0 \<Longrightarrow> ntz x = int (ctz x)"
proof -
  assume "x \<noteq> 0"
  then obtain k where "bit x k" "\<And>i. i < k \<Longrightarrow> \<not> bit x i" "k < LENGTH(32)" "ctz x = k"
    by (rule lowest_bit) blast
  then show ?thesis using isolate_low[of x k] ntz_powers by (simp add: ntz_def)
qed

lemma nlz_correct: "x \<noteq> 0 \<Longrightarrow> nlz x = int (clz x)"
proof -
  assume "x \<noteq> 0"
  then obtain k where "bit x k" "\<And>i. k < i \<Longrightarrow> \<not> bit x i" "k < LENGTH(32)"
      "clz x = LENGTH(32) - Suc k"
    by (rule highest_bit) blast
  then show ?thesis using nlz_smear_top[of x k] nlz_tops by (simp add: nlz_def)
qed

lemma nlz_zero: "nlz 0 = 32" and ntz_zero: "ntz 0 = 32"
  by code_simp+

section \<open>Scanning a buffer word by word\<close>

text \<open>The value of a little-endian machine word over the bytes at its address.\<close>

fun le_word :: "byte list \<Rightarrow> 'w::len word" where
  "le_word [] = 0"
| "le_word (b # bs) = ucast b OR push_bit 8 (le_word bs)"

text \<open>
  The loop over the whole words of the buffer, from the first on: \<open>masked\<close> is the masking of the word,
  \<open>tz\<close> the trailing-zero count, \<open>n\<close> the words left and \<open>idx\<close> the current word.
\<close>

fun first_word ::
    "('w::len word \<Rightarrow> 'w word) \<Rightarrow> ('w word \<Rightarrow> nat) \<Rightarrow> byte list \<Rightarrow> nat \<Rightarrow> nat \<Rightarrow> nat option option"
where
  "first_word masked tz str 0 idx = Some None"
| "first_word masked tz str (Suc n) idx = do {
     bs \<leftarrow> read_cells str (LENGTH('w) div 8 * idx) (LENGTH('w) div 8);
     let maskedval = masked (le_word bs);
     if maskedval = 0 then first_word masked tz str n (Suc idx)
     else Some (Some (LENGTH('w) div 8 * idx + tz maskedval div 8))
   }"

text \<open>The loop over the bytes that are left, and the corresponding loops from the end.\<close>

fun first_byte :: "(byte \<Rightarrow> bool) \<Rightarrow> byte list \<Rightarrow> nat \<Rightarrow> nat \<Rightarrow> nat option option" where
  "first_byte hit str 0 idx = Some None"
| "first_byte hit str (Suc n) idx = do {
     b \<leftarrow> rd str idx;
     if hit b then Some (Some idx) else first_byte hit str n (Suc idx)
   }"

fun last_byte :: "(byte \<Rightarrow> bool) \<Rightarrow> byte list \<Rightarrow> nat \<Rightarrow> nat \<Rightarrow> nat option option" where
  "last_byte hit str margin 0 = Some None"
| "last_byte hit str margin (Suc n) = do {
     b \<leftarrow> rd str (margin + n);
     if hit b then Some (Some (margin + n)) else last_byte hit str margin n
   }"

fun last_word ::
    "('w::len word \<Rightarrow> 'w word) \<Rightarrow> ('w word \<Rightarrow> nat) \<Rightarrow> byte list \<Rightarrow> nat \<Rightarrow> nat option option"
where
  "last_word masked lz str 0 = Some None"
| "last_word masked lz str (Suc n) = do {
     bs \<leftarrow> read_cells str (LENGTH('w) div 8 * n) (LENGTH('w) div 8);
     let maskedval = masked (le_word bs);
     if maskedval = 0 then last_word masked lz str n
     else Some (Some (LENGTH('w) div 8 * n + (LENGTH('w) div 8 - 1 - lz maskedval div 8)))
   }"

definition spaces64 :: "64 word" where
  "spaces64 = 0x2020202020202020"

definition spaces32 :: "32 word" where
  "spaces32 = 0x20202020"

definition findfirstnonspace64 :: "byte list \<Rightarrow> nat \<Rightarrow> nat option option" where
  "findfirstnonspace64 str bytelen =
     (let intlen = bytelen div 8; remainder = bytelen - 8 * intlen in do {
        r \<leftarrow> first_word (\<lambda>w. w XOR spaces64) ctz str intlen 0;
        case r of Some i \<Rightarrow> Some (Some i)
        | None \<Rightarrow> first_byte (\<lambda>b. b XOR 0x20 \<noteq> 0) str remainder (8 * intlen)
      })"

definition findfirstnonspace32 :: "byte list \<Rightarrow> nat \<Rightarrow> nat option option" where
  "findfirstnonspace32 str bytelen =
     (let intlen = bytelen div 4 mod 2 ^ 32; remainder = sz_sub bytelen (4 * intlen mod 2 ^ 32) in do {
        r \<leftarrow> first_word (\<lambda>w. w XOR spaces32) (\<lambda>w. nat (ntz w)) str intlen 0;
        case r of Some i \<Rightarrow> Some (Some i)
        | None \<Rightarrow> first_byte (\<lambda>b. b XOR 0x20 \<noteq> 0) str remainder (4 * intlen)
      })"

text \<open>
  In \<open>lastnonspace\<close> the counts are \<open>unsigned int\<close> and the indices \<open>int\<close>: for a buffer of \<open>2 ^ 31\<close>
  bytes or more they do not represent the position, and the model returns \<open>None\<close> there.
\<close>

definition lastnonspace64 :: "byte list \<Rightarrow> nat \<Rightarrow> nat option option" where
  "lastnonspace64 str bytelen =
     (if 2 ^ 31 \<le> bytelen then None
      else let intlen = bytelen div 8; remainder = bytelen - 8 * intlen in do {
        r \<leftarrow> last_byte (\<lambda>b. b XOR 0x20 \<noteq> 0) str (bytelen - remainder) remainder;
        case r of Some i \<Rightarrow> Some (Some i)
        | None \<Rightarrow> last_word (\<lambda>w. w XOR spaces64) clz str intlen
      })"

definition lastnonspace32 :: "byte list \<Rightarrow> nat \<Rightarrow> nat option option" where
  "lastnonspace32 str bytelen =
     (if 2 ^ 31 \<le> bytelen then None
      else let intlen = bytelen div 4; remainder = bytelen - 4 * intlen in do {
        r \<leftarrow> last_byte (\<lambda>b. b XOR 0x20 \<noteq> 0) str (bytelen - remainder) remainder;
        case r of Some i \<Rightarrow> Some (Some i)
        | None \<Rightarrow> last_word (\<lambda>w. w XOR spaces32) (\<lambda>w. nat (nlz w)) str intlen
      })"

section \<open>The scans find the first and the last byte\<close>

lemma bit_le_word:
  "bit (le_word bs :: 'w::len word) i \<longleftrightarrow>
     i < LENGTH('w) \<and> i < 8 * length bs \<and> bit (bs ! (i div 8)) (i mod 8)"
proof (induction bs arbitrary: i)
  case (Cons b bs)
  show ?case
  proof (cases "i < 8")
    case True
    then show ?thesis by (auto simp: bit_or_iff bit_ucast_iff bit_push_bit_iff)
  next
    case False
    then obtain j where i: "i = 8 + j" by (metis le_add_diff_inverse not_less)
    have "\<not> bit b (8 + j)" using bit_imp_le_length[of b "8 + j"] by auto
    moreover have "(8 + j) div 8 = Suc (j div 8)" by simp
    ultimately show ?thesis
      by (auto simp: i bit_or_iff bit_ucast_iff bit_push_bit_iff Cons.IH)
  qed
qed simp

lemma le_word_xor: "le_word bs XOR le_word (replicate (length bs) c) = le_word (map (\<lambda>b. b XOR c) bs)"
  by (rule bit_eqI) (auto simp: bit_xor_iff bit_le_word less_mult_imp_div_less mult.commute)

lemma le_word_and: "le_word bs AND le_word (replicate (length bs) c) = le_word (map (\<lambda>b. b AND c) bs)"
  by (rule bit_eqI) (auto simp: bit_and_iff bit_le_word less_mult_imp_div_less mult.commute)

lemma byte_div_less: "i < 8 * n \<Longrightarrow> i div 8 < (n :: nat)"
  by simp

lemma byte_bit: "(b :: byte) \<noteq> 0 \<Longrightarrow> \<exists>k<8. bit b k"
  using bit_imp_le_length[of b] by (auto simp: nonzero_bit)

lemma le_word_zero:
  assumes "8 * length bs = LENGTH('w)"
  shows "(le_word bs :: 'w::len word) = 0 \<longleftrightarrow> (\<forall>b \<in> set bs. b = 0)"
proof
  assume z: "(le_word bs :: 'w word) = 0"
  show "\<forall>b \<in> set bs. b = 0"
  proof (rule ballI, rule ccontr)
    fix b assume "b \<in> set bs" "b \<noteq> 0"
    then obtain j k where j: "j < length bs" "bit (bs ! j) k" "k < 8"
      using byte_bit[of b] by (metis in_set_conv_nth)
    then have "bit (le_word bs :: 'w word) (8 * j + k)"
      using assms by (simp add: bit_le_word)
    with z show False by simp
  qed
next
  assume a: "\<forall>b \<in> set bs. b = 0"
  show "(le_word bs :: 'w word) = 0"
  proof (rule bit_eqI)
    fix i
    have "i < 8 * length bs \<Longrightarrow> bs ! (i div 8) = 0" using a by simp
    then show "bit (le_word bs :: 'w word) i = bit 0 i" by (auto simp: bit_le_word)
  qed
qed

lemma ctz_le_word:
  assumes len: "8 * length bs = LENGTH('w)" and nz: "(le_word bs :: 'w::len word) \<noteq> 0"
  shows "first_idx (\<lambda>b. b \<noteq> 0) bs = Some (ctz (le_word bs :: 'w word) div 8)"
proof -
  let ?w = "le_word bs :: 'w word"
  obtain k where k: "bit ?w k" "\<And>i. i < k \<Longrightarrow> \<not> bit ?w i" "k < LENGTH('w)" "ctz ?w = k"
    using nz by (rule lowest_bit) blast
  have "bs ! j = 0" if j: "j < k div 8" for j
  proof (rule ccontr)
    assume "bs ! j \<noteq> 0"
    then obtain l where l: "bit (bs ! j) l" "l < 8"
      using byte_bit by blast
    have "8 * j + l < k" using j l(2) by simp
    moreover have "bit ?w (8 * j + l)"
      using l j k(3) len by (simp add: bit_le_word)
    ultimately show False using k(2) by blast
  qed
  moreover have "bs ! (k div 8) \<noteq> 0" using k(1) by (auto simp: bit_le_word)
  ultimately show ?thesis using k(3,4) len by (simp add: first_idx_Some)
qed

lemma byte_of_top: "k < 8 * n \<Longrightarrow> n - 1 - (8 * n - Suc k) div 8 = k div 8"
proof -
  assume "k < 8 * n"
  define q r where "q = k div 8" and "r = k mod 8"
  have k: "k = 8 * q + r" "r < 8" "q < n" using \<open>k < 8 * n\<close> by (auto simp: q_def r_def)
  then have "8 * n - Suc k = 8 * (n - 1 - q) + (7 - r)" by (simp add: algebra_simps)
  then have "(8 * n - Suc k) div 8 = n - 1 - q" using k(2) by simp
  with k show ?thesis by (simp add: q_def)
qed

lemma clz_le_word:
  assumes len: "8 * length bs = LENGTH('w)" and nz: "(le_word bs :: 'w::len word) \<noteq> 0"
  shows "last_idx (\<lambda>b. b \<noteq> 0) bs = Some (LENGTH('w) div 8 - 1 - clz (le_word bs :: 'w word) div 8)"
proof -
  let ?w = "le_word bs :: 'w word"
  obtain k where k: "bit ?w k" "\<And>i. k < i \<Longrightarrow> \<not> bit ?w i" "k < LENGTH('w)" "clz ?w = LENGTH('w) - Suc k"
    using nz by (rule highest_bit) blast
  have "bs ! j = 0" if j: "k div 8 < j" "j < length bs" for j
  proof (rule ccontr)
    assume "bs ! j \<noteq> 0"
    then obtain l where l: "bit (bs ! j) l" "l < 8"
      using byte_bit by blast
    have "k < 8 * j + l" using j(1) by simp
    moreover have "bit ?w (8 * j + l)"
      using l j len by (simp add: bit_le_word)
    ultimately show False using k(2) by blast
  qed
  moreover have "bs ! (k div 8) \<noteq> 0" using k(1) by (auto simp: bit_le_word)
  moreover have "LENGTH('w) div 8 - 1 - clz ?w div 8 = k div 8"
    using byte_of_top[of k "length bs"] k(3,4) len[symmetric] by simp
  ultimately show ?thesis using k(3) len by (simp add: last_idx_Some)
qed

lemma first_idx_map: "first_idx P (map f xs) = first_idx (\<lambda>x. P (f x)) xs"
  by (induction xs) auto

lemma last_idx_map: "last_idx P (map f xs) = last_idx (\<lambda>x. P (f x)) xs"
  by (simp add: last_idx_def rev_map first_idx_map)

lemma take_plus_drop: "take (m + n) (drop p xs) = take m (drop p xs) @ take n (drop (m + p) xs)"
  by (simp add: take_add)

lemma first_byte_ok:
  "idx + n \<le> length str \<Longrightarrow>
   first_byte hit str n idx = Some (map_option ((+) idx) (first_idx hit (take n (drop idx str))))"
proof (induction n arbitrary: idx)
  case (Suc n)
  then have "drop idx str = str ! idx # drop (Suc idx) str" by (simp add: Cons_nth_drop_Suc)
  with Suc show ?case
    by (cases "first_idx hit (take n (drop (Suc idx) str))") (simp_all add: mem_simps)
qed simp

lemma last_byte_ok:
  "margin + n \<le> length str \<Longrightarrow>
   last_byte hit str margin n = Some (map_option ((+) margin) (last_idx hit (take n (drop margin str))))"
proof (induction n)
  case (Suc n)
  have "take (Suc n) (drop margin str) = take n (drop margin str) @ [str ! (margin + n)]"
    using Suc.prems by (simp add: take_Suc_conv_app_nth)
  moreover have "length (take n (drop margin str)) = n" using Suc.prems by simp
  moreover have "last_idx hit [x] = (if hit x then Some 0 else None)" for x
    by (simp add: last_idx_def)
  ultimately show ?case
    using Suc by (simp add: mem_simps last_idx_append)
qed (simp add: last_idx_def)

text \<open>
  What the word loops rely on: masking a word is masking each of its bytes. The four scans interpret
  this contract with their masks.
\<close>

locale word_mask =
  fixes masked :: "'w::len word \<Rightarrow> 'w word" and f :: "byte \<Rightarrow> byte"
  assumes whole_bytes: "8 * (LENGTH('w) div 8) = LENGTH('w)"
    and masked_bytes: "length bs = LENGTH('w) div 8 \<Longrightarrow> masked (le_word bs) = le_word (map f bs)"
begin

lemma masked_zero:
  "length bs = LENGTH('w) div 8 \<Longrightarrow>
   masked (le_word bs) = 0 \<longleftrightarrow> first_idx (\<lambda>b. f b \<noteq> 0) bs = None"
  using le_word_zero[of "map f bs", where 'w = 'w] whole_bytes
  by (simp add: masked_bytes first_idx_None)

lemma masked_ctz:
  "length bs = LENGTH('w) div 8 \<Longrightarrow> masked (le_word bs) \<noteq> 0 \<Longrightarrow>
   first_idx (\<lambda>b. f b \<noteq> 0) bs = Some (ctz (masked (le_word bs)) div 8)"
  using ctz_le_word[of "map f bs", where 'w = 'w] whole_bytes
  by (simp add: masked_bytes first_idx_map)

lemma masked_clz:
  "length bs = LENGTH('w) div 8 \<Longrightarrow> masked (le_word bs) \<noteq> 0 \<Longrightarrow>
   last_idx (\<lambda>b. f b \<noteq> 0) bs = Some (LENGTH('w) div 8 - 1 - clz (masked (le_word bs)) div 8)"
  using clz_le_word[of "map f bs", where 'w = 'w] whole_bytes
  by (simp add: masked_bytes last_idx_map)

lemma first_word_ok:
  assumes tz: "\<And>x. x \<noteq> 0 \<Longrightarrow> tz x = ctz x"
  shows "LENGTH('w) div 8 * (idx + n) \<le> length str \<Longrightarrow>
    first_word masked tz str n idx = Some (map_option ((+) (LENGTH('w) div 8 * idx))
      (first_idx (\<lambda>b. f b \<noteq> 0) (take (LENGTH('w) div 8 * n) (drop (LENGTH('w) div 8 * idx) str))))"
proof (induction n arbitrary: idx)
  case (Suc n)
  define k where "k = LENGTH('w) div 8"
  define bs where "bs = take k (drop (k * idx) str)"
  have le: "k * idx + k \<le> length str" "k * (Suc idx + n) \<le> length str"
    using Suc.prems by (simp_all add: k_def add_mult_distrib2)
  then have len: "length bs = LENGTH('w) div 8" by (simp add: bs_def k_def)
  have blk: "read_cells str (LENGTH('w) div 8 * idx) (LENGTH('w) div 8) = Some bs"
    using le by (simp add: mem_simps bs_def k_def)
  have split: "take (k * Suc n) (drop (k * idx) str) = bs @ take (k * n) (drop (k * Suc idx) str)"
    using take_plus_drop[of k "k * n" "k * idx" str] by (simp add: bs_def)
  show ?case
  proof (cases "masked (le_word bs) = 0")
    case True
    then have "first_idx (\<lambda>b. f b \<noteq> 0) bs = None" using masked_zero[OF len] by simp
    then show ?thesis
      using True Suc.IH[of "Suc idx"] le blk len split
      by (cases "first_idx (\<lambda>b. f b \<noteq> 0) (take (k * n) (drop (k * Suc idx) str))")
         (simp_all add: k_def[symmetric] first_idx_append)
  next
    case False
    then show ?thesis
      using masked_ctz[OF len False] blk split tz[OF False]
      by (simp add: k_def[symmetric] first_idx_append)
  qed
qed simp

lemma first_word_start:
  assumes "\<And>x. x \<noteq> 0 \<Longrightarrow> tz x = ctz x" "LENGTH('w) div 8 * n \<le> length str"
  shows "first_word masked tz str n 0 =
    Some (first_idx (\<lambda>b. f b \<noteq> 0) (take (LENGTH('w) div 8 * n) str))"
proof -
  have "map_option ((+) 0) x = x" for x :: "nat option" by (cases x) simp_all
  then show ?thesis using first_word_ok[OF assms(1), of 0 n str] assms(2) by simp
qed

lemma last_word_ok:
  assumes lz: "\<And>x. x \<noteq> 0 \<Longrightarrow> lz x = clz x"
  shows "LENGTH('w) div 8 * n \<le> length str \<Longrightarrow>
    last_word masked lz str n =
      Some (last_idx (\<lambda>b. f b \<noteq> 0) (take (LENGTH('w) div 8 * n) str))"
proof (induction n)
  case (Suc n)
  define k where "k = LENGTH('w) div 8"
  define bs where "bs = take k (drop (k * n) str)"
  have le: "k * n + k \<le> length str" using Suc.prems by (simp add: k_def add.commute)
  then have len: "length bs = LENGTH('w) div 8" by (simp add: bs_def k_def)
  have blk: "read_cells str (LENGTH('w) div 8 * n) (LENGTH('w) div 8) = Some bs"
    using le by (simp add: mem_simps bs_def k_def)
  have split: "take (k * Suc n) str = take (k * n) str @ bs"
    using take_add[of "k * n" k str] by (simp add: bs_def add.commute)
  have ln: "length (take (k * n) str) = k * n" using le by simp
  show ?case
  proof (cases "masked (le_word bs) = 0")
    case True
    then have "last_idx (\<lambda>b. f b \<noteq> 0) bs = None"
      using masked_zero[OF len] by (simp add: last_idx_def first_idx_None)
    then show ?thesis
      using True Suc.IH le blk split by (simp add: k_def[symmetric] last_idx_append)
  next
    case False
    then show ?thesis
      using masked_clz[OF len False] blk split lz[OF False] ln
      by (simp add: k_def[symmetric] last_idx_append)
  qed
qed (simp add: last_idx_def)

end

lemma spaces64_bytes: "spaces64 = le_word (replicate 8 0x20)"
  and spaces32_bytes: "spaces32 = le_word (replicate 4 0x20)"
  by code_simp+

interpretation space64: word_mask "\<lambda>w. w XOR spaces64" "\<lambda>b. b XOR 0x20"
  by unfold_locales (simp_all add: spaces64_bytes flip: le_word_xor)

interpretation space32: word_mask "\<lambda>w. w XOR spaces32" "\<lambda>b. b XOR 0x20"
  by unfold_locales (simp_all add: spaces32_bytes flip: le_word_xor)

text \<open>The two phases of a forward scan together, and those of a backward scan.\<close>

lemma first_phases:
  assumes "k * m \<le> n" "n \<le> length str"
  shows "(case first_idx P (take (k * m) str) of Some i \<Rightarrow> Some (Some i)
      | None \<Rightarrow> first_byte P str (n - k * m) (k * m)) = Some (first_idx P (take n str))"
proof -
  have "take n str = take (k * m) str @ take (n - k * m) (drop (k * m) str)"
    using take_add[of "k * m" "n - k * m" str] assms by simp
  then show ?thesis
    using assms by (simp add: first_byte_ok first_idx_append split: option.splits)
qed

lemma last_phases:
  assumes "k * m \<le> n" "n \<le> length str"
  shows "do { r \<leftarrow> last_byte P str (k * m) (n - k * m);
      case r of Some i \<Rightarrow> Some (Some i) | None \<Rightarrow> Some (last_idx P (take (k * m) str)) }
    = Some (last_idx P (take n str))"
proof -
  have "take n str = take (k * m) str @ take (n - k * m) (drop (k * m) str)"
    using take_add[of "k * m" "n - k * m" str] assms by simp
  then show ?thesis
    using assms by (simp add: last_byte_ok last_idx_append split: option.splits)
qed

definition nonspace :: "byte \<Rightarrow> bool" where
  "nonspace b \<longleftrightarrow> b \<noteq> 0x20"

lemma xor_space: "(\<lambda>b. b XOR 0x20 \<noteq> (0::byte)) = nonspace"
proof
  fix b :: byte
  have "b = 0x20" if "b XOR 0x20 = 0"
    using that by (metis xor.assoc xor.right_neutral xor_self_eq)
  then show "(b XOR 0x20 \<noteq> 0) = nonspace b" by (auto simp: nonspace_def)
qed

lemma nat_ntz: "x \<noteq> 0 \<Longrightarrow> nat (ntz x) = ctz x" and nat_nlz: "x \<noteq> 0 \<Longrightarrow> nat (nlz x) = clz x"
  by (simp_all add: ntz_correct nlz_correct)

text \<open>The portable scans compute the number of bytes in whole words in an \<open>unsigned int\<close>: exact for
  buffers below \<open>2 ^ 32\<close> bytes.\<close>

lemma words_below:
  assumes "n < 2 ^ 32"
  shows "n div 4 mod 2 ^ 32 = n div 4" and "4 * (n div 4) mod 2 ^ 32 = 4 * (n div 4)"
    and "sz_sub n (4 * (n div 4)) = n - 4 * (n div 4)"
proof -
  have "4 * (n div 4) \<le> n" by simp
  with assms show "4 * (n div 4) mod 2 ^ 32 = 4 * (n div 4)" by (intro mod_less) linarith
  show "sz_sub n (4 * (n div 4)) = n - 4 * (n div 4)" using assms by (intro sz_sub_le) simp_all
  show "n div 4 mod 2 ^ 32 = n div 4" using assms by (intro mod_less) linarith
qed

lemma findfirstnonspace64_ok:
  "n \<le> length str \<Longrightarrow> findfirstnonspace64 str n = Some (first_idx nonspace (take n str))"
  using first_phases[of 8 "n div 8" n str nonspace] space64.first_word_start[of ctz "n div 8" str]
  by (simp add: findfirstnonspace64_def Let_def xor_space)

lemma findfirstnonspace32_ok:
  "n \<le> length str \<Longrightarrow> n < 2 ^ 32 \<Longrightarrow>
   findfirstnonspace32 str n = Some (first_idx nonspace (take n str))"
  using first_phases[of 4 "n div 4" n str nonspace]
    space32.first_word_start[of "\<lambda>w. nat (ntz w)" "n div 4" str]
  by (simp add: findfirstnonspace32_def Let_def xor_space nat_ntz words_below)

lemma lastnonspace64_ok:
  "n \<le> length str \<Longrightarrow> n < 2 ^ 31 \<Longrightarrow>
   lastnonspace64 str n = Some (last_idx nonspace (take n str))"
  using last_phases[of 8 "n div 8" n str nonspace] space64.last_word_ok[of clz "n div 8" str]
  by (simp add: lastnonspace64_def Let_def xor_space)

lemma lastnonspace32_ok:
  "n \<le> length str \<Longrightarrow> n < 2 ^ 31 \<Longrightarrow>
   lastnonspace32 str n = Some (last_idx nonspace (take n str))"
  using last_phases[of 4 "n div 4" n str nonspace]
    space32.last_word_ok[of "\<lambda>w. nat (nlz w)" "n div 4" str]
  by (simp add: lastnonspace32_def Let_def xor_space nat_nlz)

section \<open>Properties\<close>

text \<open>the table lookups count correctly: for every 32-bit word \<open>ntz\<close> is the number of trailing and
  \<open>nlz\<close> the number of leading zero bits, and both are 32 for zero; no lookup hits a filler entry.\<close>

theorem ntz_nlz_count_zeros:
  "(if x = 0 then ntz x = 32 \<and> nlz x = 32 else ntz x = int (ctz x) \<and> nlz x = int (clz x))"
  by (simp add: ntz_correct nlz_correct nlz_zero ntz_zero)

text \<open>C22: for every buffer and every length within it (below \<open>2 ^ 31\<close>), the x86-64 and the portable
  version of both scans agree, read only inside the first \<open>bytelen\<close> bytes, and return exactly the
  first, respectively the last, byte that is not a space, or null when there is none.\<close>

theorem nonspace_scans_correct:
  assumes "n \<le> length str" "n < 2 ^ 31"
  shows "findfirstnonspace64 (take n str) n = Some (first_idx nonspace (take n str)) \<and>
    findfirstnonspace32 (take n str) n = findfirstnonspace64 (take n str) n \<and>
    lastnonspace64 (take n str) n = Some (last_idx nonspace (take n str)) \<and>
    lastnonspace32 (take n str) n = lastnonspace64 (take n str) n"
  using assms findfirstnonspace64_ok[of n "take n str"] findfirstnonspace32_ok[of n "take n str"]
    lastnonspace64_ok[of n "take n str"] lastnonspace32_ok[of n "take n str"]
  by simp

theorem nonspace_scans_correct_witness:
  "findfirstnonspace64 (take 10 (replicate 9 0x20 @ [65, 66])) 10
     = Some (first_idx nonspace (take 10 (replicate 9 0x20 @ [65, 66]))) \<and>
   findfirstnonspace32 (take 10 (replicate 9 0x20 @ [65, 66])) 10
     = findfirstnonspace64 (take 10 (replicate 9 0x20 @ [65, 66])) 10 \<and>
   lastnonspace64 (take 10 (replicate 9 0x20 @ [65, 66])) 10
     = Some (last_idx nonspace (take 10 (replicate 9 0x20 @ [65, 66]))) \<and>
   lastnonspace32 (take 10 (replicate 9 0x20 @ [65, 66])) 10
     = lastnonspace64 (take 10 (replicate 9 0x20 @ [65, 66])) 10"
  by (rule nonspace_scans_correct) simp_all

end
