(* ===== verification/C_Strings.thy ===== *)
theory C_Strings
  imports Mud_Prelude "HOL-Library.List_Lexorder"
begin

text \<open>
  The string functions of the C library the sources call, on the bytes readable from a pointer:
  \<open>strnlen\<close>, \<open>strlen\<close>, \<open>strncat\<close>, \<open>snprintf\<close>. A read or write outside of these bytes is \<open>None\<close>.
\<close>

definition nonzero :: "byte \<Rightarrow> bool" where
  "nonzero b \<longleftrightarrow> b \<noteq> 0"

text \<open>The characters before the terminator, at most \<open>n\<close>: what \<open>strnlen\<close> counts and \<open>strncat\<close> copies.\<close>

fun c_chars :: "byte list \<Rightarrow> nat \<Rightarrow> byte list option" where
  "c_chars str 0 = Some []"
| "c_chars [] (Suc n) = None"
| "c_chars (b # str) (Suc n) = (if b = 0 then Some [] else map_option ((#) b) (c_chars str n))"

definition c_strnlen :: "byte list \<Rightarrow> nat \<Rightarrow> nat option" where
  "c_strnlen str n = map_option length (c_chars str n)"

definition c_strlen :: "byte list \<Rightarrow> nat option" where
  "c_strlen str = first_idx (\<lambda>b. b = 0) str"

definition c_strncat :: "byte list \<Rightarrow> byte list \<Rightarrow> nat \<Rightarrow> byte list option" where
  "c_strncat dst src n = do {
     k \<leftarrow> c_strlen dst;
     cs \<leftarrow> c_chars src n;
     copy_cells dst k (cs @ [0])
   }"

text \<open>\<open>strncpy\<close> always writes \<open>n\<close> bytes: the string, then zeros.\<close>

definition c_strncpy :: "byte list \<Rightarrow> byte list \<Rightarrow> nat \<Rightarrow> byte list option" where
  "c_strncpy dst src n =
     (if n \<le> length dst then do {
        cs \<leftarrow> c_chars src n;
        copy_cells dst 0 (cs @ replicate (n - length cs) 0)
      } else None)"

text \<open>\<open>memchr\<close>: the offset of the first \<open>c\<close> in \<open>n\<close> bytes.\<close>

fun c_memchr :: "byte list \<Rightarrow> byte \<Rightarrow> nat \<Rightarrow> nat option option" where
  "c_memchr str c 0 = Some None"
| "c_memchr [] c (Suc n) = None"
| "c_memchr (b # str) c (Suc n) =
     (if b = c then Some (Some 0) else map_option (map_option Suc) (c_memchr str c n))"

text \<open>\<open>strcmp\<close>, and \<open>bsearch\<close> in a sorted array between two indices.\<close>

fun c_strcmp :: "byte list \<Rightarrow> byte list \<Rightarrow> int option" where
  "c_strcmp (a # as) (b # bs) =
     (if a \<noteq> b \<or> a = 0 then Some (int (unat a) - int (unat b)) else c_strcmp as bs)"
| "c_strcmp _ _ = None"

function c_bsearch :: "('e \<Rightarrow> int option) \<Rightarrow> 'e list \<Rightarrow> nat \<Rightarrow> nat \<Rightarrow> 'e option option" where
  "c_bsearch cmp xs l u =
     (if l < u then
        let i = (l + u) div 2 in
        case cmp (xs ! i) of
          None \<Rightarrow> None
        | Some c \<Rightarrow> if c < 0 then c_bsearch cmp xs l i
            else if 0 < c then c_bsearch cmp xs (i + 1) u
            else Some (Some (xs ! i))
      else Some None)"
  by pat_completeness auto
termination by (relation "measure (\<lambda>(cmp, xs, l, u). u - l)") auto

declare c_bsearch.simps [simp del]

text \<open>\<open>toupper\<close>, \<open>isalpha\<close> and \<open>isalnum\<close> in the C locale.\<close>

definition c_toupper :: "byte \<Rightarrow> byte" where
  "c_toupper b = (if 97 \<le> b \<and> b \<le> 122 then b - 32 else b)"

definition c_isalpha :: "byte \<Rightarrow> bool" where
  "c_isalpha b \<longleftrightarrow> 65 \<le> b \<and> b \<le> 90 \<or> 97 \<le> b \<and> b \<le> 122"

definition c_isalnum :: "byte \<Rightarrow> bool" where
  "c_isalnum b \<longleftrightarrow> c_isalpha b \<or> 48 \<le> b \<and> b \<le> 57"

text \<open>The bytes of a string literal, and the decimal digits of a number (\<open>%d\<close>).\<close>

definition bytes_of :: "string \<Rightarrow> byte list" where
  "bytes_of s = map of_char s"

fun decimal :: "nat \<Rightarrow> byte list" where
  "decimal n = (if n < 10 then [48 + word_of_nat n] else decimal (n div 10) @ [48 + word_of_nat (n mod 10)])"

declare decimal.simps [simp del]

text \<open>\<open>strtoul\<close> in base 10: spaces, a sign, then digits; the value saturates and a minus sign negates
  it modulo \<open>2 ^ 64\<close>.\<close>

definition c_isspace :: "byte \<Rightarrow> bool" where
  "c_isspace b \<longleftrightarrow> b = 32 \<or> 9 \<le> b \<and> b \<le> 13"

definition c_isdigit :: "byte \<Rightarrow> bool" where
  "c_isdigit b \<longleftrightarrow> 48 \<le> b \<and> b \<le> 57"

definition digits_value :: "byte list \<Rightarrow> nat" where
  "digits_value ds = foldl (\<lambda>n d. 10 * n + (unat d - 48)) 0 ds"

definition c_strtoul :: "byte list \<Rightarrow> nat" where
  "c_strtoul str =
     (let s = dropWhile c_isspace str;
          neg = (s \<noteq> [] \<and> hd s = 45);
          s = (if s \<noteq> [] \<and> (hd s = 45 \<or> hd s = 43) then tl s else s);
          v = digits_value (takeWhile c_isdigit s)
      in if 2 ^ 64 \<le> v then 2 ^ 64 - 1 else if neg then (2 ^ 64 - v) mod 2 ^ 64 else v)"

text \<open>\<open>vsnprintf\<close> into a buffer of \<open>cap\<close> bytes, where \<open>out\<close> is the formatted text.\<close>

definition c_snprintf :: "byte list \<Rightarrow> nat \<Rightarrow> byte list \<Rightarrow> byte list option" where
  "c_snprintf dst cap out =
     (if cap = 0 then Some dst else copy_cells dst 0 (take (cap - 1) out @ [0]))"

text \<open>The string stored in a buffer.\<close>

definition cstr :: "byte list \<Rightarrow> byte list" where
  "cstr bs = takeWhile nonzero bs"

definition terminated :: "byte list \<Rightarrow> bool" where
  "terminated bs \<longleftrightarrow> 0 \<in> set bs"

text \<open>\<open>std::string(p)\<close> for a pointer \<open>p\<close>: the bytes up to the terminator; a null pointer is a fault.\<close>

definition std_string :: "byte list option \<Rightarrow> byte list option" where
  "std_string p = do { bs \<leftarrow> p; n \<leftarrow> c_strlen bs; Some (take n bs) }"

lemma cstr_simps [simp]:
  "cstr [] = []" "cstr (b # bs) = (if b = 0 then [] else b # cstr bs)"
  by (simp_all add: cstr_def nonzero_def)

lemma cstr_append: "cstr (xs @ ys) = (if terminated xs then cstr xs else xs @ cstr ys)"
  by (induction xs) (auto simp: terminated_def)

lemma cstr_no_zero: "0 \<notin> set (cstr xs)"
  by (induction xs) auto

lemma not_terminated: "\<not> terminated xs \<Longrightarrow> cstr xs = xs"
  by (induction xs) (auto simp: terminated_def)

lemma cstr_id: "0 \<notin> set xs \<Longrightarrow> cstr xs = xs"
  by (induction xs) auto

lemma cstr_zero: "0 \<notin> set xs \<Longrightarrow> cstr (xs @ 0 # ys) = xs"
  by (simp add: cstr_append terminated_def cstr_id)

lemma length_cstr_le: "length (cstr xs) \<le> length xs"
  by (simp add: cstr_def length_takeWhile_le)

lemma length_cstr_less: "terminated xs \<Longrightarrow> length (cstr xs) < length xs"
  by (induction xs) (auto simp: terminated_def)

lemma terminated_split: "terminated xs \<Longrightarrow> \<exists>ys. xs = cstr xs @ 0 # ys"
  by (induction xs) (auto simp: terminated_def)

lemma take_cstr: "take (length (cstr xs)) xs = cstr xs"
  by (induction xs) auto

lemma cstr_take: "cstr (take n xs) = take n (cstr xs)"
  by (induction xs arbitrary: n) (simp_all add: take_Cons')

lemma cstr_zeros: "0 < n \<Longrightarrow> cstr (xs @ replicate n 0) = cstr xs"
  by (cases n) (auto simp: cstr_append not_terminated)

lemma terminated_iff: "terminated xs \<longleftrightarrow> length (cstr xs) < length xs"
  using length_cstr_less[of xs] not_terminated[of xs] by (cases "terminated xs") simp_all

lemma c_chars_ok: "n \<le> length xs \<or> terminated xs \<Longrightarrow> c_chars xs n = Some (cstr (take n xs))"
proof (induction xs arbitrary: n)
  case Nil
  then show ?case by (cases n) (auto simp: terminated_def)
next
  case (Cons x xs)
  then show ?case by (cases n) (auto simp: terminated_def)
qed

lemma c_chars_None: "length xs < n \<Longrightarrow> \<not> terminated xs \<Longrightarrow> c_chars xs n = None"
proof (induction xs arbitrary: n)
  case Nil
  then show ?case by (cases n) auto
next
  case (Cons x xs)
  then show ?case by (cases n) (auto simp: terminated_def)
qed

lemma c_strnlen_ok: "n \<le> length xs \<or> terminated xs \<Longrightarrow> c_strnlen xs n = Some (length (cstr (take n xs)))"
  by (simp add: c_strnlen_def c_chars_ok)

lemma c_strnlen_prefix:
  assumes "0 \<notin> set xs" "n = length xs \<or> length xs < n \<and> ys \<noteq> [] \<and> hd ys = 0"
  shows "c_strnlen (xs @ ys) n = Some (length xs)"
proof (cases "n = length xs")
  case True
  then show ?thesis using assms(1) by (simp add: c_strnlen_ok cstr_id)
next
  case False
  then obtain zs m where "ys = 0 # zs" "n = length xs + Suc m"
    using assms(2) by (cases ys) (auto dest: less_imp_Suc_add)
  then show ?thesis using assms(1) by (simp add: c_strnlen_ok terminated_def cstr_zero)
qed

lemma c_strlen_ok: "terminated xs \<Longrightarrow> c_strlen xs = Some (length (cstr xs))"
  by (induction xs) (auto simp: c_strlen_def terminated_def)

lemma std_string_ok: "terminated b \<Longrightarrow> std_string (Some b) = Some (cstr b)"
  by (simp add: std_string_def c_strlen_ok take_cstr)

lemma c_strncat_ok:
  assumes "terminated dst" "n \<le> length src \<or> terminated src"
    "length (cstr dst) + length (cstr (take n src)) < length dst"
  shows "\<exists>d. c_strncat dst src n = Some d \<and> length d = length dst \<and> terminated d \<and>
    cstr d = cstr dst @ cstr (take n src) \<and>
    drop (length (cstr dst @ cstr (take n src)) + 1) d = drop (length (cstr dst @ cstr (take n src)) + 1) dst"
proof -
  have "cstr (cstr dst @ cstr (take n src) @ 0 # ys) = cstr dst @ cstr (take n src)" for ys
    using cstr_zero[of "cstr dst @ cstr (take n src)" ys] cstr_no_zero by simp
  then show ?thesis
    using assms
    by (simp add: c_strncat_def c_strlen_ok c_chars_ok mem_simps take_cstr terminated_def)
qed

lemma c_strncpy_ok:
  assumes "n \<le> length dst" "n \<le> length src \<or> terminated src"
  shows "c_strncpy dst src n = Some (cstr (take n src) @ replicate (n - length (cstr (take n src))) 0 @ drop n dst)"
proof -
  have "length (cstr (take n src)) \<le> n" using length_cstr_le[of "take n src"] by simp
  then show ?thesis using assms by (simp add: c_strncpy_def c_chars_ok mem_simps)
qed

lemma c_snprintf_ok:
  assumes "length out < cap" "cap \<le> length dst" "0 \<notin> set out"
  shows "\<exists>d. c_snprintf dst cap out = Some d \<and> length d = length dst \<and>
    take (length out + 1) d = out @ [0]"
  using assms by (auto simp: c_snprintf_def mem_simps)

lemma c_memchr_ok: "n \<le> length xs \<Longrightarrow> c_memchr xs c n = Some (first_idx (\<lambda>b. b = c) (take n xs))"
proof (induction xs arbitrary: n)
  case Nil
  then show ?case by simp
next
  case (Cons x xs)
  then show ?case by (cases n) auto
qed

lemma c_memchr_less: "c_memchr xs c n = Some (Some i) \<Longrightarrow> i < length xs \<and> i < n"
proof (induction xs arbitrary: n i)
  case Nil
  then show ?case by (cases n) auto
next
  case (Cons x xs)
  then show ?case by (cases n) (auto split: if_splits)
qed

text \<open>\<open>strcmp\<close> is the lexicographic order of the strings.\<close>

lemma c_strcmp_ok:
  "terminated a \<Longrightarrow> terminated b \<Longrightarrow>
   \<exists>c. c_strcmp a b = Some c \<and> (c < 0 \<longleftrightarrow> cstr a < cstr b) \<and> (c = 0 \<longleftrightarrow> cstr a = cstr b)"
proof (induction a b rule: c_strcmp.induct)
  case (1 a as b bs)
  have "int (unat a) - int (unat b) < 0 \<longleftrightarrow> a < b" by (simp only: word_less_nat_alt) arith
  moreover have "int (unat a) - int (unat b) = 0 \<longleftrightarrow> a = b"
    by (simp only: right_minus_eq of_nat_eq_iff word_unat_eq_iff)
  moreover have "b \<noteq> 0 \<longleftrightarrow> 0 < b" "\<not> a < 0" by (simp_all add: word_neq_0_conv)
  ultimately show ?case using 1 by (auto simp: terminated_def)
qed (auto simp: terminated_def)

text \<open>Binary search in an array sorted by a key finds the element with that key.\<close>

lemma c_bsearch_ok:
  assumes sorted: "sorted_wrt (\<lambda>x y. key x < key y) xs"
    and cmp: "\<And>x. x \<in> set xs \<Longrightarrow> \<exists>c. cmp x = Some c \<and> (c < 0 \<longleftrightarrow> k < key x) \<and> (c = 0 \<longleftrightarrow> k = (key x :: 'k :: linorder))"
  shows "u \<le> length xs \<Longrightarrow> \<forall>j < length xs. (j < l \<longrightarrow> key (xs ! j) < k) \<and> (u \<le> j \<longrightarrow> k < key (xs ! j)) \<Longrightarrow>
    \<exists>r. c_bsearch cmp xs l u = Some r \<and>
      (case r of Some x \<Rightarrow> x \<in> set xs \<and> key x = k | None \<Rightarrow> k \<notin> key ` set xs)"
proof (induction "u - l" arbitrary: l u rule: less_induct)
  case less
  show ?case
  proof (cases "l < u")
    case False
    then have "\<forall>j < length xs. key (xs ! j) \<noteq> k" using less.prems(2) by (meson less_le_not_le not_le order.strict_trans2 linorder_not_less order_less_irrefl)
    then show ?thesis using False by (auto simp: c_bsearch.simps in_set_conv_nth)
  next
    case True
    define i where "i = (l + u) div 2"
    have i: "l \<le> i" "i < u" "i < length xs" using True less.prems(1) by (auto simp: i_def)
    then obtain c where c: "cmp (xs ! i) = Some c" "c < 0 \<longleftrightarrow> k < key (xs ! i)" "c = 0 \<longleftrightarrow> k = key (xs ! i)"
      using cmp[of "xs ! i"] by auto
    have mono: "key (xs ! a) < key (xs ! b)" if "a < b" "b < length xs" for a b
      using sorted that by (auto simp: sorted_wrt_iff_nth_less)
    have step: "c_bsearch cmp xs l u = (if c < 0 then c_bsearch cmp xs l i
        else if 0 < c then c_bsearch cmp xs (i + 1) u else Some (Some (xs ! i)))"
      using True c(1) by (subst c_bsearch.simps) (simp add: i_def Let_def)
    consider "c < 0" | "0 < c" | "c = 0" by linarith
    then show ?thesis
    proof cases
      case 1
      then have "k < key (xs ! j)" if "i \<le> j" "j < length xs" for j
        using c(2) mono[of i j] that by (cases "i = j") auto
      then show ?thesis using less.hyps[of i l] less.prems i 1 step by auto
    next
      case 2
      then have "key (xs ! i) < k" using c(2,3) by (meson linorder_less_linear less_asym')
      then have "key (xs ! j) < k" if "j < i + 1" "j < length xs" for j
        using mono[of j i] that i by (cases "j = i") auto
      then show ?thesis using less.hyps[of u "i + 1"] less.prems i 2 step by auto
    next
      case 3
      then show ?thesis using c(3) step i by auto
    qed
  qed
qed

lemma decimal_nonzero: "0 \<notin> set (decimal n)"
proof (induction n rule: decimal.induct)
  case (1 n)
  have "48 + word_of_nat k \<noteq> (0 :: byte)" if "k < 10" for k
  proof
    assume "48 + word_of_nat k = (0 :: byte)"
    then have "unat (48 + word_of_nat k :: byte) = 0" by simp
    moreover have "unat (48 + word_of_nat k :: byte) = 48 + k"
      using that by (simp add: unat_word_ariths unat_of_nat)
    ultimately show False by simp
  qed
  then show ?case using 1 by (subst decimal.simps) (auto dest: sym)
qed

lemma length_decimal: "n < 1000 \<Longrightarrow> length (decimal n) \<le> 3"
  by (subst decimal.simps, subst decimal.simps, subst decimal.simps) simp

end
