(* ===== verification/Utf8.thy ===== *)
theory Utf8
  imports BitUtils C_Strings
begin

text \<open>
  utf8.c: finding the first byte of a multi-byte character in a buffer (the x86-64 and the portable
  version, as in BitUtils) and counting the characters of a UTF-8 string, the width measure of the
  text reflow. The counting loop may run forever, so it takes fuel.
\<close>

unbundle bit_operations_syntax

definition high64 :: "64 word" where
  "high64 = 0x8080808080808080"

definition high32 :: "32 word" where
  "high32 = 0x80808080"

definition utf8findstart64 :: "byte list \<Rightarrow> nat \<Rightarrow> nat option option" where
  "utf8findstart64 str bytelen =
     (let intlen = bytelen div 8; remainder = bytelen - 8 * intlen in do {
        r \<leftarrow> first_word (\<lambda>w. w AND high64) ctz str intlen 0;
        case r of Some i \<Rightarrow> Some (Some i)
        | None \<Rightarrow> first_byte (\<lambda>b. b AND 0x80 \<noteq> 0) str remainder (8 * intlen)
      })"

definition utf8findstart32 :: "byte list \<Rightarrow> nat \<Rightarrow> nat option option" where
  "utf8findstart32 str bytelen =
     (let intlen = bytelen div 4 mod 2 ^ 32; remainder = sz_sub bytelen (4 * intlen mod 2 ^ 32) in do {
        r \<leftarrow> first_word (\<lambda>w. w AND high32) (\<lambda>w. nat (ntz w)) str intlen 0;
        case r of Some i \<Rightarrow> Some (Some i)
        | None \<Rightarrow> first_byte (\<lambda>b. b AND 0x80 \<noteq> 0) str remainder (4 * intlen)
      })"

text \<open>
  The loop of \<open>utf8strnlen\<close>: \<open>str\<close> is the readable memory from the string's start; \<open>s\<close> and \<open>p\<close> are
  offsets into it; \<open>blen\<close> and \<open>len\<close> are \<open>size_t\<close>, with the wrap-around of \<open>blen += ... - 1\<close>.
\<close>

fun utf8_loop ::
    "nat \<Rightarrow> byte list \<Rightarrow> nat \<Rightarrow> nat \<Rightarrow> nat \<Rightarrow> nat \<Rightarrow> nat option \<Rightarrow> nat outcome" where
  "utf8_loop fuel str bytelen s blen len None =
     (case c_strnlen (drop blen str) (sz_sub bytelen blen) of
        None \<Rightarrow> Faults | Some n \<Rightarrow> Returns (sz (len + n)))"
| "utf8_loop 0 str bytelen s blen len (Some p) = Running"
| "utf8_loop (Suc fuel) str bytelen s blen len (Some p) =
     (case rd str p of
        None \<Rightarrow> Faults
      | Some b \<Rightarrow>
          (let utf8charwidth = leadingones b;
               blen = sz_sub (sz (blen + utf8charwidth + (p - s))) 1;
               len = sz (len + (p - s));
               s = p + utf8charwidth
           in case utf8findstart64 (drop s str) (sz_sub bytelen blen) of
                None \<Rightarrow> Faults
              | Some q \<Rightarrow> utf8_loop fuel str bytelen s blen len (map_option ((+) s) q)))"

definition utf8strnlen :: "nat \<Rightarrow> byte list \<Rightarrow> nat \<Rightarrow> nat outcome" where
  "utf8strnlen fuel str bytelen =
     (case utf8findstart64 str bytelen of
        None \<Rightarrow> Faults
      | Some p \<Rightarrow> utf8_loop fuel str bytelen 0 0 0 p)"

section \<open>Finding the first high byte\<close>

definition high :: "byte \<Rightarrow> bool" where
  "high b \<longleftrightarrow> b AND 0x80 \<noteq> 0"

lemma high_eta: "(\<lambda>b. b AND 0x80 \<noteq> 0) = high"
  by (simp add: fun_eq_iff high_def)

lemma high64_bytes: "high64 = le_word (replicate 8 0x80)"
  and high32_bytes: "high32 = le_word (replicate 4 0x80)"
  by code_simp+

interpretation high64: word_mask "\<lambda>w. w AND high64" "\<lambda>b. b AND 0x80"
  by unfold_locales (simp_all add: high64_bytes flip: le_word_and)

interpretation high32: word_mask "\<lambda>w. w AND high32" "\<lambda>b. b AND 0x80"
  by unfold_locales (simp_all add: high32_bytes flip: le_word_and)

lemma utf8findstart64_ok:
  "n \<le> length str \<Longrightarrow> utf8findstart64 str n = Some (first_idx high (take n str))"
  using first_phases[of 8 "n div 8" n str high] high64.first_word_start[of ctz "n div 8" str]
  by (simp add: utf8findstart64_def Let_def high_eta)

lemma utf8findstart32_ok:
  "n \<le> length str \<Longrightarrow> n < 2 ^ 32 \<Longrightarrow> utf8findstart32 str n = Some (first_idx high (take n str))"
  using first_phases[of 4 "n div 4" n str high]
    high32.first_word_start[of "\<lambda>w. nat (ntz w)" "n div 4" str]
  by (simp add: utf8findstart32_def Let_def high_eta nat_ntz words_below)

section \<open>Counting characters\<close>

text \<open>
  A character as the loop sees it: a non-zero ASCII byte, or a lead byte whose number of leading ones
  is the number of its bytes (at least 2), none of them zero. Every valid UTF-8 character is one.
\<close>

definition is_multi :: "byte list \<Rightarrow> bool" where
  "is_multi c \<longleftrightarrow> 2 \<le> length c \<and> high (hd c) \<and> length c = leadingones (hd c) \<and> 0 \<notin> set c"

definition utf8_char :: "byte list \<Rightarrow> bool" where
  "utf8_char c \<longleftrightarrow> (length c = 1 \<and> \<not> high (hd c) \<and> hd c \<noteq> 0) \<or> is_multi c"

definition n_multi :: "byte list list \<Rightarrow> nat" where
  "n_multi cs = length (filter is_multi cs)"

lemma ascii_prefix:
  assumes "\<forall>c \<in> set cs. utf8_char c"
  obtains as rest where "cs = as @ rest" "\<forall>c \<in> set as. \<not> is_multi c"
    "length (concat as) = length as" "\<forall>b \<in> set (concat as). \<not> high b" "0 \<notin> set (concat as)"
    "rest = [] \<or> is_multi (hd rest)"
proof -
  let ?as = "takeWhile (\<lambda>c. \<not> is_multi c) cs"
  have as: "\<forall>c \<in> set ?as. length c = 1 \<and> \<not> high (hd c) \<and> hd c \<noteq> 0 \<and> \<not> is_multi c"
    using assms by (auto dest!: set_takeWhileD simp: utf8_char_def)
  then have one: "\<forall>c \<in> set ?as. c = [hd c]" by (auto simp: length_Suc_conv)
  have "length (concat xs) = length xs" if "\<forall>c \<in> set xs. length c = 1" for xs :: "byte list list"
    using that by (induction xs) auto
  then have "length (concat ?as) = length ?as" using as by blast
  moreover have "\<not> high b \<and> b \<noteq> 0" if b: "b \<in> set (concat ?as)" for b
  proof -
    obtain c where c: "c \<in> set ?as" "b \<in> set c" using b by auto
    then have "c = [hd c]" using one by blast
    with c(2) have "b = hd c" by (metis empty_iff list.set(1) set_ConsD)
    then show ?thesis using bspec[OF as c(1)] by simp
  qed
  moreover have "dropWhile (\<lambda>c. \<not> is_multi c) cs = [] \<or> is_multi (hd (dropWhile (\<lambda>c. \<not> is_multi c) cs))"
    using hd_dropWhile by blast
  ultimately show thesis
    using that[of ?as "dropWhile (\<lambda>c. \<not> is_multi c) cs"] as
    by (metis takeWhile_dropWhile_id)
qed

lemma utf8_step:
  assumes str: "str = pre @ concat cs @ tail" and cs: "\<forall>c \<in> set cs. utf8_char c"
    and bl: "bytelen = length pre + length (concat cs) + e" "bytelen < 2 ^ 63"
    and pre: "0 \<notin> set pre" "k \<le> length pre" "len + k \<le> length pre"
    and tail: "e + k + n_multi cs \<le> length tail"
      "\<forall>b \<in> set (take (e + k + n_multi cs) tail). \<not> high b" "0 < e \<longrightarrow> hd tail = 0"
    and fuel: "n_multi cs \<le> fuel"
  shows "(case utf8findstart64 (drop (length pre) str) (sz_sub bytelen (length pre - k)) of
      None \<Rightarrow> Faults
    | Some q \<Rightarrow> utf8_loop fuel str bytelen (length pre) (length pre - k) len
                 (map_option ((+) (length pre)) q)) = Returns (len + k + length cs)"
  using assms
proof (induction "length cs" arbitrary: cs pre k len fuel rule: less_induct)
  case less
  let ?s = "length pre"
  obtain as rest where sp: "cs = as @ rest" "\<forall>c \<in> set as. \<not> is_multi c"
    "length (concat as) = length as" "\<forall>b \<in> set (concat as). \<not> high b" "0 \<notin> set (concat as)"
    "rest = [] \<or> is_multi (hd rest)"
    using ascii_prefix[OF less.prems(2)] by blast
  have lim: "sz_sub bytelen (?s - k) = length (concat cs) + e + k"
    using less.prems(3,4,6) by (simp add: size_simps)
  have dr: "drop ?s str = concat cs @ tail" using less.prems(1) by simp
  have find: "utf8findstart64 (drop ?s str) (sz_sub bytelen (?s - k)) =
      Some (first_idx high (take (length (concat cs) + e + k) (concat cs @ tail)))"
    unfolding lim dr using less.prems(8) by (intro utf8findstart64_ok) simp
  have win: "take (length (concat cs) + e + k) (concat cs @ tail) = concat cs @ take (e + k) tail"
    by (simp add: add.assoc)
  show ?case
  proof (cases rest)
    case Nil
    then have m: "n_multi cs = 0" using sp(1,2) by (simp add: n_multi_def)
    have "first_idx high (concat cs @ take (e + k) tail) = None"
      using sp(1,4) Nil less.prems(9) m by (auto simp: first_idx_None)
    moreover have "c_strnlen (drop (?s - k) str) (sz_sub bytelen (?s - k)) = Some (k + length cs)"
    proof -
      have d: "drop (?s - k) str = (drop (?s - k) pre @ concat cs) @ tail"
        using less.prems(1) by simp
      have l: "length (drop (?s - k) pre @ concat cs) = k + length cs"
        using less.prems(6) sp(1,3) Nil by simp
      have "0 \<notin> set (drop (?s - k) pre @ concat cs)"
        using less.prems(5) sp(1,5) Nil by (auto dest: in_set_dropD)
      moreover have "tail \<noteq> []" if "0 < e" using that less.prems(8) by auto
      ultimately show ?thesis
        unfolding d lim l[symmetric] using less.prems(10) sp(1,3) Nil less.prems(6)
        by (intro c_strnlen_prefix) auto
    qed
    moreover have "sz (len + (k + length cs)) = len + k + length cs"
      using less.prems(3,4,7) sp(1,3) Nil by (intro trans[OF sz_small]) auto
    ultimately show ?thesis
      using find win by simp
  next
    case (Cons c rest')
    with sp(6) have c: "is_multi c" by simp
    then obtain b cont where b: "c = b # cont" by (cases c) (auto simp: is_multi_def)
    have w: "leadingones b = length c" "2 \<le> length c" "high b" "0 \<notin> set c"
      using c b by (auto simp: is_multi_def)
    let ?a = "length as" and ?w = "length c"
    have cc: "concat cs = concat as @ c @ concat rest'" using sp(1) Cons by simp
    have m: "n_multi cs = Suc (n_multi rest')" using sp(1,2) Cons c by (simp add: n_multi_def)
    have lcc: "length (concat cs) = ?a + ?w + length (concat rest')" using cc sp(3) by simp
    have "first_idx high (concat cs @ take (e + k) tail) = Some ?a"
      using first_idx_skip[of "concat as" high b "cont @ concat rest' @ take (e + k) tail"]
        sp(3,4) w(3) cc b by simp
    with find win have f: "utf8findstart64 (drop ?s str) (sz_sub bytelen (?s - k)) = Some (Some ?a)"
      by simp
    have at: "rd str (?s + ?a) = Some b"
      using less.prems(1) cc b sp(3) by (simp add: rd_def nth_append)
    obtain g where g: "fuel = Suc g" using m less.prems(11) by (cases fuel) auto
    define pre' where "pre' = pre @ concat as @ c"
    have s': "length pre' = ?s + ?a + ?w" using sp(3) by (simp add: pre'_def)
    have bound: "?s + ?a + ?w < 2 ^ 63" using less.prems(3,4) lcc by linarith
    have blen: "sz_sub (sz (?s - k + leadingones b + (?s + ?a - ?s))) 1 = length pre' - Suc k"
    proof -
      have "?s - k + leadingones b + (?s + ?a - ?s) = length pre' - k"
        using less.prems(6) s' w(1) by simp
      moreover have "sz (length pre' - k) = length pre' - k" using bound s' by (intro sz_small) simp
      moreover have "sz_sub (length pre' - k) 1 = length pre' - k - 1"
        using bound s' w(2) less.prems(6) by (intro sz_sub_le) simp_all
      ultimately show ?thesis by simp
    qed
    have len': "sz (len + ?a) = len + ?a"
      using bound less.prems(7) by (intro sz_small) simp
    have "(case utf8findstart64 (drop (length pre') str) (sz_sub bytelen (length pre' - Suc k)) of
        None \<Rightarrow> Faults
      | Some q \<Rightarrow> utf8_loop g str bytelen (length pre') (length pre' - Suc k) (len + ?a)
                   (map_option ((+) (length pre')) q)) = Returns (len + ?a + Suc k + length rest')"
    proof (rule less.hyps)
      show "length rest' < length cs" using sp(1) Cons by simp
      show "str = pre' @ concat rest' @ tail" using less.prems(1) cc by (simp add: pre'_def)
      show "\<forall>c \<in> set rest'. utf8_char c" using less.prems(2) sp(1) Cons by simp
      show "bytelen = length pre' + length (concat rest') + e" using less.prems(3) lcc s' by simp
      show "bytelen < 2 ^ 63" by (rule less.prems(4))
      show "0 \<notin> set pre'" using less.prems(5) sp(5) w(4) by (simp add: pre'_def)
      show "Suc k \<le> length pre'" "len + ?a + Suc k \<le> length pre'"
        using less.prems(6,7) s' w(2) by simp_all
      show "e + Suc k + n_multi rest' \<le> length tail" using less.prems(8) m by simp
      show "\<forall>b \<in> set (take (e + Suc k + n_multi rest') tail). \<not> high b"
        using less.prems(9) m by simp
      show "0 < e \<longrightarrow> hd tail = 0" by (rule less.prems(10))
      show "n_multi rest' \<le> g" using less.prems(11) m g by simp
    qed
    moreover have "len + ?a + Suc k + length rest' = len + k + length cs" using sp(1) Cons by simp
    moreover have "?s + ?a + leadingones b = length pre'" using s' w(1) by simp
    ultimately show ?thesis
      unfolding f g using at blen len' by (simp add: Let_def del: One_nat_def cong: option.case_cong)
  qed
qed

text \<open>Where the window reaches past the readable memory, the search still answers with the first byte of a
  multi-byte character, if it does not fault before, and always faults when there is none.\<close>

lemma first_word_more:
  "first_word g tz str n idx = Some q \<Longrightarrow> first_word g tz (str @ zs) n idx = Some q"
  by (induction n arbitrary: idx) (auto simp: mem_simps read_cells_def Let_def nth_append split: bind_splits if_splits)

lemma first_word_read:
  "first_word (g :: 'w::len word \<Rightarrow> 'w word) tz str n idx = Some None \<Longrightarrow> n = 0 \<or> LENGTH('w) div 8 * (idx + n) \<le> length str"
  by (induction n arbitrary: idx) (fastforce simp: mem_simps read_cells_def Let_def split: bind_splits if_splits)+

lemma first_byte_more:
  "first_byte hit str n idx = Some q \<Longrightarrow> first_byte hit (str @ zs) n idx = Some q"
  by (induction n arbitrary: idx) (auto simp: rd_def nth_append split: bind_splits if_splits)

lemma first_byte_read:
  "first_byte hit str n idx = Some None \<Longrightarrow> n = 0 \<or> idx + n \<le> length str"
proof (induction n arbitrary: idx)
  case (Suc n)
  then have "idx < length str" "first_byte hit str n (Suc idx) = Some None"
    by (auto simp: rd_def split: bind_splits if_splits)
  with Suc.IH[of "Suc idx"] show ?case by auto
qed simp

lemma utf8findstart64_some:
  assumes "utf8findstart64 str n = Some q"
  shows "q = first_idx high (take n str)" "q = None \<Longrightarrow> n \<le> length str"
proof -
  define zs where "zs = replicate n (0 :: byte)"
  have "utf8findstart64 (str @ zs) n = Some q"
    using assms first_word_more[of "\<lambda>w. w AND high64" ctz str "n div 8" 0]
      first_byte_more[of "\<lambda>b. b AND 0x80 \<noteq> 0" str "n - 8 * (n div 8)" "8 * (n div 8)"]
    by (auto simp: utf8findstart64_def Let_def split: bind_splits option.splits)
  then have "q = first_idx high (take n (str @ zs))" by (simp add: utf8findstart64_ok zs_def)
  moreover have "first_idx high (xs @ replicate m 0) = first_idx high xs" for xs m
    by (induction xs) (simp_all add: first_idx_None high_def)
  ultimately show "q = first_idx high (take n str)" by (simp add: zs_def)
  show "n \<le> length str" if "q = None"
  proof -
    have r: "first_word (\<lambda>w. w AND high64) ctz str (n div 8) 0 = Some None"
      "first_byte (\<lambda>b. b AND 0x80 \<noteq> 0) str (n - 8 * (n div 8)) (8 * (n div 8)) = Some None"
      using assms that by (simp_all add: utf8findstart64_def Let_def split: bind_splits option.splits)
    show ?thesis using first_word_read[OF r(1)] first_byte_read[OF r(2)] by auto
  qed
qed

lemma utf8_step_faults:
  assumes str: "str = pre @ concat cs @ tail" and cs: "\<forall>c \<in> set cs. utf8_char c"
    and bl: "bytelen = length pre + length (concat cs) + e" "bytelen < 2 ^ 63"
    and pre: "k \<le> length pre"
    and tail: "length tail < e + k + n_multi cs" "\<forall>b \<in> set tail. \<not> high b"
    and fuel: "n_multi cs \<le> fuel"
  shows "(case utf8findstart64 (drop (length pre) str) (sz_sub bytelen (length pre - k)) of
      None \<Rightarrow> Faults
    | Some q \<Rightarrow> utf8_loop fuel str bytelen (length pre) (length pre - k) len
                 (map_option ((+) (length pre)) q)) = Faults"
  using assms
proof (induction "length cs" arbitrary: cs pre k len fuel rule: less_induct)
  case less
  let ?s = "length pre"
  obtain as rest where sp: "cs = as @ rest" "\<forall>c \<in> set as. \<not> is_multi c"
    "length (concat as) = length as" "\<forall>b \<in> set (concat as). \<not> high b" "0 \<notin> set (concat as)"
    "rest = [] \<or> is_multi (hd rest)"
    using ascii_prefix[OF less.prems(2)] by blast
  have lim: "sz_sub bytelen (?s - k) = length (concat cs) + e + k"
    using less.prems(3,4,5) by (simp add: size_simps)
  have dr: "drop ?s str = concat cs @ tail" using less.prems(1) by simp
  show ?case
  proof (cases "utf8findstart64 (concat cs @ tail) (length (concat cs) + e + k)")
    case None
    then show ?thesis unfolding dr lim by simp
  next
    case (Some q)
    note q = utf8findstart64_some[OF Some]
    show ?thesis
    proof (cases rest)
      case Nil
      then have m: "n_multi cs = 0" using sp(1,2) by (simp add: n_multi_def)
      have "first_idx high (concat cs @ take (e + k) tail) = None"
        using sp(1,4) Nil less.prems(7) by (auto simp: first_idx_None dest: in_set_takeD)
      then have "q = None" using q(1) by (simp add: add.assoc)
      with q(2) m less.prems(6) show ?thesis by simp
    next
      case (Cons c rest')
      with sp(6) have c: "is_multi c" by simp
      then obtain b cont where b: "c = b # cont" by (cases c) (auto simp: is_multi_def)
      have w: "leadingones b = length c" "2 \<le> length c" "high b"
        using c b by (auto simp: is_multi_def)
      let ?a = "length as" and ?w = "length c"
      have cc: "concat cs = concat as @ c @ concat rest'" using sp(1) Cons by simp
      have m: "n_multi cs = Suc (n_multi rest')" using sp(1,2) Cons c by (simp add: n_multi_def)
      have lcc: "length (concat cs) = ?a + ?w + length (concat rest')" using cc sp(3) by simp
      have "first_idx high (take (length (concat cs) + e + k) (concat cs @ tail)) = Some ?a"
        using first_idx_skip[of "concat as" high b "cont @ concat rest' @ take (e + k) tail"]
          sp(3,4) w(3) cc b by (simp add: add.assoc)
      then have qa: "q = Some ?a" using q(1) by simp
      have at: "rd str (?s + ?a) = Some b"
        using less.prems(1) cc b sp(3) by (simp add: rd_def nth_append)
      obtain g where g: "fuel = Suc g" using m less.prems(8) by (cases fuel) auto
      define pre' where "pre' = pre @ concat as @ c"
      have s': "length pre' = ?s + ?a + ?w" using sp(3) by (simp add: pre'_def)
      have bound: "?s + ?a + ?w < 2 ^ 63" using less.prems(3,4) lcc by linarith
      have blen: "sz_sub (sz (?s - k + leadingones b + (?s + ?a - ?s))) 1 = length pre' - Suc k"
      proof -
        have "?s - k + leadingones b + (?s + ?a - ?s) = length pre' - k"
          using less.prems(5) s' w(1) by simp
        moreover have "sz (length pre' - k) = length pre' - k" using bound s' by (intro sz_small) simp
        moreover have "sz_sub (length pre' - k) 1 = length pre' - k - 1"
          using bound s' w(2) less.prems(5) by (intro sz_sub_le) simp_all
        ultimately show ?thesis by simp
      qed
      have "(case utf8findstart64 (drop (length pre') str) (sz_sub bytelen (length pre' - Suc k)) of
          None \<Rightarrow> Faults
        | Some q \<Rightarrow> utf8_loop g str bytelen (length pre') (length pre' - Suc k) (sz (len + ?a))
                     (map_option ((+) (length pre')) q)) = Faults"
      proof (rule less.hyps)
        show "length rest' < length cs" using sp(1) Cons by simp
        show "str = pre' @ concat rest' @ tail" using less.prems(1) cc by (simp add: pre'_def)
        show "\<forall>c \<in> set rest'. utf8_char c" using less.prems(2) sp(1) Cons by simp
        show "bytelen = length pre' + length (concat rest') + e" using less.prems(3) lcc s' by simp
        show "bytelen < 2 ^ 63" by (rule less.prems(4))
        show "Suc k \<le> length pre'" using less.prems(5) s' w(2) by simp
        show "length tail < e + Suc k + n_multi rest'" using less.prems(6) m by simp
        show "\<forall>b \<in> set tail. \<not> high b" by (rule less.prems(7))
        show "n_multi rest' \<le> g" using less.prems(8) m g by simp
      qed
      moreover have "?s + ?a + leadingones b = length pre'" using s' w(1) by simp
      ultimately show ?thesis
        unfolding dr lim Some qa g using at blen by (simp add: Let_def del: One_nat_def cong: option.case_cong)
    qed
  qed
qed

section \<open>Properties\<close>

text \<open>the two versions of \<open>utf8findstart\<close> agree, stay inside the first \<open>bytelen\<close> bytes and
  return the first byte with the top bit set, or null.\<close>

theorem utf8findstart_correct:
  assumes "n \<le> length str" "n < 2 ^ 32"
  shows "utf8findstart64 (take n str) n = Some (first_idx high (take n str)) \<and>
    utf8findstart32 (take n str) n = utf8findstart64 (take n str) n"
  using assms utf8findstart64_ok[of n "take n str"] utf8findstart32_ok[of n "take n str"] by simp

theorem utf8findstart_correct_witness:
  "utf8findstart64 (take 12 (replicate 10 65 @ [0xC3, 0xA9, 0])) 12 =
     Some (first_idx high (take 12 (replicate 10 65 @ [0xC3, 0xA9, 0]))) \<and>
   utf8findstart32 (take 12 (replicate 10 65 @ [0xC3, 0xA9, 0])) 12 =
     utf8findstart64 (take 12 (replicate 10 65 @ [0xC3, 0xA9, 0])) 12"
  by (rule utf8findstart_correct) simp_all



text \<open>A lead byte of width 0 at the front is found again in every round: \<open>blen\<close> is \<open>- n\<close>.\<close>

lemma invalid_lead: "0xF6 \<le> b \<Longrightarrow> leadingones b = 0 \<and> high b"
proof -
  assume "0xF6 \<le> b"
  then have "unat b = 246 \<or> unat b = 247 \<or> unat b = 248 \<or> unat b = 249 \<or> unat b = 250 \<or>
      unat b = 251 \<or> unat b = 252 \<or> unat b = 253 \<or> unat b = 254 \<or> unat b = 255"
    using unsigned_less[of b, where 'a = nat] by (simp add: word_le_nat_alt) arith
  moreover have "b = word_of_nat (unat b)" by simp
  ultimately show ?thesis
    by (elim disjE) (simp_all add: leadingones_def high_def leadingones_table_def nth_append)
qed

lemma findstart_lead:
  assumes "high b" "7 \<le> length rest" "0 < n"
  shows "utf8findstart64 (b # rest) n = Some (Some 0)"
proof -
  have one: "utf8findstart64 (b # rest) m = Some (Some 0)" if "0 < m" "m \<le> 8" for m
    using that assms utf8findstart64_ok[of m "b # rest"] by (cases m) simp_all
  show ?thesis
  proof (cases "n \<le> 8")
    case False
    then have "n div 8 = Suc (n div 8 - 1)" by simp
    then obtain k where k: "n div 8 = Suc k" by blast
    show ?thesis
      using one[of 8] by (auto simp: utf8findstart64_def Let_def k split: bind_splits if_splits)
  qed (use one assms in simp)
qed

lemma utf8_stuck:
  assumes "leadingones b = 0" "high b" "7 \<le> length rest" "0 < bytelen"
  shows "bytelen + n + fuel < 2 ^ 64 \<Longrightarrow> blen = sz_sub 0 n \<Longrightarrow>
    utf8_loop fuel (b # rest) bytelen 0 blen len (Some 0) = Running"
proof (induction fuel arbitrary: n blen len)
  case (Suc fuel)
  have "sz_sub (sz blen) 1 = sz_sub 0 (Suc n)"
  proof (cases "n = 0")
    case False
    then have "blen = 2 ^ 64 - n" using Suc.prems by (simp add: sz_sub_def)
    then show ?thesis
      using False Suc.prems by (simp add: size_simps sz_sub_wrap del: One_nat_def)
  qed (simp add: Suc.prems sz_sub_def sz_def)
  moreover have "sz_sub bytelen (sz_sub 0 (Suc n)) = bytelen + Suc n"
    using Suc.prems by (simp add: sz_sub_def)
  ultimately show ?case
    using Suc.IH[of "Suc n"] Suc.prems assms findstart_lead[of b rest "bytelen + Suc n"]
    by (simp add: rd_def Let_def cong: option.case_cong)
qed simp

text \<open>C24: \<open>utf8strnlen\<close> hangs on a byte from 0xF6 to 0xFF. The table of \<open>leadingones\<close> is ten entries
  short, so such a byte has width 0: the loop finds the same byte again and only lets \<open>blen\<close> run
  below zero; it is still running after any number of rounds up to the wrap-around of \<open>size_t\<close>.\<close>

theorem utf8strnlen_hangs_on_invalid_lead:
  assumes "0xF6 \<le> b" "7 \<le> length rest" "0 < bytelen" "bytelen + fuel < 2 ^ 64"
  shows "utf8strnlen fuel (b # rest) bytelen = Running"
  using assms invalid_lead[of b] findstart_lead[of b rest bytelen]
    utf8_stuck[of b rest bytelen 0 fuel 0 0]
  by (simp add: utf8strnlen_def sz_sub_def)

theorem utf8strnlen_hangs_on_invalid_lead_witness:
  "utf8strnlen 1000000 (0xF8 # [65, 66, 67, 68, 69, 70, 0]) 8 = Running"
  by (rule utf8strnlen_hangs_on_invalid_lead) simp_all

end
