(* ===== verification/Vector.thy ===== *)
theory Vector
  imports Mud_Prelude
begin

text \<open>
  vector.c: the growable array of pointers. A value is the record of the C struct; \<open>pStorage\<close> is the
  allocated block or null. The element destructor \<open>FreeNodeFn\<close> is an opaque name: an operation that
  releases elements returns the releases it makes, in order. \<open>None\<close> is undefined behaviour.
\<close>

section \<open>Sequences that grow at the end\<close>

text \<open>
  The contract a client of a growable buffer relies on: pushing reports success (0) and appends.
  Vectors of pointers and byte buffers both provide it.
\<close>

fun push_all :: "('e \<Rightarrow> 'b \<Rightarrow> (int \<times> 'b) option) \<Rightarrow> 'e list \<Rightarrow> 'b \<Rightarrow> 'b option" where
  "push_all push [] b = Some b"
| "push_all push (x # xs) b = do { (r, b') \<leftarrow> push x b; push_all push xs b' }"

locale push_seq =
  fixes ok :: "'b \<Rightarrow> bool"
    and contents :: "'b \<Rightarrow> 'e list"
    and room :: "'b \<Rightarrow> nat \<Rightarrow> bool"
    and push :: "'e \<Rightarrow> 'b \<Rightarrow> (int \<times> 'b) option"
  assumes room_less: "room b n \<Longrightarrow> m \<le> n \<Longrightarrow> room b m"
    and push_ok: "ok b \<Longrightarrow> room b (Suc n) \<Longrightarrow>
      \<exists>b'. push x b = Some (0, b') \<and> ok b' \<and> contents b' = contents b @ [x] \<and> room b' n"
begin

lemma push_all_ok:
  "ok b \<Longrightarrow> room b (length xs) \<Longrightarrow>
   \<exists>b'. push_all push xs b = Some b' \<and> ok b' \<and> contents b' = contents b @ xs \<and> room b' 0"
proof (induction xs arbitrary: b)
  case (Cons x xs)
  from push_ok[of b "length xs" x] Cons.prems obtain b' where
    "push x b = Some (0, b')" "ok b'" "contents b' = contents b @ [x]" "room b' (length xs)"
    by auto
  with Cons.IH[of b'] show ?case by auto
qed simp

end

section \<open>The operations\<close>

record ('p, 'f) vector =
  pStorage :: "'p list option"
  vcapacity :: nat
  vlength :: nat
  FreeNodeFn :: "'f option"

datatype ('p, 'f) release = FreeNode 'f 'p | Tfree 'p

definition sizeof_ptr :: nat where
  "sizeof_ptr = 8"

text \<open>\<open>talloc\<close> and \<open>trealloc\<close> of an array of pointers.\<close>

definition alloc_ptrs :: "'p mem_mgr \<Rightarrow> nat \<Rightarrow> 'p list option" where
  "alloc_ptrs M n = malloc_cells M sizeof_ptr (sz (sizeof_ptr * n))"

definition realloc_ptrs :: "'p mem_mgr \<Rightarrow> 'p list option \<Rightarrow> nat \<Rightarrow> 'p list option" where
  "realloc_ptrs M p n = realloc_cells M sizeof_ptr p (sz (sizeof_ptr * n))"

definition Vector_Create ::
    "'p mem_mgr \<Rightarrow> ('p, 'f) vector \<Rightarrow> nat \<Rightarrow> 'f option \<Rightarrow> int \<times> ('p, 'f) vector" where
  "Vector_Create M v initial_size fn =
     (case alloc_ptrs M initial_size of
        None \<Rightarrow> (-1, v\<lparr>pStorage := None\<rparr>)
      | Some s \<Rightarrow> (0, v\<lparr>pStorage := Some s, vcapacity := initial_size, vlength := 0, FreeNodeFn := fn\<rparr>))"

definition release_node :: "('p, 'f) vector \<Rightarrow> 'p \<Rightarrow> ('p, 'f) release" where
  "release_node v x = (case FreeNodeFn v of Some f \<Rightarrow> FreeNode f x | None \<Rightarrow> Tfree x)"

fun release_from :: "('p, 'f) vector \<Rightarrow> nat \<Rightarrow> nat \<Rightarrow> ('p, 'f) release list option" where
  "release_from v i 0 = Some []"
| "release_from v i (Suc n) = do {
     x \<leftarrow> rd (cells (pStorage v)) i;
     rs \<leftarrow> release_from v (Suc i) n;
     Some (release_node v x # rs)
   }"

definition Vector_Destroy ::
    "('p, 'f) vector \<Rightarrow> (('p, 'f) release list \<times> ('p, 'f) vector) option" where
  "Vector_Destroy v = do {
     rs \<leftarrow> release_from v 0 (vlength v);
     Some (rs, v\<lparr>pStorage := None\<rparr>)
   }"

definition Vector_Push ::
    "'p mem_mgr \<Rightarrow> 'p \<Rightarrow> ('p, 'f) vector \<Rightarrow> (int \<times> ('p, 'f) vector) option" where
  "Vector_Push M pVal v =
     (let v' = (if vcapacity v \<le> vlength v
                then let cap = sz (2 * vcapacity v)
                     in v\<lparr>vcapacity := cap, pStorage := realloc_ptrs M (pStorage v) cap\<rparr>
                else v)
      in if vcapacity v \<le> vlength v \<and> pStorage v' = None then Some (-1, v')
         else do {
           s \<leftarrow> wr (cells (pStorage v')) (vlength v') pVal;
           Some (0, v'\<lparr>pStorage := Some s, vlength := sz (vlength v' + 1)\<rparr>)
         })"

definition Vector_Count :: "('p, 'f) vector \<Rightarrow> nat" where
  "Vector_Count v = vlength v"

text \<open>The outer option is undefined behaviour, the inner one the null pointer returned.\<close>

definition Vector_At :: "('p, 'f) vector \<Rightarrow> nat \<Rightarrow> 'p option option" where
  "Vector_At v idx =
     (case pStorage v of
        Some s \<Rightarrow> map_option Some (rd s idx)
      | None \<Rightarrow> Some None)"

fun find_from :: "('p, 'f) vector \<Rightarrow> ('p \<Rightarrow> int) \<Rightarrow> nat \<Rightarrow> nat \<Rightarrow> nat option option" where
  "find_from v cmp i 0 = Some None"
| "find_from v cmp i (Suc n) = do {
     x \<leftarrow> rd (cells (pStorage v)) i;
     if cmp x = 0 then Some (Some i) else find_from v cmp (Suc i) n
   }"

definition Vector_Find ::
    "('p, 'f) vector \<Rightarrow> 'k \<Rightarrow> ('k \<Rightarrow> 'p \<Rightarrow> int) \<Rightarrow> nat option option" where
  "Vector_Find v key cmp = find_from v (cmp key) 0 (vlength v)"

text \<open>The \<open>memmove\<close> of \<open>Vector_Remove\<close>: its length in bytes is a wrapping \<open>size_t\<close> computation.\<close>

definition close_gap :: "'p list \<Rightarrow> nat \<Rightarrow> nat \<Rightarrow> 'p list option" where
  "close_gap s idx len = do {
     let n = sz (sz_sub (sz_sub len idx) 1 * sizeof_ptr) div sizeof_ptr;
     ys \<leftarrow> read_cells s (idx + 1) n;
     copy_cells s idx ys
   }"

definition Vector_Remove ::
    "'p mem_mgr \<Rightarrow> ('p, 'f) vector \<Rightarrow> nat
     \<Rightarrow> (int \<times> ('p, 'f) release \<times> ('p, 'f) vector) option" where
  "Vector_Remove M v idx = do {
     x \<leftarrow> rd (cells (pStorage v)) idx;
     s \<leftarrow> close_gap (cells (pStorage v)) idx (vlength v);
     let v1 = v\<lparr>pStorage := Some s\<rparr>;
     let v2 = (if vlength v1 \<le> vcapacity v1 div 4
               then let cap = sz (2 * vlength v1)
                    in v1\<lparr>vcapacity := cap, pStorage := realloc_ptrs M (pStorage v1) cap\<rparr>
               else v1);
     Some (0, release_node v x, v2\<lparr>vlength := sz_sub (vlength v2) 1\<rparr>)
   }"

section \<open>The invariant and the list a vector stands for\<close>

definition vector_wf :: "('p, 'f) vector \<Rightarrow> bool" where
  "vector_wf v \<longleftrightarrow> (\<exists>s. pStorage v = Some s \<and> length s = vcapacity v) \<and>
     vlength v \<le> vcapacity v \<and> 0 < vcapacity v \<and> vcapacity v < 2 ^ 60"

definition vector_items :: "('p, 'f) vector \<Rightarrow> 'p list" where
  "vector_items v = take (vlength v) (cells (pStorage v))"

lemma length_vector_items: "vector_wf v \<Longrightarrow> length (vector_items v) = vlength v"
  by (auto simp: vector_wf_def vector_items_def)

lemma realloc_ptrs_ok:
  "grants_all M \<Longrightarrow> n < 2 ^ 60 \<Longrightarrow>
   realloc_ptrs M (Some s) n = Some (take n s @ map (fresh M) [length s..<n])"
  by (simp add: realloc_ptrs_def mem_simps size_simps sizeof_ptr_def)

lemma Vector_Create_ok:
  assumes "grants_all M" "0 < n" "n < 2 ^ 60"
  shows "\<exists>v'. Vector_Create M v n fn = (0, v') \<and> vector_wf v' \<and> vector_items v' = [] \<and>
    vcapacity v' = n \<and> FreeNodeFn v' = fn"
  using assms
  by (simp add: Vector_Create_def alloc_ptrs_def mem_simps size_simps sizeof_ptr_def vector_wf_def
      vector_items_def)

lemma Vector_Push_ok:
  assumes M: "grants_all M" and wf: "vector_wf v" and sm: "vcapacity v < 2 ^ 59"
  shows "\<exists>v'. Vector_Push M x v = Some (0, v') \<and> vector_wf v' \<and>
    vector_items v' = vector_items v @ [x] \<and> FreeNodeFn v' = FreeNodeFn v \<and>
    vcapacity v' \<le> max (vcapacity v) (2 * vlength v)"
proof -
  from wf obtain s where s: "pStorage v = Some s" "length s = vcapacity v"
    "vlength v \<le> vcapacity v" "0 < vcapacity v"
    by (auto simp: vector_wf_def)
  show ?thesis
  proof (cases "vcapacity v \<le> vlength v")
    case True
    then have l: "vlength v = vcapacity v" using s(3) by simp
    have "sz (2 * vcapacity v) = 2 * vcapacity v" using sm by (intro sz_small) simp
    moreover have "realloc_ptrs M (Some s) (2 * vcapacity v) =
        Some (s @ map (fresh M) [length s..<2 * vcapacity v])"
      using realloc_ptrs_ok[OF M, of "2 * vcapacity v" s] s(2) sm by simp
    ultimately show ?thesis
      using l s sm by (simp add: Vector_Push_def Let_def mem_simps vector_wf_def vector_items_def
          size_simps list_update_append take_Suc_conv_app_nth nth_append)
  next
    case False
    then show ?thesis
      using s sm by (simp add: Vector_Push_def Let_def mem_simps vector_wf_def vector_items_def
          size_simps take_Suc_conv_app_nth)
  qed
qed

lemma close_gap_ok:
  assumes "idx < len" "len \<le> length s" "len < 2 ^ 60"
  shows "close_gap s idx len = Some (take idx s @ take (len - idx - 1) (drop (Suc idx) s) @ drop (len - 1) s)"
proof -
  have "sz_sub (sz_sub len idx) 1 = len - idx - 1"
    using assms by (simp add: sz_sub_le)
  then have "sz (sz_sub (sz_sub len idx) 1 * sizeof_ptr) div sizeof_ptr = len - idx - 1"
    using assms by (simp add: sizeof_ptr_def size_simps)
  moreover have "idx + (len - idx - 1) = len - 1" using assms by simp
  ultimately show ?thesis
    using assms by (simp add: close_gap_def mem_simps)
qed

lemma Vector_Remove_ok:
  assumes M: "grants_all M" and wf: "vector_wf v" and idx: "idx < vlength v"
  shows "\<exists>v'. Vector_Remove M v idx = Some (0, release_node v (vector_items v ! idx), v') \<and>
    vector_wf v' \<and> FreeNodeFn v' = FreeNodeFn v \<and>
    vector_items v' = take idx (vector_items v) @ drop (Suc idx) (vector_items v)"
proof -
  from wf obtain s where s: "pStorage v = Some s" "length s = vcapacity v"
    "vlength v \<le> vcapacity v" "0 < vcapacity v" "vcapacity v < 2 ^ 60"
    by (auto simp: vector_wf_def)
  define s' where "s' = take idx s @ take (vlength v - idx - 1) (drop (Suc idx) s) @ drop (vlength v - 1) s"
  have gap: "close_gap s idx (vlength v) = Some s'"
    unfolding s'_def using close_gap_ok[of idx "vlength v" s] idx s by simp
  have len: "length s' = length s" using idx s by (simp add: s'_def)
  have items: "take (vlength v - 1) s' = take idx (vector_items v) @ drop (Suc idx) (vector_items v)"
    using idx s by (auto simp: s'_def vector_items_def drop_take min_def intro: arg_cong2[of _ _ _ _ take])
  have x: "rd s idx = Some (vector_items v ! idx)"
    using idx s by (simp add: mem_simps vector_items_def)
  have dec: "sz_sub (vlength v) (Suc 0) = vlength v - 1" using idx s by (simp add: sz_sub_le)
  show ?thesis
  proof (cases "vlength v \<le> vcapacity v div 4")
    case True
    then have "sz (2 * vlength v) = 2 * vlength v" using s by (intro sz_small) simp
    moreover have "realloc_ptrs M (Some s') (2 * vlength v) = Some (take (2 * vlength v) s')"
      using realloc_ptrs_ok[OF M, of "2 * vlength v" s'] True s len by simp
    moreover have "\<not> vcapacity v \<le> 2 * vlength v" "2 * vlength v < 2 ^ 60" "vlength v - 1 \<le> 2 * vlength v"
      using True idx s by linarith+
    ultimately show ?thesis
      using True s gap x dec items len idx
      by (simp add: Vector_Remove_def Let_def release_node_def vector_wf_def vector_items_def min_def)
  next
    case False
    then show ?thesis
      using s gap x dec items len idx
      by (simp add: Vector_Remove_def Let_def release_node_def vector_wf_def vector_items_def)
  qed
qed

lemma Vector_At_ok:
  "vector_wf v \<Longrightarrow> idx < vlength v \<Longrightarrow> Vector_At v idx = Some (Some (vector_items v ! idx))"
  by (auto simp: Vector_At_def vector_wf_def vector_items_def mem_simps)

lemma find_from_ok:
  "pStorage v = Some s \<Longrightarrow> i + n \<le> length s \<Longrightarrow>
   find_from v cmp i n = Some (map_option ((+) i) (first_idx (\<lambda>x. cmp x = 0) (take n (drop i s))))"
proof (induction n arbitrary: i)
  case (Suc n)
  have "map_option ((+) (Suc i)) q = map_option ((+) i) (map_option Suc q)" for q
    by (cases q) simp_all
  then show ?case using Suc by (simp add: mem_simps flip: Cons_nth_drop_Suc)
qed simp

lemma Vector_Find_ok:
  "vector_wf v \<Longrightarrow>
   Vector_Find v key cmp = Some (first_idx (\<lambda>x. cmp key x = 0) (vector_items v))"
  using option.map_ident_strong[of _ "(+) (0::nat)"]
  by (auto simp: Vector_Find_def vector_wf_def vector_items_def find_from_ok)

lemma release_from_ok:
  "pStorage v = Some s \<Longrightarrow> i + n \<le> length s \<Longrightarrow>
   release_from v i n = Some (map (release_node v) (take n (drop i s)))"
  by (induction n arbitrary: i) (simp_all add: mem_simps flip: Cons_nth_drop_Suc)

lemma Vector_Destroy_ok:
  "vector_wf v \<Longrightarrow>
   Vector_Destroy v = Some (map (release_node v) (vector_items v), v\<lparr>pStorage := None\<rparr>)"
  by (auto simp: vector_wf_def Vector_Destroy_def vector_items_def release_from_ok)

section \<open>The contract\<close>

interpretation vec: push_seq
  "\<lambda>v :: ('p, 'f) vector. vector_wf v \<and> grants_all M \<and> FreeNodeFn v = fn" vector_items
  "\<lambda>v n. vcapacity v < 2 ^ 59 \<and> 2 * (vlength v + n) < 2 ^ 59" "Vector_Push M"
  for M :: "'p mem_mgr" and fn :: "'f option"
proof unfold_locales
  fix v :: "('p, 'f) vector" and n x
  assume ok: "vector_wf v \<and> grants_all M \<and> FreeNodeFn v = fn"
    and room: "vcapacity v < 2 ^ 59 \<and> 2 * (vlength v + Suc n) < 2 ^ 59"
  then obtain v' where v': "Vector_Push M x v = Some (0, v')" "vector_wf v'"
    "vector_items v' = vector_items v @ [x]" "FreeNodeFn v' = FreeNodeFn v"
    "vcapacity v' \<le> max (vcapacity v) (2 * vlength v)"
    using Vector_Push_ok[of M v x] by blast
  have "vlength v' = Suc (vlength v)"
    using length_vector_items[of v] length_vector_items[of v'] v' ok by simp
  then show "\<exists>b'. Vector_Push M x v = Some (0, b') \<and> (vector_wf b' \<and> grants_all M \<and> FreeNodeFn b' = fn) \<and>
    vector_items b' = vector_items v @ [x] \<and> vcapacity b' < 2 ^ 59 \<and> 2 * (vlength b' + n) < 2 ^ 59"
    using v' ok room by auto
qed auto

section \<open>Properties\<close>

definition vec0 :: "(nat, nat) vector" where
  "vec0 = \<lparr>pStorage = None, vcapacity = 0, vlength = 0, FreeNodeFn = None\<rparr>"

definition granter :: "nat mem_mgr" where
  "granter = \<lparr>grants = \<lambda>_. True, fresh = \<lambda>i. i + 7\<rparr>"

lemma granter_grants: "grants_all granter"
  by (simp add: granter_def grants_all_def)

text \<open>a vector created with room for at least one pointer takes any sequence of pushes across every
  reallocation without a fault; it then holds exactly the pushed pointers in order, and destroying it
  releases each of them once, in order, through the destructor it was created with.\<close>

theorem Vector_push_destroy:
  assumes "grants_all M" "0 < n" "n < 2 ^ 59" "length xs < 2 ^ 58"
  shows "\<exists>v v'. Vector_Create M v0 n fn = (0, v) \<and> push_all (Vector_Push M) xs v = Some v' \<and>
    vector_items v' = xs \<and> Vector_Count v' = length xs \<and>
    Vector_Destroy v' = Some (map (\<lambda>x. case fn of Some f \<Rightarrow> FreeNode f x | None \<Rightarrow> Tfree x) xs,
                              v'\<lparr>pStorage := None\<rparr>)"
proof -
  obtain v where v: "Vector_Create M v0 n fn = (0, v)" "vector_wf v" "vector_items v = []"
    "vcapacity v = n" "FreeNodeFn v = fn"
    using Vector_Create_ok[of M n v0 fn] assms by auto
  moreover have "vlength v = 0" using length_vector_items[OF v(2)] v(3) by simp
  ultimately obtain v' where v': "push_all (Vector_Push M) xs v = Some v'" "vector_wf v'"
    "vector_items v' = xs" "FreeNodeFn v' = fn"
    using vec.push_all_ok[of v M fn xs] assms by auto
  then show ?thesis
    using v Vector_Destroy_ok[of v'] length_vector_items[of v']
    by (auto simp: Vector_Count_def release_node_def[abs_def])
qed

theorem Vector_push_destroy_witness:
  "\<exists>v v'. Vector_Create granter vec0 1 (Some 9) = (0, v) \<and>
    push_all (Vector_Push granter) [10, 20, 30, 40, 50] v = Some v' \<and>
    vector_items v' = [10, 20, 30, 40, 50] \<and> Vector_Count v' = length [10, 20, 30, 40, 50 :: nat] \<and>
    Vector_Destroy v' = Some (map (\<lambda>x. case Some 9 of Some f \<Rightarrow> FreeNode f x | None \<Rightarrow> Tfree x)
      [10, 20, 30, 40, 50], v'\<lparr>pStorage := None\<rparr>)"
  by (rule Vector_push_destroy) (simp_all add: granter_grants)

text \<open>finding an element and removing it, as the server does when a client leaves: \<open>Vector_Find\<close>
  returns the index of the first match, and \<open>Vector_Remove\<close> at that index releases that element once
  and leaves the other elements in order; when the array is shrunk no element is lost.\<close>

theorem Vector_find_remove:
  assumes "grants_all M" "vector_wf v" "Vector_Find v key cmp = Some (Some i)"
  shows "i < vlength v \<and> cmp key (vector_items v ! i) = 0 \<and>
    (\<forall>j < i. cmp key (vector_items v ! j) \<noteq> 0) \<and>
    (\<exists>v'. Vector_Remove M v i = Some (0, release_node v (vector_items v ! i), v') \<and> vector_wf v' \<and>
      vector_items v' = take i (vector_items v) @ drop (Suc i) (vector_items v))"
proof -
  have "first_idx (\<lambda>x. cmp key x = 0) (vector_items v) = Some i"
    using assms Vector_Find_ok[of v key cmp] by simp
  then have i: "i < vlength v" "cmp key (vector_items v ! i) = 0"
    "\<forall>j < i. cmp key (vector_items v ! j) \<noteq> 0"
    using length_vector_items[OF assms(2)] by (auto simp: first_idx_Some)
  then show ?thesis using Vector_Remove_ok[OF assms(1,2) i(1)] by blast
qed

definition vec5 :: "(nat, nat) vector" where
  "vec5 = \<lparr>pStorage = Some [10, 20, 30, 20, 0, 0, 0, 0, 0, 0, 0, 0, 0, 0, 0, 0],
           vcapacity = 16, vlength = 4, FreeNodeFn = None\<rparr>"

definition difference :: "nat \<Rightarrow> nat \<Rightarrow> int" where
  "difference k x = int x - int k"

theorem Vector_find_remove_witness:
  "1 < vlength vec5 \<and> difference 20 (vector_items vec5 ! 1) = 0 \<and>
    difference 20 (vector_items vec5 ! 0) \<noteq> 0 \<and>
    (\<exists>v'. Vector_Remove granter vec5 1 = Some (0, release_node vec5 (vector_items vec5 ! 1), v') \<and>
      vector_wf v' \<and> vector_items v' = take 1 (vector_items vec5) @ drop (Suc 1) (vector_items vec5))"
proof -
  have "vector_wf vec5" by (simp add: vector_wf_def vec5_def)
  moreover have "Vector_Find vec5 20 difference = Some (Some 1)" by code_simp
  ultimately show ?thesis using Vector_find_remove[OF granter_grants, of vec5 20 difference 1] by simp
qed

text \<open>a vector created with initial size 0 is reported as created, but can never be used: doubling a
  capacity of 0 gives 0, and the first push writes past the empty block.\<close>

theorem Vector_Create_zero_unusable:
  assumes "grants_all M"
  shows "\<exists>v. Vector_Create M v0 0 fn = (0, v) \<and> Vector_Push M x v = None"
  using assms
  by (simp add: Vector_Create_def alloc_ptrs_def realloc_ptrs_def Vector_Push_def Let_def mem_simps
      sz_def wr_def)

theorem Vector_Create_zero_unusable_witness:
  "\<exists>v. Vector_Create granter vec0 0 None = (0, v) \<and> Vector_Push granter 5 v = None"
  by (rule Vector_Create_zero_unusable) (rule granter_grants)

end
