(* ===== verification/CharVector.thy ===== *)
theory CharVector
  imports C_Strings Vector
begin

text \<open>
  charvector.c: the growable byte buffer the server keeps all text in. A value is the record of the C
  struct, \<open>cdata\<close> the allocated block or null. Freeing a block drops it from the record. \<open>None\<close> is
  undefined behaviour: an access outside the block, or a null pointer passed to \<open>memset\<close>/\<open>memcpy\<close>.
\<close>

section \<open>The operations\<close>

record cv_t =
  cdata :: "byte list option"
  clength :: nat
  ccapacity :: nat

definition MINALLOC :: nat where
  "MINALLOC = 8"

definition cv_alloc :: "byte mem_mgr \<Rightarrow> nat \<Rightarrow> byte list option" where
  "cv_alloc M n = malloc_cells M 1 n"

definition cv_realloc :: "byte mem_mgr \<Rightarrow> byte list option \<Rightarrow> nat \<Rightarrow> byte list option" where
  "cv_realloc M p n = realloc_cells M 1 p n"

text \<open>\<open>out\<close> is the text the format and the arguments stand for.\<close>

definition cv_sprintf :: "byte mem_mgr \<Rightarrow> cv_t \<Rightarrow> byte list \<Rightarrow> cv_t option" where
  "cv_sprintf M cv out = do {
     d \<leftarrow> c_snprintf (cells (cdata cv)) (ccapacity cv) out;
     let bwritten = length out;
     let cv1 = cv\<lparr>cdata := (if cdata cv = None then None else Some d), clength := sz (bwritten + 1)\<rparr>;
     if bwritten \<ge> ccapacity cv1 then do {
       let cap = max (sz (2 * ccapacity cv1)) (clength cv1);
       d1 \<leftarrow> fill_cells (cells (cv_realloc M (cdata cv1) cap)) 0 cap 0;
       d2 \<leftarrow> c_snprintf d1 cap out;
       Some (cv1\<lparr>ccapacity := cap, cdata := Some d2\<rparr>)
     } else Some cv1
   }"

definition cv_append :: "byte mem_mgr \<Rightarrow> cv_t \<Rightarrow> byte list \<Rightarrow> nat \<Rightarrow> (int \<times> cv_t) option" where
  "cv_append M cv data len =
     (let grow = sz (clength cv + len) > ccapacity cv;
          cv1 = (if grow
                 then let cap = max (sz (2 * ccapacity cv)) (sz (ccapacity cv + len));
                          cap = max cap MINALLOC
                      in cv\<lparr>ccapacity := cap, cdata := cv_realloc M (cdata cv) cap\<rparr>
                 else cv)
      in if grow \<and> cdata cv1 = None then Some (-1, cv1)
         else do {
           ys \<leftarrow> read_cells data 0 len;
           d \<leftarrow> copy_cells (cells (cdata cv1)) (clength cv1) ys;
           let n = sz (clength cv1 + len);
           Some (to_int32 n, cv1\<lparr>cdata := Some d, clength := n\<rparr>)
         })"

definition cv_clear :: "cv_t \<Rightarrow> cv_t option" where
  "cv_clear cv = do {
     d \<leftarrow> fill_cells (cells (cdata cv)) 0 (ccapacity cv) 0;
     Some (cv\<lparr>cdata := Some d, clength := 0\<rparr>)
   }"

definition cv_appendcv :: "byte mem_mgr \<Rightarrow> cv_t \<Rightarrow> cv_t \<Rightarrow> (int \<times> cv_t) option" where
  "cv_appendcv M dest src = cv_append M dest (cells (cdata src)) (clength src)"

definition cv_init :: "byte mem_mgr \<Rightarrow> nat \<Rightarrow> (int \<times> cv_t) option" where
  "cv_init M startsize = do {
     let cap = max startsize MINALLOC;
     d \<leftarrow> cv_alloc M cap;
     d \<leftarrow> fill_cells d 0 cap 0;
     Some (if startsize > 0 then 0 else -1, \<lparr>cdata = Some d, clength = 0, ccapacity = cap\<rparr>)
   }"

definition cv_resize :: "byte mem_mgr \<Rightarrow> cv_t \<Rightarrow> nat \<Rightarrow> int \<times> cv_t" where
  "cv_resize M cv newcap =
     (let cv1 = (if cdata cv = None \<or> newcap \<noteq> ccapacity cv
                 then cv\<lparr>cdata := cv_realloc M (cdata cv) (max MINALLOC newcap), ccapacity := newcap\<rparr>
                 else cv)
      in (if cdata cv1 = None then -1 else 0, cv1))"

definition cv_swap :: "cv_t \<Rightarrow> cv_t \<Rightarrow> cv_t \<times> cv_t" where
  "cv_swap a b =
     (let temp = \<lparr>cdata = cdata a, clength = clength a, ccapacity = ccapacity a\<rparr>;
          a' = a\<lparr>cdata := cdata b, clength := clength b, ccapacity := ccapacity b\<rparr>;
          b' = b\<lparr>cdata := cdata temp, clength := clength temp, ccapacity := ccapacity temp\<rparr>
      in (a', b'))"

definition cv_copy :: "byte mem_mgr \<Rightarrow> cv_t \<Rightarrow> cv_t \<Rightarrow> cv_t option" where
  "cv_copy M dest source = do {
     let cap = max MINALLOC (ccapacity source);
     ys \<leftarrow> read_cells (cells (cdata source)) 0 cap;
     d \<leftarrow> copy_cells (cells (cv_alloc M cap)) 0 ys;
     Some (dest\<lparr>clength := clength source, ccapacity := cap, cdata := Some d\<rparr>)
   }"

definition cv_strncpy :: "byte mem_mgr \<Rightarrow> cv_t \<Rightarrow> byte list \<Rightarrow> nat \<Rightarrow> cv_t option" where
  "cv_strncpy M dest source len = do {
     let cap = max MINALLOC len;
     ys \<leftarrow> read_cells source 0 len;
     d \<leftarrow> copy_cells (cells (cv_alloc M cap)) 0 ys;
     Some (dest\<lparr>clength := len, ccapacity := cap, cdata := Some d\<rparr>)
   }"

definition cv_strncat :: "byte mem_mgr \<Rightarrow> cv_t \<Rightarrow> byte list \<Rightarrow> nat \<Rightarrow> cv_t option" where
  "cv_strncat M dest source len = do {
     k \<leftarrow> c_strnlen (cells (cdata dest)) (ccapacity dest);
     let new_len = sz (k + len + 1);
     dest1 \<leftarrow> (if new_len \<ge> ccapacity dest then do {
                  let oldcap = ccapacity dest;
                  let cap = max (sz (2 * ccapacity dest)) (max new_len MINALLOC);
                  d \<leftarrow> fill_cells (cells (cv_realloc M (cdata dest) cap)) oldcap (sz_sub cap oldcap) 0;
                  Some (dest\<lparr>ccapacity := cap, cdata := Some d\<rparr>)
                } else Some dest);
     d \<leftarrow> c_strncat (cells (cdata dest1)) source len;
     Some (dest1\<lparr>clength := new_len, cdata := Some d\<rparr>)
   }"

definition cv_appendstr :: "byte mem_mgr \<Rightarrow> cv_t \<Rightarrow> byte list \<Rightarrow> nat \<Rightarrow> (int \<times> cv_t) option" where
  "cv_appendstr M cv data len = do { cv \<leftarrow> cv_strncat M cv data len; Some (0, cv) }"

definition cv_destroy :: "cv_t \<Rightarrow> cv_t" where
  "cv_destroy cv = cv\<lparr>clength := 0, ccapacity := 0, cdata := None\<rparr>"

definition cv_pushlimited :: "byte \<Rightarrow> cv_t \<Rightarrow> (int \<times> cv_t) option" where
  "cv_pushlimited newel cv =
     (if clength cv < ccapacity cv \<and> cdata cv \<noteq> None then do {
        d \<leftarrow> wr (cells (cdata cv)) (clength cv) newel;
        Some (0, cv\<lparr>cdata := Some d, clength := sz (clength cv + 1)\<rparr>)
      } else Some (-1, cv))"

definition cv_push :: "byte mem_mgr \<Rightarrow> byte \<Rightarrow> cv_t \<Rightarrow> (int \<times> cv_t) option" where
  "cv_push M newel cv =
     (let cv1 = (if clength cv \<ge> ccapacity cv
                 then let cap = max (sz (2 * ccapacity cv)) (sz (ccapacity cv + clength cv));
                          cap = max cap MINALLOC
                      in cv\<lparr>ccapacity := cap, cdata := cv_realloc M (cdata cv) cap\<rparr>
                 else cv)
      in if cdata cv1 \<noteq> None then do {
           d \<leftarrow> wr (cells (cdata cv1)) (clength cv1) newel;
           Some (0, cv1\<lparr>cdata := Some d, clength := sz (clength cv1 + 1)\<rparr>)
         } else Some (-1, cv1))"

definition swap_elements :: "byte \<Rightarrow> byte \<Rightarrow> byte \<times> byte" where
  "swap_elements a b = (let t = b; b' = a; a' = t in (a', b'))"

definition cv_at :: "cv_t \<Rightarrow> nat \<Rightarrow> byte option" where
  "cv_at cv idx = rd (cells (cdata cv)) idx"

definition cv_len :: "cv_t \<Rightarrow> nat" where
  "cv_len cv = clength cv"

section \<open>The invariant\<close>

text \<open>
  The block is as large as the capacity, and never below \<open>MINALLOC\<close> (which \<open>cv_resize\<close> hides from the
  capacity): that is why copying at least \<open>MINALLOC\<close> bytes in \<open>cv_copy\<close> stays inside the source.
\<close>

definition cv_wf :: "cv_t \<Rightarrow> bool" where
  "cv_wf cv \<longleftrightarrow> (\<exists>d. cdata cv = Some d \<and> length d = max MINALLOC (ccapacity cv)) \<and>
     clength cv \<le> ccapacity cv \<and> ccapacity cv < 2 ^ 62"

definition cv_bytes :: "cv_t \<Rightarrow> byte list" where
  "cv_bytes cv = take (clength cv) (cells (cdata cv))"

lemma length_cv_bytes: "cv_wf cv \<Longrightarrow> length (cv_bytes cv) = clength cv"
  by (auto simp: cv_wf_def cv_bytes_def)

lemma cv_wfE:
  assumes "cv_wf cv"
  obtains d where "cdata cv = Some d" "length d = max MINALLOC (ccapacity cv)" "ccapacity cv \<le> length d"
    "MINALLOC \<le> length d" "clength cv \<le> ccapacity cv" "ccapacity cv < 2 ^ 62" "length d < 2 ^ 62"
  using assms by (auto simp: cv_wf_def MINALLOC_def)

lemma cv_realloc_ok:
  "grants_all M \<Longrightarrow> length d \<le> n \<Longrightarrow> cv_realloc M (Some d) n = Some (d @ map (fresh M) [length d..<n])"
  by (simp add: cv_realloc_def mem_simps)

lemma cv_alloc_ok: "grants_all M \<Longrightarrow> cv_alloc M n = Some (map (fresh M) [0..<n])"
  by (simp add: cv_alloc_def mem_simps)

lemma cv_init_ok:
  assumes "grants_all M" "n < 2 ^ 62"
  shows "\<exists>cv. cv_init M n = Some (if n > 0 then 0 else -1, cv) \<and> cv_wf cv \<and> cv_bytes cv = [] \<and>
    ccapacity cv = max n MINALLOC \<and> cdata cv = Some (replicate (max n MINALLOC) 0)"
  using assms
  by (auto simp: cv_init_def cv_alloc_ok mem_simps cv_wf_def cv_bytes_def MINALLOC_def Let_def)

lemma cv_append_ok:
  assumes M: "grants_all M" and wf: "cv_wf cv" and src: "len \<le> length src"
    and lim: "ccapacity cv < 2 ^ 60" "len < 2 ^ 60"
  shows "\<exists>cv'. cv_append M cv src len = Some (to_int32 (clength cv + len), cv') \<and> cv_wf cv' \<and>
    cv_bytes cv' = cv_bytes cv @ take len src \<and>
    ccapacity cv' \<le> max (max (2 * ccapacity cv) (ccapacity cv + len)) MINALLOC"
proof -
  from cv_wfE[OF wf] obtain d where d: "cdata cv = Some d" "length d = max MINALLOC (ccapacity cv)"
    "ccapacity cv \<le> length d" "MINALLOC \<le> length d" "clength cv \<le> ccapacity cv"
    "ccapacity cv < 2 ^ 62" "length d < 2 ^ 62" by blast
  have sm: "sz (clength cv + len) = clength cv + len" "sz (2 * ccapacity cv) = 2 * ccapacity cv"
    "sz (ccapacity cv + len) = ccapacity cv + len"
    using d lim by (simp_all add: sz_small)
  show ?thesis
  proof (cases "ccapacity cv < clength cv + len")
    case True
    define cap where "cap = max (max (2 * ccapacity cv) (ccapacity cv + len)) MINALLOC"
    have cap: "clength cv + len \<le> cap" "cap < 2 ^ 62" "length d \<le> cap" "MINALLOC \<le> cap"
      using d lim by (simp_all add: MINALLOC_def cap_def)
    have re: "cv_realloc M (Some d) cap = Some (d @ map (fresh M) [length d..<cap])"
      by (rule cv_realloc_ok[OF M cap(3)])
    then show ?thesis
      unfolding cap_def[symmetric]
      using True d(1,3,5) sm src cap
      by (simp add: cv_append_def cap_def[symmetric] Let_def mem_simps cv_wf_def cv_bytes_def)
  next
    case False
    then show ?thesis
      using d sm src by (simp add: cv_append_def Let_def mem_simps cv_wf_def cv_bytes_def)
  qed
qed

lemma cv_push_ok:
  assumes M: "grants_all M" and wf: "cv_wf cv" and lim: "ccapacity cv < 2 ^ 60"
  shows "\<exists>cv'. cv_push M x cv = Some (0, cv') \<and> cv_wf cv' \<and> cv_bytes cv' = cv_bytes cv @ [x] \<and>
    ccapacity cv' \<le> max (max (ccapacity cv) (2 * clength cv)) MINALLOC"
proof -
  from cv_wfE[OF wf] obtain d where d: "cdata cv = Some d" "length d = max MINALLOC (ccapacity cv)"
    "ccapacity cv \<le> length d" "MINALLOC \<le> length d" "clength cv \<le> ccapacity cv"
    "ccapacity cv < 2 ^ 62" "length d < 2 ^ 62" by blast
  have sm: "sz (clength cv + 1) = clength cv + 1" "sz (2 * ccapacity cv) = 2 * ccapacity cv"
    "sz (ccapacity cv + clength cv) = ccapacity cv + clength cv"
    using d lim by (simp_all add: sz_small)
  show ?thesis
  proof (cases "ccapacity cv \<le> clength cv")
    case True
    define cap where "cap = max (max (sz (2 * ccapacity cv)) (sz (ccapacity cv + clength cv))) MINALLOC"
    have cap: "clength cv < cap" "cap < 2 ^ 62" "length d \<le> cap" "MINALLOC \<le> cap"
      "cap \<le> max (max (ccapacity cv) (2 * clength cv)) MINALLOC"
      using d lim True sm by (simp_all add: MINALLOC_def cap_def)
    have "cv_realloc M (Some d) cap = Some (d @ map (fresh M) [length d..<cap])"
      by (rule cv_realloc_ok[OF M cap(3)])
    then show ?thesis
      unfolding cv_push_def Let_def cap_def[symmetric]
      using True d(1,3,5) sm(1) cap
      by (simp add: mem_simps cv_wf_def cv_bytes_def take_Suc_conv_app_nth)
  next
    case False
    then show ?thesis
      using d sm
      by (simp add: cv_push_def Let_def mem_simps cv_wf_def cv_bytes_def take_Suc_conv_app_nth)
  qed
qed

lemma cv_pushlimited_ok:
  assumes wf: "cv_wf cv"
  shows "\<exists>cv'. cv_pushlimited x cv = Some (if clength cv < ccapacity cv then 0 else -1, cv') \<and>
    cv_wf cv' \<and> ccapacity cv' = ccapacity cv \<and>
    (if clength cv < ccapacity cv
     then cv_bytes cv' = cv_bytes cv @ [x] \<and> clength cv' = clength cv + 1 \<and>
       cells (cdata cv') = (cells (cdata cv))[clength cv := x]
     else cv' = cv)"
proof -
  from cv_wfE[OF wf] obtain d where d: "cdata cv = Some d" "length d = max MINALLOC (ccapacity cv)"
    "ccapacity cv \<le> length d" "clength cv \<le> ccapacity cv" "ccapacity cv < 2 ^ 62" by blast
  show ?thesis
  proof (cases "clength cv < ccapacity cv")
    case True
    then have "sz (clength cv + 1) = clength cv + 1" "clength cv < length d"
      using d by (simp_all add: sz_small)
    then show ?thesis
      using True d by (simp add: cv_pushlimited_def mem_simps cv_wf_def cv_bytes_def take_Suc_conv_app_nth)
  next
    case False
    then show ?thesis using wf by (simp add: cv_pushlimited_def)
  qed
qed

text \<open>\<open>cv_resize\<close> does not touch the length: the result is well-formed only when it still fits.\<close>

lemma cv_resize_ok:
  assumes M: "grants_all M" and wf: "cv_wf cv" and n: "clength cv \<le> n" "n < 2 ^ 62"
  shows "\<exists>cv'. cv_resize M cv n = (0, cv') \<and> cv_wf cv' \<and> cv_bytes cv' = cv_bytes cv \<and> ccapacity cv' = n"
proof -
  from cv_wfE[OF wf] obtain d where d: "cdata cv = Some d" "length d = max MINALLOC (ccapacity cv)"
    "ccapacity cv \<le> length d" "clength cv \<le> ccapacity cv" by blast
  show ?thesis
  proof (cases "n = ccapacity cv")
    case True
    then show ?thesis using d wf by (simp add: cv_resize_def)
  next
    case False
    define d' where "d' = take (max MINALLOC n) d @ map (fresh M) [length d..<max MINALLOC n]"
    have re: "cv_realloc M (Some d) (max MINALLOC n) = Some d'"
      using M by (simp add: cv_realloc_def mem_simps d'_def)
    have "length d' = max MINALLOC n" by (auto simp: d'_def)
    moreover have "take (clength cv) d' = take (clength cv) d"
    proof -
      have "clength cv \<le> length (take (max MINALLOC n) d)"
        using d n(1) by (simp add: le_max_iff_disj)
      then show ?thesis using n(1) by (simp add: d'_def min_def le_max_iff_disj)
    qed
    ultimately show ?thesis
      using False d n re by (simp add: cv_resize_def Let_def cv_wf_def cv_bytes_def)
  qed
qed

lemma cv_copy_ok:
  assumes M: "grants_all M" and wf: "cv_wf source"
  shows "\<exists>cv'. cv_copy M dest source = Some cv' \<and> cv_wf cv' \<and> cv_bytes cv' = cv_bytes source \<and>
    ccapacity cv' = max MINALLOC (ccapacity source)"
proof -
  from cv_wfE[OF wf] obtain d where "cdata source = Some d" "length d = max MINALLOC (ccapacity source)"
    "clength source \<le> ccapacity source" "ccapacity source < 2 ^ 62" "length d < 2 ^ 62" by blast
  then show ?thesis
    by (simp add: cv_copy_def Let_def mem_simps cv_alloc_ok[OF M] cv_wf_def cv_bytes_def)
qed

lemma cv_strncpy_ok:
  assumes M: "grants_all M" and src: "len \<le> length source" "len < 2 ^ 62"
  shows "\<exists>cv'. cv_strncpy M dest source len = Some cv' \<and> cv_wf cv' \<and> cv_bytes cv' = take len source"
proof -
  have "max MINALLOC len < 2 ^ 62" using src(2) by (simp add: MINALLOC_def)
  then show ?thesis
    using src by (simp add: cv_strncpy_def Let_def mem_simps cv_alloc_ok[OF M] cv_wf_def cv_bytes_def)
qed

lemma cv_clear_ok:
  assumes wf: "cv_wf cv"
  shows "\<exists>cv'. cv_clear cv = Some cv' \<and> cv_wf cv' \<and> cv_bytes cv' = [] \<and> ccapacity cv' = ccapacity cv \<and>
    clength cv' = 0 \<and> take (ccapacity cv) (cells (cdata cv')) = replicate (ccapacity cv) 0"
proof -
  from cv_wfE[OF wf] obtain d where "cdata cv = Some d" "length d = max MINALLOC (ccapacity cv)"
    "ccapacity cv \<le> length d" "ccapacity cv < 2 ^ 62" by blast
  then show ?thesis by (simp add: cv_clear_def mem_simps cv_wf_def cv_bytes_def)
qed

text \<open>The string in a buffer, as \<open>cv_strncat\<close> sees it: up to the first zero inside the capacity.\<close>

definition cv_str :: "cv_t \<Rightarrow> byte list" where
  "cv_str cv = cstr (take (ccapacity cv) (cells (cdata cv)))"

definition cv_closed :: "cv_t \<Rightarrow> bool" where
  "cv_closed cv \<longleftrightarrow> cv_wf cv \<and> length (cv_str cv) < ccapacity cv"

lemma length_cv_str: "cv_wf cv \<Longrightarrow> length (cv_str cv) \<le> ccapacity cv"
  using length_cstr_le[of "take (ccapacity cv) (cells (cdata cv))"] by (simp add: cv_str_def)

lemma cv_strncat_ok:
  assumes M: "grants_all M" and wf: "cv_wf cv" and src: "len \<le> length src \<or> terminated src"
    and lim: "ccapacity cv < 2 ^ 60" "len < 2 ^ 60"
  shows "\<exists>cv'. cv_strncat M cv src len = Some cv' \<and> cv_closed cv' \<and>
    cv_str cv' = cv_str cv @ cstr (take len src) \<and> clength cv' = length (cv_str cv) + len + 1 \<and>
    ccapacity cv' \<le> max (ccapacity cv) (2 * (length (cv_str cv) + len + 1) + MINALLOC)"
proof -
  from cv_wfE[OF wf] obtain d where d: "cdata cv = Some d" "length d = max MINALLOC (ccapacity cv)"
    "ccapacity cv \<le> length d" "MINALLOC \<le> length d" "clength cv \<le> ccapacity cv"
    "ccapacity cv < 2 ^ 62" "length d < 2 ^ 62" by blast
  let ?k = "length (cv_str cv)" and ?s = "cstr (take len src)"
  have k: "?k \<le> ccapacity cv" "c_strnlen d (ccapacity cv) = Some ?k"
    using d length_cstr_le[of "take (ccapacity cv) d"] by (simp_all add: cv_str_def c_strnlen_ok)
  have s: "length ?s \<le> len" using length_cstr_le[of "take len src"] by simp
  have sm: "sz (?k + len + 1) = ?k + len + 1" "sz (2 * ccapacity cv) = 2 * ccapacity cv"
    using k lim by (simp_all add: sz_small)
  show ?thesis
  proof (cases "ccapacity cv \<le> ?k + len + 1")
    case False
    have str: "cstr d = cv_str cv" and t: "terminated d"
      using False k(1) d(1,3) unfolding cv_str_def cstr_take
      by (auto simp: cstr_take terminated_iff)
    obtain d' where d': "c_strncat d src len = Some d'" "length d' = length d" "cstr d' = cv_str cv @ ?s"
      using c_strncat_ok[OF t src] False s d(3) str by auto
    have "cstr (take (ccapacity cv) d') = cv_str cv @ ?s"
      using False s by (simp add: cstr_take d'(3))
    then show ?thesis
      using False d d' k(2) sm s by (simp add: cv_strncat_def Let_def cv_closed_def cv_wf_def cv_str_def)
  next
    case True
    define cap where "cap = max (sz (2 * ccapacity cv)) (max (sz (?k + len + 1)) MINALLOC)"
    have cap: "?k + len + 1 \<le> cap" "MINALLOC \<le> cap" "cap < 2 ^ 62" "ccapacity cv < cap" "length d \<le> cap"
      "cap \<le> max (ccapacity cv) (2 * (?k + len + 1) + MINALLOC)"
      using d lim k(1) sm True by (auto simp: cap_def MINALLOC_def max_def)
    define z where "z = take (ccapacity cv) d @ replicate (cap - ccapacity cv) 0"
    have fill: "fill_cells (cells (cv_realloc M (Some d) cap)) (ccapacity cv) (cap - ccapacity cv) 0 = Some z"
      using cap d(3) by (simp add: cv_realloc_ok[OF M] mem_simps z_def)
    have z: "length z = cap" "cstr z = cv_str cv" "terminated z"
      using cap d(1,3) by (simp_all add: z_def cstr_zeros cv_str_def terminated_def)
    obtain d' where d': "c_strncat z src len = Some d'" "length d' = cap" "cstr d' = cv_str cv @ ?s"
      using c_strncat_ok[OF z(3) src] cap(1) s z by auto
    have diff: "sz_sub cap (ccapacity cv) = cap - ccapacity cv" using cap by (simp add: sz_sub_le)
    show ?thesis
      unfolding cv_strncat_def Let_def d(1) cells_Some k(2) bind.bind_lunit cap_def[symmetric]
      using True d(1) d' sm(1) s fill diff cap
      by (simp add: cv_closed_def cv_wf_def cv_str_def)
  qed
qed

text \<open>Appending within a bound on the capacity.\<close>

lemma append_str:
  assumes "grants_all M" "cv_wf out" "len \<le> length src \<or> terminated src" "ccapacity out \<le> B" "B \<le> 2 ^ 56"
    "2 * (length (cv_str out) + len + 1) + 8 \<le> B"
  shows "\<exists>out'. cv_strncat M out src len = Some out' \<and> cv_closed out' \<and>
    cv_str out' = cv_str out @ cstr (take len src) \<and> ccapacity out' \<le> B \<and>
    clength out' = length (cv_str out) + len + 1"
proof -
  obtain out' where out': "cv_strncat M out src len = Some out'" "cv_closed out'"
    "cv_str out' = cv_str out @ cstr (take len src)" "clength out' = length (cv_str out) + len + 1"
    "ccapacity out' \<le> max (ccapacity out) (2 * (length (cv_str out) + len + 1) + MINALLOC)"
    using cv_strncat_ok[OF assms(1-3)] assms(4-6) by auto
  moreover have "ccapacity out' \<le> B" using out'(5) assms(4,6) by (simp add: MINALLOC_def)
  ultimately show ?thesis by blast
qed

text \<open>The first line of the result of \<open>vsnprintf\<close> that fits.\<close>

lemma cstr_snprintf:
  assumes "take (length out + 1) d = out @ [0]" "0 \<notin> set out"
  shows "cstr d = out"
proof -
  have "d = out @ 0 # drop (length out + 1) d"
    using assms(1) append_take_drop_id[of "length out + 1" d] by simp
  then show ?thesis using cstr_zero[OF assms(2)] by metis
qed

lemma cv_sprintf_ok:
  assumes M: "grants_all M" and wf: "cv_wf cv" and out: "length out < 2 ^ 60" "0 \<notin> set out"
    and lim: "MINALLOC \<le> ccapacity cv" "ccapacity cv < 2 ^ 60"
  shows "\<exists>cv'. cv_sprintf M cv out = Some cv' \<and> cv_closed cv' \<and> cv_bytes cv' = out @ [0] \<and> cv_str cv' = out \<and>
    ccapacity cv' \<le> max (2 * ccapacity cv) (length out + 1)"
proof -
  from cv_wfE[OF wf] obtain d where d: "cdata cv = Some d" "length d = ccapacity cv"
    using lim by (metis max_absorb2)
  have sm: "sz (length out + 1) = length out + 1" "sz (2 * ccapacity cv) = 2 * ccapacity cv"
    using out lim by (simp_all add: sz_small)
  show ?thesis
  proof (cases "ccapacity cv \<le> length out")
    case False
    then obtain d' where d': "c_snprintf d (ccapacity cv) out = Some d'" "length d' = length d"
      "take (length out + 1) d' = out @ [0]"
      using c_snprintf_ok[of out "ccapacity cv" d] d(2) out(2) by auto
    then show ?thesis
      using False d sm lim cstr_snprintf[OF d'(3) out(2)]
      by (simp add: cv_sprintf_def Let_def cv_closed_def cv_wf_def cv_str_def cstr_take cv_bytes_def)
  next
    case True
    define cap where "cap = max (sz (2 * ccapacity cv)) (Suc (length out))"
    obtain d1 where d1: "c_snprintf d (ccapacity cv) out = Some d1" "length d1 = length d"
      using d(2) True lim by (auto simp: c_snprintf_def mem_simps MINALLOC_def)
    have cap: "length out < cap" "cap < 2 ^ 62" "MINALLOC \<le> cap" "length d1 \<le> cap"
      "cap \<le> max (2 * ccapacity cv) (length out + 1)"
      using out lim sm d(2) d1(2) by (auto simp: cap_def MINALLOC_def max_def)
    have fill: "fill_cells (cells (cv_realloc M (Some d1) cap)) 0 cap 0 = Some (replicate cap 0)"
      using cap(4) by (simp add: cv_realloc_ok[OF M] mem_simps)
    obtain d2 where d2: "c_snprintf (replicate cap 0) cap out = Some d2" "length d2 = cap"
      "take (length out + 1) d2 = out @ [0]"
      using c_snprintf_ok[of out cap "replicate cap 0"] cap(1) out(2) by auto
    show ?thesis
      using True d(1) d1(1) d2 fill cap sm(1) cstr_snprintf[OF d2(3) out(2)]
      by (simp add: cv_sprintf_def Let_def cap_def[symmetric] cv_closed_def cv_wf_def cv_str_def
          cstr_take cv_bytes_def)
  qed
qed

section \<open>The contract of byte buffers\<close>

interpretation cvb: push_seq
  "\<lambda>cv. cv_wf cv \<and> grants_all M" cv_bytes
  "\<lambda>cv n. ccapacity cv < 2 ^ 60 \<and> 2 * (clength cv + n) + MINALLOC < 2 ^ 60" "cv_push M" for M
proof unfold_locales
  fix cv n x
  assume ok: "cv_wf cv \<and> grants_all M"
    and room: "ccapacity cv < 2 ^ 60 \<and> 2 * (clength cv + Suc n) + MINALLOC < 2 ^ 60"
  then obtain cv' where cv': "cv_push M x cv = Some (0, cv')" "cv_wf cv'"
    "cv_bytes cv' = cv_bytes cv @ [x]" "ccapacity cv' \<le> max (max (ccapacity cv) (2 * clength cv)) MINALLOC"
    using cv_push_ok[of M cv x] by blast
  have "clength cv' = Suc (clength cv)"
    using length_cv_bytes[of cv] length_cv_bytes[of cv'] cv' ok by simp
  moreover have "ccapacity cv' < 2 ^ 60" using cv'(4) room by (simp add: max_def split: if_splits)
  ultimately show "\<exists>b'. cv_push M x cv = Some (0, b') \<and> (cv_wf b' \<and> grants_all M) \<and>
    cv_bytes b' = cv_bytes cv @ [x] \<and> ccapacity b' < 2 ^ 60 \<and> 2 * (clength b' + n) + MINALLOC < 2 ^ 60"
    using cv' ok room by simp
qed auto

section \<open>Properties\<close>

definition byte_mgr :: "byte mem_mgr" where
  "byte_mgr = \<lparr>grants = \<lambda>_. True, fresh = \<lambda>i. word_of_nat i + 1\<rparr>"

lemma byte_mgr_grants: "grants_all byte_mgr"
  by (simp add: byte_mgr_def grants_all_def)

text \<open>C25: a byte buffer behaves as a list of bytes: starting from \<open>cv_init\<close> with a positive size, pushing
  bytes one by one and then appending a block never faults, whatever reallocations happen, and the
  buffer holds exactly the bytes pushed and appended; \<open>cv_append\<close> returns the new length.\<close>

theorem cv_push_append_correct:
  assumes "grants_all M" "0 < n" "n < 2 ^ 59" "length xs < 2 ^ 58" "len \<le> length src" "len < 2 ^ 29"
    "length xs < 2 ^ 29"
  shows "\<exists>cv cv1 cv2. cv_init M n = Some (0, cv) \<and> push_all (cv_push M) xs cv = Some cv1 \<and>
    cv_append M cv1 src len = Some (int (length xs + len), cv2) \<and>
    cv_bytes cv2 = xs @ take len src \<and> cv_len cv2 = length xs + len"
proof -
  obtain cv where cv: "cv_init M n = Some (0, cv)" "cv_wf cv" "cv_bytes cv = []"
    "ccapacity cv = max n MINALLOC"
    using cv_init_ok[of M n] assms by auto
  moreover have "clength cv = 0" using length_cv_bytes[OF cv(2)] cv(3) by simp
  ultimately obtain cv1 where cv1: "push_all (cv_push M) xs cv = Some cv1" "cv_wf cv1"
    "cv_bytes cv1 = xs" "ccapacity cv1 < 2 ^ 60"
    using cvb.push_all_ok[of cv M xs] assms by (auto simp: MINALLOC_def)
  then obtain cv2 where cv2: "cv_append M cv1 src len = Some (to_int32 (clength cv1 + len), cv2)"
    "cv_wf cv2" "cv_bytes cv2 = cv_bytes cv1 @ take len src"
    using cv_append_ok[of M cv1 len src] assms by auto
  have "clength cv1 = length xs" using length_cv_bytes[OF cv1(2)] cv1(3) by simp
  moreover have "cv_len cv2 = length xs + len"
    using length_cv_bytes[OF cv2(2)] cv2(3) cv1(3) assms by (simp add: cv_len_def)
  moreover have "to_int32 (length xs + len) = int (length xs + len)"
    using assms by (intro to_int32_small) simp
  ultimately show ?thesis using cv(1) cv1(1,3) cv2(1,3) by auto
qed

theorem cv_push_append_correct_witness:
  "\<exists>cv cv1 cv2. cv_init byte_mgr 3 = Some (0, cv) \<and>
    push_all (cv_push byte_mgr) [1, 2, 3, 4, 5, 6, 7, 8, 9] cv = Some cv1 \<and>
    cv_append byte_mgr cv1 [10, 11, 12] 2 = Some (int (length [1, 2, 3, 4, 5, 6, 7, 8, 9 :: byte] + 2), cv2) \<and>
    cv_bytes cv2 = [1, 2, 3, 4, 5, 6, 7, 8, 9] @ take 2 [10, 11, 12] \<and>
    cv_len cv2 = length [1, 2, 3, 4, 5, 6, 7, 8, 9 :: byte] + 2"
  by (rule cv_push_append_correct) (simp_all add: byte_mgr_grants)

text \<open>\<open>cv_strncat\<close> on any well-formed buffer, terminated or not, appends at most \<open>len\<close> characters of
  the source to the string in the buffer, terminates the result inside the capacity, and does not
  fault; the recorded length is that of the old string plus \<open>len\<close> plus the terminator. The second call
  continues the first.\<close>

theorem cv_strncat_correct:
  assumes "grants_all M" "cv_wf cv" "len \<le> length src \<or> terminated src"
    "len' \<le> length src' \<or> terminated src'"
    "ccapacity cv < 2 ^ 57" "len < 2 ^ 57" "len' < 2 ^ 57"
  shows "\<exists>cv1 cv2. cv_strncat M cv src len = Some cv1 \<and> cv_strncat M cv1 src' len' = Some cv2 \<and>
    cv_wf cv1 \<and> cv_wf cv2 \<and> clength cv1 = length (cv_str cv) + len + 1 \<and>
    cv_str cv2 = cv_str cv @ cstr (take len src) @ cstr (take len' src') \<and>
    length (cv_str cv2) < ccapacity cv2"
proof -
  obtain cv1 where cv1: "cv_strncat M cv src len = Some cv1" "cv_closed cv1"
    "cv_str cv1 = cv_str cv @ cstr (take len src)" "clength cv1 = length (cv_str cv) + len + 1"
    "ccapacity cv1 \<le> max (ccapacity cv) (2 * (length (cv_str cv) + len + 1) + MINALLOC)"
    using cv_strncat_ok[OF assms(1-3)] assms by auto
  moreover have "ccapacity cv1 < 2 ^ 60"
    using cv1(5) assms length_cv_str[OF assms(2)] by (simp add: MINALLOC_def max_def split: if_splits)
  ultimately obtain cv2 where "cv_strncat M cv1 src' len' = Some cv2" "cv_closed cv2"
    "cv_str cv2 = cv_str cv1 @ cstr (take len' src')"
    using cv_strncat_ok[OF assms(1) _ assms(4), of cv1] assms by (auto simp: cv_closed_def)
  with cv1 show ?thesis by (auto simp: cv_closed_def)
qed

definition cv8 :: cv_t where
  "cv8 = \<lparr>cdata = Some [72, 105, 0, 0, 0, 0, 0, 0], clength = 3, ccapacity = 8\<rparr>"

theorem cv_strncat_correct_witness:
  "\<exists>cv1 cv2. cv_strncat byte_mgr cv8 [32, 0] 2 = Some cv1 \<and>
    cv_strncat byte_mgr cv1 [65, 66, 67, 68, 69, 70] 6 = Some cv2 \<and>
    cv_wf cv1 \<and> cv_wf cv2 \<and> clength cv1 = length (cv_str cv8) + 2 + 1 \<and>
    cv_str cv2 = cv_str cv8 @ cstr (take 2 [32, 0]) @ cstr (take 6 [65, 66, 67, 68, 69, 70]) \<and>
    length (cv_str cv2) < ccapacity cv2"
  by (rule cv_strncat_correct) (simp_all add: byte_mgr_grants cv_wf_def cv8_def MINALLOC_def)

text \<open>\<open>cv_sprintf\<close> leaves exactly the formatted text and its terminator in the buffer, whether it
  fits the capacity or the buffer is reallocated and the text formatted again.\<close>

theorem cv_sprintf_correct:
  assumes "grants_all M" "cv_wf cv" "length out < 2 ^ 60" "0 \<notin> set out"
    "MINALLOC \<le> ccapacity cv" "ccapacity cv < 2 ^ 60"
  shows "\<exists>cv'. cv_sprintf M cv out = Some cv' \<and> cv_wf cv' \<and> cv_bytes cv' = out @ [0] \<and>
    cv_str cv' = out"
  using cv_sprintf_ok[OF assms] by (auto simp: cv_closed_def)

theorem cv_sprintf_correct_witness:
  "\<exists>cv'. cv_sprintf byte_mgr cv8 [65, 66, 67, 68, 69, 70, 71, 72, 73] = Some cv' \<and> cv_wf cv' \<and>
    cv_bytes cv' = [65, 66, 67, 68, 69, 70, 71, 72, 73] @ [0] \<and>
    cv_str cv' = [65, 66, 67, 68, 69, 70, 71, 72, 73]"
  by (rule cv_sprintf_correct) (simp_all add: byte_mgr_grants cv_wf_def cv8_def MINALLOC_def)

text \<open>the operations that replace the block keep the buffer well-formed and its bytes:
  \<open>cv_copy\<close> (which copies the capacity, at least \<open>MINALLOC\<close>, and never reads past the source),
  \<open>cv_strncpy\<close>, \<open>cv_clear\<close>, and \<open>cv_resize\<close> to a capacity not below the length.\<close>

theorem cv_block_operations_keep_wf:
  assumes "grants_all M" "cv_wf cv" "clength cv \<le> n" "n < 2 ^ 62" "len \<le> length src" "len < 2 ^ 62"
  shows "(\<exists>c. cv_copy M dest cv = Some c \<and> cv_wf c \<and> cv_bytes c = cv_bytes cv) \<and>
    (\<exists>c. cv_strncpy M dest src len = Some c \<and> cv_wf c \<and> cv_bytes c = take len src) \<and>
    (\<exists>c. cv_clear cv = Some c \<and> cv_wf c \<and> cv_bytes c = []) \<and>
    (\<exists>c. cv_resize M cv n = (0, c) \<and> cv_wf c \<and> cv_bytes c = cv_bytes cv \<and> ccapacity c = n)"
  using cv_copy_ok[OF assms(1,2), of dest] cv_strncpy_ok[OF assms(1,5,6), of dest]
    cv_clear_ok[OF assms(2)] cv_resize_ok[OF assms(1-4)] by blast

theorem cv_block_operations_keep_wf_witness:
  "(\<exists>c. cv_copy byte_mgr cv8 cv8 = Some c \<and> cv_wf c \<and> cv_bytes c = cv_bytes cv8) \<and>
    (\<exists>c. cv_strncpy byte_mgr cv8 [65, 66, 67] 2 = Some c \<and> cv_wf c \<and> cv_bytes c = take 2 [65, 66, 67]) \<and>
    (\<exists>c. cv_clear cv8 = Some c \<and> cv_wf c \<and> cv_bytes c = []) \<and>
    (\<exists>c. cv_resize byte_mgr cv8 4 = (0, c) \<and> cv_wf c \<and> cv_bytes c = cv_bytes cv8 \<and> ccapacity c = 4)"
  by (rule cv_block_operations_keep_wf) (simp_all add: byte_mgr_grants cv_wf_def cv8_def MINALLOC_def)

text \<open>\<open>cv_resize\<close> below the length keeps the length, and the growth rule of \<open>cv_append\<close> looks at the
  capacity only: appending then writes past the end of the block.\<close>

theorem cv_append_overflows_after_shrink:
  assumes "grants_all M" "cv_wf cv" "n < clength cv" "len \<le> length src" "0 < len"
    "max (max (2 * n) (n + len)) MINALLOC < clength cv + len" "clength cv + len < 2 ^ 62"
  shows "cv_append M (snd (cv_resize M cv n)) src len = None"
proof -
  from cv_wfE[OF assms(2)] obtain d where d: "cdata cv = Some d" "clength cv \<le> ccapacity cv" by blast
  have sm: "sz (clength cv + len) = clength cv + len" "sz (2 * n) = 2 * n" "sz (n + len) = n + len"
    using assms by (simp_all add: sz_small)
  define cap where "cap = max (max (2 * n) (n + len)) MINALLOC"
  obtain d0 where d0: "cv_realloc M (Some d) (max MINALLOC n) = Some d0"
    using assms(1) by (simp add: cv_realloc_def mem_simps)
  obtain d' where re: "cv_realloc M (Some d0) cap = Some d'"
    using assms(1) by (simp add: cv_realloc_def mem_simps)
  have "length d' = cap" using re length_realloc_cells by (force simp: cv_realloc_def)
  moreover have "cap < clength cv + len"
    using assms(6) by (simp add: cap_def)
  ultimately have "copy_cells d' (clength cv) (take len src) = None"
    using assms(4) by (simp add: copy_cells_def)
  then show ?thesis
    using assms(3-5) d sm d0 re
    by (simp add: cv_resize_def cv_append_def Let_def mem_simps cap_def)
qed

theorem cv_append_overflows_after_shrink_witness:
  "cv_append byte_mgr (snd (cv_resize byte_mgr
     \<lparr>cdata = Some (replicate 32 7), clength = 20, ccapacity = 32\<rparr> 4)) [1, 2, 3] 3 = None"
  by (rule cv_append_overflows_after_shrink)
     (simp_all add: byte_mgr_grants cv_wf_def MINALLOC_def)

end
