(* ===== verification/Talloc.thy ===== *)
theory Talloc
  imports Mud_Prelude
begin

text \<open>
  talloc.c: the allocation wrappers with their counters. The system allocator is outside the
  repository: what it answers is an argument of each operation (the address, or None for null). The
  counters are \<open>size_t\<close> and wrap; \<open>toutstanding_allocs\<close> reads them as \<open>int\<close>.
\<close>

record talloc_state =
  g_allocs :: nat
  g_frees :: nat
  g_reallocs :: nat

definition trealloc :: "nat option \<Rightarrow> talloc_state \<Rightarrow> nat option \<times> talloc_state" where
  "trealloc newv s = (newv, s\<lparr>g_reallocs := sz (g_reallocs s + 1)\<rparr>)"

definition talloc :: "nat option \<Rightarrow> talloc_state \<Rightarrow> nat option \<times> talloc_state" where
  "talloc returnval s = (returnval, s\<lparr>g_allocs := sz (g_allocs s + 1)\<rparr>)"

definition tfree2 :: "talloc_state \<Rightarrow> talloc_state" where
  "tfree2 s = s\<lparr>g_frees := sz (g_frees s + 1)\<rparr>"

definition tfree :: "talloc_state \<Rightarrow> talloc_state" where
  "tfree s = s\<lparr>g_frees := sz (g_frees s + 1)\<rparr>"

definition tswap_memory :: "'p \<Rightarrow> 'p \<Rightarrow> 'p \<times> 'p" where
  "tswap_memory a b = (let t = b; b = a; a = t in (a, b))"

definition toutstanding_allocs :: "talloc_state \<Rightarrow> int" where
  "toutstanding_allocs s = to_int32 (g_allocs s) - to_int32 (g_frees s)"

definition tget_frees :: "talloc_state \<Rightarrow> nat" where
  "tget_frees s = g_frees s"

definition tget_allocs :: "talloc_state \<Rightarrow> nat" where
  "tget_allocs s = g_allocs s"

definition tget_reallocs :: "talloc_state \<Rightarrow> nat" where
  "tget_reallocs s = g_reallocs s"

definition talloc_start :: talloc_state where
  "talloc_start = \<lparr>g_allocs = 0, g_frees = 0, g_reallocs = 0\<rparr>"

section \<open>Runs against a heap\<close>

text \<open>The calls the program makes, with the answers of the system, and the blocks alive after each.\<close>

datatype mem_call =
    Call_talloc "nat option"
  | Call_trealloc "nat option" "nat option"
  | Call_tfree "nat option"

fun call_state :: "mem_call \<Rightarrow> talloc_state \<Rightarrow> talloc_state" where
  "call_state (Call_talloc r) s = snd (talloc r s)"
| "call_state (Call_trealloc p r) s = snd (trealloc r s)"
| "call_state (Call_tfree p) s = tfree s"

definition opt_set :: "nat option \<Rightarrow> nat set" where
  "opt_set p = (case p of None \<Rightarrow> {} | Some a \<Rightarrow> {a})"

fun call_live :: "mem_call \<Rightarrow> nat set \<Rightarrow> nat set" where
  "call_live (Call_talloc r) L = L \<union> opt_set r"
| "call_live (Call_trealloc p r) L = (if r = None then L else L - opt_set p \<union> opt_set r)"
| "call_live (Call_tfree p) L = L - opt_set p"

text \<open>The contract of the C allocator: a fresh block is not alive, and only blocks alive (or null) are
  passed back.\<close>

fun call_legal :: "mem_call \<Rightarrow> nat set \<Rightarrow> bool" where
  "call_legal (Call_talloc r) L \<longleftrightarrow> opt_set r \<inter> L = {}"
| "call_legal (Call_trealloc p r) L \<longleftrightarrow> opt_set p \<subseteq> L \<and> opt_set r \<inter> (L - opt_set p) = {}"
| "call_legal (Call_tfree p) L \<longleftrightarrow> opt_set p \<subseteq> L"

fun calls_legal :: "mem_call list \<Rightarrow> nat set \<Rightarrow> bool" where
  "calls_legal [] L \<longleftrightarrow> True"
| "calls_legal (c # cs) L \<longleftrightarrow> call_legal c L \<and> calls_legal cs (call_live c L)"

text \<open>What one call adds to the difference between the counters' reading and the blocks alive.\<close>

fun drift :: "mem_call \<Rightarrow> int" where
  "drift (Call_talloc r) = (if r = None then 1 else 0)"
| "drift (Call_trealloc p r) = (if p = None \<and> r \<noteq> None then -1 else 0)"
| "drift (Call_tfree p) = (if p = None then -1 else 0)"

fun is_free :: "mem_call \<Rightarrow> bool" where
  "is_free (Call_tfree p) \<longleftrightarrow> True"
| "is_free _ \<longleftrightarrow> False"

fun is_alloc :: "mem_call \<Rightarrow> bool" where
  "is_alloc (Call_talloc r) \<longleftrightarrow> True"
| "is_alloc _ \<longleftrightarrow> False"

lemma opt_set_simps [simp]: "opt_set None = {}" "opt_set (Some a) = {a}"
  by (simp_all add: opt_set_def)

lemma card_call_live:
  assumes "finite L" "call_legal c L"
  shows "finite (call_live c L) \<and>
   int (card (call_live c L)) + drift c
     = int (card L) + (if is_alloc c then 1 else 0) - (if is_free c then 1 else 0)"
proof -
  have pos: "1 \<le> card L" if "a \<in> L" for a
    using that assms(1) by (metis One_nat_def Suc_leI card_gt_0_iff empty_iff)
  show ?thesis
  proof (cases c)
    case (Call_trealloc p r)
    with assms pos show ?thesis by (cases p; cases r) (auto simp: card_insert_if card_Diff_singleton)
  next
    case (Call_tfree p)
    with assms pos show ?thesis by (cases p) (auto simp: card_Diff_singleton)
  next
    case (Call_talloc r)
    with assms show ?thesis by (cases r) auto
  qed
qed

lemma call_counters:
  "g_allocs s < 2 ^ 63 \<Longrightarrow> g_frees s < 2 ^ 63 \<Longrightarrow>
   g_allocs (call_state c s) = g_allocs s + (if is_alloc c then 1 else 0) \<and>
   g_frees (call_state c s) = g_frees s + (if is_free c then 1 else 0)"
  by (cases c) (simp_all add: trealloc_def talloc_def tfree_def size_simps)

lemma counters:
  assumes "g_allocs s + length cs < B" "g_frees s + length cs < B" "B \<le> 2 ^ 63"
  shows "g_allocs (fold call_state cs s) = g_allocs s + length (filter is_alloc cs) \<and>
   g_frees (fold call_state cs s) = g_frees s + length (filter is_free cs)"
  using assms(1,2)
proof (induction cs arbitrary: s)
  case (Cons c cs)
  have "g_allocs s < 2 ^ 63" "g_frees s < 2 ^ 63" using Cons.prems assms(3) by simp_all
  note st = call_counters[OF this, of c]
  have "g_allocs (call_state c s) + length cs < B" "g_frees (call_state c s) + length cs < B"
    using Cons.prems st by (simp_all split: if_splits)
  from Cons.IH[OF this] st show ?case by simp
qed simp

lemma card_live:
  "finite L \<Longrightarrow> calls_legal cs L \<Longrightarrow>
   int (card (fold call_live cs L)) + (\<Sum>c\<leftarrow>cs. drift c)
     = int (card L) + int (length (filter is_alloc cs)) - int (length (filter is_free cs))"
proof (induction cs arbitrary: L)
  case (Cons c cs)
  then have c: "call_legal c L" "calls_legal cs (call_live c L)" by simp_all
  note one = card_call_live[OF Cons.prems(1) c(1)]
  have "int (card (fold call_live cs (call_live c L))) + (\<Sum>c\<leftarrow>cs. drift c)
     = int (card (call_live c L)) + int (length (filter is_alloc cs)) - int (length (filter is_free cs))"
    using Cons.IH c(2) one by blast
  then show ?case using one by (simp split: if_splits)
qed simp

section \<open>Properties\<close>

text \<open>C26: the exact meaning of the leak counter printed at shutdown: after any legal sequence of calls,
  the outstanding count is the number of blocks alive, plus one for every allocation that failed, minus
  one for every release of a null pointer and every reallocation that started from a null pointer.
  It is the number of leaked blocks exactly when none of these happened.\<close>

theorem toutstanding_allocs_exact:
  assumes "calls_legal cs {}" "length cs < 2 ^ 31"
  shows "toutstanding_allocs (fold call_state cs talloc_start)
    = int (card (fold call_live cs {})) + (\<Sum>c\<leftarrow>cs. drift c)"
proof -
  have "length (filter is_alloc cs) \<le> length cs" "length (filter is_free cs) \<le> length cs"
    by (rule length_filter_le)+
  then have "to_int32 (length (filter is_alloc cs)) = int (length (filter is_alloc cs))"
    "to_int32 (length (filter is_free cs)) = int (length (filter is_free cs))"
    using assms(2) by (intro to_int32_small order_le_less_trans[OF _ assms(2)]; simp)+
  then show ?thesis
    using counters[of talloc_start cs "2 ^ 31"] card_live[of "{}" cs] assms
    by (simp add: toutstanding_allocs_def talloc_start_def size_simps)
qed

theorem toutstanding_allocs_exact_witness:
  "toutstanding_allocs (fold call_state
     [Call_talloc (Some 1), Call_trealloc (Some 1) (Some 2), Call_talloc (Some 1), Call_tfree (Some 2)] talloc_start)
   = int (card (fold call_live
       [Call_talloc (Some 1), Call_trealloc (Some 1) (Some 2), Call_talloc (Some 1), Call_tfree (Some 2)] {}))
     + (\<Sum>c\<leftarrow>[Call_talloc (Some 1), Call_trealloc (Some 1) (Some 2), Call_talloc (Some 1), Call_tfree (Some 2)].
          drift c)"
  by (rule toutstanding_allocs_exact) simp_all

end
