(* ===== verification/PoolAlloc.thy ===== *)
theory PoolAlloc
  imports Mud_Prelude
begin

text \<open>
  poolalloc.c: pools of preallocated elements of one size, with the free list threaded through the free
  elements, and the memory pool that keeps one such pool per block size. An element is named by its
  block and its index in the block; \<open>links\<close> is the first word of every element, the pointer to the next
  free element while the element is free and whatever its user stored there while it is in use.
  Mutexes: every operation runs under its pool's mutex, so it is one atomic step. \<open>None\<close> is undefined
  behaviour (a null pointer, a signed overflow, a write past a block).
\<close>

section \<open>The interface of an allocator\<close>

text \<open>
  \<open>wf a used\<close> says that the elements \<open>used\<close> are handed out; \<open>room used\<close> bounds their number.
\<close>

locale block_allocator =
  fixes wf :: "'a \<Rightarrow> 'p set \<Rightarrow> bool"
    and room :: "'p set \<Rightarrow> bool"
    and alloc :: "'a \<Rightarrow> ('p \<times> 'a) option"
    and release :: "'p \<Rightarrow> 'a \<Rightarrow> 'a option"
  assumes finite_used: "wf a used \<Longrightarrow> finite used"
    and alloc_ok: "wf a used \<Longrightarrow> room used \<Longrightarrow>
      \<exists>p a'. alloc a = Some (p, a') \<and> p \<notin> used \<and> wf a' (insert p used)"
    and release_ok: "wf a used \<Longrightarrow> p \<in> used \<Longrightarrow> \<exists>a'. release p a = Some a' \<and> wf a' (used - {p})"
    and room_less: "room used \<Longrightarrow> finite used \<Longrightarrow> card used' \<le> card used \<Longrightarrow> room used'"

fun alloc_many :: "('a \<Rightarrow> ('p \<times> 'a) option) \<Rightarrow> nat \<Rightarrow> 'a \<Rightarrow> ('p list \<times> 'a) option" where
  "alloc_many alloc 0 a = Some ([], a)"
| "alloc_many alloc (Suc n) a = do {
     (p, a) \<leftarrow> alloc a;
     (ps, a) \<leftarrow> alloc_many alloc n a;
     Some (p # ps, a)
   }"

fun release_many :: "('p \<Rightarrow> 'a \<Rightarrow> 'a option) \<Rightarrow> 'p list \<Rightarrow> 'a \<Rightarrow> 'a option" where
  "release_many release [] a = Some a"
| "release_many release (p # ps) a = do { a \<leftarrow> release p a; release_many release ps a }"

context block_allocator
begin

lemma alloc_many_ok:
  "wf a used \<Longrightarrow> (\<And>U. finite U \<Longrightarrow> card U < card used + n \<Longrightarrow> room U) \<Longrightarrow>
   \<exists>ps a'. alloc_many alloc n a = Some (ps, a') \<and> length ps = n \<and> distinct ps \<and>
     set ps \<inter> used = {} \<and> wf a' (set ps \<union> used)"
proof (induction n arbitrary: a used)
  case (Suc n)
  have fin: "finite used" using finite_used Suc.prems(1) by blast
  obtain p a1 where p: "alloc a = Some (p, a1)" "p \<notin> used" "wf a1 (insert p used)"
    using alloc_ok[of a used] Suc.prems(1) Suc.prems(2)[of used] fin by auto
  obtain ps a2 where ps: "alloc_many alloc n a1 = Some (ps, a2)" "length ps = n" "distinct ps"
    "set ps \<inter> insert p used = {}" "wf a2 (set ps \<union> insert p used)"
    using Suc.IH[of a1 "insert p used"] p Suc.prems(2) fin by auto
  then have "wf a2 (set (p # ps) \<union> used)" by simp
  with p ps show ?case by (intro exI[of _ "p # ps"] exI[of _ a2]) auto
qed auto

lemma release_many_ok:
  "wf a used \<Longrightarrow> distinct ps \<Longrightarrow> set ps \<subseteq> used \<Longrightarrow>
   \<exists>a'. release_many release ps a = Some a' \<and> wf a' (used - set ps)"
proof (induction ps arbitrary: a used)
  case (Cons p ps)
  obtain a1 where a1: "release p a = Some a1" "wf a1 (used - {p})"
    using release_ok[of a used p] Cons.prems by auto
  have "used - {p} - set ps = used - set (p # ps)" by auto
  with a1 Cons.IH[of a1 "used - {p}"] Cons.prems show ?case by auto
qed simp

end

section \<open>One pool\<close>

type_synonym node = "nat \<times> nat"

record alloc_pool =
  pool_blocks :: "nat list"
  element_size :: int
  element_count :: int
  headnode :: "node option"
  block_count :: nat
  links :: "node \<Rightarrow> node option"

definition sizeof_pointer :: int where
  "sizeof_pointer = 8"

text \<open>
  Threading the list through block \<open>b\<close>: \<open>k\<close> rounds of the loop are left and \<open>pFreeNode\<close> is element \<open>i\<close>.
\<close>

fun link_loop :: "nat \<Rightarrow> nat \<Rightarrow> nat \<Rightarrow> (node \<Rightarrow> node option) \<Rightarrow> node \<Rightarrow> node option" where
  "link_loop b i 0 l = l((b, i) := None)"
| "link_loop b i (Suc k) l = link_loop b (Suc i) k (l((b, i) := Some (b, Suc i)))"

text \<open>
  \<open>PoolMemBlock_Init\<close>: the size in bytes is a product of \<open>ssize_t\<close> values. An element too small for a
  pointer makes the last link run past the block, and an empty block has no first link.
\<close>

definition PoolMemBlock_Init ::
    "(nat \<Rightarrow> bool) \<Rightarrow> (node \<Rightarrow> node option) \<Rightarrow> nat \<Rightarrow> int \<Rightarrow> int \<Rightarrow> (node \<Rightarrow> node option) option" where
  "PoolMemBlock_Init granted l b elcount elsize =
     (if elcount * elsize < 2 ^ 63 \<and> 1 \<le> elcount \<and> sizeof_pointer \<le> elsize
         \<and> granted (sz_of_int (elcount * elsize))
      then Some (link_loop b 0 (nat elcount - 1)
                   (\<lambda>p. if fst p = b \<and> snd p < nat elcount then None else l p))
      else None)"

definition AllocPool_Init :: "(nat \<Rightarrow> bool) \<Rightarrow> int \<Rightarrow> int \<Rightarrow> alloc_pool option" where
  "AllocPool_Init granted elcount elsize =
     (if granted 8 then do {
        l \<leftarrow> PoolMemBlock_Init granted (\<lambda>_. None) 0 elcount elsize;
        Some \<lparr>pool_blocks = [nat elcount], element_size = elsize, element_count = elcount,
              headnode = Some (0, 0), block_count = 1, links = l\<rparr>
      } else None)"

definition AllocPool_AddBlock :: "(nat \<Rightarrow> bool) \<Rightarrow> alloc_pool \<Rightarrow> alloc_pool option" where
  "AllocPool_AddBlock granted ap =
     (if headnode ap = None then
        if granted (sz ((block_count ap + 1) * 8)) then do {
          l \<leftarrow> PoolMemBlock_Init granted (links ap) (block_count ap) (element_count ap * 2) (element_size ap);
          Some (ap\<lparr>pool_blocks := pool_blocks ap @ [nat (element_count ap * 2)],
                   element_count := element_count ap + element_count ap * 2,
                   block_count := block_count ap + 1,
                   headnode := Some (block_count ap, 0),
                   links := l\<rparr>)
        } else None
      else Some ap)"

definition AllocPool_Alloc :: "(nat \<Rightarrow> bool) \<Rightarrow> alloc_pool \<Rightarrow> (node \<times> alloc_pool) option" where
  "AllocPool_Alloc granted ap = do {
     returnval \<leftarrow> headnode ap;
     let ap1 = ap\<lparr>headnode := links ap returnval\<rparr>;
     ap2 \<leftarrow> (if headnode ap1 = None then AllocPool_AddBlock granted ap1 else Some ap1);
     Some (returnval, ap2)
   }"

definition node_valid :: "alloc_pool \<Rightarrow> node \<Rightarrow> bool" where
  "node_valid ap p \<longleftrightarrow> fst p < length (pool_blocks ap) \<and> snd p < pool_blocks ap ! fst p"

definition AllocPool_Free :: "node \<Rightarrow> alloc_pool \<Rightarrow> alloc_pool option" where
  "AllocPool_Free pFreeMe ap =
     (if node_valid ap pFreeMe
      then Some (ap\<lparr>links := (links ap)(pFreeMe := headnode ap), headnode := Some pFreeMe\<rparr>)
      else None)"

text \<open>The blocks \<open>AllocPool_Destroy\<close> returns to the system.\<close>

definition AllocPool_Destroy :: "alloc_pool \<Rightarrow> nat list" where
  "AllocPool_Destroy ap = [0..<block_count ap]"

text \<open>What a user of an element does: overwrite its memory.\<close>

definition element_write :: "node \<Rightarrow> node option \<Rightarrow> alloc_pool \<Rightarrow> alloc_pool" where
  "element_write p v ap = ap\<lparr>links := (links ap)(p := v)\<rparr>"

subsection \<open>The free list\<close>

fun chain :: "(node \<Rightarrow> node option) \<Rightarrow> node option \<Rightarrow> node list \<Rightarrow> bool" where
  "chain l h [] \<longleftrightarrow> h = None"
| "chain l h (x # xs) \<longleftrightarrow> h = Some x \<and> chain l (l x) xs"

definition pool_nodes :: "alloc_pool \<Rightarrow> node set" where
  "pool_nodes ap = {p. node_valid ap p}"

definition pool_wf :: "alloc_pool \<Rightarrow> node set \<Rightarrow> bool" where
  "pool_wf ap used \<longleftrightarrow>
     (\<exists>xs. chain (links ap) (headnode ap) xs \<and> distinct xs \<and> xs \<noteq> [] \<and>
        set xs \<inter> used = {} \<and> set xs \<union> used = pool_nodes ap) \<and>
     block_count ap = length (pool_blocks ap) \<and> 1 \<le> block_count ap \<and>
     element_count ap = int (sum_list (pool_blocks ap)) \<and> 1 \<le> element_count ap \<and>
     sizeof_pointer \<le> element_size ap"

lemma chain_cong: "(\<And>x. x \<in> set xs \<Longrightarrow> l x = l' x) \<Longrightarrow> chain l h xs = chain l' h xs"
  by (induction xs arbitrary: h) auto

lemma chain_upd [simp]: "y \<notin> set xs \<Longrightarrow> chain (l(y := v)) h xs = chain l h xs"
  by (rule chain_cong) auto

lemma link_loop_other: "fst p \<noteq> b \<Longrightarrow> link_loop b i k l p = l p"
  by (induction k arbitrary: i l) auto

lemma link_loop_before: "j < i \<Longrightarrow> link_loop b i k l (b, j) = l (b, j)"
  by (induction k arbitrary: i l) auto

lemma link_loop_chain: "chain (link_loop b i k l) (Some (b, i)) (map (Pair b) [i..<i + Suc k])"
proof (induction k arbitrary: i l)
  case (Suc k)
  define l' where "l' = l((b, i) := Some (b, Suc i))"
  have loop: "link_loop b i (Suc k) l = link_loop b (Suc i) k l'" by (simp add: l'_def)
  have "link_loop b (Suc i) k l' (b, i) = Some (b, Suc i)"
    by (simp add: link_loop_before l'_def)
  then show ?case
    using Suc[of "Suc i" l'] unfolding loop by (simp add: upt_conv_Cons del: upt_Suc)
qed simp

lemma finite_pool_nodes: "finite (pool_nodes ap)"
proof -
  have "pool_nodes ap \<subseteq> (\<Union>b < length (pool_blocks ap). Pair b ` {..<pool_blocks ap ! b})"
    by (auto simp: pool_nodes_def node_valid_def)
  then show ?thesis by (rule finite_subset) simp
qed

lemma card_pool_nodes: "card (pool_nodes ap) = sum_list (pool_blocks ap)"
proof -
  have "pool_nodes ap = (SIGMA b : {..<length (pool_blocks ap)}. {..<pool_blocks ap ! b})"
    by (auto simp: pool_nodes_def node_valid_def)
  then show ?thesis
    by (simp add: sum_list_sum_nth lessThan_atLeast0)
qed

lemma pool_wf_finite: "pool_wf ap used \<Longrightarrow> finite used"
  using finite_pool_nodes[of ap] by (auto simp: pool_wf_def intro: finite_subset)

text \<open>A new block adds its elements, all of them on the free list.\<close>

lemma PoolMemBlock_Init_ok:
  assumes "PoolMemBlock_Init granted l b n esz = Some l'"
  shows "chain l' (Some (b, 0)) (map (Pair b) [0..<nat n])" and "fst p \<noteq> b \<Longrightarrow> l' p = l p"
    and "1 \<le> n" and "sizeof_pointer \<le> esz"
proof -
  have n: "1 \<le> n" "sizeof_pointer \<le> esz" using assms by (auto simp: PoolMemBlock_Init_def split: if_splits)
  then show "1 \<le> n" "sizeof_pointer \<le> esz" by auto
  have "0 + Suc (nat n - 1) = nat n" using n by simp
  then show "chain l' (Some (b, 0)) (map (Pair b) [0..<nat n])"
    using assms link_loop_chain[of b 0 "nat n - 1"]
    by (auto simp: PoolMemBlock_Init_def simp del: upt_Suc split: if_splits)
  show "fst p \<noteq> b \<Longrightarrow> l' p = l p"
    using assms by (auto simp: PoolMemBlock_Init_def link_loop_other split: if_splits)
qed

lemma nodes_of_block:
  "pool_blocks ap' = pool_blocks ap @ [n] \<Longrightarrow>
   pool_nodes ap' = pool_nodes ap \<union> set (map (Pair (length (pool_blocks ap))) [0..<n])"
  by (auto simp: pool_nodes_def node_valid_def nth_append less_Suc_eq)

lemma AllocPool_Init_ok:
  assumes "AllocPool_Init granted n esz = Some ap"
  shows "pool_wf ap {} \<and> element_count ap = n \<and> element_size ap = esz \<and> card (pool_nodes ap) = nat n"
proof -
  from assms obtain l where l: "PoolMemBlock_Init granted (\<lambda>_. None) 0 n esz = Some l"
    "ap = \<lparr>pool_blocks = [nat n], element_size = esz, element_count = n,
              headnode = Some (0, 0), block_count = 1, links = l\<rparr>"
    by (auto simp: AllocPool_Init_def split: if_splits bind_splits)
  note b = PoolMemBlock_Init_ok[OF l(1)]
  have "pool_nodes ap = set (map (Pair 0) [0..<nat n])"
    by (auto simp: pool_nodes_def node_valid_def l(2))
  then show ?thesis
    using b card_pool_nodes[of ap] by (auto simp: pool_wf_def l(2) distinct_map inj_on_def
        intro!: exI[of _ "map (Pair 0) [0..<nat n]"])
qed

lemma AllocPool_Free_ok:
  assumes wf: "pool_wf ap used" and p: "p \<in> used"
  shows "\<exists>ap'. AllocPool_Free p ap = Some ap' \<and> pool_wf ap' (used - {p}) \<and>
    pool_nodes ap' = pool_nodes ap \<and> element_size ap' = element_size ap"
proof -
  from wf obtain xs where xs: "chain (links ap) (headnode ap) xs" "distinct xs" "xs \<noteq> []"
    "set xs \<inter> used = {}" "set xs \<union> used = pool_nodes ap" by (auto simp: pool_wf_def)
  define ap' where "ap' = ap\<lparr>links := (links ap)(p := headnode ap), headnode := Some p\<rparr>"
  have nodes: "pool_nodes ap' = pool_nodes ap" by (simp add: ap'_def pool_nodes_def node_valid_def)
  have "p \<notin> set xs" using p xs(4) by auto
  then have "chain (links ap') (headnode ap') (p # xs)"
    using xs(1) by (simp add: ap'_def)
  moreover have "node_valid ap p" using p xs(5) by (auto simp: pool_nodes_def)
  moreover have "set (p # xs) \<union> (used - {p}) = pool_nodes ap'" using xs(5) p nodes by auto
  ultimately show ?thesis
    using wf xs(2,4) \<open>p \<notin> set xs\<close> nodes
    by (auto simp: AllocPool_Free_def pool_wf_def ap'_def intro!: exI[of _ "p # xs"])
qed

lemma element_write_ok:
  assumes wf: "pool_wf ap used" and p: "p \<in> used"
  shows "pool_wf (element_write p v ap) used"
proof -
  from wf obtain xs where xs: "chain (links ap) (headnode ap) xs" "distinct xs" "xs \<noteq> []"
    "set xs \<inter> used = {}" "set xs \<union> used = pool_nodes ap" by (auto simp: pool_wf_def)
  then have "p \<notin> set xs" using p by auto
  then have "chain ((links ap)(p := v)) (headnode ap) xs" using xs(1) by simp
  moreover have "pool_nodes (element_write p v ap) = pool_nodes ap"
    by (simp add: element_write_def pool_nodes_def node_valid_def)
  ultimately show ?thesis using wf xs by (auto simp: pool_wf_def element_write_def)
qed

lemma AllocPool_AddBlock_ok:
  assumes add: "AllocPool_AddBlock granted ap = Some ap'" and head: "headnode ap = None"
    and full: "used = pool_nodes ap" and n: "1 \<le> element_count ap"
    and bc: "block_count ap = length (pool_blocks ap)" "element_count ap = int (sum_list (pool_blocks ap))"
    and es: "sizeof_pointer \<le> element_size ap"
  shows "pool_wf ap' used \<and> element_size ap' = element_size ap"
proof -
  let ?b = "block_count ap" and ?n = "element_count ap * 2"
  obtain l where l: "PoolMemBlock_Init granted (links ap) ?b ?n (element_size ap) = Some l"
    and ap': "ap' = ap\<lparr>pool_blocks := pool_blocks ap @ [nat ?n], element_count := element_count ap + ?n,
      block_count := ?b + 1, headnode := Some (?b, 0), links := l\<rparr>"
    using add head by (auto simp: AllocPool_AddBlock_def split: if_splits bind_splits)
  note b = PoolMemBlock_Init_ok[OF l]
  have "pool_nodes ap' = pool_nodes ap \<union> set (map (Pair ?b) [0..<nat ?n])"
    using nodes_of_block[of ap' ap "nat ?n"] bc(1) by (simp add: ap')
  moreover have "set (map (Pair ?b) [0..<nat ?n]) \<inter> pool_nodes ap = {}"
    using bc(1) by (auto simp: pool_nodes_def node_valid_def)
  moreover have "distinct (map (Pair ?b) [0..<nat ?n])" by (simp add: distinct_map inj_on_def)
  moreover have "map (Pair ?b) [0..<nat ?n] \<noteq> []" using n by simp
  ultimately have "pool_wf ap' used"
    unfolding pool_wf_def full using b(1) n bc es
    by (intro conjI exI[of _ "map (Pair ?b) [0..<nat ?n]"]) (auto simp: ap')
  then show ?thesis by (simp add: ap')
qed

text \<open>Whatever the system grants: when an element is handed out, it was free.\<close>

lemma AllocPool_Alloc_keeps:
  assumes wf: "pool_wf ap used" and alloc: "AllocPool_Alloc granted ap = Some (p, ap')"
  shows "p \<notin> used \<and> p \<in> pool_nodes ap \<and> pool_wf ap' (insert p used) \<and> element_size ap' = element_size ap"
proof -
  from wf obtain x xs where xs: "chain (links ap) (headnode ap) (x # xs)" "distinct (x # xs)"
    "set (x # xs) \<inter> used = {}" "set (x # xs) \<union> used = pool_nodes ap"
    by (auto simp: pool_wf_def neq_Nil_conv)
  define ap1 where "ap1 = ap\<lparr>headnode := links ap x\<rparr>"
  have nodes1: "pool_nodes ap1 = pool_nodes ap" by (simp add: ap1_def pool_nodes_def node_valid_def)
  have res: "p = x" "(if headnode ap1 = None then AllocPool_AddBlock granted ap1 else Some ap1) = Some ap'"
    using alloc xs(1) by (auto simp: AllocPool_Alloc_def ap1_def Let_def split: bind_splits)
  have new: "x \<notin> used" "x \<in> pool_nodes ap" using xs(3,4) by auto
  have "pool_wf ap' (insert x used) \<and> element_size ap' = element_size ap"
  proof (cases "xs = []")
    case False
    then have "headnode ap1 \<noteq> None" using xs(1) by (cases xs) (auto simp: ap1_def)
    then have "ap' = ap1" using res(2) by (auto split: if_splits)
    moreover have "pool_wf ap1 (insert x used)"
      unfolding pool_wf_def nodes1
      using wf xs False by (intro conjI exI[of _ xs]) (auto simp: pool_wf_def ap1_def)
    ultimately show ?thesis by (simp add: ap1_def)
  next
    case True
    then have "insert x used = pool_nodes ap1" using xs(4) nodes1 by auto
    then show ?thesis
      using AllocPool_AddBlock_ok[of granted ap1 ap' "insert x used"] res(2) wf xs(1) True
      by (auto simp: ap1_def pool_wf_def)
  qed
  with res(1) new show ?thesis by simp
qed

text \<open>The pool only grows when every element is in use.\<close>

lemma AllocPool_Alloc_some:
  assumes wf: "pool_wf ap used" and granted: "\<forall>n. granted n"
    and room: "(int (card used) + 1) * 2 * element_size ap < 2 ^ 63"
  shows "\<exists>p ap'. AllocPool_Alloc granted ap = Some (p, ap')"
proof -
  from wf obtain x xs where xs: "chain (links ap) (headnode ap) (x # xs)"
    "set (x # xs) \<inter> used = {}" "set (x # xs) \<union> used = pool_nodes ap"
    by (auto simp: pool_wf_def neq_Nil_conv)
  show ?thesis
  proof (cases "links ap x")
    case None
    then have "xs = []" using xs(1) by (cases xs) auto
    then have "insert x used = pool_nodes ap" "x \<notin> used" using xs(2,3) by auto
    then have "element_count ap = int (card used) + 1"
      using wf card_pool_nodes[of ap] pool_wf_finite[OF wf]
      by (metis Suc_eq_plus1 card_insert_disjoint of_nat_1 of_nat_add pool_wf_def)
    then show ?thesis
      using None xs(1) granted wf room
      by (auto simp: AllocPool_Alloc_def AllocPool_AddBlock_def PoolMemBlock_Init_def pool_wf_def Let_def)
  qed (use xs(1) in \<open>simp add: AllocPool_Alloc_def\<close>)
qed

lemma AllocPool_Alloc_ok:
  assumes "pool_wf ap used" "\<forall>n. granted n" "(int (card used) + 1) * 2 * element_size ap < 2 ^ 63"
  shows "\<exists>p ap'. AllocPool_Alloc granted ap = Some (p, ap') \<and> p \<notin> used \<and> p \<in> pool_nodes ap \<and>
    pool_wf ap' (insert p used) \<and> element_size ap' = element_size ap"
  using AllocPool_Alloc_some[OF assms] AllocPool_Alloc_keeps[OF assms(1)] by blast

interpretation pool: block_allocator
  "\<lambda>ap used. pool_wf ap used \<and> (\<forall>n. granted n) \<and> element_size ap = esz"
  "\<lambda>used. (int (card used) + 1) * 2 * esz < 2 ^ 63 \<and> sizeof_pointer \<le> esz"
  "AllocPool_Alloc granted" AllocPool_Free for granted esz
proof unfold_locales
  fix ap used assume "pool_wf ap used \<and> (\<forall>n. granted n) \<and> element_size ap = esz"
  then show "finite used" using pool_wf_finite by blast
next
  fix ap used
  assume "pool_wf ap used \<and> (\<forall>n. granted n) \<and> element_size ap = esz"
    "(int (card used) + 1) * 2 * esz < 2 ^ 63 \<and> sizeof_pointer \<le> esz"
  then show "\<exists>p a'. AllocPool_Alloc granted ap = Some (p, a') \<and> p \<notin> used \<and>
    pool_wf a' (insert p used) \<and> (\<forall>n. granted n) \<and> element_size a' = esz"
    using AllocPool_Alloc_ok[of ap used granted] by auto
next
  fix ap used p
  assume "pool_wf ap used \<and> (\<forall>n. granted n) \<and> element_size ap = esz" "p \<in> used"
  then show "\<exists>a'. AllocPool_Free p ap = Some a' \<and> pool_wf a' (used - {p}) \<and> (\<forall>n. granted n) \<and>
    element_size a' = esz"
    using AllocPool_Free_ok[of ap used p] by auto
next
  fix used used' :: "node set"
  assume a: "(int (card used) + 1) * 2 * esz < 2 ^ 63 \<and> sizeof_pointer \<le> esz" "card used' \<le> card used"
  then have "(int (card used') + 1) * 2 * esz \<le> (int (card used) + 1) * 2 * esz"
    by (intro mult_right_mono) (simp_all add: sizeof_pointer_def)
  with a show "(int (card used') + 1) * 2 * esz < 2 ^ 63 \<and> sizeof_pointer \<le> esz" by simp
qed

section \<open>The memory pool\<close>

record memory_pool =
  alloc_pools :: "alloc_pool list"
  alloc_pool_count :: nat
  default_init_elcount :: int
  bIsInitialized :: bool

definition MemoryPool_Init :: "int \<Rightarrow> memory_pool" where
  "MemoryPool_Init init_capacity =
     \<lparr>alloc_pools = [], alloc_pool_count = 0, default_init_elcount = init_capacity, bIsInitialized = True\<rparr>"

text \<open>The search from index \<open>idx\<close> with \<open>n\<close> pools left.\<close>

fun find_pool :: "alloc_pool list \<Rightarrow> int \<Rightarrow> nat \<Rightarrow> nat \<Rightarrow> nat option" where
  "find_pool ps block_size idx 0 = None"
| "find_pool ps block_size idx (Suc n) =
     (if block_size = element_size (ps ! idx) then Some idx else find_pool ps block_size (Suc idx) n)"

definition MemoryPool_FindAllocPool :: "memory_pool \<Rightarrow> int \<Rightarrow> nat option" where
  "MemoryPool_FindAllocPool mp block_size = find_pool (alloc_pools mp) block_size 0 (alloc_pool_count mp)"

definition MemoryPool_AddBlockSizePool ::
    "(nat \<Rightarrow> bool) \<Rightarrow> memory_pool \<Rightarrow> int \<Rightarrow> (nat \<times> memory_pool) option" where
  "MemoryPool_AddBlockSizePool granted mp block_size =
     (if granted (if 0 < alloc_pool_count mp then sz ((1 + alloc_pool_count mp) * 8) else 8) \<and> granted 80
      then do {
        ap \<leftarrow> AllocPool_Init granted (default_init_elcount mp) block_size;
        Some (alloc_pool_count mp,
              mp\<lparr>alloc_pools := alloc_pools mp @ [ap], alloc_pool_count := alloc_pool_count mp + 1\<rparr>)
      } else None)"

definition pool_alloc_at :: "(nat \<Rightarrow> bool) \<Rightarrow> nat \<Rightarrow> memory_pool \<Rightarrow> ((nat \<times> node) \<times> memory_pool) option" where
  "pool_alloc_at granted i mp = do {
     (p, ap) \<leftarrow> AllocPool_Alloc granted (alloc_pools mp ! i);
     Some ((i, p), mp\<lparr>alloc_pools := (alloc_pools mp)[i := ap]\<rparr>)
   }"

definition MemoryPool_Alloc ::
    "(nat \<Rightarrow> bool) \<Rightarrow> int \<Rightarrow> memory_pool \<Rightarrow> ((nat \<times> node) \<times> memory_pool) option" where
  "MemoryPool_Alloc granted block_size mp =
     (case MemoryPool_FindAllocPool mp block_size of
        Some i \<Rightarrow> pool_alloc_at granted i mp
      | None \<Rightarrow> do {
          (i, mp) \<leftarrow> MemoryPool_AddBlockSizePool granted mp block_size;
          pool_alloc_at granted i mp
        })"

text \<open>A block handed to the wrong pool is not an element of it: the model has no value for what happens
  then. Freeing a size the pool never served does nothing.\<close>

definition MemoryPool_Free :: "int \<Rightarrow> (nat \<times> node) \<Rightarrow> memory_pool \<Rightarrow> memory_pool option" where
  "MemoryPool_Free block_size pFreeMe mp =
     (case MemoryPool_FindAllocPool mp block_size of
        Some i \<Rightarrow>
          if i = fst pFreeMe then do {
            ap \<leftarrow> AllocPool_Free (snd pFreeMe) (alloc_pools mp ! i);
            Some (mp\<lparr>alloc_pools := (alloc_pools mp)[i := ap]\<rparr>)
          } else None
      | None \<Rightarrow> Some mp)"

definition MemoryPool_Destroy :: "memory_pool \<Rightarrow> nat list list" where
  "MemoryPool_Destroy mp = map (\<lambda>i. AllocPool_Destroy (alloc_pools mp ! i)) [0..<alloc_pool_count mp]"

subsection \<open>The invariant\<close>

definition used_in :: "(nat \<times> node) set \<Rightarrow> nat \<Rightarrow> node set" where
  "used_in used i = {p. (i, p) \<in> used}"

definition mempool_wf :: "memory_pool \<Rightarrow> (nat \<times> node) set \<Rightarrow> bool" where
  "mempool_wf mp used \<longleftrightarrow> finite used \<and>
     alloc_pool_count mp = length (alloc_pools mp) \<and>
     distinct (map element_size (alloc_pools mp)) \<and>
     (\<forall>i < length (alloc_pools mp). pool_wf (alloc_pools mp ! i) (used_in used i)) \<and>
     (\<forall>q \<in> used. fst q < length (alloc_pools mp)) \<and>
     1 \<le> default_init_elcount mp"

text \<open>The pool that serves a block size.\<close>

lemma find_pool_ok:
  "i + n \<le> length ps \<Longrightarrow>
   find_pool ps s i n = map_option ((+) i) (first_idx (\<lambda>ap. element_size ap = s) (take n (drop i ps)))"
proof (induction n arbitrary: i)
  case (Suc n)
  have "map_option ((+) (Suc i)) q = map_option ((+) i) (map_option Suc q)" for q
    by (cases q) simp_all
  then show ?case using Suc by (auto simp: option.map_comp comp_def simp flip: Cons_nth_drop_Suc)
qed simp

lemma MemoryPool_FindAllocPool_ok:
  "alloc_pool_count mp = length (alloc_pools mp) \<Longrightarrow>
   MemoryPool_FindAllocPool mp s = first_idx (\<lambda>ap. element_size ap = s) (alloc_pools mp)"
  using option.map_ident_strong[of _ "(+) (0::nat)"]
  by (simp add: MemoryPool_FindAllocPool_def find_pool_ok)

lemma used_in_insert: "used_in (insert (i, p) used) j = (if j = i then insert p (used_in used i) else used_in used j)"
  and used_in_remove: "used_in (used - {(i, p)}) j = (if j = i then used_in used i - {p} else used_in used j)"
  by (auto simp: used_in_def)

lemma card_used_in: "finite used \<Longrightarrow> card (used_in used i) \<le> card used"
proof -
  assume "finite used"
  moreover have "Pair i ` used_in used i \<subseteq> used" by (auto simp: used_in_def)
  ultimately have "card (Pair i ` used_in used i) \<le> card used" by (rule card_mono)
  then show ?thesis by (simp add: card_image inj_on_def)
qed

lemma pool_alloc_at_keeps:
  assumes wf: "mempool_wf mp used" and i: "i < length (alloc_pools mp)"
    and alloc: "pool_alloc_at granted i mp = Some (q, mp')"
  shows "fst q = i \<and> q \<notin> used \<and> mempool_wf mp' (insert q used) \<and>
    map element_size (alloc_pools mp') = map element_size (alloc_pools mp)"
proof -
  let ?ap = "alloc_pools mp ! i"
  have pwf: "pool_wf ?ap (used_in used i)" using wf i by (auto simp: mempool_wf_def)
  obtain p ap' where p: "AllocPool_Alloc granted ?ap = Some (p, ap')" and q: "q = (i, p)"
    and mp': "mp' = mp\<lparr>alloc_pools := (alloc_pools mp)[i := ap']\<rparr>"
    using alloc by (auto simp: pool_alloc_at_def split: bind_splits)
  note keep = AllocPool_Alloc_keeps[OF pwf p]
  have sizes: "map element_size (alloc_pools mp') = map element_size (alloc_pools mp)"
    using keep i by (simp add: mp' map_update[symmetric] list_update_same_conv map_update)
  moreover have "mempool_wf mp' (insert q used)"
    unfolding mempool_wf_def sizes q used_in_insert
    using wf i keep by (auto simp: mempool_wf_def mp' nth_list_update)
  ultimately show ?thesis using keep by (auto simp: q used_in_def)
qed

lemma MemoryPool_AddBlockSizePool_ok:
  assumes wf: "mempool_wf mp used" and new: "s \<notin> element_size ` set (alloc_pools mp)"
    and add: "MemoryPool_AddBlockSizePool granted mp s = Some (i, mp')"
  shows "mempool_wf mp' used \<and> i = length (alloc_pools mp) \<and>
    map element_size (alloc_pools mp') = map element_size (alloc_pools mp) @ [s]"
proof -
  obtain ap where ap: "AllocPool_Init granted (default_init_elcount mp) s = Some ap"
    and res: "i = alloc_pool_count mp"
      "mp' = mp\<lparr>alloc_pools := alloc_pools mp @ [ap], alloc_pool_count := alloc_pool_count mp + 1\<rparr>"
    using add by (auto simp: MemoryPool_AddBlockSizePool_def split: if_splits bind_splits)
  note init = AllocPool_Init_ok[OF ap]
  have "used_in used (length (alloc_pools mp)) = {}" using wf by (auto simp: mempool_wf_def used_in_def)
  then have "mempool_wf mp' used"
    using wf init new by (auto simp: mempool_wf_def res nth_append less_Suc_eq)
  then show ?thesis using wf init by (simp add: res mempool_wf_def)
qed

text \<open>Handing out an element of size \<open>s\<close>: it comes from the pool of that size and was free.\<close>

lemma MemoryPool_Alloc_keeps:
  assumes wf: "mempool_wf mp used" and alloc: "MemoryPool_Alloc granted s mp = Some (q, mp')"
  shows "q \<notin> used \<and> mempool_wf mp' (insert q used) \<and> fst q < length (alloc_pools mp') \<and>
    element_size (alloc_pools mp' ! fst q) = s \<and>
    (\<exists>ss. map element_size (alloc_pools mp') = map element_size (alloc_pools mp) @ ss)"
proof (cases "MemoryPool_FindAllocPool mp s")
  case (Some i)
  then have "first_idx (\<lambda>ap. element_size ap = s) (alloc_pools mp) = Some i"
    using wf MemoryPool_FindAllocPool_ok[of mp s] by (simp add: mempool_wf_def)
  then have i: "i < length (alloc_pools mp)" "element_size (alloc_pools mp ! i) = s"
    by (simp_all add: first_idx_Some)
  have "pool_alloc_at granted i mp = Some (q, mp')" using alloc Some by (simp add: MemoryPool_Alloc_def)
  note keep = pool_alloc_at_keeps[OF wf i(1) this]
  then have "length (alloc_pools mp') = length (alloc_pools mp)" by (metis length_map)
  moreover from this have "element_size (alloc_pools mp' ! i) = s" using keep i by (metis nth_map)
  ultimately show ?thesis using keep i by auto
next
  case None
  then have new: "s \<notin> element_size ` set (alloc_pools mp)"
    using wf MemoryPool_FindAllocPool_ok[of mp s] first_idx_None[of "\<lambda>ap. element_size ap = s"]
    by (fastforce simp: mempool_wf_def)
  obtain i mp1 where add: "MemoryPool_AddBlockSizePool granted mp s = Some (i, mp1)"
    and at: "pool_alloc_at granted i mp1 = Some (q, mp')"
    using alloc None by (auto simp: MemoryPool_Alloc_def split: bind_splits)
  note a = MemoryPool_AddBlockSizePool_ok[OF wf new add]
  have len: "length (alloc_pools mp1) = Suc (length (alloc_pools mp))" using a
    by (metis length_append_singleton length_map)
  then have i: "i < length (alloc_pools mp1)" using a by simp
  have "mempool_wf mp1 used" using a by blast
  note keep = pool_alloc_at_keeps[OF this i at]
  have "map element_size (alloc_pools mp') ! i = s" using keep a by (simp add: nth_append)
  moreover have "length (alloc_pools mp') = length (alloc_pools mp1)" using keep by (metis length_map)
  ultimately have "element_size (alloc_pools mp' ! i) = s" using i by simp
  with keep a i \<open>length (alloc_pools mp') = length (alloc_pools mp1)\<close> show ?thesis by auto
qed

text \<open>The pool of a size is the only one of that size, so it is found again when the element returns.\<close>

lemma MemoryPool_FindAllocPool_again:
  assumes wf: "mempool_wf mp used" and i: "i < length (alloc_pools mp)"
    "element_size (alloc_pools mp ! i) = s"
  shows "MemoryPool_FindAllocPool mp s = Some i"
proof -
  have "element_size (alloc_pools mp ! j) \<noteq> s" if "j < i" for j
    using wf i that nth_eq_iff_index_eq[of "map element_size (alloc_pools mp)" j i]
    by (auto simp: mempool_wf_def)
  then have "first_idx (\<lambda>ap. element_size ap = s) (alloc_pools mp) = Some i"
    using i by (auto simp: first_idx_Some)
  then show ?thesis using wf MemoryPool_FindAllocPool_ok[of mp s] by (simp add: mempool_wf_def)
qed

lemma MemoryPool_Free_ok:
  assumes wf: "mempool_wf mp used" and q: "q \<in> used" "element_size (alloc_pools mp ! fst q) = s"
  shows "\<exists>mp'. MemoryPool_Free s q mp = Some mp' \<and> mempool_wf mp' (used - {q}) \<and>
    map element_size (alloc_pools mp') = map element_size (alloc_pools mp)"
proof -
  obtain i p where ip: "q = (i, p)" by (cases q) auto
  have i: "i < length (alloc_pools mp)" using wf q ip by (auto simp: mempool_wf_def)
  have find: "MemoryPool_FindAllocPool mp s = Some i"
    using MemoryPool_FindAllocPool_again[OF wf i] q ip by simp
  obtain ap' where ap': "AllocPool_Free p (alloc_pools mp ! i) = Some ap'"
    "pool_wf ap' (used_in used i - {p})" "element_size ap' = element_size (alloc_pools mp ! i)"
    using AllocPool_Free_ok[of "alloc_pools mp ! i" "used_in used i" p] wf i q ip
    by (auto simp: mempool_wf_def used_in_def)
  define mp' where "mp' = mp\<lparr>alloc_pools := (alloc_pools mp)[i := ap']\<rparr>"
  have sizes: "map element_size (alloc_pools mp') = map element_size (alloc_pools mp)"
    using ap'(3) i by (simp add: mp'_def map_update[symmetric] list_update_same_conv map_update)
  moreover have "mempool_wf mp' (used - {q})"
    unfolding mempool_wf_def sizes ip used_in_remove
    using wf i ap'(2) by (auto simp: mempool_wf_def mp'_def nth_list_update)
  ultimately show ?thesis using find ap'(1) ip by (auto simp: MemoryPool_Free_def mp'_def)
qed

definition mempool_write :: "nat \<times> node \<Rightarrow> node option \<Rightarrow> memory_pool \<Rightarrow> memory_pool" where
  "mempool_write q v mp =
     mp\<lparr>alloc_pools := (alloc_pools mp)[fst q := element_write (snd q) v (alloc_pools mp ! fst q)]\<rparr>"

lemma mempool_write_ok:
  assumes wf: "mempool_wf mp used" and q: "q \<in> used"
  shows "mempool_wf (mempool_write q v mp) used \<and>
    map element_size (alloc_pools (mempool_write q v mp)) = map element_size (alloc_pools mp)"
proof -
  obtain i p where ip: "q = (i, p)" by (cases q) auto
  have i: "i < length (alloc_pools mp)" using wf q ip by (auto simp: mempool_wf_def)
  have w: "pool_wf (element_write p v (alloc_pools mp ! i)) (used_in used i)"
    using element_write_ok[of "alloc_pools mp ! i" "used_in used i" p v] wf i q ip
    by (auto simp: mempool_wf_def used_in_def)
  have sizes: "map element_size (alloc_pools (mempool_write q v mp)) = map element_size (alloc_pools mp)"
    using i by (simp add: mempool_write_def ip element_write_def map_update[symmetric]
        list_update_same_conv map_update)
  moreover have "mempool_wf (mempool_write q v mp) used"
    unfolding mempool_wf_def sizes
    using wf i w by (auto simp: mempool_wf_def mempool_write_def ip nth_list_update)
  ultimately show ?thesis by simp
qed

section \<open>What the users of the pool see\<close>

text \<open>
  The users' steps, in any interleaving: asking for an element of some size, overwriting an element in
  use, and returning one. The second component of the state is the set of elements in use with the
  size they were asked for.
\<close>

inductive mp_step :: "(nat \<Rightarrow> bool) \<Rightarrow> memory_pool \<times> (int \<times> nat \<times> node) set
    \<Rightarrow> memory_pool \<times> (int \<times> nat \<times> node) set \<Rightarrow> bool" for granted where
  step_alloc: "MemoryPool_Alloc granted s mp = Some (q, mp') \<Longrightarrow>
     mp_step granted (mp, U) (mp', insert (s, q) U)"
| step_write: "(s, q) \<in> U \<Longrightarrow> mp_step granted (mp, U) (mempool_write q v mp, U)"
| step_free: "(s, q) \<in> U \<Longrightarrow> MemoryPool_Free s q mp = Some mp' \<Longrightarrow>
     mp_step granted (mp, U) (mp', U - {(s, q)})"

inductive mp_reachable :: "(nat \<Rightarrow> bool) \<Rightarrow> int \<Rightarrow> memory_pool \<times> (int \<times> nat \<times> node) set \<Rightarrow> bool"
  for granted n where
  reach_init: "mp_reachable granted n (MemoryPool_Init n, {})"
| reach_step: "mp_reachable granted n \<sigma> \<Longrightarrow> mp_step granted \<sigma> \<sigma>' \<Longrightarrow> mp_reachable granted n \<sigma>'"

inductive_cases mp_stepE: "mp_step granted \<sigma> \<sigma>'"

definition mp_inv :: "memory_pool \<times> (int \<times> nat \<times> node) set \<Rightarrow> bool" where
  "mp_inv \<sigma> \<longleftrightarrow> (case \<sigma> of (mp, U) \<Rightarrow> mempool_wf mp (snd ` U) \<and> inj_on snd U \<and>
     (\<forall>(s, q) \<in> U. element_size (alloc_pools mp ! fst q) = s))"

lemma mp_inv_sizes:
  assumes "mempool_wf mp (snd ` U)" "\<forall>(s, q) \<in> U. element_size (alloc_pools mp ! fst q) = s"
    "map element_size (alloc_pools mp') = map element_size (alloc_pools mp) @ ss"
  shows "\<forall>(s, q) \<in> U. element_size (alloc_pools mp' ! fst q) = s"
proof clarify
  fix s and a :: nat and b c :: nat assume u: "(s, a, b, c) \<in> U"
  then have "snd (s, a, b, c) \<in> snd ` U" by (rule imageI)
  then have a: "a < length (alloc_pools mp)" using assms(1) by (auto simp: mempool_wf_def)
  moreover have "length (alloc_pools mp) \<le> length (alloc_pools mp')"
    using assms(3) by (metis le_add1 length_append length_map)
  ultimately have "element_size (alloc_pools mp' ! a) = element_size (alloc_pools mp ! a)"
    using assms(3) by (metis length_map nth_append nth_map order_less_le_trans)
  then show "element_size (alloc_pools mp' ! fst (a, b, c)) = s" using assms(2) u by auto
qed

lemma mp_step_inv: "mp_step granted \<sigma> \<sigma>' \<Longrightarrow> mp_inv \<sigma> \<Longrightarrow> mp_inv \<sigma>'"
proof (induction rule: mp_step.induct)
  case (step_alloc s mp q mp' U)
  then have k: "q \<notin> snd ` U" "mempool_wf mp' (insert q (snd ` U))"
    "element_size (alloc_pools mp' ! fst q) = s"
    "\<exists>ss. map element_size (alloc_pools mp') = map element_size (alloc_pools mp) @ ss"
    using MemoryPool_Alloc_keeps[of mp "snd ` U" granted s q mp'] by (auto simp: mp_inv_def)
  then obtain ss where "map element_size (alloc_pools mp') = map element_size (alloc_pools mp) @ ss"
    by blast
  then have "\<forall>(s, q) \<in> U. element_size (alloc_pools mp' ! fst q) = s"
    using mp_inv_sizes[of mp U mp' ss] step_alloc.prems by (simp add: mp_inv_def)
  then show ?case using k step_alloc.prems by (auto simp: mp_inv_def)
next
  case (step_write s q U mp v)
  then have "q \<in> snd ` U" by force
  then show ?case
    using step_write mempool_write_ok[of mp "snd ` U" q v]
      mp_inv_sizes[of mp U "mempool_write q v mp" "[]"] by (auto simp: mp_inv_def)
next
  case (step_free s q U mp mp')
  then have q: "q \<in> snd ` U" "element_size (alloc_pools mp ! fst q) = s" by (force simp: mp_inv_def)+
  then have k: "mempool_wf mp' (snd ` U - {q})"
    "map element_size (alloc_pools mp') = map element_size (alloc_pools mp)"
    using step_free MemoryPool_Free_ok[of mp "snd ` U" q s] by (auto simp: mp_inv_def)
  moreover have "snd ` (U - {(s, q)}) = snd ` U - {q}"
    using step_free inj_on_image_set_diff[of snd U U "{(s, q)}"] by (auto simp: mp_inv_def)
  ultimately show ?case
    using step_free mp_inv_sizes[of mp U mp' "[]"] by (auto simp: mp_inv_def intro: inj_on_subset)
qed

lemma mp_reachable_inv:
  assumes "1 \<le> n" and "mp_reachable granted n \<sigma>"
  shows "mp_inv \<sigma>"
  using assms(2)
proof induction
  case reach_init
  then show ?case using assms(1) by (simp add: mp_inv_def mempool_wf_def MemoryPool_Init_def)
qed (rule mp_step_inv)

section \<open>Properties\<close>

text \<open>C15: whatever the threads of the server do with the memory pool - ask for blocks of any sizes,
  overwrite blocks they hold, return them, in any interleaving, with any allocation failures in
  between - every block in use is in use once, lies inside the pool of the size it was asked for,
  can be returned without a fault, and a new request is never answered with a block in use.\<close>

theorem mempool_safe:
  assumes "1 \<le> n" "mp_reachable granted n (mp, U)"
  shows "inj_on snd U \<and>
    (\<forall>(s, q) \<in> U. element_size (alloc_pools mp ! fst q) = s \<and> node_valid (alloc_pools mp ! fst q) (snd q)
       \<and> MemoryPool_Free s q mp \<noteq> None) \<and>
    (\<forall>s q mp'. MemoryPool_Alloc granted s mp = Some (q, mp') \<longrightarrow> q \<notin> snd ` U)"
proof (intro conjI allI impI)
  have inv: "mempool_wf mp (snd ` U)" "inj_on snd U"
    "\<forall>(s, q) \<in> U. element_size (alloc_pools mp ! fst q) = s"
    using mp_reachable_inv[OF assms] by (auto simp: mp_inv_def)
  then show "inj_on snd U" by blast
  show "q \<notin> snd ` U" if "MemoryPool_Alloc granted s mp = Some (q, mp')" for s q mp'
    using MemoryPool_Alloc_keeps[OF inv(1) that] by blast
  show "\<forall>(s, q) \<in> U. element_size (alloc_pools mp ! fst q) = s \<and>
      node_valid (alloc_pools mp ! fst q) (snd q) \<and> MemoryPool_Free s q mp \<noteq> None"
  proof (rule ballI)
    fix u assume u: "u \<in> U"
    obtain s q where sq: "u = (s, q)" by (cases u)
    have q: "q \<in> snd ` U" "element_size (alloc_pools mp ! fst q) = s" using u sq inv(3) by force+
    then have "fst q < length (alloc_pools mp)" using inv(1) by (auto simp: mempool_wf_def)
    then have "pool_wf (alloc_pools mp ! fst q) (used_in (snd ` U) (fst q))" "snd q \<in> used_in (snd ` U) (fst q)"
      using inv(1) q by (auto simp: mempool_wf_def used_in_def)
    then have "node_valid (alloc_pools mp ! fst q) (snd q)" by (auto simp: pool_wf_def pool_nodes_def)
    then show "case u of (s, q) \<Rightarrow> element_size (alloc_pools mp ! fst q) = s \<and>
        node_valid (alloc_pools mp ! fst q) (snd q) \<and> MemoryPool_Free s q mp \<noteq> None"
      using MemoryPool_Free_ok[OF inv(1) q] q(2) sq by auto
  qed
qed

definition mp_example :: "memory_pool \<times> (int \<times> nat \<times> node) set" where
  "mp_example = (case MemoryPool_Alloc (\<lambda>_. True) 16 (MemoryPool_Init 1) of
     Some (q, mp) \<Rightarrow> (case MemoryPool_Alloc (\<lambda>_. True) 32 mp of Some (q', mp') \<Rightarrow> (mp', {(32, q'), (16, q)})))"

lemma mp_example_reachable: "mp_reachable (\<lambda>_. True) 1 mp_example"
proof -
  obtain q mp where a: "MemoryPool_Alloc (\<lambda>_. True) 16 (MemoryPool_Init 1) = Some (q, mp)"
    by (simp add: MemoryPool_Alloc_def MemoryPool_Init_def MemoryPool_FindAllocPool_def
        MemoryPool_AddBlockSizePool_def AllocPool_Init_def PoolMemBlock_Init_def sizeof_pointer_def
        pool_alloc_at_def AllocPool_Alloc_def AllocPool_AddBlock_def)
  then have r: "mp_reachable (\<lambda>_. True) 1 (mp, {(16, q)})"
    using reach_step[OF reach_init step_alloc] by blast
  obtain q' mp' where b: "MemoryPool_Alloc (\<lambda>_. True) 32 mp = Some (q', mp')"
    using a by (auto simp: MemoryPool_Alloc_def MemoryPool_Init_def MemoryPool_FindAllocPool_def
        MemoryPool_AddBlockSizePool_def AllocPool_Init_def PoolMemBlock_Init_def sizeof_pointer_def
        pool_alloc_at_def AllocPool_Alloc_def AllocPool_AddBlock_def)
  show ?thesis
    using reach_step[OF r step_alloc[OF b]] a b by (simp add: mp_example_def)
qed

theorem mempool_safe_witness:
  "inj_on snd (snd mp_example) \<and>
    (\<exists>q. (32, q) \<in> snd mp_example \<and> element_size (alloc_pools (fst mp_example) ! fst q) = 32 \<and>
       node_valid (alloc_pools (fst mp_example) ! fst q) (snd q) \<and> MemoryPool_Free 32 q (fst mp_example) \<noteq> None) \<and>
    (case MemoryPool_Alloc (\<lambda>_. True) 64 (fst mp_example) of None \<Rightarrow> True
     | Some (q, mp') \<Rightarrow> q \<notin> snd ` snd mp_example)"
proof -
  have "\<exists>q. (32, q) \<in> snd mp_example"
    by (simp add: mp_example_def MemoryPool_Alloc_def MemoryPool_Init_def MemoryPool_FindAllocPool_def
        MemoryPool_AddBlockSizePool_def AllocPool_Init_def PoolMemBlock_Init_def sizeof_pointer_def
        pool_alloc_at_def AllocPool_Alloc_def AllocPool_AddBlock_def)
  then obtain q where q: "(32, q) \<in> snd mp_example" by blast
  note safe = mempool_safe[of 1 "\<lambda>_. True" "fst mp_example" "snd mp_example", simplified, OF mp_example_reachable]
  have "case MemoryPool_Alloc (\<lambda>_. True) 64 (fst mp_example) of None \<Rightarrow> True
     | Some (q, mp') \<Rightarrow> q \<notin> snd ` snd mp_example"
    using safe by (auto split: option.split)
  with safe q show ?thesis by blast
qed

text \<open>a pool of elements at least as large as a pointer serves any number of requests, growing by
  whole blocks, with pairwise different elements, and they can be returned in any order; afterwards no
  element is in use.\<close>

theorem AllocPool_serves_all:
  assumes "AllocPool_Init granted n esz = Some ap" "\<forall>b. granted b" "(int k + 1) * 2 * esz < 2 ^ 63"
    "mset qs = mset (fst (the (alloc_many (AllocPool_Alloc granted) k ap)))"
  shows "\<exists>ps ap1 ap2. alloc_many (AllocPool_Alloc granted) k ap = Some (ps, ap1) \<and> length ps = k \<and>
    distinct ps \<and> pool_wf ap1 (set ps) \<and> release_many AllocPool_Free qs ap1 = Some ap2 \<and> pool_wf ap2 {}"
proof -
  have init: "pool_wf ap {}" "element_size ap = esz" using AllocPool_Init_ok[OF assms(1)] by auto
  then have es: "sizeof_pointer \<le> esz" by (auto simp: pool_wf_def)
  have room: "(int (card U) + 1) * 2 * esz < 2 ^ 63 \<and> sizeof_pointer \<le> esz"
    if "card U < card {} + k" for U :: "node set"
  proof -
    have "(int (card U) + 1) * 2 * esz \<le> (int k + 1) * 2 * esz"
      using that es by (intro mult_right_mono) (simp_all add: sizeof_pointer_def)
    with assms(3) es show ?thesis by simp
  qed
  obtain ps ap1 where ps: "alloc_many (AllocPool_Alloc granted) k ap = Some (ps, ap1)" "length ps = k"
    "distinct ps" "pool_wf ap1 (set ps)" "element_size ap1 = esz"
    using pool.alloc_many_ok[of ap "{}" granted esz k] init assms(2) room by auto
  have qs: "distinct qs" "set qs = set ps"
    using assms(4) ps(1,3) by (simp_all add: mset_eq_imp_distinct_iff[of qs ps] mset_eq_setD[of qs ps])
  then obtain ap2 where "release_many AllocPool_Free qs ap1 = Some ap2" "pool_wf ap2 {}"
    using pool.release_many_ok[of ap1 "set ps" granted esz qs] ps assms(2) by auto
  with ps show ?thesis by blast
qed

theorem AllocPool_serves_all_witness:
  "\<exists>ps ap1 ap2. alloc_many (AllocPool_Alloc (\<lambda>_. True)) 4 (the (AllocPool_Init (\<lambda>_. True) 1 16)) = Some (ps, ap1) \<and>
    length ps = 4 \<and> distinct ps \<and> pool_wf ap1 (set ps) \<and>
    release_many AllocPool_Free (rev (fst (the (alloc_many (AllocPool_Alloc (\<lambda>_. True)) 4
      (the (AllocPool_Init (\<lambda>_. True) 1 16)))))) ap1 = Some ap2 \<and> pool_wf ap2 {}"
  by (rule AllocPool_serves_all[of _ 1 16])
     (simp_all add: AllocPool_Init_def PoolMemBlock_Init_def sizeof_pointer_def)

text \<open>a pool grows only when its last free element is handed out; it then triples, so the free list
  is never empty between operations.\<close>

theorem AllocPool_grows_only_when_full:
  assumes "pool_wf ap used" "AllocPool_Alloc granted ap = Some (p, ap')"
  shows "headnode ap' \<noteq> None \<and>
    (if insert p used = pool_nodes ap then element_count ap' = 3 * element_count ap
     else element_count ap' = element_count ap \<and> pool_nodes ap' = pool_nodes ap)"
proof -
  from assms(1) obtain x xs where xs: "chain (links ap) (headnode ap) (x # xs)" "distinct (x # xs)"
    "set (x # xs) \<inter> used = {}" "set (x # xs) \<union> used = pool_nodes ap"
    by (auto simp: pool_wf_def neq_Nil_conv)
  have p: "p = x" "(if links ap x = None then AllocPool_AddBlock granted (ap\<lparr>headnode := links ap x\<rparr>)
      else Some (ap\<lparr>headnode := links ap x\<rparr>)) = Some ap'"
    using assms(2) xs(1) by (auto simp: AllocPool_Alloc_def Let_def split: bind_splits)
  have head: "links ap x = None \<longleftrightarrow> xs = []" using xs(1) by (cases xs) auto
  have full: "insert x used = pool_nodes ap \<longleftrightarrow> xs = []" using xs(2-4) by (cases xs) auto
  have "headnode ap' \<noteq> None"
    using AllocPool_Alloc_keeps[OF assms] by (auto simp: pool_wf_def neq_Nil_conv)
  then show ?thesis
    using p head full
    by (auto simp: AllocPool_AddBlock_def pool_nodes_def node_valid_def split: if_splits bind_splits)
qed

definition one_pool :: alloc_pool where
  "one_pool = the (AllocPool_Init (\<lambda>_. True) 1 16)"

definition grown_pool :: alloc_pool where
  "grown_pool = snd (the (AllocPool_Alloc (\<lambda>_. True) one_pool))"

lemmas pool_eval = AllocPool_Init_def PoolMemBlock_Init_def sizeof_pointer_def AllocPool_Alloc_def
  AllocPool_AddBlock_def Let_def

theorem AllocPool_grows_only_when_full_witness:
  "headnode grown_pool \<noteq> None \<and>
    (if insert (0, 0) {} = pool_nodes one_pool then element_count grown_pool = 3 * element_count one_pool
     else element_count grown_pool = element_count one_pool \<and> pool_nodes grown_pool = pool_nodes one_pool)"
proof (rule AllocPool_grows_only_when_full[where granted = "\<lambda>_. True"])
  have "AllocPool_Init (\<lambda>_. True) 1 16 = Some one_pool"
    by (simp add: one_pool_def pool_eval)
  then show "pool_wf one_pool {}" using AllocPool_Init_ok by blast
qed (simp add: grown_pool_def one_pool_def pool_eval)

end
