(* ===== verification/IoHelper.thy ===== *)
theory IoHelper
  imports CharVector
begin

text \<open>
  iohelper.c: reading from and writing to a socket. The kernel is outside the repository: the answers of
  the successive \<open>read\<close> or \<open>send\<close> calls are an argument, a call that is not answered yet leaves the
  function \<open>Running\<close>. Next to the result, a writing function yields the bytes the kernel accepted.
\<close>

section \<open>Writing\<close>

text \<open>
  The loop both writers share: \<open>w\<close> is what \<open>send\<close> returned for \<open>len - tot\<close> bytes at
  \<open>msg + tot\<close>; \<open>lim\<close> is the bound the loop compares with.
\<close>

fun send_loop :: "int list \<Rightarrow> byte list \<Rightarrow> nat \<Rightarrow> int \<Rightarrow> int outcome \<times> byte list" where
  "send_loop [] msg tot lim = (Running, [])"
| "send_loop (w # ws) msg tot lim =
     (if w < 0 then (Returns w, [])
      else let acc = take (nat w) (drop tot msg); tot = tot + nat w in
        if int tot < lim then (case send_loop ws msg tot lim of (r, out) \<Rightarrow> (r, acc @ out))
        else (Returns (to_int32 tot), acc))"

definition write_full_raw :: "int list \<Rightarrow> byte list \<Rightarrow> nat \<Rightarrow> int outcome \<times> byte list" where
  "write_full_raw sends msg len =
     (if len \<le> length msg then send_loop sends (take len msg) 0 (int len) else (Faults, []))"

text \<open>\<open>write_from_cv_raw\<close> keeps the length of the buffer in an \<open>int\<close>.\<close>

definition write_from_cv_raw :: "int list \<Rightarrow> cv_t \<Rightarrow> int outcome \<times> byte list" where
  "write_from_cv_raw sends cv =
     (case read_cells (cells (cdata cv)) 0 (clength cv) of
        None \<Rightarrow> (Faults, [])
      | Some msg \<Rightarrow> send_loop sends msg 0 (to_int32 (clength cv)))"

text \<open>The contract of \<open>send\<close>: an error, or at most the bytes it was asked to send.\<close>

fun sends_ok :: "int list \<Rightarrow> nat \<Rightarrow> bool" where
  "sends_ok [] n \<longleftrightarrow> True"
| "sends_ok (w # ws) n \<longleftrightarrow> w \<le> int n \<and> sends_ok ws (n - nat w)"

lemma send_loop_ok:
  "sends_ok ws (length msg - tot) \<Longrightarrow> tot \<le> length msg \<Longrightarrow> length msg < 2 ^ 31 \<Longrightarrow>
   (\<exists>k. snd (send_loop ws msg tot (int (length msg))) = take k (drop tot msg)) \<and>
   (\<forall>r. fst (send_loop ws msg tot (int (length msg))) = Returns r \<longrightarrow>
      r < 0 \<or> r = int (length msg) \<and> snd (send_loop ws msg tot (int (length msg))) = drop tot msg)"
proof (induction ws arbitrary: tot)
  case (Cons w ws)
  show ?case
  proof (cases "w < 0")
    case True
    then show ?thesis by (auto intro: exI[of _ 0])
  next
    case False
    define t where "t = tot + nat w"
    have t: "t \<le> length msg" "length msg - tot - nat w = length msg - t"
      using Cons.prems False by (auto simp: t_def)
    have ok: "sends_ok ws (length msg - t)" using Cons.prems(1) t by simp
    show ?thesis
    proof (cases "t < length msg")
      case True
      let ?r = "send_loop ws msg t (int (length msg))"
      from Cons.IH[OF ok t(1) Cons.prems(3)] obtain k where
        k: "snd ?r = take k (drop t msg)" by blast
      have "take (nat w) (drop tot msg) @ take k (drop t msg) = take (nat w + k) (drop tot msg)"
        unfolding take_add t_def by (simp add: add.commute)
      moreover have "take (nat w) (drop tot msg) @ drop t msg = drop tot msg"
        by (metis append_take_drop_id drop_drop add.commute t_def)
      ultimately show ?thesis
        using Cons.IH[OF ok t(1) Cons.prems(3)] False True k
        by (auto simp: t_def[symmetric] Let_def split: prod.splits)
    next
      case False
      then have "t = length msg" using t by simp
      moreover have "to_int32 (length msg) = int (length msg)" using Cons.prems(3) by (rule to_int32_small)
      ultimately show ?thesis
        using \<open>\<not> w < 0\<close> by (auto simp: t_def Let_def intro: exI[of _ "length msg"])
    qed
  qed
qed (auto intro: exI[of _ 0])

section \<open>Reading\<close>

text \<open>An error of \<open>read\<close> or the bytes it stored (none at the end of the stream).\<close>

datatype read_result = Read_error int | Read_bytes "byte list"

definition read_size :: nat where
  "read_size = 512"

fun read_loop :: "byte mem_mgr \<Rightarrow> read_result list \<Rightarrow> cv_t \<Rightarrow> nat \<Rightarrow> nat \<Rightarrow> (nat \<times> cv_t) outcome" where
  "read_loop M [] cv total_read max_read = Running"
| "read_loop M (r # rs) cv total_read max_read =
     (let cv = snd (cv_resize M cv (min (sz (total_read + read_size)) max_read)) in
      case r of
        Read_error e \<Rightarrow> Returns (sz_of_int e, cv\<lparr>clength := total_read\<rparr>)
      | Read_bytes [] \<Rightarrow> Returns (0, cv\<lparr>clength := total_read\<rparr>)
      | Read_bytes bs \<Rightarrow>
          (case copy_cells (cells (cdata cv)) total_read bs of
             None \<Rightarrow> Faults
           | Some d \<Rightarrow>
               (let cv = cv\<lparr>cdata := Some d\<rparr>; total_read = total_read + length bs in
                if total_read < max_read \<and> length bs = read_size
                then read_loop M rs cv total_read max_read
                else Returns (total_read, cv\<lparr>clength := total_read\<rparr>))))"

definition read_to_cv ::
    "byte mem_mgr \<Rightarrow> read_result list \<Rightarrow> cv_t \<Rightarrow> nat \<Rightarrow> nat \<Rightarrow> (nat \<times> cv_t) outcome" where
  "read_to_cv M reads cv startidx max_read = read_loop M reads cv startidx max_read"

lemma read_loop_bytes:
  "bs \<noteq> [] \<Longrightarrow> snd (cv_resize M cv (min (sz (k + read_size)) n)) = cv1 \<Longrightarrow>
   copy_cells (cells (cdata cv1)) k bs = Some d \<Longrightarrow>
   read_loop M (Read_bytes bs # rs) cv k n =
     (if k + length bs < n \<and> length bs = read_size
      then read_loop M rs (cv1\<lparr>cdata := Some d\<rparr>) (k + length bs) n
      else Returns (k + length bs, cv1\<lparr>cdata := Some d, clength := k + length bs\<rparr>))"
  by (cases bs) (auto simp: Let_def simp flip: add_Suc_right)

text \<open>The contract of \<open>read\<close>: it stores at most the \<open>min max_read read_size\<close> bytes it was asked for.\<close>

definition reads_ok :: "read_result list \<Rightarrow> nat \<Rightarrow> bool" where
  "reads_ok rs max_read \<longleftrightarrow>
     (\<forall>bs. Read_bytes bs \<in> set rs \<longrightarrow> length bs \<le> min max_read read_size)"

text \<open>What a reader gets: the bytes of the successive answers up to the first short one.\<close>

fun stream_bytes :: "read_result list \<Rightarrow> nat \<Rightarrow> byte list" where
  "stream_bytes [] n = []"
| "stream_bytes (Read_error e # rs) n = []"
| "stream_bytes (Read_bytes bs # rs) n =
     (if length bs < n \<and> length bs = read_size then bs @ stream_bytes rs (n - length bs) else bs)"

text \<open>The buffer of the reader: well-formed but for the length, which is set at the end.\<close>

definition read_buf :: "cv_t \<Rightarrow> nat \<Rightarrow> byte list \<Rightarrow> bool" where
  "read_buf cv n got \<longleftrightarrow> (\<exists>d. cdata cv = Some d \<and> length d = max MINALLOC (ccapacity cv) \<and>
     ccapacity cv \<le> n \<and> length got \<le> ccapacity cv \<and> take (length got) d = got)"

lemma read_size_pos: "0 < read_size" "0 \<noteq> read_size"
  by (simp_all add: read_size_def)

lemma resize_read_buf:
  assumes M: "grants_all M" and buf: "read_buf cv n got" and m: "length got \<le> m" "m \<le> n"
  shows "\<exists>d. snd (cv_resize M cv m) = cv\<lparr>cdata := Some d, ccapacity := m\<rparr> \<and>
    length d = max MINALLOC m \<and> take (length got) d = got"
proof -
  from buf obtain d where d: "cdata cv = Some d" "length d = max MINALLOC (ccapacity cv)"
    "length got \<le> ccapacity cv" "take (length got) d = got" by (auto simp: read_buf_def)
  show ?thesis
  proof (cases "m = ccapacity cv")
    case True
    then show ?thesis using d by (auto simp: cv_resize_def intro!: exI[of _ d])
  next
    case False
    obtain d' where d': "cv_realloc M (Some d) (max MINALLOC m) = Some d'"
      and d'_eq: "d' = take (max MINALLOC m) d @ map (fresh M) [length d..<max MINALLOC m]"
      using M by (simp add: cv_realloc_def mem_simps)
    have "length got \<le> length (take (max MINALLOC m) d)" using d m(1) by (simp add: le_max_iff_disj)
    then have "take (length got) d' = got" using d(4) m(1) by (simp add: d'_eq min_def le_max_iff_disj)
    moreover have "length d' = max MINALLOC m"
      using length_realloc_cells[OF d'[unfolded cv_realloc_def]] by simp
    ultimately show ?thesis using False d(1) d' by (auto simp: cv_resize_def Let_def)
  qed
qed

lemma read_loop_ok:
  assumes M: "grants_all M" and n: "n < 2 ^ 62" "read_size dvd n"
  shows "read_buf cv n got \<Longrightarrow> reads_ok rs n \<Longrightarrow> read_size dvd length got \<Longrightarrow> length got < n \<Longrightarrow>
    read_loop M rs cv (length got) n \<noteq> Faults \<and>
    (\<forall>k cv'. read_loop M rs cv (length got) n = Returns (k, cv') \<longrightarrow>
       cv_wf cv' \<and> cv_bytes cv' = got @ stream_bytes rs (n - length got) \<and> clength cv' \<le> n \<and>
       ccapacity cv' \<le> n)"
proof (induction rs arbitrary: cv got)
  case (Cons r rs)
  have step: "length got + read_size \<le> n"
    using n(2) Cons.prems(3,4) dvd_imp_le[of read_size "n - length got"] dvd_diff_nat[of read_size n "length got"]
    by linarith
  define m where "m = min (sz (length got + read_size)) n"
  have m: "m = length got + read_size" using step n(1) by (simp add: m_def sz_small)
  obtain d where d: "snd (cv_resize M cv m) = cv\<lparr>cdata := Some d, ccapacity := m\<rparr>"
    "length d = max MINALLOC m" "take (length got) d = got"
    using resize_read_buf[OF M Cons.prems(1), of m] m step by auto
  show ?case
  proof (cases r)
    case (Read_error e)
    then show ?thesis
      using d m step n(1) by (simp add: m_def[symmetric] cv_wf_def cv_bytes_def)
  next
    case (Read_bytes bs)
    show ?thesis
    proof (cases "bs = []")
      case True
      then show ?thesis
        using Read_bytes d m step n(1) read_size_pos
        by (simp add: m_def[symmetric] cv_wf_def cv_bytes_def)
    next
      case False
      have lb: "length bs \<le> read_size" using Cons.prems(2) Read_bytes by (auto simp: reads_ok_def)
      define d' where "d' = take (length got) d @ bs @ drop (length got + length bs) d"
      have fits: "length got + length bs \<le> length d" using lb d(2) m by simp
      have copy: "copy_cells d (length got) bs = Some d'"
        using fits by (simp add: mem_simps d'_def)
      have d': "length d' = max MINALLOC m" "take (length (got @ bs)) d' = got @ bs"
        using fits d by (simp_all add: d'_def)
      define cv1 where "cv1 = cv\<lparr>ccapacity := m, cdata := Some d'\<rparr>"
      have buf: "read_buf cv1 n (got @ bs)"
        using d' m step lb by (simp add: read_buf_def cv1_def)
      have fin: "cv_wf (cv1\<lparr>clength := length (got @ bs)\<rparr>) \<and>
          cv_bytes (cv1\<lparr>clength := length (got @ bs)\<rparr>) = got @ bs"
        using d' m step lb n(1) by (simp add: cv_wf_def cv_bytes_def cv1_def)
      have step_eq: "read_loop M (r # rs) cv (length got) n =
          (if length got + length bs < n \<and> length bs = read_size
           then read_loop M rs cv1 (length got + length bs) n
           else Returns (length (got @ bs), cv1\<lparr>clength := length (got @ bs)\<rparr>))"
        using read_loop_bytes[where d = d' and k = "length got" and rs = rs, OF False d(1)[unfolded m_def]] copy Read_bytes
        by (simp add: cv1_def m_def[symmetric])
      show ?thesis
      proof (cases "length got + length bs < n \<and> length bs = read_size")
        case True
        have "read_size dvd length (got @ bs)" using Cons.prems(3) True by simp
        then show ?thesis
          using Cons.IH[OF buf] Cons.prems(2) True unfolding step_eq
          by (auto simp: reads_ok_def Read_bytes)
      next
        case False
        then show ?thesis
          using fin step lb m unfolding step_eq by (auto simp: Read_bytes cv1_def)
      qed
    qed
  qed
qed simp

lemma cv_wf_read_buf: "cv_wf cv \<Longrightarrow> ccapacity cv \<le> n \<Longrightarrow> read_buf cv n []"
  by (auto simp: cv_wf_def read_buf_def)

section \<open>Properties\<close>

text \<open>C27: \<open>read_to_cv\<close> from position 0 with a limit that is a multiple of the read size, as the input
  task calls it, never writes outside the buffer; when it returns, the buffer is well-formed and holds
  exactly the bytes the kernel delivered, up to the first short read, at most \<open>max_read\<close> of them.\<close>

theorem read_to_cv_correct:
  assumes "grants_all M" "cv_wf cv" "ccapacity cv \<le> n" "read_size dvd n" "0 < n" "n < 2 ^ 62" "reads_ok rs n"
  shows "read_to_cv M rs cv 0 n \<noteq> Faults \<and>
    (\<forall>k cv'. read_to_cv M rs cv 0 n = Returns (k, cv') \<longrightarrow>
       cv_wf cv' \<and> cv_bytes cv' = stream_bytes rs n \<and> cv_len cv' \<le> n)"
  using read_loop_ok[OF assms(1,6,4) cv_wf_read_buf[OF assms(2,3)] assms(7)] assms(5)
  by (simp add: read_to_cv_def cv_len_def)

theorem read_to_cv_correct_witness:
  "case read_to_cv byte_mgr [Read_bytes (replicate 512 65), Read_bytes [66, 67]] cv8 0 1024 of
     Faults \<Rightarrow> False | Running \<Rightarrow> True
   | Returns (k, cv') \<Rightarrow>
      cv_wf cv' \<and> cv_bytes cv' = stream_bytes [Read_bytes (replicate 512 65), Read_bytes [66, 67]] 1024 \<and>
      cv_len cv' \<le> 1024"
proof -
  let ?rs = "[Read_bytes (replicate 512 65), Read_bytes [66, 67]]"
  have "cv_wf cv8" "ccapacity cv8 \<le> 1024" "read_size dvd 1024" "reads_ok ?rs 1024"
    by (simp_all add: cv_wf_def cv8_def MINALLOC_def reads_ok_def read_size_def)
  from read_to_cv_correct[OF byte_mgr_grants this(1,2,3) _ _ this(4)]
  show ?thesis by (auto split: outcome.split)
qed

text \<open>with a limit that is not a multiple of the read size, the last full read runs over the end of
  the buffer: the buffer was resized to the limit, but a whole \<open>read_size\<close> is requested.\<close>

theorem read_to_cv_overruns:
  assumes "grants_all M" "cv_wf cv" "ccapacity cv \<le> n" "read_size < n" "n < 2 * read_size"
    "length bs = read_size" "length bs' = read_size"
  shows "read_to_cv M [Read_bytes bs, Read_bytes bs'] cv 0 n = Faults"
proof -
  note buf = cv_wf_read_buf[OF assms(2,3)]
  have ne: "bs \<noteq> []" "bs' \<noteq> []" using assms(6,7) by (auto simp: read_size_def)
  have m: "min (sz (0 + read_size)) n = read_size" "min (sz (read_size + read_size)) n = n"
    using assms(4,5) by (simp_all add: sz_small read_size_def)
  obtain d where d: "snd (cv_resize M cv read_size) = cv\<lparr>cdata := Some d, ccapacity := read_size\<rparr>"
    "length d = read_size"
    using resize_read_buf[OF assms(1) buf, of read_size] assms(4) by (auto simp: read_size_def MINALLOC_def)
  define cv1 where "cv1 = cv\<lparr>ccapacity := read_size, cdata := Some bs\<rparr>"
  have copy: "copy_cells d 0 bs = Some bs" using d(2) assms(6) by (simp add: mem_simps)
  have buf1: "read_buf cv1 n bs"
    using assms(4,6) by (simp add: read_buf_def cv1_def read_size_def MINALLOC_def)
  obtain d' where d': "snd (cv_resize M cv1 n) = cv1\<lparr>cdata := Some d', ccapacity := n\<rparr>"
    "length d' = max MINALLOC n"
    using resize_read_buf[OF assms(1) buf1, of n] assms(4,6) by auto
  have over: "copy_cells d' read_size bs' = None"
    using d'(2) assms(4,5,7) by (simp add: copy_cells_def read_size_def MINALLOC_def max_def)
  have one: "read_to_cv M [Read_bytes bs, Read_bytes bs'] cv 0 n = read_loop M [Read_bytes bs'] cv1 read_size n"
    using d(1) copy ne(1) assms(4,6) m(1)
    by (cases bs) (auto simp: read_to_cv_def Let_def cv1_def)
  show ?thesis
    unfolding one using d'(1) over ne(2) m(2) by (cases bs') (auto simp: Let_def)
qed

theorem read_to_cv_overruns_witness:
  "read_to_cv byte_mgr [Read_bytes (replicate 512 1), Read_bytes (replicate 512 2)] cv8 0 700 = Faults"
  by (rule read_to_cv_overruns) (simp_all add: byte_mgr_grants cv_wf_def cv8_def MINALLOC_def read_size_def)

text \<open>C28: a full write sends the message once, in order: whatever the sizes of the partial sends, the
  kernel accepts a prefix of the message, and a nonnegative result means that it accepted all of it and
  is its length. (After an error the caller cannot tell how much was sent.)\<close>

theorem write_full_raw_correct:
  assumes "sends_ok ws len" "len \<le> length msg" "len < 2 ^ 31"
  shows "(\<exists>k. snd (write_full_raw ws msg len) = take k (take len msg)) \<and>
    (\<forall>r. fst (write_full_raw ws msg len) = Returns r \<longrightarrow>
       r < 0 \<or> r = int len \<and> snd (write_full_raw ws msg len) = take len msg)"
proof -
  have "length (take len msg) = len" using assms(2) by simp
  then show ?thesis using send_loop_ok[of ws "take len msg" 0] assms by (simp add: write_full_raw_def)
qed

theorem write_full_raw_correct_witness:
  "(\<exists>k. snd (write_full_raw [2, 0, 3] [1, 2, 3, 4, 5] 5) = take k (take 5 [1, 2, 3, 4, 5])) \<and>
   (case fst (write_full_raw [2, 0, 3] [1, 2, 3, 4, 5] 5) of Faults \<Rightarrow> True | Running \<Rightarrow> True
    | Returns r \<Rightarrow> r < 0 \<or> r = int 5 \<and> snd (write_full_raw [2, 0, 3] [1, 2, 3, 4, 5] 5) = take 5 [1, 2, 3, 4, 5])"
  using write_full_raw_correct[of "[2, 0, 3]" 5 "[1, 2, 3, 4, 5]"] by (simp split: outcome.split)

end
