(* ===== verification/Telnet.thy ===== *)
theory Telnet
  imports CharVector
begin

text \<open>
  telnet.c: the per-client telnet state machine. Each byte of the input stream is a step; plain bytes go
  to a buffer of limited size, commands change the options or are answered. Answers are written with
  \<open>write_full_raw\<close>, whose result the code ignores: a step yields the messages it sends. \<open>None\<close> is
  undefined behaviour.
\<close>

section \<open>The stream\<close>

abbreviation "IAC \<equiv> (255 :: byte)"
abbreviation "DONT \<equiv> (254 :: byte)"
abbreviation "TEL_DO \<equiv> (253 :: byte)"
abbreviation "WONT \<equiv> (252 :: byte)"
abbreviation "WILL \<equiv> (251 :: byte)"
abbreviation "SB \<equiv> (250 :: byte)"
abbreviation "SE \<equiv> (240 :: byte)"
abbreviation "ECHO \<equiv> (1 :: byte)"
abbreviation "SGA \<equiv> (3 :: byte)"
abbreviation "TT \<equiv> (24 :: byte)"
abbreviation "TS \<equiv> (32 :: byte)"
abbreviation "LM \<equiv> (34 :: byte)"
abbreviation "MCCP2 \<equiv> (86 :: byte)"
abbreviation "MCCP3 \<equiv> (87 :: byte)"

datatype telstate = TELSTATE_INPUT | TELSTATE_IAC | TELSTATE_SB | TELSTATE_SE | TELSTATE_CMD | TELSTATE_ERROR

record telnet_options =
  b_transmit_binary :: bool
  b_echo :: bool
  b_sga :: bool
  b_naws_set :: bool
  b_term_speed_set :: bool
  b_mccp2 :: bool
  b_mccp3 :: bool
  b_termtype_set :: bool
  terminal_type :: "byte list"
  windowsize_rows :: "16 word"
  windowsize_cols :: "16 word"
  terminal_txspeed :: "16 word"
  terminal_rxspeed :: "16 word"

record telnet_stream =
  sb_args :: cv_t
  tel_state :: telstate
  opts :: telnet_options
  last_byte :: byte

section \<open>Commands\<close>

definition GetIs2CmdByte :: "byte \<Rightarrow> bool" where
  "GetIs2CmdByte x \<longleftrightarrow> SE \<le> x \<and> x \<le> 250"

definition Is3ByteCmd :: "byte \<Rightarrow> bool" where
  "Is3ByteCmd x \<longleftrightarrow> 0 \<le> x \<and> x \<le> 140 \<or> (x = 86 \<or> x = 87)"

definition SetTelnetState :: "telnet_stream \<Rightarrow> telstate \<Rightarrow> telnet_stream" where
  "SetTelnetState s newval = s\<lparr>tel_state := newval\<rparr>"

definition Run2ByteCmd :: "telnet_stream \<Rightarrow> byte \<Rightarrow> telnet_stream" where
  "Run2ByteCmd s x = s"

definition MakeTelCmd :: "byte \<Rightarrow> byte \<Rightarrow> byte \<Rightarrow> byte list" where
  "MakeTelCmd a b c = [a, b, c]"

definition Run3ByteCmd :: "telnet_stream \<Rightarrow> byte \<Rightarrow> telnet_stream \<times> byte list list" where
  "Run3ByteCmd s x =
     (let last = last_byte s in
      if x = TS then (s, [[IAC, SB, TS, ECHO, IAC, SE]])
      else if x = TT then (s, [[IAC, SB, TT, ECHO, IAC, SE]])
      else if x = MCCP2 then
        (if last = TEL_DO then (s\<lparr>opts := (opts s)\<lparr>b_mccp2 := True\<rparr>\<rparr>, [[IAC, SB, MCCP2, IAC, SE]])
         else (s, []))
      else if x = MCCP3 then (s, [])
      else if x = ECHO then
        (if last = TEL_DO then (s\<lparr>opts := (opts s)\<lparr>b_echo := True\<rparr>\<rparr>, []) else (s, []))
      else if x = LM then (s, [])
      else if x = SGA then
        (if last = TEL_DO then (s\<lparr>opts := (opts s)\<lparr>b_sga := True\<rparr>\<rparr>, [])
         else if last = DONT then (s\<lparr>opts := (opts s)\<lparr>b_sga := False\<rparr>\<rparr>, [])
         else (s, []))
      else if last = TEL_DO \<or> last = WILL
        then (s, [MakeTelCmd IAC (if last = TEL_DO then WONT else DONT) x])
      else (s, []))"

text \<open>
  The terminal speed answer: \<open>data[2]\<close> onwards is copied to a buffer of 42 bytes and split at the comma
  into two numbers. The lengths are \<open>size_t\<close>, so \<open>len - 2\<close> wraps for a shorter subnegotiation.
\<close>

definition run_terminal_speed :: "telnet_options \<Rightarrow> byte list \<Rightarrow> nat \<Rightarrow> telnet_options option" where
  "run_terminal_speed op data len = do {
     tsinfo \<leftarrow> c_strncpy (replicate 42 0) (drop 2 data) (min (sz_sub len 2) 41);
     case first_idx (\<lambda>b. b = 44) tsinfo of
       None \<Rightarrow> Some op
     | Some divider \<Rightarrow> do {
         txstr \<leftarrow> c_strncpy (replicate 32 0) tsinfo divider;
         rxstr \<leftarrow> c_strncpy (replicate 32 0) (drop (divider + 1) tsinfo) (min (sz_sub len 1) 41);
         _ \<leftarrow> c_strlen txstr;
         _ \<leftarrow> c_strlen rxstr;
         Some (op\<lparr>terminal_txspeed := word_of_nat (c_strtoul (cstr txstr)),
                  terminal_rxspeed := word_of_nat (c_strtoul (cstr rxstr))\<rparr>)
       }
   }"

definition RunSubnegotiationCmd :: "telnet_stream \<Rightarrow> telnet_stream option" where
  "RunSubnegotiationCmd s =
     (let len = clength (sb_args s); data = cells (cdata (sb_args s)) in
      if 0 < len then do {
        c \<leftarrow> rd data 0;
        if c = TS then do {
          op \<leftarrow> run_terminal_speed (opts s) data len;
          Some (s\<lparr>opts := op\<rparr>)
        }
        else if c = TT then do {
          tt \<leftarrow> c_strncpy (terminal_type (opts s)) (drop 2 data) (max (sz_sub len 2) 41);
          Some (s\<lparr>opts := (opts s)\<lparr>terminal_type := tt\<rparr>\<rparr>)
        }
        else if c = MCCP3 then Some (s\<lparr>opts := (opts s)\<lparr>b_mccp3 := True\<rparr>\<rparr>)
        else Some s
      }
      else Some s)"

definition TelnetStream_SendPreamble :: "byte list" where
  "TelnetStream_SendPreamble =
     [IAC, TEL_DO, TS, IAC, TEL_DO, TT, IAC, WONT, ECHO, IAC, WONT, SGA, IAC, WILL, MCCP2, IAC, WILL, MCCP3]"

section \<open>One byte\<close>

definition step_state :: "telnet_stream \<Rightarrow> byte \<Rightarrow> cv_t \<Rightarrow> (telnet_stream \<times> cv_t \<times> byte list list) option" where
  "step_state s x dump =
     (case tel_state s of
        TELSTATE_INPUT \<Rightarrow>
          if x = IAC then Some (SetTelnetState s TELSTATE_IAC, dump, [])
          else do {
            (r, dump) \<leftarrow> cv_pushlimited x dump;
            Some (if r < 0 then SetTelnetState s TELSTATE_ERROR else s, dump, [])
          }
      | TELSTATE_IAC \<Rightarrow>
          if SB = x then do {
            args \<leftarrow> cv_clear (sb_args s);
            Some ((SetTelnetState s TELSTATE_SB)\<lparr>sb_args := args\<rparr>, dump, [])
          }
          else if \<not> GetIs2CmdByte x then Some (SetTelnetState s TELSTATE_CMD, dump, [])
          else Some (SetTelnetState (Run2ByteCmd s x) TELSTATE_INPUT, dump, [])
      | TELSTATE_SB \<Rightarrow>
          if IAC = x then Some (SetTelnetState s TELSTATE_SE, dump, [])
          else do {
            (r, args) \<leftarrow> cv_pushlimited x (sb_args s);
            let s = s\<lparr>sb_args := args\<rparr>;
            Some (if r < 0 then SetTelnetState s TELSTATE_ERROR else s, dump, [])
          }
      | TELSTATE_SE \<Rightarrow>
          if SE = x then do {
            s \<leftarrow> RunSubnegotiationCmd s;
            Some (SetTelnetState s TELSTATE_INPUT, dump, [])
          }
          else Some (SetTelnetState s TELSTATE_ERROR, dump, [])
      | TELSTATE_CMD \<Rightarrow>
          if Is3ByteCmd x then
            (case Run3ByteCmd s x of (s, out) \<Rightarrow> Some (SetTelnetState s TELSTATE_INPUT, dump, out))
          else Some (SetTelnetState s TELSTATE_ERROR, dump, [])
      | TELSTATE_ERROR \<Rightarrow> Some (s, dump, []))"

text \<open>The result is the return value (the stream is in the midst of something), the new stream, the
  buffer of plain characters and the messages sent.\<close>

definition TelnetStream_ProcessByte ::
    "telnet_stream \<Rightarrow> byte \<Rightarrow> cv_t \<Rightarrow> (bool \<times> telnet_stream \<times> cv_t \<times> byte list list) option" where
  "TelnetStream_ProcessByte s x dump = do {
     (s, dump, out) \<leftarrow> step_state s x dump;
     let s = s\<lparr>last_byte := x\<rparr>;
     Some (tel_state s \<noteq> TELSTATE_INPUT, s, dump, out)
   }"

fun process_bytes :: "telnet_stream \<Rightarrow> byte list \<Rightarrow> cv_t \<Rightarrow> (telnet_stream \<times> cv_t \<times> byte list list) option" where
  "process_bytes s [] dump = Some (s, dump, [])"
| "process_bytes s (x # xs) dump = do {
     (_, s, dump, out) \<leftarrow> TelnetStream_ProcessByte s x dump;
     (s, dump, out') \<leftarrow> process_bytes s xs dump;
     Some (s, dump, out @ out')
   }"

section \<open>The command names\<close>

definition some_names :: "string list \<Rightarrow> string option list" where
  "some_names = map Some"

definition telcodenames :: "string option list" where
  "telcodenames =
     some_names [''TB'', ''ECHO'', ''RECON'', ''SGA'', ''AMSN'', ''STAT'', ''TM'', ''RCTE'', ''OLW'', ''OPS'',
       ''NAOCRD'', ''NAOHT'', ''NAOHTD'', ''NAOFD'', ''NAVT'', ''NAOVTD'', ''NAOLD'', ''EA'', ''LOGOUT'',
       ''BM'', ''DET'', ''SUPDUP'', ''SUPDUPO'', ''SL'', ''TT'', ''EOR'', ''TACACSUI'', ''OM'', ''TTYLOC'',
       ''T3270'', ''X3'', ''NAWS'', ''TS'', ''RFC'', ''LM'', ''XDL'', ''ENV'', ''AUTH'', ''EO'', ''NE'',
       ''TN3270E'', ''XAUTH'', ''CHARSET'', ''RSP'', ''CPC'', ''TSLE'', ''TLS'', ''KERMIT'', ''SENDURL'',
       ''FORWARDX'']
     @ replicate 10 None @ [Some ''TEST''] @ replicate 25 None @ some_names [''MCCP2'', ''MCCP3'']
     @ replicate 50 None @ some_names [''PRAGMA'', ''SSPI'', ''PRAGMAHB''] @ replicate 99 None
     @ some_names [''SE'', ''NOP'', ''DM'', ''BRK'', ''IP'', ''AO'', ''AYT'', ''EC'', ''EL'', ''GA'', ''SB'',
       ''WILL'', ''WONT'', ''DO'', ''DONT'', ''IAC'']"

definition Telnet_DBG_GetTelcodeName :: "byte \<Rightarrow> string" where
  "Telnet_DBG_GetTelcodeName code =
     (case telcodenames ! unat code of Some name \<Rightarrow> name | None \<Rightarrow> ''UNKNOWN'')"

lemma length_telcodenames: "length telcodenames = 256"
  by (simp add: telcodenames_def some_names_def)

lemma process_bytes_append:
  "process_bytes s (xs @ ys) dump = do {
     (s1, dump1, out1) \<leftarrow> process_bytes s xs dump;
     (s2, dump2, out2) \<leftarrow> process_bytes s1 ys dump1;
     Some (s2, dump2, out1 @ out2)
   }"
  by (induction xs arbitrary: s dump) (auto split: bind_splits simp: bind_assoc)

section \<open>The invariant\<close>

text \<open>
  The argument buffer was made by \<open>cv_init\<close> with 32 bytes and cleared at the start of every
  subnegotiation: behind the arguments it holds zeros.
\<close>

definition sb_wf :: "cv_t \<Rightarrow> bool" where
  "sb_wf cv \<longleftrightarrow> cv_wf cv \<and> ccapacity cv = 32 \<and>
     cells (cdata cv) = cv_bytes cv @ replicate (32 - clength cv) 0"

definition tel_wf :: "telnet_stream \<Rightarrow> bool" where
  "tel_wf s \<longleftrightarrow> sb_wf (sb_args s) \<and> length (terminal_type (opts s)) = 42"

lemma sb_wf_length: "sb_wf cv \<Longrightarrow> length (cells (cdata cv)) = 32 \<and> length (cv_bytes cv) = clength cv \<and> clength cv \<le> 32"
  by (auto simp: sb_wf_def length_cv_bytes) (auto simp: cv_wf_def MINALLOC_def)

lemma sb_push:
  assumes wf: "sb_wf cv"
  shows "\<exists>cv'. cv_pushlimited x cv = Some (if clength cv < 32 then 0 else -1, cv') \<and> sb_wf cv' \<and>
    (if clength cv < 32 then cv_bytes cv' = cv_bytes cv @ [x] \<and> clength cv' = clength cv + 1 else cv' = cv)"
proof -
  note len = sb_wf_length[OF wf]
  from wf have "cv_wf cv" and cap: "ccapacity cv = 32" by (auto simp: sb_wf_def)
  from cv_pushlimited_ok[OF this(1), of x] cap obtain cv' where
    push: "cv_pushlimited x cv = Some (if clength cv < 32 then 0 else -1, cv')" "cv_wf cv'" "ccapacity cv' = 32"
    and res: "if clength cv < 32
     then cv_bytes cv' = cv_bytes cv @ [x] \<and> clength cv' = clength cv + 1 \<and>
       cells (cdata cv') = (cells (cdata cv))[clength cv := x]
     else cv' = cv" by auto
  have "sb_wf cv'"
  proof (cases "clength cv < 32")
    case True
    then have "replicate (32 - clength cv) (0 :: byte) = 0 # replicate (32 - clength cv - 1) 0"
      by (cases "32 - clength cv") auto
    then have "(cv_bytes cv @ replicate (32 - clength cv) 0)[clength cv := x]
        = (cv_bytes cv @ [x]) @ replicate (32 - (clength cv + 1)) 0"
      using len by (simp add: list_update_append)
    then show ?thesis using True wf push res by (simp add: sb_wf_def)
  qed (use res wf in simp)
  then show ?thesis using push(1) res by (auto split: if_splits)
qed

lemma sb_clear:
  assumes "sb_wf cv"
  shows "\<exists>cv'. cv_clear cv = Some cv' \<and> sb_wf cv' \<and> cv_bytes cv' = [] \<and> clength cv' = 0"
proof -
  obtain cv' where cv': "cv_clear cv = Some cv'" "cv_wf cv'" "cv_bytes cv' = []" "ccapacity cv' = 32"
    "clength cv' = 0" "take 32 (cells (cdata cv')) = replicate 32 0"
    using cv_clear_ok[of cv] assms by (auto simp: sb_wf_def)
  moreover have "length (cells (cdata cv')) = 32"
    using cv'(2,4) by (auto simp: cv_wf_def MINALLOC_def)
  ultimately show ?thesis by (auto simp: sb_wf_def)
qed

text \<open>The terminal speed never leaves its buffers.\<close>

lemma run_terminal_speed_ok:
  assumes len: "0 < n" "n \<le> 32" and data: "length data = 32" "drop n data = replicate (32 - n) 0"
  shows "\<exists>op'. run_terminal_speed op data n = Some op' \<and> terminal_type op' = terminal_type op"
proof -
  let ?k = "min (sz_sub n 2) 41"
  have k: "?k \<le> 41" by simp
  have src: "?k \<le> length (drop 2 data) \<or> terminated (drop 2 data)"
  proof (cases "n = 1")
    case True
    then have "drop 2 data = replicate 30 0" using data(2) drop_drop[of 1 1 data]
      by (simp add: numeral_2_eq_2[symmetric] drop_replicate)
    then show ?thesis by (simp add: terminated_def)
  next
    case False
    then have "sz_sub n 2 = n - 2" using len by (intro sz_sub_le) simp_all
    then show ?thesis using len data(1) by (simp add: le_diff_conv)
  qed
  define cs where "cs = cstr (take ?k (drop 2 data))"
  define tsinfo where "tsinfo = cs @ replicate (42 - length cs) 0"
  have cs: "length cs \<le> 30" "0 \<notin> set cs"
    using length_cstr_le[of "take ?k (drop 2 data)"] data(1) cstr_no_zero by (simp_all add: cs_def)
  have "length cs \<le> ?k" using length_cstr_le[of "take ?k (drop 2 data)"] by (simp add: cs_def)
  then have ts: "c_strncpy (replicate 42 0) (drop 2 data) ?k = Some tsinfo"
    using c_strncpy_ok[of ?k "replicate 42 0" "drop 2 data"] k src
    by (simp add: tsinfo_def cs_def replicate_add[symmetric])
  show ?thesis
  proof (cases "first_idx (\<lambda>b. b = 44) tsinfo")
    case None
    then show ?thesis using ts by (simp add: run_terminal_speed_def)
  next
    case (Some d)
    have d: "d < length cs"
    proof (rule ccontr)
      assume "\<not> d < length cs"
      moreover have "d < length tsinfo" "tsinfo ! d = 44" using Some by (auto simp: first_idx_Some)
      ultimately show False by (auto simp: tsinfo_def nth_append)
    qed
    have lts: "length tsinfo = 42" using cs by (simp add: tsinfo_def)
    have tx: "c_strncpy (replicate 32 0) tsinfo d
        = Some (cstr (take d tsinfo) @ replicate (d - length (cstr (take d tsinfo))) 0 @ replicate (32 - d) 0)"
      using c_strncpy_ok[of d "replicate 32 0" tsinfo] d cs(1) lts by simp
    have "0 \<in> set (drop (d + 1) tsinfo)"
      using d cs(1) by (auto simp: tsinfo_def)
    moreover have n1: "min (sz_sub n 1) 41 \<le> 31" using len by (simp add: sz_sub_le)
    ultimately have rx: "c_strncpy (replicate 32 0) (drop (d + 1) tsinfo) (min (sz_sub n 1) 41)
        = Some (cstr (take (min (sz_sub n 1) 41) (drop (d + 1) tsinfo)) @
            replicate (min (sz_sub n 1) 41 - length (cstr (take (min (sz_sub n 1) 41) (drop (d + 1) tsinfo)))) 0 @
            replicate (32 - min (sz_sub n 1) 41) 0)"
      using c_strncpy_ok[of "min (sz_sub n 1) 41" "replicate 32 0" "drop (d + 1) tsinfo"]
      by (simp add: terminated_def)
    have "terminated (cstr (take d tsinfo) @ replicate (d - length (cstr (take d tsinfo))) 0 @ replicate (32 - d) 0)"
      using d cs(1) by (simp add: terminated_def)
    moreover have "terminated (ys @ zs @ replicate (32 - min (sz_sub n 1) 41) 0)" for ys zs
      using n1 by (simp add: terminated_def)
    ultimately show ?thesis
      using ts Some tx rx by (simp add: run_terminal_speed_def c_strlen_ok)
  qed
qed

text \<open>
  The two inputs the terminal type handler is not written for: a subnegotiation of the option byte
  alone (\<open>len - 2\<close> wraps), and a full argument buffer without a terminator.
\<close>

definition tt_hazard :: "byte list \<Rightarrow> bool" where
  "tt_hazard args \<longleftrightarrow> args \<noteq> [] \<and> hd args = TT \<and>
     (length args = 1 \<or> length args = 32 \<and> 0 \<notin> set (drop 2 args))"

lemma RunSubnegotiationCmd_ok:
  assumes wf: "tel_wf s"
  shows "(RunSubnegotiationCmd s = None \<longleftrightarrow> tt_hazard (cv_bytes (sb_args s))) \<and>
    (\<forall>s'. RunSubnegotiationCmd s = Some s' \<longrightarrow>
       tel_wf s' \<and> sb_args s' = sb_args s \<and> tel_state s' = tel_state s)"
proof -
  let ?cv = "sb_args s" and ?n = "clength (sb_args s)" and ?d = "cells (cdata (sb_args s))"
  have sb: "sb_wf ?cv" "length (terminal_type (opts s)) = 42" using wf by (auto simp: tel_wf_def)
  note len = sb_wf_length[OF sb(1)]
  have d: "?d = cv_bytes ?cv @ replicate (32 - ?n) 0" using sb(1) by (simp add: sb_wf_def)
  show ?thesis
  proof (cases "?n = 0")
    case True
    then show ?thesis using wf len by (simp add: RunSubnegotiationCmd_def tt_hazard_def)
  next
    case False
    then obtain c cs where args: "cv_bytes ?cv = c # cs" using len by (cases "cv_bytes ?cv") auto
    have c: "rd ?d 0 = Some c" using d args by (simp add: rd_def)
    consider (ts) "c = TS" | (tt) "c = TT" | (other) "c \<noteq> TS" "c \<noteq> TT" by blast
    then show ?thesis
    proof cases
      case ts
      obtain op' where "run_terminal_speed (opts s) ?d ?n = Some op'" "terminal_type op' = terminal_type (opts s)"
        using run_terminal_speed_ok[of ?n ?d "opts s"] False len d by auto
      then show ?thesis
        using ts c args False wf by (auto simp: RunSubnegotiationCmd_def tt_hazard_def tel_wf_def)
    next
      case tt
      have drop: "drop 2 ?d = drop 2 (cv_bytes ?cv) @ replicate (30 - (?n - 2)) 0 \<and> ?n \<ge> 2 \<or> ?n = 1"
        using d len False by (auto simp: drop_replicate)
      show ?thesis
      proof (cases "?n = 1")
        case True
        then have "max (sz_sub ?n 2) 41 = 2 ^ 64 - 1" by (simp add: sz_sub_def)
        then have "c_strncpy (terminal_type (opts s)) (drop 2 ?d) (max (sz_sub ?n 2) 41) = None"
          using sb(2) by (simp add: c_strncpy_def)
        then show ?thesis
          using True tt c args len by (simp add: RunSubnegotiationCmd_def tt_hazard_def Let_def)
      next
        case False
        with drop have dr: "drop 2 ?d = drop 2 (cv_bytes ?cv) @ replicate (32 - ?n) 0" "2 \<le> ?n"
          using len by auto
        have m: "max (sz_sub ?n 2) 41 = 41" using dr(2) len by (simp add: sz_sub_le max_absorb2 le_diff_conv)
        have len30: "length (drop 2 ?d) = 30" using len by simp
        have haz: "tt_hazard (cv_bytes ?cv) \<longleftrightarrow> \<not> terminated (drop 2 ?d)"
          using dr len args tt by (auto simp: tt_hazard_def terminated_def)
        show ?thesis
        proof (cases "terminated (drop 2 ?d)")
          case True
          then show ?thesis
            using c_strncpy_ok[of 41 "terminal_type (opts s)" "drop 2 ?d"] sb tt c args m haz wf False len
              length_cstr_le[of "take 41 (drop 2 ?d)"]
            by (auto simp: RunSubnegotiationCmd_def tel_wf_def Let_def)
        next
          case nt: False
          have "c_chars (drop 2 ?d) 41 = None"
            using nt len30 c_chars_None by simp
          then show ?thesis
            using sb tt c args m haz nt len by (auto simp: RunSubnegotiationCmd_def c_strncpy_def Let_def)
        qed
      qed
    next
      case other
      then show ?thesis
        using c args False wf by (auto simp: RunSubnegotiationCmd_def tt_hazard_def tel_wf_def)
    qed
  qed
qed

lemma Run3ByteCmd_keeps:
  "Run3ByteCmd s x = (s', out) \<Longrightarrow> sb_args s' = sb_args s \<and> terminal_type (opts s') = terminal_type (opts s)"
  by (auto simp: Run3ByteCmd_def Let_def split: if_splits)

text \<open>A step faults in one case only, and otherwise keeps the invariant.\<close>

definition step_hazard :: "telnet_stream \<Rightarrow> byte \<Rightarrow> bool" where
  "step_hazard s x \<longleftrightarrow> tel_state s = TELSTATE_SE \<and> x = SE \<and> tt_hazard (cv_bytes (sb_args s))"

lemma step_state_ok:
  assumes wf: "tel_wf s" and dump: "cv_wf dump"
  shows "(step_state s x dump = None \<longleftrightarrow> step_hazard s x) \<and>
    (\<forall>s' dump' out. step_state s x dump = Some (s', dump', out) \<longrightarrow> tel_wf s' \<and> cv_wf dump')"
proof (cases "tel_state s")
  case TELSTATE_INPUT
  obtain r dump' where "cv_pushlimited x dump = Some (r, dump')" "cv_wf dump'"
    using cv_pushlimited_ok[OF dump, of x] by blast
  then show ?thesis
    using TELSTATE_INPUT wf dump by (simp add: step_state_def step_hazard_def SetTelnetState_def tel_wf_def)
next
  case TELSTATE_IAC
  obtain args where "cv_clear (sb_args s) = Some args" "sb_wf args"
    using sb_clear[of "sb_args s"] wf by (auto simp: tel_wf_def)
  then show ?thesis
    using TELSTATE_IAC wf dump
    by (simp add: step_state_def step_hazard_def SetTelnetState_def Run2ByteCmd_def tel_wf_def)
next
  case TELSTATE_SB
  obtain r args where "cv_pushlimited x (sb_args s) = Some (r, args)" "sb_wf args"
    using sb_push[of "sb_args s" x] wf by (auto simp: tel_wf_def)
  then show ?thesis
    using TELSTATE_SB wf dump
    by (simp add: step_state_def step_hazard_def SetTelnetState_def tel_wf_def Let_def)
next
  case TELSTATE_SE
  have none: "RunSubnegotiationCmd s = None \<longleftrightarrow> tt_hazard (cv_bytes (sb_args s))"
    and some: "\<And>s'. RunSubnegotiationCmd s = Some s' \<Longrightarrow> tel_wf s'"
    using RunSubnegotiationCmd_ok[OF wf] by blast+
  show ?thesis
  proof (cases "RunSubnegotiationCmd s")
    case None
    then have "tt_hazard (cv_bytes (sb_args s))" using none by blast
    then show ?thesis
      using TELSTATE_SE None wf dump by (simp add: step_state_def step_hazard_def SetTelnetState_def tel_wf_def)
  next
    case (Some s')
    then have "tel_wf s'" "\<not> tt_hazard (cv_bytes (sb_args s))" using none some by simp_all
    then show ?thesis
      using TELSTATE_SE Some wf dump by (simp add: step_state_def step_hazard_def SetTelnetState_def tel_wf_def)
  qed
next
  case TELSTATE_CMD
  obtain s' out where r: "Run3ByteCmd s x = (s', out)" by fastforce
  then show ?thesis
    using TELSTATE_CMD Run3ByteCmd_keeps[OF r] wf dump
    by (simp add: step_state_def step_hazard_def SetTelnetState_def tel_wf_def)
next
  case TELSTATE_ERROR
  then show ?thesis using wf dump by (simp add: step_state_def step_hazard_def)
qed

lemma ProcessByte_ok:
  assumes "tel_wf s" "cv_wf dump"
  shows "(TelnetStream_ProcessByte s x dump = None \<longleftrightarrow> step_hazard s x) \<and>
    (\<forall>r s' dump' out. TelnetStream_ProcessByte s x dump = Some (r, s', dump', out) \<longrightarrow>
       tel_wf s' \<and> cv_wf dump')"
proof (cases "step_state s x dump")
  case None
  then show ?thesis using step_state_ok[OF assms, of x] by (simp add: TelnetStream_ProcessByte_def)
next
  case (Some r)
  obtain s' dump' out where r: "r = (s', dump', out)" by (cases r) auto
  have "tel_wf s'" "cv_wf dump'" "\<not> step_hazard s x" using step_state_ok[OF assms, of x] Some r by auto
  then show ?thesis using Some r by (simp add: TelnetStream_ProcessByte_def tel_wf_def Let_def)
qed

lemma process_error:
  "tel_state s = TELSTATE_ERROR \<Longrightarrow>
   \<exists>s'. process_bytes s xs dump = Some (s', dump, []) \<and> tel_state s' = TELSTATE_ERROR \<and> opts s' = opts s"
proof (induction xs arbitrary: s)
  case (Cons x xs)
  then show ?case
    using Cons.IH[of "s\<lparr>last_byte := x\<rparr>"]
    by (auto simp: TelnetStream_ProcessByte_def step_state_def Let_def)
qed simp

section \<open>Streams of commands and text\<close>

text \<open>What a client may send: plain characters, two- and three-byte commands, subnegotiations.\<close>

datatype tel_token = Plain byte | Cmd2 byte | Cmd3 byte byte | Sub "byte list"

fun encode :: "tel_token \<Rightarrow> byte list" where
  "encode (Plain b) = [b]"
| "encode (Cmd2 c) = [IAC, c]"
| "encode (Cmd3 c x) = [IAC, c, x]"
| "encode (Sub args) = [IAC, SB] @ args @ [IAC, SE]"

fun legal :: "tel_token \<Rightarrow> bool" where
  "legal (Plain b) \<longleftrightarrow> b \<noteq> IAC"
| "legal (Cmd2 c) \<longleftrightarrow> GetIs2CmdByte c \<and> c \<noteq> SB"
| "legal (Cmd3 c x) \<longleftrightarrow> \<not> GetIs2CmdByte c \<and> Is3ByteCmd x"
| "legal (Sub args) \<longleftrightarrow> IAC \<notin> set args \<and> length args \<le> 32 \<and> \<not> tt_hazard args"

fun plain_of :: "tel_token \<Rightarrow> byte list" where
  "plain_of (Plain b) = [b]"
| "plain_of _ = []"

lemma process_args:
  "sb_wf (sb_args s) \<Longrightarrow> length (terminal_type (opts s)) = 42 \<Longrightarrow> tel_state s = TELSTATE_SB \<Longrightarrow>
   IAC \<notin> set args \<Longrightarrow> clength (sb_args s) + length args \<le> 32 \<Longrightarrow>
   \<exists>s'. process_bytes s args dump = Some (s', dump, []) \<and> tel_wf s' \<and> tel_state s' = TELSTATE_SB \<and>
     cv_bytes (sb_args s') = cv_bytes (sb_args s) @ args \<and> opts s' = opts s"
proof (induction args arbitrary: s)
  case Nil
  then show ?case by (simp add: tel_wf_def)
next
  case (Cons x args)
  obtain cv' where cv': "cv_pushlimited x (sb_args s) = Some (0, cv')" "sb_wf cv'"
    "cv_bytes cv' = cv_bytes (sb_args s) @ [x]" "clength cv' = clength (sb_args s) + 1"
    using sb_push[OF Cons.prems(1), of x] Cons.prems(5) by auto
  then show ?case
    using Cons.prems Cons.IH[of "s\<lparr>sb_args := cv', last_byte := x\<rparr>"]
    by (auto simp: TelnetStream_ProcessByte_def step_state_def Let_def SetTelnetState_def)
qed

lemma process_token:
  assumes wf: "tel_wf s" and st: "tel_state s = TELSTATE_INPUT" and dump: "cv_wf dump"
    and ok: "legal t" and room: "clength dump + length (plain_of t) \<le> ccapacity dump"
  shows "\<exists>s' dump' out. process_bytes s (encode t) dump = Some (s', dump', out) \<and> tel_wf s' \<and>
    tel_state s' = TELSTATE_INPUT \<and> cv_wf dump' \<and> cv_bytes dump' = cv_bytes dump @ plain_of t \<and>
    clength dump' = clength dump + length (plain_of t) \<and> ccapacity dump' = ccapacity dump"
proof (cases t)
  case (Plain b)
  obtain dump' where "cv_pushlimited b dump = Some (0, dump')" "cv_wf dump'" "ccapacity dump' = ccapacity dump"
    "cv_bytes dump' = cv_bytes dump @ [b]" "clength dump' = clength dump + 1"
    using cv_pushlimited_ok[OF dump, of b] room Plain by auto
  then show ?thesis
    using Plain ok st wf by (auto simp: TelnetStream_ProcessByte_def step_state_def Let_def tel_wf_def)
next
  case (Cmd2 c)
  then show ?thesis
    using ok st wf dump
    by (auto simp: TelnetStream_ProcessByte_def step_state_def Let_def tel_wf_def SetTelnetState_def Run2ByteCmd_def)
next
  case (Cmd3 c x)
  have c: "c \<noteq> SB" using ok Cmd3 by (auto simp: GetIs2CmdByte_def)
  obtain s' out where r: "Run3ByteCmd (s\<lparr>tel_state := TELSTATE_CMD, last_byte := c\<rparr>) x = (s', out)" by fastforce
  show ?thesis
    using Cmd3 c ok st wf dump r Run3ByteCmd_keeps[OF r]
    by (auto simp: TelnetStream_ProcessByte_def step_state_def Let_def tel_wf_def SetTelnetState_def)
next
  case (Sub args)
  obtain cv' where cv': "cv_clear (sb_args s) = Some cv'" "sb_wf cv'" "cv_bytes cv' = []" "clength cv' = 0"
    using sb_clear[of "sb_args s"] wf by (auto simp: tel_wf_def)
  define s1 where "s1 = s\<lparr>tel_state := TELSTATE_SB, last_byte := SB, sb_args := cv'\<rparr>"
  have start: "process_bytes s [IAC, SB] dump = Some (s1, dump, [])"
    using st cv'(1) by (simp add: TelnetStream_ProcessByte_def step_state_def Let_def SetTelnetState_def s1_def)
  obtain s2 where s2: "process_bytes s1 args dump = Some (s2, dump, [])" "tel_wf s2" "tel_state s2 = TELSTATE_SB"
    "cv_bytes (sb_args s2) = args"
    using process_args[of s1 args dump] cv' ok Sub wf by (auto simp: s1_def tel_wf_def)
  define s3 where "s3 = s2\<lparr>tel_state := TELSTATE_SE, last_byte := IAC\<rparr>"
  have "tel_wf s3" using s2(2) by (simp add: s3_def tel_wf_def)
  moreover have "\<not> tt_hazard (cv_bytes (sb_args s3))" using s2(4) ok Sub by (simp add: s3_def)
  ultimately obtain s4 where s4: "RunSubnegotiationCmd s3 = Some s4" "tel_wf s4"
    using RunSubnegotiationCmd_ok[of s3] by auto
  have "process_bytes s2 [IAC, SE] dump
      = Some (s4\<lparr>tel_state := TELSTATE_INPUT, last_byte := SE\<rparr>, dump, [])"
    using s2(3) s4(1) by (simp add: TelnetStream_ProcessByte_def step_state_def Let_def SetTelnetState_def s3_def)
  moreover have "encode t = [IAC, SB] @ (args @ [IAC, SE])" using Sub by simp
  ultimately show ?thesis
    using start s2(1) s4(2) dump Sub
    unfolding process_bytes_append by (simp only: process_bytes_append) (auto simp: tel_wf_def)
qed

lemma process_tokens:
  "tel_wf s \<Longrightarrow> tel_state s = TELSTATE_INPUT \<Longrightarrow> cv_wf dump \<Longrightarrow> \<forall>t \<in> set ts. legal t \<Longrightarrow>
   clength dump + length (concat (map plain_of ts)) \<le> ccapacity dump \<Longrightarrow>
   \<exists>s' dump' out. process_bytes s (concat (map encode ts)) dump = Some (s', dump', out) \<and>
     tel_state s' = TELSTATE_INPUT \<and> tel_wf s' \<and> cv_bytes dump' = cv_bytes dump @ concat (map plain_of ts)"
proof (induction ts arbitrary: s dump)
  case (Cons t ts)
  obtain s1 dump1 out1 where 1: "process_bytes s (encode t) dump = Some (s1, dump1, out1)" "tel_wf s1"
    "tel_state s1 = TELSTATE_INPUT" "cv_wf dump1" "cv_bytes dump1 = cv_bytes dump @ plain_of t"
    "clength dump1 = clength dump + length (plain_of t)" "ccapacity dump1 = ccapacity dump"
    using process_token[OF Cons.prems(1,2,3), of t] Cons.prems(4,5) by auto
  obtain s2 dump2 out2 where "process_bytes s1 (concat (map encode ts)) dump1 = Some (s2, dump2, out2)"
    "tel_state s2 = TELSTATE_INPUT" "tel_wf s2" "cv_bytes dump2 = cv_bytes dump1 @ concat (map plain_of ts)"
    using Cons.IH[OF 1(2,3,4)] Cons.prems(4,5) 1(6,7) by auto
  with 1 show ?case by (simp add: process_bytes_append)
qed auto

section \<open>Properties\<close>

definition fresh_options :: telnet_options where
  "fresh_options = \<lparr>b_transmit_binary = False, b_echo = False, b_sga = False, b_naws_set = False,
     b_term_speed_set = False, b_mccp2 = False, b_mccp3 = False, b_termtype_set = False,
     terminal_type = replicate 42 0, windowsize_rows = 0, windowsize_cols = 0,
     terminal_txspeed = 0, terminal_rxspeed = 0\<rparr>"

definition fresh_stream :: telnet_stream where
  "fresh_stream = \<lparr>sb_args = \<lparr>cdata = Some (replicate 32 0), clength = 0, ccapacity = 32\<rparr>,
     tel_state = TELSTATE_INPUT, opts = fresh_options, last_byte = 0\<rparr>"

definition fresh_dump :: cv_t where
  "fresh_dump = \<lparr>cdata = Some (replicate 128 0), clength = 0, ccapacity = 128\<rparr>"

lemma fresh_wf: "tel_wf fresh_stream" "tel_state fresh_stream = TELSTATE_INPUT" "cv_wf fresh_dump"
  by (simp_all add: tel_wf_def sb_wf_def cv_wf_def fresh_stream_def fresh_options_def fresh_dump_def
      cv_bytes_def MINALLOC_def)



text \<open>C29: where the machine can fault: for any reachable buffer contents and any byte, processing the byte
  is undefined behaviour exactly when it ends a terminal type subnegotiation that consists of the option
  byte alone or fills the argument buffer without a terminator; every other byte keeps the invariant.\<close>

theorem telnet_faults_exactly:
  assumes "tel_wf s" "cv_wf dump"
  shows "(TelnetStream_ProcessByte s x dump = None \<longleftrightarrow>
      tel_state s = TELSTATE_SE \<and> x = SE \<and> tt_hazard (cv_bytes (sb_args s))) \<and>
    (\<forall>r s' dump' out. TelnetStream_ProcessByte s x dump = Some (r, s', dump', out) \<longrightarrow>
       tel_wf s' \<and> cv_wf dump')"
  using ProcessByte_ok[OF assms, of x] by (simp add: step_hazard_def)

theorem telnet_faults_exactly_witness:
  "(TelnetStream_ProcessByte fresh_stream 65 fresh_dump = None \<longleftrightarrow>
      tel_state fresh_stream = TELSTATE_SE \<and> (65 :: byte) = SE \<and> tt_hazard (cv_bytes (sb_args fresh_stream))) \<and>
    (case TelnetStream_ProcessByte fresh_stream 65 fresh_dump of None \<Rightarrow> True
     | Some (r, s', dump', out) \<Rightarrow> tel_wf s' \<and> cv_wf dump')"
  using telnet_faults_exactly[of fresh_stream fresh_dump 65] by (simp add: fresh_wf split: option.split)

text \<open>a remote crash: after a connection in any well-formed state, the five bytes of an empty terminal
  type answer make \<open>strncpy\<close> pad the terminal name with \<open>2 ^ 64 - 1\<close> bytes.\<close>

theorem telnet_empty_terminal_type_crashes:
  assumes "tel_wf s" "tel_state s = TELSTATE_INPUT"
  shows "process_bytes s [IAC, SB, TT, IAC, SE] dump = None"
proof -
  obtain cv where cv: "cv_clear (sb_args s) = Some cv" "sb_wf cv" "cv_bytes cv = []" "clength cv = 0"
    using sb_clear[of "sb_args s"] assms by (auto simp: tel_wf_def)
  obtain cv' where cv': "cv_pushlimited TT cv = Some (0, cv')" "sb_wf cv'" "cv_bytes cv' = [TT]" "clength cv' = 1"
    using sb_push[OF cv(2), of TT] cv(3,4) by auto
  have "RunSubnegotiationCmd (s\<lparr>sb_args := cv', tel_state := TELSTATE_SE, last_byte := IAC\<rparr>) = None"
    using RunSubnegotiationCmd_ok[of "s\<lparr>sb_args := cv', tel_state := TELSTATE_SE, last_byte := IAC\<rparr>"]
      cv' assms(1) by (simp add: tel_wf_def tt_hazard_def)
  then show ?thesis
    using assms(2) cv(1) cv'(1)
    by (simp add: TelnetStream_ProcessByte_def step_state_def SetTelnetState_def Let_def)
qed

theorem telnet_empty_terminal_type_crashes_witness:
  "process_bytes fresh_stream [IAC, SB, TT, IAC, SE] fresh_dump = None"
  by (rule telnet_empty_terminal_type_crashes) (simp_all add: fresh_wf)

text \<open>negotiation cannot loop and errors are final: an offer of an option the server does not know is
  refused with exactly one answer and a refusal is not answered at all, so two such ends stop after one
  exchange; and a stream in the error state stays there, drops its input and sends nothing.\<close>

theorem telnet_refuses_unknown_options:
  assumes "tel_wf s" "tel_state s = TELSTATE_INPUT" "c \<in> {TEL_DO, DONT, WILL, WONT}"
    "x \<le> 140" "x \<notin> {TS, TT, MCCP2, MCCP3, ECHO, LM, SGA}"
    "tel_state e = TELSTATE_ERROR"
  shows "(\<exists>s'. process_bytes s [IAC, c, x] dump = Some (s', dump,
      if c = TEL_DO then [[IAC, WONT, x]] else if c = WILL then [[IAC, DONT, x]] else []) \<and>
      tel_state s' = TELSTATE_INPUT \<and> opts s' = opts s) \<and>
    (\<exists>e'. process_bytes e xs dump = Some (e', dump, []) \<and> tel_state e' = TELSTATE_ERROR \<and> opts e' = opts e)"
proof (rule conjI)
  have "\<not> GetIs2CmdByte c" "c \<noteq> SB" "Is3ByteCmd x"
    using assms(3,4) by (auto simp: GetIs2CmdByte_def Is3ByteCmd_def)
  then show "\<exists>s'. process_bytes s [IAC, c, x] dump = Some (s', dump,
      if c = TEL_DO then [[IAC, WONT, x]] else if c = WILL then [[IAC, DONT, x]] else []) \<and>
      tel_state s' = TELSTATE_INPUT \<and> opts s' = opts s"
    using assms(2,3,5)
    by (auto simp: TelnetStream_ProcessByte_def step_state_def SetTelnetState_def Let_def Run3ByteCmd_def
        MakeTelCmd_def)
qed (rule process_error[OF assms(6)])

theorem telnet_refuses_unknown_options_witness:
  "(\<exists>s'. process_bytes fresh_stream [IAC, TEL_DO, 5] fresh_dump = Some (s', fresh_dump,
      if TEL_DO = TEL_DO then [[IAC, WONT, 5]] else if TEL_DO = WILL then [[IAC, DONT, 5]] else []) \<and>
      tel_state s' = TELSTATE_INPUT \<and> opts s' = opts fresh_stream) \<and>
    (\<exists>e'. process_bytes (fresh_stream\<lparr>tel_state := TELSTATE_ERROR\<rparr>) [65, IAC, SB] fresh_dump
        = Some (e', fresh_dump, []) \<and>
      tel_state e' = TELSTATE_ERROR \<and> opts e' = opts (fresh_stream\<lparr>tel_state := TELSTATE_ERROR\<rparr>))"
  by (rule telnet_refuses_unknown_options) (simp_all add: fresh_wf)

end
