(* ===== verification/AnsiColor.thy ===== *)
theory AnsiColor
  imports CharVector
begin

text \<open>
  ansicolor.c: colour tags between backquotes become ANSI escape sequences: a name from a table, or
  \<open>#rrggbb\<close> (foreground) and \<open>@rrggbb\<close> (background). An unknown tag is left as it is. The input is the
  memory readable from the string's start. \<open>None\<close> is undefined behaviour.
\<close>

unbundle bit_operations_syntax

section \<open>The table\<close>

record AnsiCode =
  symbol :: "byte list"
  code :: "byte list"
  codelen :: nat

definition ansi_code :: "string \<Rightarrow> string \<Rightarrow> nat \<Rightarrow> AnsiCode" where
  "ansi_code s c n = \<lparr>symbol = bytes_of s,
     code = 27 # bytes_of c @ replicate (15 - length c) 0, codelen = n\<rparr>"

definition color_codes :: "AnsiCode list" where
  "color_codes =
     [ansi_code ''bgblack'' ''[40m'' 5, ansi_code ''bgblue'' ''[44m'' 5, ansi_code ''bgcyan'' ''[46m'' 5,
      ansi_code ''bggreen'' ''[42m'' 5, ansi_code ''bgmagenta'' ''[45m'' 5, ansi_code ''bgred'' ''[41m'' 5,
      ansi_code ''bgwhite'' ''[47m'' 5, ansi_code ''bgyellow'' ''[43m'' 5, ansi_code ''black'' ''[30m'' 5,
      ansi_code ''blink'' ''[05m'' 5, ansi_code ''blue'' ''[34m'' 5, ansi_code ''cyan'' ''[36m'' 5,
      ansi_code ''default'' ''[0m'' 4, ansi_code ''green'' ''[32m'' 5, ansi_code ''magenta'' ''[35m'' 5,
      ansi_code ''red'' ''[31m'' 5, ansi_code ''rvid'' ''[07m'' 5, ansi_code ''white'' ''[37m'' 5,
      ansi_code ''yellow'' ''[33m'' 5]"

definition g_numcolcodes :: nat where
  "g_numcolcodes = length color_codes"

definition compcolsymbol :: "byte list \<Rightarrow> AnsiCode \<Rightarrow> int option" where
  "compcolsymbol a b = c_strcmp a (symbol b @ [0])"

section \<open>Colours from hex digits\<close>

definition chtoi_table :: "nat list" where
  "chtoi_table = [0, 1, 2, 3, 4, 5, 6, 7, 8, 9, 58, 59, 60, 61, 62, 63, 64, 10, 11, 12, 13, 14, 15]"

definition chtoi :: "byte \<Rightarrow> nat option" where
  "chtoi ch = (if 48 \<le> c_toupper ch \<and> c_toupper ch < 128 then rd chtoi_table (unat (c_toupper ch) - 48) else None)"

definition hex_table :: "byte list" where
  "hex_table = replicate 49 0 @ [1, 2, 3, 4, 5, 6, 7, 8, 9, 58, 59, 60, 61, 62, 63, 64, 10, 11, 12, 13, 14, 15]"

text \<open>A \<open>char\<close> above 127 is negative and indexes before the table.\<close>

definition hex_digit :: "byte \<Rightarrow> byte option" where
  "hex_digit ch = (if c_toupper ch < 128 then rd hex_table (unat (c_toupper ch)) else None)"

definition hex_pair :: "byte \<Rightarrow> byte \<Rightarrow> byte option" where
  "hex_pair x y = do { h \<leftarrow> hex_digit x; l \<leftarrow> hex_digit y; Some (push_bit 4 h OR l) }"

definition atorgb :: "byte list \<Rightarrow> nat \<Rightarrow> (byte \<times> byte \<times> byte) option" where
  "atorgb a len = do {
     n \<leftarrow> c_strnlen a len;
     if n = 7 \<and> (a ! 0 = 35 \<or> a ! 0 = 64) then do {
       r \<leftarrow> hex_pair (a ! 1) (a ! 2);
       g \<leftarrow> hex_pair (a ! 3) (a ! 4);
       b \<leftarrow> hex_pair (a ! 5) (a ! 6);
       Some (r, g, b)
     } else Some (0, 0, 0)
   }"

section \<open>The conversion\<close>

definition rgb_sequence :: "byte \<Rightarrow> byte \<times> byte \<times> byte \<Rightarrow> byte list" where
  "rgb_sequence tagbuf c = (case c of (r, g, b) \<Rightarrow>
     27 # bytes_of ''['' @ decimal (if tagbuf = 35 then 38 else 48) @ bytes_of '';2;'' @ decimal (unat r)
     @ bytes_of '';'' @ decimal (unat g) @ bytes_of '';'' @ decimal (unat b) @ bytes_of ''m'')"

text \<open>
  One marker: \<open>rest\<close> is the memory from \<open>pInput\<close>, the markers are at offsets \<open>ms\<close> and
  \<open>ms + 1 + me\<close>. The tag is copied to a buffer of 32 bytes with its own length.
\<close>

definition ansi_tag :: "byte mem_mgr \<Rightarrow> byte list \<Rightarrow> nat \<Rightarrow> nat \<Rightarrow> cv_t \<Rightarrow> cv_t option" where
  "ansi_tag M rest ms me out = do {
     tagbuf \<leftarrow> c_strncpy (replicate 32 0) (drop (ms + 1) rest) me;
     out \<leftarrow> cv_strncat M out rest ms;
     if tagbuf ! 0 = 64 \<or> tagbuf ! 0 = 35 then do {
       c \<leftarrow> atorgb tagbuf 32;
       let text = rgb_sequence (tagbuf ! 0) c;
       buf \<leftarrow> c_snprintf (replicate 32 0) 32 text;
       (_, out) \<leftarrow> cv_appendstr M out buf (length text);
       Some out
     } else do {
       found \<leftarrow> c_bsearch (compcolsymbol tagbuf) color_codes 0 g_numcolcodes;
       case found of
         Some e \<Rightarrow> do { (_, out) \<leftarrow> cv_appendstr M out (code e) (codelen e); Some out }
       | None \<Rightarrow> cv_strncat M out (drop ms rest) (me + 2)
     }
   }"

text \<open>The loop: \<open>r\<close> bytes of the input length are left at \<open>pInput\<close>.\<close>

function ansi_loop :: "byte mem_mgr \<Rightarrow> byte list \<Rightarrow> nat \<Rightarrow> cv_t \<Rightarrow> (byte list \<times> nat \<times> cv_t) option" where
  "ansi_loop M rest r out =
     (case rest of
        [] \<Rightarrow> None
      | b # _ \<Rightarrow>
          if b = 0 then Some (rest, r, out)
          else (case c_memchr rest 96 r of
              None \<Rightarrow> None
            | Some None \<Rightarrow> Some (rest, r, out)
            | Some (Some ms) \<Rightarrow>
                (case c_memchr (drop (ms + 1) rest) 96 (r - (ms + 1)) of
                   None \<Rightarrow> None
                 | Some None \<Rightarrow> Some (rest, r, out)
                 | Some (Some me) \<Rightarrow>
                     (case ansi_tag M rest ms me out of
                        None \<Rightarrow> None
                      | Some out \<Rightarrow> ansi_loop M (drop (ms + me + 2) rest) (r - (ms + me + 2)) out))))"
  by pat_completeness auto
termination by (relation "measure (\<lambda>(M, rest, r, out). length rest)") (auto dest: c_memchr_less)

declare ansi_loop.simps [simp del]

definition ANSIColorizeString :: "byte mem_mgr \<Rightarrow> byte list \<Rightarrow> nat \<Rightarrow> cv_t \<Rightarrow> cv_t option" where
  "ANSIColorizeString M input inputlen output = do {
     (rest, r, output) \<leftarrow> ansi_loop M input inputlen output;
     (_, output) \<leftarrow> cv_appendstr M output rest (sz (r + 1));
     Some output
   }"

section \<open>What a tag stands for\<close>

lemma color_codes_sorted: "sorted_wrt (\<lambda>x y. symbol x < symbol y) color_codes"
  by code_simp

lemma color_codes_nonzero: "\<forall>e \<in> set color_codes. 0 \<notin> set (symbol e) \<and> codelen e \<le> 5 \<and> length (code e) = 16"
  by code_simp

definition tag_code :: "byte list \<Rightarrow> byte list option" where
  "tag_code g = map_option (\<lambda>e. cstr (take (codelen e) (code e))) (find (\<lambda>e. symbol e = g) color_codes)"

definition legal_digit :: "byte \<Rightarrow> bool" where
  "legal_digit c \<longleftrightarrow> unat (c_toupper c) \<le> 70"

definition tag_rgb :: "byte list \<Rightarrow> byte \<times> byte \<times> byte" where
  "tag_rgb g = (if length g = 7
     then (the (hex_pair (g ! 1) (g ! 2)), the (hex_pair (g ! 3) (g ! 4)), the (hex_pair (g ! 5) (g ! 6)))
     else (0, 0, 0))"

text \<open>
  What a tag stands for, said without the code's tables. The eight ANSI colours have the numbers 0 to 7,
  foreground \<open>ESC [ 3 k m\<close> and background \<open>ESC [ 4 k m\<close>. A hex digit has its usual value; of the other
  characters the conversion accepts, those from colon to at sign count with their own code and those below
  the digits as zero.
\<close>

definition ansi_colours :: "string list" where
  "ansi_colours = [''black'', ''red'', ''green'', ''yellow'', ''blue'', ''magenta'', ''cyan'', ''white'']"

definition ansi_names :: "(byte list \<times> byte list) list" where
  "ansi_names =
     map (\<lambda>k. (bytes_of (ansi_colours ! k), [27, 91, 51, 48 + word_of_nat k, 109])) [0..<8] @
     map (\<lambda>k. (bytes_of (''bg'' @ ansi_colours ! k), [27, 91, 52, 48 + word_of_nat k, 109])) [0..<8] @
     [(bytes_of ''default'', 27 # bytes_of ''[0m''), (bytes_of ''blink'', 27 # bytes_of ''[05m''),
      (bytes_of ''rvid'', 27 # bytes_of ''[07m'')]"

definition hex_value :: "byte \<Rightarrow> nat" where
  "hex_value c = (let n = unat c in
     if 48 \<le> n \<and> n \<le> 57 then n - 48
     else if 65 \<le> n \<and> n \<le> 70 then n - 55
     else if 97 \<le> n \<and> n \<le> 102 then n - 87
     else if 58 \<le> n \<and> n \<le> 64 then n else 0)"

definition channel :: "byte \<Rightarrow> byte \<Rightarrow> nat" where
  "channel x y = (if hex_value y < 16 then (16 * hex_value x + hex_value y) mod 256
     else unat ((word_of_nat (16 * hex_value x) :: byte) OR word_of_nat (hex_value y)))"

definition colour_numbers :: "byte list \<Rightarrow> nat \<times> nat \<times> nat" where
  "colour_numbers g = (if length g = 7
     then (channel (g ! 1) (g ! 2), channel (g ! 3) (g ! 4), channel (g ! 5) (g ! 6)) else (0, 0, 0))"

definition colour_text :: "nat \<times> nat \<times> nat \<Rightarrow> byte list" where
  "colour_text c = (case c of (r, g, b) \<Rightarrow> decimal r @ [59] @ decimal g @ [59] @ decimal b @ [109])"

definition render :: "byte list \<Rightarrow> byte list" where
  "render g =
     (if g \<noteq> [] \<and> hd g = 35 then 27 # bytes_of ''[38;2;'' @ colour_text (colour_numbers g)
      else if g \<noteq> [] \<and> hd g = 64 then 27 # bytes_of ''[48;2;'' @ colour_text (colour_numbers g)
      else case map_of ansi_names g of Some c \<Rightarrow> c | None \<Rightarrow> 96 # g @ [96])"

definition legal_tag :: "byte list \<Rightarrow> bool" where
  "legal_tag g \<longleftrightarrow> length g \<le> 31 \<and> 0 \<notin> set g \<and> 96 \<notin> set g \<and>
     (length g = 7 \<and> (hd g = 64 \<or> hd g = 35) \<longrightarrow> (\<forall>c \<in> set (tl g). legal_digit c))"

lemma legal_digit_ok: "legal_digit c \<Longrightarrow> \<exists>d. hex_digit c = Some d"
proof -
  assume "legal_digit c"
  then have "unat (c_toupper c) < length hex_table" "c_toupper c < 128"
    by (auto simp: legal_digit_def hex_table_def word_less_nat_alt)
  then show ?thesis by (simp add: hex_digit_def mem_simps)
qed

lemma hex_digit_value:
  assumes "legal_digit c"
  shows "hex_digit c = Some (word_of_nat (hex_value c))" "hex_value c \<le> 64"
proof -
  have "list_all (\<lambda>c. legal_digit c \<longrightarrow> hex_digit c = Some (word_of_nat (hex_value c)) \<and> hex_value c \<le> 64)
      (map word_of_nat [0..<256])" by code_simp
  moreover have "c \<in> set (map word_of_nat [0..<256])"
  proof -
    have "c = word_of_nat (unat c)" "unat c < 256" using unsigned_less[of c, where 'a = nat] by simp_all
    then show ?thesis by (metis atLeastLessThan_iff atLeastLessThan_upt image_eqI list.set_map zero_le)
  qed
  ultimately show "hex_digit c = Some (word_of_nat (hex_value c))" "hex_value c \<le> 64"
    using assms unfolding list_all_iff by blast+
qed

lemma nibbles: "l < 16 \<Longrightarrow> push_bit 4 (word_of_nat h :: byte) OR word_of_nat l = word_of_nat (16 * h + l)"
proof -
  assume l: "l < 16"
  have small: "n < 4" if bit: "bit l n" for n
  proof (rule ccontr)
    assume "\<not> n < 4"
    with bit have b: "bit l n" "\<not> n < 4"
      by simp_all
    then have "(16 :: nat) \<le> 2 ^ n" using power_increasing[of 4 n "2 :: nat"] by simp
    then have "l div 2 ^ n = 0" using l by simp
    with b show False by (simp add: bit_iff_odd)
  qed
  have "push_bit 4 (word_of_nat h :: byte) AND word_of_nat l = 0"
    by (intro bit_word_eqI) (auto simp: bit_simps dest: small)
  then have "push_bit 4 (word_of_nat h :: byte) OR word_of_nat l = push_bit 4 (word_of_nat h) + word_of_nat l"
    using word_plus_and_or[of "push_bit 4 (word_of_nat h :: byte)" "word_of_nat l"] by simp
  then show ?thesis by (simp add: push_bit_eq_mult)
qed

lemma hex_pair_channel:
  assumes "legal_digit x" "legal_digit y"
  shows "hex_pair x y \<noteq> None" "unat (the (hex_pair x y)) = channel x y"
proof -
  have "hex_pair x y = Some (push_bit 4 (word_of_nat (hex_value x)) OR word_of_nat (hex_value y))"
    by (simp add: hex_pair_def hex_digit_value assms)
  moreover have "push_bit 4 (word_of_nat (hex_value x) :: byte) = word_of_nat (16 * hex_value x)"
    by (simp add: push_bit_eq_mult)
  ultimately show "hex_pair x y \<noteq> None" "unat (the (hex_pair x y)) = channel x y"
    using nibbles[of "hex_value y" "hex_value x"]
    by (auto simp: channel_def unsigned_of_nat take_bit_eq_mod simp del: of_nat_mult of_nat_add)
qed

lemma tag_code_names: "tag_code g = map_of ansi_names g"
proof (cases "g \<in> set (map fst ansi_names)")
  case True
  have "list_all (\<lambda>g. tag_code g = map_of ansi_names g) (map fst ansi_names)" by code_simp
  then show ?thesis using True unfolding list_all_iff by blast
next
  case False
  have "list_all (\<lambda>e. symbol e \<in> set (map fst ansi_names)) color_codes" by code_simp
  then have "find (\<lambda>e. symbol e = g) color_codes = None" using False by (auto simp: find_None_iff list_all_iff)
  moreover have "map_of ansi_names g = None" using False by (simp add: map_of_eq_None_iff)
  ultimately show ?thesis by (simp add: tag_code_def)
qed

lemma rgb_sequence_text:
  "rgb_sequence 35 (r, g, b) = 27 # bytes_of ''[38;2;'' @ colour_text (unat r, unat g, unat b)"
  "rgb_sequence 64 (r, g, b) = 27 # bytes_of ''[48;2;'' @ colour_text (unat r, unat g, unat b)"
proof -
  have d: "decimal 38 = [51, 56]" "decimal 48 = [52, 56]" by code_simp+
  show "rgb_sequence 35 (r, g, b) = 27 # bytes_of ''[38;2;'' @ colour_text (unat r, unat g, unat b)"
    "rgb_sequence 64 (r, g, b) = 27 # bytes_of ''[48;2;'' @ colour_text (unat r, unat g, unat b)"
    by (simp_all add: rgb_sequence_def colour_text_def bytes_of_def d)
qed

text \<open>The code's tables give just that.\<close>

lemma render_code:
  assumes "legal_tag g"
  shows "render g = (if g \<noteq> [] \<and> (hd g = 64 \<or> hd g = 35) then rgb_sequence (hd g) (tag_rgb g)
      else case tag_code g of Some c \<Rightarrow> c | None \<Rightarrow> 96 # g @ [96])"
proof (cases "g \<noteq> [] \<and> (hd g = 64 \<or> hd g = 35)")
  case True
  have "colour_numbers g = (case tag_rgb g of (r, g, b) \<Rightarrow> (unat r, unat g, unat b))"
  proof (cases "length g = 7")
    case len: True
    have "legal_digit (g ! i)" if "0 < i" "i < 7" for i
    proof -
      have "g ! i \<in> set (tl g)" using that len True by (cases g) (auto simp: nth_Cons')
      then show ?thesis using assms True len by (auto simp: legal_tag_def)
    qed
    then show ?thesis using len by (simp add: colour_numbers_def tag_rgb_def hex_pair_channel)
  qed (simp add: colour_numbers_def tag_rgb_def)
  then show ?thesis using True
    by (cases "tag_rgb g") (auto simp: render_def rgb_sequence_text)
next
  case False
  then show ?thesis by (auto simp: render_def tag_code_names)
qed

lemma bsearch_tag:
  assumes "0 \<notin> set g" "terminated tagbuf" "cstr tagbuf = g"
  shows "c_bsearch (compcolsymbol tagbuf) color_codes 0 g_numcolcodes = Some (find (\<lambda>e. symbol e = g) color_codes)"
proof -
  have cmp: "\<exists>c. compcolsymbol tagbuf x = Some c \<and> (c < 0 \<longleftrightarrow> g < symbol x) \<and> (c = 0 \<longleftrightarrow> g = symbol x)"
    if "x \<in> set color_codes" for x
  proof -
    have "cstr (symbol x @ [0]) = symbol x"
      using color_codes_nonzero that cstr_zero[of "symbol x" "[]"] by auto
    then show ?thesis
      using c_strcmp_ok[OF assms(2), of "symbol x @ [0]"] assms(3)
      by (simp add: compcolsymbol_def terminated_def)
  qed
  from c_bsearch_ok[OF color_codes_sorted cmp, of g_numcolcodes 0] obtain r where
    r: "c_bsearch (compcolsymbol tagbuf) color_codes 0 g_numcolcodes = Some r"
    "case r of Some x \<Rightarrow> x \<in> set color_codes \<and> symbol x = g | None \<Rightarrow> g \<notin> symbol ` set color_codes"
    by (auto simp: g_numcolcodes_def)
  have inj: "x = y" if "x \<in> set color_codes" "y \<in> set color_codes" "symbol x = symbol y" for x y
    using color_codes_sorted that
    by (auto simp: sorted_wrt_iff_nth_less in_set_conv_nth) (metis linorder_neqE_nat order_less_irrefl)
  have "find (\<lambda>e. symbol e = g) color_codes = r"
  proof (cases r)
    case None
    then show ?thesis using r(2) by (force simp: find_None_iff)
  next
    case (Some x)
    then obtain y where y: "find (\<lambda>e. symbol e = g) color_codes = Some y"
      using r(2) by (cases "find (\<lambda>e. symbol e = g) color_codes") (auto simp: find_None_iff)
    then have "y \<in> set color_codes" "symbol y = g" by (auto simp: find_Some_iff)
    then show ?thesis using inj[of x y] r(2) Some y by auto
  qed
  with r(1) show ?thesis by simp
qed

lemma length_rgb_sequence: "length (rgb_sequence s c) \<le> 20" and rgb_sequence_nonzero: "0 \<notin> set (rgb_sequence s c)"
proof -
  obtain r g b where c: "c = (r, g, b)" by (cases c) auto
  have l: "length (decimal (unat x)) \<le> 3" for x :: byte
    using unsigned_less[of x, where 'a = nat] by (intro length_decimal) simp
  have "length (decimal (if s = 35 then 38 else 48)) \<le> 3" by (intro length_decimal) simp
  then show "length (rgb_sequence s c) \<le> 20"
    using l[of r] l[of g] l[of b] by (simp add: rgb_sequence_def c bytes_of_def)
  have "0 \<notin> set (bytes_of ''['')" "0 \<notin> set (bytes_of '';2;'')" "0 \<notin> set (bytes_of '';'')" "0 \<notin> set (bytes_of ''m'')"
    by code_simp+
  then show "0 \<notin> set (rgb_sequence s c)"
    using decimal_nonzero by (auto simp: rgb_sequence_def c)
qed

section \<open>The conversion replaces the tags\<close>

lemma cstr_take_all: "0 \<notin> set xs \<Longrightarrow> cstr (take (length xs) (xs @ ys)) = xs"
  by (simp add: cstr_id)

lemma tag_buffer:
  assumes "legal_tag g"
  shows "\<exists>tagbuf. c_strncpy (replicate 32 0) (g @ ys) (length g) = Some tagbuf \<and> length tagbuf = 32 \<and>
    tagbuf = g @ replicate (32 - length g) 0 \<and> terminated tagbuf \<and> cstr tagbuf = g"
proof -
  have g: "length g \<le> 31" "0 \<notin> set g" using assms by (auto simp: legal_tag_def)
  have "32 - length g = Suc (31 - length g)" using g(1) by simp
  then have rep: "replicate (32 - length g) (0 :: byte) = 0 # replicate (31 - length g) 0" by simp
  have "c_strncpy (replicate 32 0) (g @ ys) (length g) = Some (g @ replicate (32 - length g) 0)"
    using c_strncpy_ok[of "length g" "replicate 32 0" "g @ ys"] g by (simp add: cstr_id)
  moreover have "terminated (g @ replicate (32 - length g) 0)" "cstr (g @ replicate (32 - length g) 0) = g"
    unfolding rep using cstr_zero[OF g(2)] by (simp_all add: terminated_def)
  moreover have "length (g @ replicate (32 - length g) 0) = 32" using g(1) by simp
  ultimately show ?thesis by blast
qed

lemma atorgb_ok:
  assumes g: "legal_tag g" "hd g = 64 \<or> hd g = 35" "g \<noteq> []"
    and tagbuf: "tagbuf = g @ replicate (32 - length g) 0" "length tagbuf = 32" "cstr tagbuf = g"
  shows "atorgb tagbuf 32 = Some (tag_rgb g)"
proof -
  have n: "c_strnlen tagbuf 32 = Some (length g)" using tagbuf by (simp add: c_strnlen_ok)
  have "tagbuf ! 0 = hd g" using g(3) tagbuf(1) by (cases g) auto
  then have hd: "tagbuf ! 0 = 35 \<or> tagbuf ! 0 = 64" using g(2) by auto
  show ?thesis
  proof (cases "length g = 7")
    case False
    then show ?thesis using n by (simp add: atorgb_def tag_rgb_def)
  next
    case True
    have at: "tagbuf ! i = g ! i" if "i < 7" for i using that True tagbuf(1) by (simp add: nth_append)
    have dig: "\<exists>d. hex_digit (g ! i) = Some d" if "0 < i" "i < 7" for i
    proof -
      have "g ! i \<in> set (tl g)" using that True g(3) by (cases g) (auto simp: nth_Cons')
      then show ?thesis using g(1,2) True legal_digit_ok by (auto simp: legal_tag_def)
    qed
    have pair: "\<exists>x. hex_pair (g ! i) (g ! j) = Some x" if "0 < i" "i < 7" "0 < j" "j < 7" for i j
      using dig[of i] dig[of j] that by (auto simp: hex_pair_def)
    have "hex_pair (g ! 1) (g ! 2) \<noteq> None" "hex_pair (g ! 3) (g ! 4) \<noteq> None" "hex_pair (g ! 5) (g ! 6) \<noteq> None"
      using pair[of 1 2] pair[of 3 4] pair[of 5 6] by auto
    then show ?thesis using n True hd at by (auto simp: atorgb_def tag_rgb_def)
  qed
qed

lemma ansi_tag_ok:
  assumes M: "grants_all M" and wf: "cv_wf out" and g: "legal_tag g" and t: "0 \<notin> set t"
    and B: "ccapacity out \<le> B" "B \<le> 2 ^ 56" "2 * (length (cv_str out @ t @ render g) + 40) \<le> B"
  shows "\<exists>out'. ansi_tag M (t @ 96 # g @ 96 # ys) (length t) (length g) out = Some out' \<and> cv_wf out' \<and>
    cv_str out' = cv_str out @ t @ render g \<and> ccapacity out' \<le> B"
proof -
  let ?rest = "t @ 96 # g @ 96 # ys"
  obtain tagbuf where buf: "c_strncpy (replicate 32 0) (drop (length t + 1) ?rest) (length g) = Some tagbuf"
    "length tagbuf = 32" "tagbuf = g @ replicate (32 - length g) 0" "terminated tagbuf" "cstr tagbuf = g"
    using tag_buffer[OF g, of "96 # ys"] by auto
  have g31: "length g \<le> 31" "0 \<notin> set g" using g by (auto simp: legal_tag_def)
  obtain out1 where out1: "cv_strncat M out ?rest (length t) = Some out1" "cv_closed out1"
    "cv_str out1 = cv_str out @ t" "ccapacity out1 \<le> B"
    using append_str[OF M wf, of "length t" ?rest B] B t by (auto simp: cstr_id)
  have wf1: "cv_wf out1" using out1(2) by (simp add: cv_closed_def)
  have first: "tagbuf ! 0 = 64 \<or> tagbuf ! 0 = 35 \<longleftrightarrow> g \<noteq> [] \<and> (hd g = 64 \<or> hd g = 35)"
    using buf(3) by (cases g) auto
  show ?thesis
  proof (cases "g \<noteq> [] \<and> (hd g = 64 \<or> hd g = 35)")
    case True
    define esc where "esc = rgb_sequence (hd g) (tag_rgb g)"
    have esc: "length esc \<le> 20" "0 \<notin> set esc" "render g = esc"
      using length_rgb_sequence rgb_sequence_nonzero True by (simp_all add: esc_def render_code[OF g])
    have hd: "tagbuf ! 0 = hd g" using True buf(3) by (cases g) auto
    obtain b where b: "c_snprintf (replicate 32 0) 32 esc = Some b" "length b = 32" "take (length esc + 1) b = esc @ [0]"
      using c_snprintf_ok[of esc 32 "replicate 32 0"] esc by auto
    have "take (length esc) b = esc" using arg_cong[OF b(3), of "take (length esc)"] by simp
    then have "cstr (take (length esc) b) = esc" using esc(2) by (simp add: cstr_id)
    then obtain out2 where "cv_strncat M out1 b (length esc) = Some out2" "cv_closed out2"
      "cv_str out2 = cv_str out1 @ esc" "ccapacity out2 \<le> B"
      using append_str[OF M wf1, of "length esc" b B] b(2) esc B out1 by auto
    then show ?thesis
      using buf out1 first True atorgb_ok[OF g _ _ buf(3,2,5)] hd b(1) esc(3)
      by (simp add: ansi_tag_def cv_appendstr_def esc_def cv_closed_def Let_def)
  next
    case False
    have search: "c_bsearch (compcolsymbol tagbuf) color_codes 0 g_numcolcodes = Some (find (\<lambda>e. symbol e = g) color_codes)"
      by (rule bsearch_tag[OF g31(2) buf(4,5)])
    show ?thesis
    proof (cases "find (\<lambda>e. symbol e = g) color_codes")
      case None
      have "cstr (take (length g + 2) (drop (length t) ?rest)) = 96 # g @ [96]"
        using g31(2) by (simp add: cstr_id)
      moreover have "render g = 96 # g @ [96]" using False None by (auto simp: render_code[OF g] tag_code_def)
      ultimately obtain out2 where "cv_strncat M out1 (drop (length t) ?rest) (length g + 2) = Some out2" "cv_closed out2"
        "cv_str out2 = cv_str out1 @ render g" "ccapacity out2 \<le> B"
        using append_str[OF M wf1, of "length g + 2" "drop (length t) ?rest" B] g31(1) B out1 by auto
      then show ?thesis
        using buf(1) out1 first False search None by (simp add: ansi_tag_def cv_closed_def)
    next
      case (Some e)
      then have e: "e \<in> set color_codes" by (auto simp: find_Some_iff)
      have "codelen e \<le> 5" "length (code e) = 16" using color_codes_nonzero e by auto
      moreover have "render g = cstr (take (codelen e) (code e))" using False Some by (auto simp: render_code[OF g] tag_code_def)
      ultimately obtain out2 where "cv_strncat M out1 (code e) (codelen e) = Some out2" "cv_closed out2"
        "cv_str out2 = cv_str out1 @ render g" "ccapacity out2 \<le> B"
        using append_str[OF M wf1, of "codelen e" "code e" B] B out1 by auto
      then show ?thesis
        using buf(1) out1 first False search Some by (simp add: ansi_tag_def cv_appendstr_def cv_closed_def)
    qed
  qed
qed

text \<open>An input: pieces of text each followed by a tag, then a rest with at most one backquote.\<close>

fun marked :: "(byte list \<times> byte list) list \<Rightarrow> byte list" where
  "marked [] = []"
| "marked ((t, g) # ps) = t @ 96 # g @ 96 # marked ps"

fun rendered :: "(byte list \<times> byte list) list \<Rightarrow> byte list" where
  "rendered [] = []"
| "rendered ((t, g) # ps) = t @ render g @ rendered ps"

definition legal_piece :: "byte list \<times> byte list \<Rightarrow> bool" where
  "legal_piece p \<longleftrightarrow> 0 \<notin> set (fst p) \<and> 96 \<notin> set (fst p) \<and> legal_tag (snd p)"

definition legal_rest :: "byte list \<Rightarrow> bool" where
  "legal_rest xs \<longleftrightarrow> 0 \<notin> set xs \<and> (\<exists>us vs. xs = us @ vs \<and> 96 \<notin> set us \<and> 96 \<notin> set (tl vs))"

lemma memchr_in:
  "c \<notin> set xs \<Longrightarrow> length xs < n \<Longrightarrow> n \<le> length (xs @ c # ys) \<Longrightarrow> c_memchr (xs @ c # ys) c n = Some (Some (length xs))"
  using first_idx_skip[of xs "\<lambda>b. b = c" c "take (n - Suc (length xs)) ys"]
  by (auto simp: c_memchr_ok take_Cons')

lemma memchr_not_in: "c \<notin> set (take n xs) \<Longrightarrow> n \<le> length xs \<Longrightarrow> c_memchr xs c n = Some None"
  by (auto simp: c_memchr_ok first_idx_None)

lemma ansi_loop_rest:
  assumes "legal_rest xs"
  shows "ansi_loop M (xs @ 0 # ys) (length xs + 1) out = Some (xs @ 0 # ys, length xs + 1, out)"
proof -
  from assms obtain us vs where uv: "xs = us @ vs" "96 \<notin> set us" "96 \<notin> set (tl vs)" "0 \<notin> set xs"
    by (auto simp: legal_rest_def)
  show ?thesis
  proof (cases "96 \<in> set xs")
    case False
    then have "c_memchr (xs @ 0 # ys) 96 (length xs + 1) = Some None" by (intro memchr_not_in) auto
    then show ?thesis by (cases xs) (simp_all add: ansi_loop.simps)
  next
    case True
    then obtain vs' where vs: "vs = 96 # vs'" using uv by (cases vs) auto
    have "c_memchr (xs @ 0 # ys) 96 (length xs + 1) = Some (Some (length us))"
      using uv vs memchr_in[of 96 us "length xs + 1" "vs' @ 0 # ys"] by simp
    moreover have "c_memchr (drop (length us + 1) (xs @ 0 # ys)) 96 (length xs + 1 - (length us + 1)) = Some None"
      using uv vs by (intro memchr_not_in) auto
    moreover obtain b zs where "xs = b # zs" "b \<noteq> 0" using uv(4) True by (cases xs) auto
    ultimately show ?thesis by (simp add: ansi_loop.simps)
  qed
qed

lemma ansi_loop_ok:
  assumes M: "grants_all M" and B: "B \<le> 2 ^ 56" and xs: "legal_rest xs"
  shows "cv_wf out \<Longrightarrow> \<forall>p \<in> set ps. legal_piece p \<Longrightarrow> ccapacity out \<le> B \<Longrightarrow>
    2 * (length (cv_str out @ rendered ps) + 40) \<le> B \<Longrightarrow>
    \<exists>out'. ansi_loop M (marked ps @ xs @ 0 # ys) (length (marked ps @ xs) + 1) out
        = Some (xs @ 0 # ys, length xs + 1, out') \<and> cv_wf out' \<and>
      cv_str out' = cv_str out @ rendered ps \<and> ccapacity out' \<le> B"
proof (induction ps arbitrary: out)
  case Nil
  then show ?case using ansi_loop_rest[OF xs] by simp
next
  case (Cons p ps)
  obtain t g where p: "p = (t, g)" by (cases p)
  have tg: "0 \<notin> set t" "96 \<notin> set t" "legal_tag g" using Cons.prems(2) p by (auto simp: legal_piece_def)
  then have g: "96 \<notin> set g" by (simp add: legal_tag_def)
  let ?more = "marked ps @ xs @ 0 # ys"
  define rest where "rest = t @ 96 # g @ 96 # ?more"
  define r where "r = length (marked (p # ps) @ xs) + 1"
  have r: "r = length t + length g + 2 + (length (marked ps @ xs) + 1)" by (simp add: r_def p)
  have ms: "c_memchr rest 96 r = Some (Some (length t))"
    unfolding rest_def using tg(2) r by (intro memchr_in) simp_all
  have me: "c_memchr (drop (length t + 1) rest) 96 (r - (length t + 1)) = Some (Some (length g))"
    using memchr_in[of 96 g "r - (length t + 1)" ?more] g r by (simp add: rest_def)
  obtain out1 where out1: "ansi_tag M rest (length t) (length g) out = Some out1" "cv_wf out1"
    "cv_str out1 = cv_str out @ t @ render g" "ccapacity out1 \<le> B"
    using ansi_tag_ok[OF M Cons.prems(1) tg(3,1) Cons.prems(3) B, of ?more] Cons.prems(4) p
    by (auto simp: rest_def)
  obtain b zs where b: "rest = b # zs" "b \<noteq> 0" using tg(1) by (cases t) (auto simp: rest_def)
  have dr: "drop (length t + length g + 2) rest = ?more" by (simp add: rest_def)
  have nr: "r - (length t + length g + 2) = length (marked ps @ xs) + 1" using r by simp
  have "ansi_loop M rest r out = ansi_loop M ?more (length (marked ps @ xs) + 1) out1"
    using ms me out1(1) dr nr b by (subst ansi_loop.simps) (simp add: b(1))
  moreover have "rest = marked (p # ps) @ xs @ 0 # ys" by (simp add: rest_def p)
  ultimately show ?case
    using Cons.IH[OF out1(2) _ out1(4)] Cons.prems(2,4) out1(3) p by (simp add: r_def)
qed

section \<open>Properties\<close>

definition colour_buf :: cv_t where
  "colour_buf = \<lparr>cdata = Some (replicate 16 0), clength = 0, ccapacity = 16\<rparr>"

lemma ANSIColorizeString_ok:
  assumes "grants_all M" "cv_wf out" "\<forall>p \<in> set ps. legal_piece p" "legal_rest xs"
    "ccapacity out \<le> 2 ^ 56" "length (cv_str out @ rendered ps @ xs) + 40 \<le> 2 ^ 55"
  shows "\<exists>out'. ANSIColorizeString M (marked ps @ xs @ 0 # ys) (length (marked ps @ xs) + 1) out = Some out' \<and>
    cv_wf out' \<and> cv_str out' = cv_str out @ rendered ps @ xs \<and> length (cv_str out') < ccapacity out' \<and>
    clength out' = length (cv_str out') + 3"
proof -
  obtain out1 where out1: "ansi_loop M (marked ps @ xs @ 0 # ys) (length (marked ps @ xs) + 1) out
      = Some (xs @ 0 # ys, length xs + 1, out1)" "cv_wf out1" "cv_str out1 = cv_str out @ rendered ps"
    "ccapacity out1 \<le> 2 ^ 56"
    using ansi_loop_ok[OF assms(1) _ assms(4,2,3,5)] assms(6) by auto
  have xs: "0 \<notin> set xs" using assms(4) by (simp add: legal_rest_def)
  have sz: "sz (length xs + 1 + 1) = length xs + 2" using assms(6) by (subst sz_small) simp_all
  have "cstr (take (length xs + 2) (xs @ 0 # ys)) = xs" using xs by (simp add: cstr_zero)
  then obtain out' where "cv_strncat M out1 (xs @ 0 # ys) (length xs + 2) = Some out'" "cv_closed out'"
    "cv_str out' = cv_str out1 @ xs" "clength out' = length (cv_str out1) + (length xs + 2) + 1"
    using append_str[OF assms(1) out1(2), of "length xs + 2" "xs @ 0 # ys" "2 ^ 56"] out1(3,4) assms(6)
    by (auto simp: terminated_def)
  then show ?thesis
    using out1 sz by (simp add: ANSIColorizeString_def cv_appendstr_def cv_closed_def)
qed

text \<open>C13: colouring replaces exactly the tags: for a terminated input of any number of text pieces each
  followed by a tag between backquotes (with at most 31 characters, and no character above \<open>F\<close> other than
  the small hex digits in a 24-bit colour), and a rest with at most one backquote, the conversion terminates
  without a fault and appends the text with every known name replaced by its escape sequence (colour \<open>k\<close> of
  the eight ANSI colours is \<open>ESC [ 3 k m\<close>, in the background \<open>ESC [ 4 k m\<close>), every \<open>#\<close> tag by
  \<open>ESC [ 38 ; 2 ; r ; g ; b m\<close> and every \<open>@\<close> tag by \<open>ESC [ 48 ; 2 ; r ; g ; b m\<close> with the decimal values of
  its three pairs of hex digits, and everything else unchanged.\<close>

theorem ANSIColorizeString_correct:
  assumes "grants_all M" "cv_wf out" "\<forall>p \<in> set ps. legal_piece p" "legal_rest xs"
    "ccapacity out \<le> 2 ^ 56" "length (cv_str out @ rendered ps @ xs) + 40 \<le> 2 ^ 55"
  shows "\<exists>out'. ANSIColorizeString M (marked ps @ xs @ 0 # ys) (length (marked ps @ xs) + 1) out = Some out' \<and>
    cv_wf out' \<and> cv_str out' = cv_str out @ rendered ps @ xs \<and> length (cv_str out') < ccapacity out'"
  using ANSIColorizeString_ok[OF assms, of ys] by blast

theorem ANSIColorizeString_correct_witness:
  "\<exists>out'. ANSIColorizeString byte_mgr
      (marked [([72, 105], bytes_of ''red''), ([], bytes_of ''#00fF80''), ([32], bytes_of ''dragon'')] @ [33, 96] @ 0 # [])
      (length (marked [([72, 105], bytes_of ''red''), ([], bytes_of ''#00fF80''), ([32], bytes_of ''dragon'')] @ [33, 96]) + 1)
      colour_buf = Some out' \<and>
    cv_wf out' \<and> cv_str out' = cv_str colour_buf @
      rendered [([72, 105], bytes_of ''red''), ([], bytes_of ''#00fF80''), ([32], bytes_of ''dragon'')] @ [33, 96] \<and>
    length (cv_str out') < ccapacity out'"
proof (rule ANSIColorizeString_correct)
  show "\<forall>p \<in> set [([72, 105], bytes_of ''red''), ([], bytes_of ''#00fF80''), ([32], bytes_of ''dragon'')]. legal_piece p"
    by code_simp
  show "legal_rest [33, 96]" unfolding legal_rest_def by (intro conjI exI[of _ "[33]"] exI[of _ "[96]"]) auto
  have "length (cv_str colour_buf @ rendered [([72, 105], bytes_of ''red''), ([], bytes_of ''#00fF80''),
      ([32], bytes_of ''dragon'')] @ [33, 96]) \<le> 60" by code_simp
  then show "length (cv_str colour_buf @ rendered [([72, 105], bytes_of ''red''), ([], bytes_of ''#00fF80''),
      ([32], bytes_of ''dragon'')] @ [33, 96]) + 40 \<le> 2 ^ 55" by simp
qed (simp_all add: byte_mgr_grants cv_wf_def colour_buf_def MINALLOC_def)

text \<open>a tag of 33 or more characters overflows the 32-byte tag buffer on the stack: any text with two
  backquotes that far apart is undefined behaviour.\<close>

theorem ANSIColorizeString_long_tag_overflows:
  assumes "0 \<notin> set t" "96 \<notin> set t" "96 \<notin> set g" "32 < length g"
  shows "ANSIColorizeString M (t @ 96 # g @ 96 # ys) (length (t @ 96 # g @ 96 # ys)) out = None"
proof -
  let ?rest = "t @ 96 # g @ 96 # ys"
  have ms: "c_memchr ?rest 96 (length ?rest) = Some (Some (length t))"
    using assms(2) by (intro memchr_in) simp_all
  have me: "c_memchr (drop (length t + 1) ?rest) 96 (length ?rest - (length t + 1)) = Some (Some (length g))"
    using memchr_in[of 96 g "length ?rest - (length t + 1)" ys] assms(3) by simp
  have "ansi_tag M ?rest (length t) (length g) out = None"
    using assms(4) by (simp add: ansi_tag_def c_strncpy_def)
  moreover obtain b zs where b: "?rest = b # zs" "b \<noteq> 0" using assms(1) by (cases t) auto
  ultimately have "ansi_loop M ?rest (length ?rest) out = None"
    using ms me by (subst ansi_loop.simps) (simp add: b(1))
  then show ?thesis by (simp add: ANSIColorizeString_def)
qed

theorem ANSIColorizeString_long_tag_overflows_witness:
  "ANSIColorizeString byte_mgr ([] @ 96 # replicate 33 65 @ 96 # [0]) (length ([] @ 96 # replicate 33 65 @ 96 # [0 :: byte]))
     colour_buf = None"
  by (rule ANSIColorizeString_long_tag_overflows) simp_all

text \<open>The length recorded after the conversion counts the terminator and one byte more: for text of \<open>n\<close>
  bytes the caller, which drops one byte, still sends two zero bytes.\<close>

lemma ANSIColorizeString_length:
  assumes "grants_all M" "cv_wf out" "legal_rest xs" "cv_str out = []" "ccapacity out \<le> 2 ^ 56" "length xs + 40 \<le> 2 ^ 55"
  shows "\<exists>out'. ANSIColorizeString M (xs @ 0 # ys) (length xs + 1) out = Some out' \<and> cv_str out' = xs \<and>
    clength out' = length xs + 3"
proof -
  have xs: "0 \<notin> set xs" using assms(3) by (simp add: legal_rest_def)
  have sz: "sz (length xs + 1 + 1) = length xs + 2" using assms(6) by (subst sz_small) simp_all
  have "cstr (take (length xs + 2) (xs @ 0 # ys)) = xs" using xs by (simp add: cstr_zero)
  then obtain out' where "cv_strncat M out (xs @ 0 # ys) (length xs + 2) = Some out'"
    "cv_str out' = xs" "clength out' = length xs + 3"
    using append_str[OF assms(1,2), of "length xs + 2" "xs @ 0 # ys" "2 ^ 56"] assms(4-6)
    by (auto simp: terminated_def)
  then show ?thesis
    using ansi_loop_rest[OF assms(3), of M ys out] sz by (simp add: ANSIColorizeString_def cv_appendstr_def)
qed

end
