(* ===== verification/CmdTagLexer.thy ===== *)
theory CmdTagLexer
  imports C_Strings
begin

text \<open>
  cmdtaglexer.c: finding tags (a marker character followed by letters and digits) in a message and
  replacing them by given words. Strings are the memory readable from their start; \<open>None\<close> is undefined
  behaviour. The file does not check its allocations: the model is that of runs in which they succeed.
  Blocks are written in full before they are read, so their first contents do not matter.
\<close>

section \<open>The records\<close>

record TaggedToken =
  ttoken :: "byte list"
  tindex :: nat
  tlength :: nat
  bShouldCap :: bool

record TagLexerResult =
  ttokens :: "TaggedToken list"
  tokenreserved :: nat
  tokencount :: nat
  total_token_len :: nat

record TagSub =
  substring :: "byte list"
  sublength :: nat

record TagLexerSubList =
  subs :: "TagSub list"
  subscount :: nat
  subsreserved :: nat
  total_sub_len :: nat

record TagLexer =
  tokenlist :: "byte list"
  tokenlistlen :: nat

definition zero_token :: TaggedToken where
  "zero_token = \<lparr>ttoken = [], tindex = 0, tlength = 0, bShouldCap = False\<rparr>"

definition zero_sub :: TagSub where
  "zero_sub = \<lparr>substring = [], sublength = 0\<rparr>"

section \<open>The operations\<close>

text \<open>\<open>strpbrk\<close>: the first character of the string that occurs in \<open>accept\<close>.\<close>

fun c_strpbrk :: "byte list \<Rightarrow> byte list \<Rightarrow> nat option option" where
  "c_strpbrk [] acc = None"
| "c_strpbrk (b # str) acc =
     (if b = 0 then Some None
      else if b \<in> set acc then Some (Some 0)
      else map_option (map_option Suc) (c_strpbrk str acc))"

definition TaggedTokenCmp :: "TaggedToken \<Rightarrow> TaggedToken \<Rightarrow> int option" where
  "TaggedTokenCmp a b = c_strcmp (ttoken a) (ttoken b)"

definition TagLexer_Init :: "byte list \<Rightarrow> TagLexer option" where
  "TagLexer_Init tlist = do {
     n \<leftarrow> c_strnlen tlist 128;
     block \<leftarrow> c_strncpy (replicate (n + 1) 0) tlist (n + 1);
     Some \<lparr>tokenlist = block, tokenlistlen = n\<rparr>
   }"

definition TagLexer_SetTagList :: "TagLexer \<Rightarrow> byte list \<Rightarrow> TagLexer option" where
  "TagLexer_SetTagList lexer tlist = do {
     n \<leftarrow> c_strnlen tlist 128;
     block \<leftarrow> c_strncpy (replicate (n + 1) 0) tlist (n + 1);
     Some (lexer\<lparr>tokenlistlen := n, tokenlist := block\<rparr>)
   }"

definition TagLexer_Destroy :: "TagLexer \<Rightarrow> TagLexer" where
  "TagLexer_Destroy lexer = lexer\<lparr>tokenlist := []\<rparr>"

definition TagLexerSubList_Init :: TagLexerSubList where
  "TagLexerSubList_Init =
     \<lparr>subs = replicate 4 zero_sub, subscount = 0, subsreserved = 4, total_sub_len = 0\<rparr>"

definition TagLexerSubList_Destroy :: "TagLexerSubList \<Rightarrow> TagLexerSubList" where
  "TagLexerSubList_Destroy l = l\<lparr>subs := []\<rparr>"

definition TagLexerSubList_GetSubAt :: "TagLexerSubList \<Rightarrow> nat \<Rightarrow> TagSub option" where
  "TagLexerSubList_GetSubAt l idx = rd (subs l) idx"

definition TagLexerSubList_AddSub :: "TagLexerSubList \<Rightarrow> byte list \<Rightarrow> nat \<Rightarrow> TagLexerSubList option" where
  "TagLexerSubList_AddSub l str len = do {
     let l1 = (if subscount l \<ge> subsreserved l
               then l\<lparr>subsreserved := 2 * subsreserved l,
                      subs := take (2 * subsreserved l) (subs l)
                        @ replicate (2 * subsreserved l - length (subs l)) zero_sub\<rparr>
               else l);
     block \<leftarrow> c_strncpy (replicate (len + 1) 0) str (len + 1);
     ss \<leftarrow> wr (subs l1) (subscount l1) \<lparr>substring = block, sublength = len\<rparr>;
     Some (l1\<lparr>subs := ss, subscount := subscount l1 + 1, total_sub_len := total_sub_len l1 + len\<rparr>)
   }"

definition TagLexerResult_Init :: TagLexerResult where
  "TagLexerResult_Init =
     \<lparr>ttokens = replicate 4 zero_token, tokenreserved = 4, tokencount = 0, total_token_len = 0\<rparr>"

definition TagLexerResult_GetTokenCount :: "TagLexerResult \<Rightarrow> nat" where
  "TagLexerResult_GetTokenCount res = tokencount res"

definition TagLexerResult_GetTokenAt :: "TagLexerResult \<Rightarrow> nat \<Rightarrow> byte list option" where
  "TagLexerResult_GetTokenAt res idx = map_option ttoken (rd (ttokens res) idx)"

definition TagLexerResult_Destroy :: "TagLexerResult \<Rightarrow> TagLexerResult" where
  "TagLexerResult_Destroy res = res\<lparr>ttokens := []\<rparr>"

definition TagLexer_AddTaggedToken ::
    "TagLexerResult \<Rightarrow> byte list \<Rightarrow> nat \<Rightarrow> nat \<Rightarrow> bool \<Rightarrow> TagLexerResult option" where
  "TagLexer_AddTaggedToken res str index len bCap = do {
     let res1 = (if tokencount res \<ge> tokenreserved res
                 then res\<lparr>tokenreserved := 2 * tokenreserved res,
                          ttokens := take (tokencount res) (ttokens res)
                            @ replicate (2 * tokenreserved res - tokencount res) zero_token\<rparr>
                 else res);
     block \<leftarrow> c_strncpy (replicate (len + 1) 0) str len;
     ts \<leftarrow> wr (ttokens res1) (tokencount res1)
            \<lparr>ttoken = block[len := 0], tindex = index, tlength = len, bShouldCap = bCap\<rparr>;
     Some (res1\<lparr>ttokens := ts, tokencount := tokencount res1 + 1,
                total_token_len := total_token_len res1 + len\<rparr>)
   }"

text \<open>
  The scan back from the marker: the first argument of \<open>cap_scan\<close> after the string is \<open>idx + 1\<close>. The index is an \<open>int\<close> that
  gets the difference of two pointers: from \<open>2 ^ 31\<close> on it is not the marker's offset, and negative for half of
  the offsets, for which the scan does not start.
\<close>

fun cap_scan :: "byte list \<Rightarrow> nat \<Rightarrow> bool option" where
  "cap_scan str 0 = Some True"
| "cap_scan str (Suc idx) = do {
     b \<leftarrow> rd str idx;
     if c_isalpha b then Some False else if b = 46 then Some True else cap_scan str idx
   }"

definition ShouldCapitalize :: "byte list \<Rightarrow> nat \<Rightarrow> bool option" where
  "ShouldCapitalize str start =
     (let idx = sint (word_of_nat start :: 32 word) in if idx < 0 then Some True else cap_scan str (nat idx + 1))"

text \<open>The length of the tag at \<open>offset\<close>: \<open>n\<close> characters are left before \<open>len\<close>.\<close>

fun tag_length :: "byte list \<Rightarrow> nat \<Rightarrow> nat \<Rightarrow> nat \<Rightarrow> nat option" where
  "tag_length str offset k 0 = Some k"
| "tag_length str offset k (Suc n) = do {
     b \<leftarrow> rd str (offset + k);
     if c_isalnum b then tag_length str offset (k + 1) n else Some k
   }"

lemma tag_length_ok:
  "tag_length str offset k n = Some m \<Longrightarrow>
   k \<le> m \<and> m \<le> k + n \<and> (\<forall>j. k \<le> j \<longrightarrow> j < m \<longrightarrow> offset + j < length str \<and> c_isalnum (str ! (offset + j))) \<and>
   (m < k + n \<longrightarrow> offset + m < length str \<and> \<not> c_isalnum (str ! (offset + m)))"
proof (induction n arbitrary: k)
  case (Suc n)
  then obtain b where b: "offset + k < length str" "b = str ! (offset + k)"
    "(if c_isalnum b then tag_length str offset (k + 1) n else Some k) = Some m"
    by (auto simp: rd_Some_iff split: bind_splits)
  show ?case
  proof (cases "c_isalnum b")
    case True
    then have "tag_length str offset (k + 1) n = Some m" using b(3) by simp
    note ih = Suc.IH[OF this]
    have "offset + j < length str \<and> c_isalnum (str ! (offset + j))" if "k \<le> j" "j < m" for j
      using ih that True b(1,2) by (cases "j = k") auto
    with ih show ?thesis by auto
  next
    case False
    then show ?thesis using b by auto
  qed
qed simp

function parse_loop :: "byte list \<Rightarrow> byte list \<Rightarrow> nat \<Rightarrow> nat \<Rightarrow> TagLexerResult \<Rightarrow> TagLexerResult option" where
  "parse_loop acc str len idx res =
     (if length str \<le> idx then None
      else case c_strpbrk (drop idx str) acc of
        None \<Rightarrow> None
      | Some None \<Rightarrow> Some res
      | Some (Some k) \<Rightarrow>
          (let offset = idx + k in
           case tag_length str offset 1 (len - (offset + 1)) of
             None \<Rightarrow> None
           | Some n \<Rightarrow>
               (case (if n > 1
                      then do {
                        bCap \<leftarrow> ShouldCapitalize str offset;
                        TagLexer_AddTaggedToken res (drop offset str) offset n bCap
                      }
                      else Some res) of
                  None \<Rightarrow> None
                | Some res \<Rightarrow> parse_loop acc str len (offset + n) res)))"
  by pat_completeness auto
termination
  by (relation "measure (\<lambda>(acc, str, len, idx, res). length str - idx)") (auto dest: tag_length_ok)

declare parse_loop.simps [simp del]

definition TagLexer_Parse :: "TagLexer \<Rightarrow> byte list \<Rightarrow> nat \<Rightarrow> TagLexerResult \<Rightarrow> TagLexerResult option" where
  "TagLexer_Parse lexer str len res =
     (if terminated (tokenlist lexer) then parse_loop (cstr (tokenlist lexer)) str len 0 res else None)"

text \<open>
  The substitution: the loop over the tokens from \<open>idx\<close> with \<open>n\<close> left. A word that has to be
  capitalised is changed in the list of words itself.
\<close>

definition capitalise :: "TagSub \<Rightarrow> TagSub" where
  "capitalise s = s\<lparr>substring := (substring s)[0 := c_toupper (substring s ! 0)]\<rparr>"

fun sub_loop ::
    "TagLexerResult \<Rightarrow> byte list \<Rightarrow> nat \<Rightarrow> nat \<Rightarrow> nat \<Rightarrow> byte list \<Rightarrow> TagLexerSubList
     \<Rightarrow> (byte list \<times> nat \<times> TagLexerSubList) option" where
  "sub_loop res str idx 0 strpos buf l = Some (buf, strpos, l)"
| "sub_loop res str idx (Suc n) strpos buf l = do {
     tok \<leftarrow> rd (ttokens res) idx;
     buf \<leftarrow> c_strncat buf (drop strpos str) (sz_sub (tindex tok) strpos);
     sub \<leftarrow> rd (subs l) idx;
     _ \<leftarrow> rd (substring sub) 0;
     let sub = (if bShouldCap tok then capitalise sub else sub);
     let l = l\<lparr>subs := (subs l)[idx := sub]\<rparr>;
     buf \<leftarrow> c_strncat buf (substring sub) (sublength sub);
     sub_loop res str (idx + 1) n (tindex tok + tlength tok) buf l
   }"

text \<open>The result is the new string (or null, when the counts differ) and the list of words.\<close>

definition TagLexerResult_PerformSub ::
    "TagLexerResult \<Rightarrow> TagLexerSubList \<Rightarrow> byte list \<Rightarrow> nat \<Rightarrow> (byte list option \<times> TagLexerSubList) option" where
  "TagLexerResult_PerformSub res l str len =
     (if tokencount res \<noteq> subscount l then Some (None, l)
      else do {
        let required = sz (sz_sub len (total_token_len res) + total_sub_len l + 1);
        (buf, strpos, l) \<leftarrow> sub_loop res str 0 (tokencount res) 0 (replicate required 0) l;
        buf \<leftarrow> c_strncat buf (drop strpos str) (sz_sub len strpos + 1);
        Some (Some buf, l)
      })"

section \<open>Parsing finds the tags\<close>

text \<open>What the parser has established when it stands at \<open>idx\<close>, about the tokens recorded so far.\<close>

definition result_tokens :: "TagLexerResult \<Rightarrow> TaggedToken list" where
  "result_tokens res = take (tokencount res) (ttokens res)"

definition result_wf :: "TagLexerResult \<Rightarrow> bool" where
  "result_wf res \<longleftrightarrow> length (ttokens res) = tokenreserved res \<and> tokencount res \<le> tokenreserved res \<and>
     0 < tokenreserved res \<and> total_token_len res = sum_list (map tlength (result_tokens res))"

text \<open>No letter since the last full stop before position \<open>n\<close>.\<close>

definition starts_sentence :: "byte list \<Rightarrow> nat \<Rightarrow> bool" where
  "starts_sentence s n \<longleftrightarrow> (\<forall>j < n. c_isalpha (s ! j) \<longrightarrow> (\<exists>k. j < k \<and> k < n \<and> s ! k = 46))"

definition token_ok :: "byte list \<Rightarrow> byte list \<Rightarrow> TaggedToken \<Rightarrow> bool" where
  "token_ok acc s tok \<longleftrightarrow> tindex tok + tlength tok \<le> length s \<and> 2 \<le> tlength tok \<and>
     s ! tindex tok \<in> set acc \<and>
     (\<forall>j. 0 < j \<longrightarrow> j < tlength tok \<longrightarrow> c_isalnum (s ! (tindex tok + j))) \<and>
     (tindex tok + tlength tok < length s \<longrightarrow> \<not> c_isalnum (s ! (tindex tok + tlength tok))) \<and>
     cstr (ttoken tok) = take (tlength tok) (drop (tindex tok) s)"

definition cap_ok :: "byte list \<Rightarrow> TaggedToken \<Rightarrow> bool" where
  "cap_ok s tok \<longleftrightarrow> bShouldCap tok = starts_sentence s (tindex tok + 1)"

definition cap_ok_small :: "byte list \<Rightarrow> TaggedToken \<Rightarrow> bool" where
  "cap_ok_small s tok \<longleftrightarrow> (length s \<le> 2 ^ 31 \<longrightarrow> cap_ok s tok)"

definition token_before :: "TaggedToken \<Rightarrow> TaggedToken \<Rightarrow> bool" where
  "token_before a b \<longleftrightarrow> tindex a + tlength a \<le> tindex b"

definition covered :: "TaggedToken list \<Rightarrow> nat \<Rightarrow> bool" where
  "covered toks i \<longleftrightarrow> (\<exists>tok \<in> set toks. tindex tok \<le> i \<and> i < tindex tok + tlength tok)"

definition is_tag :: "byte list \<Rightarrow> byte list \<Rightarrow> nat \<Rightarrow> bool" where
  "is_tag acc s i \<longleftrightarrow> i + 1 < length s \<and> s ! i \<in> set acc \<and> c_isalnum (s ! (i + 1))"

definition parsed :: "byte list \<Rightarrow> byte list \<Rightarrow> nat \<Rightarrow> TagLexerResult \<Rightarrow> bool" where
  "parsed acc s idx res \<longleftrightarrow> result_wf res \<and>
     (\<forall>tok \<in> set (result_tokens res). token_ok acc s tok \<and> tindex tok + tlength tok \<le> idx \<and> cap_ok_small s tok) \<and>
     sorted_wrt token_before (result_tokens res) \<and>
     (\<forall>i < idx. is_tag acc s i \<longrightarrow> covered (result_tokens res) i)"

lemma c_strpbrk_ok:
  "c_strpbrk (xs @ 0 # ys) acc = Some (first_idx (\<lambda>b. b \<in> set acc) xs)" if "0 \<notin> set xs"
  using that by (induction xs) auto

lemma cap_scan_some: "n \<le> length str \<Longrightarrow> cap_scan str n = Some (starts_sentence str n)"
proof (induction n)
  case (Suc n)
  have dot: "\<not> c_isalpha 46" by (simp add: c_isalpha_def)
  show ?case
  proof (cases "c_isalpha (str ! n)")
    case True
    then show ?thesis using Suc.prems by (auto simp: starts_sentence_def mem_simps)
  next
    case False
    have step: "starts_sentence str (Suc n) \<longleftrightarrow> str ! n = 46 \<or> starts_sentence str n"
    proof (cases "str ! n = 46")
      case True
      have "\<exists>k > j. k < Suc n \<and> str ! k = 46" if "j < Suc n" "c_isalpha (str ! j)" for j
        using True False that by (intro exI[of _ n]) (auto simp: less_Suc_eq)
      then show ?thesis using True by (auto simp: starts_sentence_def)
    next
      case no: False
      have "(\<exists>k > j. k < Suc n \<and> str ! k = 46) \<longleftrightarrow> (\<exists>k > j. k < n \<and> str ! k = 46)" for j
        using no by (auto simp: less_Suc_eq)
      then show ?thesis using no False by (auto simp: starts_sentence_def less_Suc_eq)
    qed
    show ?thesis using Suc.IH Suc.prems False by (simp add: mem_simps step)
  qed
qed (simp add: starts_sentence_def)

lemma ShouldCapitalize_some:
  assumes "n < length str"
  shows "\<exists>b. ShouldCapitalize str n = Some b" "n < 2 ^ 31 \<Longrightarrow> ShouldCapitalize str n = Some (starts_sentence str (n + 1))"
proof -
  define idx where "idx = sint (word_of_nat n :: 32 word)"
  have "idx \<le> uint (word_of_nat n :: 32 word)"
    unfolding idx_def sint_uint by (simp only: signed_take_bit_int_less_eq_self_iff) (rule order_trans[OF _ uint_ge_0], simp)
  also have "\<dots> \<le> int n" by (simp only: uint_nat unat_of_nat) (simp only: zmod_le_nonneg_dividend of_nat_mod of_nat_0_le_iff)
  finally have "idx \<le> int n" .
  then have "nat idx + 1 \<le> length str" using assms by linarith
  then show "\<exists>b. ShouldCapitalize str n = Some b"
    using cap_scan_some[of "nat idx + 1" str]
    by (auto simp: ShouldCapitalize_def Let_def idx_def[symmetric] simp del: cap_scan.simps)
  show "ShouldCapitalize str n = Some (starts_sentence str (n + 1))" if "n < 2 ^ 31"
  proof -
    have "idx = int n" using that
      unfolding idx_def sint_uint by (simp add: uint_nat unat_of_nat signed_take_bit_int_eq_self flip: of_nat_mod)
    then show ?thesis using cap_scan_some[of "n + 1" str] assms by (simp add: ShouldCapitalize_def idx_def[symmetric])
  qed
qed

lemma starts_sentence_append: "n \<le> length s \<Longrightarrow> starts_sentence (s @ t) n = starts_sentence s n"
proof -
  assume n: "n \<le> length s"
  then have "(\<exists>k > j. k < n \<and> (s @ t) ! k = 46) \<longleftrightarrow> (\<exists>k > j. k < n \<and> s ! k = 46)" for j
    by (metis nth_append less_le_trans)
  then show ?thesis using n by (simp add: starts_sentence_def nth_append)
qed

lemma AddTaggedToken_ok:
  assumes wf: "result_wf res" and len: "len \<le> length str" "0 \<notin> set (take len str)"
  shows "\<exists>res' tok. TagLexer_AddTaggedToken res str index len bCap = Some res' \<and> result_wf res' \<and>
    result_tokens res' = result_tokens res @ [tok] \<and> tindex tok = index \<and> tlength tok = len \<and>
    bShouldCap tok = bCap \<and> cstr (ttoken tok) = take len str"
proof -
  define block where "block = take len str @ [0 :: byte]"
  have "c_strncpy (replicate (len + 1) 0) str len = Some (take len str @ drop len (replicate (len + 1) 0))"
    using c_strncpy_ok[of len "replicate (len + 1) 0" str] len by (simp add: cstr_id)
  moreover have "drop len (replicate (len + 1) 0) = [0 :: byte]" by (simp only: drop_replicate) simp
  ultimately have copy: "c_strncpy (replicate (len + 1) 0) str len = Some block" by (simp only: block_def)
  have upd: "block[len := 0] = block" using len(1) by (simp add: block_def list_update_append)
  have str: "cstr block = take len str" using cstr_zero[OF len(2)] by (simp add: block_def)
  define tok where "tok = \<lparr>ttoken = block, tindex = index, tlength = len, bShouldCap = bCap\<rparr>"
  show ?thesis
  proof (cases "tokenreserved res \<le> tokencount res")
    case True
    then show ?thesis
      using wf copy upd str
      by (auto simp: TagLexer_AddTaggedToken_def Let_def mem_simps result_wf_def result_tokens_def
          list_update_append take_Suc_conv_app_nth nth_append tok_def intro!: exI[of _ tok])
  next
    case False
    then show ?thesis
      using wf copy upd str
      by (auto simp: TagLexer_AddTaggedToken_def Let_def mem_simps result_wf_def result_tokens_def
          take_Suc_conv_app_nth tok_def intro!: exI[of _ tok])
  qed
qed

lemma tag_length_some: "offset + k + n \<le> length str \<Longrightarrow> \<exists>m. tag_length str offset k n = Some m"
  by (induction n arbitrary: k) (auto simp: mem_simps)

lemma nth_in_drop: "i \<le> j \<Longrightarrow> j < length s \<Longrightarrow> s ! j \<in> set (drop i s)"
  using nth_mem[of "j - i" "drop i s"] by simp

text \<open>Recording a token, or passing over a lone marker, keeps the invariant.\<close>

lemma parsed_token:
  assumes p: "parsed acc s idx res" and off: "idx \<le> off" "\<And>i. idx \<le> i \<Longrightarrow> i < off \<Longrightarrow> s ! i \<notin> set acc"
    and res': "result_wf res'" "result_tokens res' = result_tokens res @ [tok]" "tindex tok = off"
    and tok: "token_ok acc s tok" "cap_ok_small s tok"
  shows "parsed acc s (off + tlength tok) res'"
  unfolding parsed_def
proof (intro conjI ballI allI impI)
  show "result_wf res'" by (rule res')
  show "sorted_wrt token_before (result_tokens res')"
    using p off(1) res'(2,3) by (fastforce simp: parsed_def token_before_def sorted_wrt_append)
  fix t assume "t \<in> set (result_tokens res')"
  then show "token_ok acc s t" "tindex t + tlength t \<le> off + tlength tok" "cap_ok_small s t"
    using p tok off(1) res'(2,3) by (fastforce simp: parsed_def)+
next
  fix i assume i: "i < off + tlength tok" "is_tag acc s i"
  then show "covered (result_tokens res') i"
    using p off res'(2,3) by (cases "i < idx"; cases "i < off") (auto simp: parsed_def covered_def is_tag_def)
qed

lemma parsed_skip:
  assumes p: "parsed acc s idx res" and off: "idx \<le> off" "\<And>i. idx \<le> i \<Longrightarrow> i < off \<Longrightarrow> s ! i \<notin> set acc"
    and no: "\<not> is_tag acc s off"
  shows "parsed acc s (off + 1) res"
  unfolding parsed_def
proof (intro conjI ballI allI impI)
  show "result_wf res" "sorted_wrt token_before (result_tokens res)" using p by (auto simp: parsed_def)
  fix t assume "t \<in> set (result_tokens res)"
  then show "token_ok acc s t" "tindex t + tlength t \<le> off + 1" "cap_ok_small s t"
    using p off(1) by (fastforce simp: parsed_def)+
next
  fix i assume i: "i < off + 1" "is_tag acc s i"
  then show "covered (result_tokens res) i"
    using p off no by (cases "i < idx"; cases "i = off") (auto simp: parsed_def is_tag_def)
qed

lemma parse_loop_ok:
  assumes s: "0 \<notin> set s"
  shows "parsed acc s idx res \<Longrightarrow> idx \<le> length s \<Longrightarrow>
    \<exists>res'. parse_loop acc (s @ 0 # ys) (length s) idx res = Some res' \<and> parsed acc s (length s) res'"
proof (induction "length s - idx" arbitrary: idx res rule: less_induct)
  case less
  let ?str = "s @ 0 # ys" and ?len = "length s"
  have brk: "c_strpbrk (drop idx ?str) acc = Some (first_idx (\<lambda>b. b \<in> set acc) (drop idx s))"
    using c_strpbrk_ok[of "drop idx s" ys acc] s less.prems(2) by (auto dest: in_set_dropD)
  show ?case
  proof (cases "first_idx (\<lambda>b. b \<in> set acc) (drop idx s)")
    case None
    then have "\<not> is_tag acc s i" if "idx \<le> i" for i
      using that nth_in_drop[of idx i s] by (auto simp: is_tag_def first_idx_None)
    then have "parsed acc s ?len res"
      using less.prems unfolding parsed_def by (metis le_trans not_less)
    then show ?thesis using None brk less.prems(2) by (simp add: parse_loop.simps)
  next
    case (Some k)
    define off where "off = idx + k"
    from Some have k: "k < ?len - idx" "s ! off \<in> set acc" "\<And>j. j < k \<Longrightarrow> s ! (idx + j) \<notin> set acc"
      by (auto simp: first_idx_Some off_def)
    have off: "idx \<le> off" "off < ?len" using k(1) by (auto simp: off_def)
    have none: "s ! i \<notin> set acc" if "idx \<le> i" "i < off" for i
      using k(3)[of "i - idx"] that by (simp add: off_def)
    obtain n where n: "tag_length ?str off 1 (?len - (off + 1)) = Some n"
    proof -
      have "off + 1 + (?len - (off + 1)) \<le> length ?str" using off by (simp only: length_append)
      from tag_length_some[OF this] show thesis using that by blast
    qed
    note tl = tag_length_ok[OF n]
    have "n \<le> 1 + (?len - (off + 1))" using tl by blast
    then have ln: "off + n \<le> ?len" using off by linarith
    have step: "parse_loop acc ?str ?len idx res =
        (case (if n > 1
               then do {
                 bCap \<leftarrow> ShouldCapitalize ?str off;
                 TagLexer_AddTaggedToken res (drop off ?str) off n bCap
               }
               else Some res) of
           None \<Rightarrow> None | Some res \<Rightarrow> parse_loop acc ?str ?len (off + n) res)"
      using brk Some n less.prems(2) unfolding off_def by (subst parse_loop.simps) (simp add: Let_def)
    show ?thesis
    proof (cases "1 < n")
      case True
      obtain bCap where cap: "ShouldCapitalize ?str off = Some bCap"
        using ShouldCapitalize_some(1)[of off ?str] off by auto
      have "starts_sentence ?str (off + 1) = starts_sentence s (off + 1)"
        using off by (intro starts_sentence_append) simp
      then have sentence: "bCap = starts_sentence s (off + 1)" if "length s \<le> 2 ^ 31"
        using ShouldCapitalize_some(2)[of off ?str] off cap that by simp
      have tk: "take n (drop off ?str) = take n (drop off s)" using ln by simp
      then have z: "0 \<notin> set (take n (drop off ?str))" using s by (metis in_set_dropD in_set_takeD)
      have "n \<le> length (drop off ?str)" "result_wf res" using ln less.prems(1) by (simp_all add: parsed_def)
      from AddTaggedToken_ok[OF this(2,1) z, of off bCap] obtain res1 tok where add: "TagLexer_AddTaggedToken res (drop off ?str) off n bCap = Some res1"
        "result_wf res1" "result_tokens res1 = result_tokens res @ [tok]" "tindex tok = off" "tlength tok = n"
        "cstr (ttoken tok) = take n (drop off ?str)" "bShouldCap tok = bCap"
        by blast
      have "c_isalnum (s ! (off + j))" if "0 < j" "j < n" for j
        using tl that ln by (auto simp: nth_append Suc_le_eq split: if_splits)
      moreover have "\<not> c_isalnum (s ! (off + n))" if "off + n < ?len"
        using tl that by (auto simp: nth_append)
      ultimately have "token_ok acc s tok" using add tk ln k(2) True by (simp add: token_ok_def)
      moreover have "cap_ok_small s tok"
        using add sentence by (simp add: cap_ok_small_def cap_ok_def)
      ultimately have "parsed acc s (off + tlength tok) res1"
        using parsed_token[OF less.prems(1) off(1) none add(2,3,4)] by blast
      then
      have "parsed acc s (off + n) res1" by (simp add: add(5))
      moreover have "parse_loop acc ?str ?len idx res = parse_loop acc ?str ?len (off + n) res1"
        unfolding step using True by (simp only: cap add(1) bind.bind_lunit option.case if_True)
      ultimately show ?thesis using less.hyps[of "off + n" res1] True off ln by auto
    next
      case False
      then have n1: "n = 1" using tl by simp
      have "\<not> is_tag acc s off"
        using tl n1 by (auto simp: is_tag_def nth_append)
      from parsed_skip[OF less.prems(1) off(1) none this]
      show ?thesis using less.hyps[of "off + 1" res] step n1 off by simp
    qed
  qed
qed

section \<open>Substituting the words\<close>

text \<open>The list of words as \<open>TagLexerSubList_AddSub\<close> builds it.\<close>

definition sub_ok :: "TagSub \<Rightarrow> bool" where
  "sub_ok s \<longleftrightarrow> (\<exists>w. substring s = w @ [0] \<and> sublength s = length w \<and> 0 \<notin> set w)"

definition word_of_sub :: "TagSub \<Rightarrow> byte list" where
  "word_of_sub s = cstr (substring s)"

definition sublist_words :: "TagLexerSubList \<Rightarrow> byte list list" where
  "sublist_words l = map word_of_sub (take (subscount l) (subs l))"

definition sublist_wf :: "TagLexerSubList \<Rightarrow> bool" where
  "sublist_wf l \<longleftrightarrow> length (subs l) = subsreserved l \<and> subscount l \<le> subsreserved l \<and> 0 < subsreserved l \<and>
     (\<forall>s \<in> set (take (subscount l) (subs l)). sub_ok s) \<and>
     total_sub_len l = sum_list (map length (sublist_words l))"

fun cap_word :: "bool \<Rightarrow> byte list \<Rightarrow> byte list" where
  "cap_word True (b # w) = c_toupper b # w"
| "cap_word _ w = w"

text \<open>The message with its tokens replaced, from position \<open>pos\<close>.\<close>

fun replaced :: "byte list \<Rightarrow> nat \<Rightarrow> TaggedToken list \<Rightarrow> byte list list \<Rightarrow> byte list" where
  "replaced s pos (tok # toks) (w # ws) =
     take (tindex tok - pos) (drop pos s) @ cap_word (bShouldCap tok) w
       @ replaced s (tindex tok + tlength tok) toks ws"
| "replaced s pos _ _ = drop pos s"

lemma AddSub_ok:
  assumes wf: "sublist_wf l" and w: "0 \<notin> set w"
  shows "\<exists>l'. TagLexerSubList_AddSub l (w @ 0 # ys) (length w) = Some l' \<and> sublist_wf l' \<and>
    sublist_words l' = sublist_words l @ [w]"
proof -
  have "c_strncpy (replicate (length w + 1) 0) (w @ 0 # ys) (length w + 1) = Some (w @ [0])"
    using c_strncpy_ok[of "length w + 1" "replicate (length w + 1) 0" "w @ 0 # ys"] w cstr_zero[OF w, of "[]"]
    by simp
  moreover define s where "s = \<lparr>substring = w @ [0], sublength = length w\<rparr>"
  moreover have s: "sub_ok s" "word_of_sub s = w"
    using w cstr_zero[OF w, of "[]"] by (auto simp: sub_ok_def s_def word_of_sub_def)
  ultimately have add: "TagLexerSubList_AddSub l (w @ 0 # ys) (length w) =
      (let l1 = (if subscount l \<ge> subsreserved l
               then l\<lparr>subsreserved := 2 * subsreserved l,
                      subs := take (2 * subsreserved l) (subs l)
                        @ replicate (2 * subsreserved l - length (subs l)) zero_sub\<rparr>
               else l) in do {
       ss \<leftarrow> wr (subs l1) (subscount l1) s;
       Some (l1\<lparr>subs := ss, subscount := subscount l1 + 1, total_sub_len := total_sub_len l1 + length w\<rparr>) })"
    by (simp add: TagLexerSubList_AddSub_def Let_def)
  show ?thesis
  proof (cases "subsreserved l \<le> subscount l")
    case True
    then show ?thesis
      using wf s unfolding add
      by (auto simp: sublist_wf_def sublist_words_def mem_simps Let_def list_update_append take_Suc_conv_app_nth nth_append)
  next
    case False
    then show ?thesis
      using wf s unfolding add
      by (auto simp: sublist_wf_def sublist_words_def mem_simps Let_def take_Suc_conv_app_nth)
  qed
qed

lemma capitalise_ok:
  assumes "sub_ok s"
  shows "sub_ok (if b then capitalise s else s) \<and> word_of_sub (if b then capitalise s else s) = cap_word b (word_of_sub s) \<and>
    sublength (if b then capitalise s else s) = length (word_of_sub s)"
proof -
  obtain w where w: "substring s = w @ [0]" "sublength s = length w" "0 \<notin> set w" using assms by (auto simp: sub_ok_def)
  have ws: "word_of_sub s = w" using w cstr_zero[of w "[]"] by (simp add: word_of_sub_def)
  have up0: "c_toupper c \<noteq> 0" if "c \<noteq> 0" for c
  proof (cases "97 \<le> c \<and> c \<le> 122")
    case True
    have "c \<noteq> 32" using True by (auto simp: word_le_nat_alt)
    then show ?thesis using True by (auto simp: c_toupper_def)
  qed (use that in \<open>auto simp: c_toupper_def\<close>)
  show ?thesis
  proof (cases b)
    case False
    then show ?thesis using assms ws w(2) by (cases w) auto
  next
    case True
    show ?thesis
    proof (cases w)
      case Nil
      then show ?thesis
        using True w ws by (auto simp: capitalise_def sub_ok_def word_of_sub_def c_toupper_def)
    next
      case (Cons c cs)
      have nz: "0 \<notin> set (c_toupper c # cs)" using w(3) Cons up0 by auto
      have "substring (capitalise s) = (c_toupper c # cs) @ [0]" using w(1) Cons by (simp add: capitalise_def)
      then show ?thesis
        using True w(2) Cons nz ws cstr_zero[OF nz, of "[]"]
        by (auto simp: sub_ok_def word_of_sub_def capitalise_def intro!: exI[of _ "c_toupper c # cs"])
    qed
  qed
qed

lemma length_cap_word [simp]: "length (cap_word b w) = length w"
  by (cases "(b, w)" rule: cap_word.cases) auto

lemma length_replaced:
  "length ws = length toks \<Longrightarrow> sorted_wrt token_before toks \<Longrightarrow>
   \<forall>tok \<in> set toks. pos \<le> tindex tok \<and> tindex tok + tlength tok \<le> length s \<Longrightarrow> pos \<le> length s \<Longrightarrow>
   length (replaced s pos toks ws) + sum_list (map tlength toks) = length s - pos + sum_list (map length ws) \<and>
   sum_list (map tlength toks) \<le> length s - pos"
proof (induction s pos toks ws rule: replaced.induct)
  case (1 s pos tok toks w ws)
  have p: "pos \<le> tindex tok" "tindex tok + tlength tok \<le> length s" using "1.prems"(3) by auto
  have rest: "\<forall>t \<in> set toks. tindex tok + tlength tok \<le> tindex t \<and> tindex t + tlength t \<le> length s"
    using "1.prems"(2,3) by (auto simp: token_before_def)
  let ?rep = "replaced s (tindex tok + tlength tok) toks ws" and ?sum = "sum_list (map tlength toks)"
  have "length ?rep + ?sum = length s - (tindex tok + tlength tok) + sum_list (map length ws) \<and>
      ?sum \<le> length s - (tindex tok + tlength tok)"
    by (rule "1.IH") (use "1.prems"(1,2) rest p in auto)
  moreover have "length (replaced s pos (tok # toks) (w # ws)) = tindex tok - pos + length w + length ?rep"
    using p by simp
  ultimately show ?case using p by (simp only: list.map sum_list.Cons) linarith
qed auto

lemma sub_loop_ok:
  assumes s: "0 \<notin> set s" and toks: "\<forall>tok \<in> set toks. tindex tok + tlength tok \<le> length s"
    "sorted_wrt token_before toks" and cells: "take cnt (ttokens res) = toks" "length toks = cnt"
  shows "idx + n = cnt \<Longrightarrow> length (subs l) \<ge> cnt \<Longrightarrow> \<forall>w \<in> set (drop idx (take cnt (subs l))). sub_ok w \<Longrightarrow>
    ws = map word_of_sub (drop idx (take cnt (subs l))) \<Longrightarrow>
    pos \<le> length s \<Longrightarrow> \<forall>tok \<in> set (drop idx toks). pos \<le> tindex tok \<Longrightarrow> length s < 2 ^ 63 \<Longrightarrow>
    terminated buf \<Longrightarrow> length (cstr buf) + length (replaced s pos (drop idx toks) ws) < length buf \<Longrightarrow>
    \<exists>buf' pos' l'. sub_loop res (s @ 0 # ys) idx n pos buf l = Some (buf', pos', l') \<and>
      terminated buf' \<and> length buf' = length buf \<and> pos' \<le> length s \<and>
      cstr buf' @ drop pos' s = cstr buf @ replaced s pos (drop idx toks) ws"
proof (induction n arbitrary: idx l ws pos buf)
  case 0
  then show ?case using cells(2) by auto
next
  case (Suc n)
  let ?str = "s @ 0 # ys"
  have i: "idx < cnt" using Suc.prems(1) by simp
  define tok where "tok = toks ! idx"
  have dt: "drop idx toks = tok # drop (Suc idx) toks" using i cells(2) by (simp add: tok_def Cons_nth_drop_Suc)
  then have tin: "tok \<in> set (drop idx toks)" by simp
  then have tp: "pos \<le> tindex tok" "tindex tok + tlength tok \<le> length s"
    using Suc.prems(6) toks(1) by (auto dest: in_set_dropD)
  define sub where "sub = subs l ! idx"
  have ds: "drop idx (take cnt (subs l)) = sub # drop (Suc idx) (take cnt (subs l))"
    using i Suc.prems(2) by (simp add: sub_def Cons_nth_drop_Suc[symmetric])
  define sub' where "sub' = (if bShouldCap tok then capitalise sub else sub)"
  have "sub_ok sub" using Suc.prems(3) ds by simp
  note cap = capitalise_ok[OF this, of "bShouldCap tok", folded sub'_def]
  define w where "w = word_of_sub sub"
  define wrest where "wrest = map word_of_sub (drop (Suc idx) (take cnt (subs l)))"
  have ws: "ws = w # wrest" using Suc.prems(4) ds by (simp add: w_def wrest_def)
  define q where "q = tindex tok + tlength tok"
  define pre where "pre = take (tindex tok - pos) (drop pos s)"
  have rep: "replaced s pos (drop idx toks) ws = pre @ cap_word (bShouldCap tok) w @ replaced s q (drop (Suc idx) toks) wrest"
    by (simp add: dt ws pre_def q_def)
  have rtok: "rd (ttokens res) idx = Some tok"
    using i cells by (auto simp: tok_def rd_def)
  have rsub: "rd (subs l) idx = Some sub" using i Suc.prems(2) by (simp add: sub_def mem_simps)
  have r0: "\<exists>x. rd (substring sub) 0 = Some x" using \<open>sub_ok sub\<close> by (auto simp: sub_ok_def mem_simps)
  have d: "sz_sub (tindex tok) pos = tindex tok - pos" using tp Suc.prems(7) by (intro sz_sub_le) simp_all
  have tk: "take (tindex tok - pos) (drop pos ?str) = pre" using tp by (simp add: pre_def)
  have pre: "cstr pre = pre" using s by (auto simp: pre_def intro: cstr_id dest: in_set_takeD in_set_dropD)
  have lp: "tindex tok - pos \<le> length (drop pos ?str)" using tp by simp
  obtain b1 where b1: "c_strncat buf (drop pos ?str) (tindex tok - pos) = Some b1" "length b1 = length buf"
    "terminated b1" "cstr b1 = cstr buf @ pre"
    using c_strncat_ok[OF Suc.prems(8), of "tindex tok - pos" "drop pos ?str"] lp tk pre Suc.prems(9) rep by auto
  obtain w' where w': "substring sub' = w' @ [0]" "0 \<notin> set w'" "sublength sub' = length w'"
    using cap by (auto simp: sub_ok_def)
  have cw: "w' = cap_word (bShouldCap tok) w"
    using cap w' cstr_zero[OF w'(2), of "[]"] by (simp add: word_of_sub_def w_def)
  have tk2: "cstr (take (sublength sub') (substring sub')) = w'" using w' by (simp add: cstr_id)
  have l2: "sublength sub' \<le> length (substring sub')" using w' by simp
  obtain b2 where b2: "c_strncat b1 (substring sub') (sublength sub') = Some b2" "length b2 = length buf"
    "terminated b2" "cstr b2 = cstr buf @ pre @ w'"
    using c_strncat_ok[OF b1(3), of "sublength sub'" "substring sub'"] l2 tk2 b1(2,4) Suc.prems(9) rep cw by auto
  define l' where "l' = l\<lparr>subs := (subs l)[idx := sub']\<rparr>"
  have keep: "drop (Suc idx) (take cnt (subs l')) = drop (Suc idx) (take cnt (subs l))"
    by (simp add: l'_def drop_take)
  have step: "sub_loop res ?str idx (Suc n) pos buf l = sub_loop res ?str (Suc idx) n q b2 l'"
    using rtok rsub r0 d b1(1) b2(1) by (auto simp: sub'_def l'_def q_def Let_def)
  have later: "\<forall>t \<in> set (drop (Suc idx) toks). q \<le> tindex t"
  proof
    fix t assume t: "t \<in> set (drop (Suc idx) toks)"
    have "sorted_wrt token_before (tok # drop (Suc idx) toks)"
      using sorted_wrt_drop[OF toks(2), of idx] dt by simp
    then show "q \<le> tindex t" using t by (simp add: token_before_def q_def)
  qed
  have "\<exists>buf' pos' l''. sub_loop res ?str (Suc idx) n q b2 l' = Some (buf', pos', l'') \<and>
      terminated buf' \<and> length buf' = length b2 \<and> pos' \<le> length s \<and>
      cstr buf' @ drop pos' s = cstr b2 @ replaced s q (drop (Suc idx) toks) wrest"
  proof (rule Suc.IH)
    show "Suc idx + n = cnt" using Suc.prems(1) by simp
    show "cnt \<le> length (subs l')" using Suc.prems(2) by (simp add: l'_def)
    show "\<forall>w \<in> set (drop (Suc idx) (take cnt (subs l'))). sub_ok w" using Suc.prems(3) ds keep by simp
    show "wrest = map word_of_sub (drop (Suc idx) (take cnt (subs l')))" using keep by (simp add: wrest_def)
    show "q \<le> length s" using tp by (simp add: q_def)
    show "length (cstr b2) + length (replaced s q (drop (Suc idx) toks) wrest) < length b2"
      using Suc.prems(9) rep b2 cw by simp
  qed (use later Suc.prems(7) b2 in auto)
  then show ?case using step b2 rep cw by auto
qed

text \<open>The words added one after the other, as the callers do.\<close>

fun add_words :: "TagLexerSubList \<Rightarrow> byte list list \<Rightarrow> TagLexerSubList option" where
  "add_words l [] = Some l"
| "add_words l (w # ws) = do { l \<leftarrow> TagLexerSubList_AddSub l (w @ [0]) (length w); add_words l ws }"

lemma add_words_ok:
  "sublist_wf l \<Longrightarrow> \<forall>w \<in> set ws. 0 \<notin> set w \<Longrightarrow>
   \<exists>l'. add_words l ws = Some l' \<and> sublist_wf l' \<and> sublist_words l' = sublist_words l @ ws"
proof (induction ws arbitrary: l)
  case (Cons w ws)
  obtain l1 where l1: "TagLexerSubList_AddSub l (w @ [0]) (length w) = Some l1" "sublist_wf l1"
    "sublist_words l1 = sublist_words l @ [w]"
    using AddSub_ok[of l w "[]"] Cons.prems by auto
  with Cons.IH[of l1] Cons.prems show ?case by auto
qed simp

lemma TagLexer_Init_ok:
  assumes "0 \<notin> set acc" "length acc \<le> 128"
  shows "\<exists>lexer. TagLexer_Init (acc @ [0]) = Some lexer \<and> cstr (tokenlist lexer) = acc \<and> terminated (tokenlist lexer)"
proof -
  have "c_strnlen (acc @ [0]) 128 = Some (length acc)" using assms by (intro c_strnlen_prefix) auto
  moreover have "c_strncpy (replicate (length acc + 1) 0) (acc @ [0]) (length acc + 1) = Some (acc @ [0])"
    using c_strncpy_ok[of "length acc + 1" "replicate (length acc + 1) 0" "acc @ [0]"] cstr_zero[OF assms(1), of "[]"]
    by simp
  ultimately show ?thesis using cstr_zero[OF assms(1), of "[]"]
    by (simp add: TagLexer_Init_def terminated_def)
qed

text \<open>With more than 128 markers the copy is not terminated.\<close>

lemma TagLexer_Init_long:
  assumes "0 \<notin> set acc" "128 < length acc"
  shows "\<exists>lexer. TagLexer_Init (acc @ [0]) = Some lexer \<and> \<not> terminated (tokenlist lexer)"
proof -
  have t: "0 \<notin> set (take k acc)" for k using assms(1) by (meson in_set_takeD)
  have "c_strnlen (acc @ [0]) 128 = Some 128"
    using assms t[of 128] by (simp add: c_strnlen_ok cstr_id)
  moreover have "c_strncpy (replicate (128 + 1) 0) (acc @ [0]) (128 + 1) = Some (take 129 acc)"
    using c_strncpy_ok[of "128 + 1" "replicate (128 + 1) 0" "acc @ [0]"] assms t[of 129] by (simp add: cstr_id)
  ultimately have "TagLexer_Init (acc @ [0]) = Some \<lparr>tokenlist = take 129 acc, tokenlistlen = 128\<rparr>"
    unfolding TagLexer_Init_def by (simp only: bind.bind_lunit)
  then show ?thesis using t[of 129] by (simp add: terminated_def)
qed

lemma PerformSub_ok:
  assumes s: "0 \<notin> set s" and p: "parsed acc s (length s) res" and l: "sublist_wf l"
    and cnt: "tokencount res = subscount l"
    and small: "length s + sum_list (map length (sublist_words l)) < 2 ^ 63"
  shows "\<exists>buf l'. TagLexerResult_PerformSub res l (s @ 0 # ys) (length s) = Some (Some buf, l') \<and>
    buf = replaced s 0 (result_tokens res) (sublist_words l) @ [0]"
proof -
  define toks where "toks = result_tokens res"
  define ws where "ws = sublist_words l"
  let ?str = "s @ 0 # ys" and ?cnt = "tokencount res" and ?rep = "replaced s 0 toks ws"
  have lt: "length toks = ?cnt" "take ?cnt (ttokens res) = toks"
    using p by (auto simp: toks_def result_tokens_def parsed_def result_wf_def)
  have ends: "\<forall>tok \<in> set toks. tindex tok + tlength tok \<le> length s" "sorted_wrt token_before toks"
    using p by (auto simp: toks_def parsed_def)
  have lw: "length (subs l) \<ge> ?cnt" "length ws = ?cnt" "\<forall>w \<in> set (drop 0 (take ?cnt (subs l))). sub_ok w"
    "ws = map word_of_sub (drop 0 (take ?cnt (subs l)))"
    using l cnt by (auto simp: sublist_wf_def ws_def sublist_words_def)
  have tot: "total_token_len res = sum_list (map tlength toks)" "total_sub_len l = sum_list (map length ws)"
    using p l by (auto simp: toks_def ws_def parsed_def result_wf_def sublist_wf_def)
  have len: "length ?rep + sum_list (map tlength toks) = length s - 0 + sum_list (map length ws) \<and>
      sum_list (map tlength toks) \<le> length s - 0"
    using ends lw lt by (intro length_replaced) auto
  have small': "length s + sum_list (map length ws) < 2 ^ 63" using small by (simp add: ws_def)
  have fits: "length s < 2 ^ 64" "sum_list (map tlength toks) \<le> length s" using len small' by simp_all
  have "sz_sub (length s) (total_token_len res) = length s - sum_list (map tlength toks)"
    unfolding tot by (rule sz_sub_le[OF fits(2,1)])
  then have "sz_sub (length s) (total_token_len res) + total_sub_len l + 1 = length ?rep + 1"
    using len tot by linarith
  moreover have "length ?rep + 1 < 2 ^ 64" using len[THEN conjunct1] small' by simp
  ultimately have req: "sz (sz_sub (length s) (total_token_len res) + total_sub_len l + 1) = length ?rep + 1"
    by (simp only: sz_small)
  define zs where "zs = replicate (length ?rep + 1) (0 :: byte)"
  have zs: "terminated zs" "cstr zs = []" "length zs = length ?rep + 1" by (auto simp: zs_def terminated_def)
  have "\<exists>buf' pos' l'. sub_loop res ?str 0 ?cnt 0 zs l = Some (buf', pos', l') \<and>
      terminated buf' \<and> length buf' = length zs \<and> pos' \<le> length s \<and>
      cstr buf' @ drop pos' s = cstr zs @ replaced s 0 (drop 0 toks) ws"
    by (rule sub_loop_ok[OF s ends lt(2,1)]) (use lw zs small' in auto)
  then obtain buf pos l' where sub: "sub_loop res ?str 0 ?cnt 0 zs l = Some (buf, pos, l')" "terminated buf"
    "length buf = length ?rep + 1" "pos \<le> length s" "cstr buf @ drop pos s = ?rep"
    using zs by auto
  have d: "sz_sub (length s) pos + 1 = length s - pos + 1" using sub(4) small' by (subst sz_sub_le) simp_all
  have "0 \<notin> set (drop pos s)" using s by (meson in_set_dropD)
  then have tk: "cstr (take (length s - pos + 1) (drop pos ?str)) = drop pos s"
    using sub(4) by (simp add: cstr_zero)
  have "length s - pos + 1 \<le> length (drop pos ?str)" using sub(4) by simp
  then have fit1: "length s - pos + 1 \<le> length (drop pos ?str) \<or> terminated (drop pos ?str)" by (rule disjI1)
  have fit2: "length (cstr buf) + length (drop pos s) < length buf" using sub(3,5) by (metis length_append less_add_one)
  obtain b where b: "c_strncat buf (drop pos ?str) (length s - pos + 1) = Some b" "length b = length buf"
    "terminated b" "cstr b = ?rep"
    using c_strncat_ok[OF sub(2), of "length s - pos + 1" "drop pos ?str", unfolded tk sub(5), OF fit1 fit2] by blast
  have "b = ?rep @ [0]"
    using terminated_split[OF b(3)] b(2,4) sub(3) by auto
  then show ?thesis
    using cnt sub(1) b(1) req d by (simp add: TagLexerResult_PerformSub_def Let_def toks_def ws_def zs_def)
qed

text \<open>C30: after \<open>TagLexer_Init\<close> with up to 128 markers, \<open>TagLexer_Parse\<close> records exactly the tags of a
  message of at most \<open>2 ^ 31\<close> bytes: every recorded token is a marker followed by all the letters and digits that
  come after it, at least one, with its text copied and its capital flag set when no letter precedes it in its
  sentence; the tokens are in order and disjoint; and every marker followed by a letter or digit lies in one of
  them.\<close>

theorem TagLexer_Parse_correct:
  assumes "0 \<notin> set acc" "length acc \<le> 128" "0 \<notin> set s" "length s \<le> 2 ^ 31"
  shows "\<exists>lexer res. TagLexer_Init (acc @ [0]) = Some lexer \<and>
    TagLexer_Parse lexer (s @ [0]) (length s) TagLexerResult_Init = Some res \<and>
    (\<forall>tok \<in> set (result_tokens res). token_ok acc s tok \<and> cap_ok s tok) \<and>
    sorted_wrt token_before (result_tokens res) \<and>
    (\<forall>i < length s. is_tag acc s i \<longrightarrow> covered (result_tokens res) i) \<and>
    total_token_len res = sum_list (map tlength (result_tokens res))"
proof -
  obtain lexer where lexer: "TagLexer_Init (acc @ [0]) = Some lexer" "cstr (tokenlist lexer) = acc"
    "terminated (tokenlist lexer)"
    using TagLexer_Init_ok[OF assms(1,2)] by blast
  have "parsed acc s 0 TagLexerResult_Init"
    by (simp add: parsed_def result_wf_def result_tokens_def TagLexerResult_Init_def)
  from parse_loop_ok[OF assms(3) this, of "[]"] lexer assms(4) show ?thesis
    by (auto simp: TagLexer_Parse_def parsed_def result_wf_def cap_ok_small_def)
qed

theorem TagLexer_Parse_correct_witness:
  "\<exists>lexer res. TagLexer_Init (bytes_of ''$%'' @ [0]) = Some lexer \<and>
    TagLexer_Parse lexer (bytes_of ''hit. $n kicks %d5!'' @ [0]) (length (bytes_of ''hit. $n kicks %d5!''))
      TagLexerResult_Init = Some res \<and>
    list_all (token_ok (bytes_of ''$%'') (bytes_of ''hit. $n kicks %d5!'')) (result_tokens res) \<and>
    list_all (cap_ok (bytes_of ''hit. $n kicks %d5!'')) (result_tokens res) \<and>
    sorted_wrt token_before (result_tokens res) \<and>
    covered (result_tokens res) 5 \<and> covered (result_tokens res) 14 \<and>
    total_token_len res = sum_list (map tlength (result_tokens res))"
proof -
  let ?acc = "bytes_of ''$%''" and ?s = "bytes_of ''hit. $n kicks %d5!''"
  have "0 \<notin> set ?acc" "length ?acc \<le> 128" "0 \<notin> set ?s" "length ?s \<le> 2 ^ 31" "is_tag ?acc ?s 5" "is_tag ?acc ?s 14" "14 < length ?s"
    by (simp_all add: bytes_of_def is_tag_def c_isalnum_def c_isalpha_def c_isdigit_def)
  then show ?thesis using TagLexer_Parse_correct[of ?acc ?s] by (force simp: list_all_iff)
qed

text \<open>C14: \<open>TagLexerResult_PerformSub\<close> on a parsed message and as many words as tokens returns the message with
  the tokens replaced, in order, by the words (the first letter raised where the flag asks for it), in a
  block that holds exactly this string and its terminator; no call writes outside it.\<close>

theorem TagLexerResult_PerformSub_correct:
  assumes "0 \<notin> set acc" "length acc \<le> 128" "0 \<notin> set s" "\<forall>w \<in> set ws. 0 \<notin> set w"
    "TagLexer_Init (acc @ [0]) = Some lexer"
    "TagLexer_Parse lexer (s @ [0]) (length s) TagLexerResult_Init = Some res"
    "length ws = tokencount res" "length s + sum_list (map length ws) < 2 ^ 63"
  shows "\<exists>l buf l'. add_words TagLexerSubList_Init ws = Some l \<and>
    TagLexerResult_PerformSub res l (s @ [0]) (length s) = Some (Some buf, l') \<and>
    buf = replaced s 0 (result_tokens res) ws @ [0]"
proof -
  have "cstr (tokenlist lexer) = acc"
    using TagLexer_Init_ok[OF assms(1,2)] assms(5) by auto
  moreover have "parsed acc s 0 TagLexerResult_Init"
    by (simp add: parsed_def result_wf_def result_tokens_def TagLexerResult_Init_def)
  ultimately have p: "parsed acc s (length s) res"
    using parse_loop_ok[OF assms(3), of acc 0 TagLexerResult_Init "[]"] assms(6)
    by (auto simp: TagLexer_Parse_def split: if_splits)
  have "sublist_wf TagLexerSubList_Init" "sublist_words TagLexerSubList_Init = []"
    by (simp_all add: sublist_wf_def sublist_words_def TagLexerSubList_Init_def)
  from add_words_ok[OF this(1) assms(4)] this(2)
  obtain l where l: "add_words TagLexerSubList_Init ws = Some l" "sublist_wf l" "sublist_words l = ws" by auto
  have "subscount l = length ws" using l(2,3) by (auto simp: sublist_wf_def sublist_words_def)
  then show ?thesis using PerformSub_ok[OF assms(3) p l(2), of "[]"] l assms(7,8) by auto
qed

theorem TagLexerResult_PerformSub_correct_witness:
  "\<exists>l buf l'. add_words TagLexerSubList_Init [bytes_of ''you'', bytes_of ''the troll''] = Some l \<and>
    TagLexerResult_PerformSub
      (the (TagLexer_Parse (the (TagLexer_Init (bytes_of ''$%'' @ [0])))
        (bytes_of ''$n kick %d5!'' @ [0]) (length (bytes_of ''$n kick %d5!'')) TagLexerResult_Init))
      l (bytes_of ''$n kick %d5!'' @ [0]) (length (bytes_of ''$n kick %d5!'')) = Some (Some buf, l') \<and>
    buf = replaced (bytes_of ''$n kick %d5!'') 0
      (result_tokens (the (TagLexer_Parse (the (TagLexer_Init (bytes_of ''$%'' @ [0])))
        (bytes_of ''$n kick %d5!'' @ [0]) (length (bytes_of ''$n kick %d5!'')) TagLexerResult_Init)))
      [bytes_of ''you'', bytes_of ''the troll''] @ [0]"
proof (rule TagLexerResult_PerformSub_correct)
  let ?s = "bytes_of ''$n kick %d5!''" and ?lexer = "the (TagLexer_Init (bytes_of ''$%'' @ [0]))"
  show "0 \<notin> set (bytes_of ''$%'')" "length (bytes_of ''$%'') \<le> 128" "0 \<notin> set ?s"
    "\<forall>w \<in> set [bytes_of ''you'', bytes_of ''the troll'']. 0 \<notin> set w"
    by (simp_all add: bytes_of_def)
  show "TagLexer_Init (bytes_of ''$%'' @ [0]) = Some ?lexer" by code_simp
  show "TagLexer_Parse ?lexer (?s @ [0]) (length ?s) TagLexerResult_Init =
      Some (the (TagLexer_Parse ?lexer (?s @ [0]) (length ?s) TagLexerResult_Init))" by code_simp
  show "length [bytes_of ''you'', bytes_of ''the troll''] =
      tokencount (the (TagLexer_Parse ?lexer (?s @ [0]) (length ?s) TagLexerResult_Init))" by code_simp
  show "length ?s + sum_list (map length [bytes_of ''you'', bytes_of ''the troll'']) < 2 ^ 63"
    by (simp add: bytes_of_def)
qed

end
