(* ===== verification/ThreadPool.thy ===== *)
theory ThreadPool
  imports Prioq PoolAlloc "HOL-Library.Sublist"
begin

text \<open>
  threadpool.c: worker threads that take tasks from one priority queue. The functions a client calls are
  definitions on the pool's state; the threads and their callers are a step relation whose steps are the
  stretches of code between two points where another thread can interfere: taking the mutex, the loop
  test, going to sleep in \<open>pthread_cond_wait\<close>, running a task and so on. A step carries the event it
  makes visible.

  The mutex, the condition variable and the threads are the documented behaviour of POSIX: a mutex has at
  most one owner, \<open>pthread_cond_wait\<close> releases it and falls asleep in one step and takes it again after it
  is woken, a signal wakes at least one sleeper if there is one, a broadcast wakes all, and a sleeper
  may also wake up without cause.
\<close>

section \<open>State and operations\<close>

record 'a thread_task =
  taskfn :: "nat option"
  pArgs :: 'a
  releasefn :: "nat option"

definition sizeof_ThreadTask :: int where
  "sizeof_ThreadTask = 24"

text \<open>Where a worker stands in \<open>ThreadPool_WorkerThreadFunc\<close>. It owns the mutex in \<open>W_test\<close>, \<open>W_sleep\<close> and \<open>W_take\<close>.\<close>

datatype worker_pc =
    W_lock
  | W_test
  | W_sleep
  | W_asleep
  | W_woken
  | W_take
  | W_run node
  | W_release node
  | W_free node
  | W_done

record 'a thread_pool =
  threads :: "worker_pc list"
  prio_queue :: "node prioq"
  mutex_owner :: "nat option"
  bIsRunning :: bool
  tp_alloc :: alloc_pool
  tasks :: "node \<Rightarrow> 'a thread_task"
  created :: "(node \<times> int) multiset"
  signals :: nat
  broadcasts :: nat

text \<open>
  \<open>created\<close> holds the tasks of callers that have built a task and not inserted it yet, \<open>signals\<close> and
  \<open>broadcasts\<close> count the callers that have still to wake a worker.
\<close>

definition ThreadPool_Init ::
    "node prioqnode mem_mgr \<Rightarrow> (nat \<Rightarrow> bool) \<Rightarrow> (nat \<Rightarrow> bool) \<Rightarrow> 'a thread_task \<Rightarrow> nat \<Rightarrow> (int \<times> 'a thread_pool) option" where
  "ThreadPool_Init M granted thread_ok junk cores = do {
     ap \<leftarrow> AllocPool_Init granted 64 sizeof_ThreadTask;
     (r, q) \<leftarrow> prioq_create M 256;
     let tp = \<lparr>threads = [], prio_queue = q, mutex_owner = None, bIsRunning = 0 \<le> r, tp_alloc = ap,
               tasks = (\<lambda>_. junk), created = {#}, signals = 0, broadcasts = 0\<rparr>;
     if r < 0 then Some (- 1, tp)
     else if cores = 0 then Some (0, tp)
     else if \<not> granted (sz (8 * cores)) then None
     else (case first_idx (\<lambda>i. \<not> thread_ok i) [0..<cores] of
             Some i \<Rightarrow> Some (- 1, tp\<lparr>threads := replicate i W_lock\<rparr>)
           | None \<Rightarrow> Some (0, tp\<lparr>threads := replicate cores W_lock\<rparr>))
   }"

definition CreateTask ::
    "(nat \<Rightarrow> bool) \<Rightarrow> 'a thread_pool \<Rightarrow> nat option \<Rightarrow> int \<Rightarrow> 'a \<Rightarrow> nat option \<Rightarrow> (node \<times> 'a thread_pool) option" where
  "CreateTask granted tp fn priority args releaser = do {
     (p, ap) \<leftarrow> AllocPool_Alloc granted (tp_alloc tp);
     Some (p, tp\<lparr>tp_alloc := element_write p None ap,
                 tasks := (tasks tp)(p := \<lparr>taskfn = fn, pArgs = args, releasefn = releaser\<rparr>)\<rparr>)
   }"

text \<open>The part of \<open>ThreadPool_AddTask\<close> under the mutex.\<close>

definition insert_task :: "node prioqnode mem_mgr \<Rightarrow> 'a thread_pool \<Rightarrow> int \<Rightarrow> node \<Rightarrow> (int \<times> 'a thread_pool) option" where
  "insert_task M tp priority p = do {
     (r, q) \<leftarrow> prioq_min_insert M (prio_queue tp) priority (Some p);
     Some (r, tp\<lparr>prio_queue := q\<rparr>)
   }"

definition signal_worker :: "nat \<Rightarrow> 'a thread_pool \<Rightarrow> 'a thread_pool" where
  "signal_worker i tp = tp\<lparr>threads := (threads tp)[i := W_woken]\<rparr>"

text \<open>A whole call of \<open>ThreadPool_AddTask\<close> with no other thread in between, up to the signal.\<close>

definition ThreadPool_AddTask ::
    "node prioqnode mem_mgr \<Rightarrow> (nat \<Rightarrow> bool) \<Rightarrow> 'a thread_pool \<Rightarrow> nat option \<Rightarrow> int \<Rightarrow> 'a \<Rightarrow> nat option
     \<Rightarrow> (int \<times> 'a thread_pool) option" where
  "ThreadPool_AddTask M granted tp fn priority args releaser = do {
     (p, tp) \<leftarrow> CreateTask granted tp fn priority args releaser;
     (r, tp) \<leftarrow> insert_task M tp priority p;
     Some (r, tp\<lparr>signals := signals tp + 1\<rparr>)
   }"

definition wake :: "worker_pc \<Rightarrow> worker_pc" where
  "wake pc = (if pc = W_asleep then W_woken else pc)"

definition clear_running :: "'a thread_pool \<Rightarrow> 'a thread_pool" where
  "clear_running tp = tp\<lparr>bIsRunning := False, broadcasts := broadcasts tp + 1\<rparr>"

definition broadcast :: "'a thread_pool \<Rightarrow> 'a thread_pool" where
  "broadcast tp = tp\<lparr>threads := map wake (threads tp), broadcasts := broadcasts tp - 1\<rparr>"

definition ThreadPool_Stop :: "'a thread_pool \<Rightarrow> 'a thread_pool" where
  "ThreadPool_Stop tp = broadcast (clear_running tp)"

text \<open>
  The loop of \<open>ThreadPool_Destroy\<close> over the tasks left in the queue, once the threads are joined: the
  calls of release functions it makes, each with the pointer it passes.
\<close>

lemma extract_min_shrinks:
  "prioq_extract_min M q = Some (Some p, q') \<Longrightarrow> ah_len q' < ah_len q"
  by (auto simp: prioq_extract_min_def ah_extract_def ah_remove_root_def ah_heapify_def zero_node_def Let_def
      split: if_splits bind_splits)

function destroy_loop ::
    "node prioqnode mem_mgr \<Rightarrow> (node \<Rightarrow> 'a thread_task) \<Rightarrow> node prioq \<Rightarrow> ((nat \<times> node) list \<times> node prioq) option" where
  "destroy_loop M ts q =
     (case prioq_extract_min M q of
        None \<Rightarrow> None
      | Some (None, q') \<Rightarrow> Some ([], q')
      | Some (Some p, q') \<Rightarrow>
          (case releasefn (ts p) of
             Some f \<Rightarrow> Some ([(f, p)], q')
           | None \<Rightarrow> destroy_loop M ts q'))"
  by pat_completeness auto
termination
  by (relation "measure (\<lambda>(M, ts, q). ah_len q)") (auto dest: extract_min_shrinks)

declare destroy_loop.simps [simp del]

text \<open>\<open>ThreadPool_Destroy\<close> after the joins: the calls it makes, the tasks it leaves and the blocks it returns.\<close>

definition ThreadPool_Destroy ::
    "node prioqnode mem_mgr \<Rightarrow> 'a thread_pool \<Rightarrow> ((nat \<times> node) list \<times> node prioq \<times> nat list) option" where
  "ThreadPool_Destroy M tp = do {
     (calls, q) \<leftarrow> destroy_loop M (tasks tp) (prio_queue tp);
     Some (calls, q, AllocPool_Destroy (tp_alloc tp))
   }"

section \<open>The threads\<close>

datatype 'a tp_event =
    Silent
  | Added int "'a thread_task"
  | Rejected "'a thread_task"
  | Taken "'a thread_task"
  | Ran nat 'a
  | Released nat 'a
  | Retired "'a thread_task"

datatype actor = Worker nat | Client | Chance

definition set_pc :: "nat \<Rightarrow> worker_pc \<Rightarrow> 'a thread_pool \<Rightarrow> 'a thread_pool" where
  "set_pc i pc tp = tp\<lparr>threads := (threads tp)[i := pc]\<rparr>"

definition at :: "'a thread_pool \<Rightarrow> nat \<Rightarrow> worker_pc \<Rightarrow> bool" where
  "at tp i pc \<longleftrightarrow> i < length (threads tp) \<and> threads tp ! i = pc"

text \<open>The worker's loop condition.\<close>

definition must_wait :: "'a thread_pool \<Rightarrow> bool" where
  "must_wait tp \<longleftrightarrow> prioq_get_size (prio_queue tp) = 0 \<and> bIsRunning tp"

inductive tp_step ::
    "node prioqnode mem_mgr \<Rightarrow> (nat \<Rightarrow> bool) \<Rightarrow> bool \<Rightarrow> actor \<Rightarrow> 'a tp_event \<Rightarrow> 'a thread_pool \<Rightarrow> 'a thread_pool \<Rightarrow> bool"
  for M granted wait_fails where
  w_lock: "at tp i W_lock \<Longrightarrow> mutex_owner tp = None \<Longrightarrow>
     tp_step M granted wait_fails (Worker i) Silent tp (set_pc i W_test (tp\<lparr>mutex_owner := Some i\<rparr>))"
| w_wait: "at tp i W_test \<Longrightarrow> must_wait tp \<Longrightarrow>
     tp_step M granted wait_fails (Worker i) Silent tp (set_pc i W_sleep tp)"
| w_enter: "at tp i W_test \<Longrightarrow> \<not> must_wait tp \<Longrightarrow>
     tp_step M granted wait_fails (Worker i) Silent tp (set_pc i W_take tp)"
| w_sleep: "at tp i W_sleep \<Longrightarrow>
     tp_step M granted wait_fails (Worker i) Silent tp (set_pc i W_asleep (tp\<lparr>mutex_owner := None\<rparr>))"
| w_wait_fails: "at tp i W_sleep \<Longrightarrow> wait_fails \<Longrightarrow>
     tp_step M granted wait_fails (Worker i) Silent tp (set_pc i W_done (tp\<lparr>mutex_owner := None\<rparr>))"
| w_woken: "at tp i W_woken \<Longrightarrow> mutex_owner tp = None \<Longrightarrow>
     tp_step M granted wait_fails (Worker i) Silent tp (set_pc i W_test (tp\<lparr>mutex_owner := Some i\<rparr>))"
| w_break: "at tp i W_take \<Longrightarrow> \<not> bIsRunning tp \<Longrightarrow>
     tp_step M granted wait_fails (Worker i) Silent tp (set_pc i W_done (tp\<lparr>mutex_owner := None\<rparr>))"
| w_take: "at tp i W_take \<Longrightarrow> bIsRunning tp \<Longrightarrow> prioq_extract_min M (prio_queue tp) = Some (Some p, q) \<Longrightarrow>
     tp_step M granted wait_fails (Worker i) (Taken (tasks tp p)) tp
       (set_pc i (W_run p) (tp\<lparr>prio_queue := q, mutex_owner := None\<rparr>))"
| w_take_none: "at tp i W_take \<Longrightarrow> bIsRunning tp \<Longrightarrow> prioq_extract_min M (prio_queue tp) = Some (None, q) \<Longrightarrow>
     tp_step M granted wait_fails (Worker i) Silent tp (set_pc i W_lock (tp\<lparr>prio_queue := q, mutex_owner := None\<rparr>))"
| w_run: "at tp i (W_run p) \<Longrightarrow> ev = (case taskfn (tasks tp p) of None \<Rightarrow> Silent | Some f \<Rightarrow> Ran f (pArgs (tasks tp p))) \<Longrightarrow>
     tp_step M granted wait_fails (Worker i) ev tp (set_pc i (W_release p) tp)"
| w_release: "at tp i (W_release p) \<Longrightarrow>
     ev = (case releasefn (tasks tp p) of None \<Rightarrow> Silent | Some f \<Rightarrow> Released f (pArgs (tasks tp p))) \<Longrightarrow>
     tp_step M granted wait_fails (Worker i) ev tp (set_pc i (W_free p) tp)"
| w_free: "at tp i (W_free p) \<Longrightarrow> AllocPool_Free p (tp_alloc tp) = Some ap \<Longrightarrow>
     tp_step M granted wait_fails (Worker i) (Retired (tasks tp p)) tp (set_pc i W_lock (tp\<lparr>tp_alloc := ap\<rparr>))"
| c_create: "CreateTask granted tp fn priority args releaser = Some (p, tp') \<Longrightarrow>
     tp_step M granted wait_fails Client Silent tp (tp'\<lparr>created := add_mset (p, priority) (created tp')\<rparr>)"
| c_insert: "(p, priority) \<in># created tp \<Longrightarrow> mutex_owner tp = None \<Longrightarrow> prioq_get_size (prio_queue tp) < 2 ^ 30 \<Longrightarrow>
     insert_task M tp priority p = Some (r, tp') \<Longrightarrow>
     tp_step M granted wait_fails Client (if r = 0 then Added priority (tasks tp p) else Rejected (tasks tp p)) tp
       (tp'\<lparr>created := created tp' - {#(p, priority)#}, signals := signals tp' + 1\<rparr>)"
| c_signal: "0 < signals tp \<Longrightarrow> at tp i W_asleep \<Longrightarrow>
     tp_step M granted wait_fails Client Silent tp (signal_worker i (tp\<lparr>signals := signals tp - 1\<rparr>))"
| c_signal_none: "0 < signals tp \<Longrightarrow> W_asleep \<notin> set (threads tp) \<Longrightarrow>
     tp_step M granted wait_fails Client Silent tp (tp\<lparr>signals := signals tp - 1\<rparr>)"
| c_stop: "tp_step M granted wait_fails Client Silent tp (clear_running tp)"
| c_broadcast: "0 < broadcasts tp \<Longrightarrow> tp_step M granted wait_fails Client Silent tp (broadcast tp)"
| spurious: "at tp i W_asleep \<Longrightarrow>
     tp_step M granted wait_fails Chance Silent tp (set_pc i W_woken tp)"

text \<open>The states a pool of \<open>cores\<close> workers can reach, with the events so far, the last one first.\<close>

inductive tp_reachable ::
    "node prioqnode mem_mgr \<Rightarrow> (nat \<Rightarrow> bool) \<Rightarrow> bool \<Rightarrow> nat \<Rightarrow> 'a tp_event list \<Rightarrow> 'a thread_pool \<Rightarrow> bool"
  for M granted wait_fails cores where
  tp_start: "ThreadPool_Init M granted thread_ok junk cores = Some (0, tp) \<Longrightarrow>
     tp_reachable M granted wait_fails cores [] tp"
| tp_next: "tp_reachable M granted wait_fails cores evs tp \<Longrightarrow> tp_step M granted wait_fails a ev tp tp' \<Longrightarrow>
     tp_reachable M granted wait_fails cores (ev # evs) tp'"

section \<open>No task is lost or run twice\<close>

fun nodes_held :: "worker_pc \<Rightarrow> node multiset" where
  "nodes_held (W_run p) = {#p#}"
| "nodes_held (W_release p) = {#p#}"
| "nodes_held (W_free p) = {#p#}"
| "nodes_held _ = {#}"

fun nodes_ran :: "worker_pc \<Rightarrow> node multiset" where
  "nodes_ran (W_release p) = {#p#}"
| "nodes_ran (W_free p) = {#p#}"
| "nodes_ran _ = {#}"

fun nodes_released :: "worker_pc \<Rightarrow> node multiset" where
  "nodes_released (W_free p) = {#p#}"
| "nodes_released _ = {#}"

definition over_threads :: "(worker_pc \<Rightarrow> node multiset) \<Rightarrow> worker_pc list \<Rightarrow> node multiset" where
  "over_threads g pcs = (\<Sum>pc \<in># mset pcs. g pc)"

definition queue_nodes :: "node prioq \<Rightarrow> node multiset" where
  "queue_nodes q = image_mset (the \<circ> pn_data) (ah_items q)"

definition live :: "'a thread_pool \<Rightarrow> node multiset" where
  "live tp = image_mset fst (created tp) + queue_nodes (prio_queue tp) + over_threads nodes_held (threads tp)"

text \<open>What the events say: the tasks accepted and finished, the calls of task and release functions.\<close>

fun added_by :: "'a tp_event \<Rightarrow> 'a thread_task multiset" where
  "added_by (Added k t) = {#t#}"
| "added_by _ = {#}"

fun retired_by :: "'a tp_event \<Rightarrow> 'a thread_task multiset" where
  "retired_by (Retired t) = {#t#}"
| "retired_by _ = {#}"

fun ran_by :: "'a tp_event \<Rightarrow> (nat \<times> 'a) multiset" where
  "ran_by (Ran f x) = {#(f, x)#}"
| "ran_by _ = {#}"

fun released_by :: "'a tp_event \<Rightarrow> (nat \<times> 'a) multiset" where
  "released_by (Released f x) = {#(f, x)#}"
| "released_by _ = {#}"

definition seen :: "('a tp_event \<Rightarrow> 'b multiset) \<Rightarrow> 'a tp_event list \<Rightarrow> 'b multiset" where
  "seen g evs = sum_list (map g evs)"

definition calls :: "('a thread_task \<Rightarrow> nat option) \<Rightarrow> 'a thread_task multiset \<Rightarrow> (nat \<times> 'a) multiset" where
  "calls sel T = (\<Sum>t \<in># T. case sel t of None \<Rightarrow> {#} | Some f \<Rightarrow> {#(f, pArgs t)#})"

definition tp_cons :: "'a tp_event list \<Rightarrow> 'a thread_pool \<Rightarrow> bool" where
  "tp_cons evs tp \<longleftrightarrow>
     seen added_by evs = image_mset (tasks tp) (queue_nodes (prio_queue tp) + over_threads nodes_held (threads tp))
       + seen retired_by evs \<and>
     seen ran_by evs = calls taskfn (image_mset (tasks tp) (over_threads nodes_ran (threads tp)) + seen retired_by evs) \<and>
     seen released_by evs = calls releasefn (image_mset (tasks tp) (over_threads nodes_released (threads tp)) + seen retired_by evs)"

definition tp_mem :: "'a thread_pool \<Rightarrow> bool" where
  "tp_mem tp \<longleftrightarrow> prioq_wf (prio_queue tp) \<and> (\<forall>e \<in># ah_items (prio_queue tp). pn_data e \<noteq> None) \<and>
     pool_wf (tp_alloc tp) (set_mset (live tp)) \<and> (\<forall>p. count (live tp) p \<le> 1)"

definition owns :: "worker_pc \<Rightarrow> bool" where
  "owns pc \<longleftrightarrow> pc \<in> {W_test, W_sleep, W_take}"

definition tp_lock :: "'a thread_pool \<Rightarrow> bool" where
  "tp_lock tp \<longleftrightarrow> (\<forall>i. mutex_owner tp = Some i \<longleftrightarrow> i < length (threads tp) \<and> owns (threads tp ! i)) \<and>
     (\<forall>i. at tp i W_sleep \<longrightarrow> ah_len (prio_queue tp) = 0) \<and>
     (\<forall>i. at tp i W_take \<longrightarrow> bIsRunning tp \<longrightarrow> 0 < ah_len (prio_queue tp))"

lemma seen_simps [simp]: "seen g [] = {#}" "seen g (ev # evs) = g ev + seen g evs"
  by (simp_all add: seen_def)

lemma calls_simps [simp]:
  "calls sel {#} = {#}" "calls sel (S + T) = calls sel S + calls sel T"
  "calls sel (add_mset t T) = (case sel t of None \<Rightarrow> {#} | Some f \<Rightarrow> {#(f, pArgs t)#}) + calls sel T"
  by (simp_all add: calls_def)

lemma over_threads_update:
  assumes "i < length pcs"
  obtains R where "\<And>pc. over_threads g (pcs[i := pc]) = g pc + R" "over_threads g pcs = g (pcs ! i) + R"
proof
  let ?R = "\<Sum>pc \<in># mset pcs - {#pcs ! i#}. g pc"
  show "over_threads g (pcs[i := pc]) = g pc + ?R" for pc
    using assms by (simp add: over_threads_def mset_update)
  have "mset pcs = add_mset (pcs ! i) (mset pcs - {#pcs ! i#})" using assms by simp
  then show "over_threads g pcs = g (pcs ! i) + ?R"
    unfolding over_threads_def by (metis image_mset_add_mset sum_mset.add_mset)
qed

lemma over_threads_same:
  "i < length pcs \<Longrightarrow> g pc = g (pcs ! i) \<Longrightarrow> over_threads g (pcs[i := pc]) = over_threads g pcs"
  using over_threads_update[of i pcs g] by metis

lemma over_threads_wake:
  "(\<And>pc. g (wake pc) = g pc) \<Longrightarrow> over_threads g (map wake pcs) = over_threads g pcs"
  by (simp add: over_threads_def image_mset.compositionality comp_def)

lemma wake_nodes [simp]:
  "nodes_held (wake pc) = nodes_held pc" "nodes_ran (wake pc) = nodes_ran pc" "nodes_released (wake pc) = nodes_released pc"
  by (auto simp: wake_def)

lemma nodes_ran_sub: "over_threads nodes_ran pcs \<subseteq># over_threads nodes_held pcs"
proof (induction pcs)
  case (Cons pc pcs)
  have "nodes_ran pc \<subseteq># nodes_held pc" by (cases pc) auto
  then show ?case using Cons by (simp add: over_threads_def subset_mset.add_mono)
qed (simp add: over_threads_def)

lemma nodes_released_sub: "over_threads nodes_released pcs \<subseteq># over_threads nodes_held pcs"
proof (induction pcs)
  case (Cons pc pcs)
  have "nodes_released pc \<subseteq># nodes_held pc" by (cases pc) auto
  then show ?case using Cons by (simp add: over_threads_def subset_mset.add_mono)
qed (simp add: over_threads_def)

text \<open>A step that moves no task: the queue, the pool, the tasks and the nodes at work stay.\<close>

definition same_tasks :: "'a thread_pool \<Rightarrow> 'a thread_pool \<Rightarrow> bool" where
  "same_tasks tp tp' \<longleftrightarrow> prio_queue tp' = prio_queue tp \<and> tp_alloc tp' = tp_alloc tp \<and> tasks tp' = tasks tp \<and>
     created tp' = created tp \<and>
     (\<forall>g \<in> {nodes_held, nodes_ran, nodes_released}. over_threads g (threads tp') = over_threads g (threads tp))"

lemma same_tasks_keeps:
  "same_tasks tp tp' \<Longrightarrow> tp_mem tp' = tp_mem tp \<and> tp_cons (Silent # evs) tp' = tp_cons evs tp"
  by (simp add: same_tasks_def tp_mem_def tp_cons_def live_def)

lemma same_tasks_pc:
  "at tp i pc \<Longrightarrow> nodes_held pc = {#} \<Longrightarrow> nodes_held pc' = {#} \<Longrightarrow>
   same_tasks tp (set_pc i pc' (tp\<lparr>mutex_owner := x\<rparr>))"
  "at tp i pc \<Longrightarrow> nodes_held pc = {#} \<Longrightarrow> nodes_held pc' = {#} \<Longrightarrow> same_tasks tp (set_pc i pc' tp)"
  by (cases pc; cases pc'; simp add: at_def same_tasks_def set_pc_def over_threads_same)+

lemma calls_cong_tasks:
  "(\<And>p. p \<in># N \<Longrightarrow> ts p = ts' p) \<Longrightarrow> image_mset ts N = image_mset ts' N"
  by (rule image_mset_cong) auto

lemma tp_take_ok:
  assumes M: "grants_all M" and at: "at tp i W_take" and ex: "prioq_extract_min M (prio_queue tp) = Some (Some p, q)"
    and inv: "tp_mem tp" "tp_cons evs tp"
  shows "tp_mem (set_pc i (W_run p) (tp\<lparr>prio_queue := q, mutex_owner := None\<rparr>)) \<and>
    tp_cons (Taken (tasks tp p) # evs) (set_pc i (W_run p) (tp\<lparr>prio_queue := q, mutex_owner := None\<rparr>))"
proof -
  have wf: "prioq_wf (prio_queue tp)" using inv(1) by (simp add: tp_mem_def)
  have "0 < ah_len (prio_queue tp)" using extract_min_shrinks[OF ex] by simp
  from prioq_extract_min_some[OF wf this M] ex obtain e where
    e: "pn_data e = Some p" "prioq_wf q" "ah_items (prio_queue tp) = add_mset e (ah_items q)" by auto
  have qn: "queue_nodes (prio_queue tp) = add_mset p (queue_nodes q)" using e by (simp add: queue_nodes_def)
  have i: "i < length (threads tp)" "threads tp ! i = W_take" using at by (auto simp: at_def)
  let ?pcs = "(threads tp)[i := W_run p]"
  obtain R where R: "\<And>pc. over_threads nodes_held ((threads tp)[i := pc]) = nodes_held pc + R"
    "over_threads nodes_held (threads tp) = nodes_held (threads tp ! i) + R"
    using over_threads_update[OF i(1)] by blast
  have h: "over_threads nodes_held ?pcs = add_mset p (over_threads nodes_held (threads tp))"
    using R(1)[of "W_run p"] R(2) i(2) by simp
  have s: "over_threads nodes_ran ?pcs = over_threads nodes_ran (threads tp)"
    "over_threads nodes_released ?pcs = over_threads nodes_released (threads tp)"
    using i by (simp_all add: over_threads_same)
  have "live (set_pc i (W_run p) (tp\<lparr>prio_queue := q, mutex_owner := None\<rparr>)) = live tp"
    by (simp add: live_def set_pc_def h qn)
  then show ?thesis
    using inv e by (auto simp: tp_mem_def tp_cons_def set_pc_def h s qn)
qed

lemma tp_run_ok:
  assumes at: "at tp i (W_run p)" and ev: "ev = (case taskfn (tasks tp p) of None \<Rightarrow> Silent | Some f \<Rightarrow> Ran f (pArgs (tasks tp p)))"
    and inv: "tp_mem tp" "tp_cons evs tp"
  shows "tp_mem (set_pc i (W_release p) tp) \<and> tp_cons (ev # evs) (set_pc i (W_release p) tp)"
proof -
  have i: "i < length (threads tp)" "threads tp ! i = W_run p" using at by (auto simp: at_def)
  let ?pcs = "(threads tp)[i := W_release p]"
  obtain R where R: "\<And>pc. over_threads nodes_ran ((threads tp)[i := pc]) = nodes_ran pc + R"
    "over_threads nodes_ran (threads tp) = nodes_ran (threads tp ! i) + R"
    using over_threads_update[OF i(1)] by blast
  have h: "over_threads nodes_ran ?pcs = add_mset p (over_threads nodes_ran (threads tp))"
    using R(1)[of "W_release p"] R(2) i(2) by simp
  have s: "over_threads nodes_held ?pcs = over_threads nodes_held (threads tp)"
    "over_threads nodes_released ?pcs = over_threads nodes_released (threads tp)"
    using i by (simp_all add: over_threads_same)
  have "live (set_pc i (W_release p) tp) = live tp" by (simp add: live_def set_pc_def s)
  then show ?thesis
    using inv by (auto simp: tp_mem_def tp_cons_def set_pc_def h s ev split: option.split)
qed

lemma tp_release_ok:
  assumes at: "at tp i (W_release p)" and ev: "ev = (case releasefn (tasks tp p) of None \<Rightarrow> Silent | Some f \<Rightarrow> Released f (pArgs (tasks tp p)))"
    and inv: "tp_mem tp" "tp_cons evs tp"
  shows "tp_mem (set_pc i (W_free p) tp) \<and> tp_cons (ev # evs) (set_pc i (W_free p) tp)"
proof -
  have i: "i < length (threads tp)" "threads tp ! i = W_release p" using at by (auto simp: at_def)
  let ?pcs = "(threads tp)[i := W_free p]"
  obtain R where R: "\<And>pc. over_threads nodes_released ((threads tp)[i := pc]) = nodes_released pc + R"
    "over_threads nodes_released (threads tp) = nodes_released (threads tp ! i) + R"
    using over_threads_update[OF i(1)] by blast
  have h: "over_threads nodes_released ?pcs = add_mset p (over_threads nodes_released (threads tp))"
    using R(1)[of "W_free p"] R(2) i(2) by simp
  have s: "over_threads nodes_held ?pcs = over_threads nodes_held (threads tp)"
    "over_threads nodes_ran ?pcs = over_threads nodes_ran (threads tp)"
    using i by (simp_all add: over_threads_same)
  have "live (set_pc i (W_free p) tp) = live tp" by (simp add: live_def set_pc_def s)
  then show ?thesis
    using inv by (auto simp: tp_mem_def tp_cons_def set_pc_def h s ev split: option.split)
qed

lemma tp_free_ok:
  assumes at: "at tp i (W_free p)" and fr: "AllocPool_Free p (tp_alloc tp) = Some ap"
    and inv: "tp_mem tp" "tp_cons evs tp"
  shows "tp_mem (set_pc i W_lock (tp\<lparr>tp_alloc := ap\<rparr>)) \<and>
    tp_cons (Retired (tasks tp p) # evs) (set_pc i W_lock (tp\<lparr>tp_alloc := ap\<rparr>))"
proof -
  have i: "i < length (threads tp)" "threads tp ! i = W_free p" using at by (auto simp: at_def)
  let ?pcs = "(threads tp)[i := W_lock]"
  have h: "over_threads g (threads tp) = add_mset p (over_threads g ?pcs)"
    if "g \<in> {nodes_held, nodes_ran, nodes_released}" for g
    using over_threads_update[OF i(1), of g] i(2) that by (metis add.left_neutral add_mset_add_single empty_iff insert_iff
        nodes_held.simps(3,4) nodes_ran.simps(2,3) nodes_released.simps(1,2) union_commute union_mset_add_mset_left)
  define tp' where "tp' = set_pc i W_lock (tp\<lparr>tp_alloc := ap\<rparr>)"
  have live: "live tp = add_mset p (live tp')" by (simp add: live_def set_pc_def h tp'_def)
  have one: "count (live tp) x \<le> 1" for x using inv(1) unfolding tp_mem_def by blast
  have c: "count (live tp') x \<le> 1 \<and> p \<notin># live tp'" for x
    using one[of x] one[of p] live by (simp add: not_in_iff split: if_splits)
  have "pool_wf ap (set_mset (live tp) - {p})"
    using AllocPool_Free_ok[of "tp_alloc tp" "set_mset (live tp)" p] inv(1) live fr by (auto simp: tp_mem_def)
  then have "pool_wf ap (set_mset (live tp'))" using live c by auto
  then show ?thesis
    using inv c h unfolding tp'_def[symmetric] by (auto simp: tp_mem_def tp_cons_def set_pc_def tp'_def)
qed

lemma tp_create_ok:
  assumes cr: "CreateTask granted tp fn priority args releaser = Some (p, tp')"
    and inv: "tp_mem tp" "tp_cons evs tp"
  shows "tp_mem (tp'\<lparr>created := add_mset (p, priority) (created tp')\<rparr>) \<and>
    tp_cons (Silent # evs) (tp'\<lparr>created := add_mset (p, priority) (created tp')\<rparr>)"
proof -
  define t where "t = \<lparr>taskfn = fn, pArgs = args, releasefn = releaser\<rparr>"
  obtain ap where ap: "AllocPool_Alloc granted (tp_alloc tp) = Some (p, ap)"
    "tp' = tp\<lparr>tp_alloc := element_write p None ap, tasks := (tasks tp)(p := t)\<rparr>"
    using cr by (auto simp: CreateTask_def t_def split: bind_splits)
  from AllocPool_Alloc_keeps[OF _ ap(1), of "set_mset (live tp)"] inv(1)
  have new: "p \<notin># live tp" "pool_wf ap (insert p (set_mset (live tp)))" by (auto simp: tp_mem_def)
  from element_write_ok[OF new(2), of p None] have wf: "pool_wf (element_write p None ap) (insert p (set_mset (live tp)))" by simp
  define tp'' where "tp'' = tp'\<lparr>created := add_mset (p, priority) (created tp')\<rparr>"
  have live: "live tp'' = add_mset p (live tp)" by (simp add: live_def tp''_def ap(2))
  have mem: "tp_mem tp''" using inv(1) wf new(1) live
    by (auto simp: tp_mem_def tp''_def ap(2) not_in_iff)
  have out: "p \<notin># queue_nodes (prio_queue tp)" "p \<notin># over_threads nodes_held (threads tp)"
    using new(1) by (auto simp: live_def)
  then have "p \<notin># over_threads nodes_ran (threads tp)" "p \<notin># over_threads nodes_released (threads tp)"
    using nodes_ran_sub nodes_released_sub by (metis mset_subset_eqD)+
  with out have same: "image_mset ((tasks tp)(p := t)) N = image_mset (tasks tp) N"
    if "N \<in> {queue_nodes (prio_queue tp), over_threads nodes_held (threads tp), over_threads nodes_ran (threads tp),
      over_threads nodes_released (threads tp)}" for N
    using that by (intro image_mset_cong) auto
  have "tp_cons (Silent # evs) tp''" using inv(2) same by (simp add: tp_cons_def tp''_def ap(2))
  with mem show ?thesis by (simp add: tp''_def)
qed

lemma tp_insert_ok:
  assumes M: "grants_all M" and pr: "(p, priority) \<in># created tp" and small: "prioq_get_size (prio_queue tp) < 2 ^ 30"
    and ins: "insert_task M tp priority p = Some (r, tp')" and inv: "tp_mem tp" "tp_cons evs tp"
  defines "tp'' \<equiv> tp'\<lparr>created := created tp' - {#(p, priority)#}, signals := signals tp' + 1\<rparr>"
  shows "r = 0 \<and> tp_mem tp'' \<and> tp_cons (Added priority (tasks tp p) # evs) tp''"
proof -
  have wf: "prioq_wf (prio_queue tp)" using inv(1) by (simp add: tp_mem_def)
  have "ah_len (prio_queue tp) < 2 ^ 30" using small by (simp add: prioq_get_size_def)
  from prioq_min_insert_some[OF wf this M, of priority "Some p"] ins obtain q where
    q: "r = 0" "tp' = tp\<lparr>prio_queue := q\<rparr>" "prioq_wf q"
    "ah_items q = add_mset (prioqnode_Init priority (Some p)) (ah_items (prio_queue tp))"
    by (auto simp: insert_task_def)
  have qn: "queue_nodes q = add_mset p (queue_nodes (prio_queue tp))"
    by (simp add: queue_nodes_def q(4) prioqnode_Init_def)
  obtain C where C: "created tp = add_mset (p, priority) C" using pr by (metis insert_DiffM)
  have "live tp'' = live tp" by (simp add: live_def tp''_def q(2) qn C)
  then show ?thesis
    using inv q qn by (auto simp: tp_mem_def tp_cons_def tp''_def prioqnode_Init_def)
qed

lemma tp_take_none_ok:
  assumes "grants_all M" "prioq_extract_min M (prio_queue tp) = Some (None, q)" "tp_mem tp"
  shows "ah_len (prio_queue tp) = 0 \<and> q = prio_queue tp"
proof (cases "ah_len (prio_queue tp)")
  case 0
  then show ?thesis using assms(2) by (auto simp: prioq_extract_min_def ah_extract_def)
next
  case (Suc n)
  then obtain e h' where "prioq_extract_min M (prio_queue tp) = Some (pn_data e, h')"
    "ah_items (prio_queue tp) = add_mset e (ah_items h')"
    using prioq_extract_min_some[of "prio_queue tp" M] assms by (auto simp: tp_mem_def)
  then show ?thesis using assms(2,3) by (auto simp: tp_mem_def)
qed

lemma tp_step_keeps:
  assumes "tp_step M granted wait_fails a ev tp tp'" "grants_all M" "tp_mem tp" "tp_cons evs tp"
  shows "tp_mem tp' \<and> tp_cons (ev # evs) tp'"
  using assms
proof (cases rule: tp_step.cases)
  case (w_take i p q)
  then show ?thesis using tp_take_ok assms by blast
next
  case (w_take_none i q)
  then have q: "q = prio_queue tp" using tp_take_none_ok assms by blast
  have "same_tasks tp tp'"
    using same_tasks_pc(1)[OF w_take_none(4), of W_lock None] by (simp add: w_take_none(3) q)
  then show ?thesis using same_tasks_keeps assms w_take_none(2) by metis
next
  case (w_run i p)
  then show ?thesis using tp_run_ok assms by metis
next
  case (w_release i p)
  then show ?thesis using tp_release_ok assms by metis
next
  case (w_free i p ap)
  then show ?thesis using tp_free_ok assms by metis
next
  case (c_create fn priority args releaser p tp1)
  then show ?thesis using tp_create_ok assms by metis
next
  case (c_insert p priority r tp1)
  then show ?thesis using tp_insert_ok[of M p priority tp r tp1 evs] assms by simp
qed (use same_tasks_keeps[of tp tp' evs] same_tasks_pc in
    \<open>auto simp: same_tasks_def signal_worker_def clear_running_def broadcast_def over_threads_wake
      set_pc_def at_def over_threads_same\<close>)+

lemma ThreadPool_Init_ok:
  assumes init: "ThreadPool_Init M granted thread_ok junk cores = Some (0, tp)" and M: "grants_all M"
  shows "tp_mem tp \<and> tp_cons [] tp \<and> threads tp = replicate cores W_lock \<and> mutex_owner tp = None \<and>
    bIsRunning tp \<and> ah_len (prio_queue tp) = 0 \<and> signals tp = 0 \<and> broadcasts tp = 0 \<and> created tp = {#}"
proof -
  obtain ap r q where ap: "AllocPool_Init granted 64 sizeof_ThreadTask = Some ap" and q: "prioq_create M 256 = Some (r, q)"
    using init by (auto simp: ThreadPool_Init_def split: bind_splits)
  obtain h where h0: "prioq_create M 256 = Some (0, h)" "prioq_wf h" "ah_items h = {#}"
    using node.ah_create_ok[OF M, of 256] by (auto simp: prioq_create_def)
  then have h: "prioq_create M 256 = Some (0, h)" "prioq_wf h" "ah_items h = {#}" "ah_len h = 0"
    using size_ah_items[OF ah_wf_shape[OF h0(2)]] by simp_all
  have tp: "tp = \<lparr>threads = replicate cores W_lock, prio_queue = h, mutex_owner = None, bIsRunning = True, tp_alloc = ap,
               tasks = (\<lambda>_. junk), created = {#}, signals = 0, broadcasts = 0\<rparr>"
    using init ap h(1) by (auto simp: ThreadPool_Init_def Let_def split: if_splits option.splits)
  have "over_threads g (replicate n W_lock) = {#}" if "g W_lock = {#}" for g n
    using that by (simp add: over_threads_def)
  then show ?thesis
    using h(2-4) AllocPool_Init_ok[OF ap] by (auto simp: tp tp_mem_def tp_cons_def live_def queue_nodes_def)
qed

definition tp_alive :: "bool \<Rightarrow> 'a thread_pool \<Rightarrow> bool" where
  "tp_alive wait_fails tp \<longleftrightarrow> (bIsRunning tp \<longrightarrow> W_done \<in> set (threads tp) \<longrightarrow> wait_fails) \<and>
     (bIsRunning tp \<longrightarrow> 0 < ah_len (prio_queue tp) \<longrightarrow> \<not> wait_fails \<longrightarrow> threads tp \<noteq> [] \<longrightarrow>
        0 < signals tp \<or> (\<exists>i < length (threads tp). threads tp ! i \<notin> {W_asleep, W_done}))"

text \<open>The mutex: only its owner stands in a critical section, and a worker that goes to sleep saw the queue empty.\<close>

lemma tp_lock_pc:
  assumes "tp_lock tp" "at tp i pc" "owns pc \<or> mutex_owner tp = None"
    and tp': "threads tp' = (threads tp)[i := pc']" "mutex_owner tp' = (if owns pc' then Some i else None)"
      "bIsRunning tp' = bIsRunning tp"
    and q: "pc' = W_sleep \<Longrightarrow> ah_len (prio_queue tp') = 0"
      "pc' = W_take \<Longrightarrow> bIsRunning tp \<Longrightarrow> 0 < ah_len (prio_queue tp')"
  shows "tp_lock tp'"
proof -
  have i: "i < length (threads tp)" "threads tp ! i = pc" using assms(2) by (simp_all add: at_def)
  have only: "\<not> owns (threads tp ! j)" if "j \<noteq> i" "j < length (threads tp)" for j
  proof -
    have o: "mutex_owner tp = Some k \<longleftrightarrow> k < length (threads tp) \<and> owns (threads tp ! k)" for k
      using assms(1) unfolding tp_lock_def by blast
    then show ?thesis using assms(3) i that by (metis option.sel option.distinct(1))
  qed
  have pcs: "threads tp' ! j = (if j = i then pc' else threads tp ! j)" if "j < length (threads tp)" for j
    using that tp'(1) i(1) by simp
  have len: "length (threads tp') = length (threads tp)" using tp'(1) by simp
  have own: "j < length (threads tp') \<and> owns (threads tp' ! j) \<longleftrightarrow> j = i \<and> owns pc'" for j
    by (metis only pcs len i(1))
  have "at tp' j W_sleep \<Longrightarrow> pc' = W_sleep" "at tp' j W_take \<Longrightarrow> pc' = W_take" for j
  proof -
    have o: "owns W_sleep" "owns W_take" by (simp_all add: owns_def)
    show "at tp' j W_sleep \<Longrightarrow> pc' = W_sleep" "at tp' j W_take \<Longrightarrow> pc' = W_take"
      using own[of j] pcs[of j] len i(1) o unfolding at_def by metis+
  qed
  then have "\<forall>j. at tp' j W_sleep \<longrightarrow> ah_len (prio_queue tp') = 0"
    "\<forall>j. at tp' j W_take \<longrightarrow> bIsRunning tp' \<longrightarrow> 0 < ah_len (prio_queue tp')"
    using q tp'(3) by blast+
  moreover have "mutex_owner tp' = Some j \<longleftrightarrow> j < length (threads tp') \<and> owns (threads tp' ! j)" for j
    unfolding own tp'(2) by auto
  ultimately show ?thesis unfolding tp_lock_def by blast
qed

lemma tp_lock_pc_out:
  "tp_lock tp \<Longrightarrow> at tp i pc \<Longrightarrow> \<not> owns pc \<Longrightarrow> \<not> owns pc' \<Longrightarrow> tp_lock (set_pc i pc' tp)"
  by (auto simp: tp_lock_def set_pc_def at_def nth_list_update owns_def split: if_splits)

lemma tp_lock_cong:
  "tp_lock tp \<Longrightarrow> threads tp' = threads tp \<Longrightarrow> mutex_owner tp' = mutex_owner tp \<Longrightarrow>
   prio_queue tp' = prio_queue tp \<Longrightarrow> bIsRunning tp' \<longrightarrow> bIsRunning tp \<Longrightarrow> tp_lock tp'"
  by (auto simp: tp_lock_def at_def)

lemma tp_lock_wake: "tp_lock tp \<Longrightarrow> tp_lock (tp\<lparr>threads := map wake (threads tp), broadcasts := n\<rparr>)"
proof -
  assume l: "tp_lock tp"
  have w: "owns (wake pc) = owns pc" "wake pc = W_sleep \<longleftrightarrow> pc = W_sleep" "wake pc = W_take \<longleftrightarrow> pc = W_take" for pc
    by (auto simp: wake_def owns_def)
  have a: "at (tp\<lparr>threads := map wake (threads tp), broadcasts := n\<rparr>) i pc = at tp i pc"
    if "pc \<in> {W_sleep, W_take}" for i pc
    using that w by (auto simp: at_def)
  have o: "i < length (map wake (threads tp)) \<and> owns (map wake (threads tp) ! i) \<longleftrightarrow>
      i < length (threads tp) \<and> owns (threads tp ! i)" for i
    using w by auto
  show ?thesis using l o unfolding tp_lock_def by (simp add: a)
qed

lemma tp_step_lock:
  assumes "tp_step M granted wait_fails a ev tp tp'" "grants_all M" "tp_lock tp"
  shows "tp_lock tp'"
  using assms
proof (cases rule: tp_step.cases)
  case (w_lock i)
  then show ?thesis by (intro tp_lock_pc[OF assms(3) w_lock(4), where pc' = W_test]) (simp_all add: owns_def set_pc_def)
next
  case (w_wait i)
  then have "mutex_owner tp = Some i" using assms(3) by (auto simp: tp_lock_def at_def owns_def)
  then show ?thesis using w_wait
    by (intro tp_lock_pc[OF assms(3) w_wait(4), where pc' = W_sleep]) (simp_all add: owns_def set_pc_def must_wait_def prioq_get_size_def)
next
  case (w_enter i)
  then have "mutex_owner tp = Some i" using assms(3) by (auto simp: tp_lock_def at_def owns_def)
  then show ?thesis using w_enter
    by (intro tp_lock_pc[OF assms(3) w_enter(4), where pc' = W_take]) (simp_all add: owns_def set_pc_def must_wait_def prioq_get_size_def)
next
  case (w_sleep i)
  then show ?thesis by (intro tp_lock_pc[OF assms(3) w_sleep(4), where pc' = W_asleep]) (simp_all add: owns_def set_pc_def)
next
  case (w_wait_fails i)
  then show ?thesis by (intro tp_lock_pc[OF assms(3) w_wait_fails(4), where pc' = W_done]) (simp_all add: owns_def set_pc_def)
next
  case (w_woken i)
  then show ?thesis by (intro tp_lock_pc[OF assms(3) w_woken(4), where pc' = W_test]) (simp_all add: owns_def set_pc_def)
next
  case (w_break i)
  then show ?thesis by (intro tp_lock_pc[OF assms(3) w_break(4), where pc' = W_done]) (simp_all add: owns_def set_pc_def)
next
  case (w_take i p q)
  then show ?thesis by (intro tp_lock_pc[OF assms(3) w_take(4), where pc' = "W_run p"]) (simp_all add: owns_def set_pc_def)
next
  case (w_take_none i q)
  then show ?thesis by (intro tp_lock_pc[OF assms(3) w_take_none(4), where pc' = W_lock]) (simp_all add: owns_def set_pc_def)
next
  case (w_run i p)
  then show ?thesis using tp_lock_pc_out[OF assms(3)] by (simp add: owns_def)
next
  case (w_release i p)
  then show ?thesis using tp_lock_pc_out[OF assms(3)] by (simp add: owns_def)
next
  case (w_free i p ap)
  have "tp_lock (tp\<lparr>tp_alloc := ap\<rparr>)" by (rule tp_lock_cong[OF assms(3)]) simp_all
  moreover have "at (tp\<lparr>tp_alloc := ap\<rparr>) i (W_free p)" using w_free(4) by (simp add: at_def)
  ultimately show ?thesis using tp_lock_pc_out[of "tp\<lparr>tp_alloc := ap\<rparr>" i "W_free p" W_lock] w_free(3) by (simp add: owns_def)
next
  case (c_create fn priority args releaser p tp1)
  then show ?thesis by (intro tp_lock_cong[OF assms(3)]) (auto simp: CreateTask_def split: bind_splits)
next
  case (c_insert p priority r tp1)
  have "\<not> owns (threads tp ! j)" if "j < length (threads tp)" for j
    using assms(3) c_insert(5) that by (auto simp: tp_lock_def)
  then have "\<not> at tp j W_sleep \<and> \<not> at tp j W_take" for j by (auto simp: at_def owns_def)
  moreover have "threads tp1 = threads tp" "mutex_owner tp1 = mutex_owner tp"
    using c_insert(7) by (auto simp: insert_task_def split: bind_splits)
  ultimately show ?thesis using assms(3) c_insert(3) by (auto simp: tp_lock_def at_def)
next
  case (c_signal i)
  have "tp_lock (tp\<lparr>signals := signals tp - 1\<rparr>)" by (rule tp_lock_cong[OF assms(3)]) simp_all
  moreover have "at (tp\<lparr>signals := signals tp - 1\<rparr>) i W_asleep" using c_signal by (simp add: at_def)
  ultimately have "tp_lock (set_pc i W_woken (tp\<lparr>signals := signals tp - 1\<rparr>))"
    using tp_lock_pc_out[of "tp\<lparr>signals := signals tp - 1\<rparr>" i W_asleep W_woken] by (simp add: owns_def)
  then show ?thesis using c_signal(3) by (simp add: set_pc_def signal_worker_def)
next
  case c_signal_none
  then show ?thesis by (intro tp_lock_cong[OF assms(3)]) simp_all
next
  case c_stop
  then show ?thesis by (intro tp_lock_cong[OF assms(3)]) (simp_all add: clear_running_def)
next
  case c_broadcast
  then show ?thesis using tp_lock_wake[OF assms(3)] by (simp add: broadcast_def)
next
  case (spurious i)
  then show ?thesis using tp_lock_pc_out[OF assms(3)] by (simp add: owns_def)
qed

lemma tp_step_alive:
  assumes "tp_step M granted wait_fails a ev tp tp'" "grants_all M" "tp_lock tp" "tp_alive wait_fails tp"
  shows "tp_alive wait_fails tp' \<and> length (threads tp') = length (threads tp)"
proof -
  have awake: "tp_alive wait_fails tp'"
    if "threads tp' = (threads tp)[i := pc]" "i < length (threads tp)" "pc \<notin> {W_asleep, W_done}"
      "bIsRunning tp' = bIsRunning tp" for i pc
  proof -
    have "W_done \<in> set (threads tp') \<Longrightarrow> W_done \<in> set (threads tp)"
      using that set_update_subset_insert[of "threads tp" i pc] by auto
    moreover have "threads tp' ! i \<notin> {W_asleep, W_done} \<and> i < length (threads tp')" using that by simp
    ultimately show ?thesis using assms(4) that(4) unfolding tp_alive_def by blast
  qed
  have empty: "at tp i W_sleep \<Longrightarrow> ah_len (prio_queue tp) = 0" for i
    using assms(3) by (auto simp: tp_lock_def)
  from assms(1) show ?thesis
  proof (cases rule: tp_step.cases)
    case (w_sleep i)
    then have "W_done \<in> set (threads tp') \<Longrightarrow> W_done \<in> set (threads tp)"
      using set_update_subset_insert[of "threads tp" i W_asleep] by (auto simp: set_pc_def)
    then show ?thesis using w_sleep empty assms(4) by (auto simp: tp_alive_def set_pc_def)
  next
    case (w_wait_fails i)
    then show ?thesis using empty by (auto simp: tp_alive_def set_pc_def)
  next
    case (w_break i)
    then show ?thesis by (auto simp: tp_alive_def set_pc_def)
  next
    case (c_create fn priority args releaser p tp1)
    then show ?thesis using assms(4) by (auto simp: tp_alive_def CreateTask_def split: bind_splits)
  next
    case (c_insert p priority r tp1)
    then show ?thesis using assms(4) by (auto simp: tp_alive_def insert_task_def split: bind_splits)
  next
    case c_signal_none
    then have "\<not> wait_fails \<Longrightarrow> bIsRunning tp \<Longrightarrow> threads tp \<noteq> [] \<Longrightarrow> threads tp ! 0 \<notin> {W_asleep, W_done}"
      using assms(4) nth_mem[of 0 "threads tp"] unfolding tp_alive_def by (metis empty_iff insert_iff length_greater_0_conv)
    then have "\<not> wait_fails \<Longrightarrow> bIsRunning tp \<Longrightarrow> threads tp \<noteq> [] \<Longrightarrow> \<exists>i < length (threads tp). threads tp ! i \<notin> {W_asleep, W_done}"
      by blast
    then show ?thesis using assms(4) c_signal_none(3) unfolding tp_alive_def by simp
  next
    case c_stop
    then show ?thesis by (simp add: tp_alive_def clear_running_def)
  next
    case c_broadcast
    have pcs: "threads tp' = map wake (threads tp)" using c_broadcast by (simp add: broadcast_def)
    have w: "wake pc \<noteq> W_asleep" "wake pc = W_done \<longleftrightarrow> pc = W_done" for pc by (auto simp: wake_def)
    have "W_done \<in> set (threads tp') \<longleftrightarrow> W_done \<in> set (threads tp)" unfolding pcs using w(2) by (metis (no_types, lifting) image_iff list.set_map)
    moreover have "threads tp ! i \<notin> {W_asleep, W_done} \<Longrightarrow> i < length (threads tp) \<Longrightarrow> threads tp' ! i \<notin> {W_asleep, W_done}" for i
      using w pcs by simp
    ultimately show ?thesis using assms(4) c_broadcast(3) unfolding tp_alive_def by (auto simp: broadcast_def)
  qed (use awake in \<open>auto simp: set_pc_def at_def signal_worker_def\<close>)
qed

text \<open>All invariants in every reachable state.\<close>

lemma tp_reachable_inv:
  assumes "tp_reachable M granted wait_fails cores evs tp" "grants_all M"
  shows "tp_mem tp \<and> tp_cons evs tp \<and> tp_lock tp \<and> tp_alive wait_fails tp \<and> length (threads tp) = cores"
  using assms
proof (induction rule: tp_reachable.induct)
  case (tp_start thread_ok junk tp)
  note ok = ThreadPool_Init_ok[OF tp_start]
  then have "tp_lock tp" by (auto simp: tp_lock_def at_def owns_def)
  with ok show ?case by (auto simp: tp_alive_def)
next
  case (tp_next evs tp a ev tp')
  note inv = tp_next.IH[OF tp_next.prems]
  then have "tp_mem tp" "tp_cons evs tp" "tp_lock tp" "tp_alive wait_fails tp" "length (threads tp) = cores" by auto
  with tp_step_keeps[OF tp_next.hyps(2) tp_next.prems] tp_step_lock[OF tp_next.hyps(2) tp_next.prems]
    tp_step_alive[OF tp_next.hyps(2) tp_next.prems]
  show ?case by simp
qed

section \<open>The abstract pool\<close>

text \<open>
  What the pool promises: a bag of waiting tasks with their priorities and a bag of tasks at work. A worker
  always takes a task of least priority number; functions are only called for tasks at work.
\<close>

type_synonym 'a bag = "(int \<times> 'a thread_task) multiset \<times> 'a thread_task multiset"

inductive bag_step :: "'a tp_event \<Rightarrow> 'a bag \<Rightarrow> 'a bag \<Rightarrow> bool" where
  bag_silent: "bag_step Silent b b"
| bag_add: "bag_step (Added k t) (W, A) (add_mset (k, t) W, A)"
| bag_take: "\<forall>x \<in># add_mset (k, t) W. k \<le> fst x \<Longrightarrow> bag_step (Taken t) (add_mset (k, t) W, A) (W, add_mset t A)"
| bag_run: "t \<in># A \<Longrightarrow> taskfn t = Some f \<Longrightarrow> bag_step (Ran f (pArgs t)) (W, A) (W, A)"
| bag_release: "t \<in># A \<Longrightarrow> releasefn t = Some f \<Longrightarrow> bag_step (Released f (pArgs t)) (W, A) (W, A)"
| bag_retire: "bag_step (Retired t) (W, add_mset t A) (W, A)"

definition bag_of :: "'a thread_pool \<Rightarrow> 'a bag" where
  "bag_of tp = (image_mset (\<lambda>e. (pn_key e, tasks tp (the (pn_data e)))) (ah_items (prio_queue tp)),
     image_mset (tasks tp) (over_threads nodes_held (threads tp)))"

lemma bag_of_same: "same_tasks tp tp' \<Longrightarrow> bag_of tp' = bag_of tp"
  by (simp add: same_tasks_def bag_of_def)

lemma held_in: "at tp i pc \<Longrightarrow> p \<in># nodes_held pc \<Longrightarrow> p \<in># over_threads nodes_held (threads tp)"
  by (auto simp: at_def over_threads_def intro!: bexI[of _ "threads tp ! i"])

lemma bag_of_pc:
  assumes "at tp i pc" "nodes_held pc' = nodes_held pc"
  shows "bag_of (set_pc i pc' tp) = bag_of tp"
  using assms by (simp add: bag_of_def set_pc_def at_def over_threads_same)

lemma bag_of_free:
  assumes "at tp i (W_free p)"
  shows "bag_of tp = (fst (bag_of tp), add_mset (tasks tp p) (snd (bag_of (set_pc i W_lock (tp\<lparr>tp_alloc := ap\<rparr>)))))"
    "fst (bag_of (set_pc i W_lock (tp\<lparr>tp_alloc := ap\<rparr>))) = fst (bag_of tp)"
proof -
  have i: "i < length (threads tp)" "threads tp ! i = W_free p" using assms by (auto simp: at_def)
  obtain R where R: "\<And>pc. over_threads nodes_held ((threads tp)[i := pc]) = nodes_held pc + R"
    "over_threads nodes_held (threads tp) = nodes_held (threads tp ! i) + R"
    using over_threads_update[OF i(1)] by blast
  show "bag_of tp = (fst (bag_of tp), add_mset (tasks tp p) (snd (bag_of (set_pc i W_lock (tp\<lparr>tp_alloc := ap\<rparr>)))))"
    using R(1)[of W_lock] R(2) i(2) by (simp add: bag_of_def set_pc_def)
  show "fst (bag_of (set_pc i W_lock (tp\<lparr>tp_alloc := ap\<rparr>))) = fst (bag_of tp)"
    by (simp add: bag_of_def set_pc_def)
qed

lemma bag_of_take:
  assumes "grants_all M" "tp_mem tp" "at tp i W_take" "prioq_extract_min M (prio_queue tp) = Some (Some p, q)"
  shows "bag_step (Taken (tasks tp p)) (bag_of tp) (bag_of (set_pc i (W_run p) (tp\<lparr>prio_queue := q, mutex_owner := None\<rparr>)))"
proof -
  have wf: "prioq_wf (prio_queue tp)" using assms(2) by (simp add: tp_mem_def)
  have "0 < ah_len (prio_queue tp)" using extract_min_shrinks[OF assms(4)] by simp
  from prioq_extract_min_some[OF wf this assms(1)] assms(4) obtain e where
    e: "pn_data e = Some p" "ah_items (prio_queue tp) = add_mset e (ah_items q)"
    "\<forall>x \<in># ah_items (prio_queue tp). pn_key e \<le> pn_key x" by auto
  have i: "i < length (threads tp)" "threads tp ! i = W_take" using assms(3) by (auto simp: at_def)
  obtain R where R: "\<And>pc. over_threads nodes_held ((threads tp)[i := pc]) = nodes_held pc + R"
    "over_threads nodes_held (threads tp) = nodes_held (threads tp ! i) + R"
    using over_threads_update[OF i(1)] by blast
  let ?W = "image_mset (\<lambda>e. (pn_key e, tasks tp (the (pn_data e)))) (ah_items q)"
  let ?A = "image_mset (tasks tp) (over_threads nodes_held (threads tp))"
  have b: "bag_of tp = (add_mset (pn_key e, tasks tp p) ?W, ?A)" by (simp add: bag_of_def e(1,2))
  have b': "bag_of (set_pc i (W_run p) (tp\<lparr>prio_queue := q, mutex_owner := None\<rparr>)) = (?W, add_mset (tasks tp p) ?A)"
    using R(1)[of "W_run p"] R(2) i(2) by (simp add: bag_of_def set_pc_def)
  show ?thesis unfolding b b' by (rule bag_take) (use e(2,3) in auto)
qed

lemma bag_of_create:
  assumes "CreateTask granted tp fn priority args releaser = Some (p, tp')" "tp_mem tp"
  shows "bag_of (tp'\<lparr>created := C\<rparr>) = bag_of tp"
proof -
  define t where "t = \<lparr>taskfn = fn, pArgs = args, releasefn = releaser\<rparr>"
  obtain ap where ap: "AllocPool_Alloc granted (tp_alloc tp) = Some (p, ap)"
    "tp' = tp\<lparr>tp_alloc := element_write p None ap, tasks := (tasks tp)(p := t)\<rparr>"
    using assms(1) by (auto simp: CreateTask_def t_def split: bind_splits)
  from AllocPool_Alloc_keeps[OF _ ap(1), of "set_mset (live tp)"] assms(2)
  have "p \<notin># live tp" by (auto simp: tp_mem_def)
  then have "p \<notin># queue_nodes (prio_queue tp)" "p \<notin># over_threads nodes_held (threads tp)" by (auto simp: live_def)
  then have "the (pn_data e) \<noteq> p" if "e \<in># ah_items (prio_queue tp)" for e
    using that by (auto simp: queue_nodes_def)
  then have "image_mset (\<lambda>e. (pn_key e, ((tasks tp)(p := t)) (the (pn_data e)))) (ah_items (prio_queue tp)) =
      image_mset (\<lambda>e. (pn_key e, tasks tp (the (pn_data e)))) (ah_items (prio_queue tp))"
    by (intro image_mset_cong) auto
  moreover have "image_mset ((tasks tp)(p := t)) (over_threads nodes_held (threads tp)) =
      image_mset (tasks tp) (over_threads nodes_held (threads tp))"
    using \<open>p \<notin># over_threads nodes_held (threads tp)\<close> by (intro image_mset_cong) auto
  ultimately show ?thesis by (simp add: bag_of_def ap(2))
qed

lemma bag_of_insert:
  assumes "grants_all M" "tp_mem tp" "prioq_get_size (prio_queue tp) < 2 ^ 30"
    "insert_task M tp priority p = Some (r, tp')"
  shows "r = 0 \<and> bag_step (Added priority (tasks tp p)) (bag_of tp) (bag_of (tp'\<lparr>created := C, signals := n\<rparr>))"
proof -
  have "prioq_wf (prio_queue tp)" "ah_len (prio_queue tp) < 2 ^ 30"
    using assms(2,3) by (simp_all add: tp_mem_def prioq_get_size_def)
  from prioq_min_insert_some[OF this assms(1), of priority "Some p"] assms(4) obtain q where
    q: "r = 0" "tp' = tp\<lparr>prio_queue := q\<rparr>"
    "ah_items q = add_mset (prioqnode_Init priority (Some p)) (ah_items (prio_queue tp))"
    by (auto simp: insert_task_def)
  then have "bag_of (tp'\<lparr>created := C, signals := n\<rparr>) =
      (add_mset (priority, tasks tp p) (fst (bag_of tp)), snd (bag_of tp))"
    by (simp add: bag_of_def prioqnode_Init_def)
  then show ?thesis using q(1) bag_add by (metis prod.collapse)
qed

lemma tp_step_refines:
  assumes "tp_step M granted wait_fails a ev tp tp'" "grants_all M" "tp_mem tp"
  shows "bag_step ev (bag_of tp) (bag_of tp')"
proof -
  have silent: "same_tasks tp tp' \<Longrightarrow> bag_step Silent (bag_of tp) (bag_of tp')"
    using bag_of_same bag_silent by metis
  from assms(1) show ?thesis
  proof (cases rule: tp_step.cases)
    case (w_take i p q)
    then show ?thesis using bag_of_take[OF assms(2,3)] by simp
  next
    case (w_take_none i q)
    then have q: "q = prio_queue tp" using tp_take_none_ok assms by blast
    have "same_tasks tp tp'"
      using same_tasks_pc(1)[OF w_take_none(4), of W_lock None] by (simp add: w_take_none(3) q)
    then show ?thesis using bag_of_same w_take_none(2) bag_silent by metis
  next
    case (w_run i p)
    have b: "bag_of tp' = bag_of tp" using bag_of_pc[OF w_run(3)] by (simp add: w_run(2))
    have "tasks tp p \<in># snd (bag_of tp)" using held_in[OF w_run(3)] by (simp add: bag_of_def)
    then have "taskfn (tasks tp p) = Some f \<Longrightarrow> bag_step ev (bag_of tp) (bag_of tp)" for f
      using bag_run[of "tasks tp p" "snd (bag_of tp)" f "fst (bag_of tp)"] w_run(4) by simp
    then show ?thesis unfolding b using bag_silent[of "bag_of tp"] w_run(4) by (cases "taskfn (tasks tp p)") simp_all
  next
    case (w_release i p)
    have b: "bag_of tp' = bag_of tp" using bag_of_pc[OF w_release(3)] by (simp add: w_release(2))
    have "tasks tp p \<in># snd (bag_of tp)" using held_in[OF w_release(3)] by (simp add: bag_of_def)
    then have "releasefn (tasks tp p) = Some f \<Longrightarrow> bag_step ev (bag_of tp) (bag_of tp)" for f
      using bag_release[of "tasks tp p" "snd (bag_of tp)" f "fst (bag_of tp)"] w_release(4) by simp
    then show ?thesis unfolding b using bag_silent[of "bag_of tp"] w_release(4) by (cases "releasefn (tasks tp p)") simp_all
  next
    case (w_free i p ap)
    then show ?thesis using bag_of_free[OF w_free(4), of ap] bag_retire by (metis prod.collapse)
  next
    case (c_create fn priority args releaser p tp1)
    then show ?thesis using bag_of_create[OF c_create(4) assms(3)] bag_silent by simp
  next
    case (c_insert p priority r tp1)
    then show ?thesis using bag_of_insert[OF assms(2,3) c_insert(6,7)] by simp
  qed (use silent same_tasks_pc in
    \<open>auto simp: same_tasks_def signal_worker_def clear_running_def broadcast_def over_threads_wake
      set_pc_def at_def over_threads_same\<close>)+
qed

section \<open>Progress\<close>

lemma worker_can_step:
  assumes M: "grants_all M" and inv: "tp_mem tp" "tp_lock tp" and at: "at tp i pc" "pc \<notin> {W_asleep, W_done}"
    and free: "owns pc \<or> mutex_owner tp = None"
  shows "\<exists>ev tp'. tp_step M granted wait_fails (Worker i) ev tp tp'"
proof (cases pc)
  case W_lock
  then have "mutex_owner tp = None" using free by (simp add: owns_def)
  then show ?thesis using at W_lock w_lock[of tp i] by blast
next
  case W_test
  then show ?thesis using at w_wait[of tp i] w_enter[of tp i] by blast
next
  case W_sleep
  then show ?thesis using at w_sleep[of tp i] by blast
next
  case W_woken
  then have "mutex_owner tp = None" using free by (simp add: owns_def)
  then show ?thesis using at W_woken w_woken[of tp i] by blast
next
  case W_take
  show ?thesis
  proof (cases "bIsRunning tp")
    case True
    then have "0 < ah_len (prio_queue tp)" using inv(2) at W_take by (auto simp: tp_lock_def)
    then obtain e h where e: "prioq_extract_min M (prio_queue tp) = Some (pn_data e, h)"
      "ah_items (prio_queue tp) = add_mset e (ah_items h)"
      using prioq_extract_min_some[of "prio_queue tp" M] M inv(1) by (auto simp: tp_mem_def)
    then obtain p where "pn_data e = Some p" using inv(1) by (auto simp: tp_mem_def)
    then show ?thesis using w_take[of tp i] at W_take True e(1) by metis
  next
    case False
    then show ?thesis using w_break[of tp i] at W_take by blast
  qed
next
  case (W_run p)
  then show ?thesis using at w_run[of tp i p] by blast
next
  case (W_release p)
  then show ?thesis using at w_release[of tp i p] by blast
next
  case (W_free p)
  then have "p \<in># live tp" using held_in[of tp i pc p] at by (simp add: live_def)
  then obtain ap where "AllocPool_Free p (tp_alloc tp) = Some ap"
    using AllocPool_Free_ok[of "tp_alloc tp" "set_mset (live tp)" p] inv(1) by (auto simp: tp_mem_def)
  then show ?thesis using at w_free[of tp i p] W_free by blast
qed (use at in auto)

section \<open>Who does what\<close>

text \<open>The same runs with who made each step, the last one first.\<close>

inductive tp_run ::
    "node prioqnode mem_mgr \<Rightarrow> (nat \<Rightarrow> bool) \<Rightarrow> bool \<Rightarrow> nat \<Rightarrow> (actor \<times> 'a tp_event) list \<Rightarrow> 'a thread_pool \<Rightarrow> bool"
  for M granted wait_fails cores where
  run_start: "ThreadPool_Init M granted thread_ok junk cores = Some (0, tp) \<Longrightarrow>
     tp_run M granted wait_fails cores [] tp"
| run_next: "tp_run M granted wait_fails cores tr tp \<Longrightarrow> tp_step M granted wait_fails a ev tp tp' \<Longrightarrow>
     tp_run M granted wait_fails cores ((a, ev) # tr) tp'"

text \<open>What worker \<open>i\<close> has done with tasks so far, the first event first, and what it does with one task:
  it takes the task out of the queue, calls the task's function, then its release function, and gives
  the task back to the pool.\<close>

definition done_by :: "nat \<Rightarrow> (actor \<times> 'a tp_event) list \<Rightarrow> 'a tp_event list" where
  "done_by i tr = filter (\<lambda>ev. ev \<noteq> Silent) (map snd (filter (\<lambda>s. fst s = Worker i) (rev tr)))"

definition life :: "'a thread_task \<Rightarrow> 'a tp_event list" where
  "life t = [Taken t] @ (case taskfn t of None \<Rightarrow> [] | Some f \<Rightarrow> [Ran f (pArgs t)]) @
     (case releasefn t of None \<Rightarrow> [] | Some f \<Rightarrow> [Released f (pArgs t)]) @ [Retired t]"

fun is_work :: "'a tp_event \<Rightarrow> bool" where
  "is_work (Taken t) = True"
| "is_work (Ran f x) = True"
| "is_work (Released f x) = True"
| "is_work (Retired t) = True"
| "is_work _ = False"

fun taken_by :: "'a tp_event \<Rightarrow> 'a thread_task multiset" where
  "taken_by (Taken t) = {#t#}"
| "taken_by _ = {#}"

lemma tp_run_reachable: "tp_run M granted wait_fails cores tr tp \<Longrightarrow> tp_reachable M granted wait_fails cores (map snd tr) tp"
  by (induction rule: tp_run.induct) (auto intro: tp_start tp_next)

lemma done_by_simps [simp]:
  "done_by i [] = []"
  "done_by i ((a, ev) # tr) = done_by i tr @ (if a = Worker i \<and> ev \<noteq> Silent then [ev] else [])"
  by (simp_all add: done_by_def)

text \<open>The calls a worker has made for the task it holds.\<close>

fun part_of :: "(node \<Rightarrow> 'a thread_task) \<Rightarrow> worker_pc \<Rightarrow> 'a tp_event list" where
  "part_of ts (W_run p) = [Taken (ts p)]"
| "part_of ts (W_release p) = [Taken (ts p)] @ (case taskfn (ts p) of None \<Rightarrow> [] | Some f \<Rightarrow> [Ran f (pArgs (ts p))])"
| "part_of ts (W_free p) = [Taken (ts p)] @ (case taskfn (ts p) of None \<Rightarrow> [] | Some f \<Rightarrow> [Ran f (pArgs (ts p))]) @
     (case releasefn (ts p) of None \<Rightarrow> [] | Some f \<Rightarrow> [Released f (pArgs (ts p))])"
| "part_of ts _ = []"

lemma part_of_idle: "nodes_held pc = {#} \<Longrightarrow> part_of ts pc = []"
  by (cases pc) auto

lemma part_of_prefix: "part_of ts pc = [] \<or> (\<exists>t. strict_prefix (part_of ts pc) (life t))"
  by (cases pc) (auto simp: life_def strict_prefix_def prefix_def split: option.split)

lemma part_of_cong: "(\<And>p. p \<in># nodes_held pc \<Longrightarrow> ts' p = ts p) \<Longrightarrow> part_of ts' pc = part_of ts pc"
  by (cases pc) (simp_all split: option.split)

lemma part_of_wake [simp]: "part_of ts (wake pc) = part_of ts pc"
  by (cases pc) (simp_all add: wake_def)

text \<open>What a step does to the worker that makes it; the tasks of the others are not touched.\<close>

lemma tp_step_worker:
  assumes "tp_step M granted wait_fails a ev tp tp'" "grants_all M" "tp_mem tp" "i < length (threads tp)"
  shows "\<exists>done. (done = [] \<or> (\<exists>t. done = life t)) \<and>
    part_of (tasks tp) (threads tp ! i) @ (if a = Worker i \<and> ev \<noteq> Silent then [ev] else []) =
    done @ part_of (tasks tp') (threads tp' ! i)"
  using assms(1)
proof (cases rule: tp_step.cases)
  case (w_free j p ap)
  show ?thesis
  proof (cases "j = i")
    case True
    then have "threads tp ! i = W_free p" "threads tp' ! i = W_lock" using w_free assms(4) by (auto simp: at_def set_pc_def)
    then show ?thesis using w_free True by (intro exI[of _ "life (tasks tp p)"]) (simp add: life_def)
  qed (use w_free in \<open>simp add: set_pc_def\<close>)
next
  case (c_create fn priority args releaser p tp1)
  obtain ap where ap: "AllocPool_Alloc granted (tp_alloc tp) = Some (p, ap)" "threads tp1 = threads tp"
    "\<forall>q. q \<noteq> p \<longrightarrow> tasks tp1 q = tasks tp q"
    using c_create(4) by (auto simp: CreateTask_def simp del: split_paired_All split: bind_splits)
  from AllocPool_Alloc_keeps[OF _ ap(1), of "set_mset (live tp)"] assms(3)
  have "p \<notin># live tp" by (auto simp: tp_mem_def)
  then have "p \<notin># nodes_held (threads tp ! i)"
    using held_in[of tp i "threads tp ! i" p] assms(4) by (auto simp: live_def at_def)
  then have "part_of (tasks tp1) (threads tp ! i) = part_of (tasks tp) (threads tp ! i)"
    using ap(3) by (intro part_of_cong) metis
  then show ?thesis using c_create ap(2) by simp
next
  case (c_insert p priority r tp1)
  then show ?thesis by (auto simp: insert_task_def split: bind_splits)
qed (use assms(4) in \<open>auto simp: set_pc_def at_def nth_list_update signal_worker_def clear_running_def broadcast_def split: option.splits\<close>)

lemma tp_run_life:
  assumes "tp_run M granted wait_fails cores tr tp" "grants_all M" "i < cores"
  shows "\<exists>ts. done_by i tr = concat (map life ts) @ part_of (tasks tp) (threads tp ! i)"
  using assms
proof (induction rule: tp_run.induct)
  case (run_start thread_ok junk tp)
  then have "threads tp = replicate cores W_lock" using ThreadPool_Init_ok by blast
  then show ?case using run_start by (intro exI[of _ "[]"]) simp
next
  case (run_next tr tp a ev tp')
  then obtain ts where ts: "done_by i tr = concat (map life ts) @ part_of (tasks tp) (threads tp ! i)" by blast
  have "tp_mem tp" "length (threads tp) = cores"
    using tp_reachable_inv[OF tp_run_reachable[OF run_next.hyps(1)]] run_next.prems by blast+
  from tp_step_worker[OF run_next.hyps(2) run_next.prems(1) this(1), of i] this(2) run_next.prems(2)
  obtain ys where ys: "ys = [] \<or> (\<exists>t. ys = life t)"
    "part_of (tasks tp) (threads tp ! i) @ (if a = Worker i \<and> ev \<noteq> Silent then [ev] else []) =
      ys @ part_of (tasks tp') (threads tp' ! i)" by blast
  have "done_by i ((a, ev) # tr) = concat (map life ts) @ ys @ part_of (tasks tp') (threads tp' ! i)"
    by (simp only: done_by_simps ts append.assoc ys(2))
  moreover from ys(1) obtain us where "ys = concat (map life us)"
    by (metis append_Nil2 concat.simps list.simps(8,9))
  ultimately have "done_by i ((a, ev) # tr) = concat (map life (ts @ us)) @ part_of (tasks tp') (threads tp' ! i)" by simp
  then show ?case by blast
qed

text \<open>Only workers make the events of a task's life.\<close>

lemma tp_run_workers:
  assumes "tp_run M granted wait_fails cores tr tp" "grants_all M" "(a, ev) \<in> set tr" "is_work ev"
  shows "\<exists>i < cores. a = Worker i"
  using assms
proof (induction rule: tp_run.induct)
  case (run_next tr tp a' ev' tp')
  have len: "length (threads tp) = cores"
    using tp_reachable_inv[OF tp_run_reachable[OF run_next.hyps(1)]] run_next.prems by blast
  show ?case
  proof (cases "(a, ev) = (a', ev')")
    case True
    with run_next.hyps(2) run_next.prems(3) len show ?thesis
      by (cases rule: tp_step.cases) (auto simp: at_def split: if_splits)
  qed (use run_next in auto)
qed simp

lemma tp_run_taken:
  assumes "tp_run M granted wait_fails cores tr tp" "grants_all M"
  shows "seen taken_by (map snd tr) = snd (bag_of tp) + seen retired_by (map snd tr)"
  using assms
proof (induction rule: tp_run.induct)
  case (run_start thread_ok junk tp)
  then have "threads tp = replicate cores W_lock" using ThreadPool_Init_ok by blast
  then show ?case by (simp add: bag_of_def over_threads_def)
next
  case (run_next tr tp a ev tp')
  have "tp_mem tp" using tp_reachable_inv[OF tp_run_reachable[OF run_next.hyps(1)]] run_next.prems by blast
  from tp_step_refines[OF run_next.hyps(2) run_next.prems this] run_next.IH[OF run_next.prems]
  show ?case by (cases rule: bag_step.cases) auto
qed


text \<open>C1: whatever the interleaving of callers and workers: a task is taken out of the queue only after it was
  added, and at most once per time it was added, so by one worker; every call of a task or release function is
  for such a task. What a worker does is a sequence of whole lives, each the task taken, its function called
  with its arguments, then its release function called with them, then the task given back, and at the end
  at most one life begun and not finished; nobody but a worker does any of it. When the queue is empty and no
  worker is busy, every added task was taken, run and released exactly once.\<close>

theorem tp_tasks_run_once:
  assumes M: "grants_all M" and run: "tp_run M granted wait_fails cores tr tp"
  shows "seen taken_by (map snd tr) \<subseteq># seen added_by (map snd tr) \<and>
    seen ran_by (map snd tr) \<subseteq># calls taskfn (seen added_by (map snd tr)) \<and>
    seen released_by (map snd tr) \<subseteq># calls releasefn (seen added_by (map snd tr)) \<and>
    (\<forall>(a, ev) \<in> set tr. is_work ev \<longrightarrow> (\<exists>i < cores. a = Worker i)) \<and>
    (\<forall>i < cores. \<exists>ts part. done_by i tr = concat (map life ts) @ part \<and>
       (part = [] \<or> (\<exists>t. strict_prefix part (life t))) \<and> (nodes_held (threads tp ! i) = {#} \<longrightarrow> part = [])) \<and>
    (prioq_get_size (prio_queue tp) = 0 \<and> over_threads nodes_held (threads tp) = {#} \<longrightarrow>
       seen taken_by (map snd tr) = seen added_by (map snd tr) \<and>
       seen ran_by (map snd tr) = calls taskfn (seen added_by (map snd tr)) \<and>
       seen released_by (map snd tr) = calls releasefn (seen added_by (map snd tr)))"
proof -
  define evs where "evs = map snd tr"
  note inv = tp_reachable_inv[OF tp_run_reachable[OF run] M, folded evs_def]
  then have added: "seen added_by evs = image_mset (tasks tp) (queue_nodes (prio_queue tp))
      + image_mset (tasks tp) (over_threads nodes_held (threads tp)) + seen retired_by evs"
    and ran: "seen ran_by evs = calls taskfn (image_mset (tasks tp) (over_threads nodes_ran (threads tp)))
      + calls taskfn (seen retired_by evs)"
    and rel: "seen released_by evs = calls releasefn (image_mset (tasks tp) (over_threads nodes_released (threads tp)))
      + calls releasefn (seen retired_by evs)"
    by (simp_all add: tp_cons_def)
  have taken: "seen taken_by evs = image_mset (tasks tp) (over_threads nodes_held (threads tp)) + seen retired_by evs"
    using tp_run_taken[OF run M] by (simp add: evs_def bag_of_def)
  have mono: "calls sel (image_mset (tasks tp) A) \<subseteq># calls sel (image_mset (tasks tp) B)" if "A \<subseteq># B" for sel A B
    using that by (auto simp: mset_subset_eq_exists_conv)
  have nodes: "queue_nodes (prio_queue tp) = {#}" if "prioq_get_size (prio_queue tp) = 0"
    using that by (simp add: queue_nodes_def ah_items_def ah_nodes_def prioq_get_size_def)
  have idle: "over_threads nodes_ran (threads tp) = {#}" "over_threads nodes_released (threads tp) = {#}"
    if "over_threads nodes_held (threads tp) = {#}"
    using that nodes_ran_sub[of "threads tp"] nodes_released_sub[of "threads tp"] by simp_all
  have workers: "\<forall>(a, ev) \<in> set tr. is_work ev \<longrightarrow> (\<exists>i < cores. a = Worker i)"
    using tp_run_workers[OF run M] by blast
  have lives: "\<forall>i < cores. \<exists>ts part. done_by i tr = concat (map life ts) @ part \<and>
       (part = [] \<or> (\<exists>t. strict_prefix part (life t))) \<and> (nodes_held (threads tp ! i) = {#} \<longrightarrow> part = [])"
    using tp_run_life[OF run M] part_of_prefix part_of_idle by metis
  show ?thesis
    unfolding evs_def[symmetric]
    using mono[OF nodes_ran_sub, of taskfn "threads tp"] mono[OF nodes_released_sub, of releasefn "threads tp"] nodes idle
    unfolding added ran rel taken by (intro conjI workers lives) (auto simp: subset_mset.add_mono subset_mset.add_increasing)
qed

text \<open>C31: the interleaved pool refines the abstract one: every step is a step of the bag of tasks with the same
  event, or invisible there; in particular a worker always takes a waiting task of least priority number.\<close>

theorem tp_refines_bag:
  assumes "grants_all M" "tp_reachable M granted wait_fails cores evs tp" "tp_step M granted wait_fails a ev tp tp'"
  shows "bag_step ev (bag_of tp) (bag_of tp')"
  using tp_step_refines[OF assms(3,1)] tp_reachable_inv[OF assms(2,1)] by blast

text \<open>C32: while the pool is running a queued task is never forgotten: some worker can take a step, or all the
  workers sleep and a caller that has added a task is about to signal and its signal wakes one of them.\<close>

theorem tp_never_stuck:
  assumes "grants_all M" "tp_reachable M granted False cores evs tp" "0 < cores" "bIsRunning tp"
    "0 < prioq_get_size (prio_queue tp)"
  shows "(\<exists>i ev tp'. tp_step M granted False (Worker i) ev tp tp' \<and> bIsRunning tp') \<or>
    (0 < signals tp \<and> (\<exists>i. at tp i W_asleep \<and>
       tp_step M granted False Client Silent tp (signal_worker i (tp\<lparr>signals := signals tp - 1\<rparr>))))"
proof -
  note inv = tp_reachable_inv[OF assms(2,1)]
  then have inv: "tp_mem tp" "tp_lock tp" "tp_alive False tp" "length (threads tp) = cores" by auto
  have run: "bIsRunning tp'" if "tp_step M granted False (Worker i) ev tp tp'" for i ev tp'
    using that assms(4) by (cases rule: tp_step.cases) (auto simp: set_pc_def)
  have own: "mutex_owner tp = Some i \<longleftrightarrow> i < length (threads tp) \<and> owns (threads tp ! i)" for i
    using inv(2) unfolding tp_lock_def by blast
  show ?thesis
  proof (cases "mutex_owner tp")
    case (Some i)
    then have "at tp i (threads tp ! i)" "owns (threads tp ! i)" using own by (auto simp: at_def)
    from worker_can_step[OF assms(1) inv(1,2) this(1), of granted False] this(2) obtain ev tp' where
      "tp_step M granted False (Worker i) ev tp tp'" by (auto simp: owns_def)
    then show ?thesis using run by blast
  next
    case None
    show ?thesis
    proof (cases "\<exists>i < length (threads tp). threads tp ! i \<notin> {W_asleep, W_done}")
      case True
      then obtain i where "at tp i (threads tp ! i)" "threads tp ! i \<notin> {W_asleep, W_done}" by (auto simp: at_def)
      from worker_can_step[OF assms(1) inv(1,2) this, of granted False] None obtain ev tp' where
        "tp_step M granted False (Worker i) ev tp tp'" by auto
      then show ?thesis using run by blast
    next
      case False
      then have "0 < signals tp" using inv(3,4) assms(3-5) unfolding tp_alive_def prioq_get_size_def by force
      moreover have "at tp 0 W_asleep"
      proof -
        have "W_done \<notin> set (threads tp)" using inv(3) assms(4) by (auto simp: tp_alive_def)
        then show ?thesis using False inv(4) assms(3) by (auto simp: at_def in_set_conv_nth)
      qed
      ultimately show ?thesis using c_signal[of tp 0] by blast
    qed
  qed
qed

section \<open>Some runs\<close>

text \<open>The runs the witnesses use: a pool of one worker that gets one task, and the worker finishing it.\<close>

lemma ThreadPool_Init_some:
  assumes "grants_all M"
  obtains tp where "ThreadPool_Init M (\<lambda>_. True) (\<lambda>_. True) junk cores = Some (0, tp)"
proof -
  obtain h where h: "prioq_create M 256 = Some (0, h)"
    using node.ah_create_ok[OF assms, of 256] by (auto simp: prioq_create_def)
  obtain ap where ap: "AllocPool_Init (\<lambda>_. True) 64 sizeof_ThreadTask = Some ap"
    by (simp add: AllocPool_Init_def PoolMemBlock_Init_def sizeof_pointer_def sizeof_ThreadTask_def)
  have "first_idx (\<lambda>i. False) [0..<cores] = None" by (simp add: first_idx_None)
  then have "\<exists>tp. ThreadPool_Init M (\<lambda>_. True) (\<lambda>_. True) junk cores = Some (0, tp)"
    using h ap by (simp add: ThreadPool_Init_def Let_def)
  then show thesis using that by blast
qed

lemma one_task_added:
  fixes t :: "'a thread_task"
  assumes M: "grants_all M"
  obtains tp p where "tp_reachable M (\<lambda>_. True) False 1 [Added 1 t, Silent] tp"
    "threads tp = [W_lock]" "mutex_owner tp = None" "bIsRunning tp" "prioq_get_size (prio_queue tp) = 1"
    "queue_nodes (prio_queue tp) = {#p#}" "tasks tp p = t"
    "tp_run M (\<lambda>_. True) False 1 [(Client, Added 1 t), (Client, Silent)] tp"
proof -
  obtain tp0 :: "'a thread_pool" where init: "ThreadPool_Init M (\<lambda>_. True) (\<lambda>_. True) t 1 = Some (0, tp0)"
    using ThreadPool_Init_some[OF M] .
  note ok = ThreadPool_Init_ok[OF init M]
  note r0 = run_start[of M "\<lambda>_. True" "\<lambda>_. True" t 1 tp0 False, OF init]
  have wf: "pool_wf (tp_alloc tp0) {}" "tp_mem tp0"
    using ok by (auto simp: tp_mem_def live_def queue_nodes_def ah_items_def ah_nodes_def over_threads_def)
  have es: "element_size (tp_alloc tp0) = 24"
    using init AllocPool_Init_ok[of "\<lambda>_. True" 64 sizeof_ThreadTask]
    by (auto simp: ThreadPool_Init_def Let_def sizeof_ThreadTask_def split: bind_splits if_splits option.splits)
  obtain p ap where ap: "AllocPool_Alloc (\<lambda>_. True) (tp_alloc tp0) = Some (p, ap)"
    using AllocPool_Alloc_some[OF wf(1), of "\<lambda>_. True"] es by auto
  define tp1 where "tp1 = tp0\<lparr>tp_alloc := element_write p None ap, tasks := (tasks tp0)(p := t)\<rparr>"
  have cr: "CreateTask (\<lambda>_. True) tp0 (taskfn t) 1 (pArgs t) (releasefn t) = Some (p, tp1)"
    by (cases t) (simp add: CreateTask_def ap tp1_def)
  define tp2 where "tp2 = tp1\<lparr>created := add_mset (p, 1) (created tp1)\<rparr>"
  have r1: "tp_run M (\<lambda>_. True) False 1 [(Client, Silent)] tp2"
    unfolding tp2_def by (rule run_next[OF r0 c_create[OF cr]])
  have q2: "prioq_wf (prio_queue tp2)" "ah_len (prio_queue tp2) = 0" "threads tp2 = [W_lock]"
    "mutex_owner tp2 = None" "bIsRunning tp2" "tasks tp2 p = t"
    using ok wf(2) by (auto simp: tp2_def tp1_def tp_mem_def)
  obtain q where q: "prioq_min_insert M (prio_queue tp2) 1 (Some p) = Some (0, q)" "ah_len q = 1" "prioq_wf q"
    "ah_items q = add_mset (prioqnode_Init 1 (Some p)) (ah_items (prio_queue tp2))"
    using prioq_min_insert_some[OF q2(1) _ M, of 1 "Some p"] q2(2) by auto
  have ins: "insert_task M tp2 1 p = Some (0, tp2\<lparr>prio_queue := q\<rparr>)" by (simp add: insert_task_def q(1))
  define tp3 where "tp3 = tp2\<lparr>prio_queue := q, created := created tp2 - {#(p, 1)#}, signals := signals tp2 + 1\<rparr>"
  have "tp_step M (\<lambda>_. True) False Client (Added 1 t) tp2 tp3"
    using c_insert[of p 1 tp2 M 0 "tp2\<lparr>prio_queue := q\<rparr>" "\<lambda>_. True" False] ins q2
    by (simp add: tp3_def tp2_def prioq_get_size_def)
  then have r2: "tp_run M (\<lambda>_. True) False 1 [(Client, Added 1 t), (Client, Silent)] tp3" by (rule run_next[OF r1])
  have r3: "tp_reachable M (\<lambda>_. True) False 1 [Added 1 t, Silent] tp3" using tp_run_reachable[OF r2] by simp
  have "ah_items (prio_queue tp2) = {#}" using q2(2) by (simp add: ah_items_def ah_nodes_def)
  then show thesis
    using that[OF r3, of p] r2 q q2 by (simp add: tp3_def prioq_get_size_def queue_nodes_def prioqnode_Init_def)
qed

lemma one_task_done:
  fixes t :: "'a thread_task"
  assumes M: "grants_all M" and t: "taskfn t = Some f" "releasefn t = Some g" "pArgs t = x"
  obtains tp0 tp1 tp where "tp_reachable M (\<lambda>_. True) False 1 [Silent, Silent, Added 1 t, Silent] tp0"
    "tp_step M (\<lambda>_. True) False (Worker 0) (Taken t) tp0 tp1" "tp_reachable M (\<lambda>_. True) False 1
      [Retired t, Released g x, Ran f x, Taken t, Silent, Silent, Added 1 t, Silent] tp"
    "prioq_get_size (prio_queue tp) = 0" "over_threads nodes_held (threads tp) = {#}"
    "tp_run M (\<lambda>_. True) False 1 (map (Pair (Worker 0)) [Retired t, Released g x, Ran f x, Taken t, Silent, Silent] @
       map (Pair Client) [Added 1 t, Silent]) tp"
proof -
  obtain tp p where tp: "tp_reachable M (\<lambda>_. True) False 1 [Added 1 t, Silent] tp" "threads tp = [W_lock]"
    "mutex_owner tp = None" "bIsRunning tp" "prioq_get_size (prio_queue tp) = 1"
    "queue_nodes (prio_queue tp) = {#p#}" "tasks tp p = t"
    "tp_run M (\<lambda>_. True) False 1 [(Client, Added 1 t), (Client, Silent)] tp"
    using one_task_added[OF M, of t] .
  define tp1 where "tp1 = set_pc 0 W_test (tp\<lparr>mutex_owner := Some 0\<rparr>)"
  define tp2 where "tp2 = set_pc 0 W_take tp1"
  have s1: "tp_step M (\<lambda>_. True) False (Worker 0) Silent tp tp1"
    unfolding tp1_def by (rule w_lock) (use tp in \<open>simp_all add: at_def\<close>)
  have s2: "tp_step M (\<lambda>_. True) False (Worker 0) Silent tp1 tp2"
    unfolding tp2_def by (rule w_enter) (use tp in \<open>simp_all add: at_def tp1_def set_pc_def must_wait_def\<close>)
  note r2 = tp_next[OF tp_next[OF tp(1) s1] s2]
  have mem: "tp_mem tp2" using tp_reachable_inv[OF r2 M] by blast
  have q2: "prio_queue tp2 = prio_queue tp" by (simp add: tp2_def tp1_def set_pc_def)
  obtain e q where e: "prioq_extract_min M (prio_queue tp2) = Some (pn_data e, q)" "prioq_wf q" "ah_len q = 0"
    "ah_items (prio_queue tp2) = add_mset e (ah_items q)"
    using prioq_extract_min_some[of "prio_queue tp2" M] mem M tp(5) by (auto simp: tp_mem_def q2 prioq_get_size_def)
  have "pn_data e \<noteq> None" using mem e(4) by (auto simp: tp_mem_def)
  then have ep: "pn_data e = Some p" using tp(6) e(3,4) by (auto simp: queue_nodes_def q2 ah_items_def ah_nodes_def)
  define tp3 where "tp3 = set_pc 0 (W_run p) (tp2\<lparr>prio_queue := q, mutex_owner := None\<rparr>)"
  have ts: "tasks tp2 p = t" using tp(7) by (simp add: tp2_def tp1_def set_pc_def)
  have s3: "tp_step M (\<lambda>_. True) False (Worker 0) (Taken t) tp2 tp3"
    unfolding tp3_def using w_take[of tp2 0 M p q "\<lambda>_. True" False] tp e(1) ep ts
    by (simp add: at_def tp2_def tp1_def set_pc_def)
  define tp4 where "tp4 = set_pc 0 (W_release p) tp3"
  have s4: "tp_step M (\<lambda>_. True) False (Worker 0) (Ran f x) tp3 tp4"
    unfolding tp4_def by (rule w_run) (use tp t in \<open>simp_all add: at_def tp3_def tp2_def tp1_def set_pc_def\<close>)
  define tp5 where "tp5 = set_pc 0 (W_free p) tp4"
  have s5: "tp_step M (\<lambda>_. True) False (Worker 0) (Released g x) tp4 tp5"
    unfolding tp5_def by (rule w_release) (use tp t in \<open>simp_all add: at_def tp4_def tp3_def tp2_def tp1_def set_pc_def\<close>)
  note r5 = tp_next[OF tp_next[OF tp_next[OF r2 s3] s4] s5]
  have at5: "at tp5 0 (W_free p)" using tp(2) by (simp add: at_def tp5_def tp4_def tp3_def tp2_def tp1_def set_pc_def)
  have "tp_mem tp5" "p \<in># live tp5"
    using tp_reachable_inv[OF r5 M] held_in[OF at5, of p] by (auto simp: live_def)
  then obtain ap where ap: "AllocPool_Free p (tp_alloc tp5) = Some ap"
    using AllocPool_Free_ok[of "tp_alloc tp5" "set_mset (live tp5)" p] by (auto simp: tp_mem_def)
  define tp6 where "tp6 = set_pc 0 W_lock (tp5\<lparr>tp_alloc := ap\<rparr>)"
  have "tasks tp5 p = t" using ts by (simp add: tp5_def tp4_def tp3_def set_pc_def)
  then have s6: "tp_step M (\<lambda>_. True) False (Worker 0) (Retired t) tp5 tp6"
    using w_free[OF at5 ap, of M "\<lambda>_. True" False] by (simp add: tp6_def)
  note run = run_next[OF run_next[OF run_next[OF run_next[OF run_next[OF run_next[OF tp(8) s1] s2] s3] s4] s5] s6]
  have run6: "tp_run M (\<lambda>_. True) False 1 (map (Pair (Worker 0)) [Retired t, Released g x, Ran f x, Taken t, Silent, Silent] @
       map (Pair Client) [Added 1 t, Silent]) tp6"
    using run by simp
  show thesis
    by (rule that[OF r2 s3 tp_next[OF r5 s6] _ _ run6])
       (use tp(2) e(3) in \<open>simp_all add: tp6_def tp5_def tp4_def tp3_def tp2_def tp1_def set_pc_def prioq_get_size_def over_threads_def\<close>)
qed

theorem tp_tasks_run_once_witness:
  "\<exists>tr :: (actor \<times> bool tp_event) list. seen added_by (map snd tr) = {#\<lparr>taskfn = Some 1, pArgs = True, releasefn = Some 2\<rparr>#} \<and>
    seen ran_by (map snd tr) = {#(1, True)#} \<and> seen released_by (map snd tr) = {#(2, True)#} \<and>
    done_by 0 tr = life \<lparr>taskfn = Some 1, pArgs = True, releasefn = Some 2\<rparr> \<and>
    (\<exists>ts. done_by 0 tr = concat (map life ts)) \<and>
    seen ran_by (map snd tr) = calls taskfn (seen added_by (map snd tr)) \<and>
    seen released_by (map snd tr) = calls releasefn (seen added_by (map snd tr))"
proof -
  let ?t = "\<lparr>taskfn = Some 1, pArgs = True, releasefn = Some 2\<rparr>"
  let ?tr = "map (Pair (Worker 0)) [Retired ?t, Released 2 True, Ran 1 True, Taken ?t, Silent, Silent] @
       map (Pair Client) [Added 1 ?t, Silent]"
  obtain tp where tp: "tp_run (granting zero_node) (\<lambda>_. True) False 1 ?tr tp"
    "prioq_get_size (prio_queue tp) = 0" "over_threads nodes_held (threads tp) = {#}"
    using one_task_done[of "granting zero_node" ?t 1 2 True] by auto
  note once = tp_tasks_run_once[OF granting_all tp(1)]
  have "nodes_held (threads tp ! 0) = {#}"
  proof (cases "threads tp")
    case (Cons pc pcs)
    then show ?thesis using tp(3) by (simp add: over_threads_def)
  next
    case Nil
    then show ?thesis using tp_reachable_inv[OF tp_run_reachable[OF tp(1)]] by auto
  qed
  then have "\<exists>ts. done_by 0 ?tr = concat (map life ts)" using once by auto
  with once tp(2,3) show ?thesis by (intro exI[of _ ?tr]) (simp add: life_def)
qed

theorem tp_refines_bag_witness:
  "\<exists>tp tp'. tp_step (granting zero_node) (\<lambda>_. True) False (Worker 0)
       (Taken \<lparr>taskfn = Some 1, pArgs = True, releasefn = Some 2\<rparr>) tp tp' \<and>
     bag_step (Taken \<lparr>taskfn = Some 1, pArgs = True, releasefn = Some 2\<rparr>) (bag_of tp) (bag_of tp')"
proof -
  let ?t = "\<lparr>taskfn = Some 1, pArgs = True, releasefn = Some 2\<rparr>" and ?M = "granting zero_node"
  show ?thesis
  proof (rule one_task_done[of ?M ?t 1 2 True])
    fix tp tp' assume r: "tp_reachable ?M (\<lambda>_. True) False 1 [Silent, Silent, Added 1 ?t, Silent] tp"
      and s: "tp_step ?M (\<lambda>_. True) False (Worker 0) (Taken ?t) tp tp'"
    from tp_refines_bag[OF granting_all r s] s show ?thesis by blast
  qed simp_all
qed

theorem tp_never_stuck_witness:
  "\<exists>tp :: bool thread_pool. prioq_get_size (prio_queue tp) = 1 \<and>
     (\<exists>i ev tp'. tp_step (granting zero_node) (\<lambda>_. True) False (Worker i) ev tp tp' \<and> bIsRunning tp')"
proof -
  let ?t = "\<lparr>taskfn = Some 1, pArgs = True, releasefn = Some 2\<rparr>" and ?M = "granting zero_node"
  obtain tp p where tp: "tp_reachable ?M (\<lambda>_. True) False 1 [Added 1 ?t, Silent] tp" "threads tp = [W_lock]"
    "bIsRunning tp" "prioq_get_size (prio_queue tp) = 1"
    using one_task_added[of ?M ?t] by (metis granting_all)
  then have "\<not> at tp i W_asleep" for i by (auto simp: at_def)
  with tp show ?thesis using tp_never_stuck[of ?M "\<lambda>_. True" 1 "[Added 1 ?t, Silent]" tp] by auto
qed

section \<open>Shutting down\<close>

text \<open>the shutdown can miss a sleeping worker. \<open>ThreadPool_Stop\<close> clears the flag and broadcasts without the
  mutex, so both can happen between a worker's test of the flag and its \<open>pthread_cond_wait\<close>: the worker then
  sleeps, nothing is left to wake it, and \<open>pthread_join\<close> in \<open>ThreadPool_Destroy\<close> waits for ever.\<close>

theorem tp_stop_loses_wakeup:
  assumes M: "grants_all M"
  shows "\<exists>evs (tp :: 'a thread_pool). tp_reachable M (\<lambda>_. True) False 1 evs tp \<and> \<not> bIsRunning tp \<and> broadcasts tp = 0 \<and> signals tp = 0 \<and>
    threads tp = [W_asleep] \<and> (\<forall>i ev tp'. \<not> tp_step M (\<lambda>_. True) False (Worker i) ev tp tp')"
proof -
  obtain tp0 :: "'a thread_pool" where init: "ThreadPool_Init M (\<lambda>_. True) (\<lambda>_. True) undefined 1 = Some (0, tp0)"
    using ThreadPool_Init_some[OF M] .
  note ok = ThreadPool_Init_ok[OF init M]
  define tp1 where "tp1 = set_pc 0 W_test (tp0\<lparr>mutex_owner := Some 0\<rparr>)"
  define tp2 where "tp2 = set_pc 0 W_sleep tp1"
  define tp3 where "tp3 = clear_running tp2"
  define tp4 where "tp4 = broadcast tp3"
  define tp5 where "tp5 = set_pc 0 W_asleep (tp4\<lparr>mutex_owner := None\<rparr>)"
  have s1: "tp_step M (\<lambda>_. True) False (Worker 0) Silent tp0 tp1"
    unfolding tp1_def by (rule w_lock) (use ok in \<open>simp_all add: at_def\<close>)
  have s2: "tp_step M (\<lambda>_. True) False (Worker 0) Silent tp1 tp2"
    unfolding tp2_def by (rule w_wait) (use ok in \<open>simp_all add: at_def tp1_def set_pc_def must_wait_def prioq_get_size_def\<close>)
  have s3: "tp_step M (\<lambda>_. True) False Client Silent tp2 tp3" unfolding tp3_def by (rule c_stop)
  have s4: "tp_step M (\<lambda>_. True) False Client Silent tp3 tp4"
    unfolding tp4_def by (rule c_broadcast) (simp add: tp3_def clear_running_def)
  have pcs: "threads tp4 = [W_sleep]" using ok by (simp add: tp4_def tp3_def tp2_def tp1_def set_pc_def broadcast_def clear_running_def wake_def)
  have s5: "tp_step M (\<lambda>_. True) False (Worker 0) Silent tp4 tp5"
    unfolding tp5_def by (rule w_sleep) (simp add: at_def pcs)
  note r = tp_next[OF tp_next[OF tp_next[OF tp_next[OF tp_next[OF tp_start[OF init] s1] s2] s3] s4] s5]
  have end_pcs: "threads tp5 = [W_asleep]" by (simp add: tp5_def set_pc_def pcs)
  have stuck: "\<not> tp_step M (\<lambda>_. True) False (Worker i) ev tp5 tp'" for i ev tp'
  proof
    assume "tp_step M (\<lambda>_. True) False (Worker i) ev tp5 tp'"
    then show False by (cases rule: tp_step.cases) (auto simp: at_def end_pcs)
  qed
  have "\<not> bIsRunning tp5" "broadcasts tp5 = 0" "signals tp5 = 0"
    using ok by (simp_all add: tp5_def tp4_def tp3_def tp2_def tp1_def set_pc_def broadcast_def clear_running_def)
  with r end_pcs stuck show ?thesis by blast
qed

theorem tp_stop_loses_wakeup_witness:
  "\<exists>(evs :: unit tp_event list) tp. tp_reachable (granting zero_node) (\<lambda>_. True) False 1 evs tp \<and> \<not> bIsRunning tp \<and>
    broadcasts tp = 0 \<and> signals tp = 0 \<and> threads tp = [W_asleep] \<and>
    (\<forall>i ev tp'. \<not> tp_step (granting zero_node) (\<lambda>_. True) False (Worker i) ev tp tp')"
  by (rule tp_stop_loses_wakeup) simp

text \<open>\<open>ThreadPool_Destroy\<close> does not release the tasks left in the queue: when they have release functions,
  it calls the one of the first task, passes it the task itself instead of its arguments, and stops; the
  arguments of all tasks are lost.\<close>

theorem tp_destroy_leaks:
  assumes "grants_all M" "tp_reachable M granted wait_fails cores evs tp" "0 < prioq_get_size (prio_queue tp)"
    "\<forall>p \<in># queue_nodes (prio_queue tp). releasefn (tasks tp p) \<noteq> None"
  shows "\<exists>f p q bs. ThreadPool_Destroy M tp = Some ([(f, p)], q, bs) \<and> p \<in># queue_nodes (prio_queue tp) \<and>
    releasefn (tasks tp p) = Some f \<and> prioq_get_size q = prioq_get_size (prio_queue tp) - 1"
proof -
  have mem: "tp_mem tp" using tp_reachable_inv[OF assms(2,1)] by blast
  then obtain e q where e: "prioq_extract_min M (prio_queue tp) = Some (pn_data e, q)"
    "ah_len q = ah_len (prio_queue tp) - 1" "ah_items (prio_queue tp) = add_mset e (ah_items q)"
    using prioq_extract_min_some[of "prio_queue tp" M] assms(1,3) by (auto simp: tp_mem_def prioq_get_size_def)
  then obtain p where p: "pn_data e = Some p" using mem by (auto simp: tp_mem_def)
  then have pq: "p \<in># queue_nodes (prio_queue tp)" by (simp add: queue_nodes_def e(3))
  then obtain f where f: "releasefn (tasks tp p) = Some f" using assms(4) by auto
  have "destroy_loop M (tasks tp) (prio_queue tp) = Some ([(f, p)], q)"
    using e(1) p f by (subst destroy_loop.simps) simp
  then show ?thesis using pq f e(2) by (simp add: ThreadPool_Destroy_def prioq_get_size_def)
qed

theorem tp_destroy_leaks_witness:
  "\<exists>tp p bs q. tasks tp p = \<lparr>taskfn = Some 1, pArgs = True, releasefn = Some 2\<rparr> \<and>
     ThreadPool_Destroy (granting zero_node) tp = Some ([(2, p)], q, bs)"
proof -
  let ?t = "\<lparr>taskfn = Some 1, pArgs = True, releasefn = Some 2\<rparr>" and ?M = "granting zero_node"
  obtain tp p where tp: "tp_reachable ?M (\<lambda>_. True) False 1 [Added 1 ?t, Silent] tp"
    "prioq_get_size (prio_queue tp) = 1" "queue_nodes (prio_queue tp) = {#p#}" "tasks tp p = ?t"
    using one_task_added[of ?M ?t] by (metis granting_all)
  then obtain f p' q bs where d: "ThreadPool_Destroy ?M tp = Some ([(f, p')], q, bs)" "p' = p" "f = 2"
    using tp_destroy_leaks[of ?M "\<lambda>_. True" False 1 "[Added 1 ?t, Silent]" tp] by force
  show ?thesis by (rule exI[of _ tp], rule exI[of _ p], rule exI[of _ bs], rule exI[of _ q]) (use d tp(4) in simp)
qed

end
