(* ===== verification/TickThread.thy ===== *)
theory TickThread
  imports ThreadPool
begin

text \<open>
  tickthread.c and \<open>Server_AddTimedTask\<close> of server.c: tasks with a due time wait in a queue of their own;
  once a second the tick thread hands those that are due to the thread pool. Both sides work under
  \<open>timed_queue_mtx\<close>, so adding a task and one tick are single steps. A tick is modelled with the calls of
  \<open>ThreadPool_AddTask\<close> it makes, as the list of the tasks it passes (always with priority 0); the loop does
  not look at the results of these calls.
\<close>

section \<open>The operations\<close>

type_synonym mnode = "nat \<times> node"

record 'a timed_server =
  timed_queue :: "mnode prioq"
  mem_pool :: memory_pool
  timed_tasks :: "mnode \<Rightarrow> 'a thread_task"

record tick_thread =
  tt_running :: bool
  tick_delay :: nat

definition Server_AddTimedTask ::
    "mnode prioqnode mem_mgr \<Rightarrow> (nat \<Rightarrow> bool) \<Rightarrow> 'a timed_server \<Rightarrow> nat option \<Rightarrow> int \<Rightarrow> 'a \<Rightarrow> nat option
     \<Rightarrow> 'a timed_server option" where
  "Server_AddTimedTask M granted sv fn runtime args releaser = do {
     (p, mp) \<leftarrow> MemoryPool_Alloc granted sizeof_ThreadTask (mem_pool sv);
     let ts = (timed_tasks sv)(p := \<lparr>taskfn = fn, pArgs = args, releasefn = releaser\<rparr>);
     (r, q) \<leftarrow> prioq_min_insert M (timed_queue sv) runtime (Some p);
     Some (sv\<lparr>mem_pool := mempool_write p None mp, timed_tasks := ts, timed_queue := q\<rparr>)
   }"

lemma extract_shrinks:
  "prioq_extract_min M q = Some (Some p, q') \<Longrightarrow> ah_len q' < ah_len q"
  by (auto simp: prioq_extract_min_def ah_extract_def ah_remove_root_def ah_heapify_def zero_node_def Let_def
      split: if_splits bind_splits)

text \<open>The dispatch loop of one tick at time \<open>curtime\<close>.\<close>

function tick_loop ::
    "mnode prioqnode mem_mgr \<Rightarrow> int \<Rightarrow> 'a timed_server \<Rightarrow> ('a thread_task list \<times> 'a timed_server) option" where
  "tick_loop M curtime sv =
     (if prioq_get_size (timed_queue sv) = 0 then Some ([], sv)
      else case prioq_get_key_at (timed_queue sv) 0 of
        None \<Rightarrow> None
      | Some key \<Rightarrow>
          (if curtime \<ge> key then
             (case prioq_extract_min M (timed_queue sv) of
                Some (Some p, q) \<Rightarrow>
                  (case MemoryPool_Free sizeof_ThreadTask p (mem_pool sv) of
                     None \<Rightarrow> None
                   | Some mp \<Rightarrow>
                       map_option (\<lambda>(calls, sv'). (timed_tasks sv p # calls, sv'))
                         (tick_loop M curtime (sv\<lparr>timed_queue := q, mem_pool := mp\<rparr>)))
              | _ \<Rightarrow> None)
           else Some ([], sv)))"
  by pat_completeness auto
termination
  by (relation "measure (\<lambda>(M, now, sv). ah_len (timed_queue sv))") (auto dest: extract_shrinks)

declare tick_loop.simps [simp del]

text \<open>\<open>pthread_create\<close> returns 0 or an error number.\<close>

definition TickThread_Init :: "int \<Rightarrow> nat \<Rightarrow> int \<times> tick_thread" where
  "TickThread_Init create_result tickspeed = (create_result, \<lparr>tt_running = True, tick_delay = tickspeed\<rparr>)"

definition TickThread_Stop :: "tick_thread \<Rightarrow> tick_thread" where
  "TickThread_Stop tt = (if tt_running tt then tt\<lparr>tt_running := False\<rparr> else tt)"

text \<open>What happens to the timed tasks: tasks added by any thread, and ticks at the times the clock shows.\<close>

datatype 'a timed_event = AddTimed int "'a thread_task" | TickAt int

fun TickThreadFn ::
    "mnode prioqnode mem_mgr \<Rightarrow> (nat \<Rightarrow> bool) \<Rightarrow> 'a timed_event list \<Rightarrow> 'a timed_server
     \<Rightarrow> ((int \<times> 'a thread_task) list \<times> 'a timed_server) option" where
  "TickThreadFn M granted [] sv = Some ([], sv)"
| "TickThreadFn M granted (AddTimed k t # evs) sv = do {
     sv \<leftarrow> Server_AddTimedTask M granted sv (taskfn t) k (pArgs t) (releasefn t);
     TickThreadFn M granted evs sv
   }"
| "TickThreadFn M granted (TickAt now # evs) sv = do {
     (calls, sv) \<leftarrow> tick_loop M now sv;
     (rest, sv) \<leftarrow> TickThreadFn M granted evs sv;
     Some (map (Pair now) calls @ rest, sv)
   }"

section \<open>The invariant\<close>

definition timed_nodes :: "'a timed_server \<Rightarrow> mnode multiset" where
  "timed_nodes sv = image_mset (the \<circ> pn_data) (ah_items (timed_queue sv))"

text \<open>The tasks waiting, with their due times.\<close>

definition timed_items :: "'a timed_server \<Rightarrow> (int \<times> 'a thread_task) multiset" where
  "timed_items sv = image_mset (\<lambda>e. (pn_key e, timed_tasks sv (the (pn_data e)))) (ah_items (timed_queue sv))"

definition timed_wf :: "(int \<times> mnode) set \<Rightarrow> 'a timed_server \<Rightarrow> bool" where
  "timed_wf U sv \<longleftrightarrow> mp_inv (mem_pool sv, U) \<and> prioq_wf (timed_queue sv) \<and>
     (\<forall>e \<in># ah_items (timed_queue sv). pn_data e \<noteq> None) \<and> (\<forall>p. count (timed_nodes sv) p \<le> 1) \<and>
     (\<forall>p \<in># timed_nodes sv. (sizeof_ThreadTask, p) \<in> U)"

lemma prioq_min_key:
  assumes "prioq_wf h" "0 < ah_len h" "grants_all M"
  shows "\<exists>e h'. prioq_extract_min M h = Some (pn_data e, h') \<and> prioq_get_key_at h 0 = Some (pn_key e) \<and>
    prioq_wf h' \<and> ah_len h' = ah_len h - 1 \<and> ah_items h = add_mset e (ah_items h') \<and>
    (\<forall>x \<in># ah_items h. pn_key e \<le> pn_key x)"
proof -
  have sh: "ah_shape h" using assms(1) by (rule ah_wf_shape)
  have "ah_items h \<noteq> {#}" using size_ah_items[OF sh] assms(2) by auto
  with pq.ext_ok[of h M] assms(1,3) obtain e h' where
    e: "prioq_extract_min_node M h = Some (e, h')" "prioq_wf h'"
      "ah_items h = add_mset e (ah_items h')" "\<forall>x \<in># ah_items h. \<not> node_gt e x" by blast
  have "ah_len h' = ah_len h - 1"
    using e(2,3) size_ah_items[OF sh] size_ah_items[of h'] by (simp add: ah_wf_def)
  moreover have "rd (cells (ah_array h)) 0 = Some e"
    using e(1) assms(2) by (auto simp: prioq_extract_min_node_eq ah_extract_def split: bind_splits)
  ultimately show ?thesis using e
    by (auto simp: prioq_extract_min_def prioq_extract_min_node_eq node_gt_def not_less
        prioq_get_key_at_def ah_node_at_def)
qed

text \<open>With all allocations granted the memory pool serves elements of a size that is no multiple of a whole memory.\<close>

lemma MemoryPool_Alloc_default:
  "MemoryPool_Alloc granted s mp = Some (q, mp') \<Longrightarrow> default_init_elcount mp' = default_init_elcount mp"
  by (auto simp: MemoryPool_Alloc_def pool_alloc_at_def MemoryPool_AddBlockSizePool_def split: option.splits bind_splits if_splits)

lemma MemoryPool_Free_default:
  "MemoryPool_Free s q mp = Some mp' \<Longrightarrow> default_init_elcount mp' = default_init_elcount mp"
  by (auto simp: MemoryPool_Free_def split: option.splits bind_splits if_splits)

lemma MemoryPool_Alloc_some:
  assumes wf: "mempool_wf mp used" and granted: "\<forall>n. granted n"
    and room: "(int (card used) + 1) * 2 * s < 2 ^ 63" "default_init_elcount mp * s < 2 ^ 63" "sizeof_pointer \<le> s"
  shows "\<exists>q mp'. MemoryPool_Alloc granted s mp = Some (q, mp')"
proof -
  have at: "\<exists>q mp'. pool_alloc_at granted i mp1 = Some (q, mp')"
    if w: "mempool_wf mp1 used" and i: "i < length (alloc_pools mp1)" "element_size (alloc_pools mp1 ! i) = s" for mp1 i
  proof -
    have fin: "finite used" using w by (simp add: mempool_wf_def)
    have c: "int (card (used_in used i)) + 1 \<le> int (card used) + 1" using card_used_in[OF fin, of i] by simp
    have "0 \<le> s" using room(3) by (simp add: sizeof_pointer_def)
    with c have "(int (card (used_in used i)) + 1) * 2 * s \<le> (int (card used) + 1) * 2 * s"
      by (intro mult_right_mono) simp_all
    moreover have "pool_wf (alloc_pools mp1 ! i) (used_in used i)" using w i by (auto simp: mempool_wf_def)
    ultimately show ?thesis
      using AllocPool_Alloc_some[of "alloc_pools mp1 ! i" "used_in used i" granted] granted room(1) i(2)
      by (auto simp: pool_alloc_at_def)
  qed
  show ?thesis
  proof (cases "MemoryPool_FindAllocPool mp s")
    case (Some i)
    then have "first_idx (\<lambda>ap. element_size ap = s) (alloc_pools mp) = Some i"
      using wf MemoryPool_FindAllocPool_ok[of mp s] by (simp add: mempool_wf_def)
    then have "i < length (alloc_pools mp)" "element_size (alloc_pools mp ! i) = s"
      by (simp_all add: first_idx_Some)
    from at[OF wf this] Some show ?thesis by (simp add: MemoryPool_Alloc_def)
  next
    case None
    have "1 \<le> default_init_elcount mp" using wf by (simp add: mempool_wf_def)
    then obtain ap where "AllocPool_Init granted (default_init_elcount mp) s = Some ap"
      using granted room(2,3) by (auto simp: AllocPool_Init_def PoolMemBlock_Init_def)
    then obtain j mp1 where add: "MemoryPool_AddBlockSizePool granted mp s = Some (j, mp1)"
      using granted by (auto simp: MemoryPool_AddBlockSizePool_def)
    have new: "s \<notin> element_size ` set (alloc_pools mp)"
      using None wf MemoryPool_FindAllocPool_ok[of mp s] first_idx_None[of "\<lambda>ap. element_size ap = s"]
      by (fastforce simp: mempool_wf_def)
    note a = MemoryPool_AddBlockSizePool_ok[OF wf new add]
    have l: "length (alloc_pools mp1) = length (alloc_pools mp) + 1" using a by (metis length_append_singleton length_map Suc_eq_plus1)
    then have j: "j < length (alloc_pools mp1)" using a by simp
    have "map element_size (alloc_pools mp1) ! j = s" using a by (simp add: nth_append)
    then have "element_size (alloc_pools mp1 ! j) = s" using j by simp
    with at[OF _ j this] a None add show ?thesis by (auto simp: MemoryPool_Alloc_def)
  qed
qed

lemma Server_AddTimedTask_ok:
  assumes M: "grants_all M" and wf: "timed_wf U sv" and small: "ah_len (timed_queue sv) < 2 ^ 30"
    and add: "Server_AddTimedTask M granted sv (taskfn t) k (pArgs t) (releasefn t) = Some sv'"
  shows "\<exists>U'. timed_wf U' sv' \<and> timed_items sv' = add_mset (k, t) (timed_items sv) \<and>
    ah_len (timed_queue sv') = ah_len (timed_queue sv) + 1 \<and> card U' \<le> card U + 1 \<and>
    default_init_elcount (mem_pool sv') = default_init_elcount (mem_pool sv)"
proof -
  let ?new = "\<lparr>taskfn = taskfn t, pArgs = pArgs t, releasefn = releasefn t\<rparr>"
  have new: "?new = t" by (cases t) simp
  obtain p mp r q where p: "MemoryPool_Alloc granted sizeof_ThreadTask (mem_pool sv) = Some (p, mp)"
    and q: "prioq_min_insert M (timed_queue sv) k (Some p) = Some (r, q)"
    and sv': "sv' = sv\<lparr>mem_pool := mempool_write p None mp, timed_tasks := (timed_tasks sv)(p := t), timed_queue := q\<rparr>"
    using add new by (auto simp: Server_AddTimedTask_def Let_def split: bind_splits)
  define U' where "U' = insert (sizeof_ThreadTask, p) U"
  have inv: "mp_inv (mem_pool sv, U)" using wf by (simp add: timed_wf_def)
  then have fresh: "p \<notin> snd ` U" using MemoryPool_Alloc_keeps[OF _ p] by (auto simp: mp_inv_def)
  have inv1: "mp_inv (mp, U')" using mp_step_inv[OF step_alloc[OF p] inv] by (simp add: U'_def)
  have "mp_step granted (mp, U') (mempool_write p None mp, U')" by (rule step_write[of sizeof_ThreadTask]) (simp add: U'_def)
  then have inv2: "mp_inv (mempool_write p None mp, U')" using inv1 mp_step_inv by blast
  have out: "p \<notin># timed_nodes sv" using wf fresh by (force simp: timed_wf_def)
  have wfq: "prioq_wf (timed_queue sv)" using wf by (simp add: timed_wf_def)
  from prioq_min_insert_some[OF wfq small M, of k "Some p"] q
  have q': "prioq_wf q" "ah_len q = ah_len (timed_queue sv) + 1"
    "ah_items q = add_mset (prioqnode_Init k (Some p)) (ah_items (timed_queue sv))" by auto
  have nodes: "timed_nodes sv' = add_mset p (timed_nodes sv)"
    by (simp add: timed_nodes_def sv' q'(3) prioqnode_Init_def)
  have "the (pn_data e) \<noteq> p" if "e \<in># ah_items (timed_queue sv)" for e
    using out that by (auto simp: timed_nodes_def)
  then have "image_mset (\<lambda>e. (pn_key e, ((timed_tasks sv)(p := t)) (the (pn_data e)))) (ah_items (timed_queue sv)) =
      timed_items sv" unfolding timed_items_def by (intro image_mset_cong) auto
  then have items: "timed_items sv' = add_mset (k, t) (timed_items sv)"
    by (simp add: timed_items_def sv' q'(3) prioqnode_Init_def)
  have one: "\<forall>x. count (timed_nodes sv) x \<le> 1" using wf by (simp add: timed_wf_def)
  have "\<forall>x. count (timed_nodes sv') x \<le> 1"
    unfolding nodes using one out by (simp add: not_in_iff del: split_paired_All)
  then have "timed_wf U' sv'"
    using wf inv2 q' nodes unfolding timed_wf_def
    by (auto simp: sv' U'_def prioqnode_Init_def simp del: split_paired_All split_paired_Ex)
  moreover have "card U' \<le> card U + 1" by (simp add: U'_def card_insert_le_m1 card_insert_if)
  moreover have "default_init_elcount (mem_pool sv') = default_init_elcount (mem_pool sv)"
    using MemoryPool_Alloc_default[OF p] by (simp add: sv' mempool_write_def)
  ultimately show ?thesis using items q'(2) by (intro exI[of _ U']) (simp add: sv')
qed

lemma Server_AddTimedTask_some:
  assumes M: "grants_all M" and wf: "timed_wf U sv" and small: "ah_len (timed_queue sv) < 2 ^ 30"
    and granted: "\<forall>n. granted n" and room: "card U < 2 ^ 30" "default_init_elcount (mem_pool sv) \<le> 2 ^ 30"
  shows "Server_AddTimedTask M granted sv fn k args releaser \<noteq> None"
proof -
  have inv: "mempool_wf (mem_pool sv) (snd ` U)" "finite U"
    using wf by (auto simp: timed_wf_def mp_inv_def mempool_wf_def dest: finite_imageD)
  have c: "card (snd ` U) \<le> card U" using inv(2) by (rule card_image_le)
  have "\<exists>q mp. MemoryPool_Alloc granted sizeof_ThreadTask (mem_pool sv) = Some (q, mp)"
    by (rule MemoryPool_Alloc_some[OF inv(1) granted]) (use c room in \<open>simp_all add: sizeof_ThreadTask_def sizeof_pointer_def\<close>)
  then obtain p mp where p: "MemoryPool_Alloc granted sizeof_ThreadTask (mem_pool sv) = Some (p, mp)" by blast
  have "prioq_wf (timed_queue sv)" using wf by (simp add: timed_wf_def)
  from prioq_min_insert_some[OF this small M, of k "Some p"] obtain q where
    "prioq_min_insert M (timed_queue sv) k (Some p) = Some (0, q)" by blast
  with p show ?thesis by (simp add: Server_AddTimedTask_def Let_def)
qed

lemma tick_loop_ok:
  assumes M: "grants_all M"
  shows "timed_wf U sv \<Longrightarrow> \<exists>es sv' U'. tick_loop M now sv = Some (map snd es, sv') \<and> timed_wf U' sv' \<and>
    mset es + timed_items sv' = timed_items sv \<and> sorted (map fst es) \<and> (\<forall>e \<in> set es. fst e \<le> now) \<and>
    (\<forall>e \<in># timed_items sv'. now < fst e) \<and> ah_len (timed_queue sv') \<le> ah_len (timed_queue sv) \<and> U' \<subseteq> U \<and>
    default_init_elcount (mem_pool sv') = default_init_elcount (mem_pool sv)"
proof (induction "ah_len (timed_queue sv)" arbitrary: U sv rule: less_induct)
  case less
  have wfq: "prioq_wf (timed_queue sv)" using less.prems by (simp add: timed_wf_def)
  show ?case
  proof (cases "ah_len (timed_queue sv) = 0")
    case True
    then have "timed_items sv = {#}" by (simp add: timed_items_def ah_items_def ah_nodes_def)
    moreover have "tick_loop M now sv = Some ([], sv)"
      using True by (subst tick_loop.simps) (simp add: prioq_get_size_def)
    ultimately show ?thesis using less.prems by (intro exI[of _ "[]"] exI[of _ sv] exI[of _ U]) simp
  next
    case False
    then obtain e q where e: "prioq_extract_min M (timed_queue sv) = Some (pn_data e, q)"
      "prioq_get_key_at (timed_queue sv) 0 = Some (pn_key e)" "prioq_wf q" "ah_len q = ah_len (timed_queue sv) - 1"
      "ah_items (timed_queue sv) = add_mset e (ah_items q)" "\<forall>x \<in># ah_items (timed_queue sv). pn_key e \<le> pn_key x"
      using prioq_min_key[OF wfq _ M] by blast
    show ?thesis
    proof (cases "pn_key e \<le> now")
      case late: False
      then have "tick_loop M now sv = Some ([], sv)"
        using False e(2) by (subst tick_loop.simps) (simp add: prioq_get_size_def)
      moreover have "\<forall>x \<in># timed_items sv. now < fst x" using e(6) late by (auto simp: timed_items_def)
      ultimately show ?thesis using less.prems by (intro exI[of _ "[]"] exI[of _ sv] exI[of _ U]) simp
    next
      case due: True
      obtain p where p: "pn_data e = Some p" using less.prems e(5) by (auto simp: timed_wf_def)
      have pU: "(sizeof_ThreadTask, p) \<in> U" using less.prems e(5) p by (auto simp: timed_wf_def timed_nodes_def)
      have inv: "mp_inv (mem_pool sv, U)" using less.prems by (simp add: timed_wf_def)
      then have "element_size (alloc_pools (mem_pool sv) ! fst p) = sizeof_ThreadTask" "p \<in> snd ` U"
        "mempool_wf (mem_pool sv) (snd ` U)" using pU by (force simp: mp_inv_def)+
      then obtain mp where mp: "MemoryPool_Free sizeof_ThreadTask p (mem_pool sv) = Some mp"
        using MemoryPool_Free_ok by blast
      define sv1 where "sv1 = sv\<lparr>timed_queue := q, mem_pool := mp\<rparr>"
      define U1 where "U1 = U - {(sizeof_ThreadTask, p)}"
      have inv1: "mp_inv (mp, U1)" using mp_step_inv[OF step_free[OF pU mp] inv] by (simp add: U1_def)
      have nodes: "timed_nodes sv = add_mset p (timed_nodes sv1)" by (simp add: timed_nodes_def sv1_def e(5) p)
      have one: "\<forall>x. count (timed_nodes sv) x \<le> 1" using less.prems by (simp add: timed_wf_def)
      have "count (timed_nodes sv1) x \<le> 1" for x
        using spec[OF one, of x] unfolding nodes by (simp split: if_splits)
      then have one1: "\<forall>x. count (timed_nodes sv1) x \<le> 1" by blast
      have "p \<notin># timed_nodes sv1"
        using spec[OF one, of p] unfolding nodes by (simp add: not_in_iff)
      then have wf1: "timed_wf U1 sv1"
        using less.prems inv1 e(3,5) one1 nodes unfolding timed_wf_def
        by (auto simp: sv1_def U1_def simp del: split_paired_All split_paired_Ex)
      have items: "timed_items sv = add_mset (pn_key e, timed_tasks sv p) (timed_items sv1)"
        by (simp add: timed_items_def sv1_def e(5) p)
      have "ah_len (timed_queue sv1) < ah_len (timed_queue sv)" using e(4) False by (simp add: sv1_def)
      from less.hyps[OF this wf1] obtain es sv' U' where
        ih: "tick_loop M now sv1 = Some (map snd es, sv')" "timed_wf U' sv'"
        "mset es + timed_items sv' = timed_items sv1" "sorted (map fst es)" "\<forall>e \<in> set es. fst e \<le> now"
        "\<forall>e \<in># timed_items sv'. now < fst e" "ah_len (timed_queue sv') \<le> ah_len (timed_queue sv1)"
        "U' \<subseteq> U1" "default_init_elcount (mem_pool sv') = default_init_elcount (mem_pool sv1)" by blast
      have "tick_loop M now sv = Some (map snd ((pn_key e, timed_tasks sv p) # es), sv')"
        using False e(1,2) due p mp ih(1) by (subst tick_loop.simps) (simp add: prioq_get_size_def sv1_def)
      moreover have "\<forall>x \<in> set es. pn_key e \<le> fst x"
      proof
        fix x assume "x \<in> set es"
        then have "x \<in># timed_items sv" using ih(3) items by (metis insert_iff set_mset_add_mset_insert set_mset_mset set_mset_union UnI1)
        then show "pn_key e \<le> fst x" using e(6) by (auto simp: timed_items_def)
      qed
      moreover have "ah_len (timed_queue sv') \<le> ah_len (timed_queue sv)" using ih(7) e(4) by (simp add: sv1_def)
      moreover have "U' \<subseteq> U" "default_init_elcount (mem_pool sv') = default_init_elcount (mem_pool sv)"
        using ih(8,9) MemoryPool_Free_default[OF mp] by (auto simp: U1_def sv1_def)
      ultimately show ?thesis using ih(2-6) items due
        by (intro exI[of _ "(pn_key e, timed_tasks sv p) # es"] exI[of _ sv'] exI[of _ U']) simp
    qed
  qed
qed

section \<open>Whole runs\<close>

text \<open>The queue and the pool as \<open>Server_InitializeADTs\<close> and \<open>Server_InitializeThreads\<close> make them.\<close>

definition timed_start :: "mnode prioqnode mem_mgr \<Rightarrow> 'a thread_task \<Rightarrow> 'a timed_server option" where
  "timed_start M junk = do {
     (r, q) \<leftarrow> prioq_create M 32;
     Some \<lparr>timed_queue = q, mem_pool = MemoryPool_Init 32, timed_tasks = (\<lambda>_. junk)\<rparr>
   }"

fun added_timed :: "'a timed_event list \<Rightarrow> (int \<times> 'a thread_task) multiset" where
  "added_timed [] = {#}"
| "added_timed (AddTimed k t # evs) = add_mset (k, t) (added_timed evs)"
| "added_timed (TickAt now # evs) = added_timed evs"

lemma timed_start_ok:
  assumes "timed_start M junk = Some sv" "grants_all M"
  shows "timed_wf {} sv \<and> timed_items sv = {#} \<and> ah_len (timed_queue sv) = 0"
proof -
  obtain h where h: "prioq_create M 32 = Some (0, h)" "prioq_wf h" "ah_items h = {#}"
    using node.ah_create_ok[OF assms(2), of 32] by (auto simp: prioq_create_def)
  have "mp_inv (MemoryPool_Init 32, {})"
    using mp_reachable_inv[OF _ reach_init, of 32] by simp
  then show ?thesis
    using assms(1) h size_ah_items[OF ah_wf_shape[OF h(2)]]
    by (auto simp: timed_start_def timed_wf_def timed_items_def timed_nodes_def)
qed

lemma TickThreadFn_ok:
  assumes M: "grants_all M"
  shows "timed_wf U sv \<Longrightarrow> ah_len (timed_queue sv) + length evs \<le> 2 ^ 30 \<Longrightarrow>
    TickThreadFn M granted evs sv = Some (out, sv') \<Longrightarrow>
    \<exists>es U'. out = map (\<lambda>(now, k, t). (now, t)) es \<and> timed_wf U' sv' \<and>
      mset (map snd es) + timed_items sv' = added_timed evs + timed_items sv \<and>
      (\<forall>(now, k, t) \<in> set es. k \<le> now) \<and> ah_len (timed_queue sv') \<le> ah_len (timed_queue sv) + length evs"
proof (induction evs arbitrary: U sv out)
  case Nil
  then show ?case by (intro exI[of _ "[]"] exI[of _ U]) simp
next
  case (Cons ev evs)
  show ?case
  proof (cases ev)
    case (AddTimed k t)
    obtain sv1 where add: "Server_AddTimedTask M granted sv (taskfn t) k (pArgs t) (releasefn t) = Some sv1"
      "TickThreadFn M granted evs sv1 = Some (out, sv')"
      using Cons.prems(3) by (auto simp: AddTimed split: bind_splits)
    have "ah_len (timed_queue sv) < 2 ^ 30" using Cons.prems(2) by simp
    from Server_AddTimedTask_ok[OF M Cons.prems(1) this add(1)] obtain U1 where
      s1: "timed_wf U1 sv1" "timed_items sv1 = add_mset (k, t) (timed_items sv)"
      "ah_len (timed_queue sv1) = ah_len (timed_queue sv) + 1" by blast
    from Cons.IH[OF s1(1) _ add(2)] s1(3) Cons.prems(2) obtain es U' where
      "out = map (\<lambda>(now, k, t). (now, t)) es" "timed_wf U' sv'"
      "mset (map snd es) + timed_items sv' = added_timed evs + timed_items sv1"
      "\<forall>(now, k, t) \<in> set es. k \<le> now" "ah_len (timed_queue sv') \<le> ah_len (timed_queue sv1) + length evs" by auto
    then show ?thesis using s1(2,3) by (intro exI[of _ es] exI[of _ U']) (simp add: AddTimed)
  next
    case (TickAt now)
    obtain cs sv1 rest where tick: "tick_loop M now sv = Some (cs, sv1)"
      "TickThreadFn M granted evs sv1 = Some (rest, sv')" "out = map (Pair now) cs @ rest"
      using Cons.prems(3) by (auto simp: TickAt split: bind_splits)
    from tick_loop_ok[OF M Cons.prems(1), of now] tick(1) obtain es1 U1 where
      s1: "cs = map snd es1" "timed_wf U1 sv1" "mset es1 + timed_items sv1 = timed_items sv"
      "\<forall>e \<in> set es1. fst e \<le> now" "ah_len (timed_queue sv1) \<le> ah_len (timed_queue sv)" by auto
    from Cons.IH[OF s1(2) _ tick(2)] s1(5) Cons.prems(2) obtain es U' where
      s2: "rest = map (\<lambda>(now, k, t). (now, t)) es" "timed_wf U' sv'"
      "mset (map snd es) + timed_items sv' = added_timed evs + timed_items sv1"
      "\<forall>(now, k, t) \<in> set es. k \<le> now" "ah_len (timed_queue sv') \<le> ah_len (timed_queue sv1) + length evs" by auto
    define es2 where "es2 = map (Pair now) es1 @ es"
    have "out = map (\<lambda>(now, k, t). (now, t)) es2"
      by (simp add: tick(3) s1(1) s2(1) es2_def case_prod_unfold)
    moreover have "mset (map snd es2) + timed_items sv' = added_timed (ev # evs) + timed_items sv"
    proof -
      have "mset (map snd es2) = mset es1 + mset (map snd es)" by (simp add: es2_def comp_def)
      then show ?thesis using s1(3) s2(3) by (simp add: TickAt ac_simps)
    qed
    moreover have "\<forall>(now, k, t) \<in> set es2. k \<le> now" using s1(4) s2(4) by (auto simp: es2_def)
    ultimately show ?thesis using s2(2,5) s1(5) by (intro exI[of _ es2] exI[of _ U']) simp
  qed
qed

lemma TickThreadFn_some:
  assumes M: "grants_all M" and granted: "\<forall>n. granted n"
  shows "timed_wf U sv \<Longrightarrow> ah_len (timed_queue sv) + length evs \<le> 2 ^ 30 \<Longrightarrow> card U + length evs \<le> 2 ^ 30 \<Longrightarrow>
    default_init_elcount (mem_pool sv) \<le> 2 ^ 30 \<Longrightarrow> \<exists>out sv'. TickThreadFn M granted evs sv = Some (out, sv')"
proof (induction evs arbitrary: U sv)
  case (Cons ev evs)
  show ?case
  proof (cases ev)
    case (AddTimed k t)
    have small: "ah_len (timed_queue sv) < 2 ^ 30" "card U < 2 ^ 30" using Cons.prems(2,3) by simp_all
    obtain sv1 where add: "Server_AddTimedTask M granted sv (taskfn t) k (pArgs t) (releasefn t) = Some sv1"
      using Server_AddTimedTask_some[OF M Cons.prems(1) small(1) granted small(2) Cons.prems(4)] by blast
    from Server_AddTimedTask_ok[OF M Cons.prems(1) small(1) add] obtain U1 where
      s1: "timed_wf U1 sv1" "ah_len (timed_queue sv1) = ah_len (timed_queue sv) + 1" "card U1 \<le> card U + 1"
      "default_init_elcount (mem_pool sv1) = default_init_elcount (mem_pool sv)" by blast
    from Cons.IH[OF s1(1)] s1(2-4) Cons.prems(2-4) obtain out sv' where
      "TickThreadFn M granted evs sv1 = Some (out, sv')" by auto
    then show ?thesis using add by (simp add: AddTimed)
  next
    case (TickAt now)
    from tick_loop_ok[OF M Cons.prems(1), of now] obtain cs sv1 U1 where
      s1: "tick_loop M now sv = Some (cs, sv1)" "timed_wf U1 sv1" "U1 \<subseteq> U"
      "ah_len (timed_queue sv1) \<le> ah_len (timed_queue sv)"
      "default_init_elcount (mem_pool sv1) = default_init_elcount (mem_pool sv)" by blast
    have "finite U" using Cons.prems(1) by (auto simp: timed_wf_def mp_inv_def mempool_wf_def dest: finite_imageD)
    then have "card U1 \<le> card U" using s1(3) by (rule card_mono)
    with Cons.IH[OF s1(2)] s1(4,5) Cons.prems(2-4) obtain out sv' where
      "TickThreadFn M granted evs sv1 = Some (out, sv')" by auto
    then show ?thesis using s1(1) by (simp add: TickAt)
  qed
qed simp

lemma TickThreadFn_append:
  "TickThreadFn M granted (evs @ [TickAt now]) sv = Some (out, sv') \<Longrightarrow>
   \<exists>out1 sv1 calls. TickThreadFn M granted evs sv = Some (out1, sv1) \<and> tick_loop M now sv1 = Some (calls, sv')"
proof (induction evs arbitrary: sv out)
  case (Cons ev evs)
  then show ?case by (cases ev) (fastforce split: bind_splits)+
qed (auto split: bind_splits)

lemma first_alloc: "\<exists>p mp. MemoryPool_Alloc (\<lambda>_. True) sizeof_ThreadTask (MemoryPool_Init 32) = Some (p, mp)"
proof -
  obtain ap where ap: "AllocPool_Init (\<lambda>_. True) 32 24 = Some ap"
    by (simp add: AllocPool_Init_def PoolMemBlock_Init_def sizeof_pointer_def)
  note ok = AllocPool_Init_ok[OF ap]
  then obtain p ap' where "AllocPool_Alloc (\<lambda>_. True) ap = Some (p, ap')"
    using AllocPool_Alloc_some[of ap "{}" "\<lambda>_. True"] by auto
  then show ?thesis
    by (simp add: MemoryPool_Alloc_def MemoryPool_Init_def MemoryPool_FindAllocPool_def sizeof_ThreadTask_def
        MemoryPool_AddBlockSizePool_def ap pool_alloc_at_def)
qed

text \<open>C11: timed tasks run once and on time. From an empty queue and with all allocations granted, every sequence
  of less than \<open>2 ^ 30\<close> additions and ticks runs to its end without a fault; the tasks handed to the thread pool and
  those still waiting are together exactly the tasks added; no task is handed over before its due time; and
  after a tick no task that is due is still waiting.\<close>

theorem timed_tasks_on_time:
  assumes "grants_all M" "length evs < 2 ^ 30" "\<forall>n. granted n"
  shows "\<exists>sv0 out sv es. timed_start M junk = Some sv0 \<and>
    TickThreadFn M granted (evs @ [TickAt now]) sv0 = Some (out, sv) \<and>
    out = map (\<lambda>(now, k, t). (now, t)) es \<and>
    mset (map snd es) + timed_items sv = added_timed (evs @ [TickAt now]) \<and>
    (\<forall>(now, k, t) \<in> set es. k \<le> now) \<and> (\<forall>(k, t) \<in># timed_items sv. now < k)"
proof -
  obtain h where "prioq_create M 32 = Some (0, h)"
    using node.ah_create_ok[OF assms(1), of 32] by (auto simp: prioq_create_def)
  then obtain sv0 where sv0: "timed_start M junk = Some sv0" "mem_pool sv0 = MemoryPool_Init 32"
    by (auto simp: timed_start_def)
  note start = timed_start_ok[OF sv0(1) assms(1)]
  have len: "ah_len (timed_queue sv0) + length (evs @ [TickAt now]) \<le> 2 ^ 30" using start assms(2) by simp
  have "default_init_elcount (mem_pool sv0) \<le> 2 ^ 30" by (simp add: sv0(2) MemoryPool_Init_def)
  with TickThreadFn_some[OF assms(1,3) conjunct1[OF start] len] assms(2) obtain out sv where
    run: "TickThreadFn M granted (evs @ [TickAt now]) sv0 = Some (out, sv)" by auto
  from TickThreadFn_ok[OF assms(1) conjunct1[OF start] len run] start obtain es where
    es: "out = map (\<lambda>(now, k, t). (now, t)) es" "mset (map snd es) + timed_items sv = added_timed (evs @ [TickAt now])"
    "\<forall>(now, k, t) \<in> set es. k \<le> now" by auto
  obtain out1 sv1 cs where split: "TickThreadFn M granted evs sv0 = Some (out1, sv1)" "tick_loop M now sv1 = Some (cs, sv)"
    using TickThreadFn_append[OF run] by blast
  from TickThreadFn_ok[OF assms(1) conjunct1[OF start] _ split(1)] start assms(2) obtain U1 where "timed_wf U1 sv1" by auto
  from tick_loop_ok[OF assms(1) this, of now] split(2) have "\<forall>e \<in># timed_items sv. now < fst e" by auto
  then have "\<forall>(k, t) \<in># timed_items sv. now < k" by auto
  with es sv0(1) run show ?thesis by blast
qed

theorem timed_tasks_on_time_witness:
  "\<exists>sv0 out sv es. timed_start (granting zero_node) \<lparr>taskfn = None, pArgs = False, releasefn = None\<rparr> = Some sv0 \<and>
    TickThreadFn (granting zero_node) (\<lambda>_. True)
      ([AddTimed 5 \<lparr>taskfn = Some 1, pArgs = True, releasefn = None\<rparr>] @ [TickAt 6]) sv0 = Some (out, sv) \<and>
    out = map (\<lambda>(now, k, t). (now, t)) es \<and>
    mset (map snd es) + timed_items sv = {#(5, \<lparr>taskfn = Some 1, pArgs = True, releasefn = None\<rparr>)#} \<and>
    (\<forall>(k, t) \<in># timed_items sv. 6 < k)"
proof -
  let ?t = "\<lparr>taskfn = Some 1, pArgs = True, releasefn = None\<rparr>"
  have len: "length [AddTimed 5 ?t] < 2 ^ 30" by simp
  have "\<exists>sv0 out sv es. timed_start (granting zero_node) \<lparr>taskfn = None, pArgs = False, releasefn = None\<rparr> = Some sv0 \<and>
      TickThreadFn (granting zero_node) (\<lambda>_. True) ([AddTimed 5 ?t] @ [TickAt 6]) sv0 = Some (out, sv) \<and>
      out = map (\<lambda>(now, k, t). (now, t)) es \<and>
      mset (map snd es) + timed_items sv = added_timed ([AddTimed 5 ?t] @ [TickAt 6]) \<and>
      (\<forall>(now, k, t) \<in> set es. k \<le> now) \<and> (\<forall>(k, t) \<in># timed_items sv. 6 < k)"
    by (rule timed_tasks_on_time[OF granting_all len]) simp
  then show ?thesis unfolding append_Cons append_Nil added_timed.simps by blast
qed

text \<open>A tick dispatches the due tasks in the order of their due times and never faults.\<close>

lemma tick_in_order:
  assumes "grants_all M" "timed_wf U sv"
  shows "\<exists>es sv'. tick_loop M now sv = Some (map snd es, sv') \<and> sorted (map fst es) \<and>
    mset es = filter_mset (\<lambda>e. fst e \<le> now) (timed_items sv)"
proof -
  from tick_loop_ok[OF assms, of now] obtain es sv' where
    t: "tick_loop M now sv = Some (map snd es, sv')" "mset es + timed_items sv' = timed_items sv" "sorted (map fst es)"
    "\<forall>e \<in> set es. fst e \<le> now" "\<forall>e \<in># timed_items sv'. now < fst e" by blast
  have "filter_mset (\<lambda>e. fst e \<le> now) (timed_items sv) =
      filter_mset (\<lambda>e. fst e \<le> now) (mset es) + filter_mset (\<lambda>e. fst e \<le> now) (timed_items sv')"
    using t(2) by (metis filter_union_mset)
  also have "filter_mset (\<lambda>e. fst e \<le> now) (timed_items sv') = {#}"
    using t(5) by (auto simp: filter_mset_eq_conv intro!: exI[of _ "timed_items sv'"])
  also have "filter_mset (\<lambda>e. fst e \<le> now) (mset es) = mset es"
    using t(4) by (auto simp: filter_mset_eq_conv)
  finally show ?thesis using t by (auto intro!: exI[of _ es])
qed

end
