(* ===== verification/ZCompressor.thy ===== *)
theory ZCompressor
  imports CharVector
begin

text \<open>
  zcompressor.c: the two zlib streams of a connection. zlib is not part of the repository: its functions are
  the record \<open>zlib\<close>, an argument of the definitions. A call of \<open>deflate\<close> or \<open>inflate\<close> gets its internal
  state, the input left, the room left in the output and the flush mode; it yields the result code, how
  many bytes of input it took, the bytes it produced and its new state. \<open>next_in\<close> is the input that is
  left, and \<open>next_out\<close> always points \<open>avail_out\<close> bytes before the end of the output. Both loops get fuel.
\<close>

section \<open>The interface to zlib\<close>

abbreviation "Z_OK \<equiv> (0 :: int)"
abbreviation "Z_STREAM_END \<equiv> (1 :: int)"
abbreviation "Z_NEED_DICT \<equiv> (2 :: int)"
abbreviation "Z_DATA_ERROR \<equiv> (- 3 :: int)"
abbreviation "Z_MEM_ERROR \<equiv> (- 4 :: int)"
abbreviation "Z_BUF_ERROR \<equiv> (- 5 :: int)"
abbreviation "Z_PARTIAL_FLUSH \<equiv> (1 :: int)"
abbreviation "Z_SYNC_FLUSH \<equiv> (2 :: int)"

type_synonym 'z z_call = "'z \<Rightarrow> byte list \<Rightarrow> nat \<Rightarrow> int \<Rightarrow> int \<times> nat \<times> byte list \<times> 'z"

record 'z zlib =
  inflateInit :: "int \<times> 'z"
  deflateInit :: "int \<times> 'z"
  deflateBound :: "'z \<Rightarrow> nat \<Rightarrow> nat"
  deflate :: "'z z_call"
  inflate :: "'z z_call"
  inflateReset :: "'z \<Rightarrow> int \<times> 'z"
  deflateReset :: "'z \<Rightarrow> int \<times> 'z"
  inflateEnd :: "'z \<Rightarrow> 'z"
  deflateEnd :: "'z \<Rightarrow> 'z"

record 'z z_stream =
  zstate :: 'z
  next_in :: "byte list"
  avail_in :: nat
  avail_out :: nat

record 'z zcompressor =
  strm_in :: "'z z_stream"
  strm_out :: "'z z_stream"

text \<open>\<open>avail_in\<close> and \<open>avail_out\<close> are 32 bits wide.\<close>

definition uInt :: "nat \<Rightarrow> nat" where
  "uInt n = n mod 2 ^ 32"

text \<open>One call on a stream: the result code, the bytes produced and the stream after it.\<close>

definition z_run :: "'z z_call \<Rightarrow> 'z z_stream \<Rightarrow> int \<Rightarrow> int \<times> byte list \<times> 'z z_stream" where
  "z_run f strm flush =
     (case f (zstate strm) (take (avail_in strm) (next_in strm)) (avail_out strm) flush of
        (r, n, bs, z) \<Rightarrow>
          (r, bs, strm\<lparr>zstate := z, next_in := drop n (next_in strm), avail_in := avail_in strm - n,
                       avail_out := avail_out strm - length bs\<rparr>))"

definition z_failed :: "int \<Rightarrow> bool" where
  "z_failed r \<longleftrightarrow> r \<in> {Z_NEED_DICT, Z_DATA_ERROR, Z_MEM_ERROR}"

definition z_status :: "int \<Rightarrow> int" where
  "z_status r = (if r = Z_OK \<or> r = Z_STREAM_END then 0 else -1)"

section \<open>The operations\<close>

text \<open>After a failed \<open>inflateInit\<close> the other stream is not set up (and the result is -1); its state is then
  of no meaning.\<close>

definition ZCompressor_Init :: "'z zlib \<Rightarrow> int \<times> 'z zcompressor" where
  "ZCompressor_Init Z =
     (let (ri, zi) = inflateInit Z; (ro, zo) = deflateInit Z;
          strm = (\<lambda>z. \<lparr>zstate = z, next_in = [], avail_in = 0, avail_out = 0\<rparr>)
      in (if ri = Z_OK \<and> ro = Z_OK then 0 else -1, \<lparr>strm_in = strm zi, strm_out = strm zo\<rparr>))"

fun compress_loop ::
    "'z zlib \<Rightarrow> int \<Rightarrow> nat \<Rightarrow> nat \<Rightarrow> int \<Rightarrow> 'z z_stream \<Rightarrow> cv_t \<Rightarrow> (int \<times> 'z z_stream \<times> cv_t) outcome" where
  "compress_loop Z flush bound 0 result strm out = Running"
| "compress_loop Z flush bound (Suc fuel) result strm out =
     (if avail_in strm > 0 \<or> avail_out strm = 0
      then (case z_run (deflate Z) strm flush of
              (r, bs, strm') \<Rightarrow>
                (case copy_cells (cells (cdata out)) (sz_sub bound (avail_out strm)) bs of
                   None \<Rightarrow> Faults
                 | Some d \<Rightarrow>
                     if z_failed r
                     then Returns (-1, strm'\<lparr>zstate := deflateEnd Z (zstate strm')\<rparr>, out\<lparr>cdata := Some d\<rparr>)
                     else compress_loop Z flush bound fuel r strm'
                            (out\<lparr>cdata := Some d, clength := sz (clength out + sz_sub bound (avail_out strm'))\<rparr>)))
      else Returns (z_status result, strm, out))"

definition compress_with ::
    "byte mem_mgr \<Rightarrow> 'z zlib \<Rightarrow> int \<Rightarrow> nat \<Rightarrow> 'z zcompressor \<Rightarrow> byte list \<Rightarrow> nat \<Rightarrow> cv_t
     \<Rightarrow> (int \<times> 'z zcompressor \<times> cv_t) outcome" where
  "compress_with M Z flush fuel pc buf len out =
     (case cv_clear out of
        None \<Rightarrow> Faults
      | Some out \<Rightarrow>
          (let bound = deflateBound Z (zstate (strm_out pc)) len;
               out = snd (cv_resize M out bound);
               strm = (strm_out pc)\<lparr>avail_in := uInt len, next_in := buf, avail_out := uInt bound\<rparr>
           in case compress_loop Z flush bound fuel Z_OK strm out of
                Faults \<Rightarrow> Faults
              | Running \<Rightarrow> Running
              | Returns (r, strm, out) \<Rightarrow> Returns (r, pc\<lparr>strm_out := strm\<rparr>, out)))"

definition ZCompressor_CompressRawData ::
    "byte mem_mgr \<Rightarrow> 'z zlib \<Rightarrow> nat \<Rightarrow> 'z zcompressor \<Rightarrow> byte list \<Rightarrow> nat \<Rightarrow> cv_t
     \<Rightarrow> (int \<times> 'z zcompressor \<times> cv_t) outcome" where
  "ZCompressor_CompressRawData M Z fuel pComp buf len out =
     compress_with M Z Z_PARTIAL_FLUSH fuel pComp buf len out"

definition ZCompressor_CompressData ::
    "byte mem_mgr \<Rightarrow> 'z zlib \<Rightarrow> nat \<Rightarrow> 'z zcompressor \<Rightarrow> cv_t \<Rightarrow> cv_t \<Rightarrow> (int \<times> 'z zcompressor \<times> cv_t) outcome" where
  "ZCompressor_CompressData M Z fuel pComp cvin out =
     compress_with M Z Z_SYNC_FLUSH fuel pComp (cells (cdata cvin)) (clength cvin) out"

text \<open>\<open>buffer\<close> is the array of 1024 bytes on the stack; it is appended from its start in every round.\<close>

fun decompress_loop ::
    "byte mem_mgr \<Rightarrow> 'z zlib \<Rightarrow> nat \<Rightarrow> int \<Rightarrow> 'z z_stream \<Rightarrow> byte list \<Rightarrow> cv_t \<Rightarrow> (int \<times> 'z z_stream \<times> cv_t) outcome" where
  "decompress_loop M Z 0 result strm buffer out = Running"
| "decompress_loop M Z (Suc fuel) result strm buffer out =
     (if avail_in strm > 0 \<or> avail_out strm = 0
      then (case z_run (inflate Z) strm Z_PARTIAL_FLUSH of
              (r, bs, strm') \<Rightarrow>
                (case copy_cells buffer (1024 - avail_out strm) bs of
                   None \<Rightarrow> Faults
                 | Some buffer \<Rightarrow>
                     if z_failed r then Returns (-1, strm'\<lparr>zstate := inflateEnd Z (zstate strm')\<rparr>, out)
                     else (case cv_append M out buffer (1024 - avail_out strm') of
                             None \<Rightarrow> Faults
                           | Some (_, out) \<Rightarrow> decompress_loop M Z fuel r strm' buffer out)))
      else Returns (z_status result, strm, out))"

definition ZCompressor_DecompressData ::
    "byte mem_mgr \<Rightarrow> 'z zlib \<Rightarrow> nat \<Rightarrow> 'z zcompressor \<Rightarrow> cv_t \<Rightarrow> cv_t \<Rightarrow> (int \<times> 'z zcompressor \<times> cv_t) outcome" where
  "ZCompressor_DecompressData M Z fuel pComp cvin out =
     (let out = snd (cv_resize M out 512);
          strm = (strm_in pComp)\<lparr>avail_in := uInt (clength cvin), next_in := cells (cdata cvin), avail_out := 1024\<rparr>
      in case decompress_loop M Z fuel Z_OK strm (replicate 1024 0) out of
           Faults \<Rightarrow> Faults
         | Running \<Rightarrow> Running
         | Returns (r, strm, out) \<Rightarrow> Returns (r, pComp\<lparr>strm_in := strm\<rparr>, out))"

definition ZCompressor_Reset :: "'z zlib \<Rightarrow> 'z zcompressor \<Rightarrow> int \<times> 'z zcompressor" where
  "ZCompressor_Reset Z pComp =
     (let (ri, zi) = inflateReset Z (zstate (strm_in pComp));
          pComp = pComp\<lparr>strm_in := (strm_in pComp)\<lparr>zstate := zi\<rparr>\<rparr>
      in if ri = Z_OK
         then (let (ro, zo) = deflateReset Z (zstate (strm_out pComp))
               in (if ro = Z_OK then 0 else -1, pComp\<lparr>strm_out := (strm_out pComp)\<lparr>zstate := zo\<rparr>\<rparr>))
         else (-1, pComp))"

definition ZCompressor_StopAndRelease :: "'z zlib \<Rightarrow> 'z zcompressor \<Rightarrow> 'z zcompressor" where
  "ZCompressor_StopAndRelease Z pComp =
     pComp\<lparr>strm_in := (strm_in pComp)\<lparr>zstate := inflateEnd Z (zstate (strm_in pComp))\<rparr>,
           strm_out := (strm_out pComp)\<lparr>zstate := deflateEnd Z (zstate (strm_out pComp))\<rparr>\<rparr>"

section \<open>Properties\<close>

text \<open>What one call with the given input does: it takes it all, produces \<open>bs\<close> and leaves room in the output.\<close>

definition deflates_to :: "'z zlib \<Rightarrow> int \<Rightarrow> 'z \<Rightarrow> byte list \<Rightarrow> byte list \<Rightarrow> 'z \<Rightarrow> bool" where
  "deflates_to Z flush z inp bs z' \<longleftrightarrow>
     deflate Z z inp (deflateBound Z z (length inp)) flush = (Z_OK, length inp, bs, z') \<and>
     length bs < deflateBound Z z (length inp) \<and> deflateBound Z z (length inp) < 2 ^ 32"

lemma compress_with_ok:
  assumes M: "grants_all M" and out: "cv_wf out" and len: "0 < len" "len \<le> length buf" "len < 2 ^ 32"
    and Z: "deflates_to Z flush (zstate (strm_out pc)) (take len buf) bs z'"
  shows "\<exists>pc' out'. compress_with M Z flush (Suc (Suc fuel)) pc buf len out = Returns (0, pc', out') \<and>
    cv_wf out' \<and> cv_bytes out' = bs \<and> zstate (strm_out pc') = z' \<and> strm_in pc' = strm_in pc"
proof -
  define bound where "bound = deflateBound Z (zstate (strm_out pc)) len"
  have ll: "length (take len buf) = len" using len(2) by simp
  have b: "length bs < bound" "bound < 2 ^ 32" using Z by (simp_all only: deflates_to_def ll bound_def)
  have d: "deflate Z (zstate (strm_out pc)) (take len buf) bound flush = (Z_OK, len, bs, z')"
    using Z by (simp only: deflates_to_def ll bound_def)
  obtain out1 where o1: "cv_clear out = Some out1" "cv_wf out1" "clength out1 = 0" using cv_clear_ok[OF out] by blast
  have "bound < 2 ^ 62" using b(2) by simp
  with cv_resize_ok[OF M o1(2), of bound] o1(3) obtain out2 where
    o2: "cv_resize M out1 bound = (0, out2)" "cv_wf out2" "cv_bytes out2 = cv_bytes out1" "ccapacity out2 = bound" by auto
  have l2: "clength out2 = 0"
    using o2(3) o1(3) length_cv_bytes[OF o2(2)] length_cv_bytes[OF o1(2)] by simp
  obtain blk where blk: "cdata out2 = Some blk" "length blk = max MINALLOC bound" using o2(2,4) by (auto simp: cv_wf_def)
  have copy: "copy_cells blk 0 bs = Some (bs @ drop (length bs) blk)" using b(1) blk(2) by (simp add: mem_simps)
  have u: "uInt len = len" "uInt bound = bound" using len(3) b(2) by (simp_all add: uInt_def)
  define strm where "strm = (strm_out pc)\<lparr>avail_in := len, next_in := buf, avail_out := bound\<rparr>"
  define strm' where "strm' = strm\<lparr>zstate := z', next_in := drop len buf, avail_in := 0, avail_out := bound - length bs\<rparr>"
  have run: "z_run (deflate Z) strm flush = (Z_OK, bs, strm')"
    using d by (simp add: z_run_def strm_def strm'_def)
  have s: "sz_sub bound bound = 0" "sz_sub bound (bound - length bs) = length bs"
    using b by (simp_all add: sz_sub_le)
  define out3 where "out3 = out2\<lparr>cdata := Some (bs @ drop (length bs) blk), clength := length bs\<rparr>"
  have "sz (length bs) = length bs" using b by (intro sz_small) simp
  then have "compress_loop Z flush bound (Suc (Suc fuel)) Z_OK strm out2 = Returns (0, strm', out3)"
    using run copy s b(1) len(1) blk(1) l2
    by (simp add: strm_def strm'_def out3_def z_failed_def z_status_def)
  then have "compress_with M Z flush (Suc (Suc fuel)) pc buf len out = Returns (0, pc\<lparr>strm_out := strm'\<rparr>, out3)"
    using o1(1) o2(1) u by (simp add: compress_with_def Let_def bound_def[symmetric] strm_def del: compress_loop.simps)
  moreover have "cv_wf out3" using o2(2,4) blk b(1) by (auto simp: cv_wf_def out3_def)
  moreover have "cv_bytes out3 = bs" by (simp add: cv_bytes_def out3_def)
  ultimately show ?thesis by (auto simp: strm'_def)
qed

text \<open>when one call of \<open>deflate\<close> takes the whole message and leaves room in the output, the compressor returns
  0 after that call, and the buffer holds exactly the bytes \<open>deflate\<close> produced.\<close>

theorem CompressRawData_correct:
  assumes "grants_all M" "cv_wf out" "0 < len" "len \<le> length buf" "len < 2 ^ 32"
    "deflates_to Z Z_PARTIAL_FLUSH (zstate (strm_out pc)) (take len buf) bs z'"
  shows "\<exists>pc' out'. ZCompressor_CompressRawData M Z (Suc (Suc fuel)) pc buf len out = Returns (0, pc', out') \<and>
    cv_wf out' \<and> cv_bytes out' = bs \<and> zstate (strm_out pc') = z' \<and> strm_in pc' = strm_in pc"
  unfolding ZCompressor_CompressRawData_def by (rule compress_with_ok[OF assms])

text \<open>A model of zlib that stores its input behind a length byte, for the witnesses.\<close>

definition store_zlib :: "nat zlib" where
  "store_zlib =
     \<lparr>inflateInit = (0, 0), deflateInit = (0, 0), deflateBound = (\<lambda>z n. n + 13),
      deflate = (\<lambda>z inp room flush. if length inp + 1 < room then (0, length inp, word_of_nat (length inp) # inp, z + 1)
                                    else (Z_BUF_ERROR, 0, [], z)),
      inflate = (\<lambda>z inp room flush. if inp = [] \<or> room = 0 then (Z_BUF_ERROR, 0, [], z)
                                    else (0, 1, replicate (min room 1024) (hd inp), z + 1)),
      inflateReset = (\<lambda>z. (0, 0)), deflateReset = (\<lambda>z. (0, 0)), inflateEnd = id, deflateEnd = id\<rparr>"

definition idle_streams :: "nat zcompressor" where
  "idle_streams = \<lparr>strm_in = \<lparr>zstate = 0, next_in = [], avail_in = 0, avail_out = 0\<rparr>,
                   strm_out = \<lparr>zstate = 0, next_in = [], avail_in = 0, avail_out = 0\<rparr>\<rparr>"

theorem CompressRawData_correct_witness:
  "\<exists>pc' out'. ZCompressor_CompressRawData byte_mgr store_zlib (Suc (Suc 0)) idle_streams [7, 8, 9] 3 cv8 = Returns (0, pc', out') \<and>
    cv_wf out' \<and> cv_bytes out' = [3, 7, 8, 9] \<and> zstate (strm_out pc') = 1 \<and> strm_in pc' = strm_in idle_streams"
  by (rule CompressRawData_correct)
     (simp_all add: byte_mgr_grants cv_wf_def cv8_def MINALLOC_def deflates_to_def store_zlib_def idle_streams_def)

text \<open>The documented behaviour of \<open>inflate\<close> without room in the output: no progress, and \<open>Z_BUF_ERROR\<close>.\<close>

definition needs_room :: "'z zlib \<Rightarrow> bool" where
  "needs_room Z \<longleftrightarrow> (\<forall>z inp flush. inflate Z z inp 0 flush = (Z_BUF_ERROR, 0, [], z))"

lemma decompress_loop_full:
  assumes "needs_room Z" "avail_out strm = 0"
  shows "decompress_loop M Z fuel r strm buffer out \<noteq> Returns x"
  using assms(2)
proof (induction fuel arbitrary: r strm buffer out)
  case (Suc fuel)
  define strm' where "strm' = strm\<lparr>zstate := zstate strm, next_in := next_in strm, avail_in := avail_in strm, avail_out := 0\<rparr>"
  have "z_run (inflate Z) strm Z_PARTIAL_FLUSH = (Z_BUF_ERROR, [], strm')"
    using assms(1) Suc.prems by (simp add: z_run_def needs_room_def strm'_def)
  then show ?case
    using Suc.prems Suc.IH[of strm'] by (auto simp: z_failed_def strm'_def split: option.split)
qed simp

text \<open>input that expands to 1024 bytes or more hangs the decompressor. The output of \<open>inflate\<close> goes to an array of
  1024 bytes that the loop never empties: once it is full the loop condition stays true, every further call
  makes no progress, and each round appends the same bytes again.\<close>

theorem DecompressData_hangs:
  assumes "needs_room Z" "0 < clength cvin" "clength cvin < 2 ^ 32"
    "inflate Z (zstate (strm_in pc)) (take (clength cvin) (cells (cdata cvin))) 1024 Z_PARTIAL_FLUSH = (Z_OK, n, bs, z')"
    "length bs = 1024"
  shows "ZCompressor_DecompressData M Z fuel pc cvin out \<noteq> Returns x"
proof (cases fuel)
  case (Suc k)
  define strm where "strm = (strm_in pc)\<lparr>avail_in := clength cvin, next_in := cells (cdata cvin), avail_out := 1024\<rparr>"
  obtain strm' where run: "z_run (inflate Z) strm Z_PARTIAL_FLUSH = (Z_OK, bs, strm')" "avail_out strm' = 0"
    using assms(4,5) by (simp add: z_run_def strm_def)
  have "decompress_loop M Z fuel Z_OK strm (replicate 1024 0) out' \<noteq> Returns y" for out' y
    using run(1) assms(2) decompress_loop_full[OF assms(1) run(2)]
    by (auto simp: Suc strm_def z_failed_def split: option.split)
  then show ?thesis
    using assms(3) by (auto simp: ZCompressor_DecompressData_def uInt_def strm_def[symmetric] Let_def split: outcome.split)
qed (simp add: ZCompressor_DecompressData_def Let_def)

theorem DecompressData_hangs_witness:
  "ZCompressor_DecompressData byte_mgr store_zlib 100 idle_streams (cv8\<lparr>clength := 1\<rparr>) cv8 \<noteq> Returns (0, idle_streams, cv8)"
proof (rule DecompressData_hangs[where bs = "replicate 1024 72"])
  show "length (replicate 1024 (72 :: byte)) = 1024" by (rule length_replicate)
qed (simp_all add: needs_room_def store_zlib_def cv8_def idle_streams_def)

end
