(* ===== verification/Client.thy ===== *)
theory Client
  imports ZCompressor Telnet AnsiColor IoHelper HrtPrioq
begin

text \<open>
  client.c: the state of one connection and everything that is written to it. A message goes through the
  colour conversion, the compression of MCCP2 when the client asked for it, and the socket. The answers of
  \<open>send\<close>, zlib and the clock are arguments; an operation that writes yields the bytes the kernel accepted.
  The locks are not modelled: the writes of one client are serialised by \<open>connection_state_mtx\<close>, the
  reference count is only touched under its lock. \<open>'f\<close> is the type of \<open>float\<close>.
\<close>

definition CLIENT_MAXINPUTLEN :: nat where
  "CLIENT_MAXINPUTLEN = 2048"

definition CLIENT_STOREDCMDINTERVALS :: nat where
  "CLIENT_STOREDCMDINTERVALS = 6"

definition CLIENT_MAXBPS :: nat where
  "CLIENT_MAXBPS = 1500"

record ('z, 'f) client =
  sock :: int
  tel_stream :: telnet_stream
  zstreams :: "'z zcompressor"
  connection_time :: timespec
  last_input_time :: timespec
  bytes_sent_at_intervals :: "nat list"
  cmd_intervals :: "'f list"
  interval_idx :: nat
  input_buffer :: cv_t
  player_obj :: bool
  bDisconnected :: bool
  refcount :: "32 word"

section \<open>The operations\<close>

definition Client_GetRefCount :: "('z, 'f) client \<Rightarrow> nat" where
  "Client_GetRefCount c = unat (refcount c)"

definition Client_AddRef :: "('z, 'f) client \<Rightarrow> ('z, 'f) client" where
  "Client_AddRef c = c\<lparr>refcount := refcount c + 1\<rparr>"

definition Client_ReleaseRef :: "('z, 'f) client \<Rightarrow> ('z, 'f) client" where
  "Client_ReleaseRef c = c\<lparr>refcount := refcount c - 1\<rparr>"

text \<open>A stream of zero bytes: no option set, the input state.\<close>

definition zero_options :: telnet_options where
  "zero_options = \<lparr>b_transmit_binary = False, b_echo = False, b_sga = False, b_naws_set = False,
     b_term_speed_set = False, b_mccp2 = False, b_mccp3 = False, b_termtype_set = False,
     terminal_type = replicate 42 0, windowsize_rows = 0, windowsize_cols = 0,
     terminal_txspeed = 0, terminal_rxspeed = 0\<rparr>"

definition Client_Create ::
    "byte mem_mgr \<Rightarrow> 'z zlib \<Rightarrow> 'f \<Rightarrow> int \<Rightarrow> timespec \<Rightarrow> timespec \<Rightarrow> ('z, 'f) client option" where
  "Client_Create M Z fzero s now1 now2 = do {
     (_, sb) \<leftarrow> cv_init M 32;
     (_, buf) \<leftarrow> cv_init M CLIENT_MAXINPUTLEN;
     Some \<lparr>sock = s,
           tel_stream = \<lparr>sb_args = sb, tel_state = TELSTATE_INPUT, opts = zero_options, last_byte = 0\<rparr>,
           zstreams = snd (ZCompressor_Init Z), connection_time = now1, last_input_time = now2,
           bytes_sent_at_intervals = replicate CLIENT_STOREDCMDINTERVALS 0,
           cmd_intervals = replicate CLIENT_STOREDCMDINTERVALS fzero, interval_idx = 0,
           input_buffer = buf, player_obj = False, bDisconnected = False, refcount = 0\<rparr>
   }"

definition Client_Disconnect :: "('z, 'f) client \<Rightarrow> ('z, 'f) client" where
  "Client_Disconnect c = c\<lparr>bDisconnected := True\<rparr>"

definition Client_Destroy :: "'z zlib \<Rightarrow> ('z, 'f) client \<Rightarrow> ('z, 'f) client" where
  "Client_Destroy Z c =
     c\<lparr>tel_stream := (tel_stream c)\<lparr>sb_args := cv_destroy (sb_args (tel_stream c))\<rparr>,
       input_buffer := cv_destroy (input_buffer c),
       zstreams := ZCompressor_StopAndRelease Z (zstreams c), player_obj := False\<rparr>"

text \<open>The buffer and the length that are written: the message itself, or its colour conversion.\<close>

definition write_source :: "byte mem_mgr \<Rightarrow> bool \<Rightarrow> byte list \<Rightarrow> nat \<Rightarrow> (byte list \<times> nat) option" where
  "write_source M bColorize buf len =
     (if bColorize then do {
        (_, color_buf) \<leftarrow> cv_init M len;
        color_buf \<leftarrow> ANSIColorizeString M buf len color_buf;
        Some (cells (cdata color_buf), clength color_buf)
      } else Some (buf, len))"

definition Client_WriteToImpl ::
    "byte mem_mgr \<Rightarrow> 'z zlib \<Rightarrow> nat \<Rightarrow> int list \<Rightarrow> ('z, 'f) client \<Rightarrow> bool \<Rightarrow> byte list \<Rightarrow> nat
     \<Rightarrow> int outcome \<times> byte list \<times> ('z, 'f) client" where
  "Client_WriteToImpl M Z fuel sends c bColorize buf len =
     (if bDisconnected c then (Returns (-1), [], c)
      else case write_source M bColorize buf len of
        None \<Rightarrow> (Faults, [], c)
      | Some (pBuffer, dwBufferLen) \<Rightarrow>
          if b_mccp2 (opts (tel_stream c)) then
            (case cv_init M len of
               None \<Rightarrow> (Faults, [], c)
             | Some (_, compout) \<Rightarrow>
                 (case ZCompressor_CompressRawData M Z fuel (zstreams c) pBuffer (sz_sub dwBufferLen 1) compout of
                    Faults \<Rightarrow> (Faults, [], c)
                  | Running \<Rightarrow> (Running, [], c)
                  | Returns (r, zc, compout) \<Rightarrow>
                      (let c = c\<lparr>zstreams := zc\<rparr> in
                       if r < 0 then (Returns (-1), [], c)
                       else (case write_from_cv_raw sends compout of (r, out) \<Rightarrow> (r, out, c)))))
          else (case write_full_raw sends pBuffer (sz_sub dwBufferLen 1) of (r, out) \<Rightarrow> (r, out, c)))"

definition Client_WriteTo ::
    "byte mem_mgr \<Rightarrow> 'z zlib \<Rightarrow> nat \<Rightarrow> int list \<Rightarrow> ('z, 'f) client \<Rightarrow> byte list \<Rightarrow> nat
     \<Rightarrow> int outcome \<times> byte list \<times> ('z, 'f) client" where
  "Client_WriteTo M Z fuel sends pTarget buf len = Client_WriteToImpl M Z fuel sends pTarget True buf len"

definition Client_WriteToShowRawColorTags ::
    "byte mem_mgr \<Rightarrow> 'z zlib \<Rightarrow> nat \<Rightarrow> int list \<Rightarrow> ('z, 'f) client \<Rightarrow> byte list \<Rightarrow> nat
     \<Rightarrow> int outcome \<times> byte list \<times> ('z, 'f) client" where
  "Client_WriteToShowRawColorTags M Z fuel sends pTarget buf len = Client_WriteToImpl M Z fuel sends pTarget False buf len"

text \<open>
  The formatting part of \<open>Client_Sendf\<close>: \<open>out\<close> is the text the format and its arguments stand for. It is
  printed into 512 bytes, and only afterwards the buffer is resized to the length that was needed.
\<close>

definition sendf_buffer :: "byte mem_mgr \<Rightarrow> byte list \<Rightarrow> (byte list \<times> nat) option" where
  "sendf_buffer M out = do {
     (_, buf) \<leftarrow> cv_init M 512;
     d \<leftarrow> c_snprintf (cells (cdata buf)) 512 out;
     let required = sz (length out + 1);
     let buf = snd (cv_resize M (buf\<lparr>cdata := Some d\<rparr>) required);
     let buf = buf\<lparr>clength := required\<rparr>;
     Some (cells (cdata buf), clength buf)
   }"

definition Client_Sendf ::
    "byte mem_mgr \<Rightarrow> 'z zlib \<Rightarrow> nat \<Rightarrow> int list \<Rightarrow> ('z, 'f) client \<Rightarrow> byte list
     \<Rightarrow> int outcome \<times> byte list \<times> ('z, 'f) client" where
  "Client_Sendf M Z fuel sends pTarget out =
     (case sendf_buffer M out of
        None \<Rightarrow> (Faults, [], pTarget)
      | Some (buf, len) \<Rightarrow> Client_WriteToImpl M Z fuel sends pTarget True buf len)"

definition Client_SendfShowColorTags ::
    "byte mem_mgr \<Rightarrow> 'z zlib \<Rightarrow> nat \<Rightarrow> int list \<Rightarrow> ('z, 'f) client \<Rightarrow> byte list
     \<Rightarrow> int outcome \<times> byte list \<times> ('z, 'f) client" where
  "Client_SendfShowColorTags M Z fuel sends pTarget out =
     (case sendf_buffer M out of
        None \<Rightarrow> (Faults, [], pTarget)
      | Some (buf, len) \<Rightarrow> Client_WriteToImpl M Z fuel sends pTarget False buf len)"

section \<open>What is sent\<close>

lemma sendf_buffer_ok:
  assumes M: "grants_all M" and out: "0 \<notin> set out" "length out < 2 ^ 55"
  shows "\<exists>d. sendf_buffer M out = Some (d, length out + 1) \<and>
    take (length out + 1) d = (if length out \<le> 511 then out @ [0]
      else take 511 out @ [0] @ map (fresh M) [512..<length out + 1]) \<and> length out + 1 \<le> length d"
proof -
  obtain buf where buf: "cv_init M 512 = Some (0, buf)" "cdata buf = Some (replicate 512 0)" "ccapacity buf = 512"
    using cv_init_ok[OF M, of 512] by (auto simp: MINALLOC_def)
  define d where "d = take 511 out @ 0 # drop (length (take 511 out) + 1) (replicate 512 0)"
  have snp: "c_snprintf (replicate 512 0) 512 out = Some d"
    by (simp add: c_snprintf_def mem_simps d_def)
  have ld: "length d = 512" by (simp add: d_def)
  have req: "sz (length out + 1) = length out + 1" using out(2) by (intro sz_small) simp
  have re: "cdata (snd (cv_resize M (buf\<lparr>cdata := Some d\<rparr>) (length out + 1))) =
      (if length out = 511 then Some d else realloc_cells M 1 (Some d) (max MINALLOC (length out + 1)))"
    by (simp add: cv_resize_def buf(3) cv_realloc_def Let_def)
  show ?thesis
  proof (cases "length out \<le> 511")
    case True
    have pre: "take (length out + 1) d = out @ [0]" using True by (simp add: d_def)
    have "\<exists>d'. realloc_cells M 1 (Some d) (max MINALLOC (length out + 1)) = Some d' \<and>
        take (length out + 1) d' = take (length out + 1) d \<and> length out + 1 \<le> length d'"
      using True ld M by (auto simp: realloc_cells_def grants_all_def MINALLOC_def)
    then obtain d' where d': "cdata (snd (cv_resize M (buf\<lparr>cdata := Some d\<rparr>) (length out + 1))) = Some d'"
        "take (length out + 1) d' = take (length out + 1) d" "length out + 1 \<le> length d'"
      using re ld True by (cases "length out = 511") auto
    have "sendf_buffer M out = Some (d', length out + 1)"
      by (simp add: sendf_buffer_def buf snp req[simplified] d'(1)[simplified])
    then show ?thesis using True pre d'(2,3) by simp
  next
    case False
    then have gr: "realloc_cells M 1 (Some d) (max MINALLOC (length out + 1)) = Some (d @ map (fresh M) [512..<length out + 1])"
      using cv_realloc_ok[OF M, of d "max MINALLOC (length out + 1)"] ld by (simp add: cv_realloc_def MINALLOC_def)
    have d: "d = take 511 out @ [0]" using False by (simp add: d_def)
    have "cdata (snd (cv_resize M (buf\<lparr>cdata := Some d\<rparr>) (length out + 1))) = Some (d @ map (fresh M) [512..<length out + 1])"
      using re gr False by simp
    then have "sendf_buffer M out = Some (d @ map (fresh M) [512..<length out + 1], length out + 1)"
      by (simp add: sendf_buffer_def buf snp req[simplified])
    then show ?thesis using False ld d by (simp add: min_def)
  qed
qed

text \<open>The last step of an uncompressed write: one byte less than the buffer holds, sent in order.\<close>

lemma write_full_raw_take:
  assumes "sends_ok ws n" "n \<le> length d" "n < 2 ^ 31" "write_full_raw ws d n = (r, sent)"
  shows "(\<exists>k. sent = take k (take n d)) \<and> (case r of Returns v \<Rightarrow> v < 0 \<or> v = int n \<and> sent = take n d | _ \<Rightarrow> True)"
proof -
  have "length (take n d) = n" using assms(2) by simp
  then show ?thesis
    using send_loop_ok[of ws "take n d" 0] assms by (auto simp: write_full_raw_def split: outcome.split)
qed

text \<open>What became of a message after the answers \<open>ws\<close> of \<open>send\<close>, \<open>before\<close> bytes having gone out earlier: an error the
  kernel reported, all of it sent, or all the answers used up and the message not finished.\<close>

definition sent_after :: "nat \<Rightarrow> int list \<Rightarrow> byte list \<Rightarrow> int outcome \<Rightarrow> byte list \<Rightarrow> bool" where
  "sent_after before ws msg r sent \<longleftrightarrow>
     (case r of
        Returns v \<Rightarrow> (v < 0 \<and> v \<in> set ws \<and> (\<exists>k. sent = take k msg)) \<or> (v = int (before + length msg) \<and> sent = msg)
      | Running \<Rightarrow> (\<forall>w \<in> set ws. 0 \<le> w) \<and> sum_list ws < int (length msg) \<and> sent = take (nat (sum_list ws)) msg
      | Faults \<Rightarrow> False)"

definition sent_as :: "int list \<Rightarrow> byte list \<Rightarrow> int outcome \<Rightarrow> byte list \<Rightarrow> bool" where
  "sent_as = sent_after 0"

lemma send_loop_sent:
  "sends_ok ws (length msg - tot) \<Longrightarrow> tot < length msg \<Longrightarrow> length msg < 2 ^ 31 \<Longrightarrow>
   sent_after tot ws (drop tot msg) (fst (send_loop ws msg tot (int (length msg))))
     (snd (send_loop ws msg tot (int (length msg))))"
proof (induction ws arbitrary: tot)
  case (Cons w ws)
  show ?case
  proof (cases "w < 0")
    case True
    then show ?thesis by (auto simp: sent_after_def intro: exI[of _ 0])
  next
    case False
    define t where "t = tot + nat w"
    have t: "t \<le> length msg" "length msg - tot - nat w = length msg - t"
      using Cons.prems False by (auto simp: t_def)
    have ok: "sends_ok ws (length msg - t)" using Cons.prems(1) t by simp
    show ?thesis
    proof (cases "t < length msg")
      case True
      obtain r out where r: "send_loop ws msg t (int (length msg)) = (r, out)" by (cases "send_loop ws msg t (int (length msg))")
      have step: "send_loop (w # ws) msg tot (int (length msg)) = (r, take (nat w) (drop tot msg) @ out)"
        using False True r by (simp add: t_def[symmetric] Let_def)
      have ih: "sent_after t ws (drop t msg) r out"
        using Cons.IH[OF ok True Cons.prems(3)] r by simp
      have app: "take (nat w) (drop tot msg) @ take k (drop t msg) = take (nat w + k) (drop tot msg)" for k
        unfolding take_add t_def by (simp add: add.commute)
      have all: "take (nat w) (drop tot msg) @ drop t msg = drop tot msg"
        by (metis append_take_drop_id drop_drop add.commute t_def)
      show ?thesis
      proof (cases r)
        case Running
        then have "0 \<le> sum_list ws" using ih by (auto simp: sent_after_def intro!: sum_list_nonneg)
        then have "nat (w + sum_list ws) = nat w + nat (sum_list ws)" using False by simp
        then show ?thesis using ih Running step False app t Cons.prems(2) by (auto simp: sent_after_def t_def)
      next
        case (Returns v)
        then show ?thesis using ih step False app all t Cons.prems(2)
          by (auto simp: sent_after_def t_def split: if_splits)
      qed (use ih in \<open>simp add: sent_after_def\<close>)
    next
      case no: False
      then have "t = length msg" using t by simp
      moreover have "to_int32 (length msg) = int (length msg)" using Cons.prems(3) by (rule to_int32_small)
      ultimately show ?thesis
        using False Cons.prems(2) by (auto simp: sent_after_def t_def Let_def)
    qed
  qed
qed (simp add: sent_after_def)

lemma write_full_raw_sent:
  assumes "sends_ok ws n" "n \<le> length d" "n < 2 ^ 31" "0 < n" "write_full_raw ws d n = (r, sent)"
  shows "sent_as ws (take n d) r sent"
proof -
  have l: "length (take n d) = n" using assms(2) by simp
  show ?thesis
    using send_loop_sent[of ws "take n d" 0] assms l by (simp add: write_full_raw_def sent_as_def)
qed

lemma sendf_colour:
  assumes M: "grants_all M" and ps: "\<forall>p \<in> set ps. legal_piece p" and xs: "legal_rest xs"
    and len: "length (marked ps @ xs) \<le> 511" "length (rendered ps @ xs) < 2 ^ 30"
  shows "\<exists>d b buf n. sendf_buffer M (marked ps @ xs) = Some (buf, n) \<and>
    write_source M True buf n = Some (d, length (rendered ps @ xs) + 3) \<and>
    take (length (rendered ps @ xs) + 2) d = rendered ps @ xs @ [0, b] \<and> length (rendered ps @ xs) + 2 \<le> length d"
proof -
  let ?t = "marked ps @ xs" and ?u = "rendered ps @ xs"
  have "0 \<notin> set (marked ps)" using ps by (induction ps) (auto simp: legal_piece_def legal_tag_def)
  then have "0 \<notin> set ?t" using xs by (auto simp: legal_rest_def)
  moreover have "length ?t < 2 ^ 55" using len(1) by simp
  ultimately obtain buf where buf: "sendf_buffer M ?t = Some (buf, length ?t + 1)" "take (length ?t + 1) buf = ?t @ [0]"
    using sendf_buffer_ok[OF M] len(1) by fastforce
  have split: "buf = ?t @ 0 # drop (length ?t + 1) buf"
    by (metis append.assoc append_Cons append_Nil append_take_drop_id buf(2))
  have l: "length ?t + 1 < 2 ^ 62" using len(1) by simp
  obtain cb where cb: "cv_init M (length ?t + 1) = Some (0, cb)" "cv_wf cb" "ccapacity cb = max (length ?t + 1) MINALLOC"
      "cdata cb = Some (replicate (max (length ?t + 1) MINALLOC) 0)"
    using cv_init_ok[OF M l] by auto
  have str: "cv_str cb = []" using cb(3,4) by (simp add: cv_str_def cstr_def nonzero_def MINALLOC_def)
  have cap: "ccapacity cb \<le> 2 ^ 56" using cb(3) len(1) by (simp add: MINALLOC_def)
  have small: "length (cv_str cb @ rendered ps @ xs) + 40 \<le> 2 ^ 55" using str len(2) by simp
  obtain o1 where o1: "ANSIColorizeString M buf (length ?t + 1) cb = Some o1" "cv_wf o1" "cv_str o1 = ?u"
      "length ?u < ccapacity o1" "clength o1 = length ?u + 3"
    using ANSIColorizeString_ok[OF M cb(2) ps xs cap small, of "drop (length ?t + 1) buf"] split str by auto
  obtain d where d: "cdata o1 = Some d" "ccapacity o1 \<le> length d" "clength o1 \<le> ccapacity o1"
    using cv_wfE[OF o1(2)] by metis
  have "cstr d = ?u"
  proof -
    have t: "take (ccapacity o1) (cstr d) = ?u" using o1(3) d(1) by (simp add: cv_str_def cstr_take)
    then have "length (take (ccapacity o1) (cstr d)) < ccapacity o1" using o1(4) by simp
    then have "length (cstr d) \<le> ccapacity o1" by simp
    then show ?thesis using t by simp
  qed
  moreover have "terminated d" using o1(4) d(2) \<open>cstr d = ?u\<close> by (simp add: terminated_iff)
  ultimately obtain ys where ys: "d = ?u @ 0 # ys" using terminated_split by metis
  then obtain b zs where "ys = b # zs" using d(2,3) o1(5) by (cases ys) auto
  then have "take (length ?u + 2) d = rendered ps @ xs @ [0, b]" using ys by simp
  then show ?thesis
    using buf(1) cb(1) o1(1,5) d by (auto simp: write_source_def)
qed

section \<open>Properties\<close>

text \<open>C33: a formatted message of at most 511 bytes with colour tags, to a connected client without compression:
  what goes out is the rendered text followed by two more bytes, a zero byte and the byte after it. Nothing
  faults and the client is unchanged. Either a call of \<open>send\<close> reports an error, which is the result, and a prefix
  has been sent; or all of it is sent and the result is its length; or the kernel has taken less so far, as much
  as its answers say, and has not answered the next call. So if the kernel takes all bytes without an error, all of
  them are delivered. (The terminator is meant to be left out; the length of the converted text counts two
  bytes too many.)\<close>

theorem Sendf_sends_rendered:
  assumes "grants_all M" "\<forall>p \<in> set ps. legal_piece p" "legal_rest xs"
    "length (marked ps @ xs) \<le> 511" "length (rendered ps @ xs) < 2 ^ 30"
    "\<not> bDisconnected c" "\<not> b_mccp2 (opts (tel_stream c))" "sends_ok ws (length (rendered ps @ xs) + 2)"
  shows "\<exists>b r sent. Client_Sendf M Z fuel ws c (marked ps @ xs) = (r, sent, c) \<and>
    sent_as ws (rendered ps @ xs @ [0, b]) r sent \<and>
    ((\<forall>w \<in> set ws. 0 \<le> w) \<and> sum_list ws = int (length (rendered ps @ xs) + 2) \<longrightarrow>
       r = Returns (int (length (rendered ps @ xs) + 2)) \<and> sent = rendered ps @ xs @ [0, b])"
proof -
  let ?n = "length (rendered ps @ xs)"
  obtain d b buf m where d: "sendf_buffer M (marked ps @ xs) = Some (buf, m)" "write_source M True buf m = Some (d, ?n + 3)"
      "take (?n + 2) d = rendered ps @ xs @ [0, b]" "?n + 2 \<le> length d"
    using sendf_colour[OF assms(1-5)] by blast
  obtain r sent where w: "write_full_raw ws d (?n + 2) = (r, sent)" by (cases "write_full_raw ws d (?n + 2)")
  have sub: "sz_sub (?n + 3) 1 = ?n + 2" using assms(5) by (subst sz_sub_le) simp_all
  have "Client_Sendf M Z fuel ws c (marked ps @ xs) = (r, sent, c)"
    using assms(6,7) d(1,2) w sub[simplified] by (simp add: Client_Sendf_def Client_WriteToImpl_def)
  moreover have s: "sent_as ws (rendered ps @ xs @ [0, b]) r sent"
    using write_full_raw_sent[OF assms(8) d(4) _ _ w] assms(5) unfolding d(3) by simp
  moreover have "r = Returns (int (?n + 2)) \<and> sent = rendered ps @ xs @ [0, b]"
    if "(\<forall>w \<in> set ws. 0 \<le> w) \<and> sum_list ws = int (?n + 2)"
    using s that by (cases r) (auto simp: sent_as_def sent_after_def)
  ultimately show ?thesis by blast
qed

definition plain_client :: "(nat, nat) client" where
  "plain_client = \<lparr>sock = 4,
     tel_stream = \<lparr>sb_args = cv8, tel_state = TELSTATE_INPUT, opts = zero_options, last_byte = 0\<rparr>,
     zstreams = idle_streams, connection_time = \<lparr>tv_sec = 1, tv_nsec = 0\<rparr>, last_input_time = \<lparr>tv_sec = 1, tv_nsec = 0\<rparr>,
     bytes_sent_at_intervals = replicate 6 0, cmd_intervals = replicate 6 0, interval_idx = 0,
     input_buffer = cv8, player_obj = False, bDisconnected = False, refcount = 0\<rparr>"

theorem Sendf_sends_rendered_witness:
  "\<exists>b r sent. Client_Sendf byte_mgr store_zlib 9 [2, 3, 5] plain_client (marked [([72, 105], bytes_of ''red'')] @ [33]) = (r, sent, plain_client) \<and>
    sent_as [2, 3, 5] (rendered [([72, 105], bytes_of ''red'')] @ [33] @ [0, b]) r sent \<and>
    ((\<forall>w \<in> set [2, 3, 5]. (0 :: int) \<le> w) \<and> sum_list [2, 3, 5] = int (length (rendered [([72, 105], bytes_of ''red'')] @ [33]) + 2) \<longrightarrow>
       r = Returns (int (length (rendered [([72, 105], bytes_of ''red'')] @ [33]) + 2)) \<and>
       sent = rendered [([72, 105], bytes_of ''red'')] @ [33] @ [0, b])"
proof (rule Sendf_sends_rendered)
  show "\<forall>p \<in> set [([72, 105], bytes_of ''red'')]. legal_piece p" by code_simp
  show "legal_rest [33]" unfolding legal_rest_def by (intro conjI exI[of _ "[33]"] exI[of _ "[]"]) auto
  have "length (rendered [([72, 105], bytes_of ''red'')] @ [33]) = 8" by code_simp
  then show "length (rendered [([72, 105], bytes_of ''red'')] @ [33]) < 2 ^ 30" by simp
  show "length (marked [([72, 105], bytes_of ''red'')] @ [33]) \<le> 511" by code_simp
  show "sends_ok [2, 3, 5] (length (rendered [([72, 105], bytes_of ''red'')] @ [33]) + 2)" by code_simp
qed (simp_all add: byte_mgr_grants plain_client_def zero_options_def)

text \<open>a formatted message of more than 511 bytes is cut: the first 511 bytes and a zero byte are sent, and then,
  up to the length of the message, the bytes the reallocation found in the heap (\<open>fresh\<close>). Only the
  buffer is enlarged; the text is never formatted a second time.\<close>

theorem SendfShowColorTags_leaks:
  assumes "grants_all M" "0 \<notin> set out" "511 < length out" "length out < 2 ^ 30"
    "\<not> bDisconnected c" "\<not> b_mccp2 (opts (tel_stream c))"
  shows "Client_SendfShowColorTags M Z fuel [int (length out)] c out =
    (Returns (int (length out)), take 511 out @ [0] @ map (fresh M) [512..<length out], c)"
proof -
  have "length out < 2 ^ 55" using assms(4) by simp
  then obtain d where d: "sendf_buffer M out = Some (d, length out + 1)" "length out + 1 \<le> length d"
      "take (length out + 1) d = take 511 out @ [0] @ map (fresh M) [512..<length out + 1]"
    using sendf_buffer_ok[OF assms(1,2)] assms(3) by auto
  have "take (length out) d = take (length out) (take (length out + 1) d)" by simp
  also have "\<dots> = take 511 out @ [0] @ map (fresh M) [512..<length out]"
  proof -
    let ?a = "take 511 out @ [0] @ map (fresh M) [512..<length out]"
    have "take 511 out @ [0] @ map (fresh M) [512..<length out + 1] = ?a @ [fresh M (length out)]"
      using assms(3) by simp
    moreover have "length ?a = length out" using assms(3) by simp
    ultimately show ?thesis unfolding d(3) by (metis append_eq_conv_conj)
  qed
  finally have t: "take (length out) d = take 511 out @ [0] @ map (fresh M) [512..<length out]" .
  have sub: "sz_sub (Suc (length out)) (Suc 0) = length out" using assms(4) by (subst sz_sub_le) simp_all
  have "to_int32 (length out) = int (length out)" using assms(4) by (intro to_int32_small) simp
  then have "write_full_raw [int (length out)] d (length out) = (Returns (int (length out)), take (length out) d)"
    using d(2) assms(3) by (simp add: write_full_raw_def)
  then show ?thesis
    using assms(5,6) d(1) sub by (simp add: Client_SendfShowColorTags_def Client_WriteToImpl_def write_source_def t)
qed

theorem SendfShowColorTags_leaks_witness:
  "Client_SendfShowColorTags byte_mgr store_zlib 9 [int (length (replicate 600 (65::byte)))] plain_client (replicate 600 65) =
    (Returns (int (length (replicate 600 (65::byte)))),
     take 511 (replicate 600 65) @ [0] @ map (fresh byte_mgr) [512..<length (replicate 600 (65::byte))], plain_client)"
  by (rule SendfShowColorTags_leaks) (simp_all add: byte_mgr_grants plain_client_def zero_options_def)

text \<open>with MCCP2 on, a message without colours goes out compressed: when one call of \<open>deflate\<close> takes the
  text (without its terminator), what reaches the socket is a prefix of what \<open>deflate\<close> produced, a
  nonnegative result means all of it, and the stream of the client carries the new state of zlib.\<close>

theorem Sendf_compressed:
  assumes "grants_all M" "0 \<notin> set out" "out \<noteq> []" "length out \<le> 511"
    "\<not> bDisconnected c" "b_mccp2 (opts (tel_stream c))"
    "deflates_to Z Z_PARTIAL_FLUSH (zstate (strm_out (zstreams c))) out bs z'" "length bs < 2 ^ 31" "sends_ok ws (length bs)"
  shows "\<exists>r k c'. Client_SendfShowColorTags M Z (Suc (Suc fuel)) ws c out = (r, take k bs, c') \<and>
    zstate (strm_out (zstreams c')) = z' \<and> strm_in (zstreams c') = strm_in (zstreams c) \<and>
    (case r of Returns v \<Rightarrow> v < 0 \<or> v = int (length bs) \<and> take k bs = bs | _ \<Rightarrow> True)"
proof -
  have "length out < 2 ^ 55" using assms(4) by simp
  then obtain d where d: "sendf_buffer M out = Some (d, length out + 1)" "take (length out + 1) d = out @ [0]"
      "length out + 1 \<le> length d"
    using sendf_buffer_ok[OF assms(1,2)] assms(4) by auto
  have "take (length out) d = take (length out) (take (length out + 1) d)" by simp
  then have t: "take (length out) d = out" by (simp only: d(2)) simp
  have l: "length out + 1 < 2 ^ 62" using assms(4) by simp
  obtain cb where cb: "cv_init M (length out + 1) = Some (0, cb)" "cv_wf cb" using cv_init_ok[OF assms(1) l] by auto
  have "0 < length out" "length out \<le> length d" "length out < 2 ^ 32" using assms(3,4) d(3) by auto
  then obtain pc o1 where cmp: "ZCompressor_CompressRawData M Z (Suc (Suc fuel)) (zstreams c) d (length out) cb = Returns (0, pc, o1)"
      "cv_wf o1" "cv_bytes o1 = bs" "zstate (strm_out pc) = z'" "strm_in pc = strm_in (zstreams c)"
    using compress_with_ok[OF assms(1) cb(2), of "length out" d Z Z_PARTIAL_FLUSH "zstreams c" bs z' fuel] assms(7)
    unfolding ZCompressor_CompressRawData_def t by blast
  have o1: "clength o1 = length bs" using length_cv_bytes[OF cmp(2)] cmp(3) by simp
  have rd: "read_cells (cells (cdata o1)) 0 (clength o1) = Some bs"
    using cmp(2,3) by (auto simp: cv_wf_def cv_bytes_def mem_simps)
  have sub: "sz_sub (Suc (length out)) (Suc 0) = length out" using assms(4) by (subst sz_sub_le) simp_all
  obtain r sent where w: "send_loop ws bs 0 (int (length bs)) = (r, sent)" by (cases "send_loop ws bs 0 (int (length bs))")
  have i: "to_int32 (length bs) = int (length bs)" using assms(8) by (rule to_int32_small)
  have "Client_SendfShowColorTags M Z (Suc (Suc fuel)) ws c out = (r, sent, c\<lparr>zstreams := pc\<rparr>)"
    using assms(5,6) d(1) cb(1) cmp(1) sub w i rd o1
    by (simp add: Client_SendfShowColorTags_def Client_WriteToImpl_def write_source_def write_from_cv_raw_def)
  moreover have "(\<exists>k. sent = take k bs) \<and> (case r of Returns v \<Rightarrow> v < 0 \<or> v = int (length bs) \<and> sent = bs | _ \<Rightarrow> True)"
    using send_loop_ok[of ws bs 0] assms(8,9) w by (auto split: outcome.split)
  ultimately show ?thesis using cmp(4,5) by auto
qed

theorem Sendf_compressed_witness:
  "\<exists>r k c'. Client_SendfShowColorTags byte_mgr store_zlib (Suc (Suc 0)) [2, 2]
      (plain_client\<lparr>tel_stream := (tel_stream plain_client)\<lparr>opts := zero_options\<lparr>b_mccp2 := True\<rparr>\<rparr>\<rparr>) [7, 8, 9] = (r, take k [3, 7, 8, 9], c') \<and>
    zstate (strm_out (zstreams c')) = 1 \<and>
    strm_in (zstreams c') = strm_in (zstreams
      (plain_client\<lparr>tel_stream := (tel_stream plain_client)\<lparr>opts := zero_options\<lparr>b_mccp2 := True\<rparr>\<rparr>\<rparr>)) \<and>
    (case r of Returns v \<Rightarrow> v < 0 \<or> v = int (length [3, 7, 8, 9 :: byte]) \<and> take k [3, 7, 8, 9 :: byte] = [3, 7, 8, 9] | _ \<Rightarrow> True)"
  by (rule Sendf_compressed)
     (simp_all add: byte_mgr_grants plain_client_def zero_options_def deflates_to_def store_zlib_def idle_streams_def)

end
