(* ===== verification/TextUtil.thy ===== *)
theory TextUtil
  imports CharVector Utf8
begin

text \<open>
  textutil.c, first part: the line scans \<open>RemoveCRs\<close> and \<open>CountNewlines\<close>, the containers of the reflow
  algorithm, and the steps that prepare a text for it: removing single newlines, finding the paragraphs,
  splitting into words. A C string is the memory readable from its start. \<open>None\<close> is undefined behaviour.
\<close>

section \<open>Lines\<close>

function removecrs_loop :: "byte mem_mgr \<Rightarrow> byte list \<Rightarrow> nat \<Rightarrow> nat \<Rightarrow> cv_t \<Rightarrow> cv_t option" where
  "removecrs_loop M inp len idx out =
     (if idx < len then
        (case c_memchr (drop idx inp) 13 (len - idx) of
           None \<Rightarrow> None
         | Some None \<Rightarrow> cv_strncat M out (drop idx inp) (len - idx)
         | Some (Some k) \<Rightarrow>
             (case cv_strncat M out (drop idx inp) k of
                None \<Rightarrow> None
              | Some out \<Rightarrow> removecrs_loop M inp len (idx + k + 1) out))
      else Some out)"
  by pat_completeness auto
termination by (relation "measure (\<lambda>(M, inp, len, idx, out). len - idx)") auto

declare removecrs_loop.simps [simp del]

definition RemoveCRs :: "byte mem_mgr \<Rightarrow> byte list \<Rightarrow> nat \<Rightarrow> cv_t \<Rightarrow> cv_t option" where
  "RemoveCRs M inp len out = removecrs_loop M inp len 0 out"

function newlines_loop :: "byte list \<Rightarrow> nat \<Rightarrow> nat \<Rightarrow> nat \<Rightarrow> nat option" where
  "newlines_loop inp len idx cnt =
     (if idx < len then
        (case c_memchr (drop idx inp) 10 (len - idx) of
           None \<Rightarrow> None
         | Some None \<Rightarrow> Some cnt
         | Some (Some k) \<Rightarrow> newlines_loop inp len (idx + k + 1) (cnt + 1))
      else Some cnt)"
  by pat_completeness auto
termination by (relation "measure (\<lambda>(inp, len, idx, cnt). len - idx)") auto

declare newlines_loop.simps [simp del]

definition CountNewlines :: "byte list \<Rightarrow> nat \<Rightarrow> nat option" where
  "CountNewlines inp len = newlines_loop inp len 0 0"

text \<open>The lines a text is made of, without the separators: at least one.\<close>

fun split_at_byte :: "byte \<Rightarrow> byte list \<Rightarrow> byte list list" where
  "split_at_byte c [] = [[]]"
| "split_at_byte c (b # bs) =
     (if b = c then [] # split_at_byte c bs else (b # hd (split_at_byte c bs)) # tl (split_at_byte c bs))"

lemma split_at_byte_not_Nil [simp]: "split_at_byte c xs \<noteq> []"
  by (cases xs) auto

lemma split_at_byte_none: "c \<notin> set xs \<Longrightarrow> split_at_byte c xs = [xs]"
  by (induction xs) auto

lemma split_at_byte_some: "c \<notin> set xs \<Longrightarrow> split_at_byte c (xs @ c # ys) = xs # split_at_byte c ys"
  by (induction xs) auto

lemma split_at_byte_filter: "0 \<notin> set xs \<Longrightarrow> concat (map cstr (split_at_byte c xs)) = filter (\<lambda>b. b \<noteq> c) xs"
proof (induction xs)
  case (Cons x xs)
  then show ?case by (cases "split_at_byte c xs") auto
qed simp

lemma memchr_split:
  assumes "idx < len" "len \<le> length xs"
  shows "(c_memchr (drop idx xs) c (len - idx) = Some None \<and> c \<notin> set (take (len - idx) (drop idx xs))) \<or>
    (\<exists>k. c_memchr (drop idx xs) c (len - idx) = Some (Some k) \<and> idx + k < len \<and> c \<notin> set (take k (drop idx xs)) \<and>
       take (len - idx) (drop idx xs) = take k (drop idx xs) @ c # take (len - (idx + k + 1)) (drop (idx + k + 1) xs))"
proof -
  let ?ys = "take (len - idx) (drop idx xs)"
  have m: "c_memchr (drop idx xs) c (len - idx) = Some (first_idx (\<lambda>b. b = c) ?ys)"
    using assms by (intro c_memchr_ok) simp
  show ?thesis
  proof (cases "first_idx (\<lambda>b. b = c) ?ys")
    case None
    then show ?thesis using m by (auto simp: first_idx_None)
  next
    case (Some k)
    then have k: "k < length ?ys" "?ys ! k = c" "\<forall>j<k. ?ys ! j \<noteq> c" by (auto simp: first_idx_Some)
    have "?ys = take k ?ys @ ?ys ! k # drop (Suc k) ?ys" by (rule id_take_nth_drop[OF k(1)])
    moreover have "take k ?ys = take k (drop idx xs)" using k(1) by simp
    moreover have "drop (Suc k) ?ys = take (len - (idx + k + 1)) (drop (idx + k + 1) xs)"
      by (simp add: drop_take add.commute)
    moreover have "c \<notin> set (take k ?ys)" using k by (auto simp: in_set_conv_nth)
    moreover have "idx + k < len" using k(1) by (simp add: less_diff_conv)
    ultimately show ?thesis using m k(2) unfolding Some by metis
  qed
qed

lemma removecrs_loop_ok:
  assumes M: "grants_all M"
  shows "cv_wf out \<Longrightarrow> idx \<le> len \<Longrightarrow> len \<le> length inp \<Longrightarrow> ccapacity out \<le> B \<Longrightarrow> B \<le> 2 ^ 56 \<Longrightarrow>
    2 * (length (cv_str out) + (len - idx) + 1) + 8 \<le> B \<Longrightarrow>
    \<exists>out'. removecrs_loop M inp len idx out = Some out' \<and> cv_wf out' \<and> (idx < len \<longrightarrow> cv_closed out') \<and> ccapacity out' \<le> B \<and>
      cv_str out' = cv_str out @ concat (map cstr (split_at_byte 13 (take (len - idx) (drop idx inp))))"
proof (induction "len - idx" arbitrary: idx out rule: less_induct)
  case less
  show ?case
  proof (cases "idx < len")
    case False
    then show ?thesis using less.prems by (simp add: removecrs_loop.simps)
  next
    case True
    note split = memchr_split[OF True less.prems(3), of 13]
    show ?thesis
    proof (cases "c_memchr (drop idx inp) 13 (len - idx) = Some None")
      case none: True
      have "len - idx \<le> length (drop idx inp)" using less.prems(3) by simp
      then obtain out' where "cv_strncat M out (drop idx inp) (len - idx) = Some out'" "cv_closed out'"
        "cv_str out' = cv_str out @ cstr (take (len - idx) (drop idx inp))" "ccapacity out' \<le> B"
        using append_str[OF M less.prems(1) _ less.prems(4,5,6), of "drop idx inp"] by blast
      then show ?thesis
        using none True split by (subst removecrs_loop.simps) (auto simp: split_at_byte_none cv_closed_def)
    next
      case some: False
      then obtain k where k: "c_memchr (drop idx inp) 13 (len - idx) = Some (Some k)" "idx + k < len"
        "13 \<notin> set (take k (drop idx inp))"
        "take (len - idx) (drop idx inp) = take k (drop idx inp) @ 13 # take (len - (idx + k + 1)) (drop (idx + k + 1) inp)"
        using split by auto
      have "k \<le> length (drop idx inp)" "2 * (length (cv_str out) + k + 1) + 8 \<le> B"
        using k(2) less.prems(3,6) by auto
      then obtain out1 where o1: "cv_strncat M out (drop idx inp) k = Some out1" "cv_closed out1"
        "cv_str out1 = cv_str out @ cstr (take k (drop idx inp))" "ccapacity out1 \<le> B"
        using append_str[OF M less.prems(1) _ less.prems(4,5), of k "drop idx inp"] by blast
      have "length (cv_str out1) \<le> length (cv_str out) + k"
        using o1(3) length_cstr_le[of "take k (drop idx inp)"] by simp
      moreover have "len - (idx + k + 1) + k + 1 = len - idx" using k(2) by simp
      ultimately have "length (cv_str out1) + (len - (idx + k + 1)) + 1 \<le> length (cv_str out) + (len - idx)" by linarith
      then have "2 * (length (cv_str out1) + (len - (idx + k + 1)) + 1) + 8 \<le> B"
        using less.prems(6) by (meson add_le_mono1 le_add1 le_trans mult_le_mono2)
      moreover have "cv_wf out1" using o1(2) by (simp add: cv_closed_def)
      moreover have "len - (idx + k + 1) < len - idx" "idx + k + 1 \<le> len" using True k(2) by auto
      ultimately obtain out' where o2: "removecrs_loop M inp len (idx + k + 1) out1 = Some out'" "cv_wf out'" "ccapacity out' \<le> B"
        "idx + k + 1 < len \<longrightarrow> cv_closed out'"
        "cv_str out' = cv_str out1 @ concat (map cstr (split_at_byte 13 (take (len - (idx + k + 1)) (drop (idx + k + 1) inp))))"
        using less.hyps[of "idx + k + 1" out1] less.prems(3,5) o1(4) by blast
      have "cv_closed out'"
        using o2(1,4) o1(2) by (cases "idx + k + 1 < len") (simp_all add: removecrs_loop.simps)
      then show ?thesis
        using True k(1,3) o1(1,3) o2(1,2,3,5) unfolding k(4)
        by (subst removecrs_loop.simps) (simp add: split_at_byte_some)
    qed
  qed
qed

lemma RemoveCRs_ok:
  assumes "grants_all M" "cv_wf out" "len \<le> length inp" "ccapacity out \<le> 2 ^ 56" "length (cv_str out) + len < 2 ^ 54"
  shows "\<exists>out'. RemoveCRs M inp len out = Some out' \<and> cv_wf out' \<and> (0 < len \<longrightarrow> cv_closed out') \<and>
    cv_str out' = cv_str out @ concat (map cstr (split_at_byte 13 (take len inp)))"
  using removecrs_loop_ok[OF assms(1,2), of 0 len inp "2 ^ 56"] assms(3,4,5) by (auto simp: RemoveCRs_def)

lemma newlines_loop_ok:
  "idx \<le> len \<Longrightarrow> len \<le> length inp \<Longrightarrow>
   newlines_loop inp len idx cnt = Some (cnt + count_list (take (len - idx) (drop idx inp)) 10)"
proof (induction "len - idx" arbitrary: idx cnt rule: less_induct)
  case less
  show ?case
  proof (cases "idx < len")
    case False
    then show ?thesis by (simp add: newlines_loop.simps)
  next
    case True
    note split = memchr_split[OF True less.prems(2), of 10]
    show ?thesis
    proof (cases "c_memchr (drop idx inp) 10 (len - idx) = Some None")
      case none: True
      then have "count_list (take (len - idx) (drop idx inp)) 10 = 0" using split by (simp add: count_list_0_iff)
      then show ?thesis using none True by (subst newlines_loop.simps) simp
    next
      case some: False
      then obtain k where k: "c_memchr (drop idx inp) 10 (len - idx) = Some (Some k)" "idx + k < len"
        "10 \<notin> set (take k (drop idx inp))"
        "take (len - idx) (drop idx inp) = take k (drop idx inp) @ 10 # take (len - (idx + k + 1)) (drop (idx + k + 1) inp)"
        using split by auto
      have "count_list (take k (drop idx inp)) 10 = 0" using k(3) by (simp add: count_list_0_iff)
      then show ?thesis
        using True k(1,2) less.hyps[of "idx + k + 1" "cnt + 1"] less.prems unfolding k(4)
        by (subst newlines_loop.simps) simp
    qed
  qed
qed

lemma CountNewlines_ok: "len \<le> length inp \<Longrightarrow> CountNewlines inp len = Some (count_list (take len inp) 10)"
  by (simp add: CountNewlines_def newlines_loop_ok)

section \<open>The containers\<close>

record reflow_word =
  rw_string :: cv_t
  bHyphenPoint :: bool
  bEscaped :: nat

record reflow_strarray =
  sa_strings :: "reflow_word list option"
  sa_length :: nat
  sa_capacity :: nat

record reflow_intstack =
  is_data :: "int list option"
  is_length :: nat
  is_capacity :: nat

text \<open>The allocations of bytes, words and ints.\<close>

record text_mem =
  tm_bytes :: "byte mem_mgr"
  tm_words :: "reflow_word mem_mgr"
  tm_ints :: "int mem_mgr"

definition sizeof_word :: nat where
  "sizeof_word = 32"

definition sizeof_int :: nat where
  "sizeof_int = 4"

definition zero_word :: reflow_word where
  "zero_word = \<lparr>rw_string = \<lparr>cdata = None, clength = 0, ccapacity = 0\<rparr>, bHyphenPoint = False, bEscaped = 0\<rparr>"

definition reflow_strarray_create :: "text_mem \<Rightarrow> nat \<Rightarrow> reflow_strarray option" where
  "reflow_strarray_create W initial_size = do {
     let cap = max initial_size 1;
     s \<leftarrow> malloc_cells (tm_words W) sizeof_word (sz (sizeof_word * cap));
     s \<leftarrow> fill_cells s 0 cap zero_word;
     Some \<lparr>sa_strings = Some s, sa_length = 0, sa_capacity = cap\<rparr>
   }"

definition reflow_strarray_push ::
    "text_mem \<Rightarrow> reflow_strarray \<Rightarrow> byte list \<Rightarrow> nat \<Rightarrow> nat \<Rightarrow> bool \<Rightarrow> reflow_strarray option" where
  "reflow_strarray_push W array val vallen bIsEscaped bIsHyphenPoint = do {
     array \<leftarrow> (if sa_length array \<ge> sa_capacity array then do {
                 let cap = max (sz (8 * sa_capacity array)) (sz (sa_capacity array + sa_length array));
                 s \<leftarrow> realloc_cells (tm_words W) sizeof_word (sa_strings array) (sz (sizeof_word * cap));
                 s \<leftarrow> fill_cells s (sa_length array) (sz_sub cap (sa_length array)) zero_word;
                 Some (array\<lparr>sa_capacity := cap, sa_strings := Some s\<rparr>)
               } else Some array);
     (_, str) \<leftarrow> cv_init (tm_bytes W) 16;
     (_, str) \<leftarrow> cv_appendstr (tm_bytes W) str val vallen;
     s \<leftarrow> wr (cells (sa_strings array)) (sa_length array)
            \<lparr>rw_string = str, bHyphenPoint = bIsHyphenPoint, bEscaped = bIsEscaped\<rparr>;
     Some (array\<lparr>sa_strings := Some s, sa_length := sz (sa_length array + 1)\<rparr>)
   }"

text \<open>The strings that are released, and the array after it.\<close>

definition reflow_strarray_destroy :: "reflow_strarray \<Rightarrow> (cv_t list \<times> reflow_strarray) option" where
  "reflow_strarray_destroy array = do {
     ws \<leftarrow> read_cells (cells (sa_strings array)) 0 (sa_length array);
     Some (map rw_string ws, array\<lparr>sa_strings := None\<rparr>)
   }"

definition reflow_intstack_create :: "text_mem \<Rightarrow> nat \<Rightarrow> reflow_intstack" where
  "reflow_intstack_create W initial =
     (let cap = max 1 initial
      in \<lparr>is_data = malloc_cells (tm_ints W) sizeof_int (sz (sizeof_int * cap)), is_length = 0, is_capacity = cap\<rparr>)"

definition reflow_intstack_pop :: "reflow_intstack \<Rightarrow> (int \<times> reflow_intstack) option" where
  "reflow_intstack_pop stack = do {
     let n = (if is_length stack > 0 then is_length stack - 1 else is_length stack);
     retval \<leftarrow> rd (cells (is_data stack)) n;
     d \<leftarrow> wr (cells (is_data stack)) n 0;
     Some (retval, stack\<lparr>is_length := n, is_data := Some d\<rparr>)
   }"

definition reflow_intstack_peek :: "reflow_intstack \<Rightarrow> int option" where
  "reflow_intstack_peek stack = rd (cells (is_data stack)) (sz_sub (is_length stack) 1)"

definition reflow_intstack_push :: "text_mem \<Rightarrow> reflow_intstack \<Rightarrow> int \<Rightarrow> reflow_intstack option" where
  "reflow_intstack_push W stack val = do {
     let stack = (if is_length stack \<ge> is_capacity stack
                  then let cap = sz (4 * is_capacity stack)
                       in stack\<lparr>is_capacity := cap,
                                is_data := realloc_cells (tm_ints W) sizeof_int (is_data stack) (sz (sizeof_int * cap))\<rparr>
                  else stack);
     d \<leftarrow> wr (cells (is_data stack)) (is_length stack) val;
     Some (stack\<lparr>is_data := Some d, is_length := sz (is_length stack + 1)\<rparr>)
   }"

definition reflow_intstack_destroy :: "reflow_intstack \<Rightarrow> reflow_intstack" where
  "reflow_intstack_destroy stack = stack\<lparr>is_data := None\<rparr>"

section \<open>Newlines and paragraphs\<close>

text \<open>\<open>strchr\<close>: the position of a character before the terminator.\<close>

definition c_strchr :: "byte list \<Rightarrow> byte \<Rightarrow> nat option option" where
  "c_strchr str c = do {
     i \<leftarrow> first_idx (\<lambda>b. b = c \<or> b = 0) str;
     Some (if str ! i = c then Some i else None)
   }"

lemma c_strchr_in: "c_strchr str c = Some (Some i) \<Longrightarrow> i < length str \<and> str ! i = c"
  by (auto simp: c_strchr_def first_idx_Some split: bind_splits if_splits)

function strip_loop :: "byte list \<Rightarrow> nat \<Rightarrow> nat \<Rightarrow> nat \<Rightarrow> byte list \<Rightarrow> byte list option" where
  "strip_loop inp inputlen pos spaceleft out =
     (case c_strchr (drop pos inp) 10 of
        None \<Rightarrow> None
      | Some None \<Rightarrow> c_strncat out (drop pos inp) (sz_sub inputlen pos)
      | Some (Some offset) \<Rightarrow>
          (let found = pos + offset in
           if offset \<le> spaceleft then
             (case first_idx (\<lambda>b. b \<noteq> 10) (drop (found + 1) inp) of
                None \<Rightarrow> None
              | Some 0 \<Rightarrow>
                  (case c_strncat out (drop pos inp) offset of
                     None \<Rightarrow> None
                   | Some out \<Rightarrow>
                       (case wr out found 32 of
                          None \<Rightarrow> None
                        | Some out \<Rightarrow> strip_loop inp inputlen (found + 1) (sz_sub spaceleft (offset + 1)) out))
              | Some (Suc r) \<Rightarrow>
                  (let found = found + Suc r; offset = min spaceleft (found - pos + 1) in
                   case c_strncat out (drop pos inp) offset of
                     None \<Rightarrow> None
                   | Some out \<Rightarrow> strip_loop inp inputlen (found + 1) (sz_sub spaceleft (offset + 1)) out))
           else c_strncat out (drop pos inp) spaceleft))"
  by pat_completeness auto
termination
  by (relation "measure (\<lambda>(inp, inputlen, pos, spaceleft, out). length inp - pos)")
     (auto dest!: c_strchr_in)

declare strip_loop.simps [simp del]

definition StripNewline :: "byte list \<Rightarrow> nat \<Rightarrow> byte list \<Rightarrow> nat \<Rightarrow> byte list option" where
  "StripNewline inp inputlen out bufferlen = strip_loop inp inputlen 0 (sz_sub bufferlen 1) out"

text \<open>A difference of pointers is stored in an \<open>int\<close>.\<close>

definition int32_of :: "int \<Rightarrow> int" where
  "int32_of i = sint (word_of_int i :: 32 word)"

function paragraphs_loop :: "text_mem \<Rightarrow> byte list \<Rightarrow> nat \<Rightarrow> reflow_intstack \<Rightarrow> reflow_intstack option" where
  "paragraphs_loop W str p locs =
     (case c_strchr (drop p str) 10 of
        None \<Rightarrow> None
      | Some None \<Rightarrow> Some locs
      | Some (Some k) \<Rightarrow>
          (let found = p + k in
           case first_idx (\<lambda>b. b \<noteq> 10) (drop (found + 1) str) of
             None \<Rightarrow> None
           | Some r \<Rightarrow>
               (let nls_found = r + 2; nlrun = found + 1 + r in
                case (if nls_found > 1 then do {
                        locs \<leftarrow> reflow_intstack_push W locs (int32_of (int found - 1));
                        reflow_intstack_push W locs (int32_of (int nlrun))
                      } else Some locs) of
                  None \<Rightarrow> None
                | Some locs \<Rightarrow> paragraphs_loop W str nlrun locs)))"
  by pat_completeness auto
termination
  by (relation "measure (\<lambda>(W, str, p, locs). length str - p)") (auto dest!: c_strchr_in)

declare paragraphs_loop.simps [simp del]

definition FindParagraphs :: "text_mem \<Rightarrow> byte list \<Rightarrow> nat \<Rightarrow> reflow_intstack \<Rightarrow> reflow_intstack option" where
  "FindParagraphs W str len paragraphlocs = do {
     p \<leftarrow> first_idx (\<lambda>b. b \<noteq> 32) str;
     locs \<leftarrow> reflow_intstack_push W paragraphlocs (int32_of (int p));
     paragraphs_loop W str p locs
   }"

section \<open>Words\<close>

text \<open>
  \<open>strtok_r\<close> in a buffer, from position \<open>pos\<close>: the token's position (or null), the position it saves, and
  the buffer with the separator after the token overwritten.
\<close>

definition c_strtok :: "byte list \<Rightarrow> byte list \<Rightarrow> nat \<Rightarrow> (nat option \<times> nat \<times> byte list) option" where
  "c_strtok delims buf pos = do {
     k \<leftarrow> first_idx (\<lambda>b. b \<notin> set delims) (drop pos buf);
     let s = pos + k;
     if buf ! s = 0 then Some (None, s, buf)
     else do {
       n \<leftarrow> first_idx (\<lambda>b. b = 0 \<or> b \<in> set delims) (drop s buf);
       if buf ! (s + n) = 0 then Some (Some s, s + n, buf)
       else Some (Some s, s + n + 1, buf[s + n := 0])
     }
   }"

definition c_isupper :: "byte \<Rightarrow> bool" where
  "c_isupper b \<longleftrightarrow> 65 \<le> b \<and> b \<le> 90"

definition SplitWord ::
    "byte mem_mgr \<Rightarrow> byte list \<Rightarrow> nat \<Rightarrow> cv_t \<Rightarrow> cv_t \<Rightarrow> (cv_t \<times> cv_t) option" where
  "SplitWord M inword inwordlen outword_a outword_b = do {
     let halflen = inwordlen div 2;
     a \<leftarrow> cv_strncpy M outword_a inword halflen;
     (_, a) \<leftarrow> cv_push M 0 a;
     b \<leftarrow> cv_strncpy M outword_b (drop halflen inword) (inwordlen - halflen);
     (_, b) \<leftarrow> cv_push M 0 b;
     Some (a, b)
   }"

definition CanWordBeSplit :: "byte list \<Rightarrow> nat \<Rightarrow> bool option" where
  "CanWordBeSplit word len =
     (if len < 8 then Some False
      else do {
        c \<leftarrow> rd word 0;
        if c_isupper c \<or> c = 34 then Some False
        else do {
          m \<leftarrow> c_memchr word 45 len;
          if m \<noteq> None then Some False
          else do {
            u \<leftarrow> utf8findstart64 word len;
            Some (u = None)
          }
        }
      })"

text \<open>What \<open>TokenizeString\<close> carries from token to token.\<close>

record tokenizer =
  lastescapetoken :: nat
  rebuilttoken :: cv_t
  half_a :: cv_t
  half_b :: cv_t
  tk_out :: reflow_strarray

text \<open>
  The text is \<open>len\<close> bytes at \<open>start\<close> in the memory \<open>mem\<close>: \<open>input[i]\<close> is the byte at \<open>start + i\<close> of
  \<open>size_t\<close> arithmetic, so that an index of \<open>2 ^ 64 - 1\<close> is the byte before the text. \<open>wordlen\<close> is the length
  of the token: the bound of the \<open>strnlen\<close> in the source is the difference of pointers into two
  blocks, which is never smaller than the token when blocks do not overlap.
\<close>

definition input_at :: "byte list \<Rightarrow> nat \<Rightarrow> nat \<Rightarrow> byte option" where
  "input_at mem start i = rd mem (sz (start + i))"

definition is_escaped :: "byte list \<Rightarrow> nat \<Rightarrow> nat \<Rightarrow> nat \<Rightarrow> nat \<Rightarrow> nat \<Rightarrow> bool option" where
  "is_escaped mem start len lastescape offset wordlen =
     (if offset > 0 then do {
        c \<leftarrow> input_at mem start (offset - 1);
        if c = 96 \<and> lastescape \<noteq> offset - 1 \<and> offset + wordlen < len then do {
          d \<leftarrow> input_at mem start (offset + wordlen);
          Some (d = 96)
        } else Some False
      } else Some False)"

definition spacealignment :: "byte list \<Rightarrow> nat \<Rightarrow> nat \<Rightarrow> nat \<Rightarrow> nat \<Rightarrow> nat option" where
  "spacealignment mem start len offset wordlen = do {
     l \<leftarrow> (if sz_sub offset 2 > 0 then map_option c_isspace (input_at mem start (sz_sub offset 2)) else Some False);
     r \<leftarrow> (if offset + wordlen + 1 < len then map_option c_isspace (input_at mem start (offset + wordlen + 1)) else Some False);
     Some (1 + (if l then 2 else 0) + (if r then 4 else 0))
   }"

text \<open>One token at \<open>offset\<close> of the copy \<open>buf\<close>.\<close>

definition store_token ::
    "text_mem \<Rightarrow> byte list \<Rightarrow> nat \<Rightarrow> nat \<Rightarrow> bool \<Rightarrow> byte list \<Rightarrow> nat \<Rightarrow> tokenizer \<Rightarrow> tokenizer option" where
  "store_token W mem start len bCreateHyphenPoints buf offset t = do {
     let ret = drop offset buf;
     wordlen \<leftarrow> c_strlen ret;
     esc \<leftarrow> is_escaped mem start len (lastescapetoken t) offset wordlen;
     if esc then do {
       reb \<leftarrow> cv_sprintf (tm_bytes W) (rebuilttoken t) ([96] @ take wordlen ret @ [96]);
       align \<leftarrow> spacealignment mem start len offset wordlen;
       out \<leftarrow> reflow_strarray_push W (tk_out t) (cells (cdata reb)) (clength reb) align False;
       Some (t\<lparr>rebuilttoken := reb, tk_out := out, lastescapetoken := offset + wordlen\<rparr>)
     }
     else do {
       split \<leftarrow> (if bCreateHyphenPoints then CanWordBeSplit ret wordlen else Some False);
       if split then do {
         (a, b) \<leftarrow> SplitWord (tm_bytes W) ret wordlen (half_a t) (half_b t);
         out \<leftarrow> reflow_strarray_push W (tk_out t) (cells (cdata a)) (clength a) 0 True;
         out \<leftarrow> reflow_strarray_push W out (cells (cdata b)) (clength b) 0 False;
         Some (t\<lparr>half_a := a, half_b := b, tk_out := out\<rparr>)
       }
       else do {
         out \<leftarrow> reflow_strarray_push W (tk_out t) ret wordlen 0 False;
         Some (t\<lparr>tk_out := out\<rparr>)
       }
     }
   }"

definition delimiters :: "byte list" where
  "delimiters = [32, 96]"

lemma c_strtok_advances:
  assumes "c_strtok delims buf pos = Some (Some s, save, buf')"
  shows "length buf' = length buf \<and> pos \<le> s \<and> s < save \<and> save \<le> length buf"
proof -
  from assms obtain k where k: "first_idx (\<lambda>b. b \<notin> set delims) (drop pos buf) = Some k" "s = pos + k" "buf ! s \<noteq> 0"
    by (auto simp: c_strtok_def Let_def split: bind_splits if_splits)
  with assms obtain n where n: "first_idx (\<lambda>b. b = 0 \<or> b \<in> set delims) (drop s buf) = Some n"
    "length buf' = length buf" "save = s + n \<or> save = s + n + 1"
    by (auto simp: c_strtok_def Let_def split: bind_splits if_splits)
  have "pos + k < length buf" "buf ! (pos + k) \<notin> set delims" using k(1) by (auto simp: first_idx_Some)
  moreover have "s + n < length buf" "buf ! (s + n) = 0 \<or> buf ! (s + n) \<in> set delims"
    using n(1) by (auto simp: first_idx_Some)
  ultimately have "n > 0" using k(2,3) by (cases n) auto
  then show ?thesis using n k \<open>s + n < length buf\<close> by auto
qed

function token_loop ::
    "text_mem \<Rightarrow> byte list \<Rightarrow> nat \<Rightarrow> nat \<Rightarrow> bool \<Rightarrow> byte list \<Rightarrow> nat \<Rightarrow> tokenizer \<Rightarrow> tokenizer option" where
  "token_loop W mem start len bCreateHyphenPoints buf save t =
     (case c_strtok delimiters buf save of
        None \<Rightarrow> None
      | Some (None, _, _) \<Rightarrow> Some t
      | Some (Some ret, save, buf) \<Rightarrow>
          (if int ret \<ge> int len - 1 then Some t
           else (case store_token W mem start len bCreateHyphenPoints buf ret t of
                   None \<Rightarrow> None
                 | Some t \<Rightarrow> token_loop W mem start len bCreateHyphenPoints buf save t)))"
  by pat_completeness auto
termination
  by (relation "measure (\<lambda>(W, mem, start, len, h, buf, save, t). Suc (length buf) - save)")
     (auto dest!: c_strtok_advances)

declare token_loop.simps [simp del]

definition TokenizeString ::
    "text_mem \<Rightarrow> byte list \<Rightarrow> nat \<Rightarrow> nat \<Rightarrow> reflow_strarray \<Rightarrow> bool \<Rightarrow> reflow_strarray option" where
  "TokenizeString W mem start len out bCreateHyphenPoints = do {
     inputcopy \<leftarrow> malloc_cells (tm_bytes W) 1 (sz (len + 1));
     text \<leftarrow> read_cells mem start len;
     inputcopy \<leftarrow> copy_cells inputcopy 0 text;
     inputcopy \<leftarrow> wr inputcopy len 0;
     (_, rebuilt) \<leftarrow> cv_init (tm_bytes W) 32;
     (_, a) \<leftarrow> cv_init (tm_bytes W) 16;
     (_, b) \<leftarrow> cv_init (tm_bytes W) 16;
     t \<leftarrow> token_loop W mem start len bCreateHyphenPoints inputcopy 0
            \<lparr>lastescapetoken = 0, rebuilttoken = rebuilt, half_a = a, half_b = b, tk_out = out\<rparr>;
     Some (tk_out t)
   }"

section \<open>What removing the newlines does\<close>

text \<open>The output: what is written so far, and zeros.\<close>

lemma strncat_zeros:
  assumes "0 \<notin> set pre" "0 \<notin> set cs" "c_chars src n = Some cs" "length cs < m"
  shows "c_strncat (pre @ replicate m 0) src n = Some ((pre @ cs) @ replicate (m - length cs) 0)"
proof -
  have "terminated (pre @ replicate m 0)" "cstr (pre @ replicate m 0) = pre"
    using assms(1,4) cstr_zeros[of m pre] by (auto simp: terminated_def cstr_id)
  then have k: "c_strlen (pre @ replicate m 0) = Some (length pre)" by (simp add: c_strlen_ok)
  have "replicate (m - length cs) (0 :: byte) = 0 # replicate (m - Suc (length cs)) 0"
    using assms(4) by (cases "m - length cs") auto
  then have "copy_cells (pre @ replicate m 0) (length pre) (cs @ [0]) = Some ((pre @ cs) @ replicate (m - length cs) 0)"
    using assms(4) by (simp add: copy_cells_def)
  then show ?thesis using k assms(3) by (simp add: c_strncat_def)
qed

lemma chars_prefix: "0 \<notin> set xs \<Longrightarrow> n \<le> length xs \<Longrightarrow> c_chars (xs @ ys) n = Some (take n xs)"
  using c_chars_ok[of n "xs @ ys"] cstr_id[of "take n xs"] by (auto dest: in_set_takeD)

lemma strchr_found: "c \<notin> set xs \<Longrightarrow> 0 \<notin> set xs \<Longrightarrow> c_strchr (xs @ c # ys) c = Some (Some (length xs))"
  by (subst c_strchr_def, subst first_idx_skip) auto

lemma strchr_not_found: "c \<notin> set xs \<Longrightarrow> 0 \<notin> set xs \<Longrightarrow> c \<noteq> 0 \<Longrightarrow> c_strchr (xs @ 0 # ys) c = Some None"
  by (subst c_strchr_def, subst first_idx_skip) auto

text \<open>A newline followed by something else becomes a space.\<close>

lemma strip_line:
  assumes inp: "drop pos inp = b @ 10 # c # rest" and b: "10 \<notin> set b" "0 \<notin> set b" and c: "c \<noteq> 10"
    and out: "length pre = pos" "0 \<notin> set pre" "length b + 1 < m" and s: "length b + 1 \<le> s" "s < 2 ^ 62"
  shows "strip_loop inp n pos s (pre @ replicate m 0) =
    strip_loop inp n (pos + length b + 1) (s - (length b + 1)) ((pre @ b @ [32]) @ replicate (m - (length b + 1)) 0)"
proof -
  have f: "c_strchr (drop pos inp) 10 = Some (Some (length b))" unfolding inp by (rule strchr_found[OF b])
  have d: "drop (pos + length b + 1) inp = c # rest"
    using arg_cong[OF inp, of "drop (length b + 1)"] by (simp add: ac_simps)
  have "c_chars (b @ 10 # c # rest) (length b) = Some b" using chars_prefix[OF b(2), of "length b"] by simp
  then have cat: "c_strncat (pre @ replicate m 0) (drop pos inp) (length b) = Some ((pre @ b) @ replicate (m - length b) 0)"
    unfolding inp using out b(2) by (intro strncat_zeros) auto
  have "replicate (m - length b) (0 :: byte) = 0 # replicate (m - (length b + 1)) 0"
    using out(3) by (cases "m - length b") auto
  then have w: "wr ((pre @ b) @ replicate (m - length b) 0) (pos + length b) 32 =
      Some ((pre @ b @ [32]) @ replicate (m - (length b + 1)) 0)"
    using out(1,3) by (simp add: wr_def list_update_append)
  have "sz_sub s (length b + 1) = s - (length b + 1)" using s by (intro sz_sub_le) auto
  then show ?thesis
    using f d cat w c s(1) by (subst strip_loop.simps) (simp add: Let_def)
qed

text \<open>Two newlines stay, but cost three bytes of the space that is left.\<close>

lemma strip_blank_line:
  assumes inp: "drop pos inp = b @ 10 # 10 # c # rest" and b: "10 \<notin> set b" "0 \<notin> set b" and c: "c \<noteq> 10"
    and out: "length pre = pos" "0 \<notin> set pre" "length b + 2 < m" and s: "length b + 3 \<le> s" "s < 2 ^ 62"
  shows "strip_loop inp n pos s (pre @ replicate m 0) =
    strip_loop inp n (pos + length b + 2) (s - (length b + 3)) ((pre @ b @ [10, 10]) @ replicate (m - (length b + 2)) 0)"
proof -
  have f: "c_strchr (drop pos inp) 10 = Some (Some (length b))" unfolding inp by (rule strchr_found[OF b])
  have d: "drop (pos + length b + 1) inp = 10 # c # rest"
    using arg_cong[OF inp, of "drop (length b + 1)"] by (simp add: ac_simps)
  have "0 \<notin> set (b @ [10, 10])" using b(2) by simp
  from chars_prefix[OF this, of "length b + 2" "c # rest"]
  have "c_chars (b @ 10 # 10 # c # rest) (length b + 2) = Some (b @ [10, 10])" by simp
  then have cat: "c_strncat (pre @ replicate m 0) (drop pos inp) (length b + 2) =
      Some ((pre @ b @ [10, 10]) @ replicate (m - length (b @ [10, 10])) 0)"
    unfolding inp using strncat_zeros[of pre "b @ [10, 10]" _ _ m] out b(2) by simp
  have "sz_sub s (length b + 3) = s - (length b + 3)" using s by (intro sz_sub_le) auto
  moreover have "min s (length b + 2) = length b + 2" using s(1) by simp
  ultimately show ?thesis
    using f d cat c s(1) by (subst strip_loop.simps) (simp add: Let_def numeral_3_eq_3)
qed

lemma next_char:
  assumes "\<forall>b \<in> set bs. b \<noteq> [] \<and> 10 \<notin> set b" "ys \<noteq> []" "10 \<notin> set ys"
  shows "\<exists>c rest. concat (map (\<lambda>b. b @ e) bs) @ ys @ zs = c # rest \<and> c \<noteq> 10"
proof (cases bs)
  case Nil
  then show ?thesis using assms(2,3) by (cases ys) auto
next
  case (Cons b bs')
  obtain c b' where "b = c # b'" using assms(1) Cons by (cases b) auto
  then show ?thesis using assms(1) Cons by auto
qed

lemma strip_lines:
  "\<forall>b \<in> set bs. b \<noteq> [] \<and> 10 \<notin> set b \<and> 0 \<notin> set b \<Longrightarrow> ys \<noteq> [] \<Longrightarrow> 10 \<notin> set ys \<Longrightarrow> 0 \<notin> set ys \<Longrightarrow>
   drop pos inp = concat (map (\<lambda>b. b @ [10]) bs) @ ys @ 0 # tail \<Longrightarrow> length pre = pos \<Longrightarrow> 0 \<notin> set pre \<Longrightarrow>
   s = length (concat (map (\<lambda>b. b @ [10]) bs)) + length ys \<Longrightarrow> s < 2 ^ 62 \<Longrightarrow> n = pos + s + 1 \<Longrightarrow> n < 2 ^ 63 \<Longrightarrow>
   strip_loop inp n pos s (pre @ replicate (s + 1) 0) = Some ((pre @ concat (map (\<lambda>b. b @ [32]) bs) @ ys) @ [0])"
proof (induction bs arbitrary: pos s pre)
  case Nil
  have f: "c_strchr (drop pos inp) 10 = Some None" using Nil.prems by (simp add: strchr_not_found)
  have "c_chars (ys @ 0 # tail) (length ys + 1) = Some (cstr (take (length ys + 1) (ys @ 0 # tail)))"
    by (rule c_chars_ok) simp
  then have c: "c_chars (ys @ 0 # tail) (length ys + 1) = Some ys" using Nil.prems(4) by (simp add: cstr_zero)
  have s: "s = length ys" using Nil.prems(8) by simp
  have "n - pos = length ys + 1" "pos \<le> n" using Nil.prems(10) s by auto
  then have sub: "sz_sub n pos = length ys + 1" using Nil.prems(11) by (subst sz_sub_le) auto
  have "c_strncat (pre @ replicate (length ys + 1) 0) (ys @ 0 # tail) (length ys + 1) =
      Some ((pre @ ys) @ replicate (length ys + 1 - length ys) 0)"
    by (rule strncat_zeros[OF Nil.prems(7,4) c]) simp
  moreover have "drop pos inp = ys @ 0 # tail" using Nil.prems(5) by simp
  ultimately show ?case using f sub unfolding s by (subst strip_loop.simps) simp
next
  case (Cons b bs)
  let ?rest = "concat (map (\<lambda>b. b @ [10]) bs) @ ys @ 0 # tail"
  have bs: "\<forall>b \<in> set bs. b \<noteq> [] \<and> 10 \<notin> set b" using Cons.prems(1) by simp
  obtain c rest where rest: "?rest = c # rest" "c \<noteq> 10"
    using next_char[OF bs Cons.prems(2,3), of "[10]" "0 # tail"] by blast
  have d: "drop pos inp = b @ 10 # c # rest" using Cons.prems(5) rest(1) by simp
  define s' where "s' = s - (length b + 1)"
  have s: "s = length b + 1 + s'" "s' = length (concat (map (\<lambda>b. b @ [10]) bs)) + length ys" "0 < s'"
    using Cons.prems(2,8) by (auto simp: s'_def)
  have b: "10 \<notin> set b" "0 \<notin> set b" using Cons.prems(1) by auto
  have step: "strip_loop inp n pos s (pre @ replicate (s + 1) 0) =
      strip_loop inp n (pos + length b + 1) s' ((pre @ b @ [32]) @ replicate (s' + 1) 0)"
    using strip_line[OF d b rest(2) Cons.prems(6,7), of "s + 1" s n] s Cons.prems(9) by simp
  have dr: "drop (pos + length b + 1) inp = ?rest"
    using arg_cong[OF d, of "drop (length b + 1)"] rest(1) by (simp add: ac_simps)
  have "strip_loop inp n (pos + length b + 1) s' ((pre @ b @ [32]) @ replicate (s' + 1) 0) =
      Some (((pre @ b @ [32]) @ concat (map (\<lambda>b. b @ [32]) bs) @ ys) @ [0])"
  proof (rule Cons.IH[OF _ Cons.prems(2,3,4)])
    show "length (pre @ b @ [32]) = pos + length b + 1" using Cons.prems(6) by simp
    show "0 \<notin> set (pre @ b @ [32])" using Cons.prems(7) b(2) by simp
    show "s' < 2 ^ 62" "n = pos + length b + 1 + s' + 1" "n < 2 ^ 63" using Cons.prems(9-11) s(1) by auto
    show "\<forall>b \<in> set bs. b \<noteq> [] \<and> 10 \<notin> set b \<and> 0 \<notin> set b" using Cons.prems(1) by simp
  qed (use s(2) dr in simp_all)
  then show ?case using step by simp
qed

lemma strip_paragraphs:
  "\<forall>b \<in> set bs. b \<noteq> [] \<and> 10 \<notin> set b \<and> 0 \<notin> set b \<Longrightarrow> 10 \<notin> set ys \<Longrightarrow> 0 \<notin> set ys \<Longrightarrow> ys \<noteq> [] \<Longrightarrow>
   drop pos inp = concat (map (\<lambda>b. b @ [10, 10]) bs) @ ys @ 10 # 0 # tail \<Longrightarrow> length pre = pos \<Longrightarrow> 0 \<notin> set pre \<Longrightarrow>
   l = length (concat (map (\<lambda>b. b @ [10, 10]) bs)) + length ys + 1 \<Longrightarrow> l < 2 ^ 62 \<Longrightarrow>
   lost + length bs \<le> length ys \<Longrightarrow> 2 \<le> lost + length bs \<Longrightarrow>
   strip_loop inp n pos (l - lost) (pre @ replicate (l + 1) 0) =
     Some ((pre @ concat (map (\<lambda>b. b @ [10, 10]) bs) @ take (length ys + 1 - (lost + length bs)) ys)
       @ replicate (lost + length bs + 1) 0)"
proof (induction bs arbitrary: pos l pre lost)
  case Nil
  have f: "c_strchr (drop pos inp) 10 = Some (Some (length ys))" using Nil.prems(2,3,5) by (simp add: strchr_found)
  have "c_chars (ys @ 10 # 0 # tail) (length ys + 1 - lost) = Some (take (length ys + 1 - lost) ys)"
    using Nil.prems(3,11) by (intro chars_prefix) auto
  then have "c_chars (drop pos inp) (length ys + 1 - lost) = Some (take (length ys + 1 - lost) ys)"
    using Nil.prems(5) by simp
  moreover have "0 \<notin> set (take (length ys + 1 - lost) ys)" using Nil.prems(3) by (auto dest: in_set_takeD)
  moreover have "length (take (length ys + 1 - lost) ys) = length ys + 1 - lost" "length ys + 1 - lost < l + 1"
    using Nil.prems(8,11) by auto
  ultimately have "c_strncat (pre @ replicate (l + 1) 0) (drop pos inp) (length ys + 1 - lost) =
      Some ((pre @ take (length ys + 1 - lost) ys) @ replicate (l + 1 - (length ys + 1 - lost)) 0)"
    using strncat_zeros[OF Nil.prems(7)] by metis
  moreover have "\<not> length ys \<le> l - lost" "l - lost = length ys + 1 - lost" "l + 1 - (length ys + 1 - lost) = lost + 1"
    using Nil.prems(8,10,11) by auto
  ultimately show ?case using f by (subst strip_loop.simps) (simp add: Let_def)
next
  case (Cons b bs)
  let ?rest = "concat (map (\<lambda>b. b @ [10, 10]) bs) @ ys @ 10 # 0 # tail"
  have bs: "\<forall>b \<in> set bs. b \<noteq> [] \<and> 10 \<notin> set b" using Cons.prems(1) by simp
  obtain c rest where rest: "?rest = c # rest" "c \<noteq> 10"
    using next_char[OF bs Cons.prems(4,2), of "[10, 10]" "10 # 0 # tail"] by blast
  have d: "drop pos inp = b @ 10 # 10 # c # rest" using Cons.prems(5) rest(1) by simp
  define l' where "l' = l - (length b + 2)"
  have l: "l = length b + 2 + l'" "l' = length (concat (map (\<lambda>b. b @ [10, 10]) bs)) + length ys + 1"
    using Cons.prems(8) by (auto simp: l'_def)
  have lost: "lost < l'" "Suc lost + length bs \<le> length ys" "2 \<le> Suc lost + length bs" using Cons.prems(10,11) l(2) by auto
  have b: "10 \<notin> set b" "0 \<notin> set b" using Cons.prems(1) by auto
  have m: "length b + 2 < l + 1" "length b + 3 \<le> l - lost" "l - lost < 2 ^ 62" using l lost(1) Cons.prems(9) by auto
  have "l - lost - (length b + 3) = l' - Suc lost" "l + 1 - (length b + 2) = l' + 1" using l(1) by auto
  then have step: "strip_loop inp n pos (l - lost) (pre @ replicate (l + 1) 0) =
      strip_loop inp n (pos + length b + 2) (l' - Suc lost) ((pre @ b @ [10, 10]) @ replicate (l' + 1) 0)"
    using strip_blank_line[OF d b rest(2) Cons.prems(6,7) m, of n] by simp
  have dr: "drop (pos + length b + 2) inp = ?rest"
    using arg_cong[OF d, of "drop (length b + 2)"] rest(1) by (simp add: ac_simps)
  have "strip_loop inp n (pos + length b + 2) (l' - Suc lost) ((pre @ b @ [10, 10]) @ replicate (l' + 1) 0) =
      Some (((pre @ b @ [10, 10]) @ concat (map (\<lambda>b. b @ [10, 10]) bs) @ take (length ys + 1 - (Suc lost + length bs)) ys)
        @ replicate (Suc lost + length bs + 1) 0)"
  proof (rule Cons.IH[OF _ Cons.prems(2,3,4)])
    show "length (pre @ b @ [10, 10]) = pos + length b + 2" using Cons.prems(6) by simp
    show "0 \<notin> set (pre @ b @ [10, 10])" using Cons.prems(7) b(2) by simp
    show "l' < 2 ^ 62" using Cons.prems(9) l(1) by simp
    show "\<forall>b \<in> set bs. b \<noteq> [] \<and> 10 \<notin> set b \<and> 0 \<notin> set b" using Cons.prems(1) by simp
  qed (use l(2) lost(2,3) dr in simp_all)
  then show ?case using step by simp
qed

section \<open>Properties\<close>

lemma StripNewline_joins:
  assumes "\<forall>b \<in> set bs. b \<noteq> [] \<and> 10 \<notin> set b \<and> 0 \<notin> set b" "ys \<noteq> []" "10 \<notin> set ys" "0 \<notin> set ys"
    "len = length (concat (map (\<lambda>b. b @ [10]) bs) @ ys)" "len < 2 ^ 62"
  shows "StripNewline (concat (map (\<lambda>b. b @ [10]) bs) @ ys @ [0]) (len + 1) (replicate (len + 1) 0) (len + 1) =
    Some ((concat (map (\<lambda>b. b @ [32]) bs) @ ys) @ [0])"
proof -
  have "sz_sub (len + 1) 1 = len" using assms(6) by (subst sz_sub_le) simp_all
  then show ?thesis
    using strip_lines[OF assms(1-4), of 0 "concat (map (\<lambda>b. b @ [10]) bs) @ ys @ [0]" "[]" "[]" len "len + 1"] assms(5,6)
    by (simp add: StripNewline_def)
qed

text \<open>a text of several paragraphs that ends with a newline loses its end. Every blank line takes one byte too
  many from the space that is left; when the last newline is no longer within it, the copy stops early:
  with \<open>k\<close> blank lines, \<open>k - 1\<close> characters of the last line are lost.\<close>

theorem StripNewline_truncates:
  assumes "\<forall>b \<in> set bs. b \<noteq> [] \<and> 10 \<notin> set b \<and> 0 \<notin> set b" "10 \<notin> set ys" "0 \<notin> set ys"
    "2 \<le> length bs" "length bs \<le> length ys" "len = length (concat (map (\<lambda>b. b @ [10, 10]) bs)) + length ys + 1" "len < 2 ^ 62"
  shows "\<exists>out. StripNewline (concat (map (\<lambda>b. b @ [10, 10]) bs) @ ys @ [10, 0]) (len + 1) (replicate (len + 1) 0) (len + 1) = Some out \<and>
    cstr out = concat (map (\<lambda>b. b @ [10, 10]) bs) @ take (length ys + 1 - length bs) ys"
proof -
  have "ys \<noteq> []" using assms(4,5) by auto
  have "sz_sub (len + 1) 1 = len - 0" using assms(7) by (subst sz_sub_le) simp_all
  moreover have "strip_loop (concat (map (\<lambda>b. b @ [10, 10]) bs) @ ys @ 10 # 0 # []) (len + 1) 0 (len - 0) ([] @ replicate (len + 1) 0) =
      Some (([] @ concat (map (\<lambda>b. b @ [10, 10]) bs) @ take (length ys + 1 - (0 + length bs)) ys) @ replicate (0 + length bs + 1) 0)"
    by (rule strip_paragraphs[OF assms(1-3) \<open>ys \<noteq> []\<close>]) (use assms(4-7) in simp_all)
  moreover have "0 \<notin> set (concat (map (\<lambda>b. b @ [10, 10]) bs) @ take (length ys + 1 - length bs) ys)"
    using assms(1,3) by (auto dest: in_set_takeD)
  ultimately show ?thesis
    by (simp add: StripNewline_def cstr_id cstr_zero del: replicate_Suc) (simp add: cstr_append terminated_def cstr_id)
qed

theorem StripNewline_truncates_witness:
  "\<exists>out. StripNewline (concat (map (\<lambda>b. b @ [10, 10]) [[97], [98], [99]]) @ [100, 101, 102] @ [10, 0]) (13 + 1) (replicate (13 + 1) 0) (13 + 1) = Some out \<and>
    cstr out = concat (map (\<lambda>b. b @ [10, 10]) [[97], [98], [99]]) @ take (length [100, 101, 102 :: byte] + 1 - length [[97], [98], [99 :: byte]]) [100, 101, 102]"
  by (rule StripNewline_truncates) simp_all

end
