(* ===== verification/Reflow.thy ===== *)
theory Reflow
  imports TextUtil BitUtils
begin

text \<open>
  textutil.c, second part: the reflow of a text to a line width. The break points of a paragraph are a
  shortest path: \<open>minima ! j\<close> is the least cost of laying out the first \<open>j\<close> words, \<open>breaks ! j\<close> the start of
  the last line of such a layout. \<open>int\<close> arithmetic that leaves 32 bits is undefined (\<open>None\<close>), and so is
  every access outside a block. Following the breaks and printing the lines get fuel.
\<close>

section \<open>Outcomes\<close>

definition of_option :: "'a option \<Rightarrow> 'a outcome" where
  "of_option r = (case r of None \<Rightarrow> Faults | Some x \<Rightarrow> Returns x)"

definition and_then :: "'a outcome \<Rightarrow> ('a \<Rightarrow> 'b outcome) \<Rightarrow> 'b outcome" where
  "and_then r f = (case r of Returns x \<Rightarrow> f x | Faults \<Rightarrow> Faults | Running \<Rightarrow> Running)"

lemma of_option_simps [simp]: "of_option None = Faults" "of_option (Some x) = Returns x"
  by (simp_all add: of_option_def)

lemma and_then_simps [simp]: "and_then (Returns x) f = f x" "and_then Faults f = Faults" "and_then Running f = Running"
  by (simp_all add: and_then_def)

section \<open>The break points\<close>

definition int32 :: "int \<Rightarrow> int option" where
  "int32 i = (if - (2 ^ 31) \<le> i \<and> i < 2 ^ 31 then Some i else None)"

text \<open>The cost tables and the width since the last hyphen.\<close>

record reflow_tables =
  minima :: "int list"
  breaks :: "int list"
  wsincelasthyphen :: int

text \<open>\<open>memset\<close> of the cells behind the first with \<open>0x7F\<close>.\<close>

definition reflow_INF :: int where
  "reflow_INF = 0x7F7F7F7F"

definition line_width :: "int list \<Rightarrow> nat \<Rightarrow> int \<Rightarrow> nat \<Rightarrow> nat \<Rightarrow> int option" where
  "line_width offsets cnt width i j =
     (if j < cnt then do {
        oj \<leftarrow> rd offsets j;
        oi \<leftarrow> rd offsets i;
        int32 (oj - oi + int j - int i - 1)
      } else Some width)"

definition improve_break :: "int \<Rightarrow> nat \<Rightarrow> nat \<Rightarrow> bool \<Rightarrow> int \<Rightarrow> reflow_tables \<Rightarrow> reflow_tables option" where
  "improve_break width i j thishyphenpoint w T = do {
     let k = width - w;
     mi \<leftarrow> rd (minima T) i;
     kk \<leftarrow> int32 (k * k);
     cost \<leftarrow> int32 (mi + kk);
     mj \<leftarrow> rd (minima T) j;
     if cost < mj \<and> (\<not> thishyphenpoint \<or> thishyphenpoint \<and> wsincelasthyphen T > 2 * width) then do {
       ws \<leftarrow> (if thishyphenpoint then Some 0 else int32 (wsincelasthyphen T + width));
       m \<leftarrow> wr (minima T) j cost;
       b \<leftarrow> wr (breaks T) j (int i);
       Some (T\<lparr>wsincelasthyphen := ws, minima := m, breaks := b\<rparr>)
     } else Some T
   }"

function inner_loop ::
    "reflow_word list \<Rightarrow> int list \<Rightarrow> nat \<Rightarrow> int \<Rightarrow> nat \<Rightarrow> nat \<Rightarrow> reflow_tables \<Rightarrow> reflow_tables option" where
  "inner_loop strings offsets cnt width i j T =
     (if j \<le> cnt then do {
        word \<leftarrow> rd strings j;
        w \<leftarrow> line_width offsets cnt width i j;
        if w > width then Some T
        else do {
          T \<leftarrow> improve_break width i j (bHyphenPoint word) w T;
          inner_loop strings offsets cnt width i (j + 1) T
        }
      } else Some T)"
  by pat_completeness auto
termination by (relation "measure (\<lambda>(s, offs, cnt, w, i, j, T). Suc cnt - j)") auto

declare inner_loop.simps [simp del]

function outer_loop ::
    "reflow_word list \<Rightarrow> int list \<Rightarrow> nat \<Rightarrow> int \<Rightarrow> nat \<Rightarrow> reflow_tables \<Rightarrow> reflow_tables option" where
  "outer_loop strings offsets cnt width i T =
     (if i \<le> cnt then do {
        T \<leftarrow> inner_loop strings offsets cnt width i (i + 1) T;
        outer_loop strings offsets cnt width (i + 1) T
      } else Some T)"
  by pat_completeness auto
termination by (relation "measure (\<lambda>(s, offs, cnt, w, i, T). Suc cnt - i)") auto

declare outer_loop.simps [simp del]

definition start_tables :: "nat \<Rightarrow> reflow_tables" where
  "start_tables cnt = \<lparr>minima = 0 # replicate cnt reflow_INF, breaks = replicate (Suc cnt) 0, wsincelasthyphen = 0\<rparr>"

text \<open>The offsets: the widths of the words summed up. An escaped word has no width.\<close>

fun word_offsets :: "text_mem \<Rightarrow> nat \<Rightarrow> reflow_word list \<Rightarrow> reflow_intstack \<Rightarrow> reflow_intstack outcome" where
  "word_offsets W fuel [] st = Returns st"
| "word_offsets W fuel (w # ws) st =
     and_then (of_option (reflow_intstack_peek st)) (\<lambda>top.
     and_then (if bEscaped w \<noteq> 0 then Returns 0 else utf8strnlen fuel (cells (cdata (rw_string w))) (clength (rw_string w)))
       (\<lambda>n. and_then (of_option (reflow_intstack_push W st (int32_of (top + int n))))
       (word_offsets W fuel ws)))"

section \<open>Printing the lines\<close>

text \<open>The break points from the end back to the start; \<open>j > 0\<close>.\<close>

fun reverse_breaks :: "text_mem \<Rightarrow> nat \<Rightarrow> int list \<Rightarrow> int \<Rightarrow> reflow_intstack \<Rightarrow> reflow_intstack outcome" where
  "reverse_breaks W 0 brk j st = Running"
| "reverse_breaks W (Suc fuel) brk j st =
     (if j > 0 then
        and_then (of_option (rd brk (nat j))) (\<lambda>i.
        and_then (of_option (reflow_intstack_push W st i)) (\<lambda>st.
          if j = i then Returns st else reverse_breaks W fuel brk i st))
      else Returns st)"

text \<open>What is printed before and after an escaped word.\<close>

definition escaped_text :: "nat \<Rightarrow> bool \<Rightarrow> byte list \<Rightarrow> byte list" where
  "escaped_text flag bFirst s =
     (if flag AND 2 \<noteq> 0 \<and> \<not> bFirst then [32] else []) @ s @ (if flag AND 4 \<noteq> 0 then [32] else [])"

definition emit_word ::
    "text_mem \<Rightarrow> nat \<Rightarrow> nat \<Rightarrow> reflow_word list \<times> cv_t \<times> cv_t \<Rightarrow> (reflow_word list \<times> cv_t \<times> cv_t) option" where
  "emit_word W i idx st =
     (case st of (strings, wordbuf, output) \<Rightarrow> do {
        pword \<leftarrow> rd strings idx;
        (str, wordbuf) \<leftarrow>
          (if bHyphenPoint pword then Some (rw_string pword, wordbuf)
           else if bEscaped pword \<noteq> 0 then do {
             k \<leftarrow> c_strlen (cells (cdata (rw_string pword)));
             wordbuf \<leftarrow> cv_sprintf (tm_bytes W) wordbuf
               (escaped_text (bEscaped pword) (i = idx) (take k (cells (cdata (rw_string pword)))));
             Some (prod.swap (cv_swap wordbuf (rw_string pword)))
           }
           else do {
             after \<leftarrow> rd strings (idx + 1);
             str \<leftarrow> (if bEscaped after = 0 then cv_strncat (tm_bytes W) (rw_string pword) [32, 0] 2 else Some (rw_string pword));
             Some (str, wordbuf)
           });
        output \<leftarrow> cv_strncat (tm_bytes W) output (cells (cdata str)) (clength str);
        Some (strings[idx := pword\<lparr>rw_string := str\<rparr>], wordbuf, output)
      })"

function emit_words ::
    "text_mem \<Rightarrow> nat \<Rightarrow> nat \<Rightarrow> nat \<Rightarrow> reflow_word list \<times> cv_t \<times> cv_t \<Rightarrow> (reflow_word list \<times> cv_t \<times> cv_t) option" where
  "emit_words W i idx j st =
     (if idx < j then do {
        st \<leftarrow> emit_word W i idx st;
        emit_words W i (idx + 1) j st
      } else Some st)"
  by pat_completeness auto
termination by (relation "measure (\<lambda>(W, i, idx, j, st). j - idx)") auto

declare emit_words.simps [simp del]

text \<open>One line: the words from \<open>i\<close> to \<open>j\<close>, a hyphen if the last one is the first half of a word, and the newline.\<close>

definition print_line ::
    "text_mem \<Rightarrow> nat \<Rightarrow> nat \<Rightarrow> nat \<Rightarrow> reflow_word list \<times> cv_t \<times> cv_t \<Rightarrow> (reflow_word list \<times> cv_t \<times> cv_t) option" where
  "print_line W cnt i j st = do {
     (strings, wordbuf, output) \<leftarrow> emit_words W i i j st;
     let idx = max i j;
     hyphen \<leftarrow> (if sz_sub idx 1 < cnt then map_option bHyphenPoint (rd strings (sz_sub idx 1)) else Some False);
     output \<leftarrow> (if hyphen then cv_strncat (tm_bytes W) output [45, 0] 2 else Some output);
     output \<leftarrow> cv_strncat (tm_bytes W) output [10, 0] 2;
     Some (strings, wordbuf, output)
   }"

fun print_lines ::
    "text_mem \<Rightarrow> nat \<Rightarrow> nat \<Rightarrow> int \<Rightarrow> reflow_intstack \<Rightarrow> reflow_word list \<times> cv_t \<times> cv_t
     \<Rightarrow> (reflow_word list \<times> cv_t \<times> cv_t) outcome" where
  "print_lines W 0 cnt i revbreak st = Running"
| "print_lines W (Suc fuel) cnt i revbreak st =
     and_then (of_option (reflow_intstack_pop revbreak)) (\<lambda>(j, revbreak).
     and_then (of_option (print_line W cnt (sz_of_int i) (sz_of_int j) st)) (\<lambda>st.
       if j \<noteq> 0 then print_lines W fuel cnt j revbreak st else Returns st))"

definition PerformReflow ::
    "text_mem \<Rightarrow> nat \<Rightarrow> reflow_strarray \<Rightarrow> int list \<Rightarrow> cv_t \<Rightarrow> (reflow_strarray \<times> cv_t) outcome" where
  "PerformReflow W fuel words brk output =
     (let cnt = sa_length words in
      and_then (of_option (reflow_intstack_push W (reflow_intstack_create W cnt) (to_int32 cnt))) (\<lambda>st.
      and_then (reverse_breaks W fuel brk (to_int32 cnt) st) (\<lambda>st.
      and_then (of_option (reflow_intstack_pop st)) (\<lambda>(i, st).
      and_then (of_option (cv_init (tm_bytes W) 64)) (\<lambda>(_, wordbuf).
      and_then (print_lines W fuel cnt i st (cells (sa_strings words), wordbuf, output)) (\<lambda>(strings, wordbuf, output).
        Returns (words\<lparr>sa_strings := Some strings\<rparr>, output)))))))"

section \<open>Paragraphs\<close>

text \<open>A text that fits on one line is copied, and a newline is put behind its last character that is no space.\<close>

definition short_paragraph :: "text_mem \<Rightarrow> byte list \<Rightarrow> nat \<Rightarrow> cv_t \<Rightarrow> cv_t option" where
  "short_paragraph W text len output = do {
     output \<leftarrow> cv_strncat (tm_bytes W) output text len;
     n \<leftarrow> c_strnlen (cells (cdata output)) (clength output);
     p \<leftarrow> lastnonspace64 (cells (cdata output)) n;
     (case p of
        None \<Rightarrow> Some output
      | Some p \<Rightarrow>
          if p + 1 < clength output then do {
            d \<leftarrow> wr (cells (cdata output)) (p + 1) 10;
            Some (output\<lparr>cdata := Some d\<rparr>)
          } else Some output)
   }"

definition indent_first_word :: "text_mem \<Rightarrow> nat \<Rightarrow> reflow_strarray \<Rightarrow> reflow_strarray option" where
  "indent_first_word W bIndentFirstWord words =
     (if bIndentFirstWord \<noteq> 0 then do {
        w \<leftarrow> rd (cells (sa_strings words)) 0;
        (_, spaced) \<leftarrow> cv_init (tm_bytes W) (sz (clength (rw_string w) + 2));
        k \<leftarrow> c_strlen (cells (cdata (rw_string w)));
        spaced \<leftarrow> cv_sprintf (tm_bytes W) spaced
          (replicate bIndentFirstWord 32 @ take k (cells (cdata (rw_string w))));
        Some (words\<lparr>sa_strings := Some ((cells (sa_strings words))[0 := w\<lparr>rw_string := spaced\<rparr>])\<rparr>)
      } else Some words)"

definition find_breaks :: "text_mem \<Rightarrow> nat \<Rightarrow> int \<Rightarrow> reflow_strarray \<Rightarrow> reflow_tables outcome" where
  "find_breaks W fuel width words =
     (let cnt = sa_length words in
      and_then (of_option (reflow_intstack_push W (reflow_intstack_create W (cnt + 1)) 0)) (\<lambda>st.
      and_then (word_offsets W fuel (take cnt (cells (sa_strings words))) st) (\<lambda>st.
      and_then (of_option (malloc_cells (tm_ints W) sizeof_int (sz (sizeof_int * (cnt + 1))))) (\<lambda>_.
        of_option (outer_loop (cells (sa_strings words)) (cells (is_data st)) cnt width 0 (start_tables cnt))))))"

definition ReflowParagraph ::
    "text_mem \<Rightarrow> nat \<Rightarrow> byte list \<Rightarrow> nat \<Rightarrow> nat \<Rightarrow> int \<Rightarrow> cv_t \<Rightarrow> nat \<Rightarrow> bool \<Rightarrow> cv_t outcome" where
  "ReflowParagraph W fuel mem start len width output bIndentFirstWord bAllowHyphenation =
     (if len \<le> sz_of_int width then of_option (short_paragraph W (drop start mem) len output)
      else
        and_then (of_option (reflow_strarray_create W 64)) (\<lambda>words.
        and_then (of_option (TokenizeString W mem start len words bAllowHyphenation)) (\<lambda>words.
        and_then (of_option (indent_first_word W bIndentFirstWord words)) (\<lambda>words.
        and_then (find_breaks W fuel width words) (\<lambda>T.
        and_then (PerformReflow W fuel words (breaks T) output) (\<lambda>(words, output).
        and_then (of_option (reflow_strarray_destroy words)) (\<lambda>_. Returns output)))))))"

record ReflowParameters =
  num_indent_spaces :: nat
  rp_line_width :: int
  bAllowHyphenation :: bool

function paragraph_loop ::
    "text_mem \<Rightarrow> nat \<Rightarrow> byte list \<Rightarrow> nat \<Rightarrow> reflow_intstack \<Rightarrow> nat \<Rightarrow> int \<Rightarrow> nat \<Rightarrow> bool \<Rightarrow> cv_t \<Rightarrow> cv_t \<Rightarrow> cv_t outcome" where
  "paragraph_loop W fuel stripped len bounds idx width indent hyphenate buffer output =
     (if idx < is_length bounds then
        and_then (of_option (rd (cells (is_data bounds)) idx)) (\<lambda>start.
        and_then (of_option (if idx + 1 < is_length bounds then rd (cells (is_data bounds)) (idx + 1) else Some (to_int32 len))) (\<lambda>stop.
        and_then (of_option (cv_clear buffer)) (\<lambda>buffer.
        and_then (ReflowParagraph W fuel stripped (nat start) (sz_of_int (stop - start + 1)) width buffer indent hyphenate) (\<lambda>buffer.
        and_then (of_option (cv_strncat (tm_bytes W) output (cells (cdata buffer)) (clength buffer))) (\<lambda>output.
          paragraph_loop W fuel stripped len bounds (idx + 2) width indent hyphenate buffer output)))))
      else Returns output)"
  by pat_completeness auto
termination
  by (relation "measure (\<lambda>(W, fuel, s, len, bounds, idx, width, indent, h, buffer, output). is_length bounds - idx)") auto

declare paragraph_loop.simps [simp del]

definition ReflowTextImpl ::
    "text_mem \<Rightarrow> nat \<Rightarrow> byte list \<Rightarrow> nat \<Rightarrow> cv_t \<Rightarrow> int \<Rightarrow> nat \<Rightarrow> bool \<Rightarrow> cv_t outcome" where
  "ReflowTextImpl W fuel inp len output width num_indent hyphenate =
     and_then (of_option (do {
        strippedbuf \<leftarrow> malloc_cells (tm_bytes W) 1 (sz (len + 1));
        strippedbuf \<leftarrow> fill_cells strippedbuf 0 (sz (len + 1)) 0;
        stripped \<leftarrow> StripNewline inp (len + 1) strippedbuf (len + 1);
        (_, buffer) \<leftarrow> cv_init (tm_bytes W) len;
        bounds \<leftarrow> FindParagraphs W stripped len (reflow_intstack_create W 8);
        Some (stripped, buffer, bounds)
      })) (\<lambda>(stripped, buffer, bounds).
        paragraph_loop W fuel stripped len bounds 0 width num_indent hyphenate buffer output)"

definition ReflowText ::
    "text_mem \<Rightarrow> nat \<Rightarrow> byte list \<Rightarrow> nat \<Rightarrow> cv_t \<Rightarrow> ReflowParameters \<Rightarrow> cv_t outcome" where
  "ReflowText W fuel inp len output parameters =
     ReflowTextImpl W fuel inp len output (rp_line_width parameters) (num_indent_spaces parameters)
       (bAllowHyphenation parameters)"

section \<open>Layouts of a paragraph\<close>

text \<open>
  A paragraph is the list of its words' widths. A layout cuts it into lines. Every line but the last has to
  fit; the last one has to fit without its last word (a longer last line is what the code accepts). The
  badness is the sum of the squares of the space left on all lines but the last.
\<close>

definition linew :: "nat list \<Rightarrow> int" where
  "linew l = int (sum_list l) + int (length l) - 1"

definition slack :: "int \<Rightarrow> nat list \<Rightarrow> int" where
  "slack width l = (width - linew l) * (width - linew l)"

definition layout :: "int \<Rightarrow> nat list \<Rightarrow> nat list list \<Rightarrow> bool" where
  "layout width ws ls \<longleftrightarrow> concat ls = ws \<and> ls \<noteq> [] \<and> [] \<notin> set ls \<and> (\<forall>l \<in> set (butlast ls). linew l \<le> width) \<and>
     (length (last ls) = 1 \<or> linew (butlast (last ls)) \<le> width)"

definition badness :: "int \<Rightarrow> nat list list \<Rightarrow> int" where
  "badness width ls = sum_list (map (slack width) (butlast ls))"

text \<open>The graph the loops search: the words from \<open>i\<close> to \<open>j\<close> on one line.\<close>

definition seg :: "'a list \<Rightarrow> nat \<Rightarrow> nat \<Rightarrow> 'a list" where
  "seg ws i j = drop i (take j ws)"

definition edge_ok :: "nat list \<Rightarrow> int \<Rightarrow> nat \<Rightarrow> nat \<Rightarrow> bool" where
  "edge_ok ws width i j \<longleftrightarrow> i < j \<and> j \<le> length ws \<and>
     (if j < length ws then linew (seg ws i j) \<le> width
      else i + 1 = length ws \<or> linew (seg ws i (length ws - 1)) \<le> width)"

definition edge_cost :: "nat list \<Rightarrow> int \<Rightarrow> nat \<Rightarrow> nat \<Rightarrow> int" where
  "edge_cost ws width i j = (if j < length ws then slack width (seg ws i j) else 0)"

lemma length_seg: "j \<le> length ws \<Longrightarrow> length (seg ws i j) = j - i"
  by (simp add: seg_def)

lemma seg_split:
  assumes "i \<le> j" "j \<le> k"
  shows "seg ws i k = seg ws i j @ seg ws j k"
proof -
  have "take k ws = take j ws @ drop j (take k ws)"
    using append_take_drop_id[of j "take k ws"] assms by (simp add: min_def)
  then have "drop i (take k ws) = drop i (take j ws) @ drop (i - length (take j ws)) (drop j (take k ws))"
    by (metis drop_append)
  moreover have "drop (i - length (take j ws)) (drop j (take k ws)) = drop j (take k ws)"
    using assms by (cases "j \<le> length ws") auto
  ultimately show ?thesis by (simp add: seg_def)
qed

lemma linew_seg: "i < j \<Longrightarrow> j \<le> length ws \<Longrightarrow>
  linew (seg ws i j) = int (sum_list (take j ws)) - int (sum_list (take i ws)) + int j - int i - 1"
proof -
  assume ij: "i < j" "j \<le> length ws"
  have "take j ws = take i ws @ seg ws i j"
    using ij by (simp add: seg_def) (metis append_take_drop_id less_imp_le_nat min.absorb2 min.commute take_take)
  then have "sum_list (take j ws) = sum_list (take i ws) + sum_list (seg ws i j)" by simp
  then show ?thesis using ij by (simp add: linew_def length_seg of_nat_diff)
qed

lemma linew_nonneg: "l \<noteq> [] \<Longrightarrow> 0 \<le> linew l"
  by (cases l) (simp_all add: linew_def)

lemma linew_seg_mono: "i < j \<Longrightarrow> j \<le> k \<Longrightarrow> k \<le> length ws \<Longrightarrow> linew (seg ws i j) \<le> linew (seg ws i k)"
  using seg_split[of i j k ws] by (simp add: linew_def length_seg)

lemma wide_no_edge: "i < j \<Longrightarrow> j < length ws \<Longrightarrow> \<not> linew (seg ws i j) \<le> width \<Longrightarrow> j \<le> k \<Longrightarrow> \<not> edge_ok ws width i k"
proof -
  assume a: "i < j" "j < length ws" "\<not> linew (seg ws i j) \<le> width" "j \<le> k"
  then have "j \<le> length ws - 1" by simp
  then have "\<not> linew (seg ws i (length ws - 1)) \<le> width" "i + 1 \<noteq> length ws"
    using linew_seg_mono[of i j "length ws - 1" ws] a by auto
  then show ?thesis using linew_seg_mono[of i j k ws] a by (auto simp: edge_ok_def)
qed

lemma edge_cost_bounds:
  assumes "edge_ok ws width i j"
  shows "0 \<le> edge_cost ws width i j \<and> edge_cost ws width i j \<le> width * width"
proof -
  have "0 \<le> width - linew (seg ws i j) \<and> width - linew (seg ws i j) \<le> width" if "j < length ws"
  proof -
    have "seg ws i j \<noteq> []" using assms that by (auto simp: edge_ok_def seg_def)
    then show ?thesis using assms that linew_nonneg[of "seg ws i j"] by (simp add: edge_ok_def)
  qed
  moreover have "0 \<le> width * width" by simp
  ultimately show ?thesis by (auto simp: edge_cost_def slack_def intro: mult_mono)
qed

text \<open>What the tables say once the edges in \<open>P\<close> are processed.\<close>

definition solved_for :: "(nat \<Rightarrow> nat \<Rightarrow> bool) \<Rightarrow> nat list \<Rightarrow> int \<Rightarrow> reflow_tables \<Rightarrow> bool" where
  "solved_for P ws width T \<longleftrightarrow>
     length (minima T) = length ws + 1 \<and> length (breaks T) = length ws + 1 \<and> minima T ! 0 = 0 \<and>
     (\<forall>j \<le> length ws. 0 \<le> minima T ! j \<and> minima T ! j \<le> reflow_INF) \<and>
     (\<forall>j \<le> length ws. 0 < j \<longrightarrow> minima T ! j < reflow_INF \<longrightarrow>
        (\<exists>p. P p j \<and> edge_ok ws width p j \<and> breaks T ! j = int p \<and> minima T ! p < reflow_INF \<and>
           minima T ! j = minima T ! p + edge_cost ws width p j)) \<and>
     (\<forall>p j. P p j \<longrightarrow> edge_ok ws width p j \<longrightarrow> minima T ! p < reflow_INF \<longrightarrow>
        minima T ! j \<le> minima T ! p + edge_cost ws width p j)"

lemma solved_for_more:
  assumes "solved_for P ws width T" "\<And>p j. P p j \<Longrightarrow> Q p j" "\<And>p j. Q p j \<Longrightarrow> edge_ok ws width p j \<Longrightarrow> P p j"
  shows "solved_for Q ws width T"
  using assms unfolding solved_for_def by blast

lemma improve_break_ok:
  assumes T: "solved_for P ws width T" and e: "edge_ok ws width i j" and P: "\<And>p k. P p k \<Longrightarrow> p \<le> i"
    and w: "w = (if j < length ws then linew (seg ws i j) else width)"
    and width: "0 \<le> width" "width * width \<le> 0x808080"
    and hy: "0 \<le> wsincelasthyphen T" "wsincelasthyphen T \<le> int c * width" "(int c + 1) * width < 2 ^ 31"
  shows "\<exists>T'. improve_break width i j False w T = Some T' \<and>
    solved_for (\<lambda>p k. P p k \<or> p = i \<and> k = j) ws width T' \<and>
    0 \<le> wsincelasthyphen T' \<and> wsincelasthyphen T' \<le> (int c + 1) * width"
proof -
  let ?n = "length ws" and ?c = "edge_cost ws width i j"
  have ij: "i < j" "j \<le> ?n" using e by (auto simp: edge_ok_def)
  have len: "length (minima T) = ?n + 1" "length (breaks T) = ?n + 1" using T by (auto simp: solved_for_def)
  have mi: "0 \<le> minima T ! i" "minima T ! i \<le> reflow_INF" and mj: "0 \<le> minima T ! j" "minima T ! j \<le> reflow_INF"
    using T ij by (auto simp: solved_for_def)
  have kk: "(width - w) * (width - w) = ?c" using w by (simp add: edge_cost_def slack_def)
  have cb: "0 \<le> ?c" "?c \<le> 0x808080" using edge_cost_bounds[OF e] width(2) by auto
  have i32: "int32 ?c = Some ?c" "int32 (minima T ! i + ?c) = Some (minima T ! i + ?c)"
    using cb mi by (auto simp: int32_def reflow_INF_def)
  have hy1: "wsincelasthyphen T + width \<le> (int c + 1) * width" using hy(2) by (simp add: distrib_right)
  then have i32h: "int32 (wsincelasthyphen T + width) = Some (wsincelasthyphen T + width)"
    using hy width(1) by (auto simp: int32_def)
  have rdm: "rd (minima T) i = Some (minima T ! i)" "rd (minima T) j = Some (minima T ! j)"
    using ij len by (simp_all add: rd_in)
  show ?thesis
  proof (cases "minima T ! i + ?c < minima T ! j")
    case False
    then have "improve_break width i j False w T = Some T"
      by (simp add: improve_break_def rdm kk i32)
    moreover have "solved_for (\<lambda>p k. P p k \<or> p = i \<and> k = j) ws width T"
      using T False unfolding solved_for_def by (metis not_less)
    ultimately show ?thesis using hy(1,2) width(1) hy1 by auto
  next
    case True
    define T' where "T' = T\<lparr>wsincelasthyphen := wsincelasthyphen T + width,
      minima := (minima T)[j := minima T ! i + ?c], breaks := (breaks T)[j := int i]\<rparr>"
    have imp: "improve_break width i j False w T = Some T'"
      using True ij len by (simp add: improve_break_def rdm kk i32 i32h T'_def wr_in)
    have low: "minima T ! i < reflow_INF" using True mj cb by linarith
    have m': "minima T' ! k = (if k = j then minima T ! i + ?c else minima T ! k)" if "k \<le> ?n" for k
      using that ij len by (simp add: T'_def nth_list_update)
    have b': "breaks T' ! k = (if k = j then int i else breaks T ! k)" if "k \<le> ?n" for k
      using that ij len by (simp add: T'_def nth_list_update)
    have keep: "p \<noteq> j" if "P p k" for p k using P[OF that] ij by auto
    have en: "p \<le> ?n \<and> k \<le> ?n" if "edge_ok ws width p k" for p k using that by (auto simp: edge_ok_def)
    have A: "\<exists>p. (P p k \<or> p = i \<and> k = j) \<and> edge_ok ws width p k \<and> breaks T' ! k = int p \<and> minima T' ! p < reflow_INF \<and>
        minima T' ! k = minima T' ! p + edge_cost ws width p k"
      if k: "k \<le> ?n" "0 < k" "minima T' ! k < reflow_INF" for k
    proof (cases "k = j")
      case True
      then show ?thesis using e low ij k m' b' by (intro exI[of _ i]) auto
    next
      case False
      then have "minima T ! k < reflow_INF" using k m' by simp
      then obtain p where p: "P p k" "edge_ok ws width p k" "breaks T ! k = int p" "minima T ! p < reflow_INF"
          "minima T ! k = minima T ! p + edge_cost ws width p k"
        using T k(1,2) unfolding solved_for_def by blast
      then show ?thesis using False k m' b' keep[OF p(1)] en[OF p(2)] by (intro exI[of _ p]) auto
    qed
    have B: "minima T' ! k \<le> minima T' ! p + edge_cost ws width p k"
      if "P p k \<or> p = i \<and> k = j" "edge_ok ws width p k" "minima T' ! p < reflow_INF" for p k
    proof (cases "p = i \<and> k = j")
      case True
      then show ?thesis using m' ij by simp
    next
      case False
      then have pk: "P p k" using that(1) by blast
      then have "minima T ! k \<le> minima T ! p + edge_cost ws width p k"
        using T that(2,3) m' keep[OF pk] en[OF that(2)] unfolding solved_for_def by (metis)
      then show ?thesis using m' keep[OF pk] en[OF that(2)] \<open>minima T ! i + ?c < minima T ! j\<close> by auto
    qed
    have "solved_for (\<lambda>p k. P p k \<or> p = i \<and> k = j) ws width T'"
      unfolding solved_for_def
    proof (intro conjI allI impI)
      show "length (minima T') = ?n + 1" "length (breaks T') = ?n + 1" using len by (simp_all add: T'_def)
      show "minima T' ! 0 = 0" using m'[of 0] ij T by (simp add: solved_for_def)
      show "0 \<le> minima T' ! k" "minima T' ! k \<le> reflow_INF" if "k \<le> ?n" for k
        using m'[OF that] T that mi cb low True mj by (auto simp: solved_for_def)
    qed (use A B in auto)
    then show ?thesis using imp hy(1) width(1) hy1 by (auto simp: T'_def)
  qed
qed

section \<open>The loops find the best layout\<close>

definition offsets_of :: "nat list \<Rightarrow> int list \<Rightarrow> bool" where
  "offsets_of ws offs \<longleftrightarrow> length ws < length offs \<and> sum_list ws + length ws < 2 ^ 31 \<and>
     (\<forall>k \<le> length ws. offs ! k = int (sum_list (take k ws)))"

lemma line_width_ok:
  assumes "offsets_of ws offs" "i < j" "j \<le> length ws"
  shows "line_width offs (length ws) width i j = Some (if j < length ws then linew (seg ws i j) else width)"
proof (cases "j < length ws")
  case True
  have sums: "sum_list (take i ws) \<le> sum_list ws" "sum_list (take j ws) \<le> sum_list ws"
    by (metis append_take_drop_id le_add1 sum_list_append)+
  have "rd offs i = Some (int (sum_list (take i ws)))" "rd offs j = Some (int (sum_list (take j ws)))"
    using assms by (auto simp: offsets_of_def rd_def)
  moreover have "int32 (linew (seg ws i j)) = Some (linew (seg ws i j))"
    using linew_seg[OF assms(2,3)] linew_nonneg[of "seg ws i j"] sums assms
    by (auto simp: int32_def offsets_of_def seg_def)
  ultimately show ?thesis
    using True linew_seg[OF assms(2,3)] by (simp add: line_width_def)
qed (simp add: line_width_def)

definition plain_words :: "reflow_word list \<Rightarrow> nat \<Rightarrow> bool" where
  "plain_words strings n \<longleftrightarrow> n < length strings \<and> (\<forall>k \<le> n. \<not> bHyphenPoint (strings ! k))"

lemma inner_loop_ok:
  assumes offs: "offsets_of ws offs" and pw: "plain_words strings (length ws)"
    and width: "0 \<le> width" "width * width \<le> 0x808080" and i: "i < j"
  shows "solved_for (\<lambda>p k. p < i \<or> p = i \<and> k < j) ws width T \<Longrightarrow> 0 \<le> wsincelasthyphen T \<Longrightarrow>
    wsincelasthyphen T \<le> int c * width \<Longrightarrow> int (c + (length ws + 1 - j)) * width < 2 ^ 31 \<Longrightarrow>
    i + 1 = j \<or> linew (seg ws i (j - 1)) \<le> width \<Longrightarrow>
    \<exists>T'. inner_loop strings offs (length ws) width i j T = Some T' \<and> solved_for (\<lambda>p k. p \<le> i) ws width T' \<and>
      0 \<le> wsincelasthyphen T' \<and> wsincelasthyphen T' \<le> int (c + (length ws + 1 - j)) * width"
  using i
proof (induction "length ws + 1 - j" arbitrary: j T c rule: less_induct)
  case less
  let ?n = "length ws"
  have mono: "int c * width \<le> int (c + (?n + 1 - j)) * width" using width(1) by (intro mult_right_mono) auto
  show ?case
  proof (cases "j \<le> ?n")
    case False
    have "solved_for (\<lambda>p k. p \<le> i) ws width T"
      using less.prems(1) by (rule solved_for_more) (use False in \<open>auto simp: edge_ok_def\<close>)
    then show ?thesis using False less.prems mono by (subst inner_loop.simps) auto
  next
    case True
    define w where "w = (if j < ?n then linew (seg ws i j) else width)"
    have lw: "line_width offs ?n width i j = Some w" using line_width_ok[OF offs less.prems(6) True] by (simp add: w_def)
    have rw: "rd strings j = Some (strings ! j)" "\<not> bHyphenPoint (strings ! j)"
      using pw True by (auto simp: plain_words_def rd_def)
    show ?thesis
    proof (cases "w > width")
      case wide: True
      then have j: "j < ?n" "\<not> linew (seg ws i j) \<le> width" by (auto simp: w_def split: if_splits)
      have "solved_for (\<lambda>p k. p \<le> i) ws width T"
      proof (rule solved_for_more[OF less.prems(1)])
        fix p k assume "p \<le> i" "edge_ok ws width p k"
        then show "p < i \<or> p = i \<and> k < j" using wide_no_edge[OF less.prems(6) j, of k] by (cases "p = i"; cases "j \<le> k") auto
      qed auto
      then show ?thesis using True wide lw rw less.prems mono by (subst inner_loop.simps) auto
    next
      case fit: False
      note step = improve_break_ok[OF less.prems(1) _ _ w_def width less.prems(2,3)]
      have bound: "(int c + 1) * width < 2 ^ 31"
      proof -
        have "(int c + 1) * width \<le> int (c + (?n + 1 - j)) * width" using True width(1) by (intro mult_right_mono) auto
        then show ?thesis using less.prems(4) by linarith
      qed
      have split: "solved_for (\<lambda>p k. p < i \<or> p = i \<and> k < j + 1) ws width T'"
        if "solved_for (\<lambda>p k. (p < i \<or> p = i \<and> k < j) \<or> p = i \<and> k = j) ws width T'" for T'
        using that by (rule solved_for_more) auto
      have "\<exists>T'. improve_break width i j False w T = Some T' \<and>
          solved_for (\<lambda>p k. p < i \<or> p = i \<and> k < j + 1) ws width T' \<and>
          0 \<le> wsincelasthyphen T' \<and> wsincelasthyphen T' \<le> (int c + 1) * width"
      proof (cases "edge_ok ws width i j")
        case True
        then show ?thesis using step[OF True _ bound] split by fastforce
      next
        case no: False
        then have last: "j = ?n" "\<not> (i + 1 = ?n \<or> linew (seg ws i (?n - 1)) \<le> width)"
          using less.prems(6) \<open>j \<le> ?n\<close> fit by (auto simp: edge_ok_def w_def split: if_splits)
        then have False using less.prems(5) by auto
        then show ?thesis ..
      qed
      then obtain T' where T': "improve_break width i j False w T = Some T'"
          "solved_for (\<lambda>p k. p < i \<or> p = i \<and> k < j + 1) ws width T'"
          "0 \<le> wsincelasthyphen T'" "wsincelasthyphen T' \<le> int (c + 1) * width" by (auto simp: add.commute)
      have c: "c + 1 + (?n + 1 - (j + 1)) = c + (?n + 1 - j)" using True by simp
      have rec: "inner_loop strings offs ?n width i j T = inner_loop strings offs ?n width i (j + 1) T'"
        using True lw rw fit T'(1) by (subst inner_loop.simps) simp
      show ?thesis
      proof (cases "j = ?n")
        case True
        have "solved_for (\<lambda>p k. p \<le> i) ws width T'"
          using T'(2) by (rule solved_for_more) (use True in \<open>auto simp: edge_ok_def\<close>)
        moreover have "inner_loop strings offs ?n width i (j + 1) T' = Some T'"
          using True by (subst inner_loop.simps) simp
        ultimately show ?thesis using rec T'(3,4) True by simp
      next
        case False
        then have "linew (seg ws i (j + 1 - 1)) \<le> width" using fit True by (simp add: w_def)
        then show ?thesis
          using less.hyps[of "j + 1" T' "c + 1"] T' True less.prems(4,6) unfolding rec c by simp
      qed
    qed
  qed
qed

lemma outer_loop_ok:
  assumes offs: "offsets_of ws offs" and pw: "plain_words strings (length ws)"
    and width: "0 \<le> width" "width * width \<le> 0x808080"
  shows "solved_for (\<lambda>p k. p < i) ws width T \<Longrightarrow> 0 \<le> wsincelasthyphen T \<Longrightarrow> wsincelasthyphen T \<le> int c * width \<Longrightarrow>
    int (c + (length ws + 1 - i) * length ws) * width < 2 ^ 31 \<Longrightarrow>
    \<exists>T'. outer_loop strings offs (length ws) width i T = Some T' \<and> solved_for (\<lambda>p k. True) ws width T'"
proof (induction "length ws + 1 - i" arbitrary: i T c rule: less_induct)
  case less
  let ?n = "length ws"
  show ?case
  proof (cases "i \<le> ?n")
    case False
    have "solved_for (\<lambda>p k. True) ws width T"
      using less.prems(1) by (rule solved_for_more) (use False in \<open>auto simp: edge_ok_def\<close>)
    then show ?thesis using False by (subst outer_loop.simps) simp
  next
    case True
    have row: "solved_for (\<lambda>p k. p < i \<or> p = i \<and> k < i + 1) ws width T"
      using less.prems(1) by (rule solved_for_more) (auto simp: edge_ok_def)
    have steps: "c + (?n + 1 - (i + 1)) + (?n + 1 - (i + 1)) * ?n \<le> c + (?n + 1 - i) * ?n"
    proof -
      have "?n + 1 - i = Suc (?n + 1 - (i + 1))" using True by simp
      then show ?thesis by simp
    qed
    have "c + (?n + 1 - (i + 1)) \<le> c + (?n + 1 - i) * ?n" using steps by linarith
    then have "int (c + (?n + 1 - (i + 1))) * width \<le> int (c + (?n + 1 - i) * ?n) * width"
      using width(1) by (intro mult_right_mono) (simp_all only: of_nat_le_iff)
    then have b1: "int (c + (?n + 1 - (i + 1))) * width < 2 ^ 31" using less.prems(4) by linarith
    have "int (c + (?n + 1 - (i + 1)) + (?n + 1 - (i + 1)) * ?n) * width \<le> int (c + (?n + 1 - i) * ?n) * width"
      using width(1) steps by (intro mult_right_mono) (simp_all only: of_nat_le_iff)
    then have b2: "int (c + (?n + 1 - (i + 1)) + (?n + 1 - (i + 1)) * ?n) * width < 2 ^ 31" using less.prems(4) by linarith
    obtain T1 where T1: "inner_loop strings offs ?n width i (i + 1) T = Some T1" "solved_for (\<lambda>p k. p \<le> i) ws width T1"
        "0 \<le> wsincelasthyphen T1" "wsincelasthyphen T1 \<le> int (c + (?n + 1 - (i + 1))) * width"
      using inner_loop_ok[OF offs pw width _ row less.prems(2,3) b1] by auto
    have "solved_for (\<lambda>p k. p < i + 1) ws width T1"
      using T1(2) by (rule solved_for_more) auto
    moreover have "?n + 1 - (i + 1) < ?n + 1 - i" using True by simp
    ultimately obtain T' where "outer_loop strings offs ?n width (i + 1) T1 = Some T'" "solved_for (\<lambda>p k. True) ws width T'"
      using less.hyps[of "i + 1" T1] T1(3,4) b2 by blast
    then show ?thesis using True T1(1) by (subst outer_loop.simps) simp
  qed
qed

lemma start_tables_solved: "solved_for (\<lambda>p k. p < 0) ws width (start_tables (length ws))"
  by (auto simp: solved_for_def start_tables_def reflow_INF_def nth_Cons split: nat.split)

lemma find_breaks_solved:
  assumes "offsets_of ws offs" "plain_words strings (length ws)" "0 \<le> width" "width * width \<le> 0x808080"
    "int ((length ws + 1) * length ws) * width < 2 ^ 31"
  shows "\<exists>T. outer_loop strings offs (length ws) width 0 (start_tables (length ws)) = Some T \<and>
    solved_for (\<lambda>p k. True) ws width T"
  by (rule outer_loop_ok[OF assms(1-4) start_tables_solved, where c = 0])
     (use assms(5) in \<open>simp_all add: start_tables_def\<close>)

section \<open>From the tables to the lines\<close>

text \<open>The break points of the lines, last first, as the table of breaks links them.\<close>

fun chain :: "int list \<Rightarrow> nat list \<Rightarrow> bool" where
  "chain brk (j # i # r) \<longleftrightarrow> i < j \<and> brk ! j = int i \<and> chain brk (i # r)"
| "chain brk [j] \<longleftrightarrow> j = 0"
| "chain brk [] \<longleftrightarrow> False"

fun lines_of :: "'a list \<Rightarrow> nat list \<Rightarrow> 'a list list" where
  "lines_of ws (j # i # r) = lines_of ws (i # r) @ [seg ws i j]"
| "lines_of ws _ = []"

lemma concat_lines_of: "chain brk (j # r) \<Longrightarrow> j \<le> length ws \<Longrightarrow> concat (lines_of ws (j # r)) = take j ws"
proof (induction r arbitrary: j)
  case (Cons i r)
  then have "concat (lines_of ws (i # r)) = take i ws" by simp
  then show ?case using Cons.prems seg_split[of 0 i j ws] by (simp add: seg_def)
qed simp

lemma lines_of_nonempty: "chain brk (j # r) \<Longrightarrow> j \<le> length ws \<Longrightarrow> [] \<notin> set (lines_of ws (j # r))"
proof (induction r arbitrary: j)
  case (Cons i r)
  then have "length (seg ws i j) = j - i" by (simp add: length_seg)
  then show ?case using Cons by (auto dest: arg_cong[of _ _ length])
qed simp

lemma chain_of_tables:
  assumes T: "solved_for (\<lambda>p k. True) ws width T"
  shows "j < length ws \<Longrightarrow> minima T ! j < reflow_INF \<Longrightarrow>
    \<exists>r. chain (breaks T) (j # r) \<and> (\<forall>l \<in> set (lines_of ws (j # r)). linew l \<le> width) \<and>
      sum_list (map (slack width) (lines_of ws (j # r))) = minima T ! j"
proof (induction j rule: less_induct)
  case (less j)
  show ?case
  proof (cases "j = 0")
    case True
    then show ?thesis using T by (intro exI[of _ "[]"]) (simp add: solved_for_def)
  next
    case False
    then obtain p where p: "edge_ok ws width p j" "breaks T ! j = int p" "minima T ! p < reflow_INF"
        "minima T ! j = minima T ! p + edge_cost ws width p j"
      using T less.prems unfolding solved_for_def by (metis gr0I less_imp_le_nat)
    then have pj: "p < j" "linew (seg ws p j) \<le> width" "edge_cost ws width p j = slack width (seg ws p j)"
      using less.prems(1) by (simp_all add: edge_ok_def edge_cost_def)
    obtain r where "chain (breaks T) (p # r)" "\<forall>l \<in> set (lines_of ws (p # r)). linew l \<le> width"
        "sum_list (map (slack width) (lines_of ws (p # r))) = minima T ! p"
      using less.IH[OF pj(1) _ p(3)] pj(1) less.prems(1) by auto
    then show ?thesis using p pj by (intro exI[of _ "p # r"]) auto
  qed
qed

text \<open>No layout of a part of the paragraph is better than its entry in the table.\<close>

lemma tables_lower:
  assumes T: "solved_for (\<lambda>p k. True) ws width T"
  shows "concat ls = take j ws \<Longrightarrow> [] \<notin> set ls \<Longrightarrow> \<forall>l \<in> set ls. linew l \<le> width \<Longrightarrow> j < length ws \<Longrightarrow>
    sum_list (map (slack width) ls) < reflow_INF \<Longrightarrow> minima T ! j \<le> sum_list (map (slack width) ls)"
proof (induction ls arbitrary: j rule: rev_induct)
  case Nil
  then have "j = 0" by auto
  then show ?case using T by (simp add: solved_for_def)
next
  case (snoc l ls)
  define i where "i = length (concat ls)"
  have len: "length (concat ls) + length l = j" using arg_cong[OF snoc.prems(1), of length] snoc.prems(4) by simp
  then have "take i (take j ws) = concat ls" "drop i (take j ws) = l" "i < j"
    using snoc.prems(1)[symmetric] snoc.prems(2) by (auto simp: i_def)
  then have ij: "concat ls = take i ws" "seg ws i j = l" "i < j" by (auto simp: seg_def min_def)
  have pos: "0 \<le> slack width l" by (simp add: slack_def)
  have IH: "minima T ! i \<le> sum_list (map (slack width) ls)"
    using snoc.IH[OF ij(1)] snoc.prems ij(3) pos by simp
  have "edge_ok ws width i j" "edge_cost ws width i j = slack width l"
    using ij snoc.prems(3,4) by (simp_all add: edge_ok_def edge_cost_def)
  moreover have "minima T ! i < reflow_INF" using IH snoc.prems(5) pos by simp
  ultimately have "minima T ! j \<le> minima T ! i + slack width l" using T unfolding solved_for_def by metis
  then show ?case using IH by simp
qed

lemma butlast_seg: "i < j \<Longrightarrow> j \<le> length ws \<Longrightarrow> butlast (seg ws i j) = seg ws i (j - 1)"
  by (simp add: seg_def butlast_drop butlast_take)

lemma best_layout:
  assumes T: "solved_for (\<lambda>p k. True) ws width T" and ls0: "layout width ws ls0" "badness width ls0 < reflow_INF"
  shows "\<exists>r. chain (breaks T) (length ws # r) \<and> layout width ws (lines_of ws (length ws # r)) \<and>
    (\<forall>ls. layout width ws ls \<longrightarrow> badness width (lines_of ws (length ws # r)) \<le> badness width ls)"
proof -
  let ?n = "length ws"
  have lower: "minima T ! ?n \<le> badness width ls \<and> 0 < ?n" if l: "layout width ws ls" "badness width ls < reflow_INF" for ls
  proof -
    obtain fs l where ls: "ls = fs @ [l]" using l(1) by (cases ls rule: rev_cases) (auto simp: layout_def)
    define i where "i = length (concat fs)"
    have ws: "concat fs @ l = ws" "l \<noteq> []" using l(1) unfolding ls layout_def by auto
    have "take i (concat fs @ l) = concat fs" "drop i (concat fs @ l) = l" by (simp_all add: i_def)
    then have i: "concat fs = take i ws" "seg ws i ?n = l" unfolding ws(1) by (simp_all add: seg_def)
    have il: "i + length l = ?n" unfolding i_def ws(1)[symmetric] by simp
    then have i2: "i < ?n" using ws(2) by (cases l) simp_all
    have "length l = 1 \<or> linew (butlast l) \<le> width" using l(1) unfolding ls layout_def by simp
    then have "edge_ok ws width i ?n"
      using i2 il i(2) butlast_seg[OF i2 order_refl] by (auto simp: edge_ok_def)
    moreover have mi: "minima T ! i \<le> badness width ls"
      using tables_lower[OF T i(1)] i2 l unfolding ls layout_def badness_def by simp
    moreover have "minima T ! i < reflow_INF" using mi l(2) by simp
    ultimately have "minima T ! ?n \<le> minima T ! i + edge_cost ws width i ?n"
      using T unfolding solved_for_def by blast
    then show ?thesis using mi i2 unfolding edge_cost_def by auto
  qed
  have n: "0 < ?n" and low: "minima T ! ?n < reflow_INF" using lower[OF ls0] ls0(2) by auto
  have "\<exists>p. edge_ok ws width p ?n \<and> breaks T ! ?n = int p \<and> minima T ! p < reflow_INF \<and>
      minima T ! ?n = minima T ! p + edge_cost ws width p ?n"
    using T n low unfolding solved_for_def by blast
  then obtain p where p: "edge_ok ws width p ?n" "breaks T ! ?n = int p" "minima T ! p < reflow_INF"
      "minima T ! ?n = minima T ! p" by (auto simp: edge_cost_def)
  then have pn: "p < ?n" by (simp add: edge_ok_def)
  obtain r where r: "chain (breaks T) (p # r)" "\<forall>l \<in> set (lines_of ws (p # r)). linew l \<le> width"
      "sum_list (map (slack width) (lines_of ws (p # r))) = minima T ! p"
    using chain_of_tables[OF T pn p(3)] by blast
  have ch: "chain (breaks T) (?n # p # r)" using r(1) p(2) pn by simp
  have bad: "badness width (lines_of ws (?n # p # r)) = minima T ! ?n" using r(3) p(4) by (simp add: badness_def)
  have "length (seg ws p ?n) = 1 \<or> linew (butlast (seg ws p ?n)) \<le> width"
    using p(1) butlast_seg[OF pn order_refl] by (auto simp: edge_ok_def length_seg)
  then have "layout width ws (lines_of ws (?n # p # r))"
    using concat_lines_of[OF ch, of ws] lines_of_nonempty[OF ch, of ws] r(2) by (simp add: layout_def)
  moreover have "badness width (lines_of ws (?n # p # r)) \<le> badness width ls" if "layout width ws ls" for ls
    using lower[OF that] low bad by (cases "badness width ls < reflow_INF") auto
  ultimately show ?thesis using ch by blast
qed

section \<open>The stack\<close>

definition stack_wf :: "reflow_intstack \<Rightarrow> bool" where
  "stack_wf st \<longleftrightarrow> (\<exists>d. is_data st = Some d \<and> length d = is_capacity st) \<and> is_length st \<le> is_capacity st \<and>
     0 < is_capacity st \<and> is_capacity st < 2 ^ 60"

definition stack_items :: "reflow_intstack \<Rightarrow> int list" where
  "stack_items st = take (is_length st) (cells (is_data st))"

definition grants_text :: "text_mem \<Rightarrow> bool" where
  "grants_text W \<longleftrightarrow> grants_all (tm_bytes W) \<and> grants_all (tm_words W) \<and> grants_all (tm_ints W)"

lemma length_stack_items: "stack_wf st \<Longrightarrow> length (stack_items st) = is_length st"
  by (auto simp: stack_wf_def stack_items_def)

lemma intstack_create_ok:
  assumes "grants_text W" "n < 2 ^ 50"
  shows "stack_wf (reflow_intstack_create W n) \<and> stack_items (reflow_intstack_create W n) = []"
proof -
  have "sz (sizeof_int * max 1 n) = sizeof_int * max 1 n" using assms(2) by (intro sz_small) (simp add: sizeof_int_def)
  then show ?thesis
    using assms by (simp add: reflow_intstack_create_def stack_wf_def stack_items_def grants_text_def mem_simps sizeof_int_def Let_def)
qed

lemma intstack_push_ok:
  assumes W: "grants_text W" and st: "stack_wf st" "is_length st < 2 ^ 50"
  shows "\<exists>st'. reflow_intstack_push W st v = Some st' \<and> stack_wf st' \<and> stack_items st' = stack_items st @ [v]"
proof -
  obtain d where d: "is_data st = Some d" "length d = is_capacity st" "is_length st \<le> is_capacity st"
      "0 < is_capacity st" "is_capacity st < 2 ^ 60" using st(1) by (auto simp: stack_wf_def)
  have s1: "sz (is_length st + 1) = is_length st + 1" using st(2) by (intro sz_small) simp
  have upd: "take (Suc n) (e[n := v]) = take n e @ [v]" if "n < length e" for n and e :: "int list"
    using that by (simp add: take_Suc_conv_app_nth)
  show ?thesis
  proof (cases "is_length st \<ge> is_capacity st")
    case False
    then show ?thesis
      using d s1 upd[of "is_length st" d] by (simp add: reflow_intstack_push_def wr_in stack_wf_def stack_items_def Let_def)
  next
    case True
    then have eq: "is_length st = is_capacity st" using d(3) by simp
    have s4: "sz (4 * is_capacity st) = 4 * is_capacity st" "sz (sizeof_int * (4 * is_capacity st)) = sizeof_int * (4 * is_capacity st)"
      using st(2) eq by (auto intro!: sz_small simp: sizeof_int_def)
    define e where "e = d @ map (fresh (tm_ints W)) [is_capacity st..<4 * is_capacity st]"
    have e: "realloc_cells (tm_ints W) sizeof_int (Some d) (sizeof_int * (4 * is_capacity st)) = Some e"
      using W d(2) by (simp add: grants_text_def mem_simps sizeof_int_def e_def)
    have le: "length e = 4 * is_capacity st" "take (is_capacity st) e = d" using d(2,4) by (simp_all add: e_def)
    then have "is_length st < length e" using eq d(4) by simp
    then show ?thesis
      using d eq s1 s4 e le upd[of "is_length st" e] st(2)
      by (simp add: reflow_intstack_push_def wr_in stack_wf_def stack_items_def Let_def)
  qed
qed

lemma intstack_pop_ok:
  assumes "stack_wf st" "stack_items st = xs @ [v]"
  shows "\<exists>st'. reflow_intstack_pop st = Some (v, st') \<and> stack_wf st' \<and> stack_items st' = xs \<and>
    (xs = [] \<longrightarrow> cells (is_data st') ! 0 = 0)"
proof -
  obtain d where d: "is_data st = Some d" "length d = is_capacity st" "is_length st \<le> is_capacity st"
    using assms(1) by (auto simp: stack_wf_def)
  have len: "is_length st = Suc (length xs)" using length_stack_items[OF assms(1)] assms(2) by simp
  have take: "take (Suc (length xs)) d = xs @ [v]" using assms(2) d(1) len by (simp add: stack_items_def)
  then have "take (length xs) d = xs" by (metis append_eq_conv_conj take_Suc_conv_app_nth append1_eq_conv d(2,3) len Suc_le_lessD)
  moreover have "d ! length xs = v"
    using take by (metis lessI nth_append_length nth_take)
  ultimately show ?thesis
    using d len assms(1) by (simp add: reflow_intstack_pop_def rd_in wr_in stack_wf_def stack_items_def Let_def)
qed

lemma intstack_pop_empty:
  assumes "stack_wf st" "stack_items st = []" "cells (is_data st) ! 0 = 0"
  shows "\<exists>st'. reflow_intstack_pop st = Some (0, st')"
proof -
  obtain d where d: "is_data st = Some d" "length d = is_capacity st" "0 < is_capacity st"
    using assms(1) by (auto simp: stack_wf_def)
  have "is_length st = 0" using length_stack_items[OF assms(1)] assms(2) by simp
  then show ?thesis using d assms(3) by (simp add: reflow_intstack_pop_def rd_in wr_in)
qed

lemma reverse_breaks_ok:
  assumes W: "grants_text W"
  shows "chain brk (j # r) \<Longrightarrow> j < length brk \<Longrightarrow> stack_wf st \<Longrightarrow> length r < fuel \<Longrightarrow> is_length st + length r < 2 ^ 50 \<Longrightarrow>
    \<exists>st'. reverse_breaks W fuel brk (int j) st = Returns st' \<and> stack_wf st' \<and> stack_items st' = stack_items st @ map int r"
proof (induction r arbitrary: j st fuel)
  case Nil
  then show ?case by (cases fuel) auto
next
  case (Cons i r)
  obtain f where f: "fuel = Suc f" using Cons.prems(4) by (cases fuel) auto
  obtain st1 where st1: "reflow_intstack_push W st (int i) = Some st1" "stack_wf st1" "stack_items st1 = stack_items st @ [int i]"
    using intstack_push_ok[OF W Cons.prems(3)] Cons.prems(5) by fastforce
  have "is_length st1 = is_length st + 1"
    using st1(3) length_stack_items[OF st1(2)] length_stack_items[OF Cons.prems(3)] by simp
  then obtain st' where "reverse_breaks W f brk (int i) st1 = Returns st'" "stack_wf st'"
      "stack_items st' = stack_items st1 @ map int r"
    using Cons.IH[of i st1 f] Cons.prems st1(2) f by auto
  then show ?case using Cons.prems(1,2) st1 f by (simp add: rd_in)
qed

section \<open>The lines are printed\<close>

text \<open>A string of the word array that holds the bytes \<open>w\<close>.\<close>

definition string_ok :: "cv_t \<Rightarrow> byte list \<Rightarrow> bool" where
  "string_ok str w \<longleftrightarrow> cv_closed str \<and> cv_str str = w \<and> clength str = length w + 1 \<and> ccapacity str \<le> 2 ^ 50"

text \<open>The words from \<open>i\<close> on are still as they were stored.\<close>

definition unprinted :: "reflow_word list \<Rightarrow> byte list list \<Rightarrow> nat \<Rightarrow> bool" where
  "unprinted strings ws i \<longleftrightarrow> length ws < length strings \<and>
     (\<forall>k \<le> length ws. bEscaped (strings ! k) = 0 \<and> \<not> bHyphenPoint (strings ! k)) \<and>
     (\<forall>k < length ws. i \<le> k \<longrightarrow> string_ok (rw_string (strings ! k)) (ws ! k))"

definition printed_line :: "byte list list \<Rightarrow> byte list" where
  "printed_line l = concat (map (\<lambda>w. w @ [32]) l)"

definition text_room :: "cv_t \<Rightarrow> nat \<Rightarrow> bool" where
  "text_room outp n \<longleftrightarrow> cv_wf outp \<and> ccapacity outp \<le> 2 ^ 56 \<and> length (cv_str outp) + n < 2 ^ 50"

lemma cv_str_take: "cv_closed cv \<Longrightarrow> length (cv_str cv) \<le> m \<Longrightarrow> cstr (take m (cells (cdata cv))) = cv_str cv"
proof -
  assume a: "cv_closed cv" "length (cv_str cv) \<le> m"
  have "take (ccapacity cv) (cstr (cells (cdata cv))) = cv_str cv" by (simp add: cv_str_def cstr_take)
  moreover have "length (cv_str cv) < ccapacity cv" using a(1) by (simp add: cv_closed_def)
  ultimately have "cstr (cells (cdata cv)) = cv_str cv" by (metis length_take min_less_iff_conj not_less take_all_iff less_irrefl)
  then show ?thesis using a(2) by (simp add: cstr_take)
qed

lemma append_text:
  assumes "grants_all M" "text_room outp n" "len \<le> length src \<or> terminated src" "len \<le> n + 4"
  shows "\<exists>out'. cv_strncat M outp src len = Some out' \<and> cv_str out' = cv_str outp @ cstr (take len src) \<and>
    cv_wf out' \<and> ccapacity out' \<le> 2 ^ 56 \<and> clength out' = length (cv_str outp) + len + 1 \<and> cv_closed out'"
  using append_str[OF assms(1) _ assms(3), of outp "2 ^ 56"] assms(2,4) by (auto simp: text_room_def cv_closed_def)

lemma emit_word_ok:
  assumes W: "grants_text W" and un: "unprinted strings ws idx" and idx: "idx < length ws"
    and room: "text_room outp (length (ws ! idx) + 1 + n)"
  shows "\<exists>strings' outp'. emit_word W i idx (strings, wordbuf, outp) = Some (strings', wordbuf, outp') \<and>
    unprinted strings' ws (idx + 1) \<and> cv_str outp' = cv_str outp @ ws ! idx @ [32] \<and> text_room outp' n"
proof -
  have M: "grants_all (tm_bytes W)" using W by (simp add: grants_text_def)
  define str where "str = rw_string (strings ! idx)"
  have str: "cv_closed str" "cv_str str = ws ! idx" "clength str = length (ws ! idx) + 1" "ccapacity str \<le> 2 ^ 50"
    using un idx by (auto simp: unprinted_def string_ok_def str_def)
  have rs: "text_room str 0" using str room by (auto simp: text_room_def cv_closed_def)
  have "cstr (take 2 [32, 0 :: byte]) = [32]" by simp
  then obtain str' where str': "cv_strncat (tm_bytes W) str [32, 0] 2 = Some str'" "cv_str str' = ws ! idx @ [32]"
      "cv_closed str'" "clength str' = length (ws ! idx) + 3" "cv_wf str'"
    using append_text[OF M rs, of 2 "[32, 0]"] str(2) by auto
  have "clength str' \<le> length (cells (cdata str'))" using str'(5) by (auto simp: cv_wf_def)
  moreover have "cstr (take (clength str') (cells (cdata str'))) = ws ! idx @ [32]"
    using cv_str_take[OF str'(3), of "clength str'"] str'(2,4) by simp
  ultimately obtain outp' where out: "cv_strncat (tm_bytes W) outp (cells (cdata str')) (clength str') = Some outp'"
      "cv_str outp' = cv_str outp @ ws ! idx @ [32]" "cv_wf outp'" "ccapacity outp' \<le> 2 ^ 56"
    using append_text[OF M room, of "clength str'" "cells (cdata str')"] str'(4) by auto
  have "idx < length strings" "idx + 1 < length strings" using un idx by (auto simp: unprinted_def)
  moreover have "bEscaped (strings ! (idx + 1)) = 0" "bEscaped (strings ! idx) = 0" "\<not> bHyphenPoint (strings ! idx)"
    using un idx by (auto simp: unprinted_def)
  ultimately have "emit_word W i idx (strings, wordbuf, outp) =
      Some (strings[idx := (strings ! idx)\<lparr>rw_string := str'\<rparr>], wordbuf, outp')"
    using str'(1) out(1) by (simp add: emit_word_def rd_in str_def)
  moreover have "unprinted (strings[idx := (strings ! idx)\<lparr>rw_string := str'\<rparr>]) ws (idx + 1)"
    using un idx by (auto simp: unprinted_def nth_list_update)
  moreover have "text_room outp' n" using out room by (simp add: text_room_def)
  ultimately show ?thesis using out(2) by blast
qed

lemma emit_words_ok:
  assumes W: "grants_text W"
  shows "unprinted strings ws idx \<Longrightarrow> idx \<le> j \<Longrightarrow> j \<le> length ws \<Longrightarrow>
    text_room outp (length (printed_line (seg ws idx j)) + n) \<Longrightarrow>
    \<exists>strings' outp'. emit_words W i idx j (strings, wordbuf, outp) = Some (strings', wordbuf, outp') \<and>
      unprinted strings' ws j \<and> cv_str outp' = cv_str outp @ printed_line (seg ws idx j) \<and> text_room outp' n"
proof (induction "j - idx" arbitrary: idx strings outp rule: less_induct)
  case less
  show ?case
  proof (cases "idx < j")
    case False
    then show ?thesis using less.prems by (subst emit_words.simps) (simp add: seg_def printed_line_def)
  next
    case True
    have sg: "seg ws idx j = ws ! idx # seg ws (idx + 1) j"
    proof -
      have "idx < length (take j ws)" using True less.prems(3) by simp
      then show ?thesis unfolding seg_def using Cons_nth_drop_Suc[of idx "take j ws"] True by simp
    qed
    have "text_room outp (length (ws ! idx) + 1 + (length (printed_line (seg ws (idx + 1) j)) + n))"
      using less.prems(4) by (simp add: sg printed_line_def add.assoc)
    then obtain s1 o1 where 1: "emit_word W i idx (strings, wordbuf, outp) = Some (s1, wordbuf, o1)"
        "unprinted s1 ws (idx + 1)" "cv_str o1 = cv_str outp @ ws ! idx @ [32]"
        "text_room o1 (length (printed_line (seg ws (idx + 1) j)) + n)"
      using emit_word_ok[OF W less.prems(1)] True less.prems(3) by (meson less_le_trans)
    then obtain s2 o2 where "emit_words W i (idx + 1) j (s1, wordbuf, o1) = Some (s2, wordbuf, o2)" "unprinted s2 ws j"
        "cv_str o2 = cv_str o1 @ printed_line (seg ws (idx + 1) j)" "text_room o2 n"
      proof -
        have "j - (idx + 1) < j - idx" "idx + 1 \<le> j" using True by auto
        then show ?thesis using less.hyps[OF _ 1(2) _ less.prems(3) 1(4)] that by blast
      qed
    then show ?thesis using True 1 by (subst emit_words.simps) (simp add: sg printed_line_def)
  qed
qed

lemma print_line_ok:
  assumes W: "grants_text W" and un: "unprinted strings ws i" and ij: "i \<le> j" "j \<le> length ws"
    and room: "text_room outp (length (printed_line (seg ws i j)) + 1 + n)" and n: "length ws < 2 ^ 31"
  shows "\<exists>strings' outp'. print_line W (length ws) i j (strings, wordbuf, outp) = Some (strings', wordbuf, outp') \<and>
    unprinted strings' ws j \<and> cv_str outp' = cv_str outp @ printed_line (seg ws i j) @ [10] \<and> text_room outp' n"
proof -
  have M: "grants_all (tm_bytes W)" using W by (simp add: grants_text_def)
  have "text_room outp (length (printed_line (seg ws i j)) + (1 + n))" using room by (simp add: add.assoc)
  then obtain s1 o1 where 1: "emit_words W i i j (strings, wordbuf, outp) = Some (s1, wordbuf, o1)" "unprinted s1 ws j"
      "cv_str o1 = cv_str outp @ printed_line (seg ws i j)" "text_room o1 (1 + n)"
    using emit_words_ok[OF W un ij] by blast
  have "cstr (take 2 [10, 0 :: byte]) = [10]" by simp
  then obtain o2 where o2: "cv_strncat (tm_bytes W) o1 [10, 0] 2 = Some o2" "cv_str o2 = cv_str o1 @ [10]"
      "cv_wf o2" "ccapacity o2 \<le> 2 ^ 56"
    using append_text[OF M 1(4), of 2 "[10, 0]"] by auto
  have hy: "(if sz_sub j 1 < length ws then map_option bHyphenPoint (rd s1 (sz_sub j 1)) else Some False) = Some False"
  proof (cases "j = 0")
    case True
    then show ?thesis using n by (simp add: sz_sub_def)
  next
    case False
    then have "sz_sub j 1 = j - 1" using ij n by (intro sz_sub_le) auto
    moreover have "\<not> bHyphenPoint (s1 ! (j - 1))" "j - 1 < length s1" using 1(2) ij by (auto simp: unprinted_def)
    ultimately show ?thesis by (simp add: rd_in)
  qed
  have "text_room o2 n" using o2 1(4) by (simp add: text_room_def)
  moreover have "print_line W (length ws) i j (strings, wordbuf, outp) = Some (s1, wordbuf, o2)"
    using 1(1) o2(1) hy ij by (simp add: print_line_def max_absorb2)
  ultimately show ?thesis using 1(2,3) o2(2) by auto
qed

text \<open>After the last line the stack is empty; its last pop yields the 0 the pop before left, and one more newline.\<close>

lemma print_line_end:
  assumes W: "grants_text W" and un: "unprinted strings ws (length ws)" and room: "text_room outp (1 + n)"
    and n: "length ws < 2 ^ 31"
  shows "\<exists>outp'. print_line W (length ws) (length ws) 0 (strings, wordbuf, outp) = Some (strings, wordbuf, outp') \<and>
    cv_str outp' = cv_str outp @ [10] \<and> text_room outp' n"
proof -
  have M: "grants_all (tm_bytes W)" using W by (simp add: grants_text_def)
  have "cstr (take 2 [10, 0 :: byte]) = [10]" by simp
  then obtain o2 where o2: "cv_strncat (tm_bytes W) outp [10, 0] 2 = Some o2" "cv_str o2 = cv_str outp @ [10]"
      "cv_wf o2" "ccapacity o2 \<le> 2 ^ 56"
    using append_text[OF M room, of 2 "[10, 0]"] by auto
  have "(if sz_sub (length ws) 1 < length ws then map_option bHyphenPoint (rd strings (sz_sub (length ws) 1)) else Some False) = Some False"
  proof (cases "ws = []")
    case False
    then have "sz_sub (length ws) 1 = length ws - 1" using n by (intro sz_sub_le) (simp_all add: Suc_le_eq)
    moreover have "\<not> bHyphenPoint (strings ! (length ws - 1))" "length ws - 1 < length strings"
      using un by (auto simp: unprinted_def)
    ultimately show ?thesis by (simp add: rd_in)
  qed (simp add: sz_sub_def)
  moreover have "text_room o2 n" using o2 room by (simp add: text_room_def)
  moreover have "emit_words W (length ws) (length ws) 0 (strings, wordbuf, outp) = Some (strings, wordbuf, outp)"
    by (subst emit_words.simps) simp
  ultimately show ?thesis using o2(1,2) by (simp add: print_line_def)
qed

fun asc_lines :: "'a list \<Rightarrow> nat \<Rightarrow> nat list \<Rightarrow> 'a list list" where
  "asc_lines ws i [] = []"
| "asc_lines ws i (j # js) = seg ws i j # asc_lines ws j js"

lemma asc_lines_snoc: "asc_lines ws i (js @ [j]) = asc_lines ws i js @ [seg ws (last (i # js)) j]"
  by (induction js arbitrary: i) auto

lemma lines_of_asc: "xs \<noteq> [] \<Longrightarrow> lines_of ws xs = asc_lines ws (last xs) (tl (rev xs))"
proof (induction ws xs rule: lines_of.induct)
  case (1 ws j i r)
  have "tl (rev (j # i # r)) = tl (rev (i # r)) @ [j]" by (cases "rev (i # r)") auto
  moreover have "last (last (i # r) # tl (rev (i # r))) = i"
  proof -
    have "last (i # r) # tl (rev (i # r)) = rev (i # r)" by (cases r rule: rev_cases) auto
    then show ?thesis by (simp only: last_rev) simp
  qed
  ultimately show ?case using 1 asc_lines_snoc[of ws "last (i # r)" "tl (rev (i # r))" j] by simp
qed auto

definition printed_text :: "byte list list list \<Rightarrow> byte list" where
  "printed_text ls = concat (map (\<lambda>l. printed_line l @ [10]) ls) @ [10]"

lemma print_lines_ok:
  assumes W: "grants_text W" and n: "length ws < 2 ^ 31"
  shows "unprinted strings ws i \<Longrightarrow> sorted_wrt (<) (i # js) \<Longrightarrow> last (i # js) = length ws \<Longrightarrow> stack_wf st \<Longrightarrow>
    stack_items st = map int (rev js) \<Longrightarrow> (js = [] \<longrightarrow> cells (is_data st) ! 0 = 0) \<Longrightarrow> length js < fuel \<Longrightarrow>
    text_room outp (length (printed_text (asc_lines ws i js)) + m) \<Longrightarrow>
    \<exists>strings' outp'. print_lines W fuel (length ws) (int i) st (strings, wordbuf, outp) = Returns (strings', wordbuf, outp') \<and>
      cv_str outp' = cv_str outp @ printed_text (asc_lines ws i js) \<and> text_room outp' m \<and> length ws \<le> length strings'"
proof (induction js arbitrary: i strings st fuel outp)
  case Nil
  then have i: "i = length ws" by simp
  obtain f where f: "fuel = Suc f" using Nil.prems(7) by (cases fuel) auto
  have "stack_items st = []" "cells (is_data st) ! 0 = 0" using Nil.prems(5,6) by simp_all
  then obtain st' where "reflow_intstack_pop st = Some (0, st')" using intstack_pop_empty[OF Nil.prems(4)] by blast
  moreover have un: "unprinted strings ws (length ws)" "text_room outp (1 + m)"
    using Nil.prems(1,8) i by (simp_all add: printed_text_def)
  moreover have "sz_of_int (int (length ws)) = length ws" using n by (simp add: sz_of_int_def)
  ultimately show ?case
    using print_line_end[OF W un n, of wordbuf] Nil.prems(1) f i
    by (auto simp: printed_text_def sz_of_int_def[of 0] unprinted_def)
next
  case (Cons j js)
  obtain f where f: "fuel = Suc f" using Cons.prems(7) by (cases fuel) auto
  have ij: "i < j" "j \<le> length ws" "sorted_wrt (<) (j # js)" "last (j # js) = length ws"
    using Cons.prems(2,3) by (auto dest: bspec[OF _ last_in_set] split: if_splits)
  have "stack_items st = map int (rev js) @ [int j]" using Cons.prems(5) by simp
  then obtain st1 where st1: "reflow_intstack_pop st = Some (int j, st1)" "stack_wf st1" "stack_items st1 = map int (rev js)"
      "js = [] \<longrightarrow> cells (is_data st1) ! 0 = 0"
    using intstack_pop_ok[OF Cons.prems(4)] by fastforce
  have room: "text_room outp (length (printed_line (seg ws i j)) + 1 + (length (printed_text (asc_lines ws j js)) + m))"
    using Cons.prems(8) by (simp add: printed_text_def add.assoc)
  obtain s1 o1 where 1: "print_line W (length ws) i j (strings, wordbuf, outp) = Some (s1, wordbuf, o1)" "unprinted s1 ws j"
      "cv_str o1 = cv_str outp @ printed_line (seg ws i j) @ [10]" "text_room o1 (length (printed_text (asc_lines ws j js)) + m)"
    using print_line_ok[OF W Cons.prems(1) less_imp_le_nat[OF ij(1)] ij(2) room n] by blast
  obtain s2 o2 where 2: "print_lines W f (length ws) (int j) st1 (s1, wordbuf, o1) = Returns (s2, wordbuf, o2)"
      "cv_str o2 = cv_str o1 @ printed_text (asc_lines ws j js)" "text_room o2 m" "length ws \<le> length s2"
    using Cons.IH[OF 1(2) ij(3,4) st1(2,3,4) _ 1(4), of f] Cons.prems(7) f by auto
  have "sz_of_int (int i) = i" "sz_of_int (int j) = j" "int j \<noteq> 0" using ij n by (simp_all add: sz_of_int_def)
  then have "print_lines W fuel (length ws) (int i) st (strings, wordbuf, outp) = Returns (s2, wordbuf, o2)"
    using st1(1) 1(1) 2(1) by (simp add: f)
  moreover have "cv_str o2 = cv_str outp @ printed_text (asc_lines ws i (j # js))"
    using 1(3) 2(2) by (simp add: printed_text_def)
  ultimately show ?case using 2(3,4) by blast
qed

lemma chain_facts: "chain brk xs \<Longrightarrow> last xs = 0 \<and> sorted_wrt (<) (rev xs) \<and> xs \<noteq> [] \<and> length xs \<le> Suc (hd xs)"
proof (induction xs rule: chain.induct)
  case (1 brk j i r)
  then have IH: "last (i # r) = 0" "sorted_wrt (<) (rev (i # r))" "length (i # r) \<le> Suc i" "i < j" by auto
  have "\<forall>x \<in> set (i # r). x \<le> i" using IH(2) by (auto simp: sorted_wrt_append)
  then show ?case using IH by (auto simp: sorted_wrt_append)
qed auto

lemma PerformReflow_ok:
  assumes W: "grants_text W" and un: "unprinted (cells (sa_strings words)) ws 0" and len: "sa_length words = length ws"
    and ch: "chain brk (length ws # r)" and n: "length ws < 2 ^ 31" "length ws < length brk" "length ws + 1 < fuel"
    and room: "text_room outp (length (printed_text (lines_of ws (length ws # r))) + m)"
  shows "\<exists>words' outp'. PerformReflow W fuel words brk outp = Returns (words', outp') \<and>
    cv_str outp' = cv_str outp @ printed_text (lines_of ws (length ws # r)) \<and> text_room outp' m \<and>
    sa_length words' = length ws \<and> length ws \<le> length (cells (sa_strings words'))"
proof -
  let ?n = "length ws"
  note cf = chain_facts[OF ch]
  have lr: "length r \<le> ?n" using cf by simp
  obtain st0 where st0: "reflow_intstack_push W (reflow_intstack_create W ?n) (int ?n) = Some st0" "stack_wf st0" "stack_items st0 = [int ?n]"
  proof -
    have c: "stack_wf (reflow_intstack_create W ?n)" "stack_items (reflow_intstack_create W ?n) = []"
      using intstack_create_ok[OF W, of ?n] n(1) by auto
    have "is_length (reflow_intstack_create W ?n) < 2 ^ 50" by (simp add: reflow_intstack_create_def Let_def)
    then show ?thesis using intstack_push_ok[OF W c(1)] c(2) that by auto
  qed
  have "is_length st0 = 1" using length_stack_items[OF st0(2)] st0(3) by simp
  then obtain st1 where st1: "reverse_breaks W fuel brk (int ?n) st0 = Returns st1" "stack_wf st1"
      "stack_items st1 = map int (?n # r)"
    using reverse_breaks_ok[OF W ch n(2) st0(2), of fuel] lr n st0(3) by auto
  define js where "js = tl (rev (?n # r))"
  have rv: "rev (?n # r) = 0 # js"
  proof -
    have "hd (rev (?n # r)) = 0" using cf by (simp only: hd_rev)
    then show ?thesis unfolding js_def by (metis list.collapse rev_is_Nil_conv list.distinct(1))
  qed
  have nr: "?n # r = rev js @ [0]" using arg_cong[OF rv, of rev] by simp
  then have "stack_items st1 = map int (rev js) @ [0]" using st1(3) by simp
  then obtain st2 where st2: "reflow_intstack_pop st1 = Some (0, st2)" "stack_wf st2" "stack_items st2 = map int (rev js)"
      "map int (rev js) = [] \<longrightarrow> cells (is_data st2) ! 0 = 0"
    using intstack_pop_ok[OF st1(2)] by blast
  have srt: "sorted_wrt (<) (0 # js)" using cf rv by simp
  have lst: "last (0 # js) = ?n" using arg_cong[OF rv, of last] by simp
  have asc: "asc_lines ws 0 js = lines_of ws (?n # r)" using lines_of_asc[of "?n # r" ws] cf by (simp add: js_def)
  have "length js = length r" using arg_cong[OF rv, of length] by simp
  then have lj: "length js < fuel" using lr n(3) by simp
  obtain wb where wb: "cv_init (tm_bytes W) 64 = Some (0, wb)"
    using cv_init_ok[of "tm_bytes W" 64] W by (auto simp: grants_text_def)
  obtain s' o' where "print_lines W fuel ?n (int 0) st2 (cells (sa_strings words), wb, outp) = Returns (s', wb, o')"
      "cv_str o' = cv_str outp @ printed_text (asc_lines ws 0 js)" "text_room o' m" "?n \<le> length s'"
    using print_lines_ok[OF W n(1) un srt lst st2(2,3) _ lj, of outp m wb] st2(4) room asc by auto
  then show ?thesis
    using st0(1) st1(1) st2(1) wb n(1) len asc
    by (simp add: PerformReflow_def to_int32_small Let_def)
qed

section \<open>The words of a plain paragraph\<close>

text \<open>The array: the words stored, and zeroed cells behind them.\<close>

definition array_ok :: "reflow_strarray \<Rightarrow> byte list list \<Rightarrow> bool" where
  "array_ok array ws \<longleftrightarrow> (\<exists>s. sa_strings array = Some s \<and> length s = sa_capacity array \<and> length ws \<le> length s \<and>
     sa_length array = length ws \<and> 0 < length s \<and> length s < 2 ^ 50 \<and>
     (\<forall>k < length ws. string_ok (rw_string (s ! k)) (ws ! k) \<and> bEscaped (s ! k) = 0 \<and> \<not> bHyphenPoint (s ! k)) \<and>
     (\<forall>k < length s. length ws \<le> k \<longrightarrow> s ! k = zero_word))"

lemma strarray_create_ok:
  assumes "grants_text W"
  shows "\<exists>array. reflow_strarray_create W 64 = Some array \<and> array_ok array [] \<and> sa_capacity array = 64"
proof -
  have "sz (sizeof_word * max 64 1) = 64 * sizeof_word" by (simp add: sz_def sizeof_word_def)
  then show ?thesis
    using assms by (simp add: reflow_strarray_create_def grants_text_def mem_simps array_ok_def sizeof_word_def)
qed

lemma strarray_push_ok:
  assumes W: "grants_text W" and arr: "array_ok array ws" "length ws < sa_capacity array"
    and val: "vallen \<le> length val" "cstr (take vallen val) = w" "length w = vallen" "vallen < 2 ^ 48"
  shows "\<exists>array'. reflow_strarray_push W array val vallen 0 False = Some array' \<and> array_ok array' (ws @ [w]) \<and>
    sa_capacity array' = sa_capacity array"
proof -
  have M: "grants_all (tm_bytes W)" using W by (simp add: grants_text_def)
  obtain s where s: "sa_strings array = Some s" "length s = sa_capacity array" "sa_length array = length ws" "length s < 2 ^ 50"
      "\<forall>k < length ws. string_ok (rw_string (s ! k)) (ws ! k) \<and> bEscaped (s ! k) = 0 \<and> \<not> bHyphenPoint (s ! k)"
      "\<forall>k < length s. length ws \<le> k \<longrightarrow> s ! k = zero_word" using arr(1) by (auto simp: array_ok_def)
  obtain cb where cb: "cv_init (tm_bytes W) 16 = Some (0, cb)" "cv_wf cb" "ccapacity cb = 16" "cdata cb = Some (replicate 16 0)"
    using cv_init_ok[OF M, of 16] by (auto simp: MINALLOC_def)
  have str: "cv_str cb = []" using cb(3,4) by (simp add: cv_str_def cstr_def nonzero_def)
  obtain c where c: "cv_strncat (tm_bytes W) cb val vallen = Some c" "cv_closed c" "cv_str c = w" "ccapacity c \<le> 2 ^ 50"
      "clength c = vallen + 1"
    using append_str[OF M cb(2), of vallen val "2 ^ 50"] cb(3) str val by auto
  have so: "string_ok c w" using c val(3) by (simp add: string_ok_def)
  let ?s = "s[length ws := \<lparr>rw_string = c, bHyphenPoint = False, bEscaped = 0\<rparr>]"
  have l: "sz (length ws + 1) = length ws + 1" using arr(2) s(2,4) by (intro sz_small) simp
  have "reflow_strarray_push W array val vallen 0 False = Some (array\<lparr>sa_strings := Some ?s, sa_length := length ws + 1\<rparr>)"
    using arr(2) s(1,2,3) cb(1) c(1) l by (simp add: reflow_strarray_push_def cv_appendstr_def wr_in)
  moreover have "array_ok (array\<lparr>sa_strings := Some ?s, sa_length := length ws + 1\<rparr>) (ws @ [w])"
    using s arr(2) so by (auto simp: array_ok_def nth_list_update nth_append less_Suc_eq)
  ultimately show ?thesis by auto
qed

text \<open>The characters of a plain text: 7 bits, no terminator and no colour tags.\<close>

definition plain_char :: "byte \<Rightarrow> bool" where
  "plain_char b \<longleftrightarrow> b \<noteq> 0 \<and> b \<noteq> 96 \<and> \<not> high b"

definition tokens :: "byte list \<Rightarrow> byte list list" where
  "tokens tx = filter (\<lambda>w. w \<noteq> []) (split_at_byte 32 tx)"

lemma tokens_space: "tokens (32 # tx) = tokens tx"
  by (simp add: tokens_def)

lemma tokens_spaces: "tokens (replicate k 32 @ tx) = tokens tx"
  by (induction k) (simp_all add: tokens_space)

lemma tokens_word: "w \<noteq> [] \<Longrightarrow> 32 \<notin> set w \<Longrightarrow> tokens (w @ 32 # tx) = w # tokens tx"
  by (simp add: tokens_def split_at_byte_some)

lemma tokens_last: "w \<noteq> [] \<Longrightarrow> 32 \<notin> set w \<Longrightarrow> tokens w = [w]"
  by (simp add: tokens_def split_at_byte_none)

text \<open>A text is spaces, then nothing, or a word at its end, or a word and a space.\<close>

lemma text_cases:
  obtains k where "tx = replicate k (32 :: byte)"
  | k w where "tx = replicate k 32 @ w" "w \<noteq> []" "32 \<notin> set w"
  | k w rest where "tx = replicate k 32 @ w @ 32 # rest" "w \<noteq> []" "32 \<notin> set w"
proof -
  define k where "k = length (takeWhile (\<lambda>b. b = 32) tx)"
  define r where "r = dropWhile (\<lambda>b. b = 32) tx"
  define w where "w = takeWhile (\<lambda>b. b \<noteq> 32) r"
  define q where "q = dropWhile (\<lambda>b. b \<noteq> 32) r"
  have "takeWhile (\<lambda>b. b = 32) tx = replicate k 32"
    unfolding k_def by (rule replicate_length_same[symmetric]) (auto dest: set_takeWhileD)
  then have t: "tx = replicate k 32 @ r" unfolding r_def by (metis takeWhile_dropWhile_id)
  have r: "r = w @ q" by (simp add: w_def q_def)
  have w: "32 \<notin> set w" unfolding w_def by (auto dest: set_takeWhileD)
  show ?thesis
  proof (cases "r = []")
    case True
    then show ?thesis using that(1)[of k] t by simp
  next
    case False
    then have "hd r \<noteq> 32" unfolding r_def by (rule hd_dropWhile)
    then have wn: "w \<noteq> []" using False unfolding w_def by (cases r) auto
    show ?thesis
    proof (cases q)
      case Nil
      then show ?thesis using that(2)[of k w] t r w wn by simp
    next
      case (Cons b rest)
      then have "b = 32" using hd_dropWhile[of "\<lambda>b. b \<noteq> 32" r] by (simp add: q_def)
      then show ?thesis using that(3)[of k w rest] t r w wn Cons by simp
    qed
  qed
qed

lemma strtok_word:
  assumes buf: "drop pos buf = replicate k 32 @ w @ d # tail" and w: "w \<noteq> []" "set w \<inter> {0, 32, 96} = {}" and d: "d = 0 \<or> d = 32"
  shows "c_strtok delimiters buf pos =
    (if d = 0 then Some (Some (pos + k), pos + k + length w, buf)
     else Some (Some (pos + k), pos + k + length w + 1, buf[pos + k + length w := 0]))"
proof -
  have le: "pos \<le> length buf" using buf by (cases "pos \<le> length buf") auto
  have nth: "buf ! (pos + i) = (replicate k 32 @ w @ d # tail) ! i" for i
    using buf[symmetric] le by simp
  obtain x xs where x: "w = x # xs" "x \<notin> {0, 32, 96}" using w by (cases w) auto
  then have hd: "hd w \<notin> {0, 32, 96}" by simp
  have "first_idx (\<lambda>b. b \<notin> set delimiters) (replicate k 32 @ x # xs @ d # tail) = Some (length (replicate k (32::byte)))"
    using x(2) by (intro first_idx_skip) (auto simp: delimiters_def)
  then have 1: "first_idx (\<lambda>b. b \<notin> set delimiters) (drop pos buf) = Some k"
    unfolding buf x(1) by simp
  have "drop (pos + k) buf = drop k (drop pos buf)" by (simp add: add.commute)
  then have 2: "drop (pos + k) buf = w @ d # tail" unfolding buf by simp
  have 3: "first_idx (\<lambda>b. b = 0 \<or> b \<in> set delimiters) (w @ d # tail) = Some (length w)"
    using w(2) d by (intro first_idx_skip) (auto simp: delimiters_def)
  have "(w @ d # tail) ! 0 = hd w" using w(1) by (cases w) auto
  then have 4: "buf ! (pos + k) \<noteq> 0" using nth[of k] hd by (simp add: nth_append)
  have 5: "buf ! (pos + k + length w) = d" using nth[of "k + length w"] by (simp add: nth_append add.assoc)
  show ?thesis unfolding c_strtok_def 1 using 2 3 4 5 d by (auto simp: Let_def)
qed

lemma strtok_end:
  assumes buf: "drop pos buf = replicate k 32 @ 0 # tail"
  shows "\<exists>save. c_strtok delimiters buf pos = Some (None, save, buf)"
proof -
  have le: "pos \<le> length buf" using buf by (cases "pos \<le> length buf") auto
  have "buf ! (pos + k) = (replicate k 32 @ 0 # tail) ! k" using buf[symmetric] le by simp
  then have "buf ! (pos + k) = 0" by (simp add: nth_append)
  moreover have "first_idx (\<lambda>b. b \<notin> set delimiters) (drop pos buf) = Some k"
    unfolding buf using first_idx_skip[of "replicate k 32" "\<lambda>b. b \<notin> set delimiters" 0 tail] by (auto simp: delimiters_def)
  ultimately show ?thesis by (simp add: c_strtok_def)
qed

lemma store_token_ok:
  assumes W: "grants_text W" and arr: "array_ok (tk_out t) ws" "length ws < sa_capacity (tk_out t)"
    and mem: "start + len \<le> length mem" "start + len < 2 ^ 48" "96 \<notin> set (take len (drop start mem))"
    and tok: "drop offset buf = w @ 0 # tail" "0 \<notin> set w" "offset + length w < len"
  shows "\<exists>t'. store_token W mem start len False buf offset t = Some t' \<and> array_ok (tk_out t') (ws @ [w]) \<and>
    sa_capacity (tk_out t') = sa_capacity (tk_out t)"
proof -
  have "c_strlen (w @ 0 # tail) = Some (length w)" using tok(2) by (simp add: c_strlen_ok terminated_def cstr_zero)
  then have sl: "c_strlen (drop offset buf) = Some (length w)" by (simp only: tok(1))
  have esc: "is_escaped mem start len (lastescapetoken t) offset (length w) = Some False"
  proof (cases "offset > 0")
    case True
    have "sz (start + (offset - 1)) = start + (offset - 1)" using mem(2) tok(3) by (intro sz_small) simp
    then have at: "input_at mem start (offset - 1) = Some (mem ! (start + (offset - 1)))"
      using mem(1) tok(3) by (simp add: input_at_def rd_def)
    have "take len (drop start mem) ! (offset - 1) = mem ! (start + (offset - 1))"
      using mem(1) tok(3) by simp
    moreover have "offset - 1 < length (take len (drop start mem))" using mem(1) tok(3) by simp
    ultimately have "mem ! (start + (offset - 1)) \<in> set (take len (drop start mem))" by (metis nth_mem)
    then obtain c where "input_at mem start (offset - 1) = Some c" "c \<noteq> 96" using mem(3) at by metis
    then show ?thesis by (simp add: is_escaped_def)
  qed (simp add: is_escaped_def)
  have "length w \<le> length (drop offset buf)" "cstr (take (length w) (drop offset buf)) = w"
    using tok(1,2) by (simp_all add: cstr_id)
  then obtain out' where "reflow_strarray_push W (tk_out t) (drop offset buf) (length w) 0 False = Some out'"
      "array_ok out' (ws @ [w])" "sa_capacity out' = sa_capacity (tk_out t)"
    using strarray_push_ok[OF W arr, of "length w" "drop offset buf" w] tok(3) mem(2) by auto
  then show ?thesis using sl esc by (simp add: store_token_def Let_def)
qed

lemma token_loop_ok:
  assumes W: "grants_text W" and mem: "start + len \<le> length mem" "start + len < 2 ^ 48" "96 \<notin> set (take len (drop start mem))"
  shows "drop pos buf = tx @ [0, 0] \<Longrightarrow> pos + length tx + 1 = len \<Longrightarrow> 0 \<notin> set tx \<Longrightarrow> 96 \<notin> set tx \<Longrightarrow>
    array_ok (tk_out t) ws \<Longrightarrow> length ws + length (tokens tx) \<le> sa_capacity (tk_out t) \<Longrightarrow>
    \<exists>t'. token_loop W mem start len False buf pos t = Some t' \<and> array_ok (tk_out t') (ws @ tokens tx) \<and>
      sa_capacity (tk_out t') = sa_capacity (tk_out t)"
proof (induction "length tx" arbitrary: tx pos buf t ws rule: less_induct)
  case less
  have lp: "pos \<le> length buf" using less.prems(1) by (cases "pos \<le> length buf") auto
  show ?case
  proof (cases rule: text_cases[of tx])
    case (1 k)
    have "drop pos buf = replicate k 32 @ 0 # [0]" using less.prems(1) 1 by simp
    then obtain save where "c_strtok delimiters buf pos = Some (None, save, buf)" using strtok_end by blast
    moreover have "tokens tx = []" using tokens_spaces[of k "[]"] 1 by (simp add: tokens_def)
    ultimately show ?thesis using less.prems(5) by (subst token_loop.simps) simp
  next
    case (2 k w)
    have w: "set w \<inter> {0, 32, 96} = {}" using less.prems(3,4) 2 by auto
    have "drop pos buf = replicate k 32 @ w @ 0 # [0]" using less.prems(1) 2 by simp
    then have st: "c_strtok delimiters buf pos = Some (Some (pos + k), pos + k + length w, buf)"
      using strtok_word[OF _ 2(2) w] by simp
    have lt: "length tx = k + length w" "0 < length w" using 2 by simp_all
    have tk: "tokens tx = [w]" using 2 tokens_spaces[of k w] tokens_last[OF 2(2,3)] by simp
    have "drop (pos + k) buf = w @ 0 # [0]"
      using arg_cong[OF less.prems(1), of "drop k"] 2 by (simp add: add.commute)
    moreover have "0 \<notin> set w" using w by auto
    ultimately obtain t1 where t1: "store_token W mem start len False buf (pos + k) t = Some t1"
        "array_ok (tk_out t1) (ws @ [w])" "sa_capacity (tk_out t1) = sa_capacity (tk_out t)"
      using store_token_ok[OF W less.prems(5) _ mem, of "pos + k" buf w "[0]"] less.prems(2,6) lt tk by auto
    have "drop (pos + k + length w) buf = [] @ 0 # [0]"
      using arg_cong[OF less.prems(1), of "drop (k + length w)"] 2 by (simp add: ac_simps)
    then obtain save where "c_strtok delimiters buf (pos + k + length w) = Some (None, save, buf)"
      using strtok_end[of "pos + k + length w" buf 0] by auto
    then have "token_loop W mem start len False buf (pos + k + length w) t1 = Some t1"
      by (subst token_loop.simps) simp
    moreover have "\<not> int len - 1 \<le> int (pos + k)" using less.prems(2) lt by linarith
    ultimately have "token_loop W mem start len False buf pos t = Some t1"
      using st t1(1) by (subst token_loop.simps) simp
    then show ?thesis using t1 tk by simp
  next
    case (3 k w rest)
    have w: "set w \<inter> {0, 32, 96} = {}" using less.prems(3,4) 3 by auto
    let ?p = "pos + k + length w" and ?buf = "buf[pos + k + length w := 0]"
    have full: "drop pos buf = replicate k 32 @ w @ 32 # (rest @ [0, 0])" using less.prems(1) 3 by simp
    then have st: "c_strtok delimiters buf pos = Some (Some (pos + k), ?p + 1, ?buf)"
      using strtok_word[OF _ 3(2) w] by simp
    have lt: "length tx = k + length w + 1 + length rest" "0 < length w" using 3 by simp_all
    have tk: "tokens tx = w # tokens rest" using 3 tokens_spaces[of k] tokens_word[OF 3(2,3)] by simp
    have b1: "drop (pos + k) buf = w @ 32 # rest @ [0, 0]"
      using arg_cong[OF full, of "drop k"] by (simp add: add.commute)
    have "drop (pos + k) ?buf = (drop (pos + k) buf)[length w := 0]"
      by (simp add: drop_update_swap)
    then have "drop (pos + k) ?buf = w @ 0 # rest @ [0, 0]" unfolding b1 by (simp add: list_update_append)
    moreover have "0 \<notin> set w" using w by auto
    ultimately obtain t1 where t1: "store_token W mem start len False ?buf (pos + k) t = Some t1"
        "array_ok (tk_out t1) (ws @ [w])" "sa_capacity (tk_out t1) = sa_capacity (tk_out t)"
      using store_token_ok[OF W less.prems(5) _ mem, of "pos + k" ?buf w "rest @ [0, 0]"] less.prems(2,6) lt tk by auto
    have "drop (?p + 1) ?buf = drop (?p + 1) buf" by simp
    also have "\<dots> = rest @ [0, 0]"
      using arg_cong[OF full, of "drop (k + length w + 1)"] by (simp add: ac_simps)
    finally have b2: "drop (?p + 1) ?buf = rest @ [0, 0]" .
    have pre: "length rest < length tx" "?p + 1 + length rest + 1 = len" "0 \<notin> set rest" "96 \<notin> set rest"
      using less.prems(2,3,4) lt 3(1) by auto
    obtain t' where "token_loop W mem start len False ?buf (?p + 1) t1 = Some t'"
        "array_ok (tk_out t') ((ws @ [w]) @ tokens rest)" "sa_capacity (tk_out t') = sa_capacity (tk_out t1)"
      using less.hyps[OF pre(1) b2 pre(2,3,4) t1(2)] less.prems(6) tk t1(3) by auto
    moreover have "\<not> int len - 1 \<le> int (pos + k)" using less.prems(2) lt by linarith
    ultimately show ?thesis using st t1(1,3) tk by (subst token_loop.simps) simp
  qed
qed

lemma TokenizeString_ok:
  assumes W: "grants_text W" and arr: "array_ok array []" "length (tokens tx) \<le> sa_capacity array"
    and mem: "start + len \<le> length mem" "start + len < 2 ^ 48" "take len (drop start mem) = tx @ [0]"
    and tx: "0 \<notin> set tx" "96 \<notin> set tx"
  shows "\<exists>array'. TokenizeString W mem start len array False = Some array' \<and> array_ok array' (tokens tx) \<and>
    sa_capacity array' = sa_capacity array"
proof -
  have M: "grants_all (tm_bytes W)" using W by (simp add: grants_text_def)
  have len: "length tx + 1 = len" using arg_cong[OF mem(3), of length] mem(1) by simp
  have sz: "sz (len + 1) = len + 1" using mem(2) by (intro sz_small) simp
  let ?m = "map (fresh (tm_bytes W)) [0..<len + 1]"
  have 1: "malloc_cells (tm_bytes W) 1 (len + 1) = Some ?m" using M by (simp add: mem_simps)
  have 2: "read_cells mem start len = Some (tx @ [0])" using mem(1,3) by (simp add: mem_simps)
  define c where "c = tx @ [0] @ drop len ?m"
  have 3: "copy_cells ?m 0 (tx @ [0]) = Some c" using len by (simp add: mem_simps c_def)
  have lc: "length c = len + 1" using len by (simp add: c_def)
  have "c[len := 0] = tx @ [0, 0]"
  proof (rule nth_equalityI)
    show "c[len := 0] ! i = (tx @ [0, 0]) ! i" if "i < length (c[len := 0])" for i
      using that lc len by (auto simp: c_def nth_list_update nth_append nth_Cons' less_Suc_eq)
  qed (use lc len in simp)
  then have 4: "wr c len 0 = Some (tx @ [0, 0])" using lc by (simp add: wr_def)
  obtain r a b where i: "cv_init (tm_bytes W) 32 = Some (0, r)" "cv_init (tm_bytes W) 16 = Some (0, a)"
    using cv_init_ok[OF M, of 32] cv_init_ok[OF M, of 16] by auto
  have noq: "96 \<notin> set (take len (drop start mem))" using mem(3) tx(2) by simp
  define t0 where "t0 = \<lparr>lastescapetoken = 0, rebuilttoken = r, half_a = a, half_b = a, tk_out = array\<rparr>"
  obtain t' where "token_loop W mem start len False (tx @ [0, 0]) 0 t0 = Some t'" "array_ok (tk_out t') ([] @ tokens tx)"
      "sa_capacity (tk_out t') = sa_capacity (tk_out t0)"
    using token_loop_ok[OF W mem(1,2) noq, of 0 "tx @ [0, 0]" tx t0 "[]"] len tx arr by (auto simp: t0_def)
  then show ?thesis using sz 1 2 3 4 i by (simp add: TokenizeString_def t0_def)
qed

text \<open>The widths of plain words are their lengths.\<close>

lemma plain_width:
  assumes "string_ok str w" "\<forall>b \<in> set w. \<not> high b" "length w < 2 ^ 48"
  shows "utf8strnlen fuel (cells (cdata str)) (clength str) = Returns (length w)"
proof -
  have so: "cv_closed str" "cv_str str = w" "clength str = length w + 1" using assms(1) by (auto simp: string_ok_def)
  have le: "clength str \<le> length (cells (cdata str))" using so(1) by (auto simp: cv_closed_def cv_wf_def)
  have c: "cstr (take (length w + 1) (cells (cdata str))) = w" using cv_str_take[OF so(1), of "length w + 1"] so(2) by simp
  then have "terminated (take (length w + 1) (cells (cdata str)))" using le so(3) by (simp add: terminated_iff)
  then obtain ys where ys: "take (length w + 1) (cells (cdata str)) = w @ 0 # ys" using terminated_split c by metis
  have "length (take (length w + 1) (cells (cdata str))) = length w + 1" using le so(3) by simp
  then have "ys = []" unfolding ys by simp
  then have "first_idx high (take (clength str) (cells (cdata str))) = None"
    using ys so(3) assms(2) by (auto simp: first_idx_None high_def)
  then have f: "utf8findstart64 (cells (cdata str)) (clength str) = Some None" using utf8findstart64_ok[OF le] by simp
  have "sz_sub (clength str) 0 = clength str" "sz (length w) = length w"
    using so(3) assms(3) by (simp_all add: sz_sub_le sz_small)
  moreover have "c_strnlen (cells (cdata str)) (clength str) = Some (length w)"
    using c_strnlen_ok[of "clength str" "cells (cdata str)"] le c so(3) by simp
  ultimately show ?thesis using f by (simp add: utf8strnlen_def)
qed

lemma int32_of_nat: "n < 2 ^ 31 \<Longrightarrow> int32_of (int n) = int n"
  using to_int32_small[of n] by (simp add: int32_of_def to_int32_def)

lemma word_offsets_ok:
  assumes W: "grants_text W"
  shows "list_all2 (\<lambda>x w. bEscaped x = 0 \<and> string_ok (rw_string x) w) xs ws \<Longrightarrow> \<forall>w \<in> set ws. \<forall>b \<in> set w. \<not> high b \<Longrightarrow>
    stack_wf st \<Longrightarrow> stack_items st = ys @ [int base] \<Longrightarrow> is_length st + length ws < 2 ^ 50 \<Longrightarrow>
    base + sum_list (map length ws) < 2 ^ 31 \<Longrightarrow>
    \<exists>st'. word_offsets W fuel xs st = Returns st' \<and> stack_wf st' \<and>
      stack_items st' = ys @ map (\<lambda>k. int (base + sum_list (map length (take k ws)))) [0..<Suc (length ws)]"
proof (induction xs arbitrary: ws st ys base)
  case Nil
  then show ?case by simp
next
  case (Cons x xs)
  obtain w ws' where ws: "ws = w # ws'" "bEscaped x = 0" "string_ok (rw_string x) w"
      "list_all2 (\<lambda>x w. bEscaped x = 0 \<and> string_ok (rw_string x) w) xs ws'"
    using Cons.prems(1) by (auto simp: list_all2_Cons1)
  obtain d where d: "is_data st = Some d" "is_length st \<le> length d" using Cons.prems(3) by (auto simp: stack_wf_def)
  have ln: "is_length st = Suc (length ys)" using length_stack_items[OF Cons.prems(3)] Cons.prems(4) by simp
  have "take (Suc (length ys)) d = ys @ [int base]" using Cons.prems(4) d ln by (simp add: stack_items_def)
  then have "d ! length ys = int base" by (metis lessI nth_append_length nth_take)
  moreover have "sz_sub (Suc (length ys)) 1 = length ys" using Cons.prems(5) ln by (subst sz_sub_le) simp_all
  ultimately have peek: "reflow_intstack_peek st = Some (int base)"
    using d ln by (simp add: reflow_intstack_peek_def rd_in)
  have wid: "utf8strnlen fuel (cells (cdata (rw_string x))) (clength (rw_string x)) = Returns (length w)"
    using plain_width[OF ws(3)] Cons.prems(2,6) ws(1) by auto
  have i32: "int32_of (int base + int (length w)) = int (base + length w)"
    using int32_of_nat[of "base + length w"] Cons.prems(6) ws(1) by simp
  obtain st1 where st1: "reflow_intstack_push W st (int (base + length w)) = Some st1" "stack_wf st1"
      "stack_items st1 = (ys @ [int base]) @ [int (base + length w)]"
    using intstack_push_ok[OF W Cons.prems(3)] Cons.prems(4,5) by fastforce
  have "is_length st1 = is_length st + 1"
    using length_stack_items[OF st1(2)] length_stack_items[OF Cons.prems(3)] st1(3) Cons.prems(4) by simp
  then obtain st' where st': "word_offsets W fuel xs st1 = Returns st'" "stack_wf st'"
      "stack_items st' = (ys @ [int base]) @ map (\<lambda>k. int (base + length w + sum_list (map length (take k ws')))) [0..<Suc (length ws')]"
    using Cons.IH[OF ws(4) _ st1(2,3)] Cons.prems(2,5,6) ws(1) by auto
  have "word_offsets W fuel (x # xs) st = Returns st'"
    using peek wid i32 st1(1) st'(1) ws(2) by simp
  moreover have "[0..<Suc (length ws)] = 0 # map Suc [0..<Suc (length ws')]"
    using ws(1) by (simp add: map_Suc_upt upt_conv_Cons del: upt_Suc)
  then have "stack_items st' = ys @ map (\<lambda>k. int (base + sum_list (map length (take k ws)))) [0..<Suc (length ws)]"
    unfolding st'(3) ws(1) by (simp add: o_def add.assoc del: upt_Suc)
  ultimately show ?case using st'(2) by blast
qed

lemma find_breaks_ok:
  assumes W: "grants_text W" and arr: "array_ok array ws" "length ws < sa_capacity array" "length ws < 64"
    and pl: "\<forall>w \<in> set ws. \<forall>b \<in> set w. \<not> high b" and len: "sum_list (map length ws) < 2 ^ 30"
    and width: "0 \<le> width" "width \<le> 2901"
  shows "\<exists>T. find_breaks W fuel width array = Returns T \<and> solved_for (\<lambda>p k. True) (map length ws) width T"
proof -
  obtain s where s: "sa_strings array = Some s" "length s = sa_capacity array" "sa_length array = length ws"
      "\<forall>k < length ws. string_ok (rw_string (s ! k)) (ws ! k) \<and> bEscaped (s ! k) = 0 \<and> \<not> bHyphenPoint (s ! k)"
      "\<forall>k < length s. length ws \<le> k \<longrightarrow> s ! k = zero_word" using arr(1) by (auto simp: array_ok_def)
  let ?n = "length ws"
  have c: "stack_wf (reflow_intstack_create W (?n + 1))" "stack_items (reflow_intstack_create W (?n + 1)) = []"
    using intstack_create_ok[OF W, of "?n + 1"] arr(3) by auto
  have "is_length (reflow_intstack_create W (?n + 1)) < 2 ^ 50" by (simp add: reflow_intstack_create_def Let_def)
  then obtain st0 where st0: "reflow_intstack_push W (reflow_intstack_create W (?n + 1)) 0 = Some st0" "stack_wf st0"
      "stack_items st0 = [] @ [int 0]"
    using intstack_push_ok[OF W c(1)] c(2) by fastforce
  have l0: "is_length st0 = 1" using length_stack_items[OF st0(2)] st0(3) by simp
  have la: "list_all2 (\<lambda>x w. bEscaped x = 0 \<and> string_ok (rw_string x) w) (take ?n s) ws"
    using s(2,4) arr(2) by (auto simp: list_all2_conv_all_nth)
  obtain st1 where st1: "word_offsets W fuel (take ?n s) st0 = Returns st1" "stack_wf st1"
      "stack_items st1 = [] @ map (\<lambda>k. int (0 + sum_list (map length (take k ws)))) [0..<Suc ?n]"
    using word_offsets_ok[OF W la pl st0(2,3)] l0 arr(3) len by auto
  define offs where "offs = cells (is_data st1)"
  have lo: "?n < length offs" using arg_cong[OF st1(3), of length] by (simp add: stack_items_def offs_def)
  have "\<forall>k \<le> ?n. offs ! k = int (sum_list (take k (map length ws)))"
  proof (intro allI impI)
    fix k assume k: "k \<le> ?n"
    have "is_length st1 = Suc ?n" using arg_cong[OF st1(3), of length] length_stack_items[OF st1(2)] by simp
    then have "take (Suc ?n) offs ! k = map (\<lambda>k. int (sum_list (map length (take k ws)))) [0..<Suc ?n] ! k"
      using st1(3) by (simp add: stack_items_def offs_def)
    also have "\<dots> = int (sum_list (map length (take k ws)))" using k by (subst nth_map) (simp_all del: upt_Suc)
    finally show "offs ! k = int (sum_list (take k (map length ws)))" using k by (simp add: take_map)
  qed
  then have oo: "offsets_of (map length ws) offs" using lo len arr(3) by (simp add: offsets_of_def)
  have pw: "plain_words s (length (map length ws))"
    using s(2,4,5) arr(2) by (auto simp: plain_words_def zero_word_def le_less)
  have w2: "width * width \<le> 0x808080"
    using mult_mono[OF width(2) width(2)] width(1) by simp
  have bound: "int ((length (map length ws) + 1) * length (map length ws)) * width < 2 ^ 31"
  proof -
    define p where "p = (?n + 1) * ?n"
    have "p \<le> 64 * 63" unfolding p_def using arr(3) by (intro mult_mono) auto
    then have "int p * width \<le> 4032 * 2901" using width by (intro mult_mono) auto
    then show ?thesis by (simp add: p_def)
  qed
  obtain T where T: "outer_loop s offs ?n width 0 (start_tables ?n) = Some T" "solved_for (\<lambda>p k. True) (map length ws) width T"
    using find_breaks_solved[OF oo pw width(1) w2 bound] by auto
  have ml: "malloc_cells (tm_ints W) sizeof_int m \<noteq> None" for m
    using W by (simp add: grants_text_def mem_simps)
  then obtain d where "malloc_cells (tm_ints W) sizeof_int (sz (sizeof_int * (?n + 1))) = Some d" by blast
  then have "find_breaks W fuel width array = Returns T"
    using st0(1) st1(1) T(1) s(1,3) by (simp add: find_breaks_def Let_def offs_def)
  then show ?thesis using T(2) by blast
qed

lemma slack_sum_bound:
  "0 \<le> width \<Longrightarrow> \<forall>l \<in> set ls. l \<noteq> [] \<and> linew l \<le> width \<Longrightarrow>
   sum_list (map (slack width) ls) \<le> int (length (concat ls)) * (width * width)"
proof (induction ls)
  case (Cons l ls)
  have l: "0 \<le> linew l" "linew l \<le> width" "1 \<le> length l"
    using Cons.prems(2) linew_nonneg[of l] by (auto simp: Suc_le_eq)
  then have "slack width l \<le> width * width" unfolding slack_def by (intro mult_mono) auto
  also have "\<dots> \<le> int (length l) * (width * width)"
    using mult_right_mono[of 1 "int (length l)" "width * width"] l(3) by simp
  finally show ?case using Cons by (simp add: distrib_right)
qed simp

lemma layout_small_badness:
  assumes "layout width ws ls" "0 \<le> width" "width \<le> 2901" "length ws < 64"
  shows "badness width ls < reflow_INF"
proof -
  have "\<forall>l \<in> set (butlast ls). l \<noteq> [] \<and> linew l \<le> width"
    using assms(1) by (auto simp: layout_def dest: in_set_butlastD)
  then have "badness width ls \<le> int (length (concat (butlast ls))) * (width * width)"
    unfolding badness_def by (rule slack_sum_bound[OF assms(2)])
  moreover have "length (concat (butlast ls)) \<le> length ws"
  proof -
    have "concat (butlast ls) @ last ls = ws" using assms(1) by (metis layout_def append_butlast_last_id concat.simps concat_append append_Nil2)
    then show ?thesis by (metis length_append le_add1)
  qed
  then have "int (length (concat (butlast ls))) * (width * width) \<le> 63 * (2901 * 2901)"
    using assms(2-4) by (intro mult_mono) auto
  ultimately show ?thesis by (simp add: reflow_INF_def)
qed

definition indented :: "nat \<Rightarrow> byte list list \<Rightarrow> byte list list" where
  "indented k ws = (case ws of [] \<Rightarrow> [] | w # r \<Rightarrow> (replicate k 32 @ w) # r)"

lemma indent_first_word_ok:
  assumes W: "grants_text W" and arr: "array_ok array ws" "ws \<noteq> []" and k: "k < 2 ^ 8"
    and ws: "0 \<notin> set (hd ws)" "length (hd ws) < 2 ^ 48"
  shows "\<exists>array'. indent_first_word W k array = Some array' \<and> array_ok array' (indented k ws) \<and>
    sa_capacity array' = sa_capacity array"
proof (cases "k = 0")
  case True
  then show ?thesis using arr by (cases ws) (auto simp: indent_first_word_def indented_def)
next
  case False
  have M: "grants_all (tm_bytes W)" using W by (simp add: grants_text_def)
  obtain w r where w: "ws = w # r" using arr(2) by (cases ws) auto
  obtain s where s: "sa_strings array = Some s" "length s = sa_capacity array" "sa_length array = length ws" "length ws \<le> length s"
      "length s < 2 ^ 50"
      "\<forall>k < length ws. string_ok (rw_string (s ! k)) (ws ! k) \<and> bEscaped (s ! k) = 0 \<and> \<not> bHyphenPoint (s ! k)"
      "\<forall>k < length s. length ws \<le> k \<longrightarrow> s ! k = zero_word" using arr(1) by (auto simp: array_ok_def)
  have so: "string_ok (rw_string (s ! 0)) w" "0 < length s" "bEscaped (s ! 0) = 0" "\<not> bHyphenPoint (s ! 0)"
    using s(4,6) w by auto
  have cl: "clength (rw_string (s ! 0)) = length w + 1" using so(1) by (simp add: string_ok_def)
  have wl: "length w < 2 ^ 48" "0 \<notin> set w" using ws w by auto
  have "sz (clength (rw_string (s ! 0)) + 2) = length w + 3" using cl wl(1) by (subst sz_small) simp_all
  moreover obtain sp where sp: "cv_init (tm_bytes W) (length w + 3) = Some (0, sp)" "cv_wf sp" "ccapacity sp = max (length w + 3) MINALLOC"
    using cv_init_ok[OF M, of "length w + 3"] wl(1) by auto
  moreover have "c_strlen (cells (cdata (rw_string (s ! 0)))) = Some (length w) \<and> take (length w) (cells (cdata (rw_string (s ! 0)))) = w"
  proof -
    let ?d = "cells (cdata (rw_string (s ! 0)))"
    have c: "cv_closed (rw_string (s ! 0))" "cv_str (rw_string (s ! 0)) = w" using so(1) by (simp_all add: string_ok_def)
    have "cstr (take (length w + 1) ?d) = w" using cv_str_take[OF c(1)] c(2) by simp
    moreover have "length w < length ?d" using c by (auto simp: cv_closed_def cv_wf_def)
    ultimately have t: "terminated (take (length w + 1) ?d)" by (simp add: terminated_iff)
    then obtain ys where ys: "take (length w + 1) ?d = w @ 0 # ys"
      using terminated_split \<open>cstr (take (length w + 1) ?d) = w\<close> by metis
    have "?d = take (length w + 1) ?d @ drop (length w + 1) ?d" by simp
    then have d: "?d = w @ 0 # (ys @ drop (length w + 1) ?d)" unfolding ys by simp
    have "cstr (w @ 0 # (ys @ drop (length w + 1) ?d)) = w" by (rule cstr_zero[OF wl(2)])
    then show ?thesis using c_strlen_ok[of ?d] d by (metis append_eq_conv_conj in_set_conv_decomp terminated_def)
  qed
  moreover have "length (replicate k 32 @ w) < 2 ^ 60" "0 \<notin> set (replicate k (32 :: byte) @ w)" using wl k by auto
  then obtain sp' where sp': "cv_sprintf (tm_bytes W) sp (replicate k 32 @ w) = Some sp'" "cv_closed sp'"
      "cv_bytes sp' = (replicate k 32 @ w) @ [0]" "cv_str sp' = replicate k 32 @ w"
      "ccapacity sp' \<le> max (2 * ccapacity sp) (length (replicate k (32 :: byte) @ w) + 1)"
    using cv_sprintf_ok[OF M sp(2), of "replicate k 32 @ w"] sp(3) wl(1) by (auto simp: MINALLOC_def)
  ultimately have ind: "indent_first_word W k array =
      Some (array\<lparr>sa_strings := Some (s[0 := (s ! 0)\<lparr>rw_string := sp'\<rparr>])\<rparr>)"
    using False s(1) so(2) by (simp add: indent_first_word_def rd_in)
  have "clength sp' = length (replicate k 32 @ w) + 1"
    using length_cv_bytes[of sp'] sp'(2,3) by (simp add: cv_closed_def)
  moreover have "ccapacity sp' \<le> 2 ^ 50"
  proof -
    have "max (2 * max (length w + 3) 8) (length (replicate k (32 :: byte) @ w) + 1) \<le> 2 ^ 50" using k wl(1) by simp
    then show ?thesis using sp'(5) unfolding sp(3) MINALLOC_def by (rule order_trans[rotated])
  qed
  ultimately have "string_ok sp' (replicate k 32 @ w)"
    using sp'(2,4) by (auto simp: string_ok_def)
  then have "array_ok (array\<lparr>sa_strings := Some (s[0 := (s ! 0)\<lparr>rw_string := sp'\<rparr>])\<rparr>) (indented k ws)"
    using s so w by (auto simp: array_ok_def indented_def nth_list_update nth_Cons split: nat.splits)
  then show ?thesis using ind by auto
qed

lemma seg_map: "seg (map f ws) i j = map f (seg ws i j)"
  by (simp add: seg_def take_map drop_map)

lemma lines_of_map: "lines_of (map f ws) xs = map (map f) (lines_of ws xs)"
  by (induction ws xs rule: lines_of.induct) (simp_all add: seg_map)

lemma printed_text_length: "length (printed_text ls) \<le> length (concat (concat ls)) + length (concat ls) + length ls + 1"
proof -
  have "length (printed_line l) = length (concat l) + length l" for l
    by (induction l) (simp_all add: printed_line_def)
  then have "length (concat (map (\<lambda>l. printed_line l @ [10]) ls)) = length (concat (concat ls)) + length (concat ls) + length ls"
    by (induction ls) simp_all
  then show ?thesis by (simp add: printed_text_def)
qed

lemma tokens_chars: "w \<in> set (tokens tx) \<Longrightarrow> set w \<subseteq> set tx \<and> length w \<le> length tx \<and> w \<noteq> []"
proof -
  have "set w \<subseteq> set tx \<and> length w \<le> length tx" if "w \<in> set (split_at_byte 32 tx)" for w
    using that
  proof (induction tx arbitrary: w)
    case (Cons b tx)
    have "split_at_byte 32 tx = hd (split_at_byte 32 tx) # tl (split_at_byte 32 tx)" by simp
    then have hd: "hd (split_at_byte 32 tx) \<in> set (split_at_byte 32 tx)"
      and tl: "set (tl (split_at_byte 32 tx)) \<subseteq> set (split_at_byte 32 tx)" by (auto simp: list.set_sel(2))
    show ?case
    proof (cases "b = 32")
      case True
      then show ?thesis using Cons by fastforce
    next
      case False
      then consider "w = b # hd (split_at_byte 32 tx)" | "w \<in> set (split_at_byte 32 tx)"
        using Cons.prems tl by auto
      then show ?thesis using Cons.IH hd by cases (fastforce+)
    qed
  qed simp
  then show "w \<in> set (tokens tx) \<Longrightarrow> set w \<subseteq> set tx \<and> length w \<le> length tx \<and> w \<noteq> []" by (auto simp: tokens_def)
qed

lemma length_concat_split: "length (concat (split_at_byte c tx)) \<le> length tx"
proof (induction tx)
  case (Cons b tx)
  have "split_at_byte c tx = hd (split_at_byte c tx) # tl (split_at_byte c tx)" by simp
  then have "length (concat (split_at_byte c tx)) = length (hd (split_at_byte c tx)) + length (concat (tl (split_at_byte c tx)))"
    by (metis concat.simps(2) length_append)
  then show ?case using Cons by simp
qed simp

lemma length_concat_tokens: "length (concat (tokens tx)) \<le> length tx"
proof -
  have "concat (tokens tx) = concat (split_at_byte 32 tx)"
  proof -
    have "concat (filter (\<lambda>w. w \<noteq> []) xs) = concat xs" for xs :: "byte list list" by (induction xs) auto
    then show ?thesis by (simp add: tokens_def)
  qed
  then show ?thesis using length_concat_split[of 32 tx] by simp
qed

section \<open>Properties\<close>

text \<open>C4: reflowing a plain paragraph (7-bit text without colour tags, too long for one line, fewer than 64 words, a
  line width of at most 2901): the function returns, every word of the text is printed once, in order, each followed
  by a space, and the line breaks form a layout of least badness: no other way to cut the words into lines
  that fit, where the last line only has to fit without its last word, has a smaller sum of squared
  slacks over all lines but the last. The indentation counts as part of the first word.\<close>

theorem ReflowParagraph_best:
  assumes W: "grants_text W" and mem: "start + len \<le> length mem" "start + len < 2 ^ 29" "take len (drop start mem) = tx @ [0]"
    and tx: "\<forall>b \<in> set tx. plain_char b" and ws: "ws = indented k (tokens tx)" "ws \<noteq> []" "length ws < 64" and k: "k < 2 ^ 8"
    and width: "0 \<le> width" "width \<le> 2901" "width < int len" and some: "layout width (map length ws) ls0"
    and out: "cv_wf outp" "ccapacity outp \<le> 2 ^ 56" "length (cv_str outp) < 2 ^ 49" and fuel: "65 \<le> fuel"
  shows "\<exists>outp' ls. ReflowParagraph W fuel mem start len width outp k False = Returns outp' \<and>
    cv_str outp' = cv_str outp @ printed_text ls \<and> concat ls = ws \<and> layout width (map length ws) (map (map length) ls) \<and>
    (\<forall>ls'. layout width (map length ws) ls' \<longrightarrow> badness width (map (map length) ls) \<le> badness width ls')"
proof -
  let ?n = "length ws"
  have tk: "tokens tx \<noteq> []" "length (tokens tx) = ?n" using ws(1,2) by (auto simp: indented_def split: list.splits)
  have z: "0 \<notin> set tx" "96 \<notin> set tx" using tx by (auto simp: plain_char_def)
  have lt: "length tx + 1 = len" using arg_cong[OF mem(3), of length] mem(1) by simp
  obtain a0 where a0: "reflow_strarray_create W 64 = Some a0" "array_ok a0 []" "sa_capacity a0 = 64"
    using strarray_create_ok[OF W] by blast
  have "start + len < 2 ^ 48" using mem(2) by simp
  then obtain a1 where a1: "TokenizeString W mem start len a0 False = Some a1" "array_ok a1 (tokens tx)" "sa_capacity a1 = 64"
    using TokenizeString_ok[OF W a0(2) _ mem(1) _ mem(3) z] a0(3) tk(2) ws(3) by auto
  have hw: "set (hd (tokens tx)) \<subseteq> set tx" "length (hd (tokens tx)) \<le> length tx"
    using tokens_chars[OF hd_in_set[OF tk(1)]] by auto
  then have hw2: "0 \<notin> set (hd (tokens tx))" "length (hd (tokens tx)) < 2 ^ 48" using z(1) lt mem(2) by auto
  obtain a2 where a2: "indent_first_word W k a1 = Some a2" "array_ok a2 ws" "sa_capacity a2 = 64"
    using indent_first_word_ok[OF W a1(2) tk(1) k hw2] a1(3) ws(1) by auto
  have wsx: "set w \<subseteq> insert 32 (set tx) \<and> length w \<le> length tx + k" if "w \<in> set ws" for w
  proof -
    from that ws(1) tk(1) obtain t r where "tokens tx = t # r" "w = replicate k 32 @ t \<or> w \<in> set r"
      by (auto simp: indented_def split: list.splits)
    then show ?thesis using tokens_chars[of t tx] tokens_chars[of w tx] by auto
  qed
  have "\<not> high 32" by (simp add: high_def)
  then have pl: "\<forall>w \<in> set ws. \<forall>b \<in> set w. \<not> high b" using wsx tx by (auto simp: plain_char_def)
  have sl: "length (concat ws) \<le> length tx + k"
    using length_concat_tokens[of tx] tk(1) unfolding ws(1) by (cases "tokens tx") (auto simp: indented_def)
  then have "sum_list (map length ws) < 2 ^ 30" using lt mem(2) k by (simp add: length_concat)
  then obtain T where T: "find_breaks W fuel width a2 = Returns T" "solved_for (\<lambda>p k. True) (map length ws) width T"
    using find_breaks_ok[OF W a2(2) _ ws(3) pl _ width(1,2)] a2(3) ws(3) by auto
  have "badness width ls0 < reflow_INF"
    using layout_small_badness[OF some width(1,2)] ws(3) by simp
  then obtain r where r: "chain (breaks T) (?n # r)" "layout width (map length ws) (lines_of (map length ws) (?n # r))"
      "\<And>ls. layout width (map length ws) ls \<Longrightarrow> badness width (lines_of (map length ws) (?n # r)) \<le> badness width ls"
    using best_layout[OF T(2) some] by auto
  define ls where "ls = lines_of ws (?n # r)"
  have lm: "lines_of (map length ws) (?n # r) = map (map length) ls" by (simp add: ls_def lines_of_map)
  have cc: "concat ls = ws" using concat_lines_of[OF r(1), of ws] by (simp add: ls_def)
  have nl: "length ls \<le> ?n"
  proof -
    have "[] \<notin> set ls" using lines_of_nonempty[OF r(1), of ws] by (simp add: ls_def)
    then have "length ls \<le> length (concat ls)"
    proof (induction ls)
      case (Cons l ls)
      then show ?case by (cases l) auto
    qed simp
    then show ?thesis by (simp add: cc)
  qed
  have "length (printed_text ls) \<le> 2 ^ 48" using printed_text_length[of ls] nl sl cc ws(3) lt mem(2) k by simp
  then have room: "text_room outp (length (printed_text (lines_of ws (?n # r))) + 0)"
    using out by (simp add: text_room_def ls_def)
  have un: "unprinted (cells (sa_strings a2)) ws 0"
    using a2(2,3) ws(3) by (auto simp: array_ok_def unprinted_def zero_word_def le_less)
  have la: "sa_length a2 = ?n" using a2(2) by (auto simp: array_ok_def)
  have lb: "?n < length (breaks T)" using T(2) by (simp add: solved_for_def)
  obtain a3 outp' where p: "PerformReflow W fuel a2 (breaks T) outp = Returns (a3, outp')"
      "cv_str outp' = cv_str outp @ printed_text ls" "sa_length a3 = ?n" "?n \<le> length (cells (sa_strings a3))"
    using PerformReflow_ok[OF W un la r(1) _ lb _ room, of fuel] ws(3) fuel by (auto simp: ls_def)
  have "reflow_strarray_destroy a3 \<noteq> None" using p(3,4) by (simp add: reflow_strarray_destroy_def mem_simps)
  then obtain rel where rel: "reflow_strarray_destroy a3 = Some rel" by blast
  have "\<not> len \<le> sz_of_int width" using width by (simp add: sz_of_int_def)
  then have "ReflowParagraph W fuel mem start len width outp k False = Returns outp'"
    using a0(1) a1(1) a2(1) T(1) p(1) rel by (simp add: ReflowParagraph_def)
  then show ?thesis using p(2) cc r(2,3) unfolding lm by blast
qed

definition text_mgrs :: text_mem where
  "text_mgrs = \<lparr>tm_bytes = byte_mgr, tm_words = \<lparr>grants = (\<lambda>_. True), fresh = (\<lambda>_. zero_word)\<rparr>,
     tm_ints = \<lparr>grants = (\<lambda>_. True), fresh = (\<lambda>_. 7)\<rparr>\<rparr>"

lemma text_mgrs_grants: "grants_text text_mgrs"
  using byte_mgr_grants by (simp add: grants_text_def text_mgrs_def grants_all_def)

definition page :: cv_t where
  "page = \<lparr>cdata = Some (replicate 64 0), clength = 0, ccapacity = 64\<rparr>"

definition page_text :: "byte list" where
  "page_text = [111, 110, 101, 32, 116, 119, 111, 32, 116, 104, 114, 101, 101, 32, 102, 111, 117, 114]"

definition page_words :: "byte list list" where
  "page_words = [[32, 32, 111, 110, 101], [116, 119, 111], [116, 104, 114, 101, 101], [102, 111, 117, 114]]"

theorem ReflowParagraph_best_witness:
  "\<exists>outp' ls. ReflowParagraph text_mgrs 65 (page_text @ [0, 9]) 0 19 9 page 2 False = Returns outp' \<and>
    cv_str outp' = cv_str page @ printed_text ls \<and> concat ls = page_words \<and>
    layout 9 (map length page_words) (map (map length) ls) \<and>
    (\<forall>ls'. layout 9 (map length page_words) ls' \<longrightarrow> badness 9 (map (map length) ls) \<le> badness 9 ls')"
proof (rule ReflowParagraph_best[OF text_mgrs_grants])
  show "\<forall>b \<in> set page_text. plain_char b" by (simp add: page_text_def plain_char_def high_def)
  show "page_words = indented 2 (tokens page_text)" by code_simp
  show "layout 9 (map length page_words) [[5, 3], [5], [4]]" by (simp add: page_words_def layout_def linew_def)
qed (simp_all add: page_text_def page_words_def page_def cv_wf_def MINALLOC_def cv_str_def cstr_def nonzero_def)

lemma full_array_faults:
  "length strings = cnt \<Longrightarrow> i < cnt \<Longrightarrow> outer_loop strings offs cnt width i T = None"
proof (induction "cnt - i" arbitrary: i T rule: less_induct)
  case less
  show ?case
  proof (cases "i + 1 = cnt")
    case True
    then have "inner_loop strings offs cnt width i (i + 1) T = None"
      using less.prems by (subst inner_loop.simps) (simp add: rd_def)
    then show ?thesis using less.prems by (subst outer_loop.simps) simp
  next
    case False
    then have "outer_loop strings offs cnt width (i + 1) T' = None" for T'
      using less.hyps[of "i + 1"] less.prems by simp
    then show ?thesis
      using less.prems by (subst outer_loop.simps) (simp split: bind_splits)
  qed
qed

text \<open>a plain paragraph of exactly 64 words, the capacity of the word array, is undefined behaviour: the loop over
  the break points reads the hyphenation flag of the entry behind the last word, which is outside the
  array.\<close>

theorem ReflowParagraph_64_words:
  assumes W: "grants_text W" and mem: "start + len \<le> length mem" "start + len < 2 ^ 29" "take len (drop start mem) = tx @ [0]"
    and tx: "0 \<notin> set tx" "96 \<notin> set tx" and n: "length (tokens tx) = 64" and k: "k < 2 ^ 8" and width: "0 \<le> width" "width < int len"
  shows "ReflowParagraph W fuel mem start len width outp k False \<noteq> Returns x"
proof -
  have lt: "length tx + 1 = len" using arg_cong[OF mem(3), of length] mem(1) by simp
  obtain a0 where a0: "reflow_strarray_create W 64 = Some a0" "array_ok a0 []" "sa_capacity a0 = 64"
    using strarray_create_ok[OF W] by blast
  have "start + len < 2 ^ 48" using mem(2) by simp
  then obtain a1 where a1: "TokenizeString W mem start len a0 False = Some a1" "array_ok a1 (tokens tx)" "sa_capacity a1 = 64"
    using TokenizeString_ok[OF W a0(2) _ mem(1) _ mem(3) tx] a0(3) n by auto
  have tk: "tokens tx \<noteq> []" using n by auto
  have "set (hd (tokens tx)) \<subseteq> set tx" "length (hd (tokens tx)) \<le> length tx"
    using tokens_chars[OF hd_in_set[OF tk]] by auto
  then have hw2: "0 \<notin> set (hd (tokens tx))" "length (hd (tokens tx)) < 2 ^ 48" using tx(1) lt mem(2) by auto
  obtain a2 where a2: "indent_first_word W k a1 = Some a2" "array_ok a2 (indented k (tokens tx))" "sa_capacity a2 = 64"
    using indent_first_word_ok[OF W a1(2) tk k hw2] a1(3) by auto
  have "length (indented k (tokens tx)) = 64" using n tk by (auto simp: indented_def split: list.split)
  then have l: "sa_length a2 = 64" "length (cells (sa_strings a2)) = 64" using a2(2,3) by (auto simp: array_ok_def)
  have "outer_loop (cells (sa_strings a2)) offs 64 width 0 T = None" for offs T
    by (rule full_array_faults[OF l(2)]) simp
  then have "find_breaks W fuel width a2 \<noteq> Returns T" for T
    using l(1) by (auto simp: find_breaks_def Let_def and_then_def split: outcome.splits)
  moreover have "\<not> len \<le> sz_of_int width" using width mem(2) by (simp add: sz_of_int_def)
  ultimately show ?thesis
    using a0(1) a1(1) a2(1) by (auto simp: ReflowParagraph_def and_then_def split: outcome.splits)
qed

lemma tokens_repeated: "tokens (concat (replicate n [97, 32])) = replicate n [97]"
proof (induction n)
  case (Suc n)
  then show ?case using tokens_word[of "[97]" "concat (replicate n [97, 32])"] by simp
qed (simp add: tokens_def)

theorem ReflowParagraph_64_words_witness:
  "ReflowParagraph text_mgrs 99 (concat (replicate 64 [97, 32]) @ [0]) 0 129 40 page 0 False \<noteq> Returns page"
proof (rule ReflowParagraph_64_words[OF text_mgrs_grants])
  have l: "length (concat (replicate n [97, 32 :: byte])) = 2 * n" for n by (induction n) simp_all
  show "take 129 (drop 0 (concat (replicate 64 [97, 32]) @ [0])) = concat (replicate 64 [97, 32 :: byte]) @ [0]"
    using l[of 64] by simp
  show "length (tokens (concat (replicate 64 [97, 32 :: byte]))) = 64" by (simp only: tokens_repeated length_replicate)
  show "0 + 129 \<le> length (concat (replicate 64 [97, 32 :: byte]) @ [0])" using l[of 64] by simp
qed simp_all

end
