(* ===== verification/Server.thy ===== *)
theory Server
  imports Client TextUtil ThreadPool
begin

text \<open>
  server.c: the handlers that tie the parts together. The main thread accepts connections and turns input
  events into tasks; a worker runs \<open>HandleUserInputTask\<close> and then the release function of its package.
  Every handler is a function on the state \<open>server\<close>: the vector of client addresses, the clients that are
  allocated, the task packages, the memory pool, the thread pool, and the log of what the outside sees
  (system calls and calls into the scripts), in order.

  The kernel, zlib, \<open>float\<close> arithmetic and the scripts are the record \<open>platform\<close>, an argument of the
  handlers; a script call may change the whole state. Output to the console is left out, the mutexes too:
  a handler is one step, except for the release of a package, whose two steps are defined apart.
\<close>

section \<open>State\<close>

type_synonym mem_node = "nat \<times> node"

datatype script_call = OnPlayerConnect nat | OnPlayerInput nat "byte list" | OnPlayerDisconnect nat

datatype server_event =
    Ev_script script_call
  | Ev_send int "byte list"
  | Ev_answer int "byte list"
  | Ev_close int
  | Ev_epoll_add int nat
  | Ev_epoll_mod int nat
  | Ev_epoll_del int
  | Ev_free nat

text \<open>
  \<open>Ev_send\<close> holds the bytes the kernel accepted, \<open>Ev_answer\<close> a message the telnet machine writes (it ignores
  the result), \<open>Ev_free\<close> the release of a client's block. Addresses are numbers; \<open>store\<close> and \<open>pkgs\<close> are
  partial, so an access to a freed block is a fault.
\<close>

record ('z, 'f) server =
  clients :: "(nat, unit) vector"
  store :: "nat \<Rightarrow> ('z, 'f) client option"
  pkgs :: "mem_node \<Rightarrow> nat option"
  srv_pool :: memory_pool
  thread_pool :: "mem_node thread_pool"
  MOTD :: "byte list"
  MOTDlen :: nat
  cmd_pipe :: "byte list"
  events :: "server_event list"

record ('f, 'd) float_ops =
  fl_zero :: 'f
  d_of_long :: "int \<Rightarrow> 'd"
  d_plus :: "'d \<Rightarrow> 'd \<Rightarrow> 'd"
  d_divide :: "'d \<Rightarrow> 'd \<Rightarrow> 'd"
  fl_of_d :: "'d \<Rightarrow> 'f"
  fl_of_int :: "int \<Rightarrow> 'f"
  fl_plus :: "'f \<Rightarrow> 'f \<Rightarrow> 'f"
  fl_divide :: "'f \<Rightarrow> 'f \<Rightarrow> 'f"
  fl_ge :: "'f \<Rightarrow> 'f \<Rightarrow> bool"
  fl_gt :: "'f \<Rightarrow> 'f \<Rightarrow> bool"
  fl_print :: "'f \<Rightarrow> byte list"

record ('z, 'f, 'd) platform =
  env_bytes :: "byte mem_mgr"
  env_ptrs :: "nat mem_mgr"
  env_nodes :: "node prioqnode mem_mgr"
  env_blocks :: "nat \<Rightarrow> bool"
  env_zlib :: "'z zlib"
  env_fuel :: nat
  env_floats :: "('f, 'd) float_ops"
  env_sends :: "nat \<Rightarrow> int list"
  env_script :: "script_call \<Rightarrow> ('z, 'f) server \<Rightarrow> ('z, 'f) server"

text \<open>\<open>env_sends\<close> is the kernel's answers to the \<open>send\<close> calls of one message, by the number of events before it.\<close>

definition log_event :: "server_event \<Rightarrow> ('z, 'f) server \<Rightarrow> ('z, 'f) server" where
  "log_event ev s = s\<lparr>events := events s @ [ev]\<rparr>"

definition put_client :: "nat \<Rightarrow> ('z, 'f) client \<Rightarrow> ('z, 'f) server \<Rightarrow> ('z, 'f) server" where
  "put_client a c s = s\<lparr>store := (store s)(a \<mapsto> c)\<rparr>"

definition with_client :: "nat \<Rightarrow> ('z, 'f) server \<Rightarrow> (('z, 'f) client \<Rightarrow> 'r outcome) \<Rightarrow> 'r outcome" where
  "with_client a s f = (case store s a of Some c \<Rightarrow> f c | None \<Rightarrow> Faults)"

definition call_script :: "('z, 'f, 'd) platform \<Rightarrow> script_call \<Rightarrow> ('z, 'f) server \<Rightarrow> ('z, 'f) server" where
  "call_script E k s = env_script E k (log_event (Ev_script k) s)"

lemma store_simps [simp]:
  "store (put_client a c s) = (store s)(a \<mapsto> c)" "store (log_event ev s) = store s"
  "events (put_client a c s) = events s" "events (log_event ev s) = events s @ [ev]"
  "clients (put_client a c s) = clients s" "clients (log_event ev s) = clients s"
  "pkgs (put_client a c s) = pkgs s" "pkgs (log_event ev s) = pkgs s"
  "srv_pool (put_client a c s) = srv_pool s" "srv_pool (log_event ev s) = srv_pool s"
  by (simp_all add: put_client_def log_event_def)

lemma put_client_simps [simp]:
  "put_client a c' (put_client a c s) = put_client a c' s"
  "put_client a c (log_event ev s) = log_event ev (put_client a c s)"
  "store s a = Some c \<Longrightarrow> put_client a c s = s"
  by (simp_all add: put_client_def log_event_def fun_upd_idem)

lemma with_client_Some [simp]: "store s a = Some c \<Longrightarrow> with_client a s f = f c"
  by (simp add: with_client_def)

text \<open>A write to a client through client.c, with what the kernel accepted.\<close>

definition send_to ::
    "('z, 'f, 'd) platform \<Rightarrow> nat \<Rightarrow> (int list \<Rightarrow> ('z, 'f) client \<Rightarrow> int outcome \<times> byte list \<times> ('z, 'f) client)
     \<Rightarrow> ('z, 'f) server \<Rightarrow> (int \<times> ('z, 'f) server) outcome" where
  "send_to E a f s = with_client a s (\<lambda>c.
     case f (env_sends E (length (events s))) c of
       (r, out, c') \<Rightarrow> bind_outcome r (\<lambda>v.
         Returns (v, (if out = [] then id else log_event (Ev_send (sock c) out)) (put_client a c' s))))"

definition server_sendf ::
    "('z, 'f, 'd) platform \<Rightarrow> nat \<Rightarrow> byte list \<Rightarrow> ('z, 'f) server \<Rightarrow> (int \<times> ('z, 'f) server) outcome" where
  "server_sendf E a out = send_to E a (\<lambda>ws c. Client_Sendf (env_bytes E) (env_zlib E) (env_fuel E) ws c out)"

section \<open>Clients leaving\<close>

text \<open>\<open>ev_pkg.sockfd\<close> is set to \<open>sock\<close> when the client is made and never changed. A pointer to a freed client
  compares as different here; \<open>find_client\<close> makes such an access a fault.\<close>

definition CompClientSock :: "('z, 'f) server \<Rightarrow> int \<Rightarrow> nat \<Rightarrow> int" where
  "CompClientSock s key p = (case store s p of Some c \<Rightarrow> key - sock c | None \<Rightarrow> 1)"

definition find_client :: "('z, 'f) server \<Rightarrow> int \<Rightarrow> nat option outcome" where
  "find_client s key = bind_outcome (defined (Vector_Find (clients s) key (CompClientSock s))) (\<lambda>r.
     if list_all (\<lambda>p. store s p \<noteq> None)
          (take (case r of Some i \<Rightarrow> Suc i | None \<Rightarrow> Vector_Count (clients s)) (vector_items (clients s)))
     then Returns r else Faults)"

text \<open>The release function of the vector is \<open>Client_Destroy\<close>: it returns the client's buffers and its block.\<close>

definition release_client :: "(nat, unit) release \<Rightarrow> ('z, 'f) server \<Rightarrow> ('z, 'f) server outcome" where
  "release_client rel s =
     (let p = (case rel of FreeNode _ p \<Rightarrow> p | Tfree p \<Rightarrow> p) in
      with_client p s (\<lambda>_. Returns (log_event (Ev_free p) (s\<lparr>store := (store s)(p := None)\<rparr>))))"

definition Server_HandleClientDisconnect ::
    "('z, 'f, 'd) platform \<Rightarrow> nat \<Rightarrow> ('z, 'f) server \<Rightarrow> ('z, 'f) server outcome" where
  "Server_HandleClientDisconnect E a s = with_client a s (\<lambda>c.
     let s = log_event (Ev_close (sock c)) (put_client a (Client_Disconnect c) s) in
     if Client_GetRefCount c = 0 then
       (let s = call_script E (OnPlayerDisconnect a) s in
        with_client a s (\<lambda>c.
          bind_outcome (find_client s (sock c)) (\<lambda>found.
            case found of
              None \<Rightarrow> Returns s
            | Some foundkey \<Rightarrow>
                (let s = log_event (Ev_epoll_del (sock c)) s in
                 bind_outcome (defined (Vector_Remove (env_ptrs E) (clients s) foundkey)) (\<lambda>(_, rel, v).
                   release_client rel (s\<lparr>clients := v\<rparr>))))))
     else Returns s)"

definition Server_DisconnectClient ::
    "('z, 'f, 'd) platform \<Rightarrow> nat \<Rightarrow> ('z, 'f) server \<Rightarrow> ('z, 'f) server outcome" where
  "Server_DisconnectClient E a s = Server_HandleClientDisconnect E a s"

text \<open>
  Releasing the package of an input task: the reference is dropped and the count is read under separate
  locks, so another thread can run between these two steps.
\<close>

definition release_drop :: "nat \<Rightarrow> ('z, 'f) server \<Rightarrow> ('z, 'f) server outcome" where
  "release_drop a s = with_client a s (\<lambda>c. Returns (put_client a (Client_ReleaseRef c) s))"

definition release_check :: "('z, 'f, 'd) platform \<Rightarrow> nat \<Rightarrow> ('z, 'f) server \<Rightarrow> ('z, 'f) server outcome" where
  "release_check E a s = with_client a s (\<lambda>c.
     if bDisconnected c \<and> Client_GetRefCount c = 0 then Server_DisconnectClient E a s else Returns s)"

definition sizeof_HandleUserInputTaskPkg :: int where
  "sizeof_HandleUserInputTaskPkg = 16"

definition ReleaseHandleUserInputTaskPkg ::
    "('z, 'f, 'd) platform \<Rightarrow> mem_node \<Rightarrow> ('z, 'f) server \<Rightarrow> ('z, 'f) server outcome" where
  "ReleaseHandleUserInputTaskPkg E pkg s = bind_outcome (defined (pkgs s pkg)) (\<lambda>a.
     bind_outcome (release_drop a s) (\<lambda>s.
     bind_outcome (release_check E a s) (\<lambda>s.
     bind_outcome (defined (MemoryPool_Free sizeof_HandleUserInputTaskPkg pkg (srv_pool s))) (\<lambda>mp.
       Returns (s\<lparr>srv_pool := mp, pkgs := (pkgs s)(pkg := None)\<rparr>)))))"

section \<open>The rate limit\<close>

definition RearmClientSocket :: "nat \<Rightarrow> ('z, 'f) server \<Rightarrow> ('z, 'f) server outcome" where
  "RearmClientSocket a s = with_client a s (\<lambda>c. Returns (log_event (Ev_epoll_mod (sock c) a) s))"

definition TimeDiffSecs :: "('f, 'd) float_ops \<Rightarrow> timespec \<Rightarrow> timespec \<Rightarrow> 'f" where
  "TimeDiffSecs F b a =
     fl_of_d F (d_plus F (d_of_long F (tv_sec b - tv_sec a))
       (d_divide F (d_of_long F (tv_nsec b - tv_nsec a)) (d_of_long F 1000000000)))"

text \<open>The arrays after the new measurement; \<open>unsigned int\<close> keeps 32 bits of the count.\<close>

definition clock_input ::
    "('f, 'd) float_ops \<Rightarrow> timespec \<Rightarrow> nat \<Rightarrow> ('z, 'f) client \<Rightarrow> ('z, 'f) client option" where
  "clock_input F curtime data_sent c = do {
     bytes \<leftarrow> wr (bytes_sent_at_intervals c) (interval_idx c) (data_sent mod 2 ^ 32);
     ivs \<leftarrow> wr (cmd_intervals c) (interval_idx c) (TimeDiffSecs F curtime (last_input_time c));
     Some (c\<lparr>bytes_sent_at_intervals := bytes, cmd_intervals := ivs,
             interval_idx := (interval_idx c + 1) mod CLIENT_STOREDCMDINTERVALS, last_input_time := curtime\<rparr>)
   }"

definition rate_sums :: "('f, 'd) float_ops \<Rightarrow> ('z, 'f) client \<Rightarrow> 'f \<times> 'f" where
  "rate_sums F c = foldl (\<lambda>(bsum, tsum) (b, t). (fl_plus F bsum (fl_of_int F (int b)), fl_plus F tsum t))
     (fl_zero F, fl_zero F) (zip (bytes_sent_at_intervals c) (cmd_intervals c))"

definition over_rate :: "('f, 'd) float_ops \<Rightarrow> ('z, 'f) client \<Rightarrow> bool" where
  "over_rate F c = (case rate_sums F c of (bsum, tsum) \<Rightarrow>
     fl_ge F bsum (fl_of_int F (int CLIENT_MAXINPUTLEN)) \<and>
     fl_ge F (fl_divide F bsum tsum) (fl_of_int F (int CLIENT_MAXBPS)))"

definition near_rate :: "('f, 'd) float_ops \<Rightarrow> ('z, 'f) client \<Rightarrow> bool" where
  "near_rate F c = (case rate_sums F c of (bsum, tsum) \<Rightarrow>
     fl_ge F bsum (fl_of_int F (int CLIENT_MAXINPUTLEN)) \<and>
     fl_gt F (fl_divide F bsum tsum) (fl_of_int F (int (CLIENT_MAXBPS div 2))))"

definition rate_warning :: "('f, 'd) float_ops \<Rightarrow> ('z, 'f) client \<Rightarrow> byte list" where
  "rate_warning F c = (case rate_sums F c of (bsum, tsum) \<Rightarrow>
     bytes_of ''`#255;0;0`You are sending data at an average rate of '' @ fl_print F (fl_divide F bsum tsum) @
     bytes_of '' bytes/second. You will be kicked if this goes over '' @ decimal CLIENT_MAXBPS @
     bytes_of ''.`default`'' @ [13, 10])"

definition Server_ClockPlayer ::
    "('z, 'f, 'd) platform \<Rightarrow> timespec \<Rightarrow> nat \<Rightarrow> nat \<Rightarrow> ('z, 'f) server \<Rightarrow> (int \<times> ('z, 'f) server) outcome" where
  "Server_ClockPlayer E curtime a data_sent s = with_client a s (\<lambda>c.
     bind_outcome (defined (clock_input (env_floats E) curtime data_sent c)) (\<lambda>c.
       let s = put_client a c s in
       if over_rate (env_floats E) c then Returns (-1, s)
       else if near_rate (env_floats E) c then
         bind_outcome (server_sendf E a (rate_warning (env_floats E) c) s) (\<lambda>(_, s).
         bind_outcome (RearmClientSocket a s) (\<lambda>s. Returns (0, s)))
       else Returns (0, s)))"

section \<open>The input task\<close>

text \<open>The loop over the received bytes when one of them is 255: \<open>n\<close> bytes from index \<open>idx\<close> on. It yields the
  stream, the plain characters, whether a step ended outside the input state, and the answers.\<close>

fun iac_loop ::
    "nat \<Rightarrow> byte list \<Rightarrow> nat \<Rightarrow> telnet_stream \<Rightarrow> cv_t \<Rightarrow> bool \<Rightarrow> (telnet_stream \<times> cv_t \<times> bool \<times> byte list list) option" where
  "iac_loop 0 data idx st normchars had = Some (st, normchars, had, [])"
| "iac_loop (Suc n) data idx st normchars had = do {
     ch \<leftarrow> rd data idx;
     if ch \<noteq> 0 \<or> tel_state st = TELSTATE_SB then do {
       (r, st, normchars, out) \<leftarrow> TelnetStream_ProcessByte st ch normchars;
       (st, normchars, had, out') \<leftarrow> iac_loop n data (Suc idx) st normchars (had \<or> r);
       Some (st, normchars, had, out @ out')
     }
     else Some (st\<lparr>tel_state := TELSTATE_ERROR\<rparr>, normchars, had, [])
   }"

definition log_answers :: "int \<Rightarrow> byte list list \<Rightarrow> ('z, 'f) server \<Rightarrow> ('z, 'f) server" where
  "log_answers sk out s = s\<lparr>events := events s @ map (Ev_answer sk) out\<rparr>"

lemma log_answers_simps [simp]:
  "store (log_answers sk out s) = store s" "pkgs (log_answers sk out s) = pkgs s"
  "clients (log_answers sk out s) = clients s" "srv_pool (log_answers sk out s) = srv_pool s"
  "events (log_answers sk out s) = events s @ map (Ev_answer sk) out"
  "log_answers sk [] s = s" "log_answers sk out (put_client a c s) = put_client a c (log_answers sk out s)"
  by (simp_all add: log_answers_def put_client_def)

text \<open>Decompression under MCCP3. \<open>Inl\<close>: the task ends here.\<close>

definition decompress_input ::
    "('z, 'f, 'd) platform \<Rightarrow> nat \<Rightarrow> cv_t \<Rightarrow> ('z, 'f) server \<Rightarrow> (('z, 'f) server + cv_t \<times> ('z, 'f) server) outcome" where
  "decompress_input E a clientinput s = with_client a s (\<lambda>c.
     if b_mccp3 (opts (tel_stream c)) then
       bind_outcome (defined (cv_init (env_bytes E) CLIENT_MAXINPUTLEN)) (\<lambda>(_, decompout).
       bind_outcome (ZCompressor_DecompressData (env_bytes E) (env_zlib E) (env_fuel E) (zstreams c) clientinput decompout)
         (\<lambda>(r, zc, decompout).
            if r < 0 then
              bind_outcome (RearmClientSocket a (put_client a (c\<lparr>zstreams := snd (ZCompressor_Reset (env_zlib E) zc)\<rparr>) s))
                (\<lambda>s. Returns (Inl s))
            else Returns (Inr (snd (cv_swap decompout clientinput), put_client a (c\<lparr>zstreams := zc\<rparr>) s))))
     else Returns (Inr (clientinput, s)))"

text \<open>The scan for telnet commands. The loop runs over \<open>bytes_read\<close> bytes, the number that came from the socket.\<close>

definition telnet_input ::
    "('z, 'f, 'd) platform \<Rightarrow> nat \<Rightarrow> nat \<Rightarrow> cv_t \<Rightarrow> ('z, 'f) server \<Rightarrow> (('z, 'f) server + cv_t \<times> ('z, 'f) server) outcome" where
  "telnet_input E a bytes_read clientinput s =
     bind_outcome (defined (c_memchr (cells (cdata clientinput)) 255 (clength clientinput))) (\<lambda>found.
     if found = None then Returns (Inr (clientinput, s))
     else bind_outcome (defined (cv_init (env_bytes E) 128)) (\<lambda>(_, normchars).
       with_client a s (\<lambda>c.
         bind_outcome (defined (iac_loop bytes_read (cells (cdata clientinput)) 0 (tel_stream c) normchars False))
           (\<lambda>(st, normchars, bHadIAC, out).
              let s = log_answers (sock c) out (put_client a (c\<lparr>tel_stream := st\<rparr>) s) in
              if tel_state st = TELSTATE_ERROR then
                bind_outcome (server_sendf E a (bytes_of ''`red`Your client appears to be sending erroneous telnet commands.`default`''
                    @ [13, 10]) s) (\<lambda>(_, s). Returns (Inl s))
              else if bHadIAC then
                bind_outcome (defined (cv_clear clientinput)) (\<lambda>clientinput.
                bind_outcome (defined (cv_appendcv (env_bytes E) clientinput normchars)) (\<lambda>(_, clientinput).
                  Returns (Inr (clientinput, s))))
              else Returns (Inr (clientinput, s))))))"

text \<open>
  The end of a command: a line feed after a carriage return, or any byte after a carriage return. The bytes
  are signed in C, which makes no difference for the comparison of the last two with 13 and 10.
\<close>

definition assemble_line :: "byte mem_mgr \<Rightarrow> cv_t \<Rightarrow> cv_t \<Rightarrow> (cv_t \<times> bool) option" where
  "assemble_line M cbuf clientinput = do {
     (_, cbuf) \<leftarrow> cv_appendcv M cbuf clientinput;
     if clength cbuf \<ge> 2 then do {
       x \<leftarrow> rd (cells (cdata cbuf)) (clength cbuf - 2);
       y \<leftarrow> rd (cells (cdata cbuf)) (clength cbuf - 1);
       if x = 13 \<and> y = 10 then do {
         (_, cbuf) \<leftarrow> cv_push M 0 (cbuf\<lparr>clength := clength cbuf - 2\<rparr>);
         Some (cbuf, True)
       }
       else if x = 13 then do {
         (_, cbuf) \<leftarrow> cv_push M 0 (cbuf\<lparr>clength := clength cbuf - 1\<rparr>);
         Some (cbuf, True)
       }
       else Some (cbuf, False)
     }
     else Some (cbuf, False)
   }"

text \<open>A complete line goes to the scripts as a C string, without carriage returns, and the buffer is emptied.\<close>

definition clear_input :: "nat \<Rightarrow> ('z, 'f) server \<Rightarrow> ('z, 'f) server outcome" where
  "clear_input a s = with_client a s (\<lambda>c.
     bind_outcome (defined (cv_clear (input_buffer c))) (\<lambda>buf. Returns (put_client a (c\<lparr>input_buffer := buf\<rparr>) s)))"

definition deliver_line ::
    "('z, 'f, 'd) platform \<Rightarrow> nat \<Rightarrow> cv_t \<Rightarrow> ('z, 'f) server \<Rightarrow> ('z, 'f) server outcome" where
  "deliver_line E a cbuf s =
     bind_outcome (defined (cv_init (env_bytes E) (clength cbuf))) (\<lambda>(_, cleaned_input).
     bind_outcome (defined (RemoveCRs (env_bytes E) (cells (cdata cbuf)) (clength cbuf) cleaned_input)) (\<lambda>cleaned_input.
     if terminated (cells (cdata cleaned_input))
     then clear_input a (call_script E (OnPlayerInput a (cstr (cells (cdata cleaned_input)))) s)
     else Faults))"

definition finish_input ::
    "('z, 'f, 'd) platform \<Rightarrow> nat \<Rightarrow> nat \<Rightarrow> cv_t \<Rightarrow> ('z, 'f) server \<Rightarrow> ('z, 'f) server outcome" where
  "finish_input E a bytes_read clientinput s = with_client a s (\<lambda>c.
     bind_outcome (defined (assemble_line (env_bytes E) (input_buffer c) clientinput)) (\<lambda>(cbuf, inputcomplete).
       let s = put_client a (c\<lparr>input_buffer := cbuf\<rparr>) s in
       if bytes_read > 0 \<and> inputcomplete then bind_outcome (deliver_line E a cbuf s) (RearmClientSocket a)
       else if bytes_read = 0 then Server_HandleClientDisconnect E a s
       else RearmClientSocket a s))"

definition too_fast_message :: "byte list" where
  "too_fast_message = [13, 10] @ bytes_of ''`@255;0;0`You are sending data too fast''
     @ bytes_of '' and are being disconnected.`default`'' @ [13, 10]"

definition HandleUserInputTask ::
    "('z, 'f, 'd) platform \<Rightarrow> read_result list \<Rightarrow> timespec \<Rightarrow> mem_node \<Rightarrow> ('z, 'f) server \<Rightarrow> (int \<times> ('z, 'f) server) outcome" where
  "HandleUserInputTask E reads curtime pkg s = bind_outcome (defined (pkgs s pkg)) (\<lambda>a. with_client a s (\<lambda>c.
     if bDisconnected c then bind_outcome (Server_DisconnectClient E a s) (\<lambda>s. Returns (0, s))
     else
       bind_outcome (defined (cv_init (env_bytes E) CLIENT_MAXINPUTLEN)) (\<lambda>(_, clientinput).
       bind_outcome (read_to_cv (env_bytes E) reads clientinput 0 CLIENT_MAXINPUTLEN) (\<lambda>(bytes_read, clientinput).
       bind_outcome (Server_ClockPlayer E curtime a bytes_read s) (\<lambda>(r, s).
       if r < 0 then
         bind_outcome (server_sendf E a too_fast_message s) (\<lambda>(_, s).
         bind_outcome (Server_DisconnectClient E a s) (\<lambda>s. Returns (-1, s)))
       else
         bind_outcome (decompress_input E a clientinput s) (\<lambda>x. case x of
           Inl s \<Rightarrow> Returns (-1, s)
         | Inr (clientinput, s) \<Rightarrow>
             bind_outcome (telnet_input E a bytes_read clientinput s) (\<lambda>x. case x of
               Inl s \<Rightarrow> bind_outcome (Server_DisconnectClient E a s) (\<lambda>s. Returns (-1, s))
             | Inr (clientinput, s) \<Rightarrow>
                 bind_outcome (finish_input E a bytes_read clientinput s) (\<lambda>s. Returns (0, s))))))))) "

section \<open>The main thread\<close>

text \<open>The functions a task holds, by number.\<close>

definition fn_HandleUserInputTask :: nat where "fn_HandleUserInputTask = 0"
definition fn_ReleaseHandleUserInputTaskPkg :: nat where "fn_ReleaseHandleUserInputTaskPkg = 1"

definition Server_HandleUserInput ::
    "('z, 'f, 'd) platform \<Rightarrow> nat \<Rightarrow> ('z, 'f) server \<Rightarrow> ('z, 'f) server outcome" where
  "Server_HandleUserInput E a s =
     bind_outcome (defined (MemoryPool_Alloc (env_blocks E) sizeof_HandleUserInputTaskPkg (srv_pool s))) (\<lambda>(pkg, mp).
     let s = s\<lparr>srv_pool := mempool_write pkg None mp, pkgs := (pkgs s)(pkg \<mapsto> a)\<rparr> in
     with_client a s (\<lambda>c.
       let s = put_client a (Client_AddRef c) s in
       bind_outcome (defined (ThreadPool_AddTask (env_nodes E) (env_blocks E) (thread_pool s)
           (Some fn_HandleUserInputTask) 1 pkg (Some fn_ReleaseHandleUserInputTaskPkg))) (\<lambda>(r, tp).
         let s = s\<lparr>thread_pool := tp\<rparr> in
         if r < 0 then bind_outcome (release_drop a s) (RearmClientSocket a) else Returns s)))"

definition Server_SendClientMotd ::
    "('z, 'f, 'd) platform \<Rightarrow> nat \<Rightarrow> ('z, 'f) server \<Rightarrow> (int \<times> ('z, 'f) server) outcome" where
  "Server_SendClientMotd E a s =
     send_to E a (\<lambda>ws c. Client_WriteTo (env_bytes E) (env_zlib E) (env_fuel E) ws c (MOTD s) (MOTDlen s)) s"

text \<open>A release build; \<open>a\<close> is the block the new client gets, \<open>accepted_sock\<close> what \<open>accept\<close> returned.\<close>

definition Server_AcceptClient ::
    "('z, 'f, 'd) platform \<Rightarrow> int \<Rightarrow> timespec \<Rightarrow> timespec \<Rightarrow> nat \<Rightarrow> ('z, 'f) server \<Rightarrow> (int \<times> ('z, 'f) server) outcome" where
  "Server_AcceptClient E accepted_sock now1 now2 a s =
     (if accepted_sock \<ge> 0 then
        bind_outcome (defined (Client_Create (env_bytes E) (env_zlib E) (fl_zero (env_floats E)) accepted_sock now1 now2)) (\<lambda>c.
        let s = put_client a c s in
        bind_outcome (defined (Vector_Push (env_ptrs E) a (clients s))) (\<lambda>(_, v).
        let s = log_event (Ev_answer accepted_sock TelnetStream_SendPreamble) (s\<lparr>clients := v\<rparr>) in
        bind_outcome (Server_SendClientMotd E a s) (\<lambda>(_, s).
        let s = call_script E (OnPlayerConnect a) s in
        Returns (accepted_sock, log_event (Ev_epoll_add accepted_sock a) s))))
      else Returns (-1, s))"

text \<open>\<open>out\<close> is the text the format stands for. The callers in the C files pass constants without conversions.\<close>

fun send_all_loop ::
    "('z, 'f, 'd) platform \<Rightarrow> byte list \<Rightarrow> nat \<Rightarrow> nat \<Rightarrow> ('z, 'f) server \<Rightarrow> ('z, 'f) server outcome" where
  "send_all_loop E out idx 0 s = Returns s"
| "send_all_loop E out idx (Suc n) s =
     bind_outcome (defined (Vector_At (clients s) idx)) (\<lambda>p. case p of
       None \<Rightarrow> Faults
     | Some a \<Rightarrow> bind_outcome (server_sendf E a out s) (\<lambda>(_, s). send_all_loop E out (Suc idx) n s))"

definition Server_SendAllClients ::
    "('z, 'f, 'd) platform \<Rightarrow> byte list \<Rightarrow> ('z, 'f) server \<Rightarrow> ('z, 'f) server outcome" where
  "Server_SendAllClients E out s = send_all_loop E out 0 (Vector_Count (clients s)) s"

definition Server_WriteToCmdPipe :: "byte list \<Rightarrow> nat \<Rightarrow> ('z, 'f) server \<Rightarrow> ('z, 'f) server outcome" where
  "Server_WriteToCmdPipe msg msglen s =
     bind_outcome (defined (read_cells msg 0 msglen)) (\<lambda>bs. Returns (s\<lparr>cmd_pipe := cmd_pipe s @ bs\<rparr>))"

section \<open>A small instance\<close>

text \<open>A platform with whole numbers for \<open>float\<close> and scripts that do nothing, and a server with given clients.\<close>

definition demo_floats :: "(int, int) float_ops" where
  "demo_floats = \<lparr>fl_zero = 0, d_of_long = id, d_plus = (+), d_divide = (div), fl_of_d = id, fl_of_int = id,
     fl_plus = (+), fl_divide = (div), fl_ge = (\<ge>), fl_gt = (>), fl_print = (\<lambda>_. [48])\<rparr>"

definition demo_ptrs :: "'p \<Rightarrow> 'p mem_mgr" where
  "demo_ptrs x = \<lparr>grants = \<lambda>_. True, fresh = \<lambda>_. x\<rparr>"

definition demo_env :: "(nat, int, int) platform" where
  "demo_env = \<lparr>env_bytes = byte_mgr, env_ptrs = demo_ptrs 0, env_nodes = demo_ptrs (prioqnode_Init 0 None),
     env_blocks = (\<lambda>_. True), env_zlib = store_zlib, env_fuel = 9, env_floats = demo_floats,
     env_sends = (\<lambda>_. [-1]), env_script = (\<lambda>_ s. s)\<rparr>"

definition demo_client :: "int \<Rightarrow> (nat, int) client" where
  "demo_client sk = \<lparr>sock = sk, tel_stream = fresh_stream, zstreams = idle_streams,
     connection_time = \<lparr>tv_sec = 1, tv_nsec = 0\<rparr>, last_input_time = \<lparr>tv_sec = 1, tv_nsec = 0\<rparr>,
     bytes_sent_at_intervals = [0, 0, 0, 0, 0, 0], cmd_intervals = [0, 0, 0, 0, 0, 0], interval_idx = 0,
     input_buffer = \<lparr>cdata = Some [108, 0, 0, 0, 0, 0, 0, 0], clength = 1, ccapacity = 8\<rparr>,
     player_obj = True, bDisconnected = False, refcount = 1\<rparr>"

definition demo_server ::
    "nat list \<Rightarrow> (nat \<Rightarrow> (nat, int) client option) \<Rightarrow> (mem_node \<Rightarrow> nat option) \<Rightarrow> memory_pool \<Rightarrow> (nat, int) server" where
  "demo_server as st ps mp =
     \<lparr>clients = \<lparr>pStorage = Some (as @ replicate 8 0), vcapacity = length as + 8, vlength = length as, FreeNodeFn = Some ()\<rparr>,
      store = st, pkgs = ps, srv_pool = mp,
      thread_pool = \<lparr>threads = [], prio_queue = \<lparr>ah_array = None, ah_len = 0, ah_capacity = 0\<rparr>, mutex_owner = None,
        bIsRunning = True, tp_alloc = \<lparr>pool_blocks = [], element_size = 24, element_count = 64, headnode = None, block_count = 0, links = (\<lambda>_. None)\<rparr>,
        tasks = (\<lambda>p. \<lparr>taskfn = None, pArgs = (0, p), releasefn = None\<rparr>), created = {#}, signals = 0, broadcasts = 0\<rparr>,
      MOTD = [0], MOTDlen = 1, cmd_pipe = [], events = []\<rparr>"

end
