(* ===== verification/ServerInput.thy ===== *)
theory ServerInput
  imports Server
begin

text \<open>
  What the input task does with the bytes of a connected client: telnet commands are filtered out, the text is
  collected until a line is complete, and the line goes to the scripts.
\<close>

section \<open>The telnet loop\<close>

text \<open>The loop of the input task as a recursion on the bytes it reads.\<close>

fun iac_list ::
    "byte list \<Rightarrow> telnet_stream \<Rightarrow> cv_t \<Rightarrow> bool \<Rightarrow> (telnet_stream \<times> cv_t \<times> bool \<times> byte list list) option" where
  "iac_list [] st nc had = Some (st, nc, had, [])"
| "iac_list (ch # xs) st nc had =
     (if ch \<noteq> 0 \<or> tel_state st = TELSTATE_SB then do {
        (r, st, nc, out) \<leftarrow> TelnetStream_ProcessByte st ch nc;
        (st, nc, had, out') \<leftarrow> iac_list xs st nc (had \<or> r);
        Some (st, nc, had, out @ out')
      }
      else Some (st\<lparr>tel_state := TELSTATE_ERROR\<rparr>, nc, had, []))"

lemma iac_loop_list:
  "idx + n \<le> length data \<Longrightarrow> iac_loop n data idx st nc had = iac_list (take n (drop idx data)) st nc had"
  by (induction n arbitrary: idx st nc had) (simp_all add: mem_simps flip: Cons_nth_drop_Suc)

lemma iac_list_append:
  "iac_list xs st nc had = Some (st', nc', had', out) \<Longrightarrow> tel_state st' \<noteq> TELSTATE_ERROR \<Longrightarrow>
   iac_list (xs @ ys) st nc had = map_option (\<lambda>(st2, nc2, had2, out2). (st2, nc2, had2, out @ out2)) (iac_list ys st' nc' had')"
proof (induction xs arbitrary: st nc had out)
  case Nil
  then show ?case by (cases "iac_list ys st' nc' had'") auto
next
  case (Cons x xs)
  from Cons.prems have ok: "x \<noteq> 0 \<or> tel_state st = TELSTATE_SB" by (auto split: if_splits)
  then obtain r st1 nc1 out1 out2 where 1: "TelnetStream_ProcessByte st x nc = Some (r, st1, nc1, out1)"
      "iac_list xs st1 nc1 (had \<or> r) = Some (st', nc', had', out2)" "out = out1 @ out2"
    using Cons.prems(1) by (auto split: bind_splits)
  show ?case
    using ok 1 Cons.IH[OF 1(2) Cons.prems(2)] by (cases "iac_list ys st' nc' had'") auto
qed

text \<open>Bytes that are not zero are simply processed; so are the arguments of a subnegotiation.\<close>

lemma iac_list_nonzero:
  "0 \<notin> set xs \<Longrightarrow> process_bytes st xs nc = Some (st', nc', out) \<Longrightarrow>
   \<exists>h. iac_list xs st nc had = Some (st', nc', had \<or> h, out)"
proof (induction xs arbitrary: st nc had out)
  case (Cons x xs)
  obtain r st1 nc1 out1 out2 where 1: "TelnetStream_ProcessByte st x nc = Some (r, st1, nc1, out1)"
      "process_bytes st1 xs nc1 = Some (st', nc', out2)" "out = out1 @ out2"
    using Cons.prems(2) by (auto split: bind_splits)
  obtain h where "iac_list xs st1 nc1 (had \<or> r) = Some (st', nc', (had \<or> r) \<or> h, out2)"
    using Cons.IH[OF _ 1(2)] Cons.prems(1) by fastforce
  then show ?case using 1 Cons.prems(1) by auto
qed auto

lemma iac_list_args:
  "sb_wf (sb_args s) \<Longrightarrow> tel_state s = TELSTATE_SB \<Longrightarrow> IAC \<notin> set args \<Longrightarrow>
   clength (sb_args s) + length args \<le> 32 \<Longrightarrow>
   \<exists>h s' out. iac_list args s nc had = Some (s', nc, had \<or> h, out) \<and> process_bytes s args nc = Some (s', nc, out) \<and>
     tel_state s' = TELSTATE_SB"
proof (induction args arbitrary: s had)
  case (Cons x args)
  obtain cv' where cv': "cv_pushlimited x (sb_args s) = Some (0, cv')" "sb_wf cv'"
    "clength cv' = clength (sb_args s) + 1"
    using sb_push[OF Cons.prems(1), of x] Cons.prems(4) by auto
  let ?s = "s\<lparr>sb_args := cv', last_byte := x\<rparr>"
  have step: "TelnetStream_ProcessByte s x nc = Some (True, ?s, nc, [])"
    using cv'(1) Cons.prems(2,3) by (auto simp: TelnetStream_ProcessByte_def step_state_def Let_def)
  obtain h s' out where "iac_list args ?s nc (had \<or> True) = Some (s', nc, (had \<or> True) \<or> h, out)"
      "process_bytes ?s args nc = Some (s', nc, out)" "tel_state s' = TELSTATE_SB"
    using Cons.IH[of ?s "had \<or> True"] cv'(2,3) Cons.prems by auto
  then show ?case using step Cons.prems(2) by auto
qed auto

text \<open>The zero bytes the loop tolerates are the ones inside a subnegotiation.\<close>

fun zero_free :: "tel_token \<Rightarrow> bool" where
  "zero_free (Plain b) \<longleftrightarrow> b \<noteq> 0"
| "zero_free (Cmd3 c x) \<longleftrightarrow> c \<noteq> 0 \<and> x \<noteq> 0"
| "zero_free _ \<longleftrightarrow> True"

definition is_command :: "tel_token \<Rightarrow> bool" where
  "is_command t \<longleftrightarrow> (case t of Plain _ \<Rightarrow> False | _ \<Rightarrow> True)"

lemma iac_list_flag:
  "iac_list xs st nc True = Some (st', nc', had', out) \<Longrightarrow> had'"
  by (induction xs arbitrary: st nc out) (auto split: if_splits bind_splits)

lemma process_IAC:
  "tel_state st = TELSTATE_INPUT \<Longrightarrow>
   TelnetStream_ProcessByte st IAC nc = Some (True, st\<lparr>tel_state := TELSTATE_IAC, last_byte := IAC\<rparr>, nc, [])"
  by (simp add: TelnetStream_ProcessByte_def step_state_def SetTelnetState_def Let_def)

lemma iac_list_command:
  "tel_state st = TELSTATE_INPUT \<Longrightarrow> iac_list (IAC # xs) st nc had = Some (st', nc', had', out) \<Longrightarrow> had'"
  by (auto simp: process_IAC split: bind_splits dest: iac_list_flag)

lemma encode_nonzero: "zero_free t \<Longrightarrow> legal t \<Longrightarrow> (\<And>args. t \<noteq> Sub args) \<Longrightarrow> 0 \<notin> set (encode t)"
  by (cases t) (auto simp: GetIs2CmdByte_def)

lemma iac_sub:
  assumes wf: "tel_wf st" and st: "tel_state st = TELSTATE_INPUT" and ok: "legal (Sub args)"
    and all: "process_bytes st (encode (Sub args)) nc = Some (st', nc', out)"
  shows "\<exists>h. iac_list (encode (Sub args)) st nc had = Some (st', nc', had \<or> h, out)"
proof -
  obtain cv' where cv': "cv_clear (sb_args st) = Some cv'" "sb_wf cv'" "clength cv' = 0"
    using sb_clear[of "sb_args st"] wf by (auto simp: tel_wf_def)
  define s1 where "s1 = st\<lparr>tel_state := TELSTATE_SB, last_byte := SB, sb_args := cv'\<rparr>"
  have start: "process_bytes st [IAC, SB] nc = Some (s1, nc, [])"
    using st cv'(1) by (simp add: TelnetStream_ProcessByte_def step_state_def Let_def SetTelnetState_def s1_def)
  then obtain h1 where i1: "iac_list [IAC, SB] st nc had = Some (s1, nc, had \<or> h1, [])"
    using iac_list_nonzero[of "[IAC, SB]" st nc s1 nc "[]" had] by auto
  obtain h2 s2 out2 where 2: "iac_list args s1 nc (had \<or> h1) = Some (s2, nc, (had \<or> h1) \<or> h2, out2)"
      "process_bytes s1 args nc = Some (s2, nc, out2)" "tel_state s2 = TELSTATE_SB"
    using iac_list_args[of s1 args nc "had \<or> h1"] cv'(2,3) ok by (auto simp: s1_def)
  have e: "encode (Sub args) = [IAC, SB] @ (args @ [IAC, SE])" by simp
  obtain out3 where 3: "process_bytes s2 [IAC, SE] nc = Some (st', nc', out3)" "out = out2 @ out3"
    using all start 2(2) unfolding e process_bytes_append by (auto split: bind_splits)
  then obtain h3 where i3: "iac_list [IAC, SE] s2 nc ((had \<or> h1) \<or> h2) = Some (st', nc', ((had \<or> h1) \<or> h2) \<or> h3, out3)"
    using iac_list_nonzero[of "[IAC, SE]"] by fastforce
  have "iac_list (args @ [IAC, SE]) s1 nc (had \<or> h1) = Some (st', nc', ((had \<or> h1) \<or> h2) \<or> h3, out)"
    using iac_list_append[OF 2(1), of "[IAC, SE]"] i3 2(3) 3(2) by simp
  then have "iac_list (encode (Sub args)) st nc had = Some (st', nc', ((had \<or> h1) \<or> h2) \<or> h3, out)"
    using iac_list_append[OF i1, of "args @ [IAC, SE]"] unfolding e by (simp add: s1_def)
  then show ?thesis unfolding disj_assoc by blast
qed

lemma iac_token:
  assumes wf: "tel_wf st" and st: "tel_state st = TELSTATE_INPUT" and dump: "cv_wf nc"
    and ok: "legal t" "zero_free t" and room: "clength nc + length (plain_of t) \<le> ccapacity nc"
  shows "\<exists>st' nc' out. iac_list (encode t) st nc had = Some (st', nc', had \<or> is_command t, out) \<and> tel_wf st' \<and>
    tel_state st' = TELSTATE_INPUT \<and> cv_wf nc' \<and> cv_bytes nc' = cv_bytes nc @ plain_of t \<and>
    clength nc' = clength nc + length (plain_of t) \<and> ccapacity nc' = ccapacity nc"
proof -
  obtain st' nc' out where p: "process_bytes st (encode t) nc = Some (st', nc', out)" "tel_wf st'"
    "tel_state st' = TELSTATE_INPUT" "cv_wf nc'" "cv_bytes nc' = cv_bytes nc @ plain_of t"
    "clength nc' = clength nc + length (plain_of t)" "ccapacity nc' = ccapacity nc"
    using process_token[OF wf st dump ok(1) room] by blast
  have "\<exists>h. iac_list (encode t) st nc had = Some (st', nc', had \<or> h, out)"
  proof (cases "\<exists>args. t = Sub args")
    case True
    then show ?thesis using iac_sub[OF wf st] ok(1) p(1) by blast
  next
    case False
    then show ?thesis using iac_list_nonzero[OF encode_nonzero[OF ok(2,1)] p(1)] by blast
  qed
  then obtain h where h: "iac_list (encode t) st nc had = Some (st', nc', had \<or> h, out)" by blast
  have "(had \<or> h) = (had \<or> is_command t)"
  proof (cases t)
    case (Plain b)
    then have "(had \<or> h) = had"
      using h st ok p
      by (auto simp: TelnetStream_ProcessByte_def step_state_def SetTelnetState_def Let_def split: if_splits bind_splits)
    then show ?thesis using Plain by (simp add: is_command_def)
  next
    case (Cmd2 c)
    then show ?thesis using iac_list_command[OF st, of "[c]"] h by (auto simp: is_command_def)
  next
    case (Cmd3 c x)
    then show ?thesis using iac_list_command[OF st, of "[c, x]"] h by (auto simp: is_command_def)
  next
    case (Sub args)
    then show ?thesis using iac_list_command[OF st, of "SB # args @ [IAC, SE]"] h by (auto simp: is_command_def)
  qed
  then show ?thesis using h p by auto
qed

lemma iac_tokens:
  "tel_wf st \<Longrightarrow> tel_state st = TELSTATE_INPUT \<Longrightarrow> cv_wf nc \<Longrightarrow> list_all (\<lambda>t. legal t \<and> zero_free t) ts \<Longrightarrow>
   clength nc + length (concat (map plain_of ts)) \<le> ccapacity nc \<Longrightarrow>
   \<exists>st' nc' out. iac_list (concat (map encode ts)) st nc had = Some (st', nc', had \<or> list_ex is_command ts, out) \<and>
     tel_wf st' \<and> tel_state st' = TELSTATE_INPUT \<and> cv_wf nc' \<and> cv_bytes nc' = cv_bytes nc @ concat (map plain_of ts)"
proof (induction ts arbitrary: st nc had)
  case (Cons t ts)
  obtain st1 nc1 out1 where 1: "iac_list (encode t) st nc had = Some (st1, nc1, had \<or> is_command t, out1)" "tel_wf st1"
      "tel_state st1 = TELSTATE_INPUT" "cv_wf nc1" "cv_bytes nc1 = cv_bytes nc @ plain_of t"
      "clength nc1 = clength nc + length (plain_of t)" "ccapacity nc1 = ccapacity nc"
    using iac_token[OF Cons.prems(1,2,3), of t had] Cons.prems(4,5) by auto
  obtain st2 nc2 out2 where 2: "iac_list (concat (map encode ts)) st1 nc1 (had \<or> is_command t) =
        Some (st2, nc2, (had \<or> is_command t) \<or> list_ex is_command ts, out2)" "tel_wf st2"
      "tel_state st2 = TELSTATE_INPUT" "cv_wf nc2" "cv_bytes nc2 = cv_bytes nc1 @ concat (map plain_of ts)"
    using Cons.IH[OF 1(2,3,4), of "had \<or> is_command t"] Cons.prems(4,5) 1(6,7) by auto
  have "iac_list (encode t @ concat (map encode ts)) st nc had =
      Some (st2, nc2, (had \<or> is_command t) \<or> list_ex is_command ts, out1 @ out2)"
    using iac_list_append[OF 1(1)] 1(3) 2(1) by simp
  then show ?case using 1(5) 2 by simp
qed auto

section \<open>Lines\<close>

lemma closed_string: "cv_closed cv \<Longrightarrow> terminated (cells (cdata cv)) \<and> cstr (cells (cdata cv)) = cv_str cv"
proof -
  assume c: "cv_closed cv"
  then obtain d where d: "cdata cv = Some d" "ccapacity cv \<le> length d"
    by (auto simp: cv_closed_def elim: cv_wfE)
  have t: "take (ccapacity cv) (cstr d) = cv_str cv" using d(1) by (simp add: cv_str_def cstr_take)
  moreover have "length (cv_str cv) < ccapacity cv" using c by (simp add: cv_closed_def)
  ultimately have "length (cstr d) < ccapacity cv" by (metis length_take min_def not_le_imp_less order_less_irrefl)
  then show ?thesis using t d by (simp add: terminated_iff)
qed

lemma split_filter_zero: "0 \<notin> set xs \<Longrightarrow> concat (map cstr (split_at_byte 13 (xs @ [0]))) = filter (\<lambda>b. b \<noteq> 13) xs"
proof (induction xs)
  case (Cons x xs)
  then show ?case by (cases "split_at_byte 13 (xs @ [0])") auto
qed simp

lemma cut_bytes:
  "cv_wf cv \<Longrightarrow> n \<le> clength cv \<Longrightarrow> cv_wf (cv\<lparr>clength := n\<rparr>) \<and> cv_bytes (cv\<lparr>clength := n\<rparr>) = take n (cv_bytes cv)"
  by (auto simp: cv_wf_def cv_bytes_def min_def)

lemma rd_bytes: "cv_wf cv \<Longrightarrow> i < clength cv \<Longrightarrow> rd (cells (cdata cv)) i = Some (cv_bytes cv ! i)"
  by (auto simp: cv_wf_def cv_bytes_def mem_simps)

lemma append_input:
  assumes M: "grants_all M" and wf: "cv_wf cbuf" "cv_wf inp" and lim: "ccapacity cbuf < 2 ^ 58" "clength inp < 2 ^ 58"
  shows "\<exists>r cv. cv_appendcv M cbuf inp = Some (r, cv) \<and> cv_wf cv \<and> cv_bytes cv = cv_bytes cbuf @ cv_bytes inp \<and>
    ccapacity cv < 2 ^ 60"
proof -
  have "clength inp \<le> length (cells (cdata inp))" using wf(2) by (auto elim!: cv_wfE)
  then obtain cv where cv: "cv_append M cbuf (cells (cdata inp)) (clength inp) = Some (to_int32 (clength cbuf + clength inp), cv)"
      "cv_wf cv" "cv_bytes cv = cv_bytes cbuf @ take (clength inp) (cells (cdata inp))"
      "ccapacity cv \<le> max (max (2 * ccapacity cbuf) (ccapacity cbuf + clength inp)) MINALLOC"
    using cv_append_ok[OF M wf(1), of "clength inp" "cells (cdata inp)"] lim by auto
  have "ccapacity cv < 2 ^ 60" using cv(4) lim by (simp add: MINALLOC_def)
  then show ?thesis using cv by (simp add: cv_appendcv_def cv_bytes_def[of inp])
qed

text \<open>What is left in the buffer of a client when \<open>text\<close> has arrived.\<close>

definition ends_line :: "byte list \<Rightarrow> bool" where
  "ends_line xs \<longleftrightarrow> 2 \<le> length xs \<and> xs ! (length xs - 2) = 13"

definition line_end :: "byte list \<Rightarrow> byte list" where
  "line_end xs = (if last xs = 10 then take (length xs - 2) xs else take (length xs - 1) xs) @ [0]"

lemma assemble_line_ok:
  assumes M: "grants_all M" and wf: "cv_wf cbuf" "cv_wf inp" and lim: "ccapacity cbuf < 2 ^ 58" "clength inp < 2 ^ 58"
  shows "\<exists>cbuf'. assemble_line M cbuf inp = Some (cbuf', ends_line (cv_bytes cbuf @ cv_bytes inp)) \<and> cv_wf cbuf' \<and>
    cv_bytes cbuf' = (if ends_line (cv_bytes cbuf @ cv_bytes inp) then line_end (cv_bytes cbuf @ cv_bytes inp)
      else cv_bytes cbuf @ cv_bytes inp)"
proof -
  let ?t = "cv_bytes cbuf @ cv_bytes inp"
  obtain r cv where cv: "cv_appendcv M cbuf inp = Some (r, cv)" "cv_wf cv" "cv_bytes cv = ?t" "ccapacity cv < 2 ^ 60"
    using append_input[OF assms] by blast
  have len: "clength cv = length ?t" using length_cv_bytes[OF cv(2)] cv(3) by simp
  show ?thesis
  proof (cases "2 \<le> clength cv")
    case False
    then show ?thesis using cv len by (auto simp: assemble_line_def ends_line_def)
  next
    case two: True
    then have rds: "rd (cells (cdata cv)) (clength cv - 2) = Some (?t ! (length ?t - 2))"
        "rd (cells (cdata cv)) (clength cv - 1) = Some (?t ! (length ?t - 1))"
      using rd_bytes[OF cv(2), of "clength cv - 2"] rd_bytes[OF cv(2), of "clength cv - 1"] unfolding cv(3) len by auto
    have ne: "?t \<noteq> []" using two len by auto
    then have last: "?t ! (length ?t - 1) = last ?t" by (rule last_conv_nth[symmetric])
    have push: "\<exists>cv'. cv_push M 0 (cv\<lparr>clength := n\<rparr>) = Some (0, cv') \<and> cv_wf cv' \<and> cv_bytes cv' = take n ?t @ [0]"
      if "n \<le> clength cv" for n
    proof -
      have "cv_wf (cv\<lparr>clength := n\<rparr>)" "cv_bytes (cv\<lparr>clength := n\<rparr>) = take n ?t"
        using cut_bytes[OF cv(2) that] unfolding cv(3) by simp_all
      moreover have "ccapacity (cv\<lparr>clength := n\<rparr>) < 2 ^ 60" using cv(4) by simp
      ultimately show ?thesis using cv_push_ok[OF M, of "cv\<lparr>clength := n\<rparr>" 0] by auto
    qed
    show ?thesis
    proof (cases "?t ! (length ?t - 2) = 13")
      case False
      then show ?thesis using cv rds two len by (simp add: assemble_line_def ends_line_def)
    next
      case True
      define n where "n = (if last ?t = 10 then length ?t - 2 else length ?t - 1)"
      have n: "n \<le> clength cv" using len by (simp add: n_def)
      obtain cv' where cv': "cv_push M 0 (cv\<lparr>clength := n\<rparr>) = Some (0, cv')" "cv_wf cv'" "cv_bytes cv' = take n ?t @ [0]"
        using push[OF n] by blast
      have "assemble_line M cbuf inp = Some (cv', True)"
        using cv(1) cv'(1) rds two len last True unfolding assemble_line_def n_def
        by (cases "last ?t = 10") simp_all
      moreover have "line_end ?t = take n ?t @ [0]" unfolding line_end_def n_def by simp
      ultimately show ?thesis using cv' True two len by (simp add: ends_line_def)
    qed
  qed
qed

text \<open>The line the scripts get from it: no carriage return, no terminator.\<close>

definition command_of :: "byte list \<Rightarrow> byte list" where
  "command_of xs = filter (\<lambda>b. b \<noteq> 13) (butlast (line_end xs))"

lemma clean_line:
  assumes M: "grants_all M" and wf: "cv_wf cbuf" and b: "cv_bytes cbuf = line_end xs" "0 \<notin> set (butlast (line_end xs))"
    and lim: "length xs < 2 ^ 53"
  shows "\<exists>r ci co. cv_init M (clength cbuf) = Some (r, ci) \<and>
    RemoveCRs M (cells (cdata cbuf)) (clength cbuf) ci = Some co \<and> terminated (cells (cdata co)) \<and>
    cstr (cells (cdata co)) = command_of xs"
proof -
  have len: "clength cbuf = length (line_end xs)" using length_cv_bytes[OF wf] b(1) by simp
  then have n: "0 < clength cbuf" "clength cbuf < 2 ^ 54" using lim by (auto simp: line_end_def)
  then have "clength cbuf < 2 ^ 62" by simp
  then obtain ci where ci: "cv_init M (clength cbuf) = Some (0, ci)" "cv_wf ci"
      "ccapacity ci = max (clength cbuf) MINALLOC" "cdata ci = Some (replicate (max (clength cbuf) MINALLOC) 0)"
    using cv_init_ok[OF M, of "clength cbuf"] n(1) by auto
  have "cv_str ci = []" using ci(3,4) by (simp add: cv_str_def cstr_def nonzero_def MINALLOC_def)
  moreover have "clength cbuf \<le> length (cells (cdata cbuf))" using wf by (auto elim!: cv_wfE)
  moreover have "ccapacity ci \<le> 2 ^ 56" using ci(3) n(2) by (simp add: MINALLOC_def)
  ultimately obtain co where co: "RemoveCRs M (cells (cdata cbuf)) (clength cbuf) ci = Some co" "cv_closed co"
      "cv_str co = concat (map cstr (split_at_byte 13 (take (clength cbuf) (cells (cdata cbuf)))))"
    using RemoveCRs_ok[OF M ci(2), of "clength cbuf" "cells (cdata cbuf)"] n by auto
  have "take (clength cbuf) (cells (cdata cbuf)) = butlast (line_end xs) @ [0]"
    using b(1) by (simp add: cv_bytes_def line_end_def)
  then have "cv_str co = command_of xs" using co(3) split_filter_zero[OF b(2)] by (simp add: command_of_def)
  then show ?thesis using ci(1) co(1) closed_string[OF co(2)] by auto
qed

section \<open>Reading\<close>

text \<open>How the kernel delivers bytes that are waiting: full reads and then a short one.\<close>

function delivery :: "byte list \<Rightarrow> read_result list" where
  "delivery bs = (if length bs < 512 then [Read_bytes bs] else Read_bytes (take 512 bs) # delivery (drop 512 bs))"
  by pat_completeness auto
termination by (relation "measure length") auto

declare delivery.simps [simp del]

lemma delivery_less: "length bs < 512 \<Longrightarrow> delivery bs = [Read_bytes bs]"
  by (subst delivery.simps) simp

lemma delivery_more: "\<not> length bs < 512 \<Longrightarrow> delivery bs = Read_bytes (take 512 bs) # delivery (drop 512 bs)"
  by (subst delivery.simps) simp

lemma delivery_reads: "Read_bytes xs \<in> set (delivery bs) \<Longrightarrow> length xs \<le> 512"
proof (induction bs rule: delivery.induct)
  case (1 bs)
  then show ?case by (cases "length bs < 512") (auto simp: delivery_less delivery_more)
qed

lemma stream_delivery: "length bs < n \<Longrightarrow> stream_bytes (delivery bs) n = bs"
proof (induction bs arbitrary: n rule: delivery.induct)
  case (1 bs)
  show ?case
  proof (cases "length bs < 512")
    case True
    then show ?thesis by (simp add: delivery_less read_size_def)
  next
    case False
    then have "stream_bytes (delivery (drop 512 bs)) (n - 512) = drop 512 bs" using 1 by simp
    then show ?thesis using False 1(2) by (simp add: delivery_more read_size_def)
  qed
qed

lemma read_delivery:
  "read_loop M (delivery bs) cv k n \<noteq> Faults \<Longrightarrow> k + length bs < n \<Longrightarrow> length bs mod 512 \<noteq> 0 \<Longrightarrow>
   \<exists>cv'. read_loop M (delivery bs) cv k n = Returns (k + length bs, cv')"
proof (induction bs arbitrary: cv k rule: delivery.induct)
  case (1 bs)
  define cv1 where "cv1 = snd (cv_resize M cv (min (sz (k + read_size)) n))"
  have ne: "bs \<noteq> []" using 1(4) by auto
  show ?case
  proof (cases "length bs < 512")
    case True
    then have del: "delivery bs = Read_bytes bs # []" by (rule delivery_less)
    obtain d where "copy_cells (cells (cdata cv1)) k bs = Some d"
      using 1(2) ne unfolding del by (cases bs) (auto simp: cv1_def[symmetric] split: option.splits)
    then show ?thesis
      using read_loop_bytes[OF ne cv1_def[symmetric]] True unfolding del by (simp add: read_size_def)
  next
    case False
    let ?c = "take 512 bs"
    have del: "delivery bs = Read_bytes ?c # delivery (drop 512 bs)" using False by (rule delivery_more)
    have c: "?c \<noteq> []" "length ?c = 512" using False by auto
    have "read_loop M (Read_bytes ?c # delivery (drop 512 bs)) cv k n = Faults"
      if "copy_cells (cells (cdata cv1)) k ?c = None"
      using that c(1) by (cases ?c) (auto simp: cv1_def[symmetric])
    then obtain d where d: "copy_cells (cells (cdata cv1)) k ?c = Some d"
      using 1(2) unfolding del by fastforce
    have eq: "read_loop M (delivery bs) cv k n = read_loop M (delivery (drop 512 bs)) (cv1\<lparr>cdata := Some d\<rparr>) (k + 512) n"
      using read_loop_bytes[OF c(1) cv1_def[symmetric] d] c(2) 1(3) False unfolding del by (simp add: read_size_def)
    have "length (drop 512 bs) mod 512 \<noteq> 0" using 1(4) False by (simp add: le_mod_geq)
    then show ?thesis
      using 1(1)[OF False, of "cv1\<lparr>cdata := Some d\<rparr>" "k + 512"] 1(2,3) False unfolding eq by simp
  qed
qed

lemma read_input:
  assumes M: "grants_all M" and bs: "length bs < 2048" "length bs mod 512 \<noteq> 0"
  shows "\<exists>r ci cv. cv_init M CLIENT_MAXINPUTLEN = Some (r, ci) \<and>
    read_to_cv M (delivery bs) ci 0 CLIENT_MAXINPUTLEN = Returns (length bs, cv) \<and> cv_wf cv \<and> cv_bytes cv = bs \<and>
    ccapacity cv \<le> 2048"
proof -
  obtain ci where ci: "cv_init M CLIENT_MAXINPUTLEN = Some (0, ci)" "cv_wf ci" "ccapacity ci = 2048"
    using cv_init_ok[OF M, of 2048] by (auto simp: CLIENT_MAXINPUTLEN_def MINALLOC_def)
  have "read_buf ci 2048 []" using ci by (intro cv_wf_read_buf) simp_all
  moreover have "reads_ok (delivery bs) 2048"
    using delivery_reads[of _ bs] by (auto simp: reads_ok_def read_size_def)
  ultimately have ok: "read_loop M (delivery bs) ci 0 2048 \<noteq> Faults \<and>
     (\<forall>k cv'. read_loop M (delivery bs) ci 0 2048 = Returns (k, cv') \<longrightarrow>
       cv_wf cv' \<and> cv_bytes cv' = stream_bytes (delivery bs) 2048 \<and> clength cv' \<le> 2048 \<and> ccapacity cv' \<le> 2048)"
    using read_loop_ok[OF M, of 2048 ci "[]" "delivery bs"] by (simp add: read_size_def)
  then obtain cv' where "read_loop M (delivery bs) ci 0 2048 = Returns (length bs, cv')"
    using read_delivery[of M bs ci 0 2048] bs by auto
  then show ?thesis
    using ok ci(1) stream_delivery[OF bs(1)] by (auto simp: read_to_cv_def CLIENT_MAXINPUTLEN_def)
qed

section \<open>The input task\<close>

text \<open>A connected client that the task can serve: no decompression, the telnet machine between commands.\<close>

definition client_shape :: "('z, 'f) client \<Rightarrow> bool" where
  "client_shape c \<longleftrightarrow> length (bytes_sent_at_intervals c) = CLIENT_STOREDCMDINTERVALS \<and>
     length (cmd_intervals c) = CLIENT_STOREDCMDINTERVALS \<and> interval_idx c < CLIENT_STOREDCMDINTERVALS"

definition client_ready :: "('z, 'f) client \<Rightarrow> bool" where
  "client_ready c \<longleftrightarrow> \<not> bDisconnected c \<and> \<not> b_mccp3 (opts (tel_stream c)) \<and> tel_wf (tel_stream c) \<and>
     tel_state (tel_stream c) = TELSTATE_INPUT \<and> cv_wf (input_buffer c) \<and> ccapacity (input_buffer c) < 2 ^ 50 \<and>
     client_shape c"

lemma clock_input_ok:
  assumes "client_shape c"
  shows "\<exists>bs ts i. clock_input F now n c = Some (c\<lparr>bytes_sent_at_intervals := bs, cmd_intervals := ts,
      interval_idx := i, last_input_time := now\<rparr>) \<and> length bs = CLIENT_STOREDCMDINTERVALS \<and>
      length ts = CLIENT_STOREDCMDINTERVALS \<and> i < CLIENT_STOREDCMDINTERVALS"
proof -
  have eq: "clock_input F now n c = Some (c\<lparr>
      bytes_sent_at_intervals := (bytes_sent_at_intervals c)[interval_idx c := n mod 2 ^ 32],
      cmd_intervals := (cmd_intervals c)[interval_idx c := TimeDiffSecs F now (last_input_time c)],
      interval_idx := (interval_idx c + 1) mod CLIENT_STOREDCMDINTERVALS, last_input_time := now\<rparr>)"
    using assms by (simp add: clock_input_def client_shape_def mem_simps)
  show ?thesis
    by (intro exI conjI, rule eq) (use assms in \<open>simp_all add: client_shape_def CLIENT_STOREDCMDINTERVALS_def\<close>)
qed

definition rate_ok :: "('f, 'd) float_ops \<Rightarrow> timespec \<Rightarrow> nat \<Rightarrow> ('z, 'f) client \<Rightarrow> bool" where
  "rate_ok F now n c \<longleftrightarrow> (case clock_input F now n c of None \<Rightarrow> False
     | Some c' \<Rightarrow> \<not> over_rate F c' \<and> \<not> near_rate F c')"

lemma commands_and_IAC:
  assumes "list_all legal ts"
  shows "IAC \<in> set (concat (map encode ts)) \<longleftrightarrow> list_ex is_command ts"
    and "\<not> list_ex is_command ts \<Longrightarrow> concat (map encode ts) = concat (map plain_of ts)"
proof -
  have t: "IAC \<in> set (encode t) \<longleftrightarrow> is_command t" "\<not> is_command t \<Longrightarrow> encode t = plain_of t" if "legal t" for t
    using that by (cases t; auto simp: is_command_def)+
  show "IAC \<in> set (concat (map encode ts)) \<longleftrightarrow> list_ex is_command ts"
    using assms t(1) by (induction ts) auto
  show "\<not> list_ex is_command ts \<Longrightarrow> concat (map encode ts) = concat (map plain_of ts)"
    using assms t(2) by (induction ts) auto
qed

lemma length_plain_le: "length (concat (map plain_of ts)) \<le> length (concat (map encode ts))"
proof (induction ts)
  case (Cons t ts)
  then show ?case by (cases t) auto
qed simp

lemma telnet_input_ok:
  assumes M: "grants_all (env_bytes E)" and c: "store s a = Some c" "tel_wf (tel_stream c)"
      "tel_state (tel_stream c) = TELSTATE_INPUT"
    and ts: "list_all legal ts" "list_ex is_command ts \<longrightarrow> list_all zero_free ts \<and> length (concat (map plain_of ts)) \<le> 128"
    and ci: "cv_wf ci" "cv_bytes ci = concat (map encode ts)" "ccapacity ci \<le> 2048"
  shows "\<exists>st out ci'. telnet_input E a (length (concat (map encode ts))) ci s =
      Returns (Inr (ci', put_client a (c\<lparr>tel_stream := st\<rparr>) (log_answers (sock c) out s))) \<and>
    tel_wf st \<and> tel_state st = TELSTATE_INPUT \<and> cv_wf ci' \<and> cv_bytes ci' = concat (map plain_of ts) \<and>
    clength ci' < 2 ^ 58"
proof -
  let ?in = "concat (map encode ts)"
  have len: "clength ci = length ?in" using length_cv_bytes[OF ci(1)] ci(2) by simp
  have small: "clength cv < 2 ^ 58" if "cv_wf cv" "ccapacity cv < 2 ^ 58" for cv
    using that by (auto elim!: cv_wfE)
  have bytes: "take (length ?in) (cells (cdata ci)) = ?in" using ci(2) len by (simp add: cv_bytes_def)
  have le: "length ?in \<le> length (cells (cdata ci))" using ci(1) len by (auto elim!: cv_wfE)
  have mem: "c_memchr (cells (cdata ci)) 255 (clength ci) = Some (first_idx (\<lambda>b. b = IAC) ?in)"
    using c_memchr_ok[OF le, of 255] bytes len by simp
  show ?thesis
  proof (cases "list_ex is_command ts")
    case False
    then have "first_idx (\<lambda>b. b = IAC) ?in = None"
      using commands_and_IAC(1)[OF ts(1)] by (auto simp: first_idx_None)
    then have "telnet_input E a (length ?in) ci s = Returns (Inr (ci, s))" using mem by (simp add: telnet_input_def)
    moreover have "put_client a (c\<lparr>tel_stream := tel_stream c\<rparr>) (log_answers (sock c) [] s) = s" using c(1) by simp
    moreover have "ccapacity ci < 2 ^ 58" using ci(3) by simp
    then have "clength ci < 2 ^ 58" using small[OF ci(1)] by blast
    ultimately show ?thesis
      using ci(1,2) c(2,3) commands_and_IAC(2)[OF ts(1) False]
      by (intro exI[of _ "tel_stream c"] exI[of _ "[]"] exI[of _ ci] conjI) simp_all
  next
    case True
    then obtain k where found: "first_idx (\<lambda>b. b = IAC) ?in = Some k"
      using commands_and_IAC(1)[OF ts(1)] first_idx_None[of "\<lambda>b. b = IAC" ?in] by (cases "first_idx (\<lambda>b. b = IAC) ?in") auto
    have room: "list_all zero_free ts" "length (concat (map plain_of ts)) \<le> 128" using ts(2) True by auto
    obtain nc where nc: "cv_init (env_bytes E) 128 = Some (0, nc)" "cv_wf nc" "ccapacity nc = 128" "cv_bytes nc = []"
      using cv_init_ok[OF M, of 128] by (auto simp: MINALLOC_def)
    have nc0: "clength nc = 0" using length_cv_bytes[OF nc(2)] nc(4) by simp
    obtain st nc' out where run: "iac_list ?in (tel_stream c) nc False = Some (st, nc', False \<or> list_ex is_command ts, out)"
        "tel_wf st" "tel_state st = TELSTATE_INPUT" "cv_wf nc'" "cv_bytes nc' = cv_bytes nc @ concat (map plain_of ts)"
      using iac_tokens[OF c(2,3) nc(2), of ts False] ts(1) room nc0 nc(3) by (auto simp: list_all_iff)
    have loop: "iac_loop (length ?in) (cells (cdata ci)) 0 (tel_stream c) nc False = Some (st, nc', True, out)"
      using iac_loop_list[of 0 "length ?in" "cells (cdata ci)"] le bytes run(1) True by simp
    obtain ci1 where ci1: "cv_clear ci = Some ci1" "cv_wf ci1" "cv_bytes ci1 = []" "ccapacity ci1 = ccapacity ci"
      using cv_clear_ok[OF ci(1)] by blast
    have nl: "clength nc' \<le> 128" using length_cv_bytes[OF run(4)] run(5) nc(4) room(2) by simp
    have lims: "ccapacity ci1 < 2 ^ 58" "clength nc' < 2 ^ 58" using ci1(4) ci(3) nl by simp_all
    obtain r ci2 where ci2: "cv_appendcv (env_bytes E) ci1 nc' = Some (r, ci2)" "cv_wf ci2"
        "cv_bytes ci2 = cv_bytes ci1 @ cv_bytes nc'"
      using append_input[OF M ci1(2) run(4) lims] by blast
    have "telnet_input E a (length ?in) ci s =
        Returns (Inr (ci2, put_client a (c\<lparr>tel_stream := st\<rparr>) (log_answers (sock c) out s)))"
      using mem found nc(1) c(1) loop run(3) ci1(1) ci2(1) by (simp add: telnet_input_def Let_def)
    moreover have "clength ci2 < 2 ^ 58"
      using length_cv_bytes[OF ci2(2)] ci2(3) ci1(3) length_cv_bytes[OF run(4)] nl by simp
    ultimately show ?thesis
      using run(2,3,5) ci2(2,3) ci1(3) nc(4) by (intro exI[of _ st] exI[of _ out] exI[of _ ci2] conjI) simp_all
  qed
qed

text \<open>The state when the bytes have been taken in: the stream, the buffer and the answers to commands.\<close>

definition after_input ::
    "nat \<Rightarrow> ('z, 'f) client \<Rightarrow> telnet_stream \<Rightarrow> cv_t \<Rightarrow> byte list list \<Rightarrow> ('z, 'f) server \<Rightarrow> ('z, 'f) server" where
  "after_input a c st buf out s = put_client a (c\<lparr>tel_stream := st, input_buffer := buf\<rparr>) (log_answers (sock c) out s)"

text \<open>The scripts have no access to the input buffer of a client and never free a client.\<close>

definition scripts_keep_input :: "('z, 'f, 'd) platform \<Rightarrow> nat \<Rightarrow> bool" where
  "scripts_keep_input E a \<longleftrightarrow> (\<forall>k s c. store s a = Some c \<longrightarrow>
     (\<exists>c'. store (env_script E k s) a = Some c' \<and> input_buffer c' = input_buffer c \<and> sock c' = sock c))"

lemma finish_input_ok:
  assumes M: "grants_all (env_bytes E)" and sc: "scripts_keep_input E a" and c: "store s a = Some c"
    and buf: "cv_wf (input_buffer c)" "ccapacity (input_buffer c) < 2 ^ 50" and ci: "cv_wf ci" "clength ci < 2048"
    and n: "0 < n" and t: "t = cv_bytes (input_buffer c) @ cv_bytes ci" "0 \<notin> set (butlast t)"
  shows "\<exists>buf. cv_wf buf \<and> (let s1 = put_client a (c\<lparr>input_buffer := buf\<rparr>) s in
    if ends_line t then (let s2 = call_script E (OnPlayerInput a (command_of t)) s1 in
      \<exists>c2 buf'. store s2 a = Some c2 \<and> cv_bytes buf' = [] \<and>
        finish_input E a n ci s = Returns (log_event (Ev_epoll_mod (sock c) a) (put_client a (c2\<lparr>input_buffer := buf'\<rparr>) s2)))
    else cv_bytes buf = t \<and> finish_input E a n ci s = Returns (log_event (Ev_epoll_mod (sock c) a) s1))"
proof -
  have lims: "ccapacity (input_buffer c) < 2 ^ 58" "clength ci < 2 ^ 58" using buf(2) ci(2) by simp_all
  obtain cb where cb: "assemble_line (env_bytes E) (input_buffer c) ci = Some (cb, ends_line t)" "cv_wf cb"
      "cv_bytes cb = (if ends_line t then line_end t else t)"
    using assemble_line_ok[OF M buf(1) ci(1) lims] unfolding t(1) by blast
  let ?s1 = "put_client a (c\<lparr>input_buffer := cb\<rparr>) s"
  have "clength (input_buffer c) < 2 ^ 50" using buf by (auto elim!: cv_wfE)
  then have lt: "length t < 2 ^ 53" using length_cv_bytes[OF buf(1)] length_cv_bytes[OF ci(1)] ci(2) unfolding t(1) by simp
  show ?thesis
  proof (cases "ends_line t")
    case False
    then have "finish_input E a n ci s = Returns (log_event (Ev_epoll_mod (sock c) a) ?s1)"
      using c cb(1) n by (simp add: finish_input_def RearmClientSocket_def)
    then show ?thesis using False cb by (intro exI[of _ cb]) simp
  next
    case True
    have "set (butlast (line_end t)) \<subseteq> set (butlast t)"
      using set_take_subset_set_take[of "length t - 2" "length t - 1" t]
      by (auto simp: line_end_def butlast_conv_take)
    then have z: "0 \<notin> set (butlast (line_end t))" using t(2) by blast
    have b: "cv_bytes cb = line_end t" using cb(3) True by simp
    obtain r c0 co where cl: "cv_init (env_bytes E) (clength cb) = Some (r, c0)"
        "RemoveCRs (env_bytes E) (cells (cdata cb)) (clength cb) c0 = Some co" "terminated (cells (cdata co))"
        "cstr (cells (cdata co)) = command_of t"
      using clean_line[OF M cb(2) b z lt] by blast
    define s2 where "s2 = call_script E (OnPlayerInput a (command_of t)) ?s1"
    have "store (log_event (Ev_script (OnPlayerInput a (command_of t))) ?s1) a = Some (c\<lparr>input_buffer := cb\<rparr>)" by simp
    then obtain c2 where c2: "store s2 a = Some c2" "input_buffer c2 = cb" "sock c2 = sock c"
      using sc unfolding scripts_keep_input_def s2_def call_script_def by fastforce
    obtain buf' where buf': "cv_clear cb = Some buf'" "cv_bytes buf' = []" using cv_clear_ok[OF cb(2)] by blast
    have "deliver_line E a cb ?s1 = Returns (put_client a (c2\<lparr>input_buffer := buf'\<rparr>) s2)"
      using cl c2 buf'(1) by (simp add: deliver_line_def clear_input_def s2_def[symmetric])
    then have "finish_input E a n ci s = Returns (log_event (Ev_epoll_mod (sock c) a) (put_client a (c2\<lparr>input_buffer := buf'\<rparr>) s2))"
      using c cb(1) n True c2(3) by (simp add: finish_input_def RearmClientSocket_def)
    then show ?thesis
      using True cb(2) c2(1) buf'(2) by (intro exI[of _ cb]) (auto simp: Let_def s2_def[symmetric])
  qed
qed

lemma demo_clocked: "clock_input demo_floats \<lparr>tv_sec = 3, tv_nsec = 0\<rparr> 8 (demo_client 5) =
  Some ((demo_client 5)\<lparr>bytes_sent_at_intervals := [8, 0, 0, 0, 0, 0], cmd_intervals := [2, 0, 0, 0, 0, 0],
    interval_idx := 1, last_input_time := \<lparr>tv_sec = 3, tv_nsec = 0\<rparr>\<rparr>)"
  by (simp add: clock_input_def demo_client_def demo_floats_def mem_simps TimeDiffSecs_def CLIENT_STOREDCMDINTERVALS_def)

text \<open>C3: one read of a connected client. The bytes are any sequence of plain characters and telnet commands
  (with a command among them at most 128 characters and no zero byte outside a subnegotiation), fewer than
  2048 and no multiple of 512 of them, and the rate limit is not exceeded. The task then returns 0. If the text collected
  so far ends in a carriage return and one more byte, exactly one call of \<open>OnPlayerInput\<close> is made, with that text up to the line end and
  without carriage returns, after which the buffer is empty; otherwise the text stays in the buffer, complete and in order, and no script is
  called. In both cases the socket is armed again last, and nothing but this client and the log changes (apart from what the script does).\<close>

theorem HandleUserInputTask_line:
  assumes M: "grants_all (env_bytes E)" and sc: "scripts_keep_input E a" and pkg: "pkgs s pkg = Some a" "store s a = Some c"
    and c: "client_ready c" and ts: "list_all legal ts"
      "list_ex is_command ts \<longrightarrow> list_all zero_free ts \<and> length (concat (map plain_of ts)) \<le> 128"
      "length (concat (map encode ts)) < 2048" "length (concat (map encode ts)) mod 512 \<noteq> 0"
    and rate: "rate_ok (env_floats E) now (length (concat (map encode ts))) c"
    and t: "t = cv_bytes (input_buffer c) @ concat (map plain_of ts)" "0 \<notin> set (butlast t)"
  shows "\<exists>c1 st buf out. clock_input (env_floats E) now (length (concat (map encode ts))) c = Some c1 \<and>
    tel_state st = TELSTATE_INPUT \<and> (let s1 = after_input a c1 st buf out s in
    if ends_line t then (let s2 = call_script E (OnPlayerInput a (command_of t)) s1 in
      \<exists>c2 buf'. store s2 a = Some c2 \<and> cv_bytes buf' = [] \<and>
        HandleUserInputTask E (delivery (concat (map encode ts))) now pkg s =
          Returns (0, log_event (Ev_epoll_mod (sock c) a) (put_client a (c2\<lparr>input_buffer := buf'\<rparr>) s2)))
    else cv_bytes buf = t \<and> HandleUserInputTask E (delivery (concat (map encode ts))) now pkg s =
          Returns (0, log_event (Ev_epoll_mod (sock c) a) s1))"
proof -
  let ?in = "concat (map encode ts)"
  obtain r ci cv where rd: "cv_init (env_bytes E) CLIENT_MAXINPUTLEN = Some (r, ci)"
      "read_to_cv (env_bytes E) (delivery ?in) ci 0 CLIENT_MAXINPUTLEN = Returns (length ?in, cv)" "cv_wf cv"
      "cv_bytes cv = ?in" "ccapacity cv \<le> 2048"
    using read_input[OF M ts(3,4)] by blast
  obtain bs ivs i where c1: "clock_input (env_floats E) now (length ?in) c = Some (c\<lparr>bytes_sent_at_intervals := bs,
      cmd_intervals := ivs, interval_idx := i, last_input_time := now\<rparr>)"
    using clock_input_ok[of c "env_floats E" now "length ?in"] c by (auto simp: client_ready_def)
  define c1 where "c1 = c\<lparr>bytes_sent_at_intervals := bs, cmd_intervals := ivs, interval_idx := i, last_input_time := now\<rparr>"
  have clk: "Server_ClockPlayer E now a (length ?in) s = Returns (0, put_client a c1 s)"
    using rate pkg(2) unfolding rate_ok_def c1 c1_def[symmetric] by (simp add: Server_ClockPlayer_def c1 c1_def)
  have same: "tel_stream c1 = tel_stream c" "input_buffer c1 = input_buffer c" "sock c1 = sock c" by (simp_all add: c1_def)
  have cr: "\<not> bDisconnected c" "\<not> b_mccp3 (opts (tel_stream c1))" "tel_wf (tel_stream c1)"
      "tel_state (tel_stream c1) = TELSTATE_INPUT" "cv_wf (input_buffer c1)" "ccapacity (input_buffer c1) < 2 ^ 50"
    using c unfolding client_ready_def same by simp_all
  have st1: "store (put_client a c1 s) a = Some c1" by simp
  obtain st out ci' where tel: "telnet_input E a (length ?in) cv (put_client a c1 s) =
      Returns (Inr (ci', put_client a (c1\<lparr>tel_stream := st\<rparr>) (log_answers (sock c1) out (put_client a c1 s))))"
      "tel_state st = TELSTATE_INPUT" "cv_wf ci'" "cv_bytes ci' = concat (map plain_of ts)"
    using telnet_input_ok[OF M st1 cr(3,4) ts(1,2) rd(3,4,5)] by blast
  let ?s = "put_client a (c1\<lparr>tel_stream := st\<rparr>) (log_answers (sock c1) out s)"
  have n: "0 < length ?in" using ts(4) by (metis gr0I mod_0)
  have ci': "clength ci' < 2048" using length_cv_bytes[OF tel(3)] tel(4) length_plain_le[of ts] ts(3) by simp
  have s: "store ?s a = Some (c1\<lparr>tel_stream := st\<rparr>)" by simp
  have tt: "t = cv_bytes (input_buffer (c1\<lparr>tel_stream := st\<rparr>)) @ cv_bytes ci'" using t(1) tel(4) same by simp
  have bf: "cv_wf (input_buffer (c1\<lparr>tel_stream := st\<rparr>))" "ccapacity (input_buffer (c1\<lparr>tel_stream := st\<rparr>)) < 2 ^ 50"
    using cr(5,6) by simp_all
  have sk: "sock (c1\<lparr>tel_stream := st\<rparr>) = sock c" "sock c1 = sock c" by (simp_all add: same)
  note fin = finish_input_ok[OF M sc s bf tel(3) ci' n tt t(2)]
  have run: "HandleUserInputTask E (delivery ?in) now pkg s = bind_outcome (finish_input E a (length ?in) ci' ?s) (\<lambda>s. Returns (0, s))"
    using pkg cr(1,2) rd(1,2) clk tel(1) by (simp add: HandleUserInputTask_def decompress_input_def)
  obtain buf where "(let s1 = after_input a c1 st buf out s in
    if ends_line t then (let s2 = call_script E (OnPlayerInput a (command_of t)) s1 in
      \<exists>c2 buf'. store s2 a = Some c2 \<and> cv_bytes buf' = [] \<and> finish_input E a (length ?in) ci' ?s =
          Returns (log_event (Ev_epoll_mod (sock c) a) (put_client a (c2\<lparr>input_buffer := buf'\<rparr>) s2)))
    else cv_bytes buf = t \<and> finish_input E a (length ?in) ci' ?s = Returns (log_event (Ev_epoll_mod (sock c) a) s1))"
    using fin unfolding Let_def after_input_def put_client_simps(1) sk by blast
  then show ?thesis
    unfolding run using c1 tel(2)
    by (intro exI[of _ c1] exI[of _ st] exI[of _ buf] exI[of _ out] conjI)
       (auto simp: Let_def c1_def split: if_splits)
qed

theorem HandleUserInputTask_line_witness:
  "\<exists>c1 st buf out. clock_input demo_floats \<lparr>tv_sec = 3, tv_nsec = 0\<rparr> 8 (demo_client 5) = Some c1 \<and>
    tel_state st = TELSTATE_INPUT \<and> (let s1 = after_input 7 c1 st buf out (demo_server [7] [7 \<mapsto> demo_client 5] [(0, 0, 0) \<mapsto> 7] (MemoryPool_Init 1));
      s2 = call_script demo_env (OnPlayerInput 7 [108, 111, 111, 107]) s1 in
      \<exists>c2 buf'. store s2 7 = Some c2 \<and> cv_bytes buf' = [] \<and>
        HandleUserInputTask demo_env (delivery [111, 255, 253, 3, 111, 107, 13, 10]) \<lparr>tv_sec = 3, tv_nsec = 0\<rparr> (0, 0, 0)
            (demo_server [7] [7 \<mapsto> demo_client 5] [(0, 0, 0) \<mapsto> 7] (MemoryPool_Init 1)) =
          Returns (0, log_event (Ev_epoll_mod 5 7) (put_client 7 (c2\<lparr>input_buffer := buf'\<rparr>) s2)))"
proof -
  let ?ts = "[Plain 111, Cmd3 TEL_DO SGA, Plain 111, Plain 107, Plain 13, Plain 10]"
  let ?s = "demo_server [7] [7 \<mapsto> demo_client 5] [(0, 0, 0) \<mapsto> 7] (MemoryPool_Init 1)"
  have e: "concat (map encode ?ts) = [111, 255, 253, 3, 111, 107, 13, 10]" "concat (map plain_of ?ts) = [111, 111, 107, 13, 10]"
    by simp_all
  have len: "length [111, 255, 253, 3, 111, 107, 13, 10 :: byte] = 8" by simp
  have "client_ready (demo_client 5)"
    using fresh_wf(1,2) by (simp add: client_ready_def demo_client_def cv_wf_def MINALLOC_def client_shape_def
        CLIENT_STOREDCMDINTERVALS_def fresh_stream_def fresh_options_def)
  moreover have "rate_ok demo_floats \<lparr>tv_sec = 3, tv_nsec = 0\<rparr> 8 (demo_client 5)"
    unfolding rate_ok_def demo_clocked by (simp add: over_rate_def near_rate_def rate_sums_def demo_floats_def CLIENT_MAXINPUTLEN_def)
  moreover have "cv_bytes (input_buffer (demo_client 5)) = [108]" by (simp add: demo_client_def cv_bytes_def)
  moreover have "ends_line [108, 111, 111, 107, 13, 10]" "command_of [108, 111, 111, 107, 13, 10] = [108, 111, 111, 107]"
    by (simp_all add: ends_line_def command_of_def line_end_def)
  moreover have "grants_all (env_bytes demo_env)" "scripts_keep_input demo_env 7" "env_floats demo_env = demo_floats"
    by (simp_all add: demo_env_def byte_mgr_grants scripts_keep_input_def)
  moreover have "pkgs ?s (0, 0, 0) = Some 7" "store ?s 7 = Some (demo_client 5)" "sock (demo_client 5) = 5"
    by (simp_all add: demo_server_def demo_client_def)
  moreover have "list_all legal ?ts" "list_all zero_free ?ts" by (simp_all add: GetIs2CmdByte_def Is3ByteCmd_def)
  ultimately show ?thesis
    using HandleUserInputTask_line[of demo_env 7 ?s "(0, 0, 0)" "demo_client 5" ?ts "\<lparr>tv_sec = 3, tv_nsec = 0\<rparr>"
        "[108, 111, 111, 107, 13, 10]"]
    unfolding e len Let_def by simp
qed

end
