(* ===== verification/Rand.thy ===== *)
theory Rand
  imports CharVector
begin

text \<open>
  rand.c and crypto.c. The processor instructions (\<open>rdseed\<close>, \<open>rdrand\<close>), the C library's \<open>random\<close>, \<open>double\<close>
  arithmetic and libsodium's password hash are parameters. The functions that exist only with
  \<open>USEINTELINTRINSICS_\<close> are modelled for a build that defines it.
\<close>

unbundle bit_operations_syntax

record rand_generator =
  seed64 :: "64 word"
  wyhash64_x :: "64 word"

text \<open>The seed is the time, or with the intrinsics what \<open>rdseed\<close> stored (\<open>Some\<close>); \<open>wyhash64_x\<close> is not set.\<close>

definition RandGenerator_Init :: "64 word option \<Rightarrow> int \<Rightarrow> int \<Rightarrow> rand_generator \<Rightarrow> int \<times> rand_generator" where
  "RandGenerator_Init rdseed sec nsec rgn =
     (let rgn = rgn\<lparr>seed64 := push_bit 32 (of_int sec) OR of_int nsec\<rparr>
      in (0, (case rdseed of Some v \<Rightarrow> rgn\<lparr>seed64 := v\<rparr> | None \<Rightarrow> rgn)))"

text \<open>\<open>random\<close> returns 31 random bits as a \<open>long\<close>.\<close>

definition RandGenerator_Gen64 :: "64 word option \<Rightarrow> 64 word \<Rightarrow> 64 word \<Rightarrow> 64 word" where
  "RandGenerator_Gen64 rdrand r1 r2 = (case rdrand of Some v \<Rightarrow> v | None \<Rightarrow> push_bit 32 r1 OR r2)"

definition wyhash_step :: "64 word" where
  "wyhash_step = 0x60bee2bee120fc15"

definition fold_multiply :: "64 word \<Rightarrow> 128 word \<Rightarrow> 64 word" where
  "fold_multiply x k = (let tmp = ucast x * k in ucast (drop_bit 64 tmp XOR tmp))"

definition RandGenerator_PRNG64 :: "rand_generator \<Rightarrow> 64 word \<times> rand_generator" where
  "RandGenerator_PRNG64 rgn =
     (let x = wyhash64_x rgn + wyhash_step;
          m1 = fold_multiply x 0xa3b195354a39b70d;
          m2 = fold_multiply m1 0x1b03738712fad5c9
      in (m2, rgn\<lparr>wyhash64_x := x\<rparr>))"

definition RandGenerator_RandDouble ::
    "('d \<Rightarrow> 'd \<Rightarrow> 'd) \<Rightarrow> (64 word \<Rightarrow> 'd) \<Rightarrow> rand_generator \<Rightarrow> 'd \<times> rand_generator" where
  "RandGenerator_RandDouble divide_d to_double rgn =
     (case RandGenerator_PRNG64 rgn of (r, rgn) \<Rightarrow> (divide_d (to_double r) (to_double (- 1)), rgn))"

record rand_fifo =
  fifo_length :: nat

definition RandFIFO_Init :: "rand_fifo \<Rightarrow> nat \<Rightarrow> int \<times> rand_fifo" where
  "RandFIFO_Init fifo init_len = (0, fifo\<lparr>fifo_length := init_len\<rparr>)"

fun prng_outputs :: "nat \<Rightarrow> rand_generator \<Rightarrow> 64 word list \<times> rand_generator" where
  "prng_outputs 0 rgn = ([], rgn)"
| "prng_outputs (Suc n) rgn =
     (case RandGenerator_PRNG64 rgn of (r, rgn) \<Rightarrow> case prng_outputs n rgn of (rs, rgn) \<Rightarrow> (r # rs, rgn))"

section \<open>The sequence of states\<close>

lemma prng_state: "wyhash64_x (snd (prng_outputs n rgn)) = wyhash64_x rgn + of_nat n * wyhash_step"
  by (induction n arbitrary: rgn) (simp_all add: RandGenerator_PRNG64_def Let_def algebra_simps case_prod_unfold)

lemma PRNG64_state:
  "RandGenerator_PRNG64 rgn = (fst (RandGenerator_PRNG64 rgn), rgn\<lparr>wyhash64_x := wyhash64_x rgn + wyhash_step\<rparr>)"
  "wyhash64_x rgn = wyhash64_x rgn' \<Longrightarrow> fst (RandGenerator_PRNG64 rgn) = fst (RandGenerator_PRNG64 rgn')"
  by (simp_all only: RandGenerator_PRNG64_def Let_def fst_conv)

lemma prng_outputs_Suc:
  "fst (prng_outputs (Suc n) rgn) =
     fst (RandGenerator_PRNG64 rgn) # fst (prng_outputs n (rgn\<lparr>wyhash64_x := wyhash64_x rgn + wyhash_step\<rparr>))"
  by (simp only: prng_outputs.simps case_prod_unfold fst_conv) (metis PRNG64_state(1) snd_conv)

lemma prng_outputs_cong:
  "wyhash64_x rgn = wyhash64_x rgn' \<Longrightarrow> fst (prng_outputs n rgn) = fst (prng_outputs n rgn')"
proof (induction n arbitrary: rgn rgn')
  case (Suc n)
  show ?case unfolding prng_outputs_Suc PRNG64_state(2)[OF Suc.prems]
    by (simp only: list.inject simp_thms) (rule Suc.IH, simp, rule Suc.prems)
qed simp

lemma wyhash_step_mult: "of_nat n * wyhash_step = 0 \<longleftrightarrow> 2 ^ 64 dvd n"
proof -
  have "of_nat n * wyhash_step = of_nat (n * 0x60bee2bee120fc15)"
    by (simp add: wyhash_step_def)
  then have "of_nat n * wyhash_step = 0 \<longleftrightarrow> 2 ^ 64 dvd n * 0x60bee2bee120fc15"
    by (simp only: word_of_nat_eq_0_iff len_num0 len_bit0 len_num1) simp
  also have "\<dots> \<longleftrightarrow> 2 ^ 64 dvd n"
  proof (rule coprime_dvd_mult_left_iff)
    have "coprime (2 :: nat) 0x60bee2bee120fc15" by simp
    then show "coprime (2 ^ 64) (0x60bee2bee120fc15 :: nat)" by (simp only: coprime_power_left_iff) simp
  qed
  finally show ?thesis .
qed

lemma wyhash_inj: "inj_on (\<lambda>k. y + of_nat k * wyhash_step) {..<2 ^ 64}"
proof (rule inj_onI)
  fix i j :: nat
  assume lt: "i \<in> {..<2 ^ 64}" "j \<in> {..<2 ^ 64}" and eq: "y + of_nat i * wyhash_step = y + of_nat j * wyhash_step"
  have "i = j" if "i \<le> j" "of_nat i * wyhash_step = of_nat j * wyhash_step" "j < 2 ^ 64" for i j :: nat
  proof -
    have "of_nat (j - i) * wyhash_step = of_nat j * wyhash_step - of_nat i * wyhash_step"
      using that(1) by (simp only: of_nat_diff left_diff_distrib)
    then have "2 ^ 64 dvd j - i" using that(2) wyhash_step_mult[of "j - i"] by simp
    moreover have "j - i < 2 ^ 64" using that(3) by (rule le_less_trans[OF diff_le_self])
    ultimately have "j - i = 0" using nat_dvd_not_less by blast
    then show ?thesis using that(1) by simp
  qed
  then show "i = j" using lt eq by (metis add_left_cancel lessThan_iff linear)
qed

lemma wyhash_orbit: "\<exists>k < 2 ^ 64. y + of_nat k * wyhash_step = x"
proof -
  let ?f = "\<lambda>k. y + of_nat k * wyhash_step"
  have "card (?f ` {..<2 ^ 64}) = CARD(64 word)"
    unfolding card_image[OF wyhash_inj] card_lessThan card_word by (simp only: len_num0 len_bit0 len_num1) simp
  then have "?f ` {..<2 ^ 64} = UNIV" by (intro card_subset_eq finite subset_UNIV)
  then have "x \<in> ?f ` {..<2 ^ 64}" by (simp only: UNIV_I)
  then show ?thesis by blast
qed

section \<open>The password hash\<close>

definition crypto_pwhash_STRBYTES :: nat where
  "crypto_pwhash_STRBYTES = 128"

text \<open>
  \<open>pwhash\<close> stands for libsodium's \<open>crypto_pwhash_str\<close>: \<open>None\<close> when it fails, otherwise the 128 bytes it
  writes, the printable hash and zeros.
\<close>

definition CryptoManager_HashPassword ::
    "byte mem_mgr \<Rightarrow> (byte list \<Rightarrow> byte list option) \<Rightarrow> byte list \<Rightarrow> nat \<Rightarrow> cv_t \<Rightarrow> (int \<times> cv_t) option" where
  "CryptoManager_HashPassword M pwhash password passwordlen output = do {
     let output = snd (cv_resize M output crypto_pwhash_STRBYTES);
     pw \<leftarrow> read_cells password 0 passwordlen;
     case pwhash pw of
       None \<Rightarrow> Some (-1, output)
     | Some h \<Rightarrow> do { d \<leftarrow> copy_cells (cells (cdata output)) 0 h; Some (0, output\<lparr>cdata := Some d\<rparr>) }
   }"

lemma HashPassword_ok:
  assumes M: "grants_all M" and wf: "cv_wf cv" and len: "passwordlen \<le> length password"
    and h: "pwhash (take passwordlen password) = Some h" "length h = 128"
  shows "\<exists>cv'. CryptoManager_HashPassword M pwhash password passwordlen cv = Some (0, cv') \<and>
    cdata cv' = Some h \<and> clength cv' = clength cv \<and> ccapacity cv' = 128"
proof -
  from cv_wfE[OF wf] obtain d where d: "cdata cv = Some d" "length d = max MINALLOC (ccapacity cv)"
    "length d < 2 ^ 62" by blast
  obtain d' where d': "cdata (snd (cv_resize M cv 128)) = Some d'" "length d' = 128"
    "clength (snd (cv_resize M cv 128)) = clength cv" "ccapacity (snd (cv_resize M cv 128)) = 128"
    using d M by (cases "ccapacity cv = 128")
      (auto simp: cv_resize_def Let_def cv_realloc_def realloc_cells_def MINALLOC_def grants_all_def sz_small)
  have "copy_cells d' 0 h = Some h" using d'(2) h(2) by (simp add: mem_simps)
  then show ?thesis using d' h len
    by (auto simp: CryptoManager_HashPassword_def Let_def crypto_pwhash_STRBYTES_def mem_simps)
qed

section \<open>Properties\<close>

text \<open>the generator starts in the same state at every start of the server: whatever the clock and the
  processor's random numbers are, \<open>Server_Start\<close> (which clears the whole struct) and \<open>RandGenerator_Init\<close>
  lead to one and the same sequence of numbers, because the seed is never used.\<close>

theorem rng_ignores_its_seed:
  "fst (prng_outputs n (snd (RandGenerator_Init hw sec nsec \<lparr>seed64 = 0, wyhash64_x = 0\<rparr>))) =
   fst (prng_outputs n (snd (RandGenerator_Init hw' sec' nsec' \<lparr>seed64 = 0, wyhash64_x = 0\<rparr>)))"
  by (rule prng_outputs_cong) (simp add: RandGenerator_Init_def Let_def split: option.splits)

text \<open>the states of the generator repeat exactly after \<open>2 ^ 64\<close> calls: two points of the sequence have
  the same state exactly when their distance is a multiple of \<open>2 ^ 64\<close>, so every state is visited once per
  period, and the numbers are fixed by the state.\<close>

theorem prng_full_period:
  "(wyhash64_x (snd (prng_outputs (m + n) rgn)) = wyhash64_x (snd (prng_outputs m rgn)) \<longleftrightarrow> 2 ^ 64 dvd n) \<and>
   (\<exists>k < 2 ^ 64. wyhash64_x (snd (prng_outputs k rgn)) = x)"
proof (rule conjI)
  show "wyhash64_x (snd (prng_outputs (m + n) rgn)) = wyhash64_x (snd (prng_outputs m rgn)) \<longleftrightarrow> 2 ^ 64 dvd n"
    using wyhash_step_mult[of n] by (simp only: prng_state of_nat_add distrib_right add.assoc add_left_cancel add_0_right add_cancel_left_right add_cancel_right_right)
  show "\<exists>k < 2 ^ 64. wyhash64_x (snd (prng_outputs k rgn)) = x"
    using wyhash_orbit[of "wyhash64_x rgn" x] by (simp only: prng_state)
qed

text \<open>without the intrinsics a number from \<open>RandGenerator_Gen64\<close> never has bit 31 or bit 63 set: the
  halves come from \<open>random\<close>, which returns 31 bits.\<close>

theorem Gen64_misses_bits:
  assumes "r1 < 2 ^ 31" "r2 < 2 ^ 31"
  shows "\<not> bit (RandGenerator_Gen64 None r1 r2) 31 \<and> \<not> bit (RandGenerator_Gen64 None r1 r2) 63 \<and>
    take_bit 32 (RandGenerator_Gen64 None r1 r2) = r2 \<and> drop_bit 32 (RandGenerator_Gen64 None r1 r2) = r1"
proof -
  have b: "\<not> bit r1 k \<and> \<not> bit r2 k" if "31 \<le> k" for k
  proof -
    have "\<not> bit r k" if r: "r < 2 ^ 31" for r :: "64 word"
    proof -
      have "unat r < 2 ^ 31" using r by (simp add: word_less_nat_alt)
      then have "unat r < 2 ^ k" using \<open>31 \<le> k\<close> by (meson less_le_trans one_le_numeral power_increasing)
      then have "unat r div 2 ^ k = 0" by (rule div_less)
      then have "\<not> bit (unat r) k" by (simp only: bit_iff_odd) simp
      then show ?thesis using bit_imp_le_length[of r k] by (auto simp: bit_unsigned_iff)
    qed
    then show ?thesis using assms by blast
  qed
  have lt: "k < 31" if "bit r1 k \<or> bit r2 k" for k using b[of k] that by (meson not_le)
  have "take_bit 32 (push_bit 32 r1 OR r2) = r2"
    by (rule bit_word_eqI) (use lt in \<open>fastforce simp: bit_take_bit_iff bit_or_iff bit_push_bit_iff\<close>)
  moreover have "drop_bit 32 (push_bit 32 r1 OR r2) = r1"
    by (rule bit_word_eqI) (use lt in \<open>fastforce simp: bit_drop_bit_eq bit_or_iff bit_push_bit_iff\<close>)
  ultimately show ?thesis using b by (simp add: RandGenerator_Gen64_def bit_or_iff bit_push_bit_iff)
qed

theorem Gen64_misses_bits_witness:
  "\<not> bit (RandGenerator_Gen64 None 0x7fffffff 0x7fffffff) 31 \<and>
   drop_bit 32 (RandGenerator_Gen64 None 0x7fffffff 0x7fffffff) = 0x7fffffff"
  using Gen64_misses_bits[of "0x7fffffff" "0x7fffffff"] by simp

end
