(* ===== verification/ServerInit.thy ===== *)
theory ServerInit
  imports Server TickThread Rand
begin

text \<open>
  server_init.c: starting, reloading and stopping the server. The state \<open>host\<close> holds the server's state and
  what else \<open>struct Server\<close> owns: descriptors, the timed queue, the threads, the blocks behind its pointers.
  A pointer to a freed block is marked, so that freeing it again, or a join of a thread that was never
  created, is a fault. The results of system calls, of libsodium and of the C++ parts (script engine,
  database, multi-precision numbers) are the record \<open>boot\<close>, an argument. A script that changes the
  configuration, and the console output, are left out.
\<close>

section \<open>State\<close>

text \<open>What a pointer holds: null, a block, or a block that was freed.\<close>

datatype pointer = Null | Live | Dangling

record ('z, 'f) host =
  srv :: "('z, 'f) server"
  timed_q :: "mem_node prioq"
  timed_args :: "mem_node \<Rightarrow> mem_node thread_task"
  timed_array :: pointer
  rng :: rand_generator
  tick :: tick_thread
  tick_created :: bool
  thread_count :: nat
  pools_freed :: bool
  evlist :: pointer
  MOTD_block :: pointer
  sockfd :: int
  epfd :: int
  pipe_fds :: "int \<times> int"
  realtime_offset :: timespec
  open_fds :: "int list"
  closed_fds :: "int list"
  engine_up :: bool
  database_up :: bool

record boot =
  timed_mgr :: "mem_node prioqnode mem_mgr"
  mp_library :: int
  realtime_clock :: timespec
  monotonic_clock :: timespec
  rdseed :: "64 word option"
  boot_sec :: int
  boot_nsec :: int
  sodium_init :: int
  init_engine :: int
  init_api :: int
  load_config :: int
  database_init :: int
  load_scripts :: int
  prepare_persistence :: int
  on_server_start :: int
  motd_file :: "byte list option"
  nprocs :: nat
  tick_create_result :: int
  thread_ok :: "nat \<Rightarrow> bool"
  socket_result :: int
  setsockopt_result :: int
  epoll_result :: int
  pipe_result :: "(int \<times> int) option"
  add_pipe_result :: int
  add_socket_result :: int
  bind_result :: int
  listen_result :: int

definition zero_thread_pool :: "mem_node thread_pool" where
  "zero_thread_pool = \<lparr>threads = [], prio_queue = \<lparr>ah_array = None, ah_len = 0, ah_capacity = 0\<rparr>, mutex_owner = None,
     bIsRunning = False, tp_alloc = \<lparr>pool_blocks = [], element_size = 0, element_count = 0, headnode = None, block_count = 0,
     links = Map.empty\<rparr>, tasks = (\<lambda>_. \<lparr>taskfn = None, pArgs = (0, (0, 0)), releasefn = None\<rparr>),
     created = {#}, signals = 0, broadcasts = 0\<rparr>"

text \<open>\<open>memset\<close> of the whole struct. The descriptors 0, 1 and 2 are open.\<close>

definition zero_host :: "('z, 'f) host" where
  "zero_host =
     \<lparr>srv = \<lparr>clients = \<lparr>pStorage = None, vcapacity = 0, vlength = 0, FreeNodeFn = None\<rparr>, store = Map.empty, pkgs = Map.empty,
        srv_pool = \<lparr>alloc_pools = [], alloc_pool_count = 0, default_init_elcount = 0, bIsInitialized = False\<rparr>,
        thread_pool = zero_thread_pool, MOTD = [], MOTDlen = 0, cmd_pipe = [], events = []\<rparr>,
      timed_q = \<lparr>ah_array = None, ah_len = 0, ah_capacity = 0\<rparr>,
      timed_args = (\<lambda>_. \<lparr>taskfn = None, pArgs = (0, (0, 0)), releasefn = None\<rparr>), timed_array = Null,
      rng = \<lparr>seed64 = 0, wyhash64_x = 0\<rparr>, tick = \<lparr>tt_running = False, tick_delay = 0\<rparr>, tick_created = False,
      thread_count = 0, pools_freed = False, evlist = Null, MOTD_block = Null, sockfd = 0, epfd = 0, pipe_fds = (0, 0),
      realtime_offset = \<lparr>tv_sec = 0, tv_nsec = 0\<rparr>, open_fds = [0, 1, 2], closed_fds = [], engine_up = False, database_up = False\<rparr>"

definition close_fd :: "int \<Rightarrow> ('z, 'f) host \<Rightarrow> ('z, 'f) host" where
  "close_fd fd h = h\<lparr>open_fds := filter (\<lambda>x. x \<noteq> fd) (open_fds h), closed_fds := closed_fds h @ [fd]\<rparr>"

definition open_fd :: "int \<Rightarrow> ('z, 'f) host \<Rightarrow> ('z, 'f) host" where
  "open_fd fd h = h\<lparr>open_fds := open_fds h @ [fd]\<rparr>"

section \<open>Stopping\<close>

text \<open>\<open>tfree\<close> of a pointer that is not cleared after it: the new value, unless the block is freed twice.\<close>

fun tfree_pointer :: "pointer \<Rightarrow> pointer outcome" where
  "tfree_pointer Null = Returns Null"
| "tfree_pointer Live = Returns Dangling"
| "tfree_pointer Dangling = Faults"

definition Server_StopNetwork :: "('z, 'f) host \<Rightarrow> ('z, 'f) host outcome" where
  "Server_StopNetwork h =
     (let h = close_fd (sockfd h) h; h = close_fd (fst (pipe_fds h)) h; h = close_fd (snd (pipe_fds h)) h in
      bind_outcome (tfree_pointer (evlist h)) (\<lambda>p. Returns (h\<lparr>evlist := p\<rparr>)))"

text \<open>
  The joins need every thread of the array to exist. A release function that \<open>ThreadPool_Destroy\<close> calls gets the
  task in place of its arguments and takes it for a package: an access through pointers that are none. The memory
  pool's array stays where it was.
\<close>

definition destroy_threads :: "('z, 'f, 'd) platform \<Rightarrow> ('z, 'f) host \<Rightarrow> ('z, 'f) host outcome" where
  "destroy_threads E h =
     (if length (threads (thread_pool (srv h))) \<noteq> thread_count h then Faults
      else bind_outcome (defined (ThreadPool_Destroy (env_nodes E) (thread_pool (srv h)))) (\<lambda>(calls, q, blocks).
        if calls \<noteq> [] then Faults
        else Returns (h\<lparr>srv := (srv h)\<lparr>thread_pool := zero_thread_pool\<rparr>, thread_count := 0\<rparr>)))"

definition stop_tick :: "('z, 'f) host \<Rightarrow> ('z, 'f) host outcome" where
  "stop_tick h = (if tt_running (tick h) \<and> \<not> tick_created h then Faults
     else Returns (h\<lparr>tick := TickThread_Stop (tick h)\<rparr>))"

definition destroy_mem_pool :: "('z, 'f) host \<Rightarrow> ('z, 'f) host outcome" where
  "destroy_mem_pool h =
     (if alloc_pool_count (srv_pool (srv h)) > 0 \<and> pools_freed h then Faults
      else Returns (h\<lparr>pools_freed := True, srv := (srv h)\<lparr>pkgs := Map.empty\<rparr>\<rparr>))"

definition Server_StopThreads :: "('z, 'f, 'd) platform \<Rightarrow> ('z, 'f) host \<Rightarrow> ('z, 'f) host outcome" where
  "Server_StopThreads E h =
     bind_outcome (destroy_threads E h) (\<lambda>h. bind_outcome (stop_tick h) destroy_mem_pool)"

definition Server_FreeMOTD :: "('z, 'f) host \<Rightarrow> ('z, 'f) host outcome" where
  "Server_FreeMOTD h = bind_outcome (tfree_pointer (MOTD_block h)) (\<lambda>_.
     Returns (h\<lparr>MOTD_block := Null, srv := (srv h)\<lparr>MOTD := []\<rparr>\<rparr>))"

definition Server_UnloadGame :: "('z, 'f) host \<Rightarrow> ('z, 'f) host outcome" where
  "Server_UnloadGame h = bind_outcome (Server_FreeMOTD h) (\<lambda>h. Returns (h\<lparr>database_up := False\<rparr>))"

definition Server_FreeConfiguration :: "('z, 'f) host \<Rightarrow> ('z, 'f) host" where
  "Server_FreeConfiguration h = h"

text \<open>\<open>AngelScriptManager_ReleaseEngine\<close> calls a method of the scheduler, which a manager without an engine does not have.\<close>

definition Server_StopScriptEngine :: "('z, 'f) host \<Rightarrow> ('z, 'f) host outcome" where
  "Server_StopScriptEngine h = (if engine_up h then Returns (h\<lparr>engine_up := False\<rparr>) else Faults)"

fun release_clients :: "(nat, unit) release list \<Rightarrow> ('z, 'f) server \<Rightarrow> ('z, 'f) server outcome" where
  "release_clients [] s = Returns s"
| "release_clients (r # rs) s = bind_outcome (release_client r s) (release_clients rs)"

definition destroy_timed_queue :: "('z, 'f) host \<Rightarrow> ('z, 'f) host outcome" where
  "destroy_timed_queue h = bind_outcome (tfree_pointer (timed_array h)) (\<lambda>p.
     Returns (h\<lparr>timed_array := p, timed_q := prioq_destroy (timed_q h)\<rparr>))"

definition Server_ReleaseADTs :: "('z, 'f) host \<Rightarrow> ('z, 'f) host outcome" where
  "Server_ReleaseADTs h =
     bind_outcome (defined (Vector_Destroy (clients (srv h)))) (\<lambda>(rels, v).
     bind_outcome (release_clients rels (srv h)) (\<lambda>s.
       destroy_timed_queue (h\<lparr>srv := s\<lparr>clients := v\<rparr>\<rparr>)))"

definition Server_Stop :: "('z, 'f, 'd) platform \<Rightarrow> ('z, 'f) host \<Rightarrow> ('z, 'f) host outcome" where
  "Server_Stop E h =
     bind_outcome (Server_StopNetwork h) (\<lambda>h.
     bind_outcome (Server_StopThreads E h) (\<lambda>h.
     bind_outcome (Server_UnloadGame h) (\<lambda>h.
     bind_outcome (Server_ReleaseADTs (Server_FreeConfiguration h)) Server_StopScriptEngine)))"

section \<open>Starting\<close>

text \<open>The status of a step, and \<open>Server_Stop\<close> in the steps that call it before they fail.\<close>

definition stop_and_fail :: "('z, 'f, 'd) platform \<Rightarrow> ('z, 'f) host \<Rightarrow> (int \<times> ('z, 'f) host) outcome" where
  "stop_and_fail E h = bind_outcome (Server_Stop E h) (\<lambda>h. Returns (-1, h))"

definition Server_LoadMOTD :: "('z, 'f, 'd) platform \<Rightarrow> boot \<Rightarrow> ('z, 'f) host \<Rightarrow> (int \<times> ('z, 'f) host) outcome" where
  "Server_LoadMOTD E B h =
     (case motd_file B of
        None \<Rightarrow> Returns (-1, h)
      | Some bs \<Rightarrow>
          if env_blocks E (length bs + 1)
          then Returns (0, h\<lparr>MOTD_block := Live, srv := (srv h)\<lparr>MOTD := bs @ [0], MOTDlen := length bs\<rparr>\<rparr>)
          else Faults)"

definition Server_InitializeADTs ::
    "('z, 'f, 'd) platform \<Rightarrow> boot \<Rightarrow> ('z, 'f) host \<Rightarrow> (int \<times> ('z, 'f) host) outcome" where
  "Server_InitializeADTs E B h =
     (if mp_library B < 0 then stop_and_fail E h
      else
        bind_outcome (defined (prioq_create (timed_mgr B) 32)) (\<lambda>(_, q).
        let h = h\<lparr>timed_q := q, timed_array := if ah_array q = None then Null else Live\<rparr>;
            (vr, v) = Vector_Create (env_ptrs E) (clients (srv h)) 64 (Some ());
            h = h\<lparr>srv := (srv h)\<lparr>clients := v\<rparr>\<rparr> in
        if vr < 0 then stop_and_fail E h
        else
          let (gr, g) = RandGenerator_Init (rdseed B) (boot_sec B) (boot_nsec B) (rng h); h = h\<lparr>rng := g\<rparr> in
          if gr < 0 then stop_and_fail E h
          else if sodium_init B < 0 then stop_and_fail E h
          else Returns (0, h)))"

definition Server_InitializeScriptEngine :: "boot \<Rightarrow> ('z, 'f) host \<Rightarrow> int \<times> ('z, 'f) host" where
  "Server_InitializeScriptEngine B h =
     (if init_engine B < 0 then (-1, h)
      else let h = h\<lparr>engine_up := True\<rparr> in if init_api B < 0 then (-1, h) else (init_api B, h))"

definition Server_LoadConfiguration :: "boot \<Rightarrow> int" where
  "Server_LoadConfiguration B = (if load_config B < 0 then -1 else 0)"

definition open_database :: "boot \<Rightarrow> ('z, 'f) host \<Rightarrow> ('z, 'f) host" where
  "open_database B h = (if database_init B < 0 then h else h\<lparr>database_up := True\<rparr>)"

definition Server_LoadGame :: "('z, 'f, 'd) platform \<Rightarrow> boot \<Rightarrow> ('z, 'f) host \<Rightarrow> (int \<times> ('z, 'f) host) outcome" where
  "Server_LoadGame E B h =
     (if load_scripts B < 0 then Returns (-1, h)
      else if prepare_persistence B < 0 then Returns (-1, h)
      else if on_server_start B < 0 then Returns (-1, h)
      else bind_outcome (Server_LoadMOTD E B h) (\<lambda>(_, h). Returns (0, h)))"

text \<open>\<open>max(cpu_cores - 2, 1)\<close> on an \<open>unsigned int\<close>: on a machine with one core the difference wraps.\<close>

definition boot_cores :: "boot \<Rightarrow> nat" where
  "boot_cores B = max (unat ((word_of_nat (nprocs B) :: 32 word) - 2)) 1"

lemma boot_cores_single: "nprocs B = 1 \<Longrightarrow> boot_cores B = 2 ^ 32 - 1"
  by (simp add: boot_cores_def unsigned_minus_1_eq_mask mask_eq_exp_minus_1)

lemma boot_cores_many: "2 \<le> nprocs B \<Longrightarrow> nprocs B < 2 ^ 32 \<Longrightarrow> boot_cores B = max (nprocs B - 2) 1"
proof -
  assume n: "2 \<le> nprocs B" "nprocs B < 2 ^ 32"
  then have e: "(word_of_nat (nprocs B) :: 32 word) - 2 = word_of_nat (nprocs B - 2)" by (simp add: of_nat_diff)
  show ?thesis unfolding boot_cores_def e using n by (simp only: unat_of_nat) simp
qed

text \<open>A pool whose threads could not all be created keeps the number it was asked for.\<close>

definition Server_InitializeThreads :: "('z, 'f, 'd) platform \<Rightarrow> boot \<Rightarrow> ('z, 'f) host \<Rightarrow> (int \<times> ('z, 'f) host) outcome" where
  "Server_InitializeThreads E B h =
     (let h = h\<lparr>srv := (srv h)\<lparr>srv_pool := MemoryPool_Init 32\<rparr>, pools_freed := False\<rparr>;
          (tr, t) = TickThread_Init (tick_create_result B) 1000000;
          h = h\<lparr>tick := t, tick_created := tr = 0\<rparr>;
          cores = boot_cores B in
      if tr < 0 then Returns (-1, h)
      else bind_outcome (defined (ThreadPool_Init (env_nodes E) (env_blocks E) (thread_ok B)
             \<lparr>taskfn = None, pArgs = (0, (0, 0)), releasefn = None\<rparr> cores)) (\<lambda>(r, tp).
        let h = h\<lparr>srv := (srv h)\<lparr>thread_pool := tp\<rparr>, thread_count := cores\<rparr> in
        if r < 0 then Returns (-1, h) else Returns (0, h)))"

definition sizeof_epoll_event :: nat where
  "sizeof_epoll_event = 12"

definition Server_InitializeNetwork :: "('z, 'f, 'd) platform \<Rightarrow> boot \<Rightarrow> ('z, 'f) host \<Rightarrow> (int \<times> ('z, 'f) host) outcome" where
  "Server_InitializeNetwork E B h =
     (let h = h\<lparr>sockfd := socket_result B\<rparr> in
      if socket_result B < 0 then Returns (-1, h)
      else let h = open_fd (socket_result B) h in
      if setsockopt_result B < 0 then Returns (-1, h)
      else if \<not> env_blocks E (sizeof_epoll_event * 64) then Faults
      else let h = h\<lparr>evlist := Live, epfd := epoll_result B\<rparr>;
               h = (if epoll_result B < 0 then h else open_fd (epoll_result B) h) in
      (case pipe_result B of
         None \<Rightarrow> Returns (-1, h)
       | Some (rend, wend) \<Rightarrow>
           let h = open_fd wend (open_fd rend (h\<lparr>pipe_fds := (rend, wend)\<rparr>)) in
           if add_pipe_result B < 0 then Returns (-1, h)
           else if add_socket_result B < 0 then stop_and_fail E h
           else if bind_result B < 0 then Returns (-1, h)
           else if listen_result B < 0 then Returns (-1, h)
           else Returns (0, h)))"

definition cleared_host :: "boot \<Rightarrow> ('z, 'f) host" where
  "cleared_host B = zero_host\<lparr>realtime_offset :=
     \<lparr>tv_sec = tv_sec (realtime_clock B) - tv_sec (monotonic_clock B),
      tv_nsec = tv_nsec (realtime_clock B) - tv_nsec (monotonic_clock B)\<rparr>\<rparr>"

definition Server_Start :: "('z, 'f, 'd) platform \<Rightarrow> boot \<Rightarrow> (int \<times> ('z, 'f) host) outcome" where
  "Server_Start E B =
     bind_outcome (Server_InitializeADTs E B (cleared_host B)) (\<lambda>(r, h).
     if r < 0 then Returns (-1, h)
     else case Server_InitializeScriptEngine B h of (r, h) \<Rightarrow>
     if r < 0 then Returns (-1, h)
     else if Server_LoadConfiguration B < 0 then Returns (-1, h)
     else let h = open_database B h in
     if database_init B < 0 then stop_and_fail E h
     else bind_outcome (Server_LoadGame E B h) (\<lambda>(r, h).
     if r < 0 then Returns (-1, h)
     else bind_outcome (Server_InitializeThreads E B h) (\<lambda>(r, h).
     if r < 0 then Returns (-1, h)
     else bind_outcome (Server_InitializeNetwork E B h) (\<lambda>(r, h).
     if r < 0 then Returns (-1, h) else Returns (0, h)))))"

section \<open>Reloading\<close>

definition release_player :: "nat \<Rightarrow> ('z, 'f) server \<Rightarrow> ('z, 'f) server outcome" where
  "release_player a s = with_client a s (\<lambda>c. Returns (put_client a (c\<lparr>player_obj := False\<rparr>) s))"

text \<open>A pass over the vector from an index on, with a step for each client in it.\<close>

fun each_client ::
    "(nat \<Rightarrow> ('z, 'f) server \<Rightarrow> ('z, 'f) server outcome) \<Rightarrow> nat \<Rightarrow> nat \<Rightarrow> ('z, 'f) server \<Rightarrow> ('z, 'f) server outcome" where
  "each_client f idx 0 s = Returns s"
| "each_client f idx (Suc n) s =
     bind_outcome (defined (Vector_At (clients s) idx)) (\<lambda>p. case p of
       None \<Rightarrow> Faults
     | Some a \<Rightarrow> bind_outcome (f a s) (\<lambda>s. each_client f (Suc idx) n s))"

definition on_server :: "(('z, 'f) server \<Rightarrow> ('z, 'f) server outcome) \<Rightarrow> ('z, 'f) host \<Rightarrow> ('z, 'f) host outcome" where
  "on_server f h = bind_outcome (f (srv h)) (\<lambda>s. Returns (h\<lparr>srv := s\<rparr>))"

definition reload_stop :: "('z, 'f, 'd) platform \<Rightarrow> ('z, 'f) host \<Rightarrow> ('z, 'f) host outcome" where
  "reload_stop E h =
     bind_outcome (Server_StopThreads E h) (\<lambda>h.
     bind_outcome (on_server (\<lambda>s. each_client release_player 0 (Vector_Count (clients s)) s) h) (\<lambda>h.
     bind_outcome (Server_UnloadGame h) (\<lambda>h. Server_StopScriptEngine (Server_FreeConfiguration h))))"

definition Server_Reload :: "('z, 'f, 'd) platform \<Rightarrow> boot \<Rightarrow> ('z, 'f) host \<Rightarrow> (int \<times> ('z, 'f) host) outcome" where
  "Server_Reload E B h =
     bind_outcome (reload_stop E h) (\<lambda>h.
     case Server_InitializeScriptEngine B h of (r, h) \<Rightarrow>
     if r < 0 then Returns (-1, h)
     else if Server_LoadConfiguration B < 0 then Returns (-1, h)
     else let h = open_database B h in
     if database_init B < 0 then Returns (-1, h)
     else bind_outcome (Server_LoadGame E B h) (\<lambda>(r, h).
     if r < 0 then
       bind_outcome (Server_UnloadGame h) (\<lambda>h.
       bind_outcome (Server_StopScriptEngine (Server_FreeConfiguration (h\<lparr>database_up := False\<rparr>))) (\<lambda>h.
       Returns (-1, h)))
     else bind_outcome (Server_InitializeThreads E B h) (\<lambda>(r, h).
     if r < 0 then Returns (-1, h)
     else
       bind_outcome (on_server (\<lambda>s. each_client (\<lambda>a s. Returns (call_script E (OnPlayerConnect a) s)) 0
         (Vector_Count (clients s)) s) h) (\<lambda>h. Returns (0, h)))))"

end
