(* ===== verification/ServerClients.thy ===== *)
theory ServerClients
  imports Server
begin

text \<open>
  Who owns a client: the vector of the server holds every client that is allocated, every package of an input
  task holds a reference, and a client is freed when the last reference of a disconnected one goes. The
  invariant is stated over what the ownership depends on, and most handlers leave that alone.
\<close>

section \<open>Results of handlers\<close>

definition if_returns :: "('r \<Rightarrow> bool) \<Rightarrow> 'r outcome \<Rightarrow> bool" where
  "if_returns P x \<longleftrightarrow> (case x of Returns v \<Rightarrow> P v | Faults \<Rightarrow> True | Running \<Rightarrow> True)"

lemma if_returns_simps [simp]:
  "if_returns P (Returns v) = P v" "if_returns P Faults" "if_returns P Running"
  "if_returns P (bind_outcome x f) = if_returns (\<lambda>v. if_returns P (f v)) x"
  "if_returns P (defined y) = (\<forall>v. y = Some v \<longrightarrow> P v)"
  "if_returns P (with_client a s g) = (\<forall>c. store s a = Some c \<longrightarrow> if_returns P (g c))"
  by (auto simp: if_returns_def bind_outcome_def defined_def with_client_def split: outcome.split option.split)

lemma if_returns_mono: "if_returns P x \<Longrightarrow> (\<And>v. P v \<Longrightarrow> Q v) \<Longrightarrow> if_returns Q x"
  by (cases x) auto

section \<open>What ownership depends on\<close>

type_synonym owners = "(nat, unit) vector \<times> (mem_node \<Rightarrow> nat option) \<times> memory_pool \<times> (nat \<Rightarrow> (32 word \<times> int) option)"

definition owners :: "('z, 'f) server \<Rightarrow> owners" where
  "owners s = (clients s, pkgs s, srv_pool s, \<lambda>a. map_option (\<lambda>c. (refcount c, sock c)) (store s a))"

text \<open>Scripts send, disconnect and queue; they do not touch the tables of the server or the counts.\<close>

definition scripts_keep_owners :: "('z, 'f, 'd) platform \<Rightarrow> bool" where
  "scripts_keep_owners E \<longleftrightarrow> (\<forall>k s. owners (env_script E k s) = owners s)"

text \<open>
  A script that queues an action with a delay takes an element of the server's memory pool for it
  (\<open>ASAPI_AddTimedTask\<close> of as_api.cpp); so in general only this holds after a script: the tables and the counts are the same,
  and in the pool every element that was in use still is.
\<close>

definition pool_grows :: "memory_pool \<Rightarrow> memory_pool \<Rightarrow> bool" where
  "pool_grows mp mp' \<longleftrightarrow> (\<forall>U. mp_inv (mp, U) \<longrightarrow> (\<exists>U'. U \<subseteq> U' \<and> mp_inv (mp', U')))"

definition within :: "owners \<Rightarrow> ('z, 'f) server \<Rightarrow> bool" where
  "within w s \<longleftrightarrow> (case (w, owners s) of ((v, P, mp, R), (v', P', mp', R')) \<Rightarrow> v' = v \<and> P' = P \<and> R' = R \<and> pool_grows mp mp')"

definition scripts_use_pool :: "('z, 'f, 'd) platform \<Rightarrow> bool" where
  "scripts_use_pool E \<longleftrightarrow> (\<forall>k s. within (owners s) (env_script E k s))"

lemma pool_grows_refl [simp]: "pool_grows mp mp"
  by (auto simp: pool_grows_def)

lemma pool_grows_trans: "pool_grows mp mp' \<Longrightarrow> pool_grows mp' mp'' \<Longrightarrow> pool_grows mp mp''"
  unfolding pool_grows_def by (meson subset_trans)

lemma within_refl [simp]: "within (owners s) s"
  by (simp add: within_def split: prod.split)

lemma within_same: "owners s' = owners s \<Longrightarrow> within w s' = within w s"
  by (simp add: within_def)

lemma within_eq: "within w s \<Longrightarrow> owners s' = owners s \<Longrightarrow> within w s'"
  by (simp add: within_def)

lemma within_trans: "within w s \<Longrightarrow> within (owners s) s' \<Longrightarrow> within w s'"
  by (auto simp: within_def intro: pool_grows_trans)

lemma keep_use_pool: "scripts_keep_owners E \<Longrightarrow> scripts_use_pool E"
  by (simp add: scripts_use_pool_def scripts_keep_owners_def within_def split: prod.split)

lemma owners_log [simp]: "owners (log_event ev s) = owners s" "owners (log_answers sk out s) = owners s"
  by (simp_all add: owners_def)

lemma owners_put:
  "store s a = Some c \<Longrightarrow> refcount c' = refcount c \<Longrightarrow> sock c' = sock c \<Longrightarrow> owners (put_client a c' s) = owners s"
  by (auto simp: owners_def)

lemma owners_script: "scripts_keep_owners E \<Longrightarrow> owners (call_script E k s) = owners s"
  by (simp add: call_script_def scripts_keep_owners_def)

lemma within_script: "scripts_use_pool E \<Longrightarrow> within w s \<Longrightarrow> within w (call_script E k s)"
proof -
  assume E: "scripts_use_pool E" and w: "within w s"
  have "within (owners (log_event (Ev_script k) s)) (env_script E k (log_event (Ev_script k) s))"
    using E unfolding scripts_use_pool_def by blast
  then show ?thesis using within_trans[OF w] by (simp add: call_script_def)
qed

lemma within_client:
  "within (owners s) s' \<Longrightarrow> store s a = Some c \<Longrightarrow> \<exists>c'. store s' a = Some c' \<and> refcount c' = refcount c \<and> sock c' = sock c"
  by (auto simp: within_def owners_def dest!: fun_cong[of _ _ a])

lemma owners_client:
  "owners s' = owners s \<Longrightarrow> store s a = Some c \<Longrightarrow> \<exists>c'. store s' a = Some c' \<and> refcount c' = refcount c \<and> sock c' = sock c"
  by (auto simp: owners_def dest!: fun_cong[of _ _ a])

text \<open>Writing to a client changes its compressor only.\<close>

definition same_ref :: "('z, 'f) client \<Rightarrow> ('z, 'f) client \<Rightarrow> bool" where
  "same_ref c c' \<longleftrightarrow> refcount c' = refcount c \<and> sock c' = sock c"

lemma WriteToImpl_client: "same_ref c (snd (snd (Client_WriteToImpl M Z fuel ws c col buf len)))"
  by (simp add: Client_WriteToImpl_def Let_def same_ref_def split: option.split outcome.split prod.split)

lemma Sendf_client: "same_ref c (snd (snd (Client_Sendf M Z fuel ws c out)))"
  using WriteToImpl_client[of c M Z fuel ws True]
  by (simp add: Client_Sendf_def split: option.split prod.split) (simp add: same_ref_def)

lemma send_to_keeps:
  assumes "\<And>ws c. same_ref c (snd (snd (f ws c)))"
  shows "if_returns (\<lambda>(r, s'). owners s' = owners s) (send_to E a f s)"
proof -
  have "owners (put_client a c' s) = owners s" if "store s a = Some c" "f ws c = (r, out, c')" for c ws r out c'
    using assms[of c ws] that by (auto intro!: owners_put simp: same_ref_def)
  then show ?thesis
    by (simp add: send_to_def split: prod.split) (simp add: if_returns_def split: outcome.split)
qed

lemma sendf_keeps: "if_returns (\<lambda>(r, s'). owners s' = owners s) (server_sendf E a out s)"
  unfolding server_sendf_def by (rule send_to_keeps) (rule Sendf_client)

lemma rearm_keeps: "owners s = w \<Longrightarrow> if_returns (\<lambda>s'. owners s' = w) (RearmClientSocket a s)"
  by (simp add: RearmClientSocket_def)

section \<open>The parts of the input task\<close>

lemma clock_keeps: "if_returns (\<lambda>(r, s'). owners s' = owners s) (Server_ClockPlayer E now a n s)"
proof -
  have put: "owners (put_client a c' s) = owners s" if "store s a = Some c" "clock_input F now n c = Some c'" for F c c'
    using that by (auto intro!: owners_put simp: clock_input_def split: bind_splits)
  have warn: "if_returns (\<lambda>v. if_returns (\<lambda>(r, s''). owners s'' = owners s) (case v of (_, s) \<Rightarrow>
        bind_outcome (RearmClientSocket a s) (\<lambda>s. Returns (0, s)))) (server_sendf E a out s')"
    if "owners s' = owners s" for out s'
    by (rule if_returns_mono[OF sendf_keeps]) (auto simp: that intro: rearm_keeps)
  show ?thesis
    using put by (auto simp: Server_ClockPlayer_def Let_def intro!: warn)
qed

lemma decompress_keeps:
  "if_returns (\<lambda>x. case x of Inl s' \<Rightarrow> owners s' = owners s | Inr (ci, s') \<Rightarrow> owners s' = owners s) (decompress_input E a ci s)"
proof -
  have put: "owners (put_client a (c\<lparr>zstreams := z\<rparr>) s) = owners s" if "store s a = Some c" for c z
    using that by (auto intro!: owners_put)
  show ?thesis
    by (auto simp: decompress_input_def if_returns_def[of _ "ZCompressor_DecompressData _ _ _ _ _ _"] put RearmClientSocket_def
        split: outcome.split prod.split)
qed

lemma telnet_keeps:
  "if_returns (\<lambda>x. case x of Inl s' \<Rightarrow> owners s' = owners s | Inr (ci, s') \<Rightarrow> owners s' = owners s) (telnet_input E a n ci s)"
proof -
  have put: "owners (put_client a (c\<lparr>tel_stream := st\<rparr>) s') = owners s'" if "store s' a = Some c" for c st s'
    using that by (auto intro!: owners_put)
  have err: "if_returns (\<lambda>v. if_returns (\<lambda>x. case x of Inl s' \<Rightarrow> owners s' = owners s | Inr (ci, s') \<Rightarrow> owners s' = owners s)
      (case v of (_, s) \<Rightarrow> Returns (Inl s))) (server_sendf E a out s')" if "owners s' = owners s" for out s'
    by (rule if_returns_mono[OF sendf_keeps]) (auto simp: that)
  show ?thesis
    by (auto simp: telnet_input_def Let_def put intro!: err)
qed

lemma deliver_keeps:
  assumes "scripts_use_pool E" "within w s"
  shows "if_returns (within w) (deliver_line E a cb s)"
proof -
  have put: "within w (put_client a (c\<lparr>input_buffer := buf\<rparr>) s') = within w s'" if "store s' a = Some c" for c buf s'
    using that by (intro within_same) (auto intro!: owners_put)
  show ?thesis
    by (auto simp: deliver_line_def clear_input_def put assms(2) within_script[OF assms(1)])
qed

text \<open>A client somebody refers to is only marked.\<close>

lemma disconnect_marks:
  "store s a = Some c \<Longrightarrow> refcount c \<noteq> 0 \<Longrightarrow>
   Server_HandleClientDisconnect E a s = Returns (log_event (Ev_close (sock c)) (put_client a (Client_Disconnect c) s))"
  by (simp add: Server_HandleClientDisconnect_def Client_GetRefCount_def unat_eq_0 Let_def)

lemma disconnect_keeps:
  assumes "store s a = Some c" "refcount c \<noteq> 0"
  shows "if_returns (\<lambda>s'. owners s' = owners s) (Server_HandleClientDisconnect E a s)"
  unfolding disconnect_marks[OF assms] using assms by (auto intro!: owners_put simp: Client_Disconnect_def)

lemma disconnect_keeps':
  assumes "within (owners s) s'" "store s a = Some c" "refcount c \<noteq> 0"
  shows "if_returns (within (owners s)) (Server_HandleClientDisconnect E a s')"
proof -
  obtain c' where "store s' a = Some c'" "refcount c' \<noteq> 0" using within_client[OF assms(1,2)] assms(3) by auto
  from disconnect_keeps[OF this, of E] show ?thesis
    by (rule if_returns_mono) (use assms(1) within_same in blast)
qed

lemma bind_if_returns: "if_returns Q x \<Longrightarrow> (\<And>v. Q v \<Longrightarrow> if_returns P (f v)) \<Longrightarrow> if_returns P (bind_outcome x f)"
  by (cases x) auto

lemma if_returns_any: "(\<And>v. if_returns P (f v)) \<Longrightarrow> if_returns P (bind_outcome x f)"
  by (cases x) auto

lemma finish_keeps:
  assumes sc: "scripts_use_pool E" and o: "within (owners s) s'" and c: "store s a = Some c" "refcount c \<noteq> 0"
  shows "if_returns (within (owners s)) (finish_input E a n ci s')"
proof -
  have put: "within (owners s) (put_client a (c'\<lparr>input_buffer := buf\<rparr>) s')" if "store s' a = Some c'" for c' buf
    by (rule within_eq[OF o], rule owners_put[OF that]) simp_all
  have arm: "if_returns (within (owners s)) (RearmClientSocket a s1)" if "within (owners s) s1" for s1
    by (rule if_returns_mono[OF rearm_keeps[OF refl]]) (rule within_eq[OF that])
  have body: "if_returns (within (owners s)) (if n > 0 \<and> ic then bind_outcome (deliver_line E a cb s1) (RearmClientSocket a)
      else if n = 0 then Server_HandleClientDisconnect E a s1 else RearmClientSocket a s1)" if "within (owners s) s1" for cb ic s1
  proof -
    have "if_returns (within (owners s)) (bind_outcome (deliver_line E a cb s1) (RearmClientSocket a))"
      by (rule bind_if_returns[OF deliver_keeps[OF sc that] arm])
    moreover have "if_returns (within (owners s)) (Server_HandleClientDisconnect E a s1)" by (rule disconnect_keeps'[OF that c])
    ultimately show ?thesis using arm[OF that] by simp
  qed
  show ?thesis
  proof (cases "store s' a")
    case None
    then show ?thesis by (simp add: finish_input_def with_client_def)
  next
    case (Some c')
    have "finish_input E a n ci s' = bind_outcome (defined (assemble_line (env_bytes E) (input_buffer c') ci)) (\<lambda>(cb, ic).
        if n > 0 \<and> ic then bind_outcome (deliver_line E a cb (put_client a (c'\<lparr>input_buffer := cb\<rparr>) s')) (RearmClientSocket a)
        else if n = 0 then Server_HandleClientDisconnect E a (put_client a (c'\<lparr>input_buffer := cb\<rparr>) s')
        else RearmClientSocket a (put_client a (c'\<lparr>input_buffer := cb\<rparr>) s'))"
      by (simp add: finish_input_def with_client_def Some Let_def)
    then show ?thesis
      by (simp only:) (rule if_returns_any, simp only: split_beta, rule body, rule put[OF Some])
  qed
qed

lemma task_keeps:
  assumes sc: "scripts_use_pool E" and pkg: "pkgs s pkg = Some a" and c: "store s a = Some c" "refcount c \<noteq> 0"
  shows "if_returns (\<lambda>(r, s'). within (owners s) s') (HandleUserInputTask E reads now pkg s)"
proof -
  let ?P = "\<lambda>(r :: int, s'). within (owners s) s'"
  have cong: "within (owners s) s2" if "within (owners s) s1" "owners s2 = owners s1" for s1 s2 :: "('a, 'b) server"
    using that within_same by blast
  have dis: "if_returns ?P (bind_outcome (Server_DisconnectClient E a s') (\<lambda>s. Returns (r, s)))"
    if "within (owners s) s'" for s' and r :: int
    unfolding Server_DisconnectClient_def by (rule bind_if_returns[OF disconnect_keeps'[OF that c]]) simp
  have fin: "if_returns ?P (bind_outcome (finish_input E a n ci s') (\<lambda>s. Returns (0, s)))"
    if "within (owners s) s'" for n ci s'
    by (rule bind_if_returns[OF finish_keeps[OF sc that c]]) simp
  have fast: "if_returns ?P (bind_outcome (server_sendf E a out s') (\<lambda>(_, s).
      bind_outcome (Server_DisconnectClient E a s) (\<lambda>s. Returns (- 1, s))))" if "within (owners s) s'" for out s'
    by (rule bind_if_returns[OF sendf_keeps]) (use that in \<open>auto simp del: if_returns_simps(4) intro: dis cong\<close>)
  have tel: "if_returns ?P (bind_outcome (telnet_input E a n ci s') (\<lambda>x. case x of
        Inl s \<Rightarrow> bind_outcome (Server_DisconnectClient E a s) (\<lambda>s. Returns (- 1, s))
      | Inr (ci, s) \<Rightarrow> bind_outcome (finish_input E a n ci s) (\<lambda>s. Returns (0, s))))"
    if "within (owners s) s'" for n ci s'
    by (rule bind_if_returns[OF telnet_keeps])
       (use that in \<open>auto simp del: if_returns_simps(4) split: sum.splits intro: dis fin cong\<close>)
  have dec: "if_returns ?P (bind_outcome (decompress_input E a ci s') (\<lambda>x. case x of
        Inl s \<Rightarrow> Returns (- 1, s)
      | Inr (ci, s) \<Rightarrow> bind_outcome (telnet_input E a n ci s) (\<lambda>x. case x of
            Inl s \<Rightarrow> bind_outcome (Server_DisconnectClient E a s) (\<lambda>s. Returns (- 1, s))
          | Inr (ci, s) \<Rightarrow> bind_outcome (finish_input E a n ci s) (\<lambda>s. Returns (0, s)))))"
    if "within (owners s) s'" for n ci s'
    by (rule bind_if_returns[OF decompress_keeps])
       (use that in \<open>auto simp del: if_returns_simps(4) split: sum.splits intro: tel cong\<close>)
  have clk: "if_returns ?P (bind_outcome (Server_ClockPlayer E now a n s) (\<lambda>(r, s).
        if r < 0 then bind_outcome (server_sendf E a too_fast_message s) (\<lambda>(_, s).
          bind_outcome (Server_DisconnectClient E a s) (\<lambda>s. Returns (- 1, s)))
        else bind_outcome (decompress_input E a ci s) (\<lambda>x. case x of
          Inl s \<Rightarrow> Returns (- 1, s)
        | Inr (ci, s) \<Rightarrow> bind_outcome (telnet_input E a n ci s) (\<lambda>x. case x of
            Inl s \<Rightarrow> bind_outcome (Server_DisconnectClient E a s) (\<lambda>s. Returns (- 1, s))
          | Inr (ci, s) \<Rightarrow> bind_outcome (finish_input E a n ci s) (\<lambda>s. Returns (0, s))))))"
    for n ci
  proof (rule bind_if_returns[OF clock_keeps], clarify)
    fix r and s1 :: "('a, 'b) server" assume "owners s1 = owners s"
    then have "within (owners s) s1" by (rule cong[OF within_refl])
    then show "if_returns ?P (if r < 0 then bind_outcome (server_sendf E a too_fast_message s1) (\<lambda>(_, s).
          bind_outcome (Server_DisconnectClient E a s) (\<lambda>s. Returns (- 1, s)))
        else bind_outcome (decompress_input E a ci s1) (\<lambda>x. case x of
          Inl s \<Rightarrow> Returns (- 1, s)
        | Inr (ci, s) \<Rightarrow> bind_outcome (telnet_input E a n ci s) (\<lambda>x. case x of
            Inl s \<Rightarrow> bind_outcome (Server_DisconnectClient E a s) (\<lambda>s. Returns (- 1, s))
          | Inr (ci, s) \<Rightarrow> bind_outcome (finish_input E a n ci s) (\<lambda>s. Returns (0, s)))))"
      using fast dec by simp
  qed
  show ?thesis
  proof (cases "bDisconnected c")
    case True
    then show ?thesis using pkg c(1) dis[of s 0, OF within_refl] by (simp add: HandleUserInputTask_def del: if_returns_simps(4))
  next
    case False
    have "HandleUserInputTask E reads now pkg s =
        bind_outcome (defined (cv_init (env_bytes E) CLIENT_MAXINPUTLEN)) (\<lambda>(_, ci).
        bind_outcome (read_to_cv (env_bytes E) reads ci 0 CLIENT_MAXINPUTLEN) (\<lambda>(n, ci).
        bind_outcome (Server_ClockPlayer E now a n s) (\<lambda>(r, s).
        if r < 0 then bind_outcome (server_sendf E a too_fast_message s) (\<lambda>(_, s).
          bind_outcome (Server_DisconnectClient E a s) (\<lambda>s. Returns (- 1, s)))
        else bind_outcome (decompress_input E a ci s) (\<lambda>x. case x of
          Inl s \<Rightarrow> Returns (- 1, s)
        | Inr (ci, s) \<Rightarrow> bind_outcome (telnet_input E a n ci s) (\<lambda>x. case x of
            Inl s \<Rightarrow> bind_outcome (Server_DisconnectClient E a s) (\<lambda>s. Returns (- 1, s))
          | Inr (ci, s) \<Rightarrow> bind_outcome (finish_input E a n ci s) (\<lambda>s. Returns (0, s)))))))"
      using False pkg c(1) by (simp add: HandleUserInputTask_def)
    then show ?thesis by (simp only:) (intro if_returns_any; auto simp del: if_returns_simps(4) intro!: if_returns_any clk)
  qed
qed

section \<open>The invariant\<close>

text \<open>\<open>Q\<close> is the set of the packages of the tasks that the thread pool has taken and not released.\<close>

definition holders :: "mem_node set \<Rightarrow> (mem_node \<Rightarrow> nat option) \<Rightarrow> nat \<Rightarrow> mem_node set" where
  "holders Q P a = {p \<in> Q. P p = Some a}"

definition own_tables :: "mem_node set \<Rightarrow> (nat, unit) vector \<Rightarrow> (mem_node \<Rightarrow> nat option) \<Rightarrow> (nat \<Rightarrow> (32 word \<times> int) option) \<Rightarrow> bool" where
  "own_tables Q v P R \<longleftrightarrow> vector_wf v \<and> FreeNodeFn v = Some () \<and> distinct (vector_items v) \<and>
     set (vector_items v) = dom R \<and> inj_on (\<lambda>a. snd (the (R a))) (dom R) \<and>
     finite Q \<and> card Q < 2 ^ 32 \<and> (\<forall>p \<in> Q. \<exists>a. P p = Some a \<and> a \<in> dom R) \<and>
     (\<forall>a n sk. R a = Some (n, sk) \<longrightarrow> n = of_nat (card (holders Q P a)))"

definition own_pool :: "mem_node set \<Rightarrow> memory_pool \<Rightarrow> bool" where
  "own_pool Q mp \<longleftrightarrow> (\<exists>U. mp_inv (mp, U) \<and> (\<forall>p \<in> Q. (sizeof_HandleUserInputTaskPkg, p) \<in> U))"

definition own_inv :: "mem_node set \<Rightarrow> owners \<Rightarrow> bool" where
  "own_inv Q w \<longleftrightarrow> (case w of (v, P, mp, R) \<Rightarrow> own_tables Q v P R \<and> own_pool Q mp)"

lemma holders_sub: "finite Q \<Longrightarrow> finite (holders Q P a)" "finite Q \<Longrightarrow> card (holders Q P a) \<le> card Q"
  by (auto simp: holders_def intro: card_mono)

lemma ref_zero:
  assumes "own_tables Q v P R" "R a = Some (n, sk)"
  shows "n = 0 \<longleftrightarrow> holders Q P a = {}"
proof -
  have "card (holders Q P a) < 2 ^ 32" using assms(1) holders_sub(2)[of Q P a] by (auto simp: own_tables_def)
  then have "(of_nat (card (holders Q P a)) :: 32 word) = 0 \<longleftrightarrow> card (holders Q P a) = 0"
    by (auto simp: word_of_nat_eq_0_iff dest: nat_dvd_not_less)
  moreover have "finite (holders Q P a)" using assms(1) holders_sub(1)[of Q P a] by (auto simp: own_tables_def)
  moreover have "n = of_nat (card (holders Q P a))" using assms by (simp add: own_tables_def)
  ultimately show ?thesis by auto
qed

text \<open>A new client, a new package, a returned package, and a client that goes with its last package.\<close>

lemma own_new_client:
  assumes inv: "own_tables Q v P R" and a: "R a = None" and sk: "sk \<notin> (\<lambda>a. snd (the (R a))) ` dom R"
    and v': "vector_wf v'" "FreeNodeFn v' = Some ()" "vector_items v' = vector_items v @ [a]"
  shows "own_tables Q v' P (R(a \<mapsto> (0, sk)))"
proof -
  have out: "a \<notin> dom R" using a by auto
  have "holders Q P a = {}" using inv a by (fastforce simp: own_tables_def holders_def)
  moreover have "inj_on (\<lambda>b. snd (the ((R(a \<mapsto> (0, sk))) b))) (insert a (dom R))"
  proof -
    have "inj_on (\<lambda>b. snd (the ((R(a \<mapsto> (0, sk))) b))) (dom R) = inj_on (\<lambda>a. snd (the (R a))) (dom R)"
      by (rule inj_on_cong) (use out in auto)
    moreover have "(\<lambda>b. snd (the ((R(a \<mapsto> (0, sk))) b))) ` dom R = (\<lambda>a. snd (the (R a))) ` dom R"
      by (rule image_cong) (use out in auto)
    ultimately show ?thesis using inv sk out by (simp add: own_tables_def inj_on_insert)
  qed
  moreover have "\<forall>p \<in> Q. \<exists>b. P p = Some b \<and> b \<in> insert a (dom R)" using inv unfolding own_tables_def by blast
  ultimately show ?thesis
    using inv v' out unfolding own_tables_def by (simp split: if_splits)
qed

lemma own_new_package:
  assumes inv: "own_tables Q v P R" and R: "R a = Some (n, sk)" and q: "q \<notin> Q" "card Q + 1 < 2 ^ 32"
  shows "own_tables (insert q Q) v (P(q \<mapsto> a)) (R(a \<mapsto> (n + 1, sk)))"
proof -
  have "holders (insert q Q) (P(q \<mapsto> a)) b = (if b = a then insert q (holders Q P a) else holders Q P b)" for b
    using q(1) by (auto simp: holders_def)
  moreover have "finite (holders Q P a)" "q \<notin> holders Q P a" "finite Q" using inv q(1) by (auto simp: own_tables_def holders_def)
  moreover have d: "dom (R(a \<mapsto> (n + 1, sk))) = dom R" using R by auto
  moreover have "(\<lambda>b. snd (the ((R(a \<mapsto> (n + 1, sk))) b))) = (\<lambda>b. snd (the (R b)))" using R by auto
  ultimately show ?thesis
    using inv R q unfolding own_tables_def d by (auto simp: card_insert_if)
qed

lemma own_return_package:
  assumes inv: "own_tables Q v P R" and p: "p \<in> Q" "P p = Some a" and R: "R a = Some (n, sk)"
  shows "own_tables (Q - {p}) v (P(p := None)) (R(a \<mapsto> (n - 1, sk)))"
proof -
  have h: "holders (Q - {p}) (P(p := None)) b = (if b = a then holders Q P a - {p} else holders Q P b)" for b
    using p by (auto simp: holders_def)
  have f: "finite (holders Q P a)" "p \<in> holders Q P a" "finite Q" using inv p by (auto simp: own_tables_def holders_def)
  have pos: "0 < card (holders Q P a)" using f by (auto simp: card_gt_0_iff)
  have "card (holders Q P a - {p}) = card (holders Q P a) - 1" using f by simp
  then have "(of_nat (card (holders Q P a - {p})) :: 32 word) = of_nat (card (holders Q P a)) - 1"
    using pos by (simp add: of_nat_diff)
  then have n: "n - 1 = of_nat (card (holders Q P a - {p}))" using inv R by (simp add: own_tables_def)
  have d: "dom (R(a \<mapsto> (n - 1, sk))) = dom R" using R by auto
  have "(\<lambda>b. snd (the ((R(a \<mapsto> (n - 1, sk))) b))) = (\<lambda>b. snd (the (R b)))" using R by auto
  moreover have "card (Q - {p}) < 2 ^ 32" using inv f(3) card_Diff1_le[of Q p] by (auto simp: own_tables_def)
  ultimately show ?thesis
    using inv n unfolding own_tables_def d h by auto
qed

lemma own_drop_client:
  assumes inv: "own_tables Q v P R" and a: "R a = Some (n, sk)" "holders Q P a = {}"
    and v': "vector_wf v'" "FreeNodeFn v' = Some ()" "vector_items v' = take i (vector_items v) @ drop (Suc i) (vector_items v)"
      "i < length (vector_items v)" "vector_items v ! i = a"
  shows "own_tables Q v' P (R(a := None))"
proof -
  define xs ys where "xs = take i (vector_items v)" and "ys = drop (Suc i) (vector_items v)"
  have "vector_items v = xs @ a # ys"
    using v'(4,5) id_take_nth_drop[of i "vector_items v"] by (simp add: xs_def ys_def)
  moreover have "vector_items v' = xs @ ys" using v'(3) by (simp add: xs_def ys_def)
  moreover have "distinct (vector_items v)" using inv by (simp add: own_tables_def)
  ultimately have "set (vector_items v') = set (vector_items v) - {a}" "distinct (vector_items v')" by auto
  moreover have "inj_on (\<lambda>b. snd (the ((R(a := None)) b))) (dom R - {a})"
    using inv by (auto simp: own_tables_def inj_on_def)
  moreover have "\<forall>p \<in> Q. \<exists>b. P p = Some b \<and> b \<in> dom R - {a}"
    using inv a(2) unfolding own_tables_def holders_def by blast
  ultimately show ?thesis
    using inv v'(1,2) unfolding own_tables_def by (simp split: if_splits)
qed

section \<open>The handlers keep it\<close>

definition refs :: "('z, 'f) server \<Rightarrow> nat \<Rightarrow> (32 word \<times> int) option" where
  "refs s = (\<lambda>a. map_option (\<lambda>c. (refcount c, sock c)) (store s a))"

lemma owners_refs: "owners s = (clients s, pkgs s, srv_pool s, refs s)"
  by (simp add: owners_def refs_def)

lemma dom_refs: "dom (refs s) = dom (store s)"
  by (auto simp: refs_def)

lemma refs_put: "refs (put_client a c s) = (refs s)(a \<mapsto> (refcount c, sock c))"
  by (auto simp: refs_def)

lemma own_invD: "own_inv Q (owners s) \<Longrightarrow> own_tables Q (clients s) (pkgs s) (refs s) \<and> own_pool Q (srv_pool s)"
  by (simp add: own_inv_def owners_refs)

text \<open>Disconnecting a client nobody refers to: it is found by its socket, removed and freed.\<close>

lemma disconnect_frees:
  assumes sc: "scripts_use_pool E" and M: "grants_all (env_ptrs E)"
    and v: "vector_wf (clients s)" "FreeNodeFn (clients s) = Some ()" "set (vector_items (clients s)) = dom (refs s)"
      "inj_on (\<lambda>a. snd (the (refs s a))) (dom (refs s))"
    and c: "store s a = Some c" "refcount c = 0"
  shows "\<exists>s' v' i. Server_HandleClientDisconnect E a s = Returns s' \<and>
    owners s' = (v', pkgs s, srv_pool s', (refs s)(a := None)) \<and> pool_grows (srv_pool s) (srv_pool s') \<and> vector_wf v' \<and> FreeNodeFn v' = Some () \<and>
    vector_items v' = take i (vector_items (clients s)) @ drop (Suc i) (vector_items (clients s)) \<and>
    i < length (vector_items (clients s)) \<and> vector_items (clients s) ! i = a"
proof -
  define s1 where "s1 = call_script E (OnPlayerDisconnect a) (log_event (Ev_close (sock c)) (put_client a (Client_Disconnect c) s))"
  have o: "within (owners s) s1"
    unfolding s1_def
    by (rule within_script[OF sc], rule within_eq[OF within_refl]) (use c(1) in \<open>auto simp: Client_Disconnect_def intro: owners_put\<close>)
  then have same: "clients s1 = clients s" "pkgs s1 = pkgs s" "pool_grows (srv_pool s) (srv_pool s1)" "refs s1 = refs s"
    by (simp_all add: within_def owners_refs)
  let ?vs = "vector_items (clients s)"
  obtain c1 where c1: "store s1 a = Some c1" "sock c1 = sock c" using within_client[OF o c(1)] by auto
  have alive: "store s1 p \<noteq> None" if "p \<in> set ?vs" for p
    using that v(3) dom_refs[of s1] unfolding same by auto
  have match: "CompClientSock s1 (sock c) p = 0 \<longleftrightarrow> p = a" if m: "p \<in> set ?vs" for p
  proof -
    obtain cp where cp: "store s1 p = Some cp" using alive[OF m] by auto
    have "snd (the (refs s p)) = sock cp" "snd (the (refs s a)) = sock c"
      using cp c1 by (simp_all add: same(4)[symmetric]) (simp_all add: refs_def)
    moreover have "p \<in> dom (refs s)" "a \<in> dom (refs s)" using m v(3) c(1) dom_refs[of s] by auto
    ultimately have "sock cp = sock c \<longleftrightarrow> p = a" using inj_on_eq_iff[OF v(4)] by metis
    then show ?thesis using cp by (auto simp: CompClientSock_def)
  qed
  have "a \<in> set ?vs" using v(3) c(1) dom_refs[of s] by auto
  then have "first_idx (\<lambda>p. CompClientSock s1 (sock c) p = 0) ?vs \<noteq> None" using match by (auto simp: first_idx_None)
  then obtain i where i: "first_idx (\<lambda>p. CompClientSock s1 (sock c) p = 0) ?vs = Some i" by auto
  then have ia: "i < length ?vs" "?vs ! i = a" using match by (auto simp: first_idx_Some)
  have find: "find_client s1 (sock c1) = Returns (Some i)"
    using Vector_Find_ok[OF v(1), of "sock c" "CompClientSock s1"] i alive c1(2)
    by (auto simp: find_client_def same list_all_iff dest: in_set_takeD)
  obtain v' where v': "Vector_Remove (env_ptrs E) (clients s) i = Some (0, release_node (clients s) a, v')"
      "vector_wf v'" "FreeNodeFn v' = Some ()" "vector_items v' = take i ?vs @ drop (Suc i) ?vs"
    using Vector_Remove_ok[OF M v(1), of i] ia v(2) length_vector_items[OF v(1)] by auto
  define s2 where "s2 = log_event (Ev_epoll_del (sock c1)) s1"
  have "refs s2 = refs s1" by (simp add: s2_def refs_def)
  then have s2: "store s2 a = Some c1" "clients s2 = clients s" "pkgs s2 = pkgs s" "srv_pool s2 = srv_pool s1" "refs s2 = refs s"
    using c1 by (simp_all add: s2_def same)
  define s3 where "s3 = log_event (Ev_free a) (s2\<lparr>clients := v', store := (store s2)(a := None)\<rparr>)"
  have "release_node (clients s) a = FreeNode () a" using v(2) by (simp add: release_node_def)
  then have "release_client (release_node (clients s) a) (s2\<lparr>clients := v'\<rparr>) = Returns s3"
    using s2(1) by (simp add: release_client_def s3_def)
  moreover have gr: "pool_grows (srv_pool s) (srv_pool s3)" using same(3) s2(4) by (simp add: s3_def)
  moreover have "refs s3 = (refs s)(a := None)"
    unfolding s2(5)[symmetric] by (auto simp: refs_def s3_def log_event_def)
  ultimately show ?thesis
    using find v' c c1(1) ia s2
    by (intro exI[of _ s3] exI[of _ v'] exI[of _ i] conjI)
       (simp_all add: Server_HandleClientDisconnect_def Client_GetRefCount_def s1_def[symmetric] s2_def[symmetric] same Let_def,
        simp add: owners_refs s3_def log_event_def)
qed

lemma own_pool_grows: "own_pool Q mp \<Longrightarrow> pool_grows mp mp' \<Longrightarrow> own_pool Q mp'"
  unfolding own_pool_def pool_grows_def by (meson subset_iff)

lemma own_inv_within: "own_inv Q (owners s) \<Longrightarrow> within (owners s) s' \<Longrightarrow> own_inv Q (owners s')"
  by (auto simp: own_inv_def within_def own_pool_grows split: prod.splits)

lemma own_pool_free:
  assumes "own_pool Q mp" "p \<in> Q"
  shows "\<exists>mp'. MemoryPool_Free sizeof_HandleUserInputTaskPkg p mp = Some mp' \<and> own_pool (Q - {p}) mp'"
proof -
  let ?sz = sizeof_HandleUserInputTaskPkg
  obtain U where U: "mp_inv (mp, U)" "\<forall>p \<in> Q. (?sz, p) \<in> U" using assms(1) by (auto simp: own_pool_def)
  have pU: "(?sz, p) \<in> U" using U(2) assms(2) by blast
  have "mempool_wf mp (snd ` U)" "p \<in> snd ` U" "element_size (alloc_pools mp ! fst p) = ?sz"
    using U(1) pU by (force simp: mp_inv_def)+
  then obtain mp' where mp': "MemoryPool_Free ?sz p mp = Some mp'" using MemoryPool_Free_ok by blast
  have "mp_inv (mp', U - {(?sz, p)})" using mp_step_inv[OF step_free[OF pU mp'] U(1)] .
  moreover have "\<forall>q \<in> Q - {p}. (?sz, q) \<in> U - {(?sz, p)}" using U(2) by blast
  ultimately show ?thesis using mp' unfolding own_pool_def by blast
qed

lemma own_pool_alloc:
  assumes "own_pool Q mp" and al: "MemoryPool_Alloc granted sizeof_HandleUserInputTaskPkg mp = Some (q, mp')"
  shows "q \<notin> Q \<and> own_pool (insert q Q) (mempool_write q None mp') \<and> own_pool Q (mempool_write q None mp')"
proof -
  let ?sz = sizeof_HandleUserInputTaskPkg
  obtain U where U: "mp_inv (mp, U)" "\<forall>p \<in> Q. (?sz, p) \<in> U" using assms(1) by (auto simp: own_pool_def)
  have "q \<notin> snd ` U" using MemoryPool_Alloc_keeps[OF _ al] U(1) by (auto simp: mp_inv_def)
  then have "q \<notin> Q" using U(2) by (force simp del: split_paired_All)
  have "mp_inv (mp', insert (?sz, q) U)" using mp_step_inv[OF step_alloc[OF al] U(1)] .
  moreover have "mp_step granted (mp', insert (?sz, q) U) (mempool_write q None mp', insert (?sz, q) U)"
    by (rule step_write[of ?sz]) simp
  ultimately have "mp_inv (mempool_write q None mp', insert (?sz, q) U)" using mp_step_inv by blast
  moreover have "\<forall>p \<in> insert q Q. (?sz, p) \<in> insert (?sz, q) U" using U(2) by blast
  ultimately show ?thesis using \<open>q \<notin> Q\<close> unfolding own_pool_def by blast
qed

text \<open>Releasing a package in use never fails.\<close>

lemma release_ok:
  assumes sc: "scripts_use_pool E" and M: "grants_all (env_ptrs E)" and inv: "own_inv Q (owners s)" and p: "p \<in> Q"
  shows "\<exists>s'. ReleaseHandleUserInputTaskPkg E p s = Returns s' \<and> own_inv (Q - {p}) (owners s')"
proof -
  have tab: "own_tables Q (clients s) (pkgs s) (refs s)" and pool: "own_pool Q (srv_pool s)" using own_invD[OF inv] by simp_all
  obtain a where a: "pkgs s p = Some a" "a \<in> dom (refs s)" using tab p unfolding own_tables_def by blast
  then obtain c where c: "store s a = Some c" using dom_refs[of s] by auto
  define c1 where "c1 = Client_ReleaseRef c"
  define s1 where "s1 = put_client a c1 s"
  have c1: "refcount c1 = refcount c - 1" "sock c1 = sock c" "bDisconnected c1 = bDisconnected c"
    by (simp_all add: c1_def Client_ReleaseRef_def)
  have drop: "release_drop a s = Returns s1" using c by (simp add: release_drop_def s1_def c1_def)
  have ra: "refs s a = Some (refcount c, sock c)" using c by (simp add: refs_def)
  have tab1: "own_tables (Q - {p}) (clients s) ((pkgs s)(p := None)) (refs s1)"
    using own_return_package[OF tab p a(1) ra] by (simp add: s1_def refs_put c1)
  have s1: "store s1 a = Some c1" "clients s1 = clients s" "pkgs s1 = pkgs s" "srv_pool s1 = srv_pool s"
    by (simp_all add: s1_def)
  have fin: "\<exists>mp'. ReleaseHandleUserInputTaskPkg E p s = Returns (s2\<lparr>srv_pool := mp', pkgs := (pkgs s2)(p := None)\<rparr>) \<and>
      own_pool (Q - {p}) mp'"
    if chk: "release_check E a s1 = Returns s2" and gr: "pool_grows (srv_pool s) (srv_pool s2)" for s2
  proof -
    obtain mp' where "MemoryPool_Free sizeof_HandleUserInputTaskPkg p (srv_pool s2) = Some mp'" "own_pool (Q - {p}) mp'"
      using own_pool_free[OF own_pool_grows[OF pool gr] p] by blast
    then show ?thesis using chk drop a(1) by (intro exI[of _ mp']) (simp add: ReleaseHandleUserInputTaskPkg_def)
  qed
  show ?thesis
  proof (cases "bDisconnected c1 \<and> refcount c1 = 0")
    case False
    then have "release_check E a s1 = Returns s1"
      using s1(1) by (auto simp: release_check_def Client_GetRefCount_def unat_eq_0)
    from fin[OF this] s1(4) obtain mp' where
      "ReleaseHandleUserInputTaskPkg E p s = Returns (s1\<lparr>srv_pool := mp', pkgs := (pkgs s1)(p := None)\<rparr>)"
      "own_pool (Q - {p}) mp'" by auto
    then show ?thesis
      using tab1 s1 by (simp add: own_inv_def owners_def refs_def)
  next
    case True
    have v: "vector_wf (clients s1)" "FreeNodeFn (clients s1) = Some ()" "set (vector_items (clients s1)) = dom (refs s1)"
        "inj_on (\<lambda>a. snd (the (refs s1 a))) (dom (refs s1))"
      using tab1 unfolding s1(2)[symmetric] own_tables_def by blast+
    obtain s2 v' i where s2: "Server_HandleClientDisconnect E a s1 = Returns s2"
        "owners s2 = (v', pkgs s1, srv_pool s2, (refs s1)(a := None))" "vector_wf v'" "FreeNodeFn v' = Some ()"
        "vector_items v' = take i (vector_items (clients s1)) @ drop (Suc i) (vector_items (clients s1))"
        "i < length (vector_items (clients s1))" "vector_items (clients s1) ! i = a"
        "pool_grows (srv_pool s1) (srv_pool s2)"
      using disconnect_frees[OF sc M v s1(1)] True by blast
    then have same: "clients s2 = v'" "pkgs s2 = pkgs s" "refs s2 = (refs s1)(a := None)"
      by (simp_all add: owners_refs s1)
    have "release_check E a s1 = Returns s2"
      using s1(1) s2(1) True by (simp add: release_check_def Client_GetRefCount_def Server_DisconnectClient_def)
    from fin[OF this] s2(8) s1(4) obtain mp' where
      f: "ReleaseHandleUserInputTaskPkg E p s = Returns (s2\<lparr>srv_pool := mp', pkgs := (pkgs s2)(p := None)\<rparr>)"
      "own_pool (Q - {p}) mp'" by auto
    have rz: "refs s1 a = Some (0, sock c1)" using s1(1) True by (simp add: refs_def)
    have "holders (Q - {p}) ((pkgs s)(p := None)) a = {}" using ref_zero[OF tab1 rz] by simp
    then have "own_tables (Q - {p}) v' ((pkgs s)(p := None)) ((refs s1)(a := None))"
      using own_drop_client[OF tab1 rz _ s2(3,4)] s2(5,6,7) s1(2) by simp
    then show ?thesis using f same by (simp add: own_inv_def owners_def refs_def)
  qed
qed

lemma task_ok:
  assumes sc: "scripts_use_pool E" and inv: "own_inv Q (owners s)" and p: "p \<in> Q"
    and run: "HandleUserInputTask E reads now p s = Returns (r, s')"
  shows "own_inv Q (owners s')"
proof -
  have tab: "own_tables Q (clients s) (pkgs s) (refs s)" using own_invD[OF inv] by simp
  obtain a where a: "pkgs s p = Some a" "a \<in> dom (refs s)" using tab p unfolding own_tables_def by blast
  then obtain c where c: "store s a = Some c" using dom_refs[of s] by auto
  have "refs s a = Some (refcount c, sock c)" using c by (simp add: refs_def)
  moreover have "p \<in> holders Q (pkgs s) a" using p a(1) by (simp add: holders_def)
  ultimately have "refcount c \<noteq> 0" using ref_zero[OF tab] by blast
  from task_keeps[OF sc a(1) c this, of reads now] have "within (owners s) s'" using run by simp
  then show ?thesis by (rule own_inv_within[OF inv])
qed

lemma accept_ok:
  assumes sc: "scripts_use_pool E" and M: "grants_all (env_ptrs E)" and inv: "own_inv Q (owners s)"
    and a: "store s a = None" and fd: "\<forall>b c. store s b = Some c \<longrightarrow> sock c \<noteq> fd" and small: "vcapacity (clients s) < 2 ^ 59"
    and run: "Server_AcceptClient E fd now1 now2 a s = Returns (r, s')"
  shows "own_inv Q (owners s')"
proof (cases "0 \<le> fd")
  case False
  then show ?thesis using run inv by (simp add: Server_AcceptClient_def)
next
  case True
  have tab: "own_tables Q (clients s) (pkgs s) (refs s)" and pool: "own_pool Q (srv_pool s)" using own_invD[OF inv] by simp_all
  obtain c where c: "Client_Create (env_bytes E) (env_zlib E) (fl_zero (env_floats E)) fd now1 now2 = Some c"
    using run True by (cases "Client_Create (env_bytes E) (env_zlib E) (fl_zero (env_floats E)) fd now1 now2")
      (simp_all add: Server_AcceptClient_def)
  have c0: "refcount c = 0" "sock c = fd" using c by (auto simp: Client_Create_def split: bind_splits)
  have wf: "vector_wf (clients s)" "FreeNodeFn (clients s) = Some ()" using tab by (auto simp: own_tables_def)
  obtain v' where v': "Vector_Push (env_ptrs E) a (clients s) = Some (0, v')" "vector_wf v'" "FreeNodeFn v' = Some ()"
      "vector_items v' = vector_items (clients s) @ [a]"
    using Vector_Push_ok[OF M wf(1) small, of a] wf(2) by auto
  define s1 where "s1 = log_event (Ev_answer fd TelnetStream_SendPreamble) ((put_client a c s)\<lparr>clients := v'\<rparr>)"
  have log: "within (owners s1) (log_event (Ev_epoll_add fd a) (call_script E (OnPlayerConnect a) s2))" if "owners s2 = owners s1" for s2
    by (rule within_eq[OF within_script[OF sc within_eq[OF within_refl that]]]) simp
  have "if_returns (\<lambda>(r, s'). within (owners s1) s') (bind_outcome (Server_SendClientMotd E a s1) (\<lambda>(_, s2).
      Returns (fd, log_event (Ev_epoll_add fd a) (call_script E (OnPlayerConnect a) s2))))"
    unfolding Server_SendClientMotd_def
    by (rule bind_if_returns[OF send_to_keeps]) (auto simp: Client_WriteTo_def intro: WriteToImpl_client log)
  moreover have "Server_AcceptClient E fd now1 now2 a s = bind_outcome (Server_SendClientMotd E a s1) (\<lambda>(_, s2).
      Returns (fd, log_event (Ev_epoll_add fd a) (call_script E (OnPlayerConnect a) s2)))"
    using True c v'(1) by (simp add: Server_AcceptClient_def s1_def Let_def)
  ultimately have "if_returns (\<lambda>(r, s'). within (owners s1) s') (Server_AcceptClient E fd now1 now2 a s)" by (simp only:)
  then have o: "within (owners s1) s'" using run by simp
  have "refs s1 = (refs s)(a \<mapsto> (0, fd))" using c0 by (auto simp: refs_def s1_def log_event_def)
  moreover have "refs s a = None" using a by (simp add: refs_def)
  moreover have "fd \<notin> (\<lambda>a. snd (the (refs s a))) ` dom (refs s)"
    using fd by (force simp: refs_def)
  ultimately have "own_tables Q v' (pkgs s) (refs s1)" using own_new_client[OF tab _ _ v'(2,3,4)] by simp
  moreover have "owners s1 = (v', pkgs s, srv_pool s, refs s1)" by (simp add: owners_refs s1_def log_event_def put_client_def)
  ultimately have "own_inv Q (owners s1)" using pool by (simp add: own_inv_def)
  then show ?thesis using o by (rule own_inv_within)
qed

text \<open>The effect of a dispatch: a new package for the client, taken by the thread pool or not.\<close>

lemma dispatch_ok:
  assumes inv: "own_inv Q (owners s)" and q: "MemoryPool_Alloc (env_blocks E) sizeof_HandleUserInputTaskPkg (srv_pool s) = Some (q, mp)"
    and add: "ThreadPool_AddTask (env_nodes E) (env_blocks E) (thread_pool s) (Some fn_HandleUserInputTask) 1 q
      (Some fn_ReleaseHandleUserInputTaskPkg) = Some (r, tp)"
    and few: "card Q + 1 < 2 ^ 32" and run: "Server_HandleUserInput E a s = Returns s'"
  shows "own_inv (if r < 0 then Q else insert q Q) (owners s')"
proof -
  have tab: "own_tables Q (clients s) (pkgs s) (refs s)" and pool: "own_pool Q (srv_pool s)" using own_invD[OF inv] by simp_all
  note new = own_pool_alloc[OF pool q]
  obtain c where c: "store s a = Some c"
    using run q by (cases "store s a") (auto simp: Server_HandleUserInput_def with_client_def)
  define s1 where "s1 = (put_client a (Client_AddRef c) (s\<lparr>srv_pool := mempool_write q None mp, pkgs := (pkgs s)(q \<mapsto> a)\<rparr>))\<lparr>thread_pool := tp\<rparr>"
  have "thread_pool (put_client a (Client_AddRef c) (s\<lparr>srv_pool := mempool_write q None mp, pkgs := (pkgs s)(q \<mapsto> a)\<rparr>)) = thread_pool s"
    by (simp add: put_client_def)
  then have eq: "Server_HandleUserInput E a s = (if r < 0 then bind_outcome (release_drop a s1) (RearmClientSocket a) else Returns s1)"
    using q c add by (simp add: Server_HandleUserInput_def s1_def Let_def)
  have rs: "refs s a = Some (refcount c, sock c)" using c by (simp add: refs_def)
  have s1: "clients s1 = clients s" "pkgs s1 = (pkgs s)(q \<mapsto> a)" "srv_pool s1 = mempool_write q None mp"
      "refs s1 = (refs s)(a \<mapsto> (refcount c + 1, sock c))" "store s1 a = Some (Client_AddRef c)"
    by (auto simp: s1_def put_client_def refs_def Client_AddRef_def)
  show ?thesis
  proof (cases "r < 0")
    case False
    then have "s' = s1" using eq run by simp
    then show ?thesis
      using own_new_package[OF tab rs _ few, of q] new False by (simp add: own_inv_def owners_refs s1)
  next
    case True
    have "Client_ReleaseRef (Client_AddRef c) = c" by (simp add: Client_ReleaseRef_def Client_AddRef_def)
    then have "release_drop a s1 = Returns (put_client a c s1)" using s1(5) by (simp add: release_drop_def)
    then have "s' = log_event (Ev_epoll_mod (sock c) a) (put_client a c s1)"
      using eq run True by (simp add: RearmClientSocket_def)
    then have "owners s' = (clients s, (pkgs s)(q \<mapsto> a), mempool_write q None mp, (refs s)(a \<mapsto> (refcount c, sock c)))"
      by (simp only: owners_log) (simp add: owners_refs s1 refs_put)
    then have o: "owners s' = (clients s, (pkgs s)(q \<mapsto> a), mempool_write q None mp, refs s)"
      using rs by (simp add: fun_upd_idem)
    have "holders Q ((pkgs s)(q \<mapsto> a)) b = holders Q (pkgs s) b" for b using new by (auto simp: holders_def)
    moreover have "\<forall>p \<in> Q. ((pkgs s)(q \<mapsto> a)) p = pkgs s p" using new by auto
    ultimately have "own_tables Q (clients s) ((pkgs s)(q \<mapsto> a)) (refs s)" using tab unfolding own_tables_def by simp
    then show ?thesis using True new by (simp add: own_inv_def o)
  qed
qed

section \<open>Every order of the handlers\<close>

text \<open>
  The main thread accepts connections and dispatches input, the workers run tasks and release packages, in
  any order. A new block is not in use. The kernel gives a new socket a number that no open socket has; the second
  condition on it is one the program relies on without ensuring it: the socket of a disconnected client is closed, but its
  number stays in the client's record while packages refer to the client, and the new number has to be another one.
  In between the workers move the thread pool on, and the timed tasks take elements of the memory pool and return them.
\<close>

definition number_not_open :: "('z, 'f) server \<Rightarrow> int \<Rightarrow> bool" where
  "number_not_open s fd \<longleftrightarrow> (\<forall>b c. store s b = Some c \<and> \<not> bDisconnected c \<longrightarrow> sock c \<noteq> fd)"

definition number_not_pending :: "('z, 'f) server \<Rightarrow> int \<Rightarrow> bool" where
  "number_not_pending s fd \<longleftrightarrow> (\<forall>b c. store s b = Some c \<and> bDisconnected c \<longrightarrow> sock c \<noteq> fd)"

inductive server_step ::
    "('z, 'f, 'd) platform \<Rightarrow> mem_node set \<times> ('z, 'f) server \<Rightarrow> mem_node set \<times> ('z, 'f) server \<Rightarrow> bool" for E where
  accepts: "store s a = None \<Longrightarrow> number_not_open s fd \<Longrightarrow> number_not_pending s fd \<Longrightarrow> vcapacity (clients s) < 2 ^ 59 \<Longrightarrow>
     Server_AcceptClient E fd now1 now2 a s = Returns (r, s') \<Longrightarrow> server_step E (Q, s) (Q, s')"
| dispatches: "MemoryPool_Alloc (env_blocks E) sizeof_HandleUserInputTaskPkg (srv_pool s) = Some (q, mp) \<Longrightarrow>
     ThreadPool_AddTask (env_nodes E) (env_blocks E) (thread_pool s) (Some fn_HandleUserInputTask) 1 q
       (Some fn_ReleaseHandleUserInputTaskPkg) = Some (r, tp) \<Longrightarrow> card Q + 1 < 2 ^ 32 \<Longrightarrow>
     Server_HandleUserInput E a s = Returns s' \<Longrightarrow> server_step E (Q, s) (if r < 0 then Q else insert q Q, s')"
| runs: "p \<in> Q \<Longrightarrow> HandleUserInputTask E reads now p s = Returns (r, s') \<Longrightarrow> server_step E (Q, s) (Q, s')"
| releases: "p \<in> Q \<Longrightarrow> ReleaseHandleUserInputTaskPkg E p s = Returns s' \<Longrightarrow> server_step E (Q, s) (Q - {p}, s')"
| others: "mp_inv (srv_pool s, U) \<Longrightarrow> mp_step (env_blocks E) (srv_pool s, U) (mp, U') \<Longrightarrow>
     \<forall>p \<in> Q. (sizeof_HandleUserInputTaskPkg, p) \<in> U \<inter> U' \<Longrightarrow> server_step E (Q, s) (Q, s\<lparr>srv_pool := mp, thread_pool := tp\<rparr>)"
| moves_on: "server_step E (Q, s) (Q, s\<lparr>thread_pool := tp\<rparr>)"

inductive server_reachable :: "('z, 'f, 'd) platform \<Rightarrow> mem_node set \<times> ('z, 'f) server \<Rightarrow> bool" for E where
  server_start: "vector_wf (clients s) \<Longrightarrow> FreeNodeFn (clients s) = Some () \<Longrightarrow> vector_items (clients s) = [] \<Longrightarrow>
     store s = Map.empty \<Longrightarrow> 1 \<le> n \<Longrightarrow> srv_pool s = MemoryPool_Init n \<Longrightarrow> server_reachable E ({}, s)"
| server_next: "server_reachable E \<sigma> \<Longrightarrow> server_step E \<sigma> \<sigma>' \<Longrightarrow> server_reachable E \<sigma>'"

inductive_cases server_stepE: "server_step E \<sigma> \<sigma>'"

lemma server_step_inv:
  "server_step E \<sigma> \<sigma>' \<Longrightarrow> scripts_use_pool E \<Longrightarrow> grants_all (env_ptrs E) \<Longrightarrow> own_inv (fst \<sigma>) (owners (snd \<sigma>)) \<Longrightarrow>
   own_inv (fst \<sigma>') (owners (snd \<sigma>'))"
proof (induction rule: server_step.induct)
  case (accepts s a fd now1 now2 r s' Q)
  have "\<forall>b c. store s b = Some c \<longrightarrow> sock c \<noteq> fd"
    using accepts(2,3) by (auto simp: number_not_open_def number_not_pending_def)
  then show ?case using accept_ok[OF accepts(6,7) _ accepts(1) _ accepts(4,5)] accepts(8) by simp
next
  case (dispatches s q mp r tp Q a s')
  then show ?case using dispatch_ok[OF _ dispatches(1,2,3,4)] by simp
next
  case (runs p Q reads now s r s')
  then show ?case using task_ok[OF runs(3) _ runs(1,2)] by simp
next
  case (releases p Q s s')
  then show ?case using release_ok[of E Q s p] by auto
next
  case (others s U mp U' Q tp)
  have "mp_inv (mp, U')" using mp_step_inv[OF others(2)] others(1) by simp
  then have "own_pool Q mp" using others(3) by (auto simp: own_pool_def)
  then show ?case using others(6) by (simp add: own_inv_def owners_def)
next
  case (moves_on s tp Q)
  then show ?case by (simp add: owners_def)
qed

lemma server_reachable_inv:
  assumes "server_reachable E \<sigma>" "scripts_use_pool E" "grants_all (env_ptrs E)"
  shows "own_inv (fst \<sigma>) (owners (snd \<sigma>))"
  using assms(1)
proof induction
  case (server_start s n)
  have "mp_inv (MemoryPool_Init n, {})" by (rule mp_reachable_inv[OF server_start(5) reach_init])
  then show ?case
    using server_start by (auto simp: own_inv_def owners_refs own_tables_def own_pool_def refs_def)
qed (use assms server_step_inv in blast)

section \<open>Properties\<close>


lemma Client_Create_ok:
  assumes M: "grants_all M"
  shows "\<exists>c. Client_Create M Z z fd t1 t2 = Some c \<and> refcount c = 0 \<and> sock c = fd \<and> \<not> bDisconnected c \<and>
    \<not> b_mccp2 (opts (tel_stream c))"
proof -
  obtain sb buf where "cv_init M 32 = Some (0, sb)" "cv_init M 2048 = Some (0, buf)"
    using cv_init_ok[OF M, of 32] cv_init_ok[OF M, of 2048] by auto
  then show ?thesis by (simp add: Client_Create_def CLIENT_MAXINPUTLEN_def zero_options_def)
qed

text \<open>Writing the empty string with colours on an uncompressed connection whose first \<open>send\<close> fails.\<close>

lemma write_empty_fails:
  assumes M: "grants_all M" and c: "\<not> bDisconnected c" "\<not> b_mccp2 (opts (tel_stream c))"
  shows "Client_WriteTo M Z fuel [-1] c [0] 1 = (Returns (-1), [], c)"
proof -
  obtain cb where cb: "cv_init M 1 = Some (0, cb)" "cv_wf cb" "ccapacity cb = 8" "cdata cb = Some (replicate 8 0)"
    using cv_init_ok[OF M, of 1] by (auto simp: MINALLOC_def)
  have str: "cv_str cb = []" using cb(3,4) by (simp add: cv_str_def cstr_def nonzero_def)
  have "legal_rest []" by (simp add: legal_rest_def)
  then obtain o1 where o1: "ANSIColorizeString M [0] 1 cb = Some o1" "cv_wf o1" "clength o1 = length (cv_str o1) + 3" "cv_str o1 = []"
    using ANSIColorizeString_ok[OF M cb(2), of "[]" "[]" "[]"] cb(3) str by auto
  obtain d where d: "cdata o1 = Some d" "MINALLOC \<le> length d" using cv_wfE[OF o1(2)] by metis
  have "sz_sub 3 (Suc 0) = 2" by (simp add: sz_sub_le)
  then show ?thesis
    using cb(1) o1 d c by (simp add: Client_WriteTo_def Client_WriteToImpl_def write_source_def write_full_raw_def MINALLOC_def)
qed

lemma demo_accept:
  "\<exists>s' c. Server_AcceptClient demo_env fd t1 t2 7 (demo_server [] Map.empty Map.empty (MemoryPool_Init 1)) = Returns (fd, s') \<and>
     srv_pool s' = MemoryPool_Init 1 \<and> store s' = [7 \<mapsto> c]"
  if "0 \<le> fd"
proof -
  let ?s = "demo_server [] Map.empty Map.empty (MemoryPool_Init 1)"
  have M: "grants_all (env_bytes demo_env)" "grants_all (env_ptrs demo_env)"
    by (simp_all add: demo_env_def byte_mgr_grants) (simp add: demo_ptrs_def grants_all_def)
  obtain c where c: "Client_Create (env_bytes demo_env) (env_zlib demo_env) (fl_zero (env_floats demo_env)) fd t1 t2 = Some c"
      "\<not> bDisconnected c" "\<not> b_mccp2 (opts (tel_stream c))"
    using Client_Create_ok[OF M(1), of "env_zlib demo_env" "fl_zero (env_floats demo_env)" fd t1 t2] by blast
  have "vector_wf (clients ?s)" by (simp add: demo_server_def vector_wf_def)
  moreover have "vcapacity (clients ?s) < 2 ^ 59" by (simp add: demo_server_def)
  ultimately obtain v where v: "Vector_Push (env_ptrs demo_env) 7 (clients ?s) = Some (0, v)"
    using Vector_Push_ok[OF M(2)] by blast
  have w: "Client_WriteTo (env_bytes demo_env) (env_zlib demo_env) (env_fuel demo_env) [-1] c [0] 1 = (Returns (-1), [], c)"
    by (rule write_empty_fails[OF M(1) c(2,3)])
  have demo_quiet: "env_script demo_env k s' = s'" for k s' by (simp add: demo_env_def)
  have sends: "env_sends demo_env n = [-1]" for n by (simp add: demo_env_def)
  have motd: "MOTD (put_client 7 c ?s) = [0]" "MOTDlen (put_client 7 c ?s) = 1" by (simp_all add: demo_server_def put_client_def)
  show ?thesis
    using that c(1) v w motd
    by (simp add: Server_AcceptClient_def Let_def Server_SendClientMotd_def send_to_def sends call_script_def demo_quiet)
       (auto simp: log_event_def put_client_def demo_server_def)
qed

text \<open>A pool of threads that has just been made takes a task.\<close>

lemma new_pool_takes_task:
  assumes M: "grants_all M"
  shows "\<exists>tp tp' :: mem_node thread_pool. ThreadPool_AddTask M (\<lambda>_. True) tp f k x g = Some (0, tp')"
proof -
  obtain tp :: "mem_node thread_pool" where init: "ThreadPool_Init M (\<lambda>_. True) (\<lambda>_. True) undefined 1 = Some (0, tp)"
    using ThreadPool_Init_some[OF M] .
  note ok = ThreadPool_Init_ok[OF init M]
  have wf: "pool_wf (tp_alloc tp) {}" "tp_mem tp"
    using ok by (auto simp: tp_mem_def live_def queue_nodes_def ah_items_def ah_nodes_def over_threads_def)
  have es: "element_size (tp_alloc tp) = 24"
    using init AllocPool_Init_ok[of "\<lambda>_. True" 64 sizeof_ThreadTask]
    by (auto simp: ThreadPool_Init_def Let_def sizeof_ThreadTask_def split: bind_splits if_splits option.splits)
  obtain p ap where ap: "AllocPool_Alloc (\<lambda>_. True) (tp_alloc tp) = Some (p, ap)"
    using AllocPool_Alloc_some[OF wf(1), of "\<lambda>_. True"] es by auto
  have "prioq_wf (prio_queue tp)" "ah_len (prio_queue tp) < 2 ^ 30" using ok wf(2) by (simp_all add: tp_mem_def)
  from prioq_min_insert_some[OF this M, of k "Some p"] obtain q where "prioq_min_insert M (prio_queue tp) k (Some p) = Some (0, q)" by blast
  with ap have "\<exists>tp'. ThreadPool_AddTask M (\<lambda>_. True) tp f k x g = Some (0, tp')"
    by (simp add: ThreadPool_AddTask_def CreateTask_def insert_task_def)
  then show ?thesis by blast
qed

lemma new_pool_serves: "\<exists>q mp. MemoryPool_Alloc (\<lambda>_. True) sizeof_HandleUserInputTaskPkg (MemoryPool_Init 1) = Some (q, mp)"
proof -
  obtain ap where ap: "AllocPool_Init (\<lambda>_. True) 1 sizeof_HandleUserInputTaskPkg = Some ap"
    by (simp add: AllocPool_Init_def PoolMemBlock_Init_def sizeof_pointer_def sizeof_HandleUserInputTaskPkg_def)
  note ok = AllocPool_Init_ok[OF ap]
  then obtain p ap' where "AllocPool_Alloc (\<lambda>_. True) ap = Some (p, ap')"
    using AllocPool_Alloc_some[of ap "{}" "\<lambda>_. True"] by (auto simp: sizeof_HandleUserInputTaskPkg_def)
  then show ?thesis
    by (simp add: MemoryPool_Alloc_def MemoryPool_Init_def MemoryPool_FindAllocPool_def
        MemoryPool_AddBlockSizePool_def ap pool_alloc_at_def)
qed

text \<open>A server that accepted one client and dispatched its input: the package is in use and counted.\<close>

lemma demo_dispatched: "\<exists>q s. server_reachable demo_env ({q}, s) \<and> pkgs s q = Some 7 \<and> (\<exists>c. store s = [7 \<mapsto> c])"
proof -
  let ?s = "demo_server [] Map.empty Map.empty (MemoryPool_Init 1)" and ?f = "Some fn_HandleUserInputTask"
  let ?g = "Some fn_ReleaseHandleUserInputTaskPkg"
  have env: "env_blocks demo_env = (\<lambda>_. True)" "grants_all (env_nodes demo_env)"
    by (simp_all add: demo_env_def demo_ptrs_def grants_all_def)
  obtain s c where s: "Server_AcceptClient demo_env 5 \<lparr>tv_sec = 1, tv_nsec = 0\<rparr> \<lparr>tv_sec = 1, tv_nsec = 0\<rparr> 7 ?s = Returns (5, s)"
      "srv_pool s = MemoryPool_Init 1" "store s = [7 \<mapsto> c]"
    using demo_accept[of 5] by force
  have r0: "server_reachable demo_env ({}, ?s)"
    by (rule server_start[of _ 1]) (simp_all add: demo_server_def vector_wf_def vector_items_def)
  have s1: "server_step demo_env ({}, ?s) ({}, s)"
    by (rule accepts[OF _ _ _ _ s(1)]) (simp_all add: demo_server_def number_not_open_def number_not_pending_def)
  obtain q mp where q: "MemoryPool_Alloc (\<lambda>_. True) sizeof_HandleUserInputTaskPkg (MemoryPool_Init 1) = Some (q, mp)"
    using new_pool_serves by blast
  obtain tp tp' :: "mem_node thread_pool" where add: "ThreadPool_AddTask (env_nodes demo_env) (\<lambda>_. True) tp ?f 1 q ?g = Some (0, tp')"
    using new_pool_takes_task[OF env(2)] by blast
  define sa where "sa = s\<lparr>thread_pool := tp\<rparr>"
  have s2: "server_step demo_env ({}, s) ({}, sa)" unfolding sa_def by (rule moves_on)
  define sb where "sb = (put_client 7 (Client_AddRef c) (sa\<lparr>srv_pool := mempool_write q None mp, pkgs := (pkgs sa)(q \<mapsto> 7)\<rparr>))\<lparr>thread_pool := tp'\<rparr>"
  have run: "Server_HandleUserInput demo_env 7 sa = Returns sb"
    using q add s(2,3) env by (simp add: Server_HandleUserInput_def Let_def sa_def sb_def) (simp add: put_client_def)
  have "server_step demo_env ({}, sa) (if (0::int) < 0 then {} else insert q {}, sb)"
    by (rule dispatches[OF _ _ _ run]) (use q add s(2) env in \<open>simp_all add: sa_def\<close>)
  then have "server_step demo_env ({}, sa) ({q}, sb)" by simp
  then have "server_reachable demo_env ({q}, sb)"
    by (rule server_next[OF server_next[OF server_next[OF r0 s1] s2]])
  moreover have "pkgs sb q = Some 7" "store sb = [7 \<mapsto> Client_AddRef c]"
    using s(3) by (simp_all add: sb_def sa_def put_client_def)
  ultimately show ?thesis by blast
qed


text \<open>C21: the check of a release is not atomic with its decrement. Two packages of a disconnected client are released
  by two workers: both drop their reference, then both find the count at zero. The first frees the client, the second
  reads it after that. (One after the other, the same releases succeed.)\<close>

theorem release_race:
  assumes "scripts_keep_owners E" "grants_all (env_ptrs E)" "own_tables Q (clients s) (pkgs s) (refs s)"
    "store s a = Some c" "bDisconnected c" "refcount c = 2"
  shows "\<exists>s1 s2 s3. release_drop a s = Returns s1 \<and> release_drop a s1 = Returns s2 \<and>
    release_check E a s2 = Returns s3 \<and> store s3 a = None \<and> release_check E a s3 = Faults"
proof -
  define c2 where "c2 = Client_ReleaseRef (Client_ReleaseRef c)"
  define s2 where "s2 = put_client a c2 s"
  have c2: "refcount c2 = 0" "sock c2 = sock c" "bDisconnected c2"
    using assms(5,6) by (simp_all add: c2_def Client_ReleaseRef_def)
  note tab = assms(3)
  have "(\<lambda>b. snd (the (refs s2 b))) = (\<lambda>b. snd (the (refs s b)))" "dom (refs s2) = dom (refs s)"
    using assms(4) c2 by (auto simp: s2_def refs_put fun_eq_iff) (auto simp: refs_def)
  then have v: "vector_wf (clients s2)" "FreeNodeFn (clients s2) = Some ()" "set (vector_items (clients s2)) = dom (refs s2)"
      "inj_on (\<lambda>a. snd (the (refs s2 a))) (dom (refs s2))"
    using tab by (simp_all add: own_tables_def s2_def)
  have st: "store s2 a = Some c2" by (simp add: s2_def)
  obtain s3 v' where s3: "Server_HandleClientDisconnect E a s2 = Returns s3" "owners s3 = (v', pkgs s2, srv_pool s3, (refs s2)(a := None))"
    using disconnect_frees[OF keep_use_pool[OF assms(1)] assms(2) v st c2(1)] by blast
  then have "refs s3 a = None" by (simp add: owners_refs)
  then have gone: "store s3 a = None" by (simp add: refs_def)
  have "release_drop a s = Returns (put_client a (Client_ReleaseRef c) s)"
       "release_drop a (put_client a (Client_ReleaseRef c) s) = Returns s2"
    using assms(4) by (simp_all add: release_drop_def s2_def c2_def)
  moreover have "release_check E a s2 = Returns s3"
    using st s3(1) c2 by (simp add: release_check_def Client_GetRefCount_def Server_DisconnectClient_def)
  moreover have "release_check E a s3 = Faults" using gone by (simp add: release_check_def with_client_def)
  ultimately show ?thesis using gone by blast
qed

text \<open>What a release does when sockets are not unique.\<close>

lemma disconnect_first:
  assumes quiet: "\<forall>k s. env_script E k s = s" and M: "grants_all (env_ptrs E)" and v: "vector_wf (clients s)" "FreeNodeFn (clients s) = Some ()"
    and items: "vector_items (clients s) = xs @ x # ys" "set xs \<subseteq> dom (store s)" "\<forall>y \<in> set xs. sock (the (store s y)) \<noteq> sk"
    and x: "store s x = Some cx" "sock cx = sk" and c: "store s b = Some c" "sock c = sk" "refcount c = 0"
  shows "\<exists>s'. Server_HandleClientDisconnect E b s = Returns s' \<and> pkgs s' = pkgs s \<and> srv_pool s' = srv_pool s \<and>
    store s' = (store s)(b \<mapsto> Client_Disconnect c, x := None) \<and>
    events s' = events s @ [Ev_close sk, Ev_script (OnPlayerDisconnect b), Ev_epoll_del sk, Ev_free x]"
proof -
  define s1 where "s1 = log_event (Ev_script (OnPlayerDisconnect b)) (log_event (Ev_close sk) (put_client b (Client_Disconnect c) s))"
  have same: "clients s1 = clients s" "pkgs s1 = pkgs s" "srv_pool s1 = srv_pool s" by (simp_all add: s1_def)
  have b1: "store s1 b = Some (Client_Disconnect c)" "sock (Client_Disconnect c) = sk" using c(2) by (simp_all add: s1_def Client_Disconnect_def)
  have socks: "map_option sock (store s1 y) = map_option sock (store s y)" for y
    using c by (auto simp: s1_def Client_Disconnect_def)
  have xs: "store s1 y \<noteq> None \<and> CompClientSock s1 sk y \<noteq> 0" if "y \<in> set xs" for y
    using that items(2,3) socks[of y] by (cases "store s y"; cases "store s1 y"; force simp: CompClientSock_def)
  have x1: "store s1 x \<noteq> None" "CompClientSock s1 sk x = 0"
    using x socks[of x] by (auto simp: CompClientSock_def)
  have first: "first_idx (\<lambda>p. CompClientSock s1 sk p = 0) (vector_items (clients s)) = Some (length xs)"
    using xs x1 by (auto simp: items(1) first_idx_Some nth_append)
  have find: "find_client s1 sk = Returns (Some (length xs))"
    using Vector_Find_ok[OF v(1), of sk "CompClientSock s1"] first xs x1(1)
    by (auto simp: find_client_def same items(1) list_all_iff)
  have len: "length xs < vlength (clients s)" using length_vector_items[OF v(1)] items(1) by simp
  have "release_node (clients s) (vector_items (clients s) ! length xs) = FreeNode () x"
    using v(2) items(1) by (simp add: release_node_def)
  then obtain v' where v': "Vector_Remove (env_ptrs E) (clients s) (length xs) = Some (0, FreeNode () x, v')"
    using Vector_Remove_ok[OF M v(1) len] by auto
  obtain cx1 where cx1: "store s1 x = Some cx1" using x1(1) by auto
  define s3 where "s3 = log_event (Ev_free x) ((log_event (Ev_epoll_del sk) s1)\<lparr>clients := v', store := (store s1)(x := None)\<rparr>)"
  have "release_client (FreeNode () x) ((log_event (Ev_epoll_del sk) s1)\<lparr>clients := v'\<rparr>) = Returns s3"
    using cx1 by (simp add: release_client_def s3_def)
  then have "Server_HandleClientDisconnect E b s = Returns s3"
    using c b1 find v' quiet
    by (simp add: Server_HandleClientDisconnect_def Client_GetRefCount_def call_script_def s1_def[symmetric] same Let_def)
  moreover have "store s3 = (store s)(b \<mapsto> Client_Disconnect c, x := None)" "pkgs s3 = pkgs s" "srv_pool s3 = srv_pool s"
    "events s3 = events s @ [Ev_close sk, Ev_script (OnPlayerDisconnect b), Ev_epoll_del sk, Ev_free x]"
    by (simp_all add: s3_def s1_def log_event_def put_client_def)
  ultimately show ?thesis by blast
qed

lemma demo_platform: "scripts_keep_owners demo_env" "grants_all (env_ptrs demo_env)" "\<forall>k s. env_script demo_env k s = s"
  by (simp_all add: demo_env_def scripts_keep_owners_def demo_ptrs_def grants_all_def)

definition twice_held :: "(nat, int) server" where
  "twice_held = demo_server [7] [7 \<mapsto> (demo_client 5)\<lparr>bDisconnected := True, refcount := 2\<rparr>]
     [(0, 0, 0) \<mapsto> 7, (0, 0, 1) \<mapsto> 7] (MemoryPool_Init 1)"

theorem release_race_witness:
  "\<exists>s1 s2 s3. release_drop 7 twice_held = Returns s1 \<and> release_drop 7 s1 = Returns s2 \<and>
    release_check demo_env 7 s2 = Returns s3 \<and> store s3 7 = None \<and> release_check demo_env 7 s3 = Faults"
proof (rule release_race[OF demo_platform(1,2), where c = "(demo_client 5)\<lparr>bDisconnected := True, refcount := 2\<rparr>"])
  let ?P = "[(0, 0, 0) \<mapsto> 7, (0, 0, 1) \<mapsto> 7] :: mem_node \<Rightarrow> nat option"
  have h: "holders {(0, 0, 0), (0, 0, 1)} ?P 7 = {(0, 0, 0), (0, 0, 1)}" by (auto simp: holders_def)
  have r: "refs twice_held = [7 \<mapsto> (2, 5)]"
    by (simp add: refs_def twice_held_def demo_server_def demo_client_def fun_eq_iff)
  have v: "vector_wf (clients twice_held)" "FreeNodeFn (clients twice_held) = Some ()" "vector_items (clients twice_held) = [7]"
    by (simp_all add: twice_held_def demo_server_def vector_wf_def vector_items_def)
  have "pkgs twice_held = ?P" by (simp add: twice_held_def demo_server_def)
  then show "own_tables {(0, 0, 0), (0, 0, 1)} (clients twice_held) (pkgs twice_held) (refs twice_held)"
    unfolding own_tables_def r using v h by (simp split: if_splits)
qed (simp_all add: twice_held_def demo_server_def demo_client_def)

text \<open>C@: a socket is closed when a client is marked as disconnected and again when it is released, and the client to remove is
  looked up by the number of its socket, which the kernel gives to the next connection. If client \<open>b\<close> is released after client \<open>a\<close>
  connected under the same number, the connection of \<open>a\<close> is closed; and the client that is freed is the one that comes
  first in the vector: when that is \<open>a\<close>, the disconnected client stays, and the next release of a package of \<open>a\<close> is a use
  after free.\<close>

theorem reused_socket_hits_other_client:
  assumes "\<forall>k s. env_script E k s = s" "grants_all (env_ptrs E)" "vector_wf (clients s)" "FreeNodeFn (clients s) = Some ()"
    "vector_items (clients s) = xs @ x # ys" "set xs \<subseteq> dom (store s)" "\<forall>y \<in> set xs. sock (the (store s y)) \<noteq> sk" "x \<in> {a, b}" "a \<noteq> b"
    "store s a = Some ca" "sock ca = sk" "\<not> bDisconnected ca"
    "store s b = Some cb" "sock cb = sk" "bDisconnected cb" "refcount cb = 1"
    "pkgs s p = Some b" "MemoryPool_Free sizeof_HandleUserInputTaskPkg p (srv_pool s) = Some mp"
  shows "\<exists>s'. ReleaseHandleUserInputTaskPkg E p s = Returns s' \<and>
    events s' = events s @ [Ev_close (sock ca), Ev_script (OnPlayerDisconnect b), Ev_epoll_del (sock ca), Ev_free x] \<and>
    (if x = a then store s' a = None \<and> store s' b \<noteq> None \<and>
       (\<forall>q. q \<noteq> p \<and> pkgs s q = Some a \<longrightarrow> ReleaseHandleUserInputTaskPkg E q s' = Faults)
     else store s' a = Some ca \<and> store s' b = None)"
proof -
  define c where "c = Client_ReleaseRef cb"
  have c: "refcount c = 0" "sock c = sk" "bDisconnected c" using assms(14,15,16) by (simp_all add: c_def Client_ReleaseRef_def)
  define s1 where "s1 = put_client b c s"
  have s1: "clients s1 = clients s" "pkgs s1 = pkgs s" "srv_pool s1 = srv_pool s" "events s1 = events s" "store s1 b = Some c"
    "store s1 a = Some ca" using assms(9,10) by (simp_all add: s1_def)
  have xs: "set xs \<subseteq> dom (store s1)" "\<forall>y \<in> set xs. sock (the (store s1 y)) \<noteq> sk"
    using assms(6,7,13,14) c(2) by (auto simp: s1_def)
  obtain cx where cx: "store s1 x = Some cx" "sock cx = sk" using assms(8,11) s1(5,6) c(2) by auto
  obtain s2 where s2: "Server_HandleClientDisconnect E b s1 = Returns s2" "pkgs s2 = pkgs s" "srv_pool s2 = srv_pool s"
      "store s2 = (store s1)(b \<mapsto> Client_Disconnect c, x := None)"
      "events s2 = events s @ [Ev_close sk, Ev_script (OnPlayerDisconnect b), Ev_epoll_del sk, Ev_free x]"
    using disconnect_first[OF assms(1,2) _ _ _ xs cx s1(5) c(2,1)] assms(3,4,5) s1 by auto
  define s3 where "s3 = s2\<lparr>srv_pool := mp, pkgs := (pkgs s2)(p := None)\<rparr>"
  have "release_drop b s = Returns s1" using assms(13) by (simp add: release_drop_def s1_def c_def)
  moreover have "release_check E b s1 = Returns s2"
    using s1(5) c s2(1) by (simp add: release_check_def Client_GetRefCount_def Server_DisconnectClient_def)
  ultimately have rel: "ReleaseHandleUserInputTaskPkg E p s = Returns s3"
    using assms(17,18) s2(3) by (simp add: ReleaseHandleUserInputTaskPkg_def s3_def)
  have ev: "events s3 = events s @ [Ev_close (sock ca), Ev_script (OnPlayerDisconnect b), Ev_epoll_del (sock ca), Ev_free x]"
    using s2(5) assms(11) by (simp add: s3_def)
  have "ReleaseHandleUserInputTaskPkg E q s3 = Faults" if "x = a" "q \<noteq> p" "pkgs s q = Some a" for q
    using that s2(2,4) by (simp add: ReleaseHandleUserInputTaskPkg_def s3_def release_drop_def with_client_def)
  moreover have "store s3 x = None" "x \<noteq> b \<Longrightarrow> store s3 b \<noteq> None" "x \<noteq> a \<Longrightarrow> store s3 a = Some ca"
    using s2(4) s1(6) assms(9) by (simp_all add: s3_def)
  ultimately have "if x = a then store s3 a = None \<and> store s3 b \<noteq> None \<and>
      (\<forall>q. q \<noteq> p \<and> pkgs s q = Some a \<longrightarrow> ReleaseHandleUserInputTaskPkg E q s3 = Faults)
     else store s3 a = Some ca \<and> store s3 b = None" using assms(8,9) by (cases "x = a") (auto simp del: split_paired_All)
  then show ?thesis using rel ev by blast
qed

definition reused_socket :: "(nat, int) server" where
  "reused_socket = demo_server [7, 8] [7 \<mapsto> demo_client 5, 8 \<mapsto> (demo_client 5)\<lparr>bDisconnected := True\<rparr>]
     [(0, 0, 0) \<mapsto> 8, (0, 0, 1) \<mapsto> 7] (MemoryPool_Init 1)"

theorem reused_socket_hits_other_client_witness:
  "\<exists>s'. ReleaseHandleUserInputTaskPkg demo_env (0, 0, 0) reused_socket = Returns s' \<and>
    events s' = events reused_socket @ [Ev_close (sock (demo_client 5)), Ev_script (OnPlayerDisconnect 8),
      Ev_epoll_del (sock (demo_client 5)), Ev_free 7] \<and>
    (if (7::nat) = 7 then store s' 7 = None \<and> store s' 8 \<noteq> None \<and>
       (\<forall>q. q \<noteq> (0, 0, 0) \<and> pkgs reused_socket q = Some 7 \<longrightarrow> ReleaseHandleUserInputTaskPkg demo_env q s' = Faults)
     else store s' 7 = Some (demo_client 5) \<and> store s' 8 = None)"
proof (rule reused_socket_hits_other_client[OF demo_platform(3,2)])
  let ?cb = "(demo_client 5)\<lparr>bDisconnected := True\<rparr>"
  show "vector_items (clients reused_socket) = [] @ 7 # [8]" "vector_wf (clients reused_socket)" "FreeNodeFn (clients reused_socket) = Some ()"
    by (simp_all add: reused_socket_def demo_server_def vector_items_def vector_wf_def)
  show "store reused_socket 7 = Some (demo_client 5)" "store reused_socket 8 = Some ?cb" "pkgs reused_socket (0, 0, 0) = Some 8"
    by (simp_all add: reused_socket_def demo_server_def)
  show "sock (demo_client 5) = 5" "\<not> bDisconnected (demo_client 5)" "sock ?cb = 5" "bDisconnected ?cb" "refcount ?cb = 1"
    by (simp_all add: demo_client_def)
  show "MemoryPool_Free sizeof_HandleUserInputTaskPkg (0, 0, 0) (srv_pool reused_socket) = Some (MemoryPool_Init 1)"
    by (simp add: reused_socket_def demo_server_def MemoryPool_Free_def MemoryPool_FindAllocPool_def MemoryPool_Init_def)
qed simp_all

end
