(* ===== verification/ServerLife.thy ===== *)
theory ServerLife
  imports ServerInit ServerClients
begin

text \<open>
  The life of the server: what a successful start gives, what stopping returns, which failures of a start the
  shutdown of \<open>main\<close> survives, and what a reload does to tasks that are waiting.
\<close>

section \<open>The parts\<close>

text \<open>Memory is granted; system calls and the C++ parts may still fail.\<close>

definition roomy :: "('z, 'f, 'd) platform \<Rightarrow> boot \<Rightarrow> bool" where
  "roomy E B \<longleftrightarrow> grants_all (env_ptrs E) \<and> grants_all (env_nodes E) \<and> grants_all (timed_mgr B) \<and> env_blocks E = (\<lambda>_. True)"

lemma ThreadPool_Init_cases:
  assumes M: "grants_all M" and n: "0 < cores"
  shows "\<exists>tp. ThreadPool_Init M (\<lambda>_. True) okay junk cores = Some (if \<forall>i < cores. okay i then 0 else -1, tp) \<and>
    ah_len (prio_queue tp) = 0 \<and> (if \<forall>i < cores. okay i then length (threads tp) = cores else length (threads tp) < cores)"
proof -
  obtain h where h0: "prioq_create M 256 = Some (0, h)" "prioq_wf h" "ah_items h = {#}"
    using node.ah_create_ok[OF M, of 256] by (auto simp: prioq_create_def)
  then have l: "ah_len h = 0" using size_ah_items[OF ah_wf_shape[OF h0(2)]] by simp
  obtain ap where ap: "AllocPool_Init (\<lambda>_. True) 64 sizeof_ThreadTask = Some ap"
    by (simp add: AllocPool_Init_def PoolMemBlock_Init_def sizeof_pointer_def sizeof_ThreadTask_def)
  show ?thesis
  proof (cases "\<forall>i < cores. okay i")
    case True
    then have "first_idx (\<lambda>i. \<not> okay i) [0..<cores] = None" by (auto simp: first_idx_None)
    then show ?thesis using True h0(1) ap l n by (simp add: ThreadPool_Init_def Let_def)
  next
    case False
    then have "first_idx (\<lambda>i. \<not> okay i) [0..<cores] \<noteq> None" by (auto simp: first_idx_None)
    then obtain i where f: "first_idx (\<lambda>i. \<not> okay i) [0..<cores] = Some i" by blast
    then have i: "first_idx (\<lambda>i. \<not> okay i) [0..<cores] = Some i" "i < cores" by (auto simp: first_idx_Some)
    then show ?thesis using False h0(1) ap l n by (auto simp: ThreadPool_Init_def Let_def)
  qed
qed

lemma destroy_threads_ok:
  assumes "ah_len (prio_queue (thread_pool (srv h))) = 0" "length (threads (thread_pool (srv h))) = thread_count h"
  shows "destroy_threads E h = Returns (h\<lparr>srv := (srv h)\<lparr>thread_pool := zero_thread_pool\<rparr>, thread_count := 0\<rparr>)"
proof -
  have "prioq_extract_min M q = Some (None, q)" if "ah_len q = 0" for M and q :: "node prioq"
    using that by (simp add: prioq_extract_min_def ah_extract_def zero_node_def)
  then show ?thesis using assms
    by (simp add: destroy_threads_def ThreadPool_Destroy_def destroy_loop.simps)
qed

text \<open>Nothing runs or waits any more when the threads are asked to stop.\<close>

definition quiet :: "('z, 'f) host \<Rightarrow> bool" where
  "quiet h \<longleftrightarrow> ah_len (prio_queue (thread_pool (srv h))) = 0 \<and> length (threads (thread_pool (srv h))) = thread_count h \<and>
     (tt_running (tick h) \<longrightarrow> tick_created h) \<and> (alloc_pool_count (srv_pool (srv h)) > 0 \<longrightarrow> \<not> pools_freed h)"

definition threads_stopped :: "('z, 'f) host \<Rightarrow> ('z, 'f) host" where
  "threads_stopped h = h\<lparr>srv := (srv h)\<lparr>thread_pool := zero_thread_pool, pkgs := Map.empty\<rparr>, thread_count := 0,
     tick := TickThread_Stop (tick h), pools_freed := True\<rparr>"

lemma StopThreads_ok: "quiet h \<Longrightarrow> Server_StopThreads E h = Returns (threads_stopped h)"
  by (auto simp: Server_StopThreads_def quiet_def destroy_threads_ok stop_tick_def destroy_mem_pool_def threads_stopped_def)

fun freed :: "pointer \<Rightarrow> pointer" where
  "freed Null = Null"
| "freed _ = Dangling"

lemma tfree_ok: "p \<noteq> Dangling \<Longrightarrow> tfree_pointer p = Returns (freed p)"
  by (cases p) simp_all

lemma release_clients_ok:
  "set xs \<subseteq> dom (store s) \<Longrightarrow> distinct xs \<Longrightarrow>
   \<exists>s'. release_clients (map (FreeNode ()) xs) s = Returns s' \<and> store s' = store s |` (- set xs) \<and>
     events s' = events s @ map Ev_free xs \<and> clients s' = clients s \<and> srv_pool s' = srv_pool s \<and>
     thread_pool s' = thread_pool s \<and> MOTD s' = MOTD s"
proof (induction xs arbitrary: s)
  case (Cons a xs)
  define s1 where "s1 = log_event (Ev_free a) (s\<lparr>store := (store s)(a := None)\<rparr>)"
  have "release_client (FreeNode () a) s = Returns s1"
    using Cons.prems by (auto simp: release_client_def s1_def with_client_def)
  moreover have "set xs \<subseteq> dom (store s1)" "distinct xs" using Cons.prems by (auto simp: s1_def)
  moreover have r: "store s1 |` (- set xs) = store s |` (- set (a # xs))" by (auto simp: s1_def restrict_map_def fun_eq_iff)
  moreover have k: "events s1 = events s @ [Ev_free a]" "clients s1 = clients s" "srv_pool s1 = srv_pool s"
    "thread_pool s1 = thread_pool s" "MOTD s1 = MOTD s" by (simp_all add: s1_def log_event_def)
  ultimately obtain s' where "release_clients (map (FreeNode ()) xs) s1 = Returns s'" "store s' = store s1 |` (- set xs)"
    "events s' = events s1 @ map Ev_free xs" "clients s' = clients s1" "srv_pool s' = srv_pool s1"
    "thread_pool s' = thread_pool s1" "MOTD s' = MOTD s1"
    using Cons.IH[of s1] by blast
  then show ?case using \<open>release_client (FreeNode () a) s = Returns s1\<close> by (simp add: r k)
qed (simp add: restrict_map_def)

text \<open>What a stopped server is: every client freed once, every block returned, every thread joined.\<close>

definition stopped :: "('z, 'f) host \<Rightarrow> ('z, 'f) host \<Rightarrow> bool" where
  "stopped h h' \<longleftrightarrow>
     store (srv h') = Map.empty \<and> events (srv h') = events (srv h) @ map Ev_free (vector_items (clients (srv h))) \<and>
     closed_fds h' = closed_fds h @ [sockfd h, fst (pipe_fds h), snd (pipe_fds h)] \<and>
     open_fds h' = filter (\<lambda>x. x \<notin> {sockfd h, fst (pipe_fds h), snd (pipe_fds h)}) (open_fds h) \<and>
     evlist h' = freed (evlist h) \<and> MOTD_block h' = Null \<and> timed_array h' = freed (timed_array h) \<and>
     pStorage (clients (srv h')) = None \<and> thread_pool (srv h') = zero_thread_pool \<and> \<not> tt_running (tick h') \<and>
     pools_freed h' \<and> \<not> engine_up h' \<and> \<not> database_up h'"

lemma Server_Stop_ok:
  assumes q: "quiet h" and up: "engine_up h" "evlist h \<noteq> Dangling" "MOTD_block h \<noteq> Dangling" "timed_array h \<noteq> Dangling"
    and v: "vector_wf (clients (srv h))" "FreeNodeFn (clients (srv h)) = Some ()"
      "set (vector_items (clients (srv h))) = dom (store (srv h))" "distinct (vector_items (clients (srv h)))"
  shows "\<exists>h'. Server_Stop E h = Returns h' \<and> stopped h h'"
proof -
  define h1 where "h1 = (close_fd (snd (pipe_fds h)) (close_fd (fst (pipe_fds h)) (close_fd (sockfd h) h)))\<lparr>evlist := freed (evlist h)\<rparr>"
  define h2 where "h2 = threads_stopped h1"
  define h3 where "h3 = h2\<lparr>MOTD_block := Null, srv := (srv h2)\<lparr>MOTD := []\<rparr>, database_up := False\<rparr>"
  have n: "Server_StopNetwork h = Returns h1"
    using up by (simp add: Server_StopNetwork_def Let_def h1_def close_fd_def tfree_ok)
  have t: "Server_StopThreads E h1 = Returns h2"
    unfolding h2_def by (rule StopThreads_ok) (use q in \<open>simp add: quiet_def h1_def close_fd_def\<close>)
  have u: "Server_UnloadGame h2 = Returns h3"
    using up by (simp add: Server_UnloadGame_def Server_FreeMOTD_def h3_def h2_def h1_def threads_stopped_def close_fd_def tfree_ok)
  have same: "clients (srv h3) = clients (srv h)" "store (srv h3) = store (srv h)" "events (srv h3) = events (srv h)"
    by (simp_all add: h3_def h2_def h1_def threads_stopped_def close_fd_def)
  have fn: "map (release_node (clients (srv h))) xs = map (FreeNode ()) xs" for xs
    using v(2) by (simp add: release_node_def)
  obtain s' where s': "release_clients (map (FreeNode ()) (vector_items (clients (srv h)))) (srv h3) = Returns s'"
    "store s' = store (srv h3) |` (- set (vector_items (clients (srv h))))"
    "events s' = events (srv h3) @ map Ev_free (vector_items (clients (srv h)))" "clients s' = clients (srv h3)"
    "thread_pool s' = thread_pool (srv h3)"
    using release_clients_ok[of "vector_items (clients (srv h))" "srv h3"] v(3,4) same(2) by auto
  define h4 where "h4 = h3\<lparr>srv := s'\<lparr>clients := (clients (srv h))\<lparr>pStorage := None\<rparr>\<rparr>,
    timed_array := freed (timed_array h), timed_q := prioq_destroy (timed_q h)\<rparr>"
  have a: "Server_ReleaseADTs h3 = Returns h4"
    using Vector_Destroy_ok[OF v(1)] s'(1) same(1) up(4)
    by (simp add: Server_ReleaseADTs_def fn destroy_timed_queue_def h4_def h3_def h2_def h1_def threads_stopped_def close_fd_def tfree_ok)
  have st: "store s' = Map.empty" using s'(2) v(3) same(2) by (auto simp: restrict_map_def fun_eq_iff)
  have "engine_up h4" using up(1) by (simp add: h4_def h3_def h2_def h1_def threads_stopped_def close_fd_def)
  then have "Server_Stop E h = Returns (h4\<lparr>engine_up := False\<rparr>)"
    using n t u a by (simp add: Server_Stop_def Server_FreeConfiguration_def Server_StopScriptEngine_def)
  moreover have "stopped h (h4\<lparr>engine_up := False\<rparr>)"
    using st s'(3,5) same(3)
    by (auto simp: stopped_def h4_def h3_def h2_def h1_def threads_stopped_def close_fd_def TickThread_Stop_def)
  ultimately show ?thesis by blast
qed

section \<open>Stops that fault\<close>

text \<open>The step ends, and returns only with \<open>P\<close>.\<close>

definition yields :: "('r \<Rightarrow> bool) \<Rightarrow> 'r outcome \<Rightarrow> bool" where
  "yields P x \<longleftrightarrow> (case x of Returns v \<Rightarrow> P v | Faults \<Rightarrow> True | Running \<Rightarrow> False)"

lemma yields_simps [simp]:
  "yields P (Returns v) = P v" "yields P Faults" "\<not> yields P Running"
  "yields P (defined y) = (\<forall>v. y = Some v \<longrightarrow> P v)"
  "yields P (with_client a s g) = (\<forall>c. store s a = Some c \<longrightarrow> yields P (g c))"
  by (auto simp: yields_def defined_def with_client_def split: outcome.split option.split)

lemma yields_bind: "yields Q x \<Longrightarrow> (\<And>v. Q v \<Longrightarrow> yields P (f v)) \<Longrightarrow> yields P (bind_outcome x f)"
  by (cases x) auto

lemma yields_mono: "yields Q x \<Longrightarrow> (\<And>v. Q v \<Longrightarrow> P v) \<Longrightarrow> yields P x"
  by (cases x) auto

lemma yields_faults: "yields (\<lambda>_. False) x \<Longrightarrow> x = Faults"
  by (cases x) auto

lemma yields_tfree: "yields (\<lambda>p. q \<noteq> Dangling) (tfree_pointer q)"
  by (cases q) simp_all

lemma yields_StopNetwork:
  "yields (\<lambda>h'. evlist h \<noteq> Dangling \<and> engine_up h' = engine_up h \<and> timed_array h' = timed_array h \<and> srv h' = srv h \<and>
     thread_count h' = thread_count h \<and> tick h' = tick h \<and> tick_created h' = tick_created h) (Server_StopNetwork h)"
  unfolding Server_StopNetwork_def Let_def
  by (rule yields_bind[OF yields_tfree]) (simp add: close_fd_def)

lemma yields_destroy_threads:
  "yields (\<lambda>h'. length (threads (thread_pool (srv h))) = thread_count h \<and> tick h' = tick h \<and> tick_created h' = tick_created h \<and>
     engine_up h' = engine_up h \<and> timed_array h' = timed_array h) (destroy_threads E h)"
  by (auto simp: destroy_threads_def intro!: yields_bind[where Q = "\<lambda>_. True"])

lemma yields_StopThreads:
  "yields (\<lambda>h'. length (threads (thread_pool (srv h))) = thread_count h \<and> (tt_running (tick h) \<longrightarrow> tick_created h) \<and>
     engine_up h' = engine_up h \<and> timed_array h' = timed_array h) (Server_StopThreads E h)"
proof -
  have t: "yields (\<lambda>h'. (tt_running (tick h) \<longrightarrow> tick_created h) \<and> engine_up h' = engine_up h \<and> timed_array h' = timed_array h)
      (stop_tick h)" for h :: "('a, 'b) host"
    by (simp add: stop_tick_def)
  have m: "yields (\<lambda>h'. engine_up h' = engine_up h \<and> timed_array h' = timed_array h) (destroy_mem_pool h)" for h :: "('a, 'b) host"
    by (simp add: destroy_mem_pool_def)
  show ?thesis
    unfolding Server_StopThreads_def
    by (rule yields_bind[OF yields_destroy_threads], rule yields_bind[OF t], rule yields_mono[OF m]) auto
qed

lemma yields_UnloadGame:
  "yields (\<lambda>h'. engine_up h' = engine_up h \<and> timed_array h' = timed_array h) (Server_UnloadGame h)"
  by (cases "MOTD_block h") (simp_all add: Server_UnloadGame_def Server_FreeMOTD_def)

lemma yields_release_clients: "yields (\<lambda>_. True) (release_clients rs s)"
  by (induction rs arbitrary: s) (auto simp: release_client_def Let_def intro!: yields_bind[where Q = "\<lambda>_. True"])

lemma yields_ReleaseADTs:
  "yields (\<lambda>h'. timed_array h \<noteq> Dangling \<and> engine_up h' = engine_up h) (Server_ReleaseADTs h)"
proof -
  have q: "yields (\<lambda>h'. timed_array h0 \<noteq> Dangling \<and> engine_up h' = engine_up h0) (destroy_timed_queue h0)" for h0 :: "('a, 'b) host"
    unfolding destroy_timed_queue_def by (rule yields_bind[OF yields_tfree]) simp
  show ?thesis
    unfolding Server_ReleaseADTs_def
    by (rule yields_bind[where Q = "\<lambda>_. True"]) (auto intro!: yields_bind[OF yields_release_clients] yields_mono[OF q])
qed

text \<open>The reasons for which the server cannot be stopped.\<close>

definition unstoppable :: "('z, 'f) host \<Rightarrow> bool" where
  "unstoppable h \<longleftrightarrow> evlist h = Dangling \<or> length (threads (thread_pool (srv h))) \<noteq> thread_count h \<or>
     (tt_running (tick h) \<and> \<not> tick_created h) \<or> timed_array h = Dangling \<or> \<not> engine_up h"

lemma Server_Stop_faults:
  assumes "unstoppable h"
  shows "Server_Stop E h = Faults"
proof (rule yields_faults)
  show "yields (\<lambda>_. False) (Server_Stop E h)"
    unfolding Server_Stop_def
    by (rule yields_bind[OF yields_StopNetwork], rule yields_bind[OF yields_StopThreads],
        rule yields_bind[OF yields_UnloadGame], rule yields_bind[OF yields_ReleaseADTs])
       (use assms in \<open>auto simp: unstoppable_def Server_StopScriptEngine_def Server_FreeConfiguration_def\<close>)
qed

section \<open>The steps of a start\<close>

text \<open>A server that can be stopped and has no clients yet.\<close>

definition fresh_host :: "('z, 'f) host \<Rightarrow> bool" where
  "fresh_host h \<longleftrightarrow> quiet h \<and> evlist h \<noteq> Dangling \<and> MOTD_block h \<noteq> Dangling \<and> timed_array h = Live \<and>
     vector_wf (clients (srv h)) \<and> FreeNodeFn (clients (srv h)) = Some () \<and> vector_items (clients (srv h)) = [] \<and>
     store (srv h) = Map.empty"

lemma fresh_Stop:
  assumes "fresh_host h" "engine_up h"
  shows "\<exists>h'. Server_Stop E h = Returns h' \<and> stopped h h'"
  by (rule Server_Stop_ok) (use assms in \<open>simp_all add: fresh_host_def\<close>)

lemma Vector_Create_simps:
  assumes "grants_all M"
  obtains v' where "Vector_Create M v 64 fn = (0, v')" "vector_wf v'" "vector_items v' = []" "FreeNodeFn v' = fn"
  using Vector_Create_ok[OF assms, of 64 v fn] by auto

lemma InitializeADTs_cases:
  fixes E :: "('z, 'f, 'd) platform"
  assumes room: "roomy E B"
  shows "(mp_library B < 0 \<or> sodium_init B < 0 \<longrightarrow> Server_InitializeADTs E B (cleared_host B) = Faults) \<and>
    (\<not> (mp_library B < 0 \<or> sodium_init B < 0) \<longrightarrow>
       (\<exists>q v g. Server_InitializeADTs E B (cleared_host B) = Returns (0, (cleared_host B)\<lparr>timed_q := q, timed_array := Live, rng := g,
            srv := (srv (cleared_host B))\<lparr>clients := v\<rparr>\<rparr>) \<and> prioq_create (timed_mgr B) 32 = Some (0, q) \<and>
          vector_wf v \<and> FreeNodeFn v = Some () \<and> vector_items v = []))"
proof -
  obtain q where q: "prioq_create (timed_mgr B) 32 = Some (0, q)" "ah_array q \<noteq> None"
    using room node.ah_create_ok[of "timed_mgr B" 32]
    by (auto simp: roomy_def prioq_create_def ah_wf_def ah_shape_def)
  obtain v where v: "Vector_Create (env_ptrs E) (clients (srv (cleared_host B :: ('z, 'f) host))) 64 (Some ()) = (0, v)" "vector_wf v"
    "vector_items v = []" "FreeNodeFn v = Some ()"
    by (rule Vector_Create_simps[of "env_ptrs E" "clients (srv (cleared_host B :: ('z, 'f) host))" "Some ()"])
      (use room in \<open>simp_all add: roomy_def\<close>)
  have fail: "stop_and_fail E h = Faults" if "\<not> engine_up h" for h :: "('z, 'f) host"
    using that Server_Stop_faults[of h E] by (simp add: stop_and_fail_def unstoppable_def)
  have e: "\<not> engine_up (cleared_host B :: ('z, 'f) host)" by (simp add: cleared_host_def zero_host_def)
  define g where "g = snd (RandGenerator_Init (rdseed B) (boot_sec B) (boot_nsec B) (rng (cleared_host B :: ('z, 'f) host)))"
  have g: "RandGenerator_Init (rdseed B) (boot_sec B) (boot_nsec B) (rng (cleared_host B :: ('z, 'f) host)) = (0, g)"
    by (simp add: g_def RandGenerator_Init_def Let_def)
  show ?thesis
  proof (cases "mp_library B < 0 \<or> sodium_init B < 0")
    case True
    then show ?thesis using q v g e by (auto simp: Server_InitializeADTs_def fail Let_def)
  next
    case False
    then have "Server_InitializeADTs E B (cleared_host B) = Returns (0, (cleared_host B)\<lparr>timed_q := q, timed_array := Live, rng := g,
        srv := (srv (cleared_host B))\<lparr>clients := v\<rparr>\<rparr>)"
      using q v g by (auto simp: Server_InitializeADTs_def Let_def)
    then show ?thesis using False q(1) v(2-4) by blast
  qed
qed

lemma LoadGame_cases:
  assumes room: "roomy E B" and h: "fresh_host h" "engine_up h"
  shows "\<exists>h'. Server_LoadGame E B h = Returns
      (if load_scripts B < 0 \<or> prepare_persistence B < 0 \<or> on_server_start B < 0 then -1 else 0, h') \<and>
    fresh_host h' \<and> engine_up h' \<and> evlist h' = evlist h \<and> tick h' = tick h \<and> open_fds h' = open_fds h \<and>
    closed_fds h' = closed_fds h \<and> clients (srv h') = clients (srv h) \<and> timed_q h' = timed_q h \<and>
    (\<not> (load_scripts B < 0 \<or> prepare_persistence B < 0 \<or> on_server_start B < 0) \<longrightarrow> motd_file B = None \<longrightarrow> h' = h)"
  using assms
  by (auto simp: Server_LoadGame_def Server_LoadMOTD_def roomy_def fresh_host_def quiet_def split: option.split)

definition threads_fail :: "boot \<Rightarrow> bool" where
  "threads_fail B \<longleftrightarrow> tick_create_result B \<noteq> 0 \<or> (\<exists>i < boot_cores B. \<not> thread_ok B i)"

lemma InitializeThreads_cases:
  assumes room: "roomy E B" and h: "fresh_host h" "engine_up h"
  shows "\<exists>r h'. Server_InitializeThreads E B h = Returns (r, h') \<and> evlist h' = evlist h \<and> open_fds h' = open_fds h \<and>
    closed_fds h' = closed_fds h \<and> clients (srv h') = clients (srv h) \<and> store (srv h') = store (srv h) \<and> timed_q h' = timed_q h \<and>
    engine_up h' \<and> MOTD (srv h') = MOTD (srv h) \<and> MOTDlen (srv h') = MOTDlen (srv h) \<and>
    (if threads_fail B then unstoppable h'
     else r = 0 \<and> fresh_host h' \<and> srv_pool (srv h') = MemoryPool_Init 32 \<and> length (threads (thread_pool (srv h'))) = boot_cores B \<and>
       (\<exists>junk. ThreadPool_Init (env_nodes E) (\<lambda>_. True) (thread_ok B) junk (boot_cores B) = Some (0, thread_pool (srv h'))))"
proof -
  have c: "0 < boot_cores B" by (simp add: boot_cores_def)
  let ?junk = "\<lparr>taskfn = None, pArgs = (0, (0, 0)), releasefn = None\<rparr> :: mem_node thread_task"
  obtain tp where tp: "ThreadPool_Init (env_nodes E) (\<lambda>_. True) (thread_ok B) ?junk (boot_cores B) =
      Some (if \<forall>i < boot_cores B. thread_ok B i then 0 else -1, tp)" "ah_len (prio_queue tp) = 0"
    "if \<forall>i < boot_cores B. thread_ok B i then length (threads tp) = boot_cores B else length (threads tp) < boot_cores B"
    using ThreadPool_Init_cases[OF _ c, of "env_nodes E" "thread_ok B" ?junk] room by (auto simp: roomy_def)
  show ?thesis
  proof (cases "threads_fail B")
    case True
    then show ?thesis using room h tp
      by (auto simp: Server_InitializeThreads_def TickThread_Init_def threads_fail_def unstoppable_def roomy_def Let_def
          fresh_host_def split: if_splits)
  next
    case False
    then show ?thesis using room h tp
      by (auto simp: Server_InitializeThreads_def TickThread_Init_def threads_fail_def roomy_def Let_def
          fresh_host_def quiet_def MemoryPool_Init_def)
  qed
qed

lemma stop_fresh_faults_later:
  assumes "fresh_host h" "engine_up h"
  shows "\<exists>h'. stop_and_fail E h = Returns (-1, h') \<and> unstoppable h'"
  using fresh_Stop[OF assms, of E] assms by (auto simp: stop_and_fail_def stopped_def unstoppable_def)

definition network_fails :: "boot \<Rightarrow> bool" where
  "network_fails B \<longleftrightarrow> socket_result B < 0 \<or> setsockopt_result B < 0 \<or> pipe_result B = None \<or> add_pipe_result B < 0 \<or>
     add_socket_result B < 0 \<or> bind_result B < 0 \<or> listen_result B < 0"

text \<open>Adding the listening socket to epoll is the step that stops the server before it fails.\<close>

definition epoll_fails :: "boot \<Rightarrow> bool" where
  "epoll_fails B \<longleftrightarrow> \<not> (socket_result B < 0 \<or> setsockopt_result B < 0 \<or> pipe_result B = None \<or> add_pipe_result B < 0) \<and>
     add_socket_result B < 0"

lemma InitializeNetwork_fresh:
  assumes room: "roomy E B" and h: "fresh_host h" "engine_up h" "evlist h = Null"
  shows "\<exists>h'. Server_InitializeNetwork E B h = Returns (if network_fails B then -1 else 0, h') \<and>
    (if epoll_fails B then unstoppable h' else fresh_host h' \<and> engine_up h')"
proof (cases "epoll_fails B")
  case True
  then obtain p where p: "pipe_result B = Some p" by (auto simp: epoll_fails_def)
  define h1 where "h1 = (let h = open_fd (socket_result B) (h\<lparr>sockfd := socket_result B\<rparr>);
     h = h\<lparr>evlist := Live, epfd := epoll_result B\<rparr>; h = (if epoll_result B < 0 then h else open_fd (epoll_result B) h)
     in open_fd (snd p) (open_fd (fst p) (h\<lparr>pipe_fds := p\<rparr>)))"
  have f: "fresh_host h1" "engine_up h1"
    using h by (simp_all add: h1_def Let_def open_fd_def fresh_host_def quiet_def)
  have "Server_InitializeNetwork E B h = stop_and_fail E h1"
    using True room p by (simp add: Server_InitializeNetwork_def epoll_fails_def roomy_def h1_def Let_def split: prod.split)
  then show ?thesis using stop_fresh_faults_later[OF f, of E] True by (auto simp: network_fails_def epoll_fails_def)
next
  case False
  then show ?thesis
    using room h by (auto simp: Server_InitializeNetwork_def epoll_fails_def network_fails_def roomy_def Let_def open_fd_def
        fresh_host_def quiet_def split: option.split)
qed

lemma InitializeNetwork_unstoppable:
  assumes room: "roomy E B" and h: "unstoppable h" "evlist h = Null"
  shows "Server_InitializeNetwork E B h = Faults \<or>
    (\<exists>r h'. Server_InitializeNetwork E B h = Returns (r, h') \<and> unstoppable h')"
proof -
  have f: "stop_and_fail E h' = Faults" if "unstoppable h'" for h'
    using Server_Stop_faults[OF that, of E] by (simp add: stop_and_fail_def)
  have u: "unstoppable h'" if "thread_count h' = thread_count h" "srv h' = srv h" "tick h' = tick h" "tick_created h' = tick_created h"
      "timed_array h' = timed_array h" "engine_up h' = engine_up h" for h'
    using h that by (auto simp: unstoppable_def)
  show ?thesis
    using room by (auto simp: Server_InitializeNetwork_def roomy_def Let_def open_fd_def split: option.split intro!: u f)
qed

section \<open>Starting and stopping\<close>

text \<open>The failures after which the process crashes in its own shutdown.\<close>

definition start_crashes :: "boot \<Rightarrow> bool" where
  "start_crashes B \<longleftrightarrow> mp_library B < 0 \<or> sodium_init B < 0 \<or> init_engine B < 0 \<or>
     (init_api B \<ge> 0 \<and> load_config B \<ge> 0 \<and> (database_init B < 0 \<or>
       (\<not> (load_scripts B < 0 \<or> prepare_persistence B < 0 \<or> on_server_start B < 0) \<and> (threads_fail B \<or> epoll_fails B))))"

definition start_succeeds :: "boot \<Rightarrow> bool" where
  "start_succeeds B \<longleftrightarrow> \<not> (mp_library B < 0 \<or> sodium_init B < 0 \<or> init_engine B < 0 \<or> init_api B < 0 \<or> load_config B < 0 \<or>
     database_init B < 0 \<or> load_scripts B < 0 \<or> prepare_persistence B < 0 \<or> on_server_start B < 0 \<or> threads_fail B \<or> network_fails B)"

text \<open>A start that gets as far as the network, in one statement.\<close>

definition before_network :: "boot \<Rightarrow> bool" where
  "before_network B \<longleftrightarrow> \<not> (mp_library B < 0 \<or> sodium_init B < 0 \<or> init_engine B < 0 \<or> init_api B < 0 \<or> load_config B < 0 \<or>
     database_init B < 0 \<or> load_scripts B < 0 \<or> prepare_persistence B < 0 \<or> on_server_start B < 0)"

lemma start_adts:
  fixes E :: "('z, 'f, 'd) platform"
  assumes room: "roomy E B" and adt: "\<not> (mp_library B < 0 \<or> sodium_init B < 0)"
  obtains h1 :: "('z, 'f) host" where "Server_InitializeADTs E B (cleared_host B) = Returns (0, h1)" "fresh_host h1" "\<not> engine_up h1"
    "evlist h1 = Null" "open_fds h1 = [0, 1, 2]" "closed_fds h1 = []" "prioq_create (timed_mgr B) 32 = Some (0, timed_q h1)"
    "MOTD (srv h1) = []" "MOTDlen (srv h1) = 0" "thread_count h1 = 0" "\<not> tt_running (tick h1)"
proof -
  obtain q v g where a: "Server_InitializeADTs E B (cleared_host B) = Returns (0, (cleared_host B :: ('z, 'f) host)\<lparr>timed_q := q, timed_array := Live,
      rng := g, srv := (srv (cleared_host B))\<lparr>clients := v\<rparr>\<rparr>)" "prioq_create (timed_mgr B) 32 = Some (0, q)"
      "vector_wf v" "FreeNodeFn v = Some ()" "vector_items v = []"
    using InitializeADTs_cases[OF room] adt by blast
  show thesis
    by (rule that[OF a(1)]) (use a(2-5) in \<open>simp_all add: cleared_host_def zero_host_def fresh_host_def quiet_def zero_thread_pool_def\<close>)
qed

lemma start_to_network:
  fixes E :: "('z, 'f, 'd) platform"
  assumes room: "roomy E B" and ok: "before_network B"
  obtains r :: int and h3 :: "('z, 'f) host" where
    "Server_Start E B = (if r < 0 then Returns (-1, h3) else bind_outcome (Server_InitializeNetwork E B h3) (\<lambda>(r, h).
       if r < 0 then Returns (-1, h) else Returns (0, h)))"
    "evlist h3 = Null" "open_fds h3 = [0, 1, 2]" "closed_fds h3 = []" "prioq_create (timed_mgr B) 32 = Some (0, timed_q h3)"
    "motd_file B = None \<longrightarrow> MOTD (srv h3) = []"
    "if threads_fail B then unstoppable h3
     else r = 0 \<and> fresh_host h3 \<and> engine_up h3 \<and> srv_pool (srv h3) = MemoryPool_Init 32 \<and>
       (\<exists>junk. ThreadPool_Init (env_nodes E) (\<lambda>_. True) (thread_ok B) junk (boot_cores B) = Some (0, thread_pool (srv h3)))"
proof -
  obtain h1 :: "('z, 'f) host" where h1: "Server_InitializeADTs E B (cleared_host B) = Returns (0, h1)" "fresh_host h1"
    "evlist h1 = Null" "open_fds h1 = [0, 1, 2]" "closed_fds h1 = []" "prioq_create (timed_mgr B) 32 = Some (0, timed_q h1)"
    "MOTD (srv h1) = []"
    using start_adts[OF room] ok unfolding before_network_def by metis
  define h2 where "h2 = h1\<lparr>engine_up := True, database_up := True\<rparr>"
  have h2: "fresh_host h2" "engine_up h2" using h1(2) by (simp_all add: h2_def fresh_host_def quiet_def)
  obtain h2' where l: "Server_LoadGame E B h2 = Returns (0, h2')" "fresh_host h2'" "engine_up h2'"
    "evlist h2' = evlist h2" "open_fds h2' = open_fds h2" "closed_fds h2' = closed_fds h2" "timed_q h2' = timed_q h2"
    "motd_file B = None \<longrightarrow> h2' = h2"
    using LoadGame_cases[OF room h2] ok by (auto simp: before_network_def)
  obtain r h3 where t: "Server_InitializeThreads E B h2' = Returns (r, h3)" "evlist h3 = evlist h2'" "open_fds h3 = open_fds h2'"
    "closed_fds h3 = closed_fds h2'" "timed_q h3 = timed_q h2'" "engine_up h3" "MOTD (srv h3) = MOTD (srv h2')"
    "if threads_fail B then unstoppable h3
     else r = 0 \<and> fresh_host h3 \<and> srv_pool (srv h3) = MemoryPool_Init 32 \<and> length (threads (thread_pool (srv h3))) = boot_cores B \<and>
       (\<exists>junk. ThreadPool_Init (env_nodes E) (\<lambda>_. True) (thread_ok B) junk (boot_cores B) = Some (0, thread_pool (srv h3)))"
    using InitializeThreads_cases[OF room l(2,3)] by blast
  show thesis
  proof (rule that)
    show "Server_Start E B = (if r < 0 then Returns (-1, h3) else bind_outcome (Server_InitializeNetwork E B h3) (\<lambda>(r, h).
       if r < 0 then Returns (-1, h) else Returns (0, h)))"
      using ok h1(1) l(1) t(1)
      by (simp add: Server_Start_def before_network_def Server_InitializeScriptEngine_def Server_LoadConfiguration_def
          open_database_def Let_def h2_def[symmetric])
  qed (use h1 l t in \<open>auto simp: h2_def split: if_splits\<close>)
qed

text \<open>What the shutdown after a start comes to.\<close>

definition start_stop_ok :: "('z, 'f, 'd) platform \<Rightarrow> boot \<Rightarrow> bool" where
  "start_stop_ok E B \<longleftrightarrow> (\<exists>h h'. Server_Start E B = Returns (if start_succeeds B then 0 else -1, h) \<and> Server_Stop E h = Returns h' \<and>
     fresh_host h \<and> stopped h h')"

definition start_stop_faults :: "('z, 'f, 'd) platform \<Rightarrow> boot \<Rightarrow> bool" where
  "start_stop_faults E B \<longleftrightarrow> bind_outcome (Server_Start E B) (\<lambda>(_, h). Server_Stop E h) = Faults"

lemma start_stop_faultsI:
  "Server_Start E B = Faults \<Longrightarrow> start_stop_faults E B"
  "Server_Start E B = Returns (r, h) \<Longrightarrow> unstoppable h \<Longrightarrow> start_stop_faults E B"
  by (simp_all add: start_stop_faults_def Server_Stop_faults)

lemma start_stop_okI:
  assumes "Server_Start E B = Returns (if start_succeeds B then 0 else -1, h)" "fresh_host h" "engine_up h"
  shows "start_stop_ok E B"
  using fresh_Stop[OF assms(2,3), of E] assms(1,2) unfolding start_stop_ok_def by blast

lemma late_start_stop:
  fixes E :: "('z, 'f, 'd) platform"
  assumes room: "roomy E B" and ok: "before_network B"
  shows "if start_crashes B then start_stop_faults E B else start_stop_ok E B"
proof (rule start_to_network[OF room ok], goal_cases)
  case (1 r h3)
  note h3 = 1(1,2,7)
  show ?thesis
  proof (cases "threads_fail B")
    case True
    then have u: "unstoppable h3" using h3(3) by simp
    have "start_crashes B" using True ok by (simp add: start_crashes_def before_network_def)
    moreover have "start_stop_faults E B"
    proof (cases "r < 0")
      case True
      then have "Server_Start E B = Returns (-1, h3)" using h3(1) by simp
      then show ?thesis using u by (rule start_stop_faultsI(2))
    next
      case False
      from InitializeNetwork_unstoppable[OF room u h3(2)] show ?thesis
      proof (elim disjE exE conjE)
        assume "Server_InitializeNetwork E B h3 = Faults"
        then show ?thesis using h3(1) False by (intro start_stop_faultsI(1)) simp
      next
        fix r' h' assume "Server_InitializeNetwork E B h3 = Returns (r', h')" and u': "unstoppable h'"
        then have "Server_Start E B = Returns (if r' < 0 then -1 else 0, h')" using h3(1) False by simp
        then show ?thesis using u' by (rule start_stop_faultsI(2))
      qed
    qed
    ultimately show ?thesis by simp
  next
    case False
    then have f: "fresh_host h3" "engine_up h3" "r = 0" using h3(3) by simp_all
    obtain h4 where h4: "Server_InitializeNetwork E B h3 = Returns (if network_fails B then -1 else 0, h4)"
      "if epoll_fails B then unstoppable h4 else fresh_host h4 \<and> engine_up h4"
      using InitializeNetwork_fresh[OF room f(1,2) h3(2)] by blast
    have ss: "start_succeeds B \<longleftrightarrow> \<not> network_fails B" using False ok by (simp add: start_succeeds_def before_network_def)
    have s: "Server_Start E B = Returns (if start_succeeds B then 0 else -1, h4)"
      using h3(1) f(3) h4(1) by (simp add: ss)
    have c: "start_crashes B \<longleftrightarrow> epoll_fails B" using False ok by (simp add: start_crashes_def before_network_def)
    show ?thesis
      using h4(2) start_stop_faultsI(2)[OF s] start_stop_okI[OF s] unfolding c by simp
  qed
qed

lemma early_start_stop:
  fixes E :: "('z, 'f, 'd) platform"
  assumes room: "roomy E B" and early: "\<not> before_network B"
  shows "if start_crashes B then start_stop_faults E B else start_stop_ok E B"
proof (cases "mp_library B < 0 \<or> sodium_init B < 0")
  case True
  then have "Server_Start E B = Faults" using InitializeADTs_cases[OF room] by (simp add: Server_Start_def)
  then show ?thesis using True start_stop_faultsI(1) by (auto simp: start_crashes_def)
next
  case adt: False
  have ns: "(if start_succeeds B then 0 else -1) = (-1 :: int)" using early by (auto simp: before_network_def start_succeeds_def)
  obtain h1 :: "('z, 'f) host" where h1: "Server_InitializeADTs E B (cleared_host B) = Returns (0, h1)" "fresh_host h1" "\<not> engine_up h1"
    using start_adts[OF room adt] by metis
  define h2 where "h2 = h1\<lparr>engine_up := True\<rparr>"
  define h2d where "h2d = h2\<lparr>database_up := True\<rparr>"
  have h2: "fresh_host h2" "engine_up h2" "fresh_host h2d" "engine_up h2d"
    using h1(2) by (simp_all add: h2_def h2d_def fresh_host_def quiet_def)
  have start: "Server_Start E B =
     (if init_engine B < 0 then Returns (-1, h1)
      else if init_api B < 0 then Returns (-1, h2)
      else if load_config B < 0 then Returns (-1, h2)
      else if database_init B < 0 then stop_and_fail E h2
      else bind_outcome (Server_LoadGame E B h2d) (\<lambda>(r, h).
        if r < 0 then Returns (-1, h)
        else bind_outcome (Server_InitializeThreads E B h) (\<lambda>(r, h).
        if r < 0 then Returns (-1, h)
        else bind_outcome (Server_InitializeNetwork E B h) (\<lambda>(r, h).
        if r < 0 then Returns (-1, h) else Returns (0, h)))))"
    using h1(1) by (simp add: Server_Start_def Server_InitializeScriptEngine_def Server_LoadConfiguration_def open_database_def
        Let_def h2_def h2d_def)
  consider (engine) "init_engine B < 0" | (config) "init_engine B \<ge> 0" "init_api B < 0 \<or> load_config B < 0"
    | (db) "init_engine B \<ge> 0" "init_api B \<ge> 0" "load_config B \<ge> 0" "database_init B < 0"
    | (game) "init_engine B \<ge> 0" "init_api B \<ge> 0" "load_config B \<ge> 0" "database_init B \<ge> 0"
        "load_scripts B < 0 \<or> prepare_persistence B < 0 \<or> on_server_start B < 0"
    using early adt by (simp add: before_network_def not_less) linarith
  then show ?thesis
  proof cases
    case engine
    then have "Server_Start E B = Returns (-1, h1)" "unstoppable h1" "start_crashes B"
      using h1(3) by (simp_all add: start unstoppable_def start_crashes_def)
    then show ?thesis using start_stop_faultsI(2) by simp
  next
    case config
    then have "Server_Start E B = Returns (-1, h2)" by (auto simp: start)
    moreover have "\<not> start_crashes B" using config adt by (auto simp: start_crashes_def)
    ultimately show ?thesis using start_stop_okI[of E B h2] h2(1,2) ns by simp
  next
    case db
    then have "Server_Start E B = stop_and_fail E h2" by (simp add: start)
    moreover obtain h' where "stop_and_fail E h2 = Returns (-1, h')" "unstoppable h'"
      using stop_fresh_faults_later[OF h2(1,2)] by blast
    moreover have "start_crashes B" using db by (simp add: start_crashes_def)
    ultimately show ?thesis using start_stop_faultsI(2) by simp
  next
    case game
    obtain h3 where h3: "Server_LoadGame E B h2d = Returns (-1, h3)" "fresh_host h3" "engine_up h3"
      using LoadGame_cases[OF room h2(3,4)] game(5) by auto
    have "Server_Start E B = Returns (-1, h3)" using game h3(1) by (simp add: start)
    moreover have "\<not> start_crashes B" using game adt by (simp add: start_crashes_def)
    ultimately show ?thesis using start_stop_okI[of E B h3] h3(2,3) ns by simp
  qed
qed

lemma start_stop_cases:
  "roomy E B \<Longrightarrow> if start_crashes B then start_stop_faults E B else start_stop_ok E B"
  using late_start_stop early_start_stop by blast

text \<open>What the rest of the development says about the parts holds for a server that has been started.\<close>

definition timed_view :: "('z, 'f) host \<Rightarrow> mem_node timed_server" where
  "timed_view h = \<lparr>timed_queue = timed_q h, mem_pool = srv_pool (srv h), timed_tasks = timed_args h\<rparr>"

lemma InitializeNetwork_ok:
  assumes room: "roomy E B" and ok: "\<not> network_fails B"
  obtains h' where "Server_InitializeNetwork E B h = Returns (0, h')" "srv h' = srv h" "timed_q h' = timed_q h"
    "open_fds h' = open_fds h @ socket_result B # (if epoll_result B < 0 then [] else [epoll_result B]) @
       [fst (the (pipe_result B)), snd (the (pipe_result B))]"
    "sockfd h' = socket_result B" "pipe_fds h' = the (pipe_result B)" "closed_fds h' = closed_fds h"
  using assms
  by (auto simp: Server_InitializeNetwork_def network_fails_def roomy_def Let_def open_fd_def)

section \<open>Tasks that are waiting\<close>

lemma pending_faults:
  assumes M: "grants_all (env_nodes E)"
    and tp: "tp_reachable (env_nodes E) granted wait_fails cores evs (thread_pool (srv h))"
    and pend: "0 < prioq_get_size (prio_queue (thread_pool (srv h)))"
    and rel: "\<forall>p \<in># queue_nodes (prio_queue (thread_pool (srv h))). releasefn (tasks (thread_pool (srv h)) p) \<noteq> None"
  shows "Server_StopThreads E h = Faults"
proof -
  let ?tp = "thread_pool (srv h)"
  have mem: "tp_mem ?tp" using tp_reachable_inv[OF tp M] by blast
  then obtain e q where e: "prioq_extract_min (env_nodes E) (prio_queue ?tp) = Some (pn_data e, q)"
    "ah_items (prio_queue ?tp) = add_mset e (ah_items q)"
    using prioq_extract_min_some[of "prio_queue ?tp" "env_nodes E"] M pend by (auto simp: tp_mem_def prioq_get_size_def)
  then obtain p where p: "pn_data e = Some p" using mem by (auto simp: tp_mem_def)
  then have "p \<in># queue_nodes (prio_queue ?tp)" by (simp add: queue_nodes_def e(2))
  then obtain f where f: "releasefn (tasks ?tp p) = Some f" using rel by auto
  then have "destroy_loop (env_nodes E) (tasks ?tp) (prio_queue ?tp) = Some ([(f, p)], q)"
    using e(1) p by (subst destroy_loop.simps) simp
  then show ?thesis by (simp add: Server_StopThreads_def destroy_threads_def ThreadPool_Destroy_def)
qed

lemma pools_empty_timed:
  assumes "alloc_pool_count (mem_pool sv) = 0" "timed_wf U sv"
  shows "ah_len (timed_queue sv) = 0"
proof (rule ccontr)
  assume "ah_len (timed_queue sv) \<noteq> 0"
  moreover have "ah_shape (timed_queue sv)" using assms(2) ah_wf_shape unfolding timed_wf_def by blast
  ultimately have "ah_items (timed_queue sv) \<noteq> {#}" using size_ah_items by fastforce
  then obtain e where "e \<in># ah_items (timed_queue sv)" by blast
  then have "the (pn_data e) \<in># timed_nodes sv" by (auto simp: timed_nodes_def)
  then have u: "(sizeof_ThreadTask, the (pn_data e)) \<in> U" using assms(2) by (simp add: timed_wf_def)
  then have "the (pn_data e) \<in> snd ` U" by force
  moreover have "mempool_wf (mem_pool sv) (snd ` U)" using assms(2) by (simp add: timed_wf_def mp_inv_def)
  ultimately show False using assms(1) by (fastforce simp: mempool_wf_def)
qed

section \<open>Reloading\<close>

text \<open>A pass over the clients whose step leaves the vector alone.\<close>

lemma each_client_ok:
  assumes "\<And>a s. a \<in> set xs \<Longrightarrow> P s \<Longrightarrow> f a s = Returns (g a s) \<and> P (g a s) \<and> clients (g a s) = clients s"
    and "vector_wf (clients s)" "drop idx (vector_items (clients s)) = xs" "P s"
  shows "each_client f idx (length xs) s = Returns (fold g xs s) \<and> P (fold g xs s) \<and> clients (fold g xs s) = clients s"
  using assms
proof (induction xs arbitrary: idx s)
  case (Cons a xs)
  have i: "idx < length (vector_items (clients s))"
    using Cons.prems(3) by (metis drop_all list.distinct(1) not_le)
  then have a: "vector_items (clients s) ! idx = a" "drop (Suc idx) (vector_items (clients s)) = xs"
    using Cons.prems(3) by (simp_all add: Cons_nth_drop_Suc[symmetric])
  have l: "idx < vlength (clients s)" using i Cons.prems(2) by (auto simp: vector_items_def vector_wf_def)
  have f: "f a s = Returns (g a s)" "P (g a s)" "clients (g a s) = clients s" using Cons.prems(1)[of a s] Cons.prems(4) by auto
  have "each_client f (Suc idx) (length xs) (g a s) = Returns (fold g xs (g a s)) \<and> P (fold g xs (g a s)) \<and>
      clients (fold g xs (g a s)) = clients (g a s)"
    by (rule Cons.IH) (use Cons.prems a f in auto)
  then show ?case using Vector_At_ok[OF Cons.prems(2) l] f a by simp
qed simp

definition drop_player :: "nat \<Rightarrow> ('z, 'f) server \<Rightarrow> ('z, 'f) server" where
  "drop_player a s = s\<lparr>store := (store s)(a := map_option (\<lambda>c. c\<lparr>player_obj := False\<rparr>) (store s a))\<rparr>"

lemma fold_drop_player:
  "fold drop_player xs s =
     s\<lparr>store := \<lambda>a. if a \<in> set xs then map_option (\<lambda>c. c\<lparr>player_obj := False\<rparr>) (store s a) else store s a\<rparr>"
proof (induction xs arbitrary: s)
  case (Cons b xs)
  have "(\<lambda>a. if a \<in> set xs then map_option (\<lambda>c. c\<lparr>player_obj := False\<rparr>) (store (drop_player b s) a) else store (drop_player b s) a) =
      (\<lambda>a. if a \<in> set (b # xs) then map_option (\<lambda>c. c\<lparr>player_obj := False\<rparr>) (store s a) else store s a)"
    by (auto simp: drop_player_def fun_eq_iff option.map_comp comp_def)
  then show ?case using Cons.IH[of "drop_player b s"] by (simp add: drop_player_def)
qed simp

lemma release_players:
  assumes "vector_wf (clients s)" "set (vector_items (clients s)) \<subseteq> dom (store s)"
  shows "each_client release_player 0 (Vector_Count (clients s)) s = Returns (fold drop_player (vector_items (clients s)) s)"
proof -
  have n: "Vector_Count (clients s) = length (vector_items (clients s))"
    using assms(1) by (auto simp: Vector_Count_def vector_items_def vector_wf_def)
  have rel: "release_player a s' = Returns (drop_player a s')" if "a \<in> dom (store s')" for a and s' :: "('a, 'b) server"
    using that by (auto simp: release_player_def with_client_def put_client_def drop_player_def)
  have k: "dom (store (drop_player a s')) = dom (store s')" "clients (drop_player a s') = clients s'" for a and s' :: "('a, 'b) server"
    by (auto simp: drop_player_def split: if_splits)
  have "each_client release_player 0 (length (vector_items (clients s))) s = Returns (fold drop_player (vector_items (clients s)) s) \<and>
      dom (store (fold drop_player (vector_items (clients s)) s)) = dom (store s) \<and>
      clients (fold drop_player (vector_items (clients s)) s) = clients s"
  proof (rule each_client_ok[where P = "\<lambda>s'. dom (store s') = dom (store s)"])
    fix a and s' :: "('a, 'b) server"
    assume a: "a \<in> set (vector_items (clients s))" and d: "dom (store s') = dom (store s)"
    have "a \<in> dom (store s')" unfolding d using a assms(2) by blast
    then show "release_player a s' = Returns (drop_player a s') \<and> dom (store (drop_player a s')) = dom (store s) \<and>
        clients (drop_player a s') = clients s'"
      using rel k d by simp
  qed (use assms in simp_all)
  then show ?thesis by (simp add: n)
qed

text \<open>Announcing the clients to the scripts, which may do what they like as long as they leave the vector alone.\<close>

lemma connect_players:
  assumes "vector_wf (clients s)" "\<forall>k s. clients (env_script E k s) = clients s"
  shows "each_client (\<lambda>a s. Returns (call_script E (OnPlayerConnect a) s)) 0 (Vector_Count (clients s)) s =
      Returns (fold (\<lambda>a s. call_script E (OnPlayerConnect a) s) (vector_items (clients s)) s)"
    "clients (fold (\<lambda>a s. call_script E (OnPlayerConnect a) s) (vector_items (clients s)) s) = clients s"
proof -
  have n: "Vector_Count (clients s) = length (vector_items (clients s))"
    using assms(1) by (auto simp: Vector_Count_def vector_items_def vector_wf_def)
  have "each_client (\<lambda>a s. Returns (call_script E (OnPlayerConnect a) s)) 0 (length (vector_items (clients s))) s =
      Returns (fold (\<lambda>a s. call_script E (OnPlayerConnect a) s) (vector_items (clients s)) s) \<and> True \<and>
      clients (fold (\<lambda>a s. call_script E (OnPlayerConnect a) s) (vector_items (clients s)) s) = clients s"
    by (rule each_client_ok[where P = "\<lambda>_. True"]) (use assms in \<open>auto simp: call_script_def\<close>)
  then show "each_client (\<lambda>a s. Returns (call_script E (OnPlayerConnect a) s)) 0 (Vector_Count (clients s)) s =
      Returns (fold (\<lambda>a s. call_script E (OnPlayerConnect a) s) (vector_items (clients s)) s)"
    "clients (fold (\<lambda>a s. call_script E (OnPlayerConnect a) s) (vector_items (clients s)) s) = clients s"
    by (simp_all add: n)
qed

definition reload_succeeds :: "boot \<Rightarrow> bool" where
  "reload_succeeds B \<longleftrightarrow> \<not> (init_engine B < 0 \<or> init_api B < 0 \<or> load_config B < 0 \<or> database_init B < 0 \<or>
     load_scripts B < 0 \<or> prepare_persistence B < 0 \<or> on_server_start B < 0 \<or> threads_fail B)"

lemma reload_stop_ok:
  assumes q: "quiet h" "engine_up h" "MOTD_block h \<noteq> Dangling"
    and v: "vector_wf (clients (srv h))" "set (vector_items (clients (srv h))) \<subseteq> dom (store (srv h))"
  shows "reload_stop E h = Returns ((threads_stopped h)\<lparr>srv := (fold drop_player (vector_items (clients (srv h)))
      (srv (threads_stopped h)))\<lparr>MOTD := []\<rparr>, MOTD_block := Null, database_up := False, engine_up := False\<rparr>)"
proof -
  have s: "clients (srv (threads_stopped h)) = clients (srv h)" "store (srv (threads_stopped h)) = store (srv h)"
    by (simp_all add: threads_stopped_def)
  have "each_client release_player 0 (Vector_Count (clients (srv h))) (srv (threads_stopped h)) =
      Returns (fold drop_player (vector_items (clients (srv h))) (srv (threads_stopped h)))"
    using release_players[of "srv (threads_stopped h)"] v by (simp add: s)
  moreover have "MOTD_block (threads_stopped h) = MOTD_block h" "engine_up (threads_stopped h) = engine_up h"
    by (simp_all add: threads_stopped_def)
  ultimately show ?thesis
    using StopThreads_ok[OF q(1), of E] q(2,3) s
    by (simp add: reload_stop_def on_server_def Server_UnloadGame_def Server_FreeMOTD_def tfree_ok
        Server_StopScriptEngine_def Server_FreeConfiguration_def)
qed

text \<open>The queue of timed tasks through a reload.\<close>

lemma StopThreads_timed: "if_returns (\<lambda>h'. timed_q h' = timed_q h) (Server_StopThreads E h)"
  by (auto simp: Server_StopThreads_def destroy_threads_def stop_tick_def destroy_mem_pool_def)

lemma UnloadGame_timed: "if_returns (\<lambda>h'. timed_q h' = timed_q h) (Server_UnloadGame h)"
  by (cases "MOTD_block h") (simp_all add: Server_UnloadGame_def Server_FreeMOTD_def)

lemma reload_stop_timed: "if_returns (\<lambda>h'. timed_q h' = timed_q h) (reload_stop E h)"
  unfolding reload_stop_def
proof (rule bind_if_returns[OF StopThreads_timed])
  fix h1 :: "('a, 'b) host" assume 1: "timed_q h1 = timed_q h"
  have "if_returns (\<lambda>h'. timed_q h' = timed_q h) (on_server f h1)" for f
    by (cases "f (srv h1)") (simp_all add: on_server_def 1)
  then show "if_returns (\<lambda>h'. timed_q h' = timed_q h)
      (bind_outcome (on_server (\<lambda>s. each_client release_player 0 (Vector_Count (clients s)) s) h1)
        (\<lambda>h. bind_outcome (Server_UnloadGame h) (\<lambda>h. Server_StopScriptEngine (Server_FreeConfiguration h))))"
    by (rule bind_if_returns, rule_tac bind_if_returns[OF UnloadGame_timed])
       (simp add: Server_StopScriptEngine_def Server_FreeConfiguration_def)
qed

lemma InitializeThreads_timed:
  "if_returns (\<lambda>(r, h'). timed_q h' = timed_q h \<and> (\<not> r < 0 \<longrightarrow> srv_pool (srv h') = MemoryPool_Init 32)) (Server_InitializeThreads E B h)"
  by (auto simp: Server_InitializeThreads_def TickThread_Init_def Let_def)

lemma each_client_owners:
  assumes "scripts_keep_owners E"
  shows "if_returns (\<lambda>s'. owners s' = owners s) (each_client (\<lambda>a s. Returns (call_script E (OnPlayerConnect a) s)) idx n s)"
proof (induction n arbitrary: idx s)
  case (Suc n)
  have "if_returns (\<lambda>s'. owners s' = owners s) (each_client (\<lambda>a s. Returns (call_script E (OnPlayerConnect a) s)) (Suc idx) n
      (call_script E (OnPlayerConnect a) s))" for a
    using Suc.IH[of "call_script E (OnPlayerConnect a) s" "Suc idx"] by (simp add: owners_script[OF assms])
  then show ?case by (auto split: option.split)
qed simp

text \<open>A rule for the whole of a reload: \<open>Q\<close> holds up to the threads, \<open>R\<close> from there on.\<close>

definition connect_all :: "('z, 'f, 'd) platform \<Rightarrow> ('z, 'f) host \<Rightarrow> ('z, 'f) host outcome" where
  "connect_all E h = on_server (\<lambda>s. each_client (\<lambda>a s. Returns (call_script E (OnPlayerConnect a) s)) 0 (Vector_Count (clients s)) s) h"

definition give_up_reload :: "('z, 'f) host \<Rightarrow> (int \<times> ('z, 'f) host) outcome" where
  "give_up_reload h = bind_outcome (Server_UnloadGame h) (\<lambda>h.
     bind_outcome (Server_StopScriptEngine (Server_FreeConfiguration (h\<lparr>database_up := False\<rparr>))) (\<lambda>h. Returns (-1, h)))"

lemma Server_Reload_eq:
  "Server_Reload E B h = bind_outcome (reload_stop E h) (\<lambda>h. case Server_InitializeScriptEngine B h of (r, h) \<Rightarrow>
     if r < 0 then Returns (-1, h)
     else if Server_LoadConfiguration B < 0 then Returns (-1, h)
     else if database_init B < 0 then Returns (-1, open_database B h)
     else bind_outcome (Server_LoadGame E B (open_database B h)) (\<lambda>(r, h).
       if r < 0 then give_up_reload h
       else bind_outcome (Server_InitializeThreads E B h) (\<lambda>(r, h).
         if r < 0 then Returns (-1, h) else bind_outcome (connect_all E h) (\<lambda>h. Returns (0, h)))))"
  unfolding Server_Reload_def connect_all_def give_up_reload_def Let_def ..

lemma reload_rule:
  fixes E :: "('z, 'f, 'd) platform" and Q :: "('z, 'f) host \<Rightarrow> bool"
  assumes stop: "if_returns Q (reload_stop E h)"
    and fields: "\<And>h. Q h \<Longrightarrow> Q (h\<lparr>engine_up := True\<rparr>)" "\<And>h. Q h \<Longrightarrow> Q (h\<lparr>database_up := True\<rparr>)"
    and fail: "\<And>h. Q h \<Longrightarrow> P (-1, h)" "\<And>h. Q h \<Longrightarrow> if_returns P (give_up_reload h)"
    and game: "\<And>h. Q h \<Longrightarrow> if_returns (\<lambda>(r, h'). Q h') (Server_LoadGame E B h)"
    and threads: "\<And>h. Q h \<Longrightarrow> if_returns (\<lambda>(r, h'). if r < 0 then P (-1, h') else R h') (Server_InitializeThreads E B h)"
    and connect: "\<And>h. R h \<Longrightarrow> if_returns (\<lambda>h'. P (0, h')) (connect_all E h)"
  shows "if_returns P (Server_Reload E B h)"
  unfolding Server_Reload_eq
proof (rule bind_if_returns[OF stop])
  fix h1 assume h1: "Q h1"
  have thr: "if_returns P (bind_outcome (Server_InitializeThreads E B h2) (\<lambda>(r, h).
      if r < 0 then Returns (-1, h) else bind_outcome (connect_all E h) (\<lambda>h. Returns (0, h))))" if "Q h2" for h2
    by (rule bind_if_returns[OF threads[OF that]])
       (auto simp del: if_returns_simps(4) intro!: bind_if_returns[OF connect] split: if_splits)
  have gam: "if_returns P (bind_outcome (Server_LoadGame E B h2) (\<lambda>(r, h). if r < 0 then give_up_reload h
      else bind_outcome (Server_InitializeThreads E B h) (\<lambda>(r, h).
        if r < 0 then Returns (-1, h) else bind_outcome (connect_all E h) (\<lambda>h. Returns (0, h)))))" if "Q h2" for h2
    by (rule bind_if_returns[OF game[OF that]]) (auto simp del: if_returns_simps(4) intro!: thr fail(2))
  obtain r h2 where e: "Server_InitializeScriptEngine B h1 = (r, h2)" by fastforce
  have q: "Q h2" "Q (open_database B h2)"
    using e h1 fields by (auto simp: Server_InitializeScriptEngine_def open_database_def Let_def split: if_splits)
  show "if_returns P (case Server_InitializeScriptEngine B h1 of (r, h) \<Rightarrow>
     if r < 0 then Returns (-1, h)
     else if Server_LoadConfiguration B < 0 then Returns (-1, h)
     else if database_init B < 0 then Returns (-1, open_database B h)
     else bind_outcome (Server_LoadGame E B (open_database B h)) (\<lambda>(r, h).
       if r < 0 then give_up_reload h
       else bind_outcome (Server_InitializeThreads E B h) (\<lambda>(r, h).
         if r < 0 then Returns (-1, h) else bind_outcome (connect_all E h) (\<lambda>h. Returns (0, h)))))"
    using gam[OF q(2)] fail(1)[OF q(1)] fail(1)[OF q(2)] by (simp add: e del: if_returns_simps(4))
qed

lemma reload_keeps_timed:
  fixes E :: "('z, 'f, 'd) platform" and h :: "('z, 'f) host"
  assumes sc: "scripts_keep_owners E"
  shows "if_returns (\<lambda>(r, h'). r = 0 \<longrightarrow> timed_q h' = timed_q h \<and> srv_pool (srv h') = MemoryPool_Init 32) (Server_Reload E B h)"
proof (rule reload_rule[where Q = "\<lambda>h'. timed_q h' = timed_q h"
      and R = "\<lambda>h'. timed_q h' = timed_q h \<and> srv_pool (srv h') = MemoryPool_Init 32"])
  fix h1 :: "('z, 'f) host"
  show "if_returns (\<lambda>(r, h'). r = 0 \<longrightarrow> timed_q h' = timed_q h \<and> srv_pool (srv h') = MemoryPool_Init 32) (give_up_reload h1)"
    unfolding give_up_reload_def by (rule if_returns_any) (simp add: Server_StopScriptEngine_def)
  assume h1: "timed_q h1 = timed_q h"
  then show "if_returns (\<lambda>(r, h'). timed_q h' = timed_q h) (Server_LoadGame E B h1)"
    by (auto simp: Server_LoadGame_def Server_LoadMOTD_def split: option.split)
  show "if_returns (\<lambda>(r, h'). if r < 0 then (case (-1 :: int, h') of (r, h') \<Rightarrow> r = 0 \<longrightarrow> timed_q h' = timed_q h \<and> srv_pool (srv h') = MemoryPool_Init 32)
      else timed_q h' = timed_q h \<and> srv_pool (srv h') = MemoryPool_Init 32) (Server_InitializeThreads E B h1)"
    by (rule if_returns_mono[OF InitializeThreads_timed]) (use h1 in auto)
next
  fix h1 :: "('z, 'f) host"
  assume h1: "timed_q h1 = timed_q h \<and> srv_pool (srv h1) = MemoryPool_Init 32"
  have "if_returns (\<lambda>s'. srv_pool s' = srv_pool (srv h1)) (each_client (\<lambda>a s. Returns (call_script E (OnPlayerConnect a) s)) 0
      (Vector_Count (clients (srv h1))) (srv h1))"
    by (rule if_returns_mono[OF each_client_owners[OF sc]]) (simp add: owners_def)
  then show "if_returns (\<lambda>h'. case (0 :: int, h') of (r, h') \<Rightarrow> r = 0 \<longrightarrow> timed_q h' = timed_q h \<and> srv_pool (srv h') = MemoryPool_Init 32)
      (connect_all E h1)"
    using h1 by (auto simp: connect_all_def on_server_def elim!: if_returns_mono)
qed (use reload_stop_timed in auto)

lemma reload_ok:
  assumes "roomy E B" "reload_succeeds B" "\<forall>k s. clients (env_script E k s) = clients s"
    and "quiet h" "engine_up h" "MOTD_block h \<noteq> Dangling"
    and "vector_wf (clients (srv h))" "set (vector_items (clients (srv h))) \<subseteq> dom (store (srv h))"
  shows "\<exists>h' s1. Server_Reload E B h = Returns (0, h') \<and>
    clients s1 = clients (srv h) \<and> events s1 = events (srv h) \<and>
    store s1 = (\<lambda>a. if a \<in> set (vector_items (clients (srv h))) then map_option (\<lambda>c. c\<lparr>player_obj := False\<rparr>) (store (srv h) a)
       else store (srv h) a) \<and>
    srv_pool s1 = MemoryPool_Init 32 \<and> length (threads (thread_pool s1)) = boot_cores B \<and>
    srv h' = fold (\<lambda>a s. call_script E (OnPlayerConnect a) s) (vector_items (clients (srv h))) s1 \<and>
    clients (srv h') = clients (srv h) \<and> open_fds h' = open_fds h \<and> timed_q h' = timed_q h \<and> engine_up h' \<and> database_up h'"
proof -
  let ?vs = "vector_items (clients (srv h))"
  define h1 where "h1 = (threads_stopped h)\<lparr>srv := (fold drop_player ?vs (srv (threads_stopped h)))\<lparr>MOTD := []\<rparr>,
    MOTD_block := Null, database_up := False, engine_up := False\<rparr>"
  have stop: "reload_stop E h = Returns h1" unfolding h1_def by (rule reload_stop_ok[OF assms(4-8)])
  define h2 where "h2 = h1\<lparr>engine_up := True, database_up := True\<rparr>"
  have ok: "\<not> (load_scripts B < 0 \<or> prepare_persistence B < 0 \<or> on_server_start B < 0)" "\<not> threads_fail B"
    using assms(2) by (simp_all add: reload_succeeds_def)
  obtain h3 where h3: "Server_LoadGame E B h2 = Returns (0, h3)" "clients (srv h3) = clients (srv h2)" "store (srv h3) = store (srv h2)" "events (srv h3) = events (srv h2)"
    "open_fds h3 = open_fds h2" "engine_up h3" "database_up h3" "timed_q h3 = timed_q h2"
    using ok(1) assms(1)
    by (cases "motd_file B") (auto simp: Server_LoadGame_def Server_LoadMOTD_def roomy_def h2_def)
  have c: "0 < boot_cores B" by (simp add: boot_cores_def)
  let ?junk = "\<lparr>taskfn = None, pArgs = (0, (0, 0)), releasefn = None\<rparr> :: mem_node thread_task"
  obtain tp where tp: "ThreadPool_Init (env_nodes E) (\<lambda>_. True) (thread_ok B) ?junk (boot_cores B) = Some (0, tp)"
    "length (threads tp) = boot_cores B"
    using ThreadPool_Init_cases[OF _ c, of "env_nodes E" "thread_ok B" ?junk] assms(1) ok(2) by (auto simp: roomy_def threads_fail_def)
  define h4 where "h4 = h3\<lparr>srv := (srv h3)\<lparr>srv_pool := MemoryPool_Init 32, thread_pool := tp\<rparr>, pools_freed := False,
    tick := \<lparr>tt_running = True, tick_delay = 1000000\<rparr>, tick_created := True, thread_count := boot_cores B\<rparr>"
  have thr: "Server_InitializeThreads E B h3 = Returns (0, h4)"
    using tp(1) assms(1) ok(2)
    by (simp add: Server_InitializeThreads_def TickThread_Init_def threads_fail_def roomy_def Let_def h4_def)
  have s4: "clients (srv h4) = clients (srv h)" "events (srv h4) = events (srv h)" "open_fds h4 = open_fds h" "engine_up h4"
      "database_up h4" "thread_pool (srv h4) = tp" "store (srv h4) = store (fold drop_player ?vs (srv (threads_stopped h)))"
      "srv_pool (srv h4) = MemoryPool_Init 32" "timed_q h4 = timed_q h"
    using h3(2-8) by (simp_all add: h4_def h2_def h1_def fold_drop_player threads_stopped_def)
  define h5 where "h5 = h4\<lparr>srv := fold (\<lambda>a s. call_script E (OnPlayerConnect a) s) ?vs (srv h4)\<rparr>"
  have v4: "vector_wf (clients (srv h4))" using assms(7) s4(1) by simp
  have con: "on_server (\<lambda>s. each_client (\<lambda>a s. Returns (call_script E (OnPlayerConnect a) s)) 0 (Vector_Count (clients s)) s) h4 =
      Returns h5"
    using connect_players(1)[OF v4 assms(3)] by (simp add: on_server_def h5_def s4(1))
  have "Server_Reload E B h = Returns (0, h5)"
    using assms(2) stop h3(1) thr con
    by (simp add: Server_Reload_def reload_succeeds_def Server_InitializeScriptEngine_def Server_LoadConfiguration_def
        open_database_def Let_def h2_def[symmetric])
  moreover have "store (srv h4) = (\<lambda>a. if a \<in> set ?vs then map_option (\<lambda>c. c\<lparr>player_obj := False\<rparr>) (store (srv h) a)
       else store (srv h) a)"
    by (rule ext) (simp add: s4(7) fold_drop_player threads_stopped_def)
  moreover have "clients (srv h5) = clients (srv h)" using connect_players(2)[OF v4 assms(3)] s4(1) by (simp add: h5_def)
  ultimately show ?thesis using s4 tp(2) by (intro exI[of _ h5] exI[of _ "srv h4"]) (simp add: h5_def)
qed

section \<open>A null message of the day\<close>

lemma accept_without_motd:
  assumes M: "grants_all (env_bytes E)" and motd: "MOTD s = []" and sk: "sk \<ge> 0"
  shows "Server_AcceptClient E sk now1 now2 a s = Faults"
proof -
  obtain c where c: "Client_Create (env_bytes E) (env_zlib E) (fl_zero (env_floats E)) sk now1 now2 = Some c" "\<not> bDisconnected c"
    using Client_Create_ok[OF M, of "env_zlib E" "fl_zero (env_floats E)" sk now1 now2] by blast
  have w: "fst (Client_WriteTo (env_bytes E) (env_zlib E) (env_fuel E) ws c [] n) = Faults" for ws n
    using c(2) by (simp add: Client_WriteTo_def Client_WriteToImpl_def write_source_def ANSIColorizeString_def ansi_loop.simps
        bind_eq_None_conv split: option.split prod.split)
  have m: "Server_SendClientMotd E a s' = Faults" if "store s' a = Some c" "MOTD s' = []" for s'
    using that w[of "env_sends E (length (events s'))" "MOTDlen s'"]
    by (auto simp: Server_SendClientMotd_def send_to_def split: prod.split)
  show ?thesis
  proof (cases "Vector_Push (env_ptrs E) a (clients s)")
    case None
    then show ?thesis using c(1) sk by (simp add: Server_AcceptClient_def)
  next
    case (Some rv)
    then show ?thesis using c(1) sk motd
      by (cases rv) (simp add: Server_AcceptClient_def Let_def m put_client_def log_event_def)
  qed
qed

section \<open>A small instance\<close>

definition demo_boot :: boot where
  "demo_boot = \<lparr>timed_mgr = demo_ptrs (prioqnode_Init 0 None), mp_library = 0,
     realtime_clock = \<lparr>tv_sec = 9, tv_nsec = 5\<rparr>, monotonic_clock = \<lparr>tv_sec = 2, tv_nsec = 7\<rparr>, rdseed = None, boot_sec = 1, boot_nsec = 2,
     sodium_init = 0, init_engine = 0, init_api = 0, load_config = 0, database_init = 0, load_scripts = 0,
     prepare_persistence = 0, on_server_start = 0, motd_file = None, nprocs = 4, tick_create_result = 0,
     thread_ok = (\<lambda>_. True), socket_result = 3, setsockopt_result = 0, epoll_result = 4, pipe_result = Some (5, 6),
     add_pipe_result = 0, add_socket_result = 0, bind_result = 0, listen_result = 0\<rparr>"

definition demo_host :: "mem_node prioq \<Rightarrow> (nat, int) host" where
  "demo_host q = zero_host\<lparr>srv := (demo_server [7] [7 \<mapsto> demo_client 5] Map.empty (MemoryPool_Init 32))\<lparr>thread_pool := zero_thread_pool\<rparr>,
     engine_up := True, timed_q := q\<rparr>"

definition demo_queue :: "mem_node prioq" where
  "demo_queue = \<lparr>ah_array = None, ah_len = 0, ah_capacity = 0\<rparr>"

lemma demo_roomy: "roomy demo_env demo_boot" "roomy demo_env (demo_boot\<lparr>sodium_init := x\<rparr>)"
  by (simp_all add: roomy_def demo_env_def demo_boot_def demo_ptrs_def grants_all_def)

lemma demo_succeeds: "start_succeeds demo_boot" "reload_succeeds demo_boot"
  by (simp_all add: start_succeeds_def reload_succeeds_def demo_boot_def threads_fail_def network_fails_def)

lemma demo_host_ok:
  "quiet (demo_host q)" "engine_up (demo_host q)" "MOTD_block (demo_host q) \<noteq> Dangling" "vector_wf (clients (srv (demo_host q)))"
  "vector_items (clients (srv (demo_host q))) = [7]" "store (srv (demo_host q)) = [7 \<mapsto> demo_client 5]"
  "timed_q (demo_host q) = q"
  by (simp_all add: demo_host_def demo_server_def zero_host_def quiet_def zero_thread_pool_def vector_wf_def vector_items_def
      MemoryPool_Init_def)

section \<open>Properties\<close>

text \<open>C8: a start whose steps all succeed gives a server in the state the rest of the development starts from: a listening
  server with no clients whose ownership invariant holds, a thread pool in its initial state with the number of workers
  that \<open>max(cpu_cores - 2, 1)\<close> gives in unsigned arithmetic (4294967295 on a machine with one core, where the start only
  succeeds if they can all be created), and an empty queue of timed tasks over an empty memory pool.\<close>

theorem Server_Start_ready:
  assumes "roomy E B" "start_succeeds B"
  shows "\<exists>h. Server_Start E B = Returns (0, h) \<and> server_reachable E ({}, srv h) \<and>
    tp_reachable (env_nodes E) (\<lambda>_. True) w (boot_cores B) [] (thread_pool (srv h)) \<and> timed_wf {} (timed_view h) \<and>
    sockfd h = socket_result B \<and> pipe_fds h = the (pipe_result B) \<and> closed_fds h = []"
proof -
  have nf: "\<not> threads_fail B" "\<not> network_fails B" "before_network B"
    using assms(2) by (simp_all add: start_succeeds_def before_network_def)
  show ?thesis
  proof (rule start_to_network[OF assms(1) nf(3)], goal_cases)
    case (1 r h3)
    then have f: "r = 0" "fresh_host h3" "srv_pool (srv h3) = MemoryPool_Init 32" using nf(1) by simp_all
    obtain junk where tp: "ThreadPool_Init (env_nodes E) (\<lambda>_. True) (thread_ok B) junk (boot_cores B) = Some (0, thread_pool (srv h3))"
      using 1(7) nf(1) by auto
    obtain h where h: "Server_InitializeNetwork E B h3 = Returns (0, h)" "srv h = srv h3" "timed_q h = timed_q h3"
      "sockfd h = socket_result B" "pipe_fds h = the (pipe_result B)" "closed_fds h = closed_fds h3"
      using InitializeNetwork_ok[OF assms(1) nf(2)] by metis
    have "Server_Start E B = Returns (0, h)" using 1(1) f(1) h(1) by simp
    moreover have "server_reachable E ({}, srv h)"
      by (rule server_start[where n = 32]) (use f(2,3) h(2) in \<open>simp_all add: fresh_host_def\<close>)
    moreover have "tp_reachable (env_nodes E) (\<lambda>_. True) w (boot_cores B) [] (thread_pool (srv h))"
      unfolding h(2) using tp by (rule tp_start)
    moreover have "timed_wf {} (timed_view h)"
    proof -
      obtain junk :: "mem_node thread_task" where "timed_start (timed_mgr B) junk = Some ((timed_view h)\<lparr>timed_tasks := \<lambda>_. junk\<rparr>)"
        using 1(5) f(3) h(2,3) by (simp add: timed_start_def timed_view_def)
      then have "timed_wf {} ((timed_view h)\<lparr>timed_tasks := \<lambda>_. junk\<rparr>)" using timed_start_ok assms(1) by (auto simp: roomy_def)
      then show ?thesis by (simp add: timed_wf_def timed_nodes_def)
    qed
    ultimately show ?thesis using h 1(4) by auto
  qed
qed


text \<open>stopping or reloading the server while a task with a release function waits in the thread pool is undefined
  behaviour: the release function is called with the task instead of the package.\<close>

theorem pending_task_faults_stop:
  assumes "grants_all (env_nodes E)"
    "tp_reachable (env_nodes E) granted wait_fails cores evs (thread_pool (srv h))"
    "0 < prioq_get_size (prio_queue (thread_pool (srv h)))"
    "\<forall>p \<in># queue_nodes (prio_queue (thread_pool (srv h))). releasefn (tasks (thread_pool (srv h)) p) \<noteq> None"
  shows "Server_Stop E h = Faults \<and> Server_Reload E B h = Faults"
proof
  have f: "Server_StopThreads E h' = Faults" if "srv h' = srv h" for h'
    using pending_faults[OF assms(1), of granted wait_fails cores evs h'] assms(2-4) that by simp
  show "Server_Stop E h = Faults"
    unfolding Server_Stop_def
    by (rule yields_faults, rule yields_bind[OF yields_StopNetwork]) (simp add: f)
  show "Server_Reload E B h = Faults" by (simp add: Server_Reload_def reload_stop_def f)
qed

text \<open>C19: a reload frees the memory pool but not the queue of timed tasks: the tasks that were waiting are still queued, by
  pointers into memory that was returned. The queue is not well formed over the new pool, whatever blocks are in use.\<close>

theorem reload_dangles_timed_tasks:
  assumes "Server_Reload E B h = Returns (0, h')" "scripts_keep_owners E" "0 < ah_len (timed_q h)"
  shows "timed_q h' = timed_q h \<and> alloc_pool_count (mem_pool (timed_view h')) = 0 \<and> (\<forall>U. \<not> timed_wf U (timed_view h'))"
proof -
  have t: "timed_q h' = timed_q h" "srv_pool (srv h') = MemoryPool_Init 32"
    using reload_keeps_timed[OF assms(2), of h B] assms(1) by simp_all
  then have "alloc_pool_count (mem_pool (timed_view h')) = 0" "ah_len (timed_queue (timed_view h')) \<noteq> 0"
    using assms(3) by (simp_all add: timed_view_def MemoryPool_Init_def)
  then show ?thesis using t(1) pools_empty_timed[of "timed_view h'"] by auto
qed

text \<open>C18: reloading a server whose threads are idle keeps every connection, whatever the scripts do when they are told of a
  client, as long as they leave the vector of clients alone. The vector, the sockets and the timed queue are unchanged. Every
  client has lost its old script object and nothing else when the first of them is announced, the pool of threads is
  new and the memory pool empty; then each client is announced to the new scripts once, in order, and the state is what the
  scripts make of it (the program's own part of \<open>OnPlayerConnect\<close> gives the client its new object).\<close>

theorem Server_Reload_keeps_clients:
  assumes "roomy E B" "reload_succeeds B" "\<forall>k s. clients (env_script E k s) = clients s"
    and "quiet h" "engine_up h" "MOTD_block h \<noteq> Dangling"
    and "vector_wf (clients (srv h))" "set (vector_items (clients (srv h))) \<subseteq> dom (store (srv h))"
  shows "\<exists>h' s1. Server_Reload E B h = Returns (0, h') \<and>
    clients s1 = clients (srv h) \<and> events s1 = events (srv h) \<and>
    store s1 = (\<lambda>a. if a \<in> set (vector_items (clients (srv h))) then map_option (\<lambda>c. c\<lparr>player_obj := False\<rparr>) (store (srv h) a)
       else store (srv h) a) \<and>
    srv_pool s1 = MemoryPool_Init 32 \<and> length (threads (thread_pool s1)) = boot_cores B \<and>
    srv h' = fold (\<lambda>a s. call_script E (OnPlayerConnect a) s) (vector_items (clients (srv h))) s1 \<and>
    clients (srv h') = clients (srv h) \<and> open_fds h' = open_fds h \<and> timed_q h' = timed_q h \<and> engine_up h' \<and> database_up h'"
  by (rule reload_ok[OF assms])

text \<open>a server started without the file motd.txt comes up, but crashes on the first connection: the text is null and
  the colour conversion reads it.\<close>

theorem missing_motd_crashes:
  assumes "roomy E B" "start_succeeds B" "motd_file B = None" "grants_all (env_bytes E)" "sk \<ge> 0"
  shows "\<exists>h. Server_Start E B = Returns (0, h) \<and> Server_AcceptClient E sk now1 now2 a (srv h) = Faults"
proof -
  have nf: "\<not> threads_fail B" "\<not> network_fails B" "before_network B"
    using assms(2) by (simp_all add: start_succeeds_def before_network_def)
  show ?thesis
  proof (rule start_to_network[OF assms(1) nf(3)], goal_cases)
    case (1 r h3)
    then have f: "r = 0" "fresh_host h3" "MOTD (srv h3) = []" using nf(1) assms(3) by simp_all
    obtain h where h: "Server_InitializeNetwork E B h3 = Returns (0, h)" "srv h = srv h3"
      using InitializeNetwork_ok[OF assms(1) nf(2)] by metis
    have "Server_Start E B = Returns (0, h)" using 1(1) f(1) h(1) by simp
    moreover have "Server_AcceptClient E sk now1 now2 a (srv h) = Faults"
      by (rule accept_without_motd) (use assms(4,5) f(3) h(2) in simp_all)
    ultimately show ?thesis by blast
  qed
qed

theorem Server_Start_ready_witness:
  "\<exists>h. Server_Start demo_env demo_boot = Returns (0, h) \<and> sockfd h = 3 \<and> server_reachable demo_env ({}, srv h)"
  using Server_Start_ready[OF demo_roomy(1) demo_succeeds(1)] by (auto simp: demo_boot_def)


theorem pending_task_faults_stop_witness:
  "\<exists>h :: (nat, int) host. prioq_get_size (prio_queue (thread_pool (srv h))) = 1 \<and> Server_Stop demo_env h = Faults"
proof -
  let ?t = "\<lparr>taskfn = Some 0, pArgs = (0, (0, 0)), releasefn = Some 1\<rparr> :: mem_node thread_task"
  have M: "grants_all (env_nodes demo_env)" using demo_roomy(1) by (simp add: roomy_def)
  obtain tp p where tp: "tp_reachable (env_nodes demo_env) (\<lambda>_. True) False 1 [Added 1 ?t, Silent] tp"
    "prioq_get_size (prio_queue tp) = 1" "queue_nodes (prio_queue tp) = {#p#}" "tasks tp p = ?t"
    using one_task_added[OF M, of ?t] by metis
  define h :: "(nat, int) host" where "h = zero_host\<lparr>srv := (srv zero_host)\<lparr>thread_pool := tp\<rparr>\<rparr>"
  have "Server_Stop demo_env h = Faults \<and> Server_Reload demo_env demo_boot h = Faults"
    by (rule pending_task_faults_stop[OF M, of "\<lambda>_. True" False 1 "[Added 1 ?t, Silent]"]) (use tp in \<open>simp_all add: h_def\<close>)
  then show ?thesis using tp(2) by (intro exI[of _ h]) (simp add: h_def)
qed

theorem reload_dangles_timed_tasks_witness:
  "\<exists>h'. Server_Reload demo_env demo_boot (demo_host \<lparr>ah_array = Some [prioqnode_Init 9 (Some (0, (0, 0)))], ah_len = 1, ah_capacity = 1\<rparr>) =
      Returns (0, h') \<and> ah_len (timed_q h') = 1 \<and> \<not> timed_wf {} (timed_view h')"
proof -
  let ?q = "\<lparr>ah_array = Some [prioqnode_Init 9 (Some (0, (0, 0)))], ah_len = 1, ah_capacity = 1\<rparr> :: mem_node prioq"
  have id: "\<forall>k s. env_script demo_env k s = s" "\<forall>k s. clients (env_script demo_env k s) = clients s" by (simp_all add: demo_env_def)
  obtain h' where r: "Server_Reload demo_env demo_boot (demo_host ?q) = Returns (0, h')"
    using reload_ok[OF demo_roomy(1) demo_succeeds(2) id(2), of "demo_host ?q"] demo_host_ok[of ?q] by auto
  have "scripts_keep_owners demo_env" using id by (simp add: scripts_keep_owners_def)
  from reload_dangles_timed_tasks[OF r this] show ?thesis using r demo_host_ok(7)[of ?q] by auto
qed

text \<open>Scripts that give an announced client its object, as \<open>AngelScriptManager_CallOnPlayerConnect\<close> does.\<close>

definition connecting_env :: "(nat, int, int) platform" where
  "connecting_env = demo_env\<lparr>env_script := \<lambda>k s. case k of
     OnPlayerConnect a \<Rightarrow> s\<lparr>store := (store s)(a := map_option (\<lambda>c. c\<lparr>player_obj := True\<rparr>) (store s a))\<rparr> | _ \<Rightarrow> s\<rparr>"

theorem Server_Reload_keeps_clients_witness:
  "\<exists>h'. Server_Reload connecting_env demo_boot (demo_host demo_queue) = Returns (0, h') \<and>
     clients (srv h') = clients (srv (demo_host demo_queue)) \<and> events (srv h') = [Ev_script (OnPlayerConnect 7)] \<and>
     store (srv h') 7 = Some (demo_client 5\<lparr>player_obj := True\<rparr>)"
proof -
  have sc: "\<forall>k s. clients (env_script connecting_env k s) = clients s"
    by (simp add: connecting_env_def split: script_call.split)
  have room: "roomy connecting_env demo_boot" using demo_roomy(1) by (simp add: roomy_def connecting_env_def)
  have "events (srv (demo_host demo_queue)) = []" by (simp add: demo_host_def demo_server_def)
  then show ?thesis
    using Server_Reload_keeps_clients[OF room demo_succeeds(2) sc, of "demo_host demo_queue"] demo_host_ok[of demo_queue]
    by (auto simp: call_script_def log_event_def connecting_env_def)
qed

theorem missing_motd_crashes_witness:
  "\<exists>h. Server_Start demo_env demo_boot = Returns (0, h) \<and>
     Server_AcceptClient demo_env 7 \<lparr>tv_sec = 1, tv_nsec = 0\<rparr> \<lparr>tv_sec = 1, tv_nsec = 0\<rparr> 1 (srv h) = Faults"
proof -
  have "motd_file demo_boot = None" "grants_all (env_bytes demo_env)"
    by (simp_all add: demo_boot_def demo_env_def byte_mgr_def grants_all_def)
  from missing_motd_crashes[OF demo_roomy(1) demo_succeeds(1) this, of 7] show ?thesis by simp
qed

end
