(* ===== verification/MudMain.thy ===== *)
theory MudMain
  imports ServerLife
begin

text \<open>
  mud.c: the main thread. It starts the server, waits for events, turns them into calls of the handlers, and
  stops the server in the end. The results of \<open>epoll_wait\<close> are an argument, a list of batches. A batch holds what the
  handlers need from the kernel. Commands reach the main thread through a pipe (\<open>cmd_pipe\<close> of the server's
  state is what was written and not yet read).
\<close>

section \<open>Commands\<close>

text \<open>\<open>strncmp\<close> over buffers: both are read up to the first difference, zero byte or \<open>n\<close> bytes.\<close>

fun same_prefix :: "nat \<Rightarrow> byte list \<Rightarrow> byte list \<Rightarrow> nat \<Rightarrow> bool option" where
  "same_prefix 0 xs ys i = Some True"
| "same_prefix (Suc n) xs ys i = do {
     x \<leftarrow> rd xs i;
     y \<leftarrow> rd ys i;
     if x \<noteq> y then Some False else if x = 0 then Some True else same_prefix n xs ys (Suc i)
   }"

text \<open>A read of the pipe gives what is there, at most 256 bytes, or fails (-1). The last byte read is
  overwritten, at the index \<open>bread - 1\<close>, computed as a \<open>size_t\<close>.\<close>

definition read_command :: "bool \<Rightarrow> ('z, 'f) server \<Rightarrow> (byte list \<times> ('z, 'f) server) option" where
  "read_command fails s = do {
     let msg = (if fails then [] else take 256 (cmd_pipe s));
     let bread = (if fails then 2 ^ 64 - 1 else length msg);
     buf \<leftarrow> copy_cells (replicate 256 0) 0 msg;
     buf \<leftarrow> wr buf (sz_sub bread 1) 0;
     Some (buf, if fails then s else s\<lparr>cmd_pipe := drop 256 (cmd_pipe s)\<rparr>)
   }"

definition kill_command :: "byte list" where
  "kill_command = bytes_of ''kill'' @ [0]"

definition reload_command :: "byte list" where
  "reload_command = bytes_of ''reload'' @ [0]"

definition kill_notice :: "byte list" where
  "kill_notice = [13, 10] @ bytes_of ''Server going down!'' @ [13, 10]"

definition reload_notice :: "byte list" where
  "reload_notice = [13, 10] @ bytes_of ''Server reloading.'' @ [13, 10]"

definition reloaded_notice :: "byte list" where
  "reloaded_notice = [13, 10] @ bytes_of ''Server has reloaded.'' @ [13, 10]"

definition HandleKillSig :: "('z, 'f) server \<Rightarrow> ('z, 'f) server outcome" where
  "HandleKillSig s = Server_WriteToCmdPipe kill_command 5 s"

section \<open>The loop\<close>

text \<open>The events of a batch; the first holds what \<open>accept\<close> and the clock give, the last the client of the event.\<close>

datatype ready_event =
    Ready_listen int timespec timespec nat
  | Ready_pipe bool
  | Ready_client nat

datatype loop_state = Go_on | Stop_loop | Leave_main

definition handle_command ::
    "('z, 'f, 'd) platform \<Rightarrow> boot \<Rightarrow> bool \<Rightarrow> ('z, 'f) host \<Rightarrow> (loop_state \<times> ('z, 'f) host) outcome" where
  "handle_command E B fails h =
     bind_outcome (defined (read_command fails (srv h))) (\<lambda>(buf, s).
     let h = h\<lparr>srv := s\<rparr> in
     bind_outcome (defined (same_prefix 4 buf kill_command 0)) (\<lambda>is_kill.
     if is_kill then
       bind_outcome (on_server (Server_SendAllClients E kill_notice) h) (\<lambda>h.
       Returns (Stop_loop, h))
     else bind_outcome (defined (same_prefix 6 buf reload_command 0)) (\<lambda>is_reload.
     if is_reload then
       bind_outcome (on_server (Server_SendAllClients E reload_notice) h) (\<lambda>h.
       bind_outcome (Server_Reload E B h) (\<lambda>(r, h).
       if r < 0 then Returns (Leave_main, h)
       else bind_outcome (on_server (Server_SendAllClients E reloaded_notice) h) (\<lambda>h.
       Returns (Go_on, h))))
     else Returns (Go_on, h))))"

definition handle_event ::
    "('z, 'f, 'd) platform \<Rightarrow> boot \<Rightarrow> ready_event \<Rightarrow> ('z, 'f) host \<Rightarrow> (loop_state \<times> ('z, 'f) host) outcome" where
  "handle_event E B ev h =
     (case ev of
        Ready_listen fd now1 now2 a \<Rightarrow>
          bind_outcome (on_server (\<lambda>s. bind_outcome (Server_AcceptClient E fd now1 now2 a s) (\<lambda>(_, s). Returns s)) h)
            (\<lambda>h. Returns (Go_on, h))
      | Ready_pipe fails \<Rightarrow> handle_command E B fails h
      | Ready_client a \<Rightarrow> bind_outcome (on_server (Server_HandleUserInput E a) h) (\<lambda>h. Returns (Go_on, h)))"

fun event_batch ::
    "('z, 'f, 'd) platform \<Rightarrow> boot \<Rightarrow> ready_event list \<Rightarrow> ('z, 'f) host \<Rightarrow> (loop_state \<times> ('z, 'f) host) outcome" where
  "event_batch E B [] h = Returns (Go_on, h)"
| "event_batch E B (ev # evs) h =
     bind_outcome (handle_event E B ev h) (\<lambda>(st, h). if st = Go_on then event_batch E B evs h else Returns (st, h))"

text \<open>\<open>Running\<close>: the server waits for more events than the batches given.\<close>

fun mud_loop ::
    "('z, 'f, 'd) platform \<Rightarrow> boot \<Rightarrow> ready_event list list \<Rightarrow> ('z, 'f) host \<Rightarrow> (loop_state \<times> ('z, 'f) host) outcome" where
  "mud_loop E B [] h = Running"
| "mud_loop E B (evs # batches) h =
     bind_outcome (event_batch E B evs h) (\<lambda>(st, h). if st = Go_on then mud_loop E B batches h else Returns (st, h))"

text \<open>\<open>main\<close>: the host at the exit of the process. After a failed reload it returns without stopping the server.\<close>

definition mud_main :: "('z, 'f, 'd) platform \<Rightarrow> boot \<Rightarrow> boot \<Rightarrow> ready_event list list \<Rightarrow> ('z, 'f) host outcome" where
  "mud_main E B B' batches =
     bind_outcome (Server_Start E B) (\<lambda>(r, h).
     if r \<ge> 0 then
       bind_outcome (mud_loop E B' batches h) (\<lambda>(st, h). if st = Leave_main then Returns h else Server_Stop E h)
     else Server_Stop E h)"

section \<open>A message to all clients\<close>

lemma Sendf_plain:
  assumes M: "grants_all M" and out: "legal_rest out" "length out \<le> 511"
  shows "\<exists>b. \<forall>Z fuel ws (c :: ('z, 'f) client). (bDisconnected c \<longrightarrow> Client_Sendf M Z fuel ws c out = (Returns (-1), [], c)) \<and>
    (\<not> bDisconnected c \<longrightarrow> \<not> b_mccp2 (opts (tel_stream c)) \<longrightarrow> ws = [int (length out + 2)] \<longrightarrow>
      Client_Sendf M Z fuel ws c out = (Returns (int (length out + 2)), out @ [0, b], c))"
proof -
  let ?n = "length out"
  have "length (rendered [] @ out) < 2 ^ 30" using out(2) by simp
  moreover have "marked [] = []" "rendered [] = []" by simp_all
  ultimately obtain d b buf m where d: "sendf_buffer M out = Some (buf, m)" "write_source M True buf m = Some (d, ?n + 3)"
      "take (?n + 2) d = out @ [0, b]" "?n + 2 \<le> length d"
    using sendf_colour[OF M, of "[]" out] out by auto
  have sub: "sz_sub (?n + 3) 1 = ?n + 2" using out(2) by (subst sz_sub_le) simp_all
  have i: "to_int32 (?n + 2) = int (?n + 2)" using out(2) by (intro to_int32_small) simp
  have w: "write_full_raw [int (?n + 2)] d (?n + 2) = (Returns (int (?n + 2)), out @ [0, b])"
    using d(3,4) i by (simp add: write_full_raw_def Let_def nat_add_distrib)
  show ?thesis
    by (rule exI[of _ b]) (use d(1,2) sub w in \<open>simp add: Client_Sendf_def Client_WriteToImpl_def\<close>)
qed

text \<open>The events of such a message, in the order of the vector.\<close>

definition notices :: "byte list \<Rightarrow> nat list \<Rightarrow> ('z, 'f) server \<Rightarrow> server_event list" where
  "notices bytes as s = map (\<lambda>a. Ev_send (sock (the (store s a))) bytes) (filter (\<lambda>a. \<not> bDisconnected (the (store s a))) as)"

lemma send_all_loop_ok:
  fixes s :: "('z, 'f) server"
  assumes snd: "\<forall>Z fuel ws (c :: ('z, 'f) client). (bDisconnected c \<longrightarrow> Client_Sendf (env_bytes E) Z fuel ws c out = (Returns (-1), [], c)) \<and>
      (\<not> bDisconnected c \<longrightarrow> \<not> b_mccp2 (opts (tel_stream c)) \<longrightarrow> ws = [int (length out + 2)] \<longrightarrow>
        Client_Sendf (env_bytes E) Z fuel ws c out = (Returns (int (length out + 2)), out @ [0, b], c))"
    and ws: "\<forall>k. env_sends E k = [int (length out + 2)]"
  shows "vector_wf (clients s) \<Longrightarrow> drop idx (vector_items (clients s)) = as \<Longrightarrow>
    \<forall>a \<in> set as. \<exists>c. store s a = Some c \<and> (bDisconnected c \<or> \<not> b_mccp2 (opts (tel_stream c))) \<Longrightarrow>
    send_all_loop E out idx (length as) s = Returns (s\<lparr>events := events s @ notices (out @ [0, b]) as s\<rparr>)"
proof (induction as arbitrary: idx s)
  case Nil
  then show ?case by (simp add: notices_def)
next
  case (Cons a as)
  have i: "idx < length (vector_items (clients s))" using Cons.prems(2) by (metis drop_all list.distinct(1) not_le)
  then have a: "vector_items (clients s) ! idx = a" "drop (Suc idx) (vector_items (clients s)) = as"
    using Cons.prems(2) by (simp_all add: Cons_nth_drop_Suc[symmetric])
  have l: "idx < vlength (clients s)" using i Cons.prems(1) by (auto simp: vector_items_def vector_wf_def)
  obtain c where c: "store s a = Some c" "bDisconnected c \<or> \<not> b_mccp2 (opts (tel_stream c))" using Cons.prems(3) by auto
  define s1 where "s1 = s\<lparr>events := events s @ notices (out @ [0, b]) [a] s\<rparr>"
  have s1: "\<exists>v. server_sendf E a out s = Returns (v, s1)"
  proof (cases "bDisconnected c")
    case True
    then show ?thesis using snd c(1) by (auto simp: server_sendf_def send_to_def s1_def notices_def put_client_def fun_upd_idem)
  next
    case False
    then show ?thesis using snd c ws
      by (auto simp: server_sendf_def send_to_def s1_def notices_def put_client_def log_event_def fun_upd_idem)
  qed
  have "send_all_loop E out (Suc idx) (length as) s1 = Returns (s1\<lparr>events := events s1 @ notices (out @ [0, b]) as s1\<rparr>)"
    by (rule Cons.IH) (use Cons.prems a(2) in \<open>auto simp: s1_def\<close>)
  moreover have "s1\<lparr>events := events s1 @ notices (out @ [0, b]) as s1\<rparr> = s\<lparr>events := events s @ notices (out @ [0, b]) (a # as) s\<rparr>"
    by (simp add: s1_def notices_def)
  ultimately show ?case using s1 Vector_At_ok[OF Cons.prems(1) l] a(1) by auto
qed

lemma SendAllClients_ok:
  assumes "grants_all (env_bytes E)" "legal_rest out" "length out \<le> 511" "\<forall>k. env_sends E k = [int (length out + 2)]"
    and "vector_wf (clients s)"
    and "\<forall>a \<in> set (vector_items (clients s)). \<exists>c. store s a = Some c \<and> (bDisconnected c \<or> \<not> b_mccp2 (opts (tel_stream c)))"
  shows "\<exists>b. Server_SendAllClients E out s =
    Returns (s\<lparr>events := events s @ notices (out @ [0, b]) (vector_items (clients s)) s\<rparr>)"
proof -
  obtain b where b: "\<forall>Z fuel ws (c :: ('a, 'b) client). (bDisconnected c \<longrightarrow> Client_Sendf (env_bytes E) Z fuel ws c out = (Returns (-1), [], c)) \<and>
      (\<not> bDisconnected c \<longrightarrow> \<not> b_mccp2 (opts (tel_stream c)) \<longrightarrow> ws = [int (length out + 2)] \<longrightarrow>
        Client_Sendf (env_bytes E) Z fuel ws c out = (Returns (int (length out + 2)), out @ [0, b], c))"
    using Sendf_plain[OF assms(1-3)] by blast
  have n: "Vector_Count (clients s) = length (vector_items (clients s))"
    using assms(5) by (auto simp: Vector_Count_def vector_items_def vector_wf_def)
  show ?thesis
    unfolding Server_SendAllClients_def n
    by (rule exI[of _ b], rule send_all_loop_ok[OF b assms(4,5) _ assms(6)]) simp
qed

section \<open>What is left in the pipe\<close>

definition pipe_kept :: "byte list \<Rightarrow> ('z, 'f) host \<Rightarrow> bool" where
  "pipe_kept bs h \<longleftrightarrow> cmd_pipe (srv h) = bs"

lemma sendf_pipe: "if_returns (\<lambda>(r, s'). cmd_pipe s' = cmd_pipe s) (server_sendf E a out s)"
  by (simp add: server_sendf_def send_to_def put_client_def log_event_def split: prod.split)
     (simp add: if_returns_def split: outcome.split)

lemma SendAll_pipe: "cmd_pipe s = bs \<Longrightarrow> if_returns (\<lambda>s'. cmd_pipe s' = bs) (Server_SendAllClients E out s)"
proof -
  have "cmd_pipe s = bs \<Longrightarrow> if_returns (\<lambda>s'. cmd_pipe s' = bs) (send_all_loop E out idx n s)" for idx n s
  proof (induction n arbitrary: idx s)
    case (Suc n)
    have "if_returns (\<lambda>s'. cmd_pipe s' = bs) (bind_outcome (server_sendf E a out s) (\<lambda>(_, s). send_all_loop E out (Suc idx) n s))" for a
      by (rule bind_if_returns[OF sendf_pipe]) (use Suc in auto)
    then show ?case by (auto simp del: if_returns_simps(4) intro!: if_returns_any split: option.split)
  qed simp
  then show "cmd_pipe s = bs \<Longrightarrow> if_returns (\<lambda>s'. cmd_pipe s' = bs) (Server_SendAllClients E out s)"
    unfolding Server_SendAllClients_def by blast
qed

lemma each_client_pipe:
  assumes "\<And>a s. cmd_pipe s = bs \<Longrightarrow> if_returns (\<lambda>s'. cmd_pipe s' = bs) (f a s)"
  shows "cmd_pipe s = bs \<Longrightarrow> if_returns (\<lambda>s'. cmd_pipe s' = bs) (each_client f idx n s)"
proof (induction n arbitrary: idx s)
  case (Suc n)
  have "if_returns (\<lambda>s'. cmd_pipe s' = bs) (bind_outcome (f a s) (\<lambda>s. each_client f (Suc idx) n s))" for a
    by (rule bind_if_returns[OF assms]) (use Suc in auto)
  then show ?case by (auto simp del: if_returns_simps(4) intro!: if_returns_any split: option.split)
qed simp

lemma on_server_pipe:
  "(\<And>s. cmd_pipe s = bs \<Longrightarrow> if_returns (\<lambda>s'. cmd_pipe s' = bs) (f s)) \<Longrightarrow> pipe_kept bs h \<Longrightarrow> if_returns (pipe_kept bs) (on_server f h)"
  unfolding on_server_def pipe_kept_def by (rule bind_if_returns) auto

lemma reload_stop_pipe: "pipe_kept bs h \<Longrightarrow> if_returns (pipe_kept bs) (reload_stop E h)"
proof -
  assume h: "pipe_kept bs h"
  have 1: "if_returns (pipe_kept bs) (Server_StopThreads E h)"
    using h by (auto simp: Server_StopThreads_def destroy_threads_def stop_tick_def destroy_mem_pool_def pipe_kept_def)
  have 2: "if_returns (pipe_kept bs) (on_server (\<lambda>s. each_client release_player 0 (Vector_Count (clients s)) s) h1)" if "pipe_kept bs h1"
      for h1 :: "('a, 'b) host"
    by (rule on_server_pipe[OF _ that], rule each_client_pipe) (auto simp: release_player_def put_client_def)
  have 3: "if_returns (pipe_kept bs) (bind_outcome (Server_UnloadGame h1) (\<lambda>h. Server_StopScriptEngine (Server_FreeConfiguration h)))"
    if "pipe_kept bs h1" for h1 :: "('a, 'b) host"
    using that by (cases "MOTD_block h1")
      (simp_all add: Server_UnloadGame_def Server_FreeMOTD_def Server_StopScriptEngine_def Server_FreeConfiguration_def pipe_kept_def)
  show ?thesis
    unfolding reload_stop_def by (rule bind_if_returns[OF 1], rule bind_if_returns[OF 2], assumption, rule 3)
qed

lemma Reload_pipe:
  fixes E :: "('z, 'f, 'd) platform" and h :: "('z, 'f) host"
  assumes sc: "\<forall>k s. cmd_pipe (env_script E k s) = cmd_pipe s" and h: "pipe_kept bs h"
  shows "if_returns (\<lambda>(r, h'). pipe_kept bs h') (Server_Reload E B h)"
proof (rule reload_rule[where Q = "pipe_kept bs" and R = "pipe_kept bs", OF reload_stop_pipe[OF h]])
  fix h1 :: "('z, 'f) host" assume h1: "pipe_kept bs h1"
  show "if_returns (\<lambda>(r, h'). pipe_kept bs h') (give_up_reload h1)"
    using h1 by (cases "MOTD_block h1")
      (simp_all add: give_up_reload_def Server_UnloadGame_def Server_FreeMOTD_def Server_StopScriptEngine_def Server_FreeConfiguration_def
        pipe_kept_def)
  show "if_returns (\<lambda>(r, h'). pipe_kept bs h') (Server_LoadGame E B h1)"
    using h1 by (auto simp: Server_LoadGame_def Server_LoadMOTD_def pipe_kept_def split: option.split)
  show "if_returns (\<lambda>(r, h'). if r < 0 then (case (-1 :: int, h') of (r, h') \<Rightarrow> pipe_kept bs h') else pipe_kept bs h')
      (Server_InitializeThreads E B h1)"
    using h1 by (auto simp: Server_InitializeThreads_def TickThread_Init_def Let_def pipe_kept_def)
  have "if_returns (pipe_kept bs) (connect_all E h1)"
    unfolding connect_all_def by (rule on_server_pipe[OF each_client_pipe h1]) (use sc in \<open>auto simp: call_script_def log_event_def\<close>)
  then show "if_returns (\<lambda>h'. case (0 :: int, h') of (r, h') \<Rightarrow> pipe_kept bs h') (connect_all E h1)" by (simp add: if_returns_def split: outcome.split)
qed (simp_all add: pipe_kept_def)

section \<open>Properties\<close>

text \<open>A read of the pipe that fails or gives nothing makes the main thread write outside its buffer.\<close>

lemma pipe_read_failure_faults:
  "handle_command E B True h = Faults" "cmd_pipe (srv h) = [] \<Longrightarrow> handle_command E B False h = Faults"
proof -
  have "sz_sub (2 ^ 64 - 1) 1 = 2 ^ 64 - 2" "sz_sub 0 1 = 2 ^ 64 - 1" by (simp_all add: sz_sub_def sz_def)
  then show "handle_command E B True h = Faults" "cmd_pipe (srv h) = [] \<Longrightarrow> handle_command E B False h = Faults"
    by (simp_all add: handle_command_def read_command_def Let_def copy_cells_def wr_def)
qed

lemma read_command_ok:
  assumes "cmd_pipe s \<noteq> []"
  shows "\<exists>buf. read_command False s = Some (buf, s\<lparr>cmd_pipe := drop 256 (cmd_pipe s)\<rparr>) \<and>
    buf = (take 256 (cmd_pipe s) @ replicate (256 - length (cmd_pipe s)) 0)[min 256 (length (cmd_pipe s)) - 1 := 0]"
proof -
  have c: "copy_cells (replicate 256 0) 0 (take 256 (cmd_pipe s)) = Some (take 256 (cmd_pipe s) @ replicate (256 - length (cmd_pipe s)) 0)"
    by (cases "length (cmd_pipe s) \<le> 256") (simp_all add: mem_simps)
  have "0 < length (cmd_pipe s)" using assms by simp
  then have "sz_sub (length (take 256 (cmd_pipe s))) 1 = min 256 (length (cmd_pipe s)) - 1"
    by (subst sz_sub_le) (auto simp: min_def Suc_le_eq)
  moreover have "min 256 (length (cmd_pipe s)) - 1 < length (take 256 (cmd_pipe s) @ replicate (256 - length (cmd_pipe s)) 0)"
    by auto
  ultimately show ?thesis
    using c by (simp add: read_command_def Let_def wr_in)
qed

lemma same_prefix_same:
  "i + n \<le> length xs \<Longrightarrow> i + n \<le> length ys \<Longrightarrow> take n (drop i xs) = take n (drop i ys) \<Longrightarrow> same_prefix n xs ys i = Some True"
proof (induction n arbitrary: i)
  case (Suc n)
  have "xs ! i = ys ! i" "take n (drop (Suc i) xs) = take n (drop (Suc i) ys)"
    using Suc.prems by (simp_all add: Cons_nth_drop_Suc[symmetric])
  then show ?case using Suc.IH[of "Suc i"] Suc.prems by (simp add: rd_in)
qed simp

lemma same_prefix_differ:
  "xs \<noteq> [] \<Longrightarrow> ys \<noteq> [] \<Longrightarrow> hd xs \<noteq> hd ys \<Longrightarrow> same_prefix (Suc n) xs ys 0 = Some False"
  by (simp add: rd_def hd_conv_nth)

text \<open>The command at the front of the pipe decides; what else one read takes is dropped.\<close>

lemma command_buffer:
  assumes "take (length cmd) (cmd_pipe s) = cmd" "cmd = ws @ [0]" "ws \<noteq> []" "length ws < 256"
  obtains buf where "read_command False s = Some (buf, s\<lparr>cmd_pipe := drop 256 (cmd_pipe s)\<rparr>)" "take (length ws) buf = ws"
    "length buf = 256"
proof -
  let ?p = "cmd_pipe s"
  obtain rest where p: "?p = cmd @ rest" using assms(1) by (metis append_take_drop_id)
  then have ne: "?p \<noteq> []" and l: "length ws + 1 \<le> length ?p" using assms(2) by auto
  obtain buf where buf: "read_command False s = Some (buf, s\<lparr>cmd_pipe := drop 256 ?p\<rparr>)"
    "buf = (take 256 ?p @ replicate (256 - length ?p) 0)[min 256 (length ?p) - 1 := 0]"
    using read_command_ok[OF ne] by blast
  have "take (length ws) buf = take (length ws) (take 256 ?p @ replicate (256 - length ?p) 0)"
    unfolding buf(2) by (rule take_update_cancel) (use l assms(4) in auto)
  also have "\<dots> = ws" using assms(2,4) p by simp
  finally show thesis using that buf by simp
qed

lemma kill_bytes: "kill_command = [107, 105, 108, 108] @ [0]"
  by (simp add: kill_command_def bytes_of_def)

lemma reload_bytes: "reload_command = [114, 101, 108, 111, 97, 100] @ [0]"
  by (simp add: reload_command_def bytes_of_def)

lemma handle_kill:
  assumes "take 5 (cmd_pipe (srv h)) = kill_command"
  shows "handle_command E B False h = bind_outcome (on_server (Server_SendAllClients E kill_notice)
      (h\<lparr>srv := (srv h)\<lparr>cmd_pipe := drop 256 (cmd_pipe (srv h))\<rparr>\<rparr>)) (\<lambda>h. Returns (Stop_loop, h))"
proof -
  have l: "length kill_command = 5" by (simp add: kill_bytes)
  have "take (length kill_command) (cmd_pipe (srv h)) = kill_command" unfolding l by (rule assms)
  then obtain buf where buf: "read_command False (srv h) = Some (buf, (srv h)\<lparr>cmd_pipe := drop 256 (cmd_pipe (srv h))\<rparr>)"
    "take 4 buf = [107, 105, 108, 108]" "length buf = 256"
    by (rule command_buffer[OF _ kill_bytes]) (auto simp: eval_nat_numeral)
  have "same_prefix 4 buf kill_command 0 = Some True" by (rule same_prefix_same) (use buf in \<open>simp_all add: kill_bytes\<close>)
  then show ?thesis using buf(1) by (simp add: handle_command_def Let_def)
qed

lemma handle_reload:
  assumes "take 7 (cmd_pipe (srv h)) = reload_command"
  shows "handle_command E B False h = bind_outcome (on_server (Server_SendAllClients E reload_notice)
      (h\<lparr>srv := (srv h)\<lparr>cmd_pipe := drop 256 (cmd_pipe (srv h))\<rparr>\<rparr>)) (\<lambda>h.
     bind_outcome (Server_Reload E B h) (\<lambda>(r, h).
       if r < 0 then Returns (Leave_main, h)
       else bind_outcome (on_server (Server_SendAllClients E reloaded_notice) h) (\<lambda>h. Returns (Go_on, h))))"
proof -
  have l: "length reload_command = 7" by (simp add: reload_bytes)
  have "take (length reload_command) (cmd_pipe (srv h)) = reload_command" unfolding l by (rule assms)
  then obtain buf where buf: "read_command False (srv h) = Some (buf, (srv h)\<lparr>cmd_pipe := drop 256 (cmd_pipe (srv h))\<rparr>)"
    "take 6 buf = [114, 101, 108, 111, 97, 100]" "length buf = 256"
    by (rule command_buffer[OF _ reload_bytes]) (auto simp: eval_nat_numeral)
  have "same_prefix 6 buf reload_command 0 = Some True" by (rule same_prefix_same) (use buf in \<open>simp_all add: reload_bytes\<close>)
  moreover have "same_prefix 4 buf kill_command 0 = Some False"
  proof -
    have "buf \<noteq> []" using buf(3) by auto
    moreover have "hd buf = 114" using buf(2) by (cases buf) auto
    ultimately show ?thesis using same_prefix_differ[of buf kill_command 3] by (simp add: kill_bytes)
  qed
  ultimately show ?thesis using buf(1) by (simp add: handle_command_def Let_def)
qed

text \<open>C34: a message to all clients reaches every connected client once, in the order of the vector, when compression is
  off and the kernel takes it whole: the text followed by a zero byte and one more byte. Disconnected clients are
  skipped and nothing else changes.\<close>

theorem Server_SendAllClients_reaches_all:
  assumes "grants_all (env_bytes E)" "legal_rest out" "length out \<le> 511" "\<forall>k. env_sends E k = [int (length out + 2)]"
    and "vector_wf (clients s)"
    and "\<forall>a \<in> set (vector_items (clients s)). \<exists>c. store s a = Some c \<and> (bDisconnected c \<or> \<not> b_mccp2 (opts (tel_stream c)))"
  shows "\<exists>b. Server_SendAllClients E out s = Returns (s\<lparr>events := events s @
    map (\<lambda>a. Ev_send (sock (the (store s a))) (out @ [0, b])) (filter (\<lambda>a. \<not> bDisconnected (the (store s a))) (vector_items (clients s)))\<rparr>)"
  using SendAllClients_ok[OF assms] unfolding notices_def .

text \<open>C20: a kill command that reaches the main thread first ends it in order: every connected client is told once, the loop
  stops, and the events left in the batch and all later batches are not handled.\<close>

theorem kill_ends_the_loop:
  assumes "take 5 (cmd_pipe (srv h)) = kill_command"
    and "grants_all (env_bytes E)" "\<forall>k. env_sends E k = [24]" "vector_wf (clients (srv h))"
    and "\<forall>a \<in> set (vector_items (clients (srv h))). \<exists>c. store (srv h) a = Some c \<and> (bDisconnected c \<or> \<not> b_mccp2 (opts (tel_stream c)))"
  shows "\<exists>b. mud_loop E B ((Ready_pipe False # evs) # batches) h =
    Returns (Stop_loop, h\<lparr>srv := (srv h)\<lparr>cmd_pipe := drop 256 (cmd_pipe (srv h)),
      events := events (srv h) @ notices (kill_notice @ [0, b]) (vector_items (clients (srv h))) (srv h)\<rparr>\<rparr>)"
proof -
  let ?s = "(srv h)\<lparr>cmd_pipe := drop 256 (cmd_pipe (srv h))\<rparr>"
  have n: "legal_rest kill_notice" "length kill_notice = 22"
    by (simp_all add: legal_rest_def kill_notice_def bytes_of_def) (rule exI[of _ "[]"], simp add: kill_notice_def bytes_of_def)
  obtain b where b: "Server_SendAllClients E kill_notice ?s =
      Returns (?s\<lparr>events := events ?s @ notices (kill_notice @ [0, b]) (vector_items (clients ?s)) ?s\<rparr>)"
    using SendAllClients_ok[OF assms(2) n(1), of ?s] n(2) assms(3-5) by auto
  have "notices (kill_notice @ [0, b]) (vector_items (clients ?s)) ?s = notices (kill_notice @ [0, b]) (vector_items (clients (srv h))) (srv h)"
    by (simp add: notices_def)
  then show ?thesis
    using b by (intro exI[of _ b]) (simp add: handle_event_def handle_kill[OF assms(1)] on_server_def)
qed

text \<open>a kill written to the pipe after a reload that the main thread has not read yet is lost: both commands come in one
  read, only the first is looked at, the loop goes on and the pipe is empty.\<close>

theorem reload_swallows_kill:
  assumes "cmd_pipe (srv h) = []" "\<forall>k s. cmd_pipe (env_script E k s) = cmd_pipe s"
    and "bind_outcome (Server_WriteToCmdPipe reload_command 7 (srv h)) (Server_WriteToCmdPipe kill_command 5) = Returns s"
    and "handle_event E B (Ready_pipe False) (h\<lparr>srv := s\<rparr>) = Returns (st, h')"
  shows "st \<noteq> Stop_loop \<and> cmd_pipe (srv h') = []"
proof -
  have s: "s = (srv h)\<lparr>cmd_pipe := reload_command @ kill_command\<rparr>"
    using assms(1,3) by (auto simp: Server_WriteToCmdPipe_def reload_bytes kill_bytes read_cells_def)
  let ?P = "\<lambda>(st, h'). st \<noteq> Stop_loop \<and> cmd_pipe (srv h') = []"
  have snd: "if_returns (pipe_kept []) (on_server (Server_SendAllClients E out) h1)" if "pipe_kept [] h1" for out and h1 :: "('a, 'b) host"
    by (rule on_server_pipe[OF SendAll_pipe that])
  have fin: "if_returns ?P (bind_outcome (on_server (Server_SendAllClients E out) h1) (\<lambda>h. Returns (Go_on, h)))"
    if "pipe_kept [] h1" for out and h1 :: "('a, 'b) host"
    by (rule bind_if_returns[OF snd[OF that]]) (simp add: pipe_kept_def)
  have "if_returns ?P (handle_command E B False (h\<lparr>srv := s\<rparr>))"
  proof -
    have k: "pipe_kept [] ((h\<lparr>srv := s\<rparr>)\<lparr>srv := (srv (h\<lparr>srv := s\<rparr>))\<lparr>cmd_pipe := drop 256 (cmd_pipe (srv (h\<lparr>srv := s\<rparr>)))\<rparr>\<rparr>)"
      by (simp add: pipe_kept_def s reload_bytes kill_bytes)
    have t: "take 7 (cmd_pipe (srv (h\<lparr>srv := s\<rparr>))) = reload_command" by (simp add: s reload_bytes)
    show ?thesis
      unfolding handle_reload[OF t]
    proof (rule bind_if_returns[OF snd[OF k]], rule bind_if_returns[OF Reload_pipe[OF assms(2)]], assumption)
      fix v :: "int \<times> ('a, 'b) host" assume v: "case v of (r, h') \<Rightarrow> pipe_kept [] h'"
      then show "if_returns ?P (case v of (r, h) \<Rightarrow> if r < 0 then Returns (Leave_main, h)
          else bind_outcome (on_server (Server_SendAllClients E reloaded_notice) h) (\<lambda>h. Returns (Go_on, h)))"
        using fin by (cases v) (auto simp del: if_returns_simps(4) simp: pipe_kept_def)
    qed
  qed
  then show ?thesis using assms(4) by (simp add: handle_event_def)
qed

section \<open>Instances\<close>

definition demo_clients :: "nat list \<Rightarrow> (nat, int) server" where
  "demo_clients as = demo_server as (\<lambda>a. if a \<in> set as then Some (demo_client 5) else None) Map.empty (MemoryPool_Init 32)"

lemma demo_clients_ok:
  "vector_wf (clients (demo_clients as))" "vector_items (clients (demo_clients as)) = as"
  "store (demo_clients as) = (\<lambda>a. if a \<in> set as then Some (demo_client 5) else None)" "events (demo_clients as) = []"
  "cmd_pipe (demo_clients as) = []"
  if "length as < 2 ^ 50"
  using that by (simp_all add: demo_clients_def demo_server_def vector_wf_def vector_items_def)

lemma demo_client_plain: "\<not> bDisconnected (demo_client 5)" "\<not> b_mccp2 (opts (tel_stream (demo_client 5)))" "sock (demo_client 5) = 5"
  by (simp_all add: demo_client_def fresh_stream_def fresh_options_def zero_options_def)

theorem Server_SendAllClients_reaches_all_witness:
  "\<exists>b s. Server_SendAllClients (demo_env\<lparr>env_sends := \<lambda>_. [4]\<rparr>) [72, 105] (demo_clients [7, 8]) = Returns s \<and>
    events s = [Ev_send 5 [72, 105, 0, b], Ev_send 5 [72, 105, 0, b]]"
proof -
  have "grants_all (env_bytes (demo_env\<lparr>env_sends := \<lambda>_. [4]\<rparr>))" by (simp add: demo_env_def byte_mgr_grants)
  moreover have "legal_rest [72, 105]" unfolding legal_rest_def by (intro conjI exI[of _ "[72, 105]"] exI[of _ "[]"]) auto
  ultimately show ?thesis
    using Server_SendAllClients_reaches_all[of "demo_env\<lparr>env_sends := \<lambda>_. [4]\<rparr>" "[72, 105]" "demo_clients [7, 8]"]
      demo_clients_ok[of "[7, 8]"] demo_client_plain by auto
qed

theorem kill_ends_the_loop_witness:
  "\<exists>b h'. mud_loop (demo_env\<lparr>env_sends := \<lambda>_. [24]\<rparr>) demo_boot ((Ready_pipe False # [Ready_pipe True]) # [])
      ((demo_host demo_queue)\<lparr>srv := (demo_clients [7])\<lparr>cmd_pipe := kill_command\<rparr>\<rparr>) = Returns (Stop_loop, h') \<and>
    events (srv h') = [Ev_send 5 (kill_notice @ [0, b])]"
proof -
  let ?h = "(demo_host demo_queue)\<lparr>srv := (demo_clients [7])\<lparr>cmd_pipe := kill_command\<rparr>\<rparr>"
  have "grants_all (env_bytes (demo_env\<lparr>env_sends := \<lambda>_. [24]\<rparr>))" by (simp add: demo_env_def byte_mgr_grants)
  moreover have "take 5 (cmd_pipe (srv ?h)) = kill_command" by (simp add: kill_bytes)
  ultimately show ?thesis
    using kill_ends_the_loop[of ?h "demo_env\<lparr>env_sends := \<lambda>_. [24]\<rparr>" demo_boot "[Ready_pipe True]" "[]"]
      demo_clients_ok[of "[7]"] demo_client_plain by (auto simp: notices_def)
qed

lemma reload_then_kill_returns:
  "\<exists>s h'. bind_outcome (Server_WriteToCmdPipe reload_command 7 (srv ((demo_host q)\<lparr>srv := (demo_clients [])\<lparr>thread_pool := zero_thread_pool\<rparr>\<rparr>)))
      (Server_WriteToCmdPipe kill_command 5) = Returns s \<and>
    handle_event demo_env demo_boot (Ready_pipe False)
      (((demo_host q)\<lparr>srv := (demo_clients [])\<lparr>thread_pool := zero_thread_pool\<rparr>\<rparr>)\<lparr>srv := s\<rparr>) = Returns (Go_on, h')"
proof -
  let ?h = "(demo_host q)\<lparr>srv := (demo_clients [])\<lparr>thread_pool := zero_thread_pool\<rparr>\<rparr>"
  define s where "s = (srv ?h)\<lparr>cmd_pipe := reload_command @ kill_command\<rparr>"
  define h0 where "h0 = (demo_host q)\<lparr>srv := s\<rparr>"
  have h0: "?h\<lparr>srv := s\<rparr> = h0" by (simp add: h0_def)
  define h1 where "h1 = h0\<lparr>srv := s\<lparr>cmd_pipe := drop 256 (cmd_pipe s)\<rparr>\<rparr>"
  note v = demo_clients_ok[of "[]"]
  have cl: "clients (srv h1) = clients (demo_clients [])" "store (srv h1) = store (demo_clients [])"
    by (simp_all add: h1_def h0_def s_def)
  have n: "Vector_Count (clients (demo_clients [])) = 0" by (simp add: Vector_Count_def demo_clients_def demo_server_def)
  have none: "Server_SendAllClients demo_env out s' = Returns s'" if "clients s' = clients (demo_clients [])" for out s'
    using that n by (simp add: Server_SendAllClients_def)
  have q: "quiet h1" "engine_up h1" "MOTD_block h1 \<noteq> Dangling"
    by (simp_all add: h1_def h0_def s_def demo_host_def zero_host_def quiet_def zero_thread_pool_def demo_clients_def demo_server_def MemoryPool_Init_def)
  have id: "\<forall>k s. clients (env_script demo_env k s) = clients s" by (simp add: demo_env_def)
  obtain h2 where h2: "Server_Reload demo_env demo_boot h1 = Returns (0, h2)" "clients (srv h2) = clients (srv h1)"
    using reload_ok[OF demo_roomy(1) demo_succeeds(2) id q] v by (auto simp: cl)
  have sv: "srv h0 = s" by (simp add: h0_def)
  have t: "take 7 (cmd_pipe (srv h0)) = reload_command" by (simp add: h0_def s_def reload_bytes)
  have "handle_event demo_env demo_boot (Ready_pipe False) h0 = Returns (Go_on, h2)"
    using none[of "srv h1"] none[of "srv h2"] h2 cl
    by (simp add: handle_event_def handle_reload[OF t] sv h1_def[symmetric] on_server_def)
  moreover have "bind_outcome (Server_WriteToCmdPipe reload_command 7 (srv ?h)) (Server_WriteToCmdPipe kill_command 5) = Returns s"
    using v(5) by (simp add: s_def Server_WriteToCmdPipe_def reload_bytes kill_bytes read_cells_def)
  ultimately show ?thesis by (intro exI[of _ s] exI[of _ h2]) (simp add: h0_def)
qed

theorem reload_swallows_kill_witness:
  "\<exists>s h'. cmd_pipe s = reload_command @ kill_command \<and>
     handle_event demo_env demo_boot (Ready_pipe False) ((demo_host demo_queue)\<lparr>srv := s\<rparr>) = Returns (Go_on, h') \<and> cmd_pipe (srv h') = []"
proof -
  let ?h = "(demo_host demo_queue)\<lparr>srv := (demo_clients [])\<lparr>thread_pool := zero_thread_pool\<rparr>\<rparr>"
  obtain s h' where r: "bind_outcome (Server_WriteToCmdPipe reload_command 7 (srv ?h)) (Server_WriteToCmdPipe kill_command 5) = Returns s"
      "handle_event demo_env demo_boot (Ready_pipe False) (?h\<lparr>srv := s\<rparr>) = Returns (Go_on, h')"
    using reload_then_kill_returns by blast
  have "cmd_pipe (srv ?h) = []" "\<forall>k s. cmd_pipe (env_script demo_env k s) = cmd_pipe s"
    using demo_clients_ok(5)[of "[]"] by (simp_all add: demo_env_def)
  from reload_swallows_kill[OF this r] have "cmd_pipe (srv h') = []" by simp
  moreover have "cmd_pipe s = reload_command @ kill_command"
    using r(1) demo_clients_ok(5)[of "[]"] by (auto simp: Server_WriteToCmdPipe_def reload_bytes kill_bytes read_cells_def)
  ultimately show ?thesis using r(2) by (intro exI[of _ s] exI[of _ h']) simp
qed

end
