(* ===== verification/Lexer.thy ===== *)
theory Lexer
  imports TextUtil CmdTagLexer
begin

text \<open>
  lexer.cpp, which is C with an \<open>extern "C"\<close> interface, and the wrapper classes of commandlexer.cpp: splitting a
  line of input into words at spaces and newlines, and cutting out subcommands between marker characters. The
  arrays of the result hold pointers (\<open>None\<close> is null); \<open>lex_mem\<close> is the allocator for each element type.
  \<open>None\<close> as the result of an operation is undefined behaviour.
\<close>

section \<open>The records\<close>

type_synonym c_str = "byte list option"

record sub_command_index =
  sc_index :: nat
  sc_length :: nat

record lexer =
  subcmdmarkers :: "c_str list option"
  subcmdmarker_length :: nat
  subcmdmarker_reserved :: nat

record lexer_result =
  lr_bFilled :: bool
  lr_tokens :: "c_str list option"
  lr_token_count :: nat
  lr_token_reserved :: nat
  lr_token_starts :: "nat list option"
  lr_orig_str :: c_str
  lr_subcommands :: "c_str list option"
  lr_subcmd_length :: nat
  lr_subcmd_reserved :: nat

record lex_mem =
  lm_bytes :: "byte mem_mgr"
  lm_ptrs :: "c_str mem_mgr"
  lm_sizes :: "nat mem_mgr"
  lm_indices :: "sub_command_index mem_mgr"

definition sizeof_index :: nat where
  "sizeof_index = 16"

definition zero_index :: sub_command_index where
  "zero_index = \<lparr>sc_index = 0, sc_length = 0\<rparr>"

section \<open>The operations\<close>

definition Lexer_Prepare :: "lex_mem \<Rightarrow> lexer option" where
  "Lexer_Prepare M = do {
     markers \<leftarrow> fill_cells (cells (malloc_cells (lm_ptrs M) sizeof_ptr (4 * sizeof_ptr))) 0 4 None;
     Some \<lparr>subcmdmarkers = Some markers, subcmdmarker_length = 0, subcmdmarker_reserved = 4\<rparr>
   }"

definition Lexer_Destroy :: "lexer \<Rightarrow> lexer option" where
  "Lexer_Destroy lx = do {
     _ \<leftarrow> read_cells (cells (subcmdmarkers lx)) 0 (subcmdmarker_length lx);
     Some (lx\<lparr>subcmdmarkers := None\<rparr>)
   }"

definition LexerResult_Prepare :: "lex_mem \<Rightarrow> lexer_result option" where
  "LexerResult_Prepare M = do {
     toks \<leftarrow> fill_cells (cells (malloc_cells (lm_ptrs M) sizeof_ptr (sizeof_ptr * 2))) 0 2 None;
     starts \<leftarrow> fill_cells (cells (malloc_cells (lm_sizes M) 8 (8 * 2))) 0 2 0;
     Some \<lparr>lr_bFilled = False, lr_tokens = Some toks, lr_token_count = 0, lr_token_reserved = 2,
           lr_token_starts = Some starts, lr_orig_str = None, lr_subcommands = None,
           lr_subcmd_length = 0, lr_subcmd_reserved = 4\<rparr>
   }"

definition LexerResult_AddToken ::
    "lex_mem \<Rightarrow> lexer_result \<Rightarrow> nat \<Rightarrow> byte list \<Rightarrow> nat \<Rightarrow> lexer_result option" where
  "LexerResult_AddToken M lr start token tokenlen = do {
     let lr = (if lr_token_count lr \<ge> lr_token_reserved lr
               then let reserved = sz (2 * lr_token_reserved lr) in
                 lr\<lparr>lr_token_reserved := reserved,
                    lr_tokens := realloc_cells (lm_ptrs M) sizeof_ptr (lr_tokens lr) (sz (sizeof_ptr * reserved)),
                    lr_token_starts := realloc_cells (lm_sizes M) 8 (lr_token_starts lr) (sz (8 * reserved))\<rparr>
               else lr);
     block \<leftarrow> c_strncpy (cells (malloc_cells (lm_bytes M) 1 (sz (tokenlen + 1)))) token (sz (tokenlen + 1));
     toks \<leftarrow> wr (cells (lr_tokens lr)) (lr_token_count lr) (Some block);
     starts \<leftarrow> wr (cells (lr_token_starts lr)) (lr_token_count lr) start;
     Some (lr\<lparr>lr_tokens := Some toks, lr_token_starts := Some starts, lr_token_count := sz (lr_token_count lr + 1)\<rparr>)
   }"

text \<open>Freeing the blocks of \<open>n\<close> cells from \<open>idx\<close> and clearing the cells.\<close>

fun release_blocks :: "nat \<Rightarrow> nat \<Rightarrow> c_str list \<Rightarrow> c_str list option" where
  "release_blocks idx 0 ps = Some ps"
| "release_blocks idx (Suc n) ps = do { _ \<leftarrow> rd ps idx; ps \<leftarrow> wr ps idx None; release_blocks (Suc idx) n ps }"

definition LexerResult_Clear :: "lexer_result \<Rightarrow> lexer_result option" where
  "LexerResult_Clear lr = do {
     toks \<leftarrow> release_blocks 0 (lr_token_count lr) (cells (lr_tokens lr));
     toks \<leftarrow> fill_cells toks 0 (lr_token_reserved lr) None;
     starts \<leftarrow> fill_cells (cells (lr_token_starts lr)) 0 (lr_token_reserved lr) 0;
     subs \<leftarrow> release_blocks 0 (lr_subcmd_length lr) (cells (lr_subcommands lr));
     Some (lr\<lparr>lr_bFilled := False, lr_tokens := Some toks, lr_token_count := 0, lr_token_starts := Some starts,
              lr_orig_str := None, lr_subcommands := map_option (\<lambda>_. subs) (lr_subcommands lr),
              lr_subcmd_length := 0\<rparr>)
   }"

definition LexerResult_Destroy :: "lexer_result \<Rightarrow> lexer_result option" where
  "LexerResult_Destroy lr = do {
     _ \<leftarrow> release_blocks 0 (lr_token_count lr) (cells (lr_tokens lr));
     _ \<leftarrow> read_cells (cells (lr_subcommands lr)) 0 (lr_subcmd_length lr);
     Some (lr\<lparr>lr_tokens := None, lr_token_starts := None, lr_orig_str := None, lr_subcommands := None\<rparr>)
   }"

definition Lexer_AddSubcommandMarkers :: "lex_mem \<Rightarrow> lexer \<Rightarrow> byte \<Rightarrow> byte \<Rightarrow> lexer option" where
  "Lexer_AddSubcommandMarkers M lx left right = do {
     let lx = (if subcmdmarker_length lx \<ge> subcmdmarker_reserved lx
               then let reserved = sz (2 * subcmdmarker_reserved lx) in
                 lx\<lparr>subcmdmarker_reserved := reserved,
                    subcmdmarkers := realloc_cells (lm_ptrs M) sizeof_ptr (subcmdmarkers lx) (sz (sizeof_ptr * reserved))\<rparr>
               else lx);
     pair \<leftarrow> wr (cells (malloc_cells (lm_bytes M) 1 2)) 0 left;
     pair \<leftarrow> wr pair 1 right;
     markers \<leftarrow> wr (cells (subcmdmarkers lx)) (subcmdmarker_length lx) (Some pair);
     Some (lx\<lparr>subcmdmarkers := Some markers, subcmdmarker_length := sz (subcmdmarker_length lx + 1)\<rparr>)
   }"

definition LexerResult_GetTokenCount :: "lexer_result \<Rightarrow> nat" where
  "LexerResult_GetTokenCount lr = lr_token_count lr"

text \<open>\<open>Some None\<close> is the null pointer.\<close>

definition LexerResult_GetTokenAt :: "lexer_result \<Rightarrow> nat \<Rightarrow> c_str option" where
  "LexerResult_GetTokenAt lr idx =
     (if idx \<ge> lr_token_count lr then Some None else rd (cells (lr_tokens lr)) idx)"

definition LexerResult_GetStringAfterToken :: "lexer_result \<Rightarrow> nat \<Rightarrow> byte list option" where
  "LexerResult_GetStringAfterToken lr token = do {
     start \<leftarrow> rd (cells (lr_token_starts lr)) token;
     str \<leftarrow> lr_orig_str lr;
     if start \<le> length str then Some (drop start str) else None
   }"

definition LexerResult_GetSubcommandCount :: "lexer_result \<Rightarrow> nat" where
  "LexerResult_GetSubcommandCount lr = lr_subcmd_length lr"

definition LexerResult_GetSubcommandAt :: "lexer_result \<Rightarrow> nat \<Rightarrow> c_str option" where
  "LexerResult_GetSubcommandAt lr idx = rd (cells (lr_subcommands lr)) idx"

section \<open>Subcommands\<close>

definition SubCommandIndexCmp :: "sub_command_index \<Rightarrow> sub_command_index \<Rightarrow> int" where
  "SubCommandIndexCmp a b = to_int32 (sz_sub (sc_index a) (sc_index b))"

text \<open>\<open>qsort\<close>, as the insertion into a sorted array; elements that compare equal keep their order.\<close>

fun c_insert :: "('e \<Rightarrow> 'e \<Rightarrow> int) \<Rightarrow> 'e \<Rightarrow> 'e list \<Rightarrow> 'e list" where
  "c_insert cmp x [] = [x]"
| "c_insert cmp x (y # ys) = (if cmp x y \<le> 0 then x # y # ys else y # c_insert cmp x ys)"

definition c_qsort :: "('e \<Rightarrow> 'e \<Rightarrow> int) \<Rightarrow> 'e list \<Rightarrow> 'e list" where
  "c_qsort cmp xs = foldr (c_insert cmp) xs []"

definition add_subcommand ::
    "lex_mem \<Rightarrow> byte list \<Rightarrow> nat \<Rightarrow> nat \<Rightarrow> lexer_result \<times> sub_command_index list option
     \<Rightarrow> (lexer_result \<times> sub_command_index list option) option" where
  "add_subcommand M str start stop = (\<lambda>(lr, inds). do {
     let (lr, inds) =
       (if lr_subcmd_length lr \<ge> lr_subcmd_reserved lr
        then let reserved = sz (2 * lr_subcmd_reserved lr) in
          (lr\<lparr>lr_subcmd_reserved := reserved,
              lr_subcommands := realloc_cells (lm_ptrs M) sizeof_ptr (lr_subcommands lr) (sz (sizeof_ptr * reserved))\<rparr>,
           realloc_cells (lm_indices M) sizeof_index inds (sz (sizeof_index * reserved)))
        else (lr, inds));
     let subcmdlen = stop - start + 1;
     inds \<leftarrow> wr (cells inds) (lr_subcmd_length lr) \<lparr>sc_index = start, sc_length = subcmdlen\<rparr>;
     block \<leftarrow> fill_cells (cells (malloc_cells (lm_bytes M) 1 (sz (subcmdlen + 1)))) 0 subcmdlen 0;
     block \<leftarrow> c_strncat block (drop start str) subcmdlen;
     subs \<leftarrow> wr (cells (lr_subcommands lr)) (lr_subcmd_length lr) (Some block);
     Some (lr\<lparr>lr_subcommands := Some subs, lr_subcmd_length := sz (lr_subcmd_length lr + 1)\<rparr>, Some inds)
   })"

text \<open>The search for one pair of markers. The closing marker is searched from the same place as the opening one.\<close>

function marker_scan ::
    "lex_mem \<Rightarrow> byte list \<Rightarrow> nat \<Rightarrow> byte \<Rightarrow> byte \<Rightarrow> nat \<Rightarrow> lexer_result \<times> sub_command_index list option
     \<Rightarrow> (lexer_result \<times> sub_command_index list option) option" where
  "marker_scan M str len left right idx acc =
     (case c_memchr (drop idx str) left (len - idx) of
        None \<Rightarrow> None
      | Some None \<Rightarrow> Some acc
      | Some (Some k) \<Rightarrow>
          (case c_memchr (drop idx str) right (len - idx) of
             None \<Rightarrow> None
           | Some None \<Rightarrow> Some acc
           | Some (Some e) \<Rightarrow>
               (if e > k
                then (case add_subcommand M str (idx + k) (idx + e) acc of
                        None \<Rightarrow> None
                      | Some acc \<Rightarrow> marker_scan M str len left right (idx + e + 1) acc)
                else Some acc)))"
  by pat_completeness auto
termination
  by (relation "measure (\<lambda>(M, str, len, left, right, idx, acc). len - idx)") (auto dest!: c_memchr_less)

declare marker_scan.simps [simp del]

fun markers_loop ::
    "lex_mem \<Rightarrow> lexer \<Rightarrow> byte list \<Rightarrow> nat \<Rightarrow> nat \<Rightarrow> nat \<Rightarrow> lexer_result \<times> sub_command_index list option
     \<Rightarrow> (lexer_result \<times> sub_command_index list option) option" where
  "markers_loop M lx str len markeridx 0 acc = Some acc"
| "markers_loop M lx str len markeridx (Suc n) acc = do {
     p \<leftarrow> rd (cells (subcmdmarkers lx)) markeridx;
     left \<leftarrow> rd (cells p) 0;
     right \<leftarrow> rd (cells p) 1;
     acc \<leftarrow> marker_scan M str len left right 0 acc;
     markers_loop M lx str len (Suc markeridx) n acc
   }"

text \<open>The string without the subcommands: each goes together with one space before it.\<close>

fun rebuild_loop :: "byte list \<Rightarrow> nat \<Rightarrow> sub_command_index list \<Rightarrow> nat \<Rightarrow> byte list \<Rightarrow> (nat \<times> byte list) option" where
  "rebuild_loop str len [] lastidx pbuf = Some (lastidx, pbuf)"
| "rebuild_loop str len (i # inds) lastidx pbuf = do {
     let scmdidx = sc_index i;
     space \<leftarrow> (if sz_sub scmdidx 1 < len
              then do { b \<leftarrow> rd str (sz_sub scmdidx 1); Some (if b = 32 then 1 else 0) }
              else Some 0);
     let n = to_int32 (sz_sub scmdidx (sz (lastidx + space)));
     if n < 0 then Some (lastidx, pbuf)
     else do {
       pbuf \<leftarrow> c_strncat pbuf (drop lastidx str) (nat n);
       rebuild_loop str len inds (sz (scmdidx + sc_length i)) pbuf
     }
   }"

definition Lexer_ExtractSubcommands ::
    "lex_mem \<Rightarrow> lexer \<Rightarrow> lexer_result \<Rightarrow> byte list \<Rightarrow> nat \<Rightarrow> (c_str \<times> lexer_result) option" where
  "Lexer_ExtractSubcommands M lx lr str len =
     (case malloc_cells (lm_bytes M) 1 (sz (len + 1)) of
        None \<Rightarrow> Some (None, lr)
      | Some parsedstr \<Rightarrow> do {
          parsedstr \<leftarrow> fill_cells parsedstr 0 (sz (len + 1)) 0;
          let lr = lr\<lparr>lr_subcmd_length := 0, lr_subcmd_reserved := 4\<rparr>;
          inds \<leftarrow> fill_cells (cells (malloc_cells (lm_indices M) sizeof_index (sizeof_index * 4))) 0 4 zero_index;
          let lr = (if lr_subcommands lr = None
                    then lr\<lparr>lr_subcommands := malloc_cells (lm_ptrs M) sizeof_ptr (sizeof_ptr * 4)\<rparr> else lr);
          (lr, inds) \<leftarrow> markers_loop M lx str len 0 (subcmdmarker_length lx) (lr, Some inds);
          found \<leftarrow> read_cells (cells inds) 0 (lr_subcmd_length lr);
          (lastidx, parsedstr) \<leftarrow> rebuild_loop str len (c_qsort SubCommandIndexCmp found) 0 parsedstr;
          parsedstr \<leftarrow> c_strncat parsedstr (drop lastidx str) (sz (sz_sub len lastidx + 1));
          Some (Some parsedstr, lr)
        })"

section \<open>Words\<close>

function lex_loop ::
    "lex_mem \<Rightarrow> nat \<Rightarrow> nat \<Rightarrow> byte list \<Rightarrow> nat \<Rightarrow> lexer_result \<Rightarrow> lexer_result option" where
  "lex_loop M len max_tokens buf pos lr =
     (case c_strtok [32, 10] buf pos of
        None \<Rightarrow> None
      | Some (None, _, _) \<Rightarrow> Some lr
      | Some (Some s, save, buf) \<Rightarrow>
          (case do { n \<leftarrow> c_strnlen (drop s buf) (len + 1); LexerResult_AddToken M lr s (drop s buf) n } of
             None \<Rightarrow> None
           | Some lr \<Rightarrow>
               (if max_tokens \<noteq> 0 \<and> lr_token_count lr \<ge> max_tokens then Some lr
                else lex_loop M len max_tokens buf save lr)))"
  by pat_completeness auto
termination
  by (relation "measure (\<lambda>(M, len, max_tokens, buf, pos, lr). length buf + 1 - pos)")
     (auto dest!: c_strtok_advances)

declare lex_loop.simps [simp del]

definition Lexer_LexString ::
    "lex_mem \<Rightarrow> lexer \<Rightarrow> byte list \<Rightarrow> nat \<Rightarrow> nat \<Rightarrow> bool \<Rightarrow> lexer_result \<Rightarrow> lexer_result option" where
  "Lexer_LexString M lx str len max_tokens bParseSubCommands lr =
     (if lr_orig_str lr \<noteq> None then Some lr
      else do {
        lr \<leftarrow> (if bParseSubCommands
               then do { (p, lr) \<leftarrow> Lexer_ExtractSubcommands M lx lr str len; Some (lr\<lparr>lr_orig_str := p\<rparr>) }
               else do {
                 block \<leftarrow> c_strncpy (cells (malloc_cells (lm_bytes M) 1 (sz (len + 1)))) str (sz (len + 1));
                 Some (lr\<lparr>lr_orig_str := Some block\<rparr>)
               });
        buf \<leftarrow> c_strncpy (cells (malloc_cells (lm_bytes M) 1 (sz (len + 1)))) (cells (lr_orig_str lr)) (sz (len + 1));
        lex_loop M len max_tokens buf 0 lr
      })"

section \<open>The classes of commandlexer.cpp\<close>

text \<open>The methods are one call each; \<open>std_string\<close> is the constructor of \<open>std::string\<close> from a pointer.\<close>

definition CommandLexerResult_GetTokenAt :: "lexer_result \<Rightarrow> nat \<Rightarrow> byte list option" where
  "CommandLexerResult_GetTokenAt lr idx = do { p \<leftarrow> LexerResult_GetTokenAt lr idx; std_string p }"

text \<open>\<open>substr\<close> takes at most what is there and throws when the position is past the end.\<close>

definition CommandLexerResult_GetSubCmdAt :: "lexer_result \<Rightarrow> nat \<Rightarrow> byte list option" where
  "CommandLexerResult_GetSubCmdAt lr idx = do {
     p \<leftarrow> LexerResult_GetSubcommandAt lr idx;
     retval \<leftarrow> std_string p;
     if 1 \<le> length retval then Some (take (sz_sub (length retval) 2) (drop 1 retval)) else None
   }"

definition CommandLexerResult_GetStringAfterToken :: "lexer_result \<Rightarrow> nat \<Rightarrow> byte list option" where
  "CommandLexerResult_GetStringAfterToken lr tokenidx = do {
     p \<leftarrow> LexerResult_GetStringAfterToken lr tokenidx; std_string (Some p) }"

definition CommandLexer_LexString :: "lex_mem \<Rightarrow> lexer \<Rightarrow> byte list \<Rightarrow> nat \<Rightarrow> bool \<Rightarrow> lexer_result option" where
  "CommandLexer_LexString M lx str max_tokens bParseSubCmds = do {
     lr \<leftarrow> LexerResult_Prepare M;
     Lexer_LexString M lx (str @ [0]) (length str) max_tokens bParseSubCmds lr
   }"

text \<open>\<open>left[0]\<close> of an empty \<open>std::string\<close> is the zero byte.\<close>

definition CommandLexer_AddSubcommandMarkers :: "lex_mem \<Rightarrow> lexer \<Rightarrow> byte list \<Rightarrow> byte list \<Rightarrow> lexer option" where
  "CommandLexer_AddSubcommandMarkers M lx left right =
     Lexer_AddSubcommandMarkers M lx ((left @ [0]) ! 0) ((right @ [0]) ! 0)"

definition CommandLexer_SetTagList :: "TagLexer \<Rightarrow> byte list \<Rightarrow> TagLexer option" where
  "CommandLexer_SetTagList lexer tags = TagLexer_SetTagList lexer (tags @ [0])"

definition CommandLexer_LexStringTags :: "TagLexer \<Rightarrow> byte list \<Rightarrow> TagLexerResult option" where
  "CommandLexer_LexStringTags lexer str = TagLexer_Parse lexer (str @ [0]) (length str) TagLexerResult_Init"

text \<open>
  \<open>PerformSubs\<close>: the substitution over \<open>std::string\<close>s. When the counts differ it returns \<open>0\<close>, which is a
  \<open>std::string\<close> made from a null pointer. The words of the script's array are capitalised in place.
\<close>

fun subs_loop ::
    "TaggedToken list \<Rightarrow> byte list \<Rightarrow> nat \<Rightarrow> nat \<Rightarrow> nat \<Rightarrow> byte list \<Rightarrow> byte list list \<Rightarrow> (byte list \<times> nat \<times> byte list list) option" where
  "subs_loop toks str idx 0 strpos out words = Some (out, strpos, words)"
| "subs_loop toks str idx (Suc n) strpos out words = do {
     tok \<leftarrow> rd toks idx;
     piece \<leftarrow> read_cells (str @ [0]) strpos (sz_sub (tindex tok) strpos);
     w \<leftarrow> rd words idx;
     let w = (if bShouldCap tok \<and> w \<noteq> [] then w[0 := c_toupper (w ! 0)] else w);
     subs_loop toks str (Suc idx) n (sz (strpos + sz (sz_sub (tindex tok) strpos + tlength tok)))
       (out @ piece @ w) (words[idx := w])
   }"

definition CommandTagLexerResult_PerformSubs ::
    "TagLexerResult \<Rightarrow> byte list list \<Rightarrow> byte list \<Rightarrow> (byte list \<times> byte list list) option" where
  "CommandTagLexerResult_PerformSubs res words str =
     (if tokencount res \<noteq> length words then do { s \<leftarrow> std_string None; Some (s, words) }
      else do {
        (out, strpos, words) \<leftarrow> subs_loop (ttokens res) str 0 (length words) 0 [] words;
        piece \<leftarrow> read_cells (str @ [0]) strpos (sz_sub (length str) strpos);
        Some (out @ piece, words)
      })"

definition CommandTagLexerResult_GetTokenAt :: "TagLexerResult \<Rightarrow> nat \<Rightarrow> byte list option" where
  "CommandTagLexerResult_GetTokenAt res idx = do {
     t \<leftarrow> TagLexerResult_GetTokenAt res idx; std_string (Some t) }"

section \<open>What the words of a line are\<close>

definition sep :: "byte \<Rightarrow> bool" where
  "sep b \<longleftrightarrow> b = 32 \<or> b = 10"

text \<open>The words of a text with their positions: the maximal runs of bytes that are no separators.\<close>

function words_from :: "nat \<Rightarrow> byte list \<Rightarrow> (nat \<times> byte list) list" where
  "words_from p [] = []"
| "words_from p (b # bs) =
     (if sep b then words_from (Suc p) bs
      else (p, takeWhile (\<lambda>b. \<not> sep b) (b # bs)) #
        words_from (p + length (takeWhile (\<lambda>b. \<not> sep b) (b # bs))) (dropWhile (\<lambda>b. \<not> sep b) bs))"
  by pat_completeness auto
termination
  by (relation "measure (\<lambda>(p, bs). length bs)") (auto simp: less_Suc_eq_le length_dropWhile_le)

lemma words_from_sep: "sep b \<Longrightarrow> words_from p (b # bs) = words_from (Suc p) bs"
  by simp

lemma words_from_seps: "\<forall>b \<in> set xs. sep b \<Longrightarrow> words_from p (xs @ ys) = words_from (p + length xs) ys"
  by (induction xs arbitrary: p) auto

lemma words_from_word:
  assumes "w \<noteq> []" "\<forall>b \<in> set w. \<not> sep b" "ys = [] \<or> sep (hd ys)"
  shows "words_from p (w @ ys) = (p, w) # words_from (p + length w) ys"
proof -
  obtain b bs where w: "w = b # bs" using assms(1) by (cases w) auto
  have "takeWhile (\<lambda>b. \<not> sep b) (bs @ ys) = bs" "dropWhile (\<lambda>b. \<not> sep b) (bs @ ys) = ys"
    using assms w by (auto simp: takeWhile_eq_Nil_iff dropWhile_eq_self_iff)
  then show ?thesis using assms(2) w by simp
qed

lemma line_cases:
  obtains (none) "\<forall>b \<in> set tx. sep b"
  | (word) xs w ys where "tx = xs @ w @ ys" "\<forall>b \<in> set xs. sep b" "w \<noteq> []" "\<forall>b \<in> set w. \<not> sep b"
      "ys = [] \<or> sep (hd ys)"
proof (cases "dropWhile sep tx")
  case Nil
  then show ?thesis using none by (simp add: dropWhile_eq_Nil_conv)
next
  case (Cons b bs)
  let ?r = "dropWhile sep tx"
  have "tx = takeWhile sep tx @ takeWhile (\<lambda>b. \<not> sep b) ?r @ dropWhile (\<lambda>b. \<not> sep b) ?r" by simp
  moreover have "takeWhile (\<lambda>b. \<not> sep b) ?r \<noteq> []"
    using hd_dropWhile[of sep tx] Cons by (auto simp: takeWhile_eq_Nil_iff)
  moreover have "dropWhile (\<lambda>b. \<not> sep b) ?r = [] \<or> sep (hd (dropWhile (\<lambda>b. \<not> sep b) ?r))"
    using hd_dropWhile[of "\<lambda>b. \<not> sep b" ?r] by auto
  ultimately show ?thesis using word by (metis set_takeWhileD)
qed

text \<open>The words are the nonempty parts between the separators, at the recorded positions.\<close>

lemma words_from_split:
  "map snd (words_from p tx) = filter (\<lambda>w. w \<noteq> []) (split_at_byte 32 (map (\<lambda>b. if b = 10 then 32 else b) tx))"
proof (induction tx arbitrary: p rule: length_induct)
  case (1 tx)
  let ?f = "\<lambda>b :: byte. if b = 10 then 32 else b"
  have blank: "filter (\<lambda>w. w \<noteq> []) (split_at_byte 32 (map ?f xs @ zs)) = filter (\<lambda>w. w \<noteq> []) (split_at_byte 32 zs)"
    if "\<forall>b \<in> set xs. sep b" for xs zs
    using that by (induction xs) (auto simp: sep_def)
  show ?case
  proof (cases tx rule: line_cases)
    case none
    then show ?thesis using words_from_seps[of tx p "[]"] blank[of tx "[]"] by simp
  next
    case (word xs w ys)
    have w: "map ?f w = w" "32 \<notin> set w" using word(4) by (auto simp: sep_def intro: map_idI)
    have "words_from p tx = (p + length xs, w) # words_from (p + length xs + length w) ys"
      using word by (simp add: words_from_seps words_from_word)
    moreover have "filter (\<lambda>w. w \<noteq> []) (split_at_byte 32 (w @ map ?f ys)) =
        w # filter (\<lambda>w. w \<noteq> []) (split_at_byte 32 (map ?f ys))"
    proof (cases ys)
      case Nil
      then show ?thesis using w(2) word(3) by (simp add: split_at_byte_none)
    next
      case (Cons c cs)
      then have "?f c = 32" using word(5) by (auto simp: sep_def)
      then show ?thesis using w(2) word(3) Cons by (simp add: split_at_byte_some)
    qed
    moreover have "length ys < length tx" using word(1,3) by auto
    ultimately show ?thesis using 1 word(1,2) w(1) blank[of xs "map ?f (w @ ys)"] by simp
  qed
qed

lemma words_from_at:
  "(s, w) \<in> set (words_from p tx) \<Longrightarrow> p \<le> s \<and> s + length w \<le> p + length tx \<and> w \<noteq> [] \<and> take (length w) (drop (s - p) tx) = w"
proof (induction tx arbitrary: p rule: length_induct)
  case (1 tx)
  show ?case
  proof (cases tx rule: line_cases)
    case none
    then show ?thesis using 1(2) words_from_seps[of tx p "[]"] by simp
  next
    case (word xs u ys)
    then consider "s = p + length xs" "w = u" | "(s, w) \<in> set (words_from (p + length xs + length u) ys)"
      using 1(2) by (auto simp: words_from_seps words_from_word)
    then show ?thesis
    proof cases
      case 1
      then show ?thesis using word by simp
    next
      case 2
      moreover have "length ys < length tx" using word(1,3) by auto
      ultimately have ih: "p + length xs + length u \<le> s" "s + length w \<le> p + length xs + length u + length ys"
        "w \<noteq> []" "take (length w) (drop (s - (p + length xs + length u)) ys) = w"
        using 1(1) by blast+
      have "drop (s - p) tx = drop (s - (p + length xs + length u)) ys"
        using ih(1) word(1) by (simp add: diff_diff_add)
      then show ?thesis using ih word(1) by simp
    qed
  qed
qed

section \<open>Splitting finds the words\<close>

lemma c_strtok_none:
  assumes "drop pos buf = xs @ 0 # rest" "set xs \<subseteq> set delims" "0 \<notin> set delims"
  shows "\<exists>save. c_strtok delims buf pos = Some (None, save, buf)"
proof -
  have le: "pos \<le> length buf" using assms(1) by (cases "pos \<le> length buf") auto
  have "buf ! (pos + length xs) = (xs @ 0 # rest) ! length xs" using assms(1)[symmetric] le by simp
  moreover have "first_idx (\<lambda>b. b \<notin> set delims) (drop pos buf) = Some (length xs)"
    unfolding assms(1) using assms(2,3) by (intro first_idx_skip) auto
  ultimately show ?thesis by (simp add: c_strtok_def)
qed

lemma c_strtok_word:
  assumes buf: "drop pos buf = xs @ w @ d # rest" and xs: "set xs \<subseteq> set delims" "0 \<notin> set delims"
    and w: "w \<noteq> []" "set w \<inter> insert 0 (set delims) = {}" and d: "d = 0 \<or> d \<in> set delims"
  shows "c_strtok delims buf pos =
    (if d = 0 then Some (Some (pos + length xs), pos + length xs + length w, buf)
     else Some (Some (pos + length xs), pos + length xs + length w + 1, buf[pos + length xs + length w := 0]))"
proof -
  have le: "pos \<le> length buf" using buf by (cases "pos \<le> length buf") auto
  have nth: "buf ! (pos + i) = (xs @ w @ d # rest) ! i" for i
    using buf[symmetric] le by simp
  obtain x ws where x: "w = x # ws" "x \<noteq> 0" "x \<notin> set delims" using w by (cases w) auto
  have 1: "first_idx (\<lambda>b. b \<notin> set delims) (drop pos buf) = Some (length xs)"
    unfolding buf x(1) append_Cons using x xs(1) by (intro first_idx_skip) auto
  have "drop (pos + length xs) buf = drop (length xs) (drop pos buf)" by (simp add: add.commute)
  then have 2: "drop (pos + length xs) buf = w @ d # rest" unfolding buf by simp
  have 3: "first_idx (\<lambda>b. b = 0 \<or> b \<in> set delims) (w @ d # rest) = Some (length w)"
    using w(2) d by (intro first_idx_skip) auto
  have 4: "buf ! (pos + length xs) \<noteq> 0" using nth[of "length xs"] x by (simp add: nth_append)
  have 5: "buf ! (pos + length xs + length w) = d" using nth[of "length xs + length w"] by (simp add: nth_append add.assoc)
  show ?thesis unfolding c_strtok_def 1 using 2 3 4 5 d by (auto simp: Let_def)
qed

definition grants_lex :: "lex_mem \<Rightarrow> bool" where
  "grants_lex M \<longleftrightarrow> grants_all (lm_bytes M) \<and> grants_all (lm_ptrs M) \<and> grants_all (lm_sizes M) \<and> grants_all (lm_indices M)"

text \<open>The words recorded in a result, with their positions.\<close>

definition lr_items :: "lexer_result \<Rightarrow> (nat \<times> byte list) list" where
  "lr_items lr = zip (take (lr_token_count lr) (cells (lr_token_starts lr)))
     (map (\<lambda>p. cstr (cells p)) (take (lr_token_count lr) (cells (lr_tokens lr))))"

definition lr_wf :: "lexer_result \<Rightarrow> bool" where
  "lr_wf lr \<longleftrightarrow> length (cells (lr_tokens lr)) = lr_token_reserved lr \<and> length (cells (lr_token_starts lr)) = lr_token_reserved lr \<and>
     lr_token_count lr \<le> lr_token_reserved lr \<and> 0 < lr_token_reserved lr \<and> lr_token_reserved lr \<le> 2 ^ 51 \<and>
     (\<forall>i < lr_token_count lr. \<exists>b. cells (lr_tokens lr) ! i = Some b \<and> terminated b)"

lemma length_lr_items: "lr_wf lr \<Longrightarrow> length (lr_items lr) = lr_token_count lr"
  by (simp add: lr_items_def lr_wf_def)

lemma word_copy:
  assumes "grants_all M" "0 \<notin> set w" "length w < 2 ^ 62"
  shows "\<exists>b. c_strncpy (cells (malloc_cells M 1 (sz (length w + 1)))) (w @ 0 # rest) (sz (length w + 1)) = Some b \<and>
    cstr b = w \<and> terminated b \<and> b = w @ [0]"
proof -
  have "sz (length w + 1) = length w + 1" using assms(3) by (intro sz_small) simp
  moreover have "c_strncpy (map (fresh M) [0..<length w + 1]) (w @ 0 # rest) (length w + 1) = Some (w @ [0])"
    using assms(2) c_strncpy_ok[of "length w + 1" "map (fresh M) [0..<length w + 1]" "w @ 0 # rest"]
    by (simp add: cstr_append terminated_def cstr_id not_terminated)
  ultimately show ?thesis using assms cstr_zero[OF assms(2), of "[]"] by (simp add: mem_simps terminated_def)
qed

definition same_but_tokens :: "lexer_result \<Rightarrow> lexer_result \<Rightarrow> bool" where
  "same_but_tokens a b \<longleftrightarrow> lr_orig_str b = lr_orig_str a \<and> lr_subcommands b = lr_subcommands a \<and>
     lr_subcmd_length b = lr_subcmd_length a \<and> lr_subcmd_reserved b = lr_subcmd_reserved a"

lemma AddToken_ok:
  assumes M: "grants_lex M" and wf: "lr_wf lr" and w: "0 \<notin> set w" "length w < 2 ^ 50" "lr_token_count lr < 2 ^ 50"
  shows "\<exists>lr'. LexerResult_AddToken M lr s (w @ 0 # rest) (length w) = Some lr' \<and> lr_wf lr' \<and>
    lr_items lr' = lr_items lr @ [(s, w)] \<and> lr_token_count lr' = Suc (lr_token_count lr) \<and> same_but_tokens lr lr'"
proof -
  let ?n = "lr_token_count lr"
  define lr1 where "lr1 = (if ?n \<ge> lr_token_reserved lr
               then let reserved = sz (2 * lr_token_reserved lr) in
                 lr\<lparr>lr_token_reserved := reserved,
                    lr_tokens := realloc_cells (lm_ptrs M) sizeof_ptr (lr_tokens lr) (sz (sizeof_ptr * reserved)),
                    lr_token_starts := realloc_cells (lm_sizes M) 8 (lr_token_starts lr) (sz (8 * reserved))\<rparr>
               else lr)"
  have g: "grants_all (lm_bytes M)" "grants_all (lm_ptrs M)" "grants_all (lm_sizes M)" using M by (auto simp: grants_lex_def)
  have sm: "sz (2 * lr_token_reserved lr) = 2 * lr_token_reserved lr" "sz (16 * lr_token_reserved lr) = 16 * lr_token_reserved lr"
      "sz (?n + 1) = ?n + 1"
    using wf w(3) by (auto simp: lr_wf_def intro!: sz_small)
  have r1: "lr_token_count lr1 = ?n" "?n < lr_token_reserved lr1" "length (cells (lr_tokens lr1)) = lr_token_reserved lr1"
      "length (cells (lr_token_starts lr1)) = lr_token_reserved lr1" "lr_token_reserved lr1 \<le> 2 ^ 51"
      "take ?n (cells (lr_tokens lr1)) = take ?n (cells (lr_tokens lr))"
      "take ?n (cells (lr_token_starts lr1)) = take ?n (cells (lr_token_starts lr))" "same_but_tokens lr lr1"
    using wf w(3) g sm by (auto simp: lr1_def lr_wf_def Let_def sizeof_ptr_def mem_simps same_but_tokens_def)
  obtain b where b: "c_strncpy (cells (malloc_cells (lm_bytes M) 1 (sz (length w + 1)))) (w @ 0 # rest) (sz (length w + 1)) = Some b"
      "cstr b = w" "terminated b"
    using word_copy[OF g(1) w(1)] w(2) by fastforce
  define lr' where "lr' = lr1\<lparr>lr_tokens := Some ((cells (lr_tokens lr1))[?n := Some b]),
      lr_token_starts := Some ((cells (lr_token_starts lr1))[?n := s]), lr_token_count := Suc ?n\<rparr>"
  have "LexerResult_AddToken M lr s (w @ 0 # rest) (length w) = Some lr'"
    unfolding LexerResult_AddToken_def Let_def[of "if _ then _ else _"] lr1_def[symmetric]
    using b(1) r1 sm(3) by (simp add: mem_simps lr'_def)
  moreover have "cells (lr_tokens lr1) ! i = cells (lr_tokens lr) ! i" if "i < ?n" for i
    using r1(6) that by (metis nth_take)
  then have "lr_wf lr'" using wf r1 b(3) by (auto simp: lr_wf_def lr'_def nth_list_update less_Suc_eq)
  moreover have "lr_items lr' = lr_items lr @ [(s, w)]"
    using r1 wf b(2) by (simp add: lr_items_def lr'_def take_Suc_conv_app_nth take_update_cancel lr_wf_def)
  ultimately show ?thesis using r1(1,8) by (auto simp: lr'_def same_but_tokens_def)
qed

lemma same_but_tokens_refl [simp]: "same_but_tokens a a"
  by (simp add: same_but_tokens_def)

lemma same_but_tokens_trans: "same_but_tokens a b \<Longrightarrow> same_but_tokens b c \<Longrightarrow> same_but_tokens a c"
  by (simp add: same_but_tokens_def)

definition at_most :: "nat \<Rightarrow> 'a list \<Rightarrow> 'a list" where
  "at_most m xs = (if m = 0 then xs else take m xs)"

lemma at_most_Cons: "m = 0 \<or> Suc n < m \<Longrightarrow> at_most (m - n) (x # xs) = x # at_most (m - Suc n) xs"
proof (cases "m = 0")
  case False
  moreover assume "m = 0 \<or> Suc n < m"
  ultimately have "m - n = Suc (m - Suc n)" "m - Suc n \<noteq> 0" by auto
  then show ?thesis by (simp add: at_most_def)
qed (simp add: at_most_def)

lemma lex_loop_ok:
  assumes M: "grants_lex M" and len: "len < 2 ^ 49"
  shows "lr_wf lr \<Longrightarrow> drop pos buf = tx @ 0 # zs \<Longrightarrow> 0 \<notin> set tx \<Longrightarrow> length buf = Suc len \<Longrightarrow>
    lr_token_count lr + length tx < 2 ^ 50 \<Longrightarrow> m = 0 \<or> lr_token_count lr < m \<Longrightarrow>
    \<exists>lr'. lex_loop M len m buf pos lr = Some lr' \<and> lr_wf lr' \<and>
      lr_items lr' = lr_items lr @ at_most (m - lr_token_count lr) (words_from pos tx) \<and> same_but_tokens lr lr'"
proof (induction "length tx" arbitrary: tx pos buf lr rule: less_induct)
  case less
  have z: "(0 :: byte) \<notin> set [32, 10]" by simp
  have pos: "pos \<le> length buf" using less.prems(2) by (cases "pos \<le> length buf") auto
  show ?case
  proof (cases tx rule: line_cases)
    case none
    then have "set tx \<subseteq> set [32, 10]" by (auto simp: sep_def)
    then obtain save where "c_strtok [32, 10] buf pos = Some (None, save, buf)"
      using c_strtok_none[of pos buf tx zs "[32, 10]"] less.prems(2) by auto
    moreover have "words_from pos tx = []" using none words_from_seps[of tx pos "[]"] by simp
    ultimately show ?thesis using less.prems(1) by (subst lex_loop.simps) (simp add: at_most_def)
  next
    case (word xs w ys)
    have xs: "set xs \<subseteq> set [32, 10]" and w: "set w \<inter> insert 0 (set [32, 10]) = {}"
      using word less.prems(3) by (auto simp: sep_def)
    let ?s = "pos + length xs"
    define d rest where "d = (if ys = [] then 0 else hd ys)" and "rest = (if ys = [] then zs else tl ys @ 0 # zs)"
    have buf: "drop pos buf = xs @ w @ d # rest" and d: "d = 0 \<or> d \<in> set [32, 10]"
      using less.prems(2) word by (cases ys; simp add: d_def rest_def sep_def)+
    have d0: "d = 0 \<longleftrightarrow> ys = []" using word less.prems(3) by (cases ys) (auto simp: d_def)
    define save buf1 where "save = (if d = 0 then ?s + length w else ?s + length w + 1)"
      and "buf1 = (if d = 0 then buf else buf[?s + length w := 0])"
    have tok: "c_strtok [32, 10] buf pos = Some (Some ?s, save, buf1)"
      using c_strtok_word[OF buf xs z word(3) w d] by (simp add: save_def buf1_def)
    have "drop ?s buf = drop (length xs) (drop pos buf)" by (simp add: add.commute)
    then have db: "drop ?s buf = w @ d # rest" unfolding buf by simp
    have d1: "drop ?s buf1 = w @ 0 # rest"
    proof (cases "d = 0")
      case False
      have "drop ?s buf1 = (drop ?s buf)[length w := 0]" using False by (simp add: buf1_def drop_update_swap)
      then show ?thesis unfolding db by simp
    qed (use db in \<open>simp add: buf1_def\<close>)
    have l1: "length buf1 = Suc len" using less.prems(4) by (simp add: buf1_def)
    have lw: "length w \<le> length tx" "length tx \<le> len" using word(1) arg_cong[OF less.prems(2), of length] less.prems(4) by auto
    have nz: "0 \<notin> set w" using w by auto
    have n: "c_strnlen (drop ?s buf1) (len + 1) = Some (length w)"
      unfolding d1 using nz lw by (intro c_strnlen_prefix) auto
    obtain lr1 where lr1: "LexerResult_AddToken M lr ?s (w @ 0 # rest) (length w) = Some lr1" "lr_wf lr1"
        "lr_items lr1 = lr_items lr @ [(?s, w)]" "lr_token_count lr1 = Suc (lr_token_count lr)" "same_but_tokens lr lr1"
      using AddToken_ok[OF M less.prems(1) nz, of ?s rest] less.prems(5) lw len by auto
    have step: "lex_loop M len m buf pos lr =
        (if m \<noteq> 0 \<and> Suc (lr_token_count lr) \<ge> m then Some lr1 else lex_loop M len m buf1 save lr1)"
      using tok n lr1(1,4) unfolding d1[symmetric] by (subst lex_loop.simps) simp
    have ws: "words_from pos tx = (?s, w) # words_from (?s + length w) ys"
      using word by (simp add: words_from_seps words_from_word)
    show ?thesis
    proof (cases "m \<noteq> 0 \<and> Suc (lr_token_count lr) \<ge> m")
      case True
      then have "m - lr_token_count lr = 1" using less.prems(6) by auto
      then show ?thesis using True step lr1 ws by (simp add: at_most_def)
    next
      case False
      have tail: "words_from (?s + length w) ys = words_from save (tl ys)" "drop save buf1 = tl ys @ 0 # zs" if ne: "ys \<noteq> []"
      proof -
        obtain c cs where c: "ys = c # cs" "sep c" using ne word(5) by (cases ys) auto
        have sv: "save = Suc (?s + length w)" using d0 ne by (simp add: save_def)
        show "words_from (?s + length w) ys = words_from save (tl ys)" using c sv by simp
        have "drop save buf1 = drop (Suc (length w)) (drop ?s buf1)" using sv by (simp add: add.commute)
        then show "drop save buf1 = tl ys @ 0 # zs" using ne unfolding d1 by (simp add: rest_def)
      qed
      have end_: "words_from (?s + length w) ys = words_from save []" "drop save buf1 = [] @ 0 # zs" if ne: "ys = []"
      proof -
        have sv: "save = ?s + length w" using d0 ne by (simp add: save_def)
        show "words_from (?s + length w) ys = words_from save []" using ne by simp
        have "drop save buf1 = drop (length w) (drop ?s buf1)" using sv by (simp add: add.commute)
        then show "drop save buf1 = [] @ 0 # zs" using ne unfolding d1 by (simp add: rest_def)
      qed
      define tx1 where "tx1 = tl ys"
      have t1: "words_from (?s + length w) ys = words_from save tx1" "drop save buf1 = tx1 @ 0 # zs"
        using tail end_ by (cases "ys = []"; simp add: tx1_def)+
      have sub: "set tx1 \<subseteq> set tx" "length tx1 < length tx"
        using word(1,3) by (cases ys; auto simp: tx1_def)+
      obtain lr' where lr': "lex_loop M len m buf1 save lr1 = Some lr'" "lr_wf lr'"
          "lr_items lr' = lr_items lr1 @ at_most (m - lr_token_count lr1) (words_from save tx1)" "same_but_tokens lr1 lr'"
        using less.hyps[OF sub(2) lr1(2) t1(2) _ l1] sub less.prems(3,5) lr1(4) False by fastforce
      have "at_most (m - lr_token_count lr) (words_from pos tx) = (?s, w) # at_most (m - lr_token_count lr1) (words_from save tx1)"
        using at_most_Cons[of m "lr_token_count lr"] False unfolding ws t1(1) lr1(4) by auto
      then show ?thesis using False step lr1 lr' same_but_tokens_trans by auto
    qed
  qed
qed

lemma LexerResult_Prepare_ok:
  "grants_lex M \<Longrightarrow> \<exists>lr. LexerResult_Prepare M = Some lr \<and> lr_wf lr \<and> lr_token_count lr = 0 \<and> lr_orig_str lr = None \<and>
     lr_subcommands lr = None \<and> lr_subcmd_length lr = 0"
  by (simp add: LexerResult_Prepare_def grants_lex_def sizeof_ptr_def mem_simps lr_wf_def)

lemma Lexer_LexString_ok:
  assumes M: "grants_lex M" and lr: "lr_wf lr" "lr_token_count lr = 0" "lr_orig_str lr = None"
    and tx: "0 \<notin> set tx" "length tx < 2 ^ 49"
  shows "\<exists>lr'. Lexer_LexString M lx (tx @ 0 # rest) (length tx) m False lr = Some lr' \<and> lr_wf lr' \<and>
    lr_items lr' = at_most m (words_from 0 tx) \<and> lr_orig_str lr' = Some (tx @ [0]) \<and>
    lr_subcommands lr' = lr_subcommands lr \<and> lr_subcmd_length lr' = lr_subcmd_length lr"
proof -
  let ?lr = "lr\<lparr>lr_orig_str := Some (tx @ [0])\<rparr>"
  have g: "grants_all (lm_bytes M)" using M by (simp add: grants_lex_def)
  have wc: "c_strncpy (cells (malloc_cells (lm_bytes M) 1 (sz (length tx + 1)))) (tx @ 0 # r) (sz (length tx + 1)) = Some (tx @ [0])" for r
    using word_copy[OF g tx(1), of r] tx(2) by auto
  have "lr_wf ?lr" "lr_token_count ?lr + length tx < 2 ^ 50" "m = 0 \<or> lr_token_count ?lr < m"
    using lr tx(2) by (auto simp: lr_wf_def)
  then obtain lr' where "lex_loop M (length tx) m (tx @ [0]) 0 ?lr = Some lr'" "lr_wf lr'"
      "lr_items lr' = lr_items ?lr @ at_most (m - lr_token_count ?lr) (words_from 0 tx)" "same_but_tokens ?lr lr'"
    using lex_loop_ok[OF M tx(2), of ?lr 0 "tx @ [0]" tx "[]" m] tx(1) by auto
  then show ?thesis
    using wc[of rest] wc[of "[]"] lr(2,3) by (auto simp: Lexer_LexString_def lr_items_def same_but_tokens_def)
qed

lemma release_blocks_ok: "idx + n \<le> length ps \<Longrightarrow> \<exists>ps'. release_blocks idx n ps = Some ps' \<and> length ps' = length ps"
proof (induction n arbitrary: idx ps)
  case (Suc n)
  then show ?case using Suc.IH[of "Suc idx" "ps[idx := None]"] by (simp add: mem_simps)
qed simp

lemma LexerResult_Clear_ok:
  assumes "lr_wf lr" "lr_subcmd_length lr \<le> length (cells (lr_subcommands lr))"
  shows "\<exists>lr'. LexerResult_Clear lr = Some lr' \<and> lr_wf lr' \<and> lr_token_count lr' = 0 \<and> lr_orig_str lr' = None \<and>
    lr_subcmd_length lr' = 0"
proof -
  obtain ts where ts: "release_blocks 0 (lr_token_count lr) (cells (lr_tokens lr)) = Some ts" "length ts = lr_token_reserved lr"
    using release_blocks_ok[of 0 "lr_token_count lr" "cells (lr_tokens lr)"] assms(1) by (auto simp: lr_wf_def)
  obtain ss where "release_blocks 0 (lr_subcmd_length lr) (cells (lr_subcommands lr)) = Some ss"
    using release_blocks_ok[of 0 "lr_subcmd_length lr" "cells (lr_subcommands lr)"] assms(2) by auto
  then show ?thesis using ts assms(1) by (simp add: LexerResult_Clear_def mem_simps lr_wf_def)
qed

text \<open>Reading a result: the words are the tokens, and the string after a token starts with it.\<close>

lemma GetTokenAt_ok:
  assumes "lr_wf lr" "i < lr_token_count lr"
  shows "\<exists>b. LexerResult_GetTokenAt lr i = Some (Some b) \<and> terminated b \<and> cstr b = snd (lr_items lr ! i)"
proof -
  have "i < length (cells (lr_tokens lr))" using assms by (auto simp: lr_wf_def)
  moreover have "lr_items lr ! i = (cells (lr_token_starts lr) ! i, cstr (cells (cells (lr_tokens lr) ! i)))"
    using assms by (simp add: lr_items_def lr_wf_def)
  ultimately show ?thesis using assms by (auto simp: LexerResult_GetTokenAt_def mem_simps lr_wf_def)
qed

lemma GetStringAfterToken_ok:
  assumes "lr_wf lr" "i < lr_token_count lr" "lr_orig_str lr = Some str" "fst (lr_items lr ! i) \<le> length str"
  shows "LexerResult_GetStringAfterToken lr i = Some (drop (fst (lr_items lr ! i)) str)"
proof -
  have "lr_items lr ! i = (cells (lr_token_starts lr) ! i, cstr (cells (cells (lr_tokens lr) ! i)))"
    using assms by (simp add: lr_items_def lr_wf_def)
  then show ?thesis using assms by (simp add: LexerResult_GetStringAfterToken_def mem_simps lr_wf_def)
qed

lemma nth_at_most: "i < length (at_most m xs) \<Longrightarrow> at_most m xs ! i = xs ! i"
  by (auto simp: at_most_def split: if_splits)

lemma set_at_most: "set (at_most m xs) \<subseteq> set xs"
  by (auto simp: at_most_def dest: in_set_takeD)

section \<open>Cutting out subcommands\<close>

text \<open>
  A text with one kind of brackets: pieces \<open>(p, s)\<close> of plain text \<open>p\<close> and a bracketed \<open>s\<close>. The extraction
  leaves the plain text, without the space before each bracket.
\<close>

definition bracketed :: "byte \<Rightarrow> byte \<Rightarrow> (byte list \<times> byte list) list \<Rightarrow> byte list" where
  "bracketed l r ps = concat (map (\<lambda>(p, s). p @ l # s @ [r]) ps)"

definition without_space :: "byte list \<Rightarrow> byte list" where
  "without_space p = (if p \<noteq> [] \<and> last p = 32 then butlast p else p)"

definition plain_for :: "byte \<Rightarrow> byte \<Rightarrow> byte list \<Rightarrow> bool" where
  "plain_for l r xs \<longleftrightarrow> 0 \<notin> set xs \<and> l \<notin> set xs \<and> r \<notin> set xs"

fun bracket_indices :: "nat \<Rightarrow> (byte list \<times> byte list) list \<Rightarrow> sub_command_index list" where
  "bracket_indices off [] = []"
| "bracket_indices off ((p, s) # ps) =
     \<lparr>sc_index = off + length p, sc_length = length s + 2\<rparr> # bracket_indices (off + length p + length s + 2) ps"

lemma bracketed_simps [simp]:
  "bracketed l r [] = []" "bracketed l r ((p, s) # ps) = p @ l # s @ r # bracketed l r ps"
  by (simp_all add: bracketed_def)

lemma length_bracket_indices [simp]: "length (bracket_indices off ps) = length ps"
  by (induction off ps rule: bracket_indices.induct) auto

type_synonym sub_acc = "lexer_result \<times> sub_command_index list option"

definition subs_ok :: "sub_acc \<Rightarrow> bool" where
  "subs_ok acc \<longleftrightarrow> (case acc of (lr, inds) \<Rightarrow>
     length (cells (lr_subcommands lr)) = lr_subcmd_reserved lr \<and> length (cells inds) = lr_subcmd_reserved lr \<and>
     lr_subcmd_length lr \<le> lr_subcmd_reserved lr \<and> 0 < lr_subcmd_reserved lr \<and> lr_subcmd_reserved lr \<le> 2 ^ 51 \<and>
     (\<forall>i < lr_subcmd_length lr. \<exists>b. cells (lr_subcommands lr) ! i = Some b \<and> terminated b))"

definition sub_found :: "sub_acc \<Rightarrow> sub_command_index list" where
  "sub_found acc = (case acc of (lr, inds) \<Rightarrow> take (lr_subcmd_length lr) (cells inds))"

definition sub_texts :: "lexer_result \<Rightarrow> byte list list" where
  "sub_texts lr = map (\<lambda>p. cstr (cells p)) (take (lr_subcmd_length lr) (cells (lr_subcommands lr)))"

definition same_but_subs :: "lexer_result \<Rightarrow> lexer_result \<Rightarrow> bool" where
  "same_but_subs a b \<longleftrightarrow> lr_orig_str b = lr_orig_str a \<and> lr_tokens b = lr_tokens a \<and> lr_token_starts b = lr_token_starts a \<and>
     lr_token_count b = lr_token_count a \<and> lr_token_reserved b = lr_token_reserved a"

lemma same_but_subs_trans: "same_but_subs a b \<Longrightarrow> same_but_subs b c \<Longrightarrow> same_but_subs a c"
  by (simp add: same_but_subs_def)

lemma add_subcommand_ok:
  assumes M: "grants_lex M" and ok: "subs_ok (lr, inds)" and n: "lr_subcmd_length lr < 2 ^ 50"
    and str: "drop start str = w @ rest" "length w = stop - start + 1" "0 \<notin> set w" "length w < 2 ^ 50"
  shows "\<exists>lr' inds'. add_subcommand M str start stop (lr, inds) = Some (lr', inds') \<and> subs_ok (lr', inds') \<and>
    lr_subcmd_length lr' = Suc (lr_subcmd_length lr) \<and>
    sub_found (lr', inds') = sub_found (lr, inds) @ [\<lparr>sc_index = start, sc_length = length w\<rparr>] \<and>
    sub_texts lr' = sub_texts lr @ [w] \<and> same_but_subs lr lr'"
proof -
  let ?n = "lr_subcmd_length lr"
  have g: "grants_all (lm_bytes M)" "grants_all (lm_ptrs M)" "grants_all (lm_indices M)" using M by (auto simp: grants_lex_def)
  have sm: "sz (2 * lr_subcmd_reserved lr) = 2 * lr_subcmd_reserved lr" "sz (16 * lr_subcmd_reserved lr) = 16 * lr_subcmd_reserved lr"
      "sz (32 * lr_subcmd_reserved lr) = 32 * lr_subcmd_reserved lr"
      "sz (?n + 1) = ?n + 1" "sz (length w + 1) = length w + 1"
    using ok n str(4) by (auto simp: subs_ok_def intro!: sz_small)
  define grown where "grown = (if ?n \<ge> lr_subcmd_reserved lr
        then let reserved = sz (2 * lr_subcmd_reserved lr) in
          (lr\<lparr>lr_subcmd_reserved := reserved,
              lr_subcommands := realloc_cells (lm_ptrs M) sizeof_ptr (lr_subcommands lr) (sz (sizeof_ptr * reserved))\<rparr>,
           realloc_cells (lm_indices M) sizeof_index inds (sz (sizeof_index * reserved)))
        else (lr, inds))"
  obtain lr1 inds1 where g1: "grown = (lr1, inds1)" by (cases grown)
  have r1: "lr_subcmd_length lr1 = ?n" "?n < lr_subcmd_reserved lr1" "length (cells (lr_subcommands lr1)) = lr_subcmd_reserved lr1"
      "length (cells inds1) = lr_subcmd_reserved lr1" "lr_subcmd_reserved lr1 \<le> 2 ^ 51"
      "take ?n (cells (lr_subcommands lr1)) = take ?n (cells (lr_subcommands lr))"
      "take ?n (cells inds1) = take ?n (cells inds)" "same_but_subs lr lr1"
    using ok n g sm g1 by (auto simp: grown_def subs_ok_def Let_def sizeof_ptr_def sizeof_index_def mem_simps same_but_subs_def split: if_splits)
  define z where "z = replicate (length w) (0 :: byte) @ drop (length w) (map (fresh (lm_bytes M)) [0..<length w + 1])"
  have z: "fill_cells (cells (malloc_cells (lm_bytes M) 1 (sz (length w + 1)))) 0 (length w) 0 = Some z"
    using g sm(5) by (simp add: mem_simps z_def)
  have w0: "0 < length w" using str(2) by simp
  then have zz: "terminated z" "cstr z = []" "length z = length w + 1"
    by (cases "length w"; simp add: z_def terminated_def)+
  have "cstr (take (length w) (drop start str)) = w" unfolding str(1) using str(3) by (simp add: cstr_id)
  then obtain d where d: "c_strncat z (drop start str) (length w) = Some d" "terminated d" "cstr d = w"
    using c_strncat_ok[OF zz(1), of "length w" "drop start str"] zz str(1) by auto
  define lr' inds' where "lr' = lr1\<lparr>lr_subcommands := Some ((cells (lr_subcommands lr1))[?n := Some d]), lr_subcmd_length := Suc ?n\<rparr>"
    and "inds' = Some ((cells inds1)[?n := \<lparr>sc_index = start, sc_length = length w\<rparr>])"
  have "add_subcommand M str start stop (lr, inds) = Some (lr', inds')"
    unfolding add_subcommand_def prod.case grown_def[symmetric] g1 Let_def[of "stop - start + 1"] str(2)[symmetric]
    using r1 sm(4) z d(1) by (simp add: mem_simps lr'_def inds'_def g1)
  moreover have "cells (lr_subcommands lr1) ! i = cells (lr_subcommands lr) ! i" if "i < ?n" for i
    using r1(6) that by (metis nth_take)
  then have "subs_ok (lr', inds')" using ok r1 d(2) by (auto simp: subs_ok_def lr'_def inds'_def nth_list_update less_Suc_eq)
  moreover have "sub_found (lr', inds') = sub_found (lr, inds) @ [\<lparr>sc_index = start, sc_length = length w\<rparr>]"
    using r1 by (simp add: sub_found_def lr'_def inds'_def take_Suc_conv_app_nth take_update_cancel)
  moreover have "sub_texts lr' = sub_texts lr @ [w]"
    using r1 d(3) by (simp add: sub_texts_def lr'_def take_Suc_conv_app_nth take_update_cancel)
  moreover have "lr_subcmd_length lr' = Suc ?n" "same_but_subs lr lr'" using r1(8) by (simp_all add: lr'_def same_but_subs_def)
  ultimately show ?thesis by blast
qed

lemma marker_scan_ok:
  assumes M: "grants_lex M" and lr: "l \<noteq> r" "l \<noteq> 0" "r \<noteq> 0" and rest: "plain_for l r rest"
  shows "subs_ok (lr, inds) \<Longrightarrow> lr_subcmd_length lr + length ps < 2 ^ 50 \<Longrightarrow>
    \<forall>(p, s) \<in> set ps. plain_for l r p \<and> plain_for l r s \<Longrightarrow>
    drop idx str = bracketed l r ps @ rest @ after \<Longrightarrow> len - idx = length (bracketed l r ps @ rest) \<Longrightarrow> len < 2 ^ 49 \<Longrightarrow>
    \<exists>lr' inds'. marker_scan M str len l r idx (lr, inds) = Some (lr', inds') \<and> subs_ok (lr', inds') \<and>
      lr_subcmd_length lr' = lr_subcmd_length lr + length ps \<and>
      sub_found (lr', inds') = sub_found (lr, inds) @ bracket_indices idx ps \<and>
      sub_texts lr' = sub_texts lr @ map (\<lambda>(p, s). l # s @ [r]) ps \<and> same_but_subs lr lr'"
proof (induction ps arbitrary: lr inds idx)
  case Nil
  have "c_memchr (drop idx str) l (len - idx) = Some None"
    using Nil.prems(4,5) rest c_memchr_ok[of "length rest" "rest @ after" l] by (auto simp: plain_for_def first_idx_None)
  then show ?case using Nil.prems(1) by (subst marker_scan.simps) (simp add: same_but_subs_def)
next
  case (Cons ps0 ps)
  obtain p s where ps0: "ps0 = (p, s)" by (cases ps0)
  let ?w = "l # s @ [r]" and ?next = "idx + length p + length s + 2"
  have pl: "plain_for l r p" "plain_for l r s" using Cons.prems(3) ps0 by auto
  let ?T = "bracketed l r ps @ rest"
  have str: "drop idx str = p @ l # s @ r # ?T @ after" using Cons.prems(4) ps0 by simp
  have n: "len - idx = length (p @ l # s @ r # ?T)" using Cons.prems(5) ps0 by simp
  have tk: "take (len - idx) (p @ l # s @ r # ?T @ after) = p @ l # s @ r # ?T" unfolding n by simp
  have len: "len - idx \<le> length (p @ l # s @ r # ?T @ after)" using n by simp
  have ml: "c_memchr (drop idx str) l (len - idx) = Some (Some (length p))"
    unfolding str c_memchr_ok[OF len] tk using pl first_idx_skip[of p "\<lambda>b. b = l" l] by (auto simp: plain_for_def)
  have "first_idx (\<lambda>b. b = r) ((p @ l # s) @ r # ?T) = Some (length (p @ l # s))"
    using pl lr(1) by (intro first_idx_skip) (auto simp: plain_for_def)
  then have mr: "c_memchr (drop idx str) r (len - idx) = Some (Some (length p + 1 + length s))"
    unfolding str c_memchr_ok[OF len] tk by simp
  have "drop (idx + length p) str = drop (length p) (drop idx str)" by (simp add: add.commute)
  then have dw: "drop (idx + length p) str = ?w @ ?T @ after" unfolding str by simp
  have "drop ?next str = drop (length p + length s + 2) (drop idx str)" by (simp add: add.commute add.left_commute)
  then have dn: "drop ?next str = bracketed l r ps @ rest @ after" unfolding str by simp
  have nn: "len - ?next = length (bracketed l r ps @ rest)" using n by simp
  have w: "0 \<notin> set ?w" "length ?w < 2 ^ 50" using pl lr n Cons.prems(6) by (auto simp: plain_for_def)
  obtain lr1 inds1 where a: "add_subcommand M str (idx + length p) (idx + (length p + 1 + length s)) (lr, inds) = Some (lr1, inds1)"
      "subs_ok (lr1, inds1)" "lr_subcmd_length lr1 = Suc (lr_subcmd_length lr)"
      "sub_found (lr1, inds1) = sub_found (lr, inds) @ [\<lparr>sc_index = idx + length p, sc_length = length ?w\<rparr>]"
      "sub_texts lr1 = sub_texts lr @ [?w]" "same_but_subs lr lr1"
    using add_subcommand_ok[OF M Cons.prems(1) _ dw _ w, of "idx + (length p + 1 + length s)"] Cons.prems(2) by auto
  obtain lr' inds' where b: "marker_scan M str len l r ?next (lr1, inds1) = Some (lr', inds')" "subs_ok (lr', inds')"
      "lr_subcmd_length lr' = lr_subcmd_length lr1 + length ps"
      "sub_found (lr', inds') = sub_found (lr1, inds1) @ bracket_indices ?next ps"
      "sub_texts lr' = sub_texts lr1 @ map (\<lambda>(p, s). l # s @ [r]) ps" "same_but_subs lr1 lr'"
    using Cons.IH[OF a(2) _ _ dn nn Cons.prems(6)] Cons.prems(2,3) a(3) by auto
  have "marker_scan M str len l r idx (lr, inds) = Some (lr', inds')"
    using ml mr a(1) b(1) by (subst marker_scan.simps) (simp add: add.assoc)
  then show ?case using a b ps0 same_but_subs_trans by (auto simp: add.assoc)
qed

text \<open>The indices come out in increasing order, so sorting them changes nothing.\<close>

lemma to_int32_negative:
  assumes "0 < d" "d < 2 ^ 31"
  shows "to_int32 (2 ^ 64 - d) = - int d"
proof -
  have "word_of_nat (2 ^ 64 - d) = (- word_of_nat d :: 32 word)"
    using assms by (simp add: of_nat_diff)
  moreover have "sint (- word_of_nat d :: 32 word) = - int d"
  proof -
    have "sint (word_of_nat d :: 32 word) = int d" using to_int32_small[OF assms(2)] by (simp add: to_int32_def)
    then show ?thesis using assms by (simp add: sint_word_ariths signed_take_bit_int_eq_self)
  qed
  ultimately show ?thesis by (simp only: to_int32_def)
qed

lemma SubCommandIndexCmp_less:
  "sc_index a < sc_index b \<Longrightarrow> sc_index b < 2 ^ 31 \<Longrightarrow> SubCommandIndexCmp a b < 0"
proof -
  assume ab: "sc_index a < sc_index b" "sc_index b < 2 ^ 31"
  then have "sz_sub (sc_index a) (sc_index b) = 2 ^ 64 - (sc_index b - sc_index a)"
    by (simp add: sz_sub_wrap)
  then show ?thesis using ab to_int32_negative[of "sc_index b - sc_index a"] by (simp add: SubCommandIndexCmp_def)
qed

lemma c_qsort_sorted: "sorted_wrt (\<lambda>a b. cmp a b \<le> 0) xs \<Longrightarrow> c_qsort cmp xs = xs"
proof (induction xs)
  case (Cons x xs)
  then have "c_qsort cmp xs = xs" by simp
  moreover have "c_insert cmp x xs = x # xs" using Cons.prems by (cases xs) auto
  ultimately show ?case by (simp add: c_qsort_def)
qed (simp add: c_qsort_def)

lemma bracket_indices_bounds:
  "i \<in> set (bracket_indices off ps) \<Longrightarrow> off \<le> sc_index i \<and> sc_index i < off + length (bracketed l r ps)"
  by (induction off ps rule: bracket_indices.induct) fastforce+

lemma bracket_indices_sorted:
  "off + length (bracketed l r ps) < 2 ^ 31 \<Longrightarrow> sorted_wrt (\<lambda>a b. SubCommandIndexCmp a b \<le> 0) (bracket_indices off ps)"
proof (induction off ps rule: bracket_indices.induct)
  case (2 off p s ps)
  have "SubCommandIndexCmp \<lparr>sc_index = off + length p, sc_length = length s + 2\<rparr> i \<le> 0"
    if "i \<in> set (bracket_indices (off + length p + length s + 2) ps)" for i
    using bracket_indices_bounds[OF that, of l r] 2(2)
      SubCommandIndexCmp_less[of "\<lparr>sc_index = off + length p, sc_length = length s + 2\<rparr>" i] by simp
  then show ?case using 2 by auto
qed simp

lemma rebuild_loop_ok:
  assumes lr: "l \<noteq> 0" "r \<noteq> 0" "r \<noteq> 32"
  shows "\<forall>(p, s) \<in> set ps. plain_for l r p \<and> plain_for l r s \<Longrightarrow>
    str = pre @ bracketed l r ps @ rest \<Longrightarrow> pre \<noteq> [] \<longrightarrow> last pre = r \<Longrightarrow> length (pre @ bracketed l r ps) \<le> len \<Longrightarrow> len < 2 ^ 31 \<Longrightarrow>
    0 \<notin> set out \<Longrightarrow> length (bracketed l r ps) < m \<Longrightarrow>
    rebuild_loop str len (bracket_indices (length pre) ps) (length pre) (out @ replicate m 0) =
      Some (length (pre @ bracketed l r ps),
        (out @ concat (map (\<lambda>(p, s). without_space p) ps)) @ replicate (m - length (concat (map (\<lambda>(p, s). without_space p) ps))) 0)"
proof (induction ps arbitrary: pre out m)
  case (Cons ps0 ps)
  obtain p s where ps0: "ps0 = (p, s)" by (cases ps0)
  let ?i = "length pre + length p" and ?q = "without_space p"
  have str: "str = pre @ p @ l # s @ r # bracketed l r ps @ rest" using Cons.prems(2) ps0 by simp
  have pl: "plain_for l r p" "plain_for l r s" using Cons.prems(1) ps0 by auto
  have i: "?i < len" "len < 2 ^ 64" using Cons.prems(4,5) ps0 by simp_all
  have q: "take (length ?q) (p @ zs) = ?q" "0 \<notin> set ?q" "length ?q \<le> length p" for zs
    using pl(1) by (auto simp: without_space_def plain_for_def butlast_conv_take dest: in_set_takeD)
  define space where "space = length p - length ?q"
  have sp: "(if sz_sub ?i 1 < len then do { b \<leftarrow> rd str (sz_sub ?i 1); Some (if b = 32 then 1 else 0) } else Some 0) = Some space"
  proof (cases "?i = 0")
    case True
    then have "\<not> sz_sub ?i 1 < len" using i by (simp add: sz_sub_def)
    then show ?thesis using True by (simp add: space_def)
  next
    case False
    then have sub: "sz_sub ?i 1 = ?i - 1" using i by (intro sz_sub_le) linarith+
    have "str ! (?i - 1) = 32 \<longleftrightarrow> p \<noteq> [] \<and> last p = 32"
    proof (cases "p = []")
      case True
      then have "str ! (?i - 1) = last pre" using False by (simp add: str nth_append last_conv_nth)
      then show ?thesis using True False Cons.prems(3) lr(3) by auto
    next
      case ne: False
      have "str = (pre @ butlast p) @ last p # (l # s @ r # bracketed l r ps @ rest)"
        unfolding str using append_butlast_last_id[OF ne] by simp
      moreover have "?i - 1 = length (pre @ butlast p)" using ne by (cases p) auto
      ultimately have "str ! (?i - 1) = last p" by (metis nth_append_length)
      then show ?thesis using ne by simp
    qed
    moreover have "rd str (?i - 1) = Some (str ! (?i - 1))" using False by (intro rd_in) (simp add: str)
    moreover have "space = (if p \<noteq> [] \<and> last p = 32 then 1 else 0)"
      by (cases p) (auto simp: space_def without_space_def)
    ultimately show ?thesis using False sub i by auto
  qed
  have diff: "sz (length pre + space) = length pre + space" "space \<le> length p" using i by (auto simp: space_def intro!: sz_small)
  have "sz_sub ?i (length pre + space) = length ?q" using diff i q(3) by (subst sz_sub_le) (auto simp: space_def)
  moreover have "length ?q < 2 ^ 31" using q(3) i Cons.prems(5) by simp
  ultimately have n: "to_int32 (sz_sub ?i (sz (length pre + space))) = int (length ?q)"
    using diff(1) by (simp add: to_int32_small)
  have dr: "drop (length pre) str = p @ l # s @ r # bracketed l r ps @ rest" by (simp add: str)
  have ch: "c_chars (drop (length pre) str) (length ?q) = Some ?q"
    unfolding dr using c_chars_ok[of "length ?q" "p @ l # s @ r # bracketed l r ps @ rest"] q cstr_id[OF q(2)] by simp
  have m: "length ?q < m" using Cons.prems(7) ps0 q(3) by simp
  have cat: "c_strncat (out @ replicate m 0) (drop (length pre) str) (length ?q) =
      Some ((out @ ?q) @ replicate (m - length ?q) 0)"
    using strncat_zeros[OF Cons.prems(6) q(2) ch m] .
  let ?pre = "pre @ p @ l # s @ [r]"
  have "rebuild_loop str len (bracket_indices (length ?pre) ps) (length ?pre) ((out @ ?q) @ replicate (m - length ?q) 0) =
      Some (length (?pre @ bracketed l r ps), ((out @ ?q) @ concat (map (\<lambda>(p, s). without_space p) ps)) @
        replicate (m - length ?q - length (concat (map (\<lambda>(p, s). without_space p) ps))) 0)"
    using Cons.prems ps0 q(2,3) by (intro Cons.IH) (auto simp: str)
  moreover have "sz (?i + (length s + 2)) = length ?pre" using i Cons.prems(4) ps0 by (subst sz_small) auto
  ultimately show ?case
    using ps0 sp n cat by (simp add: Let_def add.assoc)
qed simp

lemma Lexer_ExtractSubcommands_ok:
  assumes M: "grants_lex M" and lr: "l \<noteq> r" "l \<noteq> 0" "r \<noteq> 0" "r \<noteq> 32"
    and lx: "subcmdmarker_length lx = 1" "rd (cells (subcmdmarkers lx)) 0 = Some (Some (l # r # mrest))"
    and ps: "\<forall>(p, s) \<in> set ps. plain_for l r p \<and> plain_for l r s" and rest: "plain_for l r rest"
    and res: "lr_subcommands res = None" and len: "length (bracketed l r ps @ rest) < 2 ^ 31"
  shows "\<exists>res' z. Lexer_ExtractSubcommands M lx res (bracketed l r ps @ rest @ 0 # after) (length (bracketed l r ps @ rest)) =
      Some (Some (concat (map (\<lambda>(p, s). without_space p) ps) @ rest @ replicate z 0), res') \<and> 0 < z \<and>
    length (concat (map (\<lambda>(p, s). without_space p) ps) @ rest @ replicate z (0 :: byte)) = length (bracketed l r ps @ rest) + 1 \<and>
    sub_texts res' = map (\<lambda>(p, s). l # s @ [r]) ps \<and> lr_subcmd_length res' = length ps \<and>
    length ps \<le> length (cells (lr_subcommands res')) \<and>
    (\<forall>i < length ps. \<exists>b. cells (lr_subcommands res') ! i = Some b \<and> terminated b) \<and> same_but_subs res res'"
proof -
  let ?str = "bracketed l r ps @ rest @ 0 # after" and ?len = "length (bracketed l r ps @ rest)"
  let ?out = "concat (map (\<lambda>(p, s). without_space p) ps)"
  have g: "grants_all (lm_bytes M)" "grants_all (lm_ptrs M)" "grants_all (lm_indices M)" using M by (auto simp: grants_lex_def)
  define res0 where "res0 = res\<lparr>lr_subcmd_length := 0, lr_subcmd_reserved := 4,
      lr_subcommands := malloc_cells (lm_ptrs M) sizeof_ptr (sizeof_ptr * 4)\<rparr>"
  have ok0: "subs_ok (res0, Some (replicate 4 zero_index))" "sub_found (res0, Some (replicate 4 zero_index)) = []"
      "sub_texts res0 = []" "lr_subcmd_length res0 = 0" "same_but_subs res res0"
    using g by (simp_all add: subs_ok_def sub_found_def sub_texts_def res0_def sizeof_ptr_def mem_simps same_but_subs_def)
  have lenb: "length ps \<le> length (bracketed l r ps)" by (induction ps) auto
  obtain res' inds where scan: "marker_scan M ?str ?len l r 0 (res0, Some (replicate 4 zero_index)) = Some (res', inds)"
      "subs_ok (res', inds)" "lr_subcmd_length res' = length ps" "sub_found (res', inds) = bracket_indices 0 ps"
      "sub_texts res' = map (\<lambda>(p, s). l # s @ [r]) ps" "same_but_subs res0 res'"
    using marker_scan_ok[OF M lr(1-3) rest ok0(1), of ps 0 ?str "0 # after" ?len] ps len lenb ok0 by auto
  have marks: "markers_loop M lx ?str ?len 0 (subcmdmarker_length lx) (res0, Some (replicate 4 zero_index)) = Some (res', inds)"
    using lx scan(1) by (simp add: rd_def)
  have read: "read_cells (cells inds) 0 (lr_subcmd_length res') = Some (bracket_indices 0 ps)"
    using scan(2-4) by (simp add: subs_ok_def sub_found_def read_cells_def)
  have sort: "c_qsort SubCommandIndexCmp (bracket_indices 0 ps) = bracket_indices 0 ps"
    using bracket_indices_sorted[of 0 l r ps] len by (intro c_qsort_sorted) simp
  have build: "rebuild_loop ?str ?len (bracket_indices 0 ps) 0 (replicate (?len + 1) 0) =
      Some (length (bracketed l r ps), ?out @ replicate (?len + 1 - length ?out) 0)"
    using rebuild_loop_ok[OF lr(2-4) ps, of ?str "[]" "rest @ 0 # after" ?len "[]" "?len + 1"] len by simp
  have le: "length (without_space p) \<le> length p" for p by (simp add: without_space_def)
  have shorter: "length ?out \<le> length (bracketed l r ps)"
  proof (induction ps)
    case (Cons a ps)
    then show ?case using le[of "fst a"] by (cases a) auto
  qed simp
  have "0 \<notin> set (without_space p)" if "(p, s) \<in> set ps" for p s
    using ps that by (auto simp: without_space_def plain_for_def dest: in_set_butlastD)
  then have zero: "0 \<notin> set ?out" by fastforce
  have cat: "c_strncat (?out @ replicate (?len + 1 - length ?out) 0) (rest @ 0 # after) (length rest + 1) =
      Some ((?out @ rest) @ replicate (?len + 1 - length ?out - length rest) 0)"
  proof (rule strncat_zeros[OF zero])
    show "0 \<notin> set rest" using rest by (simp add: plain_for_def)
    then show "c_chars (rest @ 0 # after) (length rest + 1) = Some rest"
      by (subst c_chars_ok) (auto simp: terminated_def cstr_zero)
    show "length rest < ?len + 1 - length ?out" using shorter by simp
  qed
  have n: "sz (sz_sub ?len (length (bracketed l r ps)) + 1) = length rest + 1"
    using len by (subst sz_sub_le) (auto intro!: sz_small)
  have dr: "drop (length (bracketed l r ps)) ?str = rest @ 0 # after" by simp
  have "sz (?len + 1) = ?len + 1" using len by (intro sz_small) simp
  then have blank: "malloc_cells (lm_bytes M) 1 (sz (?len + 1)) = Some (map (fresh (lm_bytes M)) [0..<?len + 1])"
      "fill_cells (map (fresh (lm_bytes M)) [0..<?len + 1]) 0 (sz (?len + 1)) 0 = Some (replicate (?len + 1) 0)"
    using g by (simp_all add: mem_simps)
  have inds0: "fill_cells (cells (malloc_cells (lm_indices M) sizeof_index (sizeof_index * 4))) 0 4 zero_index = Some (replicate 4 zero_index)"
    using g by (simp add: mem_simps sizeof_index_def)
  have none: "lr_subcommands (res\<lparr>lr_subcmd_length := 0, lr_subcmd_reserved := 4\<rparr>) = None" using res by simp
  have "Lexer_ExtractSubcommands M lx res ?str ?len =
      Some (Some ((?out @ rest) @ replicate (?len + 1 - length ?out - length rest) 0), res')"
    unfolding Lexer_ExtractSubcommands_def blank(1) option.case blank(2) inds0 bind.bind_lunit Let_def
    by (simp only: none marks read sort build cat n dr bind.bind_lunit prod.case res0_def[symmetric] if_True simp_thms)
  moreover have "0 < ?len + 1 - length ?out - length rest" using shorter by simp
  moreover have "length (?out @ rest @ replicate (?len + 1 - length ?out - length rest) (0 :: byte)) = ?len + 1" using shorter by simp
  ultimately show ?thesis
    using scan same_but_subs_trans[OF ok0(5) scan(6)]
    by (intro exI[of _ res'] exI[of _ "?len + 1 - length ?out - length rest"]) (auto simp: subs_ok_def)
qed

lemma length_inside: "i < length ps \<Longrightarrow> length (snd (ps ! i)) \<le> length (bracketed l r ps)"
proof (induction ps arbitrary: i)
  case (Cons a ps)
  show ?case
  proof (cases i)
    case (Suc j)
    then show ?thesis using Cons.IH[of j] Cons.prems by (cases a) simp
  qed (cases a, simp)
qed simp

lemma Lexer_LexString_subs:
  assumes M: "grants_lex M" and lr: "lr_wf lr0" "lr_token_count lr0 = 0" "lr_orig_str lr0 = None" "same_but_subs lr0 lr1"
    and ex: "Lexer_ExtractSubcommands M lx lr0 str len = Some (Some (tx @ replicate z 0), lr1)"
    and z: "0 < z" "length (tx @ replicate z (0 :: byte)) = len + 1" and tx: "0 \<notin> set tx" "len < 2 ^ 49"
  shows "\<exists>lr'. Lexer_LexString M lx str len m True lr0 = Some lr' \<and> lr_wf lr' \<and>
    lr_items lr' = at_most m (words_from 0 tx) \<and> lr_subcommands lr' = lr_subcommands lr1 \<and> lr_subcmd_length lr' = lr_subcmd_length lr1"
proof -
  let ?b = "tx @ replicate z (0 :: byte)" and ?lr = "lr1\<lparr>lr_orig_str := Some (tx @ replicate z 0)\<rparr>"
  have g: "grants_all (lm_bytes M)" using M by (simp add: grants_lex_def)
  have z0: "tx @ replicate z 0 = tx @ 0 # replicate (z - 1) 0" using z(1) by (cases z) auto
  have "sz (len + 1) = len + 1" using tx(2) by (intro sz_small) simp
  moreover have "c_strncpy (map (fresh (lm_bytes M)) [0..<len + 1]) ?b (len + 1) = Some (tx @ replicate (len + 1 - length tx) 0)"
  proof -
    have "take (len + 1) ?b = ?b" using z(2) by simp
    then have "cstr (take (len + 1) ?b) = tx" using cstr_zeros[OF z(1), of tx] cstr_id[OF tx(1)] by simp
    then show ?thesis using z(2) by (subst c_strncpy_ok) simp_all
  qed
  moreover have "len + 1 - length tx = z" using z(2) by simp
  ultimately have copy: "c_strncpy (cells (malloc_cells (lm_bytes M) 1 (sz (len + 1)))) ?b (sz (len + 1)) = Some ?b"
    using g by (simp add: mem_simps)
  have wf: "lr_wf ?lr" "lr_token_count ?lr = 0" using lr by (auto simp: lr_wf_def same_but_subs_def)
  have l: "length tx < 2 ^ 50" "length ?b = Suc len" using z tx(2) by simp_all
  have d0: "drop 0 ?b = tx @ 0 # replicate (z - 1) 0" using z0 by simp
  have c: "lr_token_count ?lr + length tx < 2 ^ 50" "m = 0 \<or> lr_token_count ?lr < m" using l(1) wf(2) by auto
  obtain lr' where "lex_loop M len m ?b 0 ?lr = Some lr'" "lr_wf lr'"
      "lr_items lr' = lr_items ?lr @ at_most (m - lr_token_count ?lr) (words_from 0 tx)" "same_but_tokens ?lr lr'"
    using lex_loop_ok[OF M tx(2) wf(1) d0 tx(1) l(2) c] by blast
  then show ?thesis
    using lr(3) ex copy wf(2) by (auto simp: Lexer_LexString_def lr_items_def same_but_tokens_def)
qed

section \<open>Properties\<close>

text \<open>C17: lexing a line of input gives its words: the parts between spaces and newlines, in order, at most
  \<open>max_tokens\<close> of them when that is not 0. Each word is returned by \<open>GetTokenAt\<close>, and
  \<open>GetStringAfterToken\<close> gives the rest of the line from that word on.\<close>

theorem CommandLexer_words:
  assumes "grants_lex M" "0 \<notin> set line" "length line < 2 ^ 49"
  shows "\<exists>lr ws. CommandLexer_LexString M lx line m False = Some lr \<and>
    ws = at_most m (filter (\<lambda>w. w \<noteq> []) (split_at_byte 32 (map (\<lambda>b. if b = 10 then 32 else b) line))) \<and>
    LexerResult_GetTokenCount lr = length ws \<and>
    (\<forall>i < length ws. CommandLexerResult_GetTokenAt lr i = Some (ws ! i) \<and>
      (\<exists>s. s + length (ws ! i) \<le> length line \<and> take (length (ws ! i)) (drop s line) = ws ! i \<and>
         CommandLexerResult_GetStringAfterToken lr i = Some (drop s line)))"
proof -
  obtain lr0 where lr0: "LexerResult_Prepare M = Some lr0" "lr_wf lr0" "lr_token_count lr0 = 0" "lr_orig_str lr0 = None"
    using LexerResult_Prepare_ok[OF assms(1)] by blast
  then obtain lr where lr: "Lexer_LexString M lx (line @ [0]) (length line) m False lr0 = Some lr" "lr_wf lr"
      "lr_items lr = at_most m (words_from 0 line)" "lr_orig_str lr = Some (line @ [0])"
    using Lexer_LexString_ok[OF assms(1) lr0(2-4) assms(2,3), of lx "[]" m] by auto
  define ws where "ws = at_most m (map snd (words_from 0 line))"
  have l: "length ws = lr_token_count lr"
    using length_lr_items[OF lr(2)] lr(3) by (simp add: ws_def at_most_def split: if_splits)
  have item: "CommandLexerResult_GetTokenAt lr i = Some (ws ! i) \<and>
      (\<exists>s. s + length (ws ! i) \<le> length line \<and> take (length (ws ! i)) (drop s line) = ws ! i \<and>
         CommandLexerResult_GetStringAfterToken lr i = Some (drop s line))" if i: "i < length ws" for i
  proof -
    obtain s w where sw: "lr_items lr ! i = (s, w)" by (cases "lr_items lr ! i")
    have "i < length (lr_items lr)" using i l length_lr_items[OF lr(2)] by simp
    then have mem: "(s, w) \<in> set (words_from 0 line)"
      using sw lr(3) set_at_most nth_mem by (metis subsetD)
    have w: "ws ! i = w"
      using sw lr(3) i by (auto simp: ws_def at_most_def split: if_splits)
    have at: "s + length w \<le> length line" "take (length w) (drop s line) = w"
      using words_from_at[OF mem] by auto
    have "CommandLexerResult_GetTokenAt lr i = Some w"
      using GetTokenAt_ok[OF lr(2), of i] i l sw by (auto simp: CommandLexerResult_GetTokenAt_def std_string_ok)
    moreover have "0 \<notin> set (drop s line)" using assms(2) by (meson in_set_dropD)
    then have "cstr (drop s line @ [0]) = drop s line" "terminated (drop s line @ [0])"
      using cstr_zero by (auto simp: terminated_def)
    then have "CommandLexerResult_GetStringAfterToken lr i = Some (drop s line)"
      using GetStringAfterToken_ok[OF lr(2) _ lr(4), of i] i l sw at(1)
      by (simp add: CommandLexerResult_GetStringAfterToken_def std_string_ok)
    ultimately show ?thesis using at w by blast
  qed
  have "ws = at_most m (filter (\<lambda>w. w \<noteq> []) (split_at_byte 32 (map (\<lambda>b. if b = 10 then 32 else b) line)))"
    by (simp add: ws_def words_from_split)
  then show ?thesis
    using lr0(1) lr(1) l item
    by (intro exI[of _ lr] exI[of _ ws]) (simp add: CommandLexer_LexString_def LexerResult_GetTokenCount_def)
qed

definition lex_mgr :: lex_mem where
  "lex_mgr = \<lparr>lm_bytes = byte_mgr, lm_ptrs = \<lparr>grants = \<lambda>_. True, fresh = \<lambda>_. None\<rparr>,
     lm_sizes = \<lparr>grants = \<lambda>_. True, fresh = \<lambda>i. i + 7\<rparr>, lm_indices = \<lparr>grants = \<lambda>_. True, fresh = \<lambda>_. \<lparr>sc_index = 3, sc_length = 3\<rparr>\<rparr>\<rparr>"

lemma lex_mgr_grants: "grants_lex lex_mgr"
  by (simp add: lex_mgr_def grants_lex_def grants_all_def byte_mgr_def)

definition no_markers :: lexer where
  "no_markers = \<lparr>subcmdmarkers = Some (replicate 4 None), subcmdmarker_length = 0, subcmdmarker_reserved = 4\<rparr>"

theorem CommandLexer_words_witness:
  "\<exists>lr ws. CommandLexer_LexString lex_mgr no_markers (bytes_of '' say  hi all'') 2 False = Some lr \<and>
    ws = at_most 2 (filter (\<lambda>w. w \<noteq> []) (split_at_byte 32 (map (\<lambda>b. if b = 10 then 32 else b) (bytes_of '' say  hi all'')))) \<and>
    LexerResult_GetTokenCount lr = length ws \<and>
    (\<forall>i < length ws. CommandLexerResult_GetTokenAt lr i = Some (ws ! i) \<and>
      (\<exists>s. s + length (ws ! i) \<le> length (bytes_of '' say  hi all'') \<and>
         take (length (ws ! i)) (drop s (bytes_of '' say  hi all'')) = ws ! i \<and>
         CommandLexerResult_GetStringAfterToken lr i = Some (drop s (bytes_of '' say  hi all''))))"
  by (rule CommandLexer_words) (simp_all add: lex_mgr_grants bytes_of_def)

text \<open>C7: with one kind of brackets declared, a line that is made of plain text and bracketed parts comes apart:
  the scripts get the inside of every bracket, in order, and the words of the text around the brackets.\<close>

theorem CommandLexer_subcommands:
  assumes "grants_lex M" "l \<noteq> r" "l \<noteq> 0" "r \<noteq> 0" "r \<noteq> 32"
    "\<forall>(p, s) \<in> set ps. plain_for l r p \<and> plain_for l r s" "plain_for l r rest" "length (bracketed l r ps @ rest) < 2 ^ 31"
  shows "\<exists>lx0 lx lr ws. Lexer_Prepare M = Some lx0 \<and> CommandLexer_AddSubcommandMarkers M lx0 [l] [r] = Some lx \<and>
    CommandLexer_LexString M lx (bracketed l r ps @ rest) m True = Some lr \<and>
    LexerResult_GetSubcommandCount lr = length ps \<and>
    (\<forall>i < length ps. CommandLexerResult_GetSubCmdAt lr i = Some (snd (ps ! i))) \<and>
    ws = at_most m (filter (\<lambda>w. w \<noteq> []) (split_at_byte 32 (map (\<lambda>b. if b = 10 then 32 else b)
      (concat (map (\<lambda>(p, s). without_space p) ps) @ rest)))) \<and>
    LexerResult_GetTokenCount lr = length ws \<and>
    (\<forall>i < length ws. CommandLexerResult_GetTokenAt lr i = Some (ws ! i))"
proof -
  let ?line = "bracketed l r ps @ rest" and ?tx = "concat (map (\<lambda>(p, s). without_space p) ps) @ rest"
  have g: "grants_all (lm_bytes M)" "grants_all (lm_ptrs M)" using assms(1) by (auto simp: grants_lex_def)
  define lx0 where "lx0 = \<lparr>subcmdmarkers = Some (replicate 4 None), subcmdmarker_length = 0, subcmdmarker_reserved = 4\<rparr>"
  define lx where "lx = \<lparr>subcmdmarkers = Some ((replicate 4 None)[0 := Some [l, r]]), subcmdmarker_length = 1, subcmdmarker_reserved = 4\<rparr>"
  have lx0: "Lexer_Prepare M = Some lx0" using g by (simp add: Lexer_Prepare_def sizeof_ptr_def mem_simps lx0_def)
  have lx: "CommandLexer_AddSubcommandMarkers M lx0 [l] [r] = Some lx"
    using g by (simp add: CommandLexer_AddSubcommandMarkers_def Lexer_AddSubcommandMarkers_def mem_simps lx0_def lx_def sz_def upt_rec)
  have lx1: "subcmdmarker_length lx = 1" "rd (cells (subcmdmarkers lx)) 0 = Some (Some [l, r])"
    by (simp_all add: lx_def rd_def)
  obtain lr0 where lr0: "LexerResult_Prepare M = Some lr0" "lr_wf lr0" "lr_token_count lr0 = 0" "lr_orig_str lr0 = None"
      "lr_subcommands lr0 = None"
    using LexerResult_Prepare_ok[OF assms(1)] by blast
  obtain lr1 z where ex: "Lexer_ExtractSubcommands M lx lr0 (?line @ [0]) (length ?line) = Some (Some (?tx @ replicate z 0), lr1)"
      "0 < z" "length (?tx @ replicate z (0 :: byte)) = length ?line + 1"
      "sub_texts lr1 = map (\<lambda>(p, s). l # s @ [r]) ps" "lr_subcmd_length lr1 = length ps"
      "length ps \<le> length (cells (lr_subcommands lr1))"
      "\<forall>i < length ps. \<exists>b. cells (lr_subcommands lr1) ! i = Some b \<and> terminated b" "same_but_subs lr0 lr1"
    using Lexer_ExtractSubcommands_ok[OF assms(1-5) lx1 assms(6,7) lr0(5) assms(8), of "[]"] by auto
  have "0 \<notin> set (without_space p)" if "(p, s) \<in> set ps" for p s
    using assms(6) that by (auto simp: without_space_def plain_for_def dest: in_set_butlastD)
  then have tx: "0 \<notin> set ?tx" using assms(7) by (fastforce simp: plain_for_def)
  have len: "length ?line < 2 ^ 49" using assms(8) by simp
  obtain lr where lr: "Lexer_LexString M lx (?line @ [0]) (length ?line) m True lr0 = Some lr" "lr_wf lr"
      "lr_items lr = at_most m (words_from 0 ?tx)" "lr_subcommands lr = lr_subcommands lr1" "lr_subcmd_length lr = lr_subcmd_length lr1"
    using Lexer_LexString_subs[OF assms(1) lr0(2-4) ex(8,1-3) tx len] by blast
  define ws where "ws = at_most m (map snd (words_from 0 ?tx))"
  have l: "length ws = lr_token_count lr"
    using length_lr_items[OF lr(2)] lr(3) by (simp add: ws_def at_most_def split: if_splits)
  have toks: "CommandLexerResult_GetTokenAt lr i = Some (ws ! i)" if i: "i < length ws" for i
  proof -
    have "ws ! i = snd (lr_items lr ! i)" using i by (auto simp: ws_def lr(3) at_most_def split: if_splits)
    then show ?thesis using GetTokenAt_ok[OF lr(2), of i] i l by (auto simp: CommandLexerResult_GetTokenAt_def std_string_ok)
  qed
  have subs: "CommandLexerResult_GetSubCmdAt lr i = Some (snd (ps ! i))" if i: "i < length ps" for i
  proof -
    obtain b where b: "cells (lr_subcommands lr1) ! i = Some b" "terminated b" using ex(7) i by auto
    have "sub_texts lr1 ! i = l # snd (ps ! i) @ [r]" using ex(4) i by (simp add: case_prod_beta)
    moreover have "sub_texts lr1 ! i = cstr b" using i b(1) ex(5,6) by (simp add: sub_texts_def)
    ultimately have c: "cstr b = l # snd (ps ! i) @ [r]" by simp
    have "LexerResult_GetSubcommandAt lr i = Some (Some b)"
      using i b(1) ex(6) lr(4) by (simp add: LexerResult_GetSubcommandAt_def mem_simps)
    moreover have "length (snd (ps ! i)) + 2 < 2 ^ 64"
      using length_inside[OF i, of l r] len by simp
    then have "sz_sub (length (snd (ps ! i)) + 2) 2 = length (snd (ps ! i))" by (subst sz_sub_le) auto
    ultimately show ?thesis
      using std_string_ok[OF b(2)] c by (simp add: CommandLexerResult_GetSubCmdAt_def)
  qed
  have "ws = at_most m (filter (\<lambda>w. w \<noteq> []) (split_at_byte 32 (map (\<lambda>b. if b = 10 then 32 else b) ?tx)))"
    by (simp only: ws_def words_from_split)
  then show ?thesis
    using lx0 lx lr0(1) lr(1,5) ex(5) l toks subs
    by (intro exI[of _ lx0] exI[of _ lx] exI[of _ lr] exI[of _ ws])
      (simp add: CommandLexer_LexString_def LexerResult_GetTokenCount_def LexerResult_GetSubcommandCount_def)
qed

definition demo_pieces :: "(byte list \<times> byte list) list" where
  "demo_pieces = [(bytes_of ''hit '', bytes_of ''orc''), (bytes_of '' with '', bytes_of ''axe'')]"

theorem CommandLexer_subcommands_witness:
  "\<exists>lx0 lx lr ws. Lexer_Prepare lex_mgr = Some lx0 \<and> CommandLexer_AddSubcommandMarkers lex_mgr lx0 [91] [93] = Some lx \<and>
    CommandLexer_LexString lex_mgr lx (bracketed 91 93 demo_pieces @ bytes_of '' now'') 0 True = Some lr \<and>
    LexerResult_GetSubcommandCount lr = length demo_pieces \<and>
    (\<forall>i < length demo_pieces. CommandLexerResult_GetSubCmdAt lr i = Some (snd (demo_pieces ! i))) \<and>
    ws = at_most 0 (filter (\<lambda>w. w \<noteq> []) (split_at_byte 32 (map (\<lambda>b. if b = 10 then 32 else b)
      (concat (map (\<lambda>(p, s). without_space p) demo_pieces) @ bytes_of '' now'')))) \<and>
    LexerResult_GetTokenCount lr = length ws \<and>
    (\<forall>i < length ws. CommandLexerResult_GetTokenAt lr i = Some (ws ! i))"
proof (rule CommandLexer_subcommands)
  show "\<forall>(p, s) \<in> set demo_pieces. plain_for 91 93 p \<and> plain_for 91 93 s" by code_simp
  show "plain_for 91 93 (bytes_of '' now'')" by code_simp
  have "length (bracketed 91 93 demo_pieces @ bytes_of '' now'') = 24" by code_simp
  then show "length (bracketed 91 93 demo_pieces @ bytes_of '' now'') < 2 ^ 31" by simp
qed (simp_all add: lex_mgr_grants)

text \<open>The search for brackets gives up at a closing marker that stands before the opening one: nothing of the
  line is taken out, whatever follows.\<close>

theorem stray_marker_hides_subcommands:
  assumes "l \<noteq> r" "l \<notin> set xs" "r \<notin> set xs" "len = length (xs @ r # ys)"
  shows "marker_scan M (xs @ r # ys @ zs) len l r 0 acc = Some acc"
proof -
  let ?t = "xs @ r # ys"
  have m: "c_memchr (xs @ r # ys @ zs) c len = Some (first_idx (\<lambda>b. b = c) ?t)" for c
    using assms(4) c_memchr_ok[of len "xs @ r # ys @ zs" c] by simp
  have r: "first_idx (\<lambda>b. b = r) ?t = Some (length xs)" using assms(3) by (intro first_idx_skip) auto
  have "first_idx (\<lambda>b. b = l) ?t = map_option (\<lambda>i. length xs + i) (first_idx (\<lambda>b. b = l) (r # ys))"
  proof -
    have "first_idx (\<lambda>b. b = l) xs = None" using assms(2) by (auto simp: first_idx_None)
    then show ?thesis by (simp add: first_idx_append)
  qed
  then show ?thesis
    using m[of l] m[of r] r by (subst marker_scan.simps) (auto split: option.splits)
qed

theorem stray_marker_hides_subcommands_witness:
  "marker_scan lex_mgr ([] @ 93 # [91, 65, 93] @ [0]) 4 91 93 0 (undefined, None) = Some (undefined, None)"
  by (rule stray_marker_hides_subcommands) simp_all

text \<open>The script-facing methods do not check what they are asked: a word past the last one is a string made
  from a null pointer, and so is the result of \<open>PerformSubs\<close> when the number of words differs.\<close>

theorem GetTokenAt_past_end_crashes: "LexerResult_GetTokenCount lr \<le> idx \<Longrightarrow> CommandLexerResult_GetTokenAt lr idx = None"
  by (simp add: LexerResult_GetTokenCount_def CommandLexerResult_GetTokenAt_def LexerResult_GetTokenAt_def std_string_def)

theorem PerformSubs_mismatch_crashes:
  "TagLexerResult_GetTokenCount res \<noteq> length words \<Longrightarrow> CommandTagLexerResult_PerformSubs res words str = None"
  by (simp add: TagLexerResult_GetTokenCount_def CommandTagLexerResult_PerformSubs_def std_string_def)

end
