(* ===== verification/LineEditor.thy ===== *)
theory LineEditor
  imports Lexer Reflow Client
begin

text \<open>
  editabletext.cpp and leditor.cpp: the text objects of the scripts and the line editor of the players. The editor
  keeps the text in one buffer and a table of its lines; a line of input is appended to the text, or is a
  command when it starts with a full stop. What the editor sends to the client is the list of the texts it passes to
  \<open>Client_Sendf\<close> (\<open>False\<close>) and \<open>Client_SendfShowColorTags\<close> (\<open>True\<close>), in order; Client says what they do. The edited
  object is kept in the editor's record. Locks and console output are left out.
\<close>

section \<open>Texts of the scripts\<close>

record editable_text =
  et_text :: "byte list"
  et_needs_update :: bool
  et_cached :: "byte list"
  et_maxlength :: "32 word"
  et_maxlines :: "32 word"
  et_indentation :: "32 word"
  et_line_width :: "32 word"
  et_hyphenation :: bool

definition EditableText_Factory :: editable_text where
  "EditableText_Factory =
     \<lparr>et_text = [], et_needs_update = False, et_cached = [], et_maxlength = 0, et_maxlines = 0,
      et_indentation = 0, et_line_width = 80, et_hyphenation = False\<rparr>"

definition EditableText_Factory_from :: "byte list \<Rightarrow> editable_text" where
  "EditableText_Factory_from str = EditableText_Factory\<lparr>et_text := str\<rparr>"

definition EditableText_set :: "byte list \<Rightarrow> editable_text \<Rightarrow> editable_text" where
  "EditableText_set str t = t\<lparr>et_text := str, et_needs_update := True\<rparr>"

definition EditableText_assign :: "byte list \<Rightarrow> nat \<Rightarrow> editable_text \<Rightarrow> editable_text option" where
  "EditableText_assign str len t = do {
     bs \<leftarrow> read_cells str 0 len;
     Some (t\<lparr>et_text := bs, et_needs_update := True\<rparr>)
   }"

definition EditableText_append :: "byte list \<Rightarrow> editable_text \<Rightarrow> editable_text" where
  "EditableText_append str t = t\<lparr>et_text := et_text t @ str\<rparr>"

definition EditableText_GetString :: "editable_text \<Rightarrow> byte list \<times> editable_text" where
  "EditableText_GetString t =
     (let t = (if et_needs_update t then t\<lparr>et_cached := et_text t, et_needs_update := False\<rparr> else t) in (et_cached t, t))"

definition EditableText_SetMaxLines :: "32 word \<Rightarrow> editable_text \<Rightarrow> editable_text" where
  "EditableText_SetMaxLines v t = t\<lparr>et_maxlines := v\<rparr>"

definition EditableText_SetIndentationCount :: "32 word \<Rightarrow> editable_text \<Rightarrow> editable_text" where
  "EditableText_SetIndentationCount v t = t\<lparr>et_indentation := v\<rparr>"

definition EditableText_SetHyphenationEnabled :: "bool \<Rightarrow> editable_text \<Rightarrow> editable_text" where
  "EditableText_SetHyphenationEnabled v t = t\<lparr>et_hyphenation := v\<rparr>"

definition EditableText_SetLineWidth :: "32 word \<Rightarrow> editable_text \<Rightarrow> editable_text" where
  "EditableText_SetLineWidth v t = t\<lparr>et_line_width := v\<rparr>"

definition EditableText_SetMaxLength :: "32 word \<Rightarrow> editable_text \<Rightarrow> editable_text" where
  "EditableText_SetMaxLength v t = t\<lparr>et_maxlength := v\<rparr>"

section \<open>The editor\<close>

record text_line =
  tl_start :: nat
  tl_length :: nat

datatype editor_result = LEDITOR_OK | LEDITOR_QUIT | LEDITOR_SAVE

record line_editor =
  le_buffer :: cv_t
  le_lexer :: lexer
  le_lexresult :: lexer_result
  le_lines :: "text_line list option"
  le_lines_reserved :: nat
  le_lines_count :: nat
  le_bSaveResult :: bool
  le_refcount :: int
  le_client :: "nat option"
  le_max_lines :: nat
  le_max_length :: nat
  le_rfparams :: ReflowParameters
  le_target :: "editable_text option"

record editor_mem =
  ed_lex :: lex_mem
  ed_text :: text_mem
  ed_lines :: "text_line mem_mgr"

type_synonym messages = "(bool \<times> byte list) list"

abbreviation ed_bytes :: "editor_mem \<Rightarrow> byte mem_mgr" where
  "ed_bytes M \<equiv> lm_bytes (ed_lex M)"

definition sizeof_TextLine :: nat where
  "sizeof_TextLine = 16"

definition zero_line :: text_line where
  "zero_line = \<lparr>tl_start = 0, tl_length = 0\<rparr>"

text \<open>A message to the client of the editor: writing to a null client is a fault.\<close>

definition tell :: "line_editor \<Rightarrow> bool \<Rightarrow> byte list \<Rightarrow> messages outcome" where
  "tell le raw out = (if le_client le = None then Faults else Returns [(raw, out)])"

definition LineEditor_AddRef :: "line_editor \<Rightarrow> line_editor" where
  "LineEditor_AddRef le = le\<lparr>le_refcount := le_refcount le + 1\<rparr>"

definition LineEditor_Init :: "editor_mem \<Rightarrow> line_editor \<Rightarrow> (int \<times> line_editor) option" where
  "LineEditor_Init M le = do {
     lexer \<leftarrow> Lexer_Prepare (ed_lex M);
     lexresult \<leftarrow> LexerResult_Prepare (ed_lex M);
     (_, buffer) \<leftarrow> cv_init (ed_bytes M) 512;
     lines \<leftarrow> fill_cells (cells (malloc_cells (ed_lines M) sizeof_TextLine (sizeof_TextLine * 128))) 0 128 zero_line;
     Some (0, le\<lparr>le_lexer := lexer, le_lexresult := lexresult, le_bSaveResult := False, le_buffer := buffer,
                 le_lines_reserved := 128, le_lines := Some lines, le_lines_count := 0, le_client := None,
                 le_target := None, le_max_lines := 0, le_max_length := 0,
                 le_rfparams := \<lparr>num_indent_spaces = 0, rp_line_width = 80, bAllowHyphenation = False\<rparr>\<rparr>)
   }"

text \<open>\<open>le\<close> is what the new block holds.\<close>

definition LineEditor_Factory :: "editor_mem \<Rightarrow> line_editor \<Rightarrow> line_editor option" where
  "LineEditor_Factory M le = do { (_, le) \<leftarrow> LineEditor_Init M le; Some (le\<lparr>le_refcount := 1\<rparr>) }"

definition LineEditor_Destroy :: "line_editor \<Rightarrow> line_editor option" where
  "LineEditor_Destroy le = do {
     lr \<leftarrow> LexerResult_Destroy (le_lexresult le);
     lx \<leftarrow> Lexer_Destroy (le_lexer le);
     Some (le\<lparr>le_lines := None, le_buffer := cv_destroy (le_buffer le), le_lexresult := lr, le_lexer := lx\<rparr>)
   }"

text \<open>The last reference releases the text and frees the editor (\<open>Some None\<close>).\<close>

definition LineEditor_Release :: "line_editor \<Rightarrow> line_editor option option" where
  "LineEditor_Release le =
     (let le = le\<lparr>le_refcount := le_refcount le - 1\<rparr> in
      if le_refcount le = 0
      then map_option (\<lambda>_. None) (LineEditor_Destroy (le\<lparr>le_target := None\<rparr>))
      else Some (Some le))"

definition LineEditor_SetPlayerConnection :: "nat option \<Rightarrow> line_editor \<Rightarrow> line_editor" where
  "LineEditor_SetPlayerConnection m_pClient le = le\<lparr>le_client := m_pClient\<rparr>"

section \<open>The table of lines\<close>

function rebuild_lines :: "editor_mem \<Rightarrow> byte list \<Rightarrow> nat \<Rightarrow> nat \<Rightarrow> line_editor \<Rightarrow> line_editor option" where
  "rebuild_lines M buf len offset le =
     (if offset < len then
        (case c_memchr (drop offset buf) 10 (len - offset) of
           None \<Rightarrow> None
         | Some (Some k) \<Rightarrow>
             (case do {
                le \<leftarrow> (if le_lines_count le \<ge> le_lines_reserved le then do {
                       let oldsize = le_lines_reserved le;
                       let reserved = sz (2 * oldsize);
                       lines \<leftarrow> fill_cells (cells (realloc_cells (ed_lines M) sizeof_TextLine (le_lines le) (sz (sizeof_TextLine * reserved))))
                                  oldsize (sz_sub reserved oldsize) zero_line;
                       Some (le\<lparr>le_lines_reserved := reserved, le_lines := Some lines\<rparr>)
                     } else Some le);
                start \<leftarrow> (if le_lines_count le = 0 then Some 0
                         else do { l \<leftarrow> rd (cells (le_lines le)) (le_lines_count le - 1); Some (sz (tl_start l + tl_length l + 1)) });
                lines \<leftarrow> wr (cells (le_lines le)) (le_lines_count le) \<lparr>tl_start = start, tl_length = k\<rparr>;
                Some (le\<lparr>le_lines := Some lines, le_lines_count := sz (le_lines_count le + 1)\<rparr>)
              } of
                None \<Rightarrow> None
              | Some le \<Rightarrow> rebuild_lines M buf len (offset + k + 1) le)
         | Some None \<Rightarrow>
             (if le_lines_count le = 0 then do {
                lines \<leftarrow> wr (cells (le_lines le)) 0 \<lparr>tl_start = 0, tl_length = len\<rparr>;
                Some (le\<lparr>le_lines := Some lines, le_lines_count := 1\<rparr>)
              } else Some le))
      else Some le)"
  by pat_completeness auto
termination by (relation "measure (\<lambda>(M, buf, len, offset, le). len - offset)") auto

declare rebuild_lines.simps [simp del]

definition LineEditor_RebuildLineIndices :: "editor_mem \<Rightarrow> line_editor \<Rightarrow> nat \<Rightarrow> line_editor option" where
  "LineEditor_RebuildLineIndices M le from_idx =
     (if from_idx > le_lines_count le then Some le
      else do {
        l \<leftarrow> rd (cells (le_lines le)) from_idx;
        let le = le\<lparr>le_lines_count := from_idx\<rparr>;
        case cdata (le_buffer le) of
          None \<Rightarrow> Some le
        | Some buf \<Rightarrow> rebuild_lines M buf (clength (le_buffer le)) (tl_start l) le
      })"

section \<open>Changing the text\<close>

definition LineEditor_Append :: "editor_mem \<Rightarrow> line_editor \<Rightarrow> byte list \<Rightarrow> nat \<Rightarrow> (messages \<times> line_editor) outcome" where
  "LineEditor_Append M le data datalen =
     bind_outcome (defined (CountNewlines data datalen)) (\<lambda>nlcount.
       if le_max_length le \<noteq> 0 \<and> sz (datalen + clength (le_buffer le)) > le_max_length le then
         bind_outcome (tell le False (bytes_of ''Would exceed the maximum length of this text ('' @ decimal (le_max_length le) @ bytes_of '')'' @ [13, 10]))
           (\<lambda>ms. Returns (ms, le))
       else if le_max_lines le \<noteq> 0 \<and> sz (le_lines_count le + nlcount) > le_max_lines le then
         bind_outcome (tell le False (bytes_of ''Would exceed the maximum number of lines ('' @ decimal (le_max_lines le) @ bytes_of '').'' @ [13, 10]))
           (\<lambda>ms. Returns (ms, le))
       else defined (do {
         (_, buffer) \<leftarrow> cv_appendstr (ed_bytes M) (le_buffer le) data datalen;
         le \<leftarrow> LineEditor_RebuildLineIndices M (le\<lparr>le_buffer := buffer\<rparr>)
                (if le_lines_count le > 1 then le_lines_count le - 1 else 0);
         Some ([], le)
       }))"

text \<open>\<open>SetEditTarget\<close> reads the text before a client is known.\<close>

definition LineEditor_SetEditTarget :: "editor_mem \<Rightarrow> editable_text \<Rightarrow> line_editor \<Rightarrow> (messages \<times> line_editor) outcome" where
  "LineEditor_SetEditTarget M target le =
     (case EditableText_GetString target of (str, target) \<Rightarrow>
        let le = le\<lparr>le_target := Some target, le_max_length := unat (et_maxlength target),
                    le_max_lines := unat (et_maxlines target),
                    le_rfparams := \<lparr>num_indent_spaces = unat (et_indentation target) mod 256,
                      rp_line_width = sint (et_line_width target), bAllowHyphenation = et_hyphenation target\<rparr>\<rparr>
        in LineEditor_Append M le (str @ [0]) (length str))"

definition LineEditor_InsertAt :: "editor_mem \<Rightarrow> line_editor \<Rightarrow> nat \<Rightarrow> byte list \<Rightarrow> nat \<Rightarrow> (messages \<times> line_editor) outcome" where
  "LineEditor_InsertAt M le line_idx data datalen =
     (if line_idx > le_lines_count le then LineEditor_Append M le data datalen
      else
        bind_outcome (defined (do {
          l \<leftarrow> rd (cells (le_lines le)) line_idx;
          let startidx = tl_start l;
          let copylen = sz_sub (clength (le_buffer le)) startidx;
          ys \<leftarrow> read_cells (cells (cdata (le_buffer le))) startidx copylen;
          temp \<leftarrow> copy_cells (cells (malloc_cells (ed_bytes M) 1 copylen)) 0 ys;
          d \<leftarrow> fill_cells (cells (cdata (le_buffer le))) startidx copylen 0;
          Some (temp, copylen, le\<lparr>le_buffer := (le_buffer le)\<lparr>cdata := Some d\<rparr>\<rparr>)
        })) (\<lambda>(temp, copylen, le).
        bind_outcome (LineEditor_Append M le data datalen) (\<lambda>(ms, le).
        bind_outcome (LineEditor_Append M le temp copylen) (\<lambda>(ms', le).
        bind_outcome (defined (LineEditor_RebuildLineIndices M le line_idx)) (\<lambda>le.
          Returns (ms @ ms', le))))))"

definition LineEditor_DeleteLine :: "editor_mem \<Rightarrow> line_editor \<Rightarrow> nat \<Rightarrow> line_editor option" where
  "LineEditor_DeleteLine M le line_idx =
     (if line_idx > le_lines_count le then Some le
      else do {
        l \<leftarrow> rd (cells (le_lines le)) line_idx;
        let startidx = sz (tl_start l + tl_length l + 1);
        let copylen = sz_sub (clength (le_buffer le)) startidx;
        ys \<leftarrow> read_cells (cells (cdata (le_buffer le))) startidx copylen;
        temp \<leftarrow> copy_cells (cells (malloc_cells (ed_bytes M) 1 copylen)) 0 ys;
        d \<leftarrow> fill_cells (cells (cdata (le_buffer le))) startidx copylen 0;
        d \<leftarrow> copy_cells d (tl_start l) (take copylen temp);
        LineEditor_RebuildLineIndices M (le\<lparr>le_buffer := (le_buffer le)\<lparr>cdata := Some d\<rparr>\<rparr>) line_idx
      })"

section \<open>The commands\<close>

text \<open>\<open>atoi\<close>: the value of \<open>strtol\<close>, which saturates, cut to an \<open>int\<close>.\<close>

definition c_atoi :: "byte list \<Rightarrow> int" where
  "c_atoi str =
     (let s = dropWhile c_isspace str;
          neg = (s \<noteq> [] \<and> hd s = 45);
          s = (if s \<noteq> [] \<and> (hd s = 45 \<or> hd s = 43) then tl s else s);
          v = int (digits_value (takeWhile c_isdigit s));
          v = (if neg then max (- (2 ^ 63)) (- v) else min (2 ^ 63 - 1) v)
      in sint (word_of_int v :: 32 word))"

text \<open>Numbers and names padded with zeros or spaces to a width: \<open>%02lu\<close>, \<open>%20s\<close>, \<open>%-20s\<close>.\<close>

definition two_digits :: "nat \<Rightarrow> byte list" where
  "two_digits n = (if n < 10 then 48 # decimal n else decimal n)"

definition pad_left :: "nat \<Rightarrow> byte list \<Rightarrow> byte list" where
  "pad_left n s = replicate (n - length s) 32 @ s"

definition pad_right :: "nat \<Rightarrow> byte list \<Rightarrow> byte list" where
  "pad_right n s = s @ replicate (n - length s) 32"

text \<open>Printing \<open>n\<close> lines from \<open>idx\<close> through one line buffer.\<close>

fun print_loop ::
    "editor_mem \<Rightarrow> line_editor \<Rightarrow> bool \<Rightarrow> nat \<Rightarrow> nat \<Rightarrow> c_str \<Rightarrow> nat \<Rightarrow> messages outcome" where
  "print_loop M le raw idx 0 linebuf reserved = Returns []"
| "print_loop M le raw idx (Suc n) linebuf reserved =
     bind_outcome (defined (do {
       l \<leftarrow> rd (cells (le_lines le)) idx;
       let linelen = tl_length l;
       let (linebuf, reserved) =
         (if reserved < linelen
          then (realloc_cells (ed_bytes M) 1 linebuf (sz (2 * reserved)), sz (2 * reserved)) else (linebuf, reserved));
       linebuf \<leftarrow> wr (cells linebuf) linelen 0;
       ys \<leftarrow> read_cells (cells (cdata (le_buffer le))) (tl_start l) linelen;
       linebuf \<leftarrow> copy_cells linebuf 0 ys;
       s \<leftarrow> std_string (Some linebuf);
       Some (two_digits idx @ bytes_of ''] '' @ s @ [10], linebuf, reserved)
     })) (\<lambda>(out, linebuf, reserved).
     bind_outcome (tell le raw out) (\<lambda>ms.
     bind_outcome (print_loop M le raw (Suc idx) n (Some linebuf) reserved) (\<lambda>ms'.
       Returns (ms @ ms'))))"

definition EditorCmdPrint :: "editor_mem \<Rightarrow> line_editor \<Rightarrow> lexer_result \<Rightarrow> (editor_result \<times> messages \<times> line_editor) outcome" where
  "EditorCmdPrint M le lr =
     (if clength (le_buffer le) \<noteq> 0 then
        bind_outcome (defined (
          if LexerResult_GetTokenCount lr > 1 then do {
            p \<leftarrow> LexerResult_GetTokenAt lr 1; b \<leftarrow> rd (cells p) 0; Some (b = 114) }
          else Some False)) (\<lambda>bHideColor.
        bind_outcome (defined (fill_cells (cells (malloc_cells (ed_bytes M) 1 512)) 0 512 0)) (\<lambda>linebuf.
        bind_outcome (print_loop M le bHideColor 0 (le_lines_count le) (Some linebuf) 512) (\<lambda>ms.
          Returns (LEDITOR_OK, ms, le))))
      else bind_outcome (tell le False (bytes_of ''Buffer is empty.'' @ [10])) (\<lambda>ms. Returns (LEDITOR_OK, ms, le)))"

definition EditorCmdFormat :: "editor_mem \<Rightarrow> nat \<Rightarrow> line_editor \<Rightarrow> (editor_result \<times> messages \<times> line_editor) outcome" where
  "EditorCmdFormat M fuel le =
     bind_outcome (defined (cv_init (ed_bytes M) (clength (le_buffer le)))) (\<lambda>(_, out).
     bind_outcome (ReflowText (ed_text M) fuel (cells (cdata (le_buffer le))) (clength (le_buffer le)) out (le_rfparams le)) (\<lambda>out.
     case cv_swap (le_buffer le) out of (buffer, out) \<Rightarrow>
     bind_outcome (defined (LineEditor_RebuildLineIndices M (le\<lparr>le_buffer := buffer\<rparr>) 0)) (\<lambda>le.
       Returns (LEDITOR_OK, [], le))))"

definition too_few_arguments :: "line_editor \<Rightarrow> (editor_result \<times> messages \<times> line_editor) outcome" where
  "too_few_arguments le =
     bind_outcome (tell le False (bytes_of ''*Too few arguments.'' @ [10])) (\<lambda>ms. Returns (LEDITOR_OK, ms, le))"

text \<open>The number after the command, as a \<open>size_t\<close>.\<close>

definition line_number :: "lexer_result \<Rightarrow> nat option" where
  "line_number lr = do {
     pos_str \<leftarrow> LexerResult_GetTokenAt lr 1;
     s \<leftarrow> std_string pos_str;
     Some (sz_of_int (c_atoi s))
   }"

definition EditorCmdDelete :: "editor_mem \<Rightarrow> line_editor \<Rightarrow> lexer_result \<Rightarrow> (editor_result \<times> messages \<times> line_editor) outcome" where
  "EditorCmdDelete M le lr =
     (if LexerResult_GetTokenCount lr < 2 then too_few_arguments le
      else bind_outcome (defined (do { idx \<leftarrow> line_number lr; LineEditor_DeleteLine M le idx })) (\<lambda>le.
        Returns (LEDITOR_OK, [], le)))"

definition EditorCmdInsert :: "editor_mem \<Rightarrow> line_editor \<Rightarrow> lexer_result \<Rightarrow> (editor_result \<times> messages \<times> line_editor) outcome" where
  "EditorCmdInsert M le lr =
     (if LexerResult_GetTokenCount lr < 2 then too_few_arguments le
      else bind_outcome (defined (line_number lr)) (\<lambda>insert_idx.
        if LexerResult_GetTokenCount lr > 2 then
          bind_outcome (defined (do {
            insertstr \<leftarrow> LexerResult_GetStringAfterToken lr 2;
            n \<leftarrow> c_strlen insertstr;
            temp \<leftarrow> fill_cells (cells (malloc_cells (ed_bytes M) 1 (sz (n + 2)))) 0 (sz (n + 2)) 0;
            temp \<leftarrow> c_snprintf temp (sz (n + 2)) (take n insertstr @ [10]);
            Some (temp, n)
          })) (\<lambda>(temp, n).
          bind_outcome (LineEditor_InsertAt M le insert_idx temp (sz (n + 2))) (\<lambda>(ms, le).
            Returns (LEDITOR_OK, ms, le)))
        else Returns (LEDITOR_OK, [], le)))"

definition EditorCmdQuit :: "line_editor \<Rightarrow> editor_result \<times> messages \<times> line_editor" where
  "EditorCmdQuit le = (LEDITOR_QUIT, [], le\<lparr>le_bSaveResult := False\<rparr>)"

definition EditorCmdSave :: "line_editor \<Rightarrow> (editor_result \<times> messages \<times> line_editor) option" where
  "EditorCmdSave le = do {
     let le = le\<lparr>le_bSaveResult := True\<rparr>;
     target \<leftarrow> (case le_target le of
                 None \<Rightarrow> Some None
               | Some t \<Rightarrow> map_option Some (EditableText_assign (cells (cdata (le_buffer le))) (clength (le_buffer le)) t));
     Some (LEDITOR_SAVE, [], le\<lparr>le_target := target\<rparr>)
   }"

definition EditorCmdClear :: "editor_mem \<Rightarrow> line_editor \<Rightarrow> (editor_result \<times> messages \<times> line_editor) option" where
  "EditorCmdClear M le = do {
     buffer \<leftarrow> cv_clear (le_buffer le);
     le \<leftarrow> LineEditor_RebuildLineIndices M (le\<lparr>le_bSaveResult := False, le_buffer := buffer\<rparr>) 0;
     Some (LEDITOR_OK, [], le)
   }"

datatype editor_cmd = CmdClear | CmdDelete | CmdFormat | CmdHelp | CmdInsert | CmdPrint | CmdQuit | CmdSave

record editor_command =
  ec_name :: "byte list"
  ec_usage :: "byte list"
  ec_desc :: "byte list"
  ec_cmdfp :: editor_cmd

definition command :: "string \<Rightarrow> string \<Rightarrow> string \<Rightarrow> editor_cmd \<Rightarrow> editor_command" where
  "command name usage desc c = \<lparr>ec_name = bytes_of name, ec_usage = bytes_of usage, ec_desc = bytes_of desc, ec_cmdfp = c\<rparr>"

definition g_editor_commands :: "editor_command list" where
  "g_editor_commands =
     [command ''.c'' ''.c'' ''Clear buffer'' CmdClear,
      command ''.d'' ''.d <line #>'' ''Delete line #'' CmdDelete,
      command ''.f'' ''.f'' ''Format buffer'' CmdFormat,
      command ''.h'' ''.h'' ''Show this help'' CmdHelp,
      command ''.i'' ''.i <line #> <text>'' ''Insert text before line #'' CmdInsert,
      command ''.p'' ''.p [r]'' ''Show buffer; r flag shows raw color tags'' CmdPrint,
      command ''.q'' ''.q'' ''Quit without saving'' CmdQuit,
      command ''.s'' ''.s'' ''Save buffer and quit'' CmdSave]"

definition EditorCmdHelp :: "line_editor \<Rightarrow> (editor_result \<times> messages \<times> line_editor) outcome" where
  "EditorCmdHelp le =
     (let row = (\<lambda>a b. pad_left 20 a @ bytes_of ''   '' @ pad_right 20 b @ [10]);
          outs = row (bytes_of ''Command/Usage'') (bytes_of ''Description'') # (replicate 53 45 @ [10]) #
            map (\<lambda>c. row (ec_usage c) (ec_desc c)) g_editor_commands
      in if le_client le = None then Faults else Returns (LEDITOR_OK, map (\<lambda>out. (False, out)) outs, le))"

definition EditorCmdCmp :: "byte list \<Rightarrow> editor_command \<Rightarrow> int option" where
  "EditorCmdCmp a c = c_strcmp a (ec_name c @ [0])"

definition run_command ::
    "editor_mem \<Rightarrow> nat \<Rightarrow> editor_cmd \<Rightarrow> line_editor \<Rightarrow> lexer_result \<Rightarrow> (editor_result \<times> messages \<times> line_editor) outcome" where
  "run_command M fuel c le lr =
     (case c of
        CmdClear \<Rightarrow> defined (EditorCmdClear M le)
      | CmdDelete \<Rightarrow> EditorCmdDelete M le lr
      | CmdFormat \<Rightarrow> EditorCmdFormat M fuel le
      | CmdHelp \<Rightarrow> EditorCmdHelp le
      | CmdInsert \<Rightarrow> EditorCmdInsert M le lr
      | CmdPrint \<Rightarrow> EditorCmdPrint M le lr
      | CmdQuit \<Rightarrow> Returns (EditorCmdQuit le)
      | CmdSave \<Rightarrow> defined (EditorCmdSave le))"

definition LineEditor_ProcessInput ::
    "editor_mem \<Rightarrow> nat \<Rightarrow> line_editor \<Rightarrow> byte list \<Rightarrow> nat \<Rightarrow> (editor_result \<times> messages \<times> line_editor) outcome" where
  "LineEditor_ProcessInput M fuel le inp len =
     bind_outcome (defined (rd inp 0)) (\<lambda>b.
       if b = 46 then
         bind_outcome (defined (do {
           lr \<leftarrow> LexerResult_Clear (le_lexresult le);
           lr \<leftarrow> Lexer_LexString (ed_lex M) (le_lexer le) inp len 2 False lr;
           cmdstr \<leftarrow> LexerResult_GetTokenAt lr 0;
           pCmd \<leftarrow> c_bsearch (EditorCmdCmp (cells cmdstr)) g_editor_commands 0 8;
           Some (lr, pCmd)
         })) (\<lambda>(lr, pCmd).
           let le = le\<lparr>le_lexresult := lr\<rparr> in
           case pCmd of
             Some c \<Rightarrow> run_command M fuel (ec_cmdfp c) le lr
           | None \<Rightarrow> bind_outcome (tell le False (bytes_of ''*Unrecognized command.'' @ [10])) (\<lambda>ms. Returns (LEDITOR_OK, ms, le)))
       else bind_outcome (LineEditor_Append M le inp len) (\<lambda>(ms, le). Returns (LEDITOR_OK, ms, le)))"

text \<open>What the scripts call: the input is a \<open>std::string\<close>.\<close>

definition LineEditor_ProcessInputString ::
    "editor_mem \<Rightarrow> nat \<Rightarrow> byte list \<Rightarrow> line_editor \<Rightarrow> (messages \<times> line_editor) outcome" where
  "LineEditor_ProcessInputString M fuel str le =
     bind_outcome (LineEditor_ProcessInput M fuel le (str @ [0]) (length str)) (\<lambda>(_, ms, le). Returns (ms, le))"

section \<open>The lines of a text\<close>

text \<open>Where the lines of a text that end with a newline lie in it.\<close>

fun spans_of :: "nat \<Rightarrow> byte list list \<Rightarrow> text_line list" where
  "spans_of st [] = []"
| "spans_of st (w # ws) = \<lparr>tl_start = st, tl_length = length w\<rparr> # spans_of (st + length w + 1) ws"

definition spans :: "nat \<Rightarrow> byte list \<Rightarrow> text_line list" where
  "spans st xs = spans_of st (butlast (split_at_byte 10 xs))"

lemma spans_none: "10 \<notin> set xs \<Longrightarrow> spans st xs = []"
  by (simp add: spans_def split_at_byte_none)

lemma spans_line: "10 \<notin> set w \<Longrightarrow> spans st (w @ 10 # ys) = \<lparr>tl_start = st, tl_length = length w\<rparr> # spans (st + length w + 1) ys"
  by (simp add: spans_def split_at_byte_some)

lemma spans_tail: "10 \<notin> set ys \<Longrightarrow> spans st (xs @ ys) = spans st xs"
proof (induction xs arbitrary: st rule: length_induct)
  case (1 xs)
  show ?case
  proof (cases "10 \<in> set xs")
    case True
    then obtain w zs where xs: "xs = w @ 10 # zs" "10 \<notin> set w" by (meson split_list_first)
    then show ?thesis using 1 by (simp add: spans_line)
  qed (use 1(2) in \<open>simp add: spans_none\<close>)
qed

lemma length_spans: "length (spans st xs) = count_list xs 10"
proof (induction xs arbitrary: st rule: length_induct)
  case (1 xs)
  show ?case
  proof (cases "10 \<in> set xs")
    case True
    then obtain w zs where xs: "xs = w @ 10 # zs" "10 \<notin> set w" by (meson split_list_first)
    then have "count_list w 10 = 0" by simp
    then show ?thesis using 1 xs by (simp add: spans_line)
  qed (simp add: spans_none)
qed

text \<open>A table can be rebuilt from the start of any of its lines.\<close>

lemma spans_rebuild:
  "n < length (spans st xs) \<Longrightarrow> s = tl_start (spans st xs ! n) \<Longrightarrow>
   st + n \<le> s \<and> s \<le> st + length xs \<and> take n (spans st xs) @ spans s (drop (s - st) (xs @ ys)) = spans st (xs @ ys) \<and>
   (n = 0 \<longrightarrow> s = st) \<and> (0 < n \<longrightarrow> tl_start (spans st xs ! (n - 1)) + tl_length (spans st xs ! (n - 1)) + 1 = s)"
proof (induction n arbitrary: st xs)
  case 0
  then have "10 \<in> set xs" using spans_none by fastforce
  then obtain w zs where "xs = w @ 10 # zs" "10 \<notin> set w" by (meson split_list_first)
  then show ?case using 0 by (simp add: spans_line)
next
  case (Suc n)
  then have "10 \<in> set xs" using spans_none by fastforce
  then obtain w zs where xs: "xs = w @ 10 # zs" "10 \<notin> set w" by (meson split_list_first)
  define D where "D = drop (s - (st + length w + 1)) (zs @ ys)"
  have ih: "st + length w + 1 + n \<le> s \<and> s \<le> st + length w + 1 + length zs \<and>
     take n (spans (st + length w + 1) zs) @ spans s D = spans (st + length w + 1) (zs @ ys) \<and>
     (n = 0 \<longrightarrow> s = st + length w + 1) \<and>
     (0 < n \<longrightarrow> tl_start (spans (st + length w + 1) zs ! (n - 1)) + tl_length (spans (st + length w + 1) zs ! (n - 1)) + 1 = s)"
    unfolding D_def using Suc.prems xs by (intro Suc.IH) (simp_all add: spans_line)
  have "st + length w + 1 + n \<le> s" using ih by blast
  then have "s - st = (s - (st + length w + 1)) + (length w + 1)" by arith
  then have "drop (s - st) (xs @ ys) = drop (s - (st + length w + 1)) (drop (length w + 1) (xs @ ys))"
    by (simp only: drop_drop)
  moreover have "drop (length w + 1) (xs @ ys) = zs @ ys" using xs(1) by simp
  ultimately have "drop (s - st) (xs @ ys) = D" by (simp only: D_def)
  then show ?case using ih xs by (cases n) (simp_all add: spans_line)
qed

definition lines_ok :: "line_editor \<Rightarrow> bool" where
  "lines_ok le \<longleftrightarrow> length (cells (le_lines le)) = le_lines_reserved le \<and> le_lines_count le \<le> le_lines_reserved le \<and>
     0 < le_lines_reserved le \<and> le_lines_reserved le \<le> 2 ^ 51 \<and> tl_start (cells (le_lines le) ! 0) = 0"

definition line_table :: "line_editor \<Rightarrow> text_line list" where
  "line_table le = take (le_lines_count le) (cells (le_lines le))"

definition with_lines :: "line_editor \<Rightarrow> text_line list option \<Rightarrow> nat \<Rightarrow> nat \<Rightarrow> line_editor" where
  "with_lines le t r n = le\<lparr>le_lines := t, le_lines_reserved := r, le_lines_count := n\<rparr>"

lemma with_lines_self: "with_lines le (le_lines le) (le_lines_reserved le) (le_lines_count le) = le"
  by (simp add: with_lines_def)

lemma rebuild_lines_ok:
  assumes M: "grants_all (ed_lines M)" and len: "len \<le> length buf" "len < 2 ^ 50"
  shows "lines_ok le \<Longrightarrow> offset \<le> len \<Longrightarrow> le_lines_count le \<le> offset \<Longrightarrow>
    (le_lines_count le = 0 \<longrightarrow> offset = 0) \<Longrightarrow>
    (0 < le_lines_count le \<longrightarrow> tl_start (cells (le_lines le) ! (le_lines_count le - 1)) + tl_length (cells (le_lines le) ! (le_lines_count le - 1)) + 1 = offset) \<Longrightarrow>
    \<exists>le' t r n. rebuild_lines M buf len offset le = Some le' \<and> lines_ok le' \<and> le' = with_lines le t r n \<and>
      line_table le' = (if le_lines_count le = 0 \<and> 10 \<notin> set (take len buf) \<and> 0 < len then [\<lparr>tl_start = 0, tl_length = len\<rparr>]
        else line_table le @ spans offset (take (len - offset) (drop offset buf)))"
proof (induction "len - offset" arbitrary: offset le rule: less_induct)
  case less
  let ?n = "le_lines_count le"
  show ?case
  proof (cases "offset < len")
    case False
    then have "rebuild_lines M buf len offset le = Some le" by (simp add: rebuild_lines.simps)
    moreover have "\<not> (?n = 0 \<and> 0 < len)" using False less.prems(2,4) by auto
    moreover have "spans offset (take (len - offset) (drop offset buf)) = []" using False by (simp add: spans_none)
    ultimately show ?thesis using less.prems(1) with_lines_self[of le] by (metis append_Nil2)
  next
    case True
    note split = memchr_split[OF True len(1), of 10]
    show ?thesis
    proof (cases "c_memchr (drop offset buf) 10 (len - offset) = Some None")
      case none: True
      then have nl: "10 \<notin> set (take (len - offset) (drop offset buf))" using split by auto
      show ?thesis
      proof (cases "?n = 0")
        case z: True
        define le' where "le' = le\<lparr>le_lines := Some ((cells (le_lines le))[0 := \<lparr>tl_start = 0, tl_length = len\<rparr>]), le_lines_count := 1\<rparr>"
        have "rebuild_lines M buf len offset le = Some le'"
          using True none z less.prems(1) by (subst rebuild_lines.simps) (simp add: le'_def lines_ok_def mem_simps)
        moreover have "lines_ok le'" "line_table le' = [\<lparr>tl_start = 0, tl_length = len\<rparr>]"
          using less.prems(1) by (auto simp: le'_def lines_ok_def line_table_def take_Suc_conv_app_nth Suc_le_eq)
        moreover have "le' = with_lines le (le_lines le') (le_lines_reserved le) 1" by (simp add: le'_def with_lines_def)
        ultimately show ?thesis using z nl less.prems(4) True by auto
      next
        case nz: False
        have "rebuild_lines M buf len offset le = Some le" using True none nz by (subst rebuild_lines.simps) simp
        then show ?thesis using nz spans_none[OF nl, of offset] less.prems(1) with_lines_self[of le] by (metis append_Nil2)
      qed
    next
      case some: False
      then obtain k where k: "c_memchr (drop offset buf) 10 (len - offset) = Some (Some k)" "offset + k < len"
        "10 \<notin> set (take k (drop offset buf))"
        "take (len - offset) (drop offset buf) = take k (drop offset buf) @ 10 # take (len - (offset + k + 1)) (drop (offset + k + 1) buf)"
        using split by auto
      define le1 where "le1 = (if ?n \<ge> le_lines_reserved le
          then le\<lparr>le_lines_reserved := 2 * le_lines_reserved le,
             le_lines := Some (cells (le_lines le) @ replicate (le_lines_reserved le) zero_line)\<rparr> else le)"
      have small: "?n < 2 ^ 50" using less.prems(2,3) len(2) by simp
      have grow: "(if le_lines_count le \<ge> le_lines_reserved le then do {
                       let oldsize = le_lines_reserved le;
                       let reserved = sz (2 * oldsize);
                       lines \<leftarrow> fill_cells (cells (realloc_cells (ed_lines M) sizeof_TextLine (le_lines le) (sz (sizeof_TextLine * reserved))))
                                  oldsize (sz_sub reserved oldsize) zero_line;
                       Some (le\<lparr>le_lines_reserved := reserved, le_lines := Some lines\<rparr>)
                     } else Some le) = Some le1"
      proof (cases "?n \<ge> le_lines_reserved le")
        case g: True
        then have eq: "?n = le_lines_reserved le" using less.prems(1) by (simp add: lines_ok_def)
        let ?r = "le_lines_reserved le"
        have s: "sz (2 * ?r) = 2 * ?r" "sz (16 * (2 * ?r)) = 16 * (2 * ?r)" "sz_sub (2 * ?r) ?r = ?r"
          using small eq by (auto intro!: sz_small simp: sz_sub_le)
        have lr: "length (cells (le_lines le)) = ?r" using less.prems(1) by (simp add: lines_ok_def)
        have "realloc_cells (ed_lines M) sizeof_TextLine (le_lines le) (16 * (2 * ?r)) =
            Some (cells (le_lines le) @ map (fresh (ed_lines M)) [?r..<2 * ?r])"
          using M lr by (simp add: mem_simps sizeof_TextLine_def)
        then show ?thesis
          using g s lr by (simp add: le1_def Let_def sizeof_TextLine_def mem_simps)
      qed (simp add: le1_def)
      have le1: "length (cells (le_lines le1)) = le_lines_reserved le1" "?n < le_lines_reserved le1" "le_lines_reserved le1 \<le> 2 ^ 51"
          "take ?n (cells (le_lines le1)) = take ?n (cells (le_lines le))" "cells (le_lines le1) ! 0 = cells (le_lines le) ! 0"
          "le_lines_count le1 = ?n"
        using less.prems(1) small by (auto simp: le1_def lines_ok_def nth_append)
      have wl: "le1 = with_lines le (le_lines le1) (le_lines_reserved le1) ?n" by (simp add: le1_def with_lines_def)
      have prev: "0 < ?n \<longrightarrow> cells (le_lines le1) ! (?n - 1) = cells (le_lines le) ! (?n - 1)"
        using le1(4) by (metis diff_less nth_take zero_less_one)
      have start: "(if le_lines_count le1 = 0 then Some 0
            else do { l \<leftarrow> rd (cells (le_lines le1)) (le_lines_count le1 - 1); Some (sz (tl_start l + tl_length l + 1)) }) = Some offset"
      proof (cases "?n = 0")
        case False
        have "sz offset = offset" using less.prems(2) len(2) by (intro sz_small) simp
        moreover have "rd (cells (le_lines le1)) (?n - 1) = Some (cells (le_lines le1) ! (?n - 1))"
          using le1(1,2) by (intro rd_in) simp
        ultimately show ?thesis using False less.prems(5) prev le1(6) by auto
      qed (use less.prems(4) le1(6) in auto)
      define le2 where "le2 = le1\<lparr>le_lines := Some ((cells (le_lines le1))[?n := \<lparr>tl_start = offset, tl_length = k\<rparr>]), le_lines_count := Suc ?n\<rparr>"
      have sn: "sz (?n + 1) = Suc ?n" using small by (subst sz_small) auto
      have step: "rebuild_lines M buf len offset le = rebuild_lines M buf len (offset + k + 1) le2"
        using True k(1) grow start le1(1,2,6) sn
        by (subst rebuild_lines.simps) (simp add: mem_simps le2_def)
      have ok2: "lines_ok le2"
        using less.prems(1,4) le1 by (cases "?n = 0") (auto simp: lines_ok_def le2_def)
      have t2: "line_table le2 = line_table le @ [\<lparr>tl_start = offset, tl_length = k\<rparr>]" "le_lines_count le2 = Suc ?n"
        using le1 by (simp_all add: line_table_def le2_def take_Suc_conv_app_nth take_update_cancel)
      have last2: "cells (le_lines le2) ! ?n = \<lparr>tl_start = offset, tl_length = k\<rparr>" using le1(1,2) by (simp add: le2_def)
      obtain le' t r n where r: "rebuild_lines M buf len (offset + k + 1) le2 = Some le'" "lines_ok le'" "le' = with_lines le2 t r n"
          "line_table le' = line_table le2 @ spans (offset + k + 1) (take (len - (offset + k + 1)) (drop (offset + k + 1) buf))"
        using less.hyps[of "offset + k + 1" le2] True k(2) ok2 t2(2) last2 less.prems(3) by fastforce
      have "le' = with_lines le t r n" using r(3) by (simp add: le2_def le1_def with_lines_def)
      moreover have "10 \<in> set (take len buf)" if "?n = 0" using k(4) less.prems(4) that by auto
      moreover have "length (take k (drop offset buf)) = k" using k(2) len(1) by simp
      ultimately show ?thesis
        using step r t2(1) spans_line[OF k(3), of offset] unfolding k(4) by auto
    qed
  qed
qed

section \<open>The editor holds a text\<close>

text \<open>The table of a text: its lines, or the whole buffer (terminator included) when there is no newline.\<close>

definition shown_lines :: "byte list \<Rightarrow> nat \<Rightarrow> text_line list" where
  "shown_lines tx n = (if 10 \<in> set tx then spans 0 tx else if n = 0 then [] else [\<lparr>tl_start = 0, tl_length = n\<rparr>])"

definition holds_text :: "cv_t \<Rightarrow> byte list \<Rightarrow> bool" where
  "holds_text cv tx \<longleftrightarrow> cv_wf cv \<and> cv_str cv = tx \<and> (clength cv = 0 \<and> tx = [] \<or> clength cv = length tx + 1) \<and>
     length tx < ccapacity cv \<and> ccapacity cv \<le> 2 ^ 50"

definition ed_ok :: "line_editor \<Rightarrow> byte list \<Rightarrow> bool" where
  "ed_ok le tx \<longleftrightarrow> holds_text (le_buffer le) tx \<and> lines_ok le \<and> line_table le = shown_lines tx (clength (le_buffer le)) \<and>
     lr_wf (le_lexresult le) \<and> lr_subcmd_length (le_lexresult le) \<le> length (cells (lr_subcommands (le_lexresult le)))"

definition grants_editor :: "editor_mem \<Rightarrow> bool" where
  "grants_editor M \<longleftrightarrow> grants_lex (ed_lex M) \<and> grants_all (ed_lines M)"

lemma holds_text_bytes:
  assumes "holds_text cv tx" "0 < clength cv"
  shows "cv_bytes cv = tx @ [0]" "clength cv \<le> length (cells (cdata cv))" "clength cv = length tx + 1"
proof -
  obtain d where d: "cdata cv = Some d" "ccapacity cv \<le> length d" "clength cv \<le> ccapacity cv"
    using assms(1) cv_wfE by (metis holds_text_def)
  let ?p = "take (ccapacity cv) d"
  have c: "cstr ?p = tx" "length tx < length ?p" using assms(1) d by (auto simp: holds_text_def cv_str_def)
  then obtain ys where "?p = tx @ 0 # ys" using terminated_split terminated_iff by metis
  then have "take (length tx + 1) ?p = tx @ [0]" by simp
  moreover show n: "clength cv = length tx + 1" using assms by (auto simp: holds_text_def)
  ultimately show "cv_bytes cv = tx @ [0]" using d by (simp add: cv_bytes_def min_def split: if_splits)
  show "clength cv \<le> length (cells (cdata cv))" using d by simp
qed

lemma RebuildLineIndices_ok:
  assumes M: "grants_editor M" and buf: "holds_text (le_buffer le) tx" "0 < clength (le_buffer le)" "length tx < 2 ^ 49"
    and ok: "lines_ok le" and k0: "k0 \<le> le_lines_count le" "k0 < le_lines_reserved le"
    and s: "s = tl_start (cells (le_lines le) ! k0)" "k0 \<le> s" "s \<le> length tx" "k0 = 0 \<longrightarrow> s = 0"
      "0 < k0 \<longrightarrow> tl_start (cells (le_lines le) ! (k0 - 1)) + tl_length (cells (le_lines le) ! (k0 - 1)) + 1 = s"
      "take k0 (line_table le) @ spans s (drop s tx) = spans 0 tx"
  shows "\<exists>le' t r n. LineEditor_RebuildLineIndices M le k0 = Some le' \<and> le' = with_lines le t r n \<and> lines_ok le' \<and>
    line_table le' = shown_lines tx (length tx + 1)"
proof -
  let ?le = "le\<lparr>le_lines_count := k0\<rparr>" and ?b = "cells (cdata (le_buffer le))"
  note hb = holds_text_bytes[OF buf(1,2)]
  obtain d where d: "cdata (le_buffer le) = Some d" using buf(1) by (auto simp: holds_text_def cv_wf_def)
  have bytes: "take (length tx + 1) d = tx @ [0]" "length tx + 1 \<le> length d" using hb d by (simp_all add: cv_bytes_def)
  have lo: "lines_ok ?le" using ok k0 by (simp add: lines_ok_def)
  have c: "le_lines_count ?le \<le> s" "le_lines_count ?le = 0 \<longrightarrow> s = 0" "s \<le> length tx + 1"
    "0 < le_lines_count ?le \<longrightarrow> tl_start (cells (le_lines ?le) ! (le_lines_count ?le - 1)) + tl_length (cells (le_lines ?le) ! (le_lines_count ?le - 1)) + 1 = s"
    using s by simp_all
  have small: "length tx + 1 < 2 ^ 50" using buf(3) by simp
  have gl: "grants_all (ed_lines M)" using M by (simp add: grants_editor_def)
  obtain le' t r n where r: "rebuild_lines M d (length tx + 1) s ?le = Some le'" "lines_ok le'" "le' = with_lines ?le t r n"
    "line_table le' = (if le_lines_count ?le = 0 \<and> 10 \<notin> set (take (length tx + 1) d) \<and> 0 < length tx + 1 then [\<lparr>tl_start = 0, tl_length = length tx + 1\<rparr>]
        else line_table ?le @ spans s (take (length tx + 1 - s) (drop s d)))"
    using rebuild_lines_ok[OF gl bytes(2) small lo c(3,1,2,4)] by blast
  have "take (length tx + 1 - s) (drop s d) = drop s (take (length tx + 1) d)" by (simp add: drop_take)
  also have "\<dots> = drop s tx @ [0]" unfolding bytes(1) using s(3) by simp
  finally have sp: "spans s (take (length tx + 1 - s) (drop s d)) = spans s (drop s tx)" by (simp add: spans_tail)
  have "line_table ?le = take k0 (line_table le)" using k0 by (simp add: line_table_def min_def)
  then have "line_table le' = shown_lines tx (length tx + 1)"
  proof (cases "10 \<in> set tx")
    case True
    then show ?thesis using r(4) bytes(1) sp s(6) \<open>line_table ?le = _\<close> by (simp add: shown_lines_def)
  next
    case False
    then have "take k0 (line_table le) = []" using s(6) spans_none[OF False, of 0] by simp
    moreover have "length (line_table le) = le_lines_count le" using ok by (simp add: line_table_def lines_ok_def)
    ultimately have "k0 = 0" using k0(1) by (cases "line_table le") auto
    then show ?thesis using False r(4) bytes(1) by (simp add: shown_lines_def)
  qed
  moreover have "LineEditor_RebuildLineIndices M le k0 = Some le'"
    using k0 ok d r(1) s(1) hb(3) by (simp add: LineEditor_RebuildLineIndices_def lines_ok_def mem_simps)
  moreover have "le' = with_lines le t r n" using r(3) by (simp add: with_lines_def)
  ultimately show ?thesis using r(2) by blast
qed

lemma Append_ok:
  assumes M: "grants_editor M" and ok: "ed_ok le tx" and d: "0 \<notin> set d" "length tx + length d < 2 ^ 48"
    and lim: "le_max_length le = 0 \<or> length d + clength (le_buffer le) \<le> le_max_length le"
      "le_max_lines le = 0 \<or> le_lines_count le + count_list d 10 \<le> le_max_lines le"
  shows "\<exists>le' b t r n. LineEditor_Append M le (d @ rest) (length d) = Returns ([], le') \<and> ed_ok le' (tx @ d) \<and>
    le' = with_lines (le\<lparr>le_buffer := b\<rparr>) t r n \<and> clength b = length (tx @ d) + 1"
proof -
  have g: "grants_all (ed_bytes M)" using M by (simp add: grants_editor_def grants_lex_def)
  have h: "holds_text (le_buffer le) tx" and lo: "lines_ok le" and lt: "line_table le = shown_lines tx (clength (le_buffer le))"
    using ok by (auto simp: ed_ok_def)
  have h': "cv_wf (le_buffer le)" "cv_str (le_buffer le) = tx" "ccapacity (le_buffer le) \<le> 2 ^ 50" using h by (auto simp: holds_text_def)
  have n: "CountNewlines (d @ rest) (length d) = Some (count_list d 10)" by (subst CountNewlines_ok) auto
  have cnt: "le_lines_count le = length (line_table le)" using lo by (simp add: line_table_def lines_ok_def)
  have "length (line_table le) \<le> length tx + 1"
    unfolding lt shown_lines_def using length_spans[of 0 tx] count_le_length[of tx 10] by auto
  then have small: "sz (le_lines_count le + count_list d 10) = le_lines_count le + count_list d 10"
      "sz (length d + clength (le_buffer le)) = length d + clength (le_buffer le)"
    using cnt d(2) count_le_length[of d 10] h by (auto simp: holds_text_def intro!: sz_small)
  have pre: "length d \<le> length (d @ rest) \<or> terminated (d @ rest)" "2 * (length (cv_str (le_buffer le)) + length d + 1) + 8 \<le> 2 ^ 50"
    using d(2) h'(2) by simp_all
  obtain b where b: "cv_strncat (ed_bytes M) (le_buffer le) (d @ rest) (length d) = Some b" "cv_closed b"
      "cv_str b = tx @ d" "ccapacity b \<le> 2 ^ 50" "clength b = length (tx @ d) + 1"
    using append_str[OF g h'(1) pre(1) h'(3) _ pre(2)] h'(2) cstr_id[OF d(1)] by auto
  let ?le = "le\<lparr>le_buffer := b\<rparr>" and ?k0 = "if le_lines_count le > 1 then le_lines_count le - 1 else 0"
  have hb: "holds_text (le_buffer ?le) (tx @ d)" using b by (auto simp: holds_text_def cv_closed_def)
  have lo': "lines_ok ?le" using lo by (simp add: lines_ok_def)
  have "\<exists>le' t r n. LineEditor_RebuildLineIndices M ?le ?k0 = Some le' \<and> le' = with_lines ?le t r n \<and> lines_ok le' \<and>
      line_table le' = shown_lines (tx @ d) (length (tx @ d) + 1)"
  proof (cases "le_lines_count le > 1")
    case False
    then show ?thesis
      using lo b(5) d(2) by (intro RebuildLineIndices_ok[OF M hb _ _ lo', where s = 0]) (auto simp: lines_ok_def)
  next
    case True
    then have sp: "line_table le = spans 0 tx" using cnt lt by (auto simp: shown_lines_def split: if_splits)
    let ?n = "le_lines_count le - 1"
    define s where "s = tl_start (spans 0 tx ! ?n)"
    have nl: "?n < length (spans 0 tx)" using True cnt sp by simp
    have nth: "cells (le_lines le) ! i = spans 0 tx ! i" if "i < le_lines_count le" for i
      using sp that by (metis line_table_def nth_take)
    have R: "0 + ?n \<le> s \<and> s \<le> 0 + length tx \<and> take ?n (spans 0 tx) @ spans s (drop (s - 0) (tx @ d)) = spans 0 (tx @ d) \<and>
       (?n = 0 \<longrightarrow> s = 0) \<and> (0 < ?n \<longrightarrow> tl_start (spans 0 tx ! (?n - 1)) + tl_length (spans 0 tx ! (?n - 1)) + 1 = s)"
      by (rule spans_rebuild[OF nl s_def])
    show ?thesis
    proof (rule RebuildLineIndices_ok[OF M hb _ _ lo', where s = s])
      show "0 < ?k0 \<longrightarrow> tl_start (cells (le_lines ?le) ! (?k0 - 1)) + tl_length (cells (le_lines ?le) ! (?k0 - 1)) + 1 = s"
        using R nth True by simp
      show "take ?k0 (line_table ?le) @ spans s (drop s (tx @ d)) = spans 0 (tx @ d)"
      proof -
        have "take ?n (spans 0 tx) @ spans s (drop s (tx @ d)) = spans 0 (tx @ d)" using R by (metis diff_zero)
        then show ?thesis using True sp by (simp add: line_table_def del: drop_append)
      qed
      show "s = tl_start (cells (le_lines ?le) ! ?k0)" using nth True by (simp add: s_def)
      show "?k0 = 0 \<longrightarrow> s = 0" "?k0 \<le> s" "s \<le> length (tx @ d)" using R True by auto
    qed (use True lo b(5) d(2) in \<open>auto simp: lines_ok_def\<close>)
  qed
  then obtain le' t r k where rb: "LineEditor_RebuildLineIndices M ?le ?k0 = Some le'" "le' = with_lines ?le t r k" "lines_ok le'"
      "line_table le' = shown_lines (tx @ d) (length (tx @ d) + 1)" by blast
  have within: "\<not> (le_max_length le \<noteq> 0 \<and> sz (length d + clength (le_buffer le)) > le_max_length le)"
      "\<not> (le_max_lines le \<noteq> 0 \<and> sz (le_lines_count le + count_list d 10) > le_max_lines le)"
    using lim small by auto
  have "LineEditor_Append M le (d @ rest) (length d) = Returns ([], le')"
    unfolding LineEditor_Append_def n defined_simps bind_outcome_simps if_not_P[OF within(1)] if_not_P[OF within(2)]
    using b(1) rb(1) by (simp add: cv_appendstr_def)
  moreover have "ed_ok le' (tx @ d)"
    using ok hb rb(3,4) b(5) by (simp add: ed_ok_def rb(2) with_lines_def)
  ultimately show ?thesis using rb(2) b(5) by blast
qed

section \<open>Commands\<close>

lemma find_by_key: "distinct (map f xs) \<Longrightarrow> x \<in> set xs \<Longrightarrow> find (\<lambda>c. f c = f x) xs = Some x"
  by (induction xs) auto

lemma command_table:
  "sorted_wrt (\<lambda>x y. ec_name x < ec_name y) g_editor_commands" "\<forall>c \<in> set g_editor_commands. 0 \<notin> set (ec_name c)"
  "distinct (map ec_name g_editor_commands)" "length g_editor_commands = 8"
  by code_simp+

lemma command_search:
  assumes "terminated block"
  shows "c_bsearch (EditorCmdCmp block) g_editor_commands 0 8 = Some (find (\<lambda>c. ec_name c = cstr block) g_editor_commands)"
proof -
  have cmp: "\<exists>c. EditorCmdCmp block x = Some c \<and> (c < 0 \<longleftrightarrow> cstr block < ec_name x) \<and> (c = 0 \<longleftrightarrow> cstr block = ec_name x)"
    if x: "x \<in> set g_editor_commands" for x
  proof -
    have "cstr (ec_name x @ [0]) = ec_name x" using command_table(2) x cstr_zero by blast
    then show ?thesis using c_strcmp_ok[OF assms, of "ec_name x @ [0]"] by (auto simp: EditorCmdCmp_def terminated_def)
  qed
  obtain r where r: "c_bsearch (EditorCmdCmp block) g_editor_commands 0 8 = Some r"
      "case r of Some x \<Rightarrow> x \<in> set g_editor_commands \<and> ec_name x = cstr block | None \<Rightarrow> cstr block \<notin> ec_name ` set g_editor_commands"
    using c_bsearch_ok[OF command_table(1) cmp, of 8 0] command_table(4) by auto
  show ?thesis
  proof (cases r)
    case None
    then have "find (\<lambda>c. ec_name c = cstr block) g_editor_commands = None" using r(2) by (auto simp: find_None_iff image_iff)
    then show ?thesis using r(1) None by simp
  next
    case (Some x)
    then show ?thesis using r find_by_key[OF command_table(3), of x] by simp
  qed
qed

definition line_words :: "byte list \<Rightarrow> byte list list" where
  "line_words tx = filter (\<lambda>w. w \<noteq> []) (split_at_byte 32 (map (\<lambda>b. if b = 10 then 32 else b) tx))"

text \<open>A command line is split into at most two words; the first is looked up.\<close>

lemma ProcessInput_command:
  assumes M: "grants_editor M" and ok: "ed_ok le tx" and line: "line \<noteq> []" "hd line = 46" "0 \<notin> set line" "length line < 2 ^ 49"
  shows "\<exists>lr. lr_wf lr \<and> map snd (lr_items lr) = take 2 (line_words line) \<and> line_words line \<noteq> [] \<and>
    lr_subcmd_length lr \<le> length (cells (lr_subcommands lr)) \<and>
    LineEditor_ProcessInput M fuel le (line @ [0]) (length line) =
      (case find (\<lambda>c. ec_name c = hd (line_words line)) g_editor_commands of
         Some c \<Rightarrow> run_command M fuel (ec_cmdfp c) (le\<lparr>le_lexresult := lr\<rparr>) lr
       | None \<Rightarrow> bind_outcome (tell le False (bytes_of ''*Unrecognized command.'' @ [10]))
           (\<lambda>ms. Returns (LEDITOR_OK, ms, le\<lparr>le_lexresult := lr\<rparr>)))"
proof -
  have lex: "grants_lex (ed_lex M)" using M by (simp add: grants_editor_def)
  obtain lr0 where lr0: "LexerResult_Clear (le_lexresult le) = Some lr0" "lr_wf lr0" "lr_token_count lr0 = 0"
      "lr_orig_str lr0 = None" "lr_subcmd_length lr0 = 0"
    using LexerResult_Clear_ok[of "le_lexresult le"] ok by (auto simp: ed_ok_def)
  obtain lr where lr: "Lexer_LexString (ed_lex M) (le_lexer le) (line @ [0]) (length line) 2 False lr0 = Some lr" "lr_wf lr"
      "lr_items lr = at_most 2 (words_from 0 line)" "lr_subcmd_length lr = lr_subcmd_length lr0"
    using Lexer_LexString_ok[OF lex lr0(2-4) line(3,4), of "le_lexer le" "[]" 2] by auto
  have words: "map snd (lr_items lr) = take 2 (line_words line)"
  proof -
    have "map snd (lr_items lr) = take 2 (map snd (words_from 0 line))" by (simp add: lr(3) at_most_def take_map)
    then show ?thesis by (simp only: words_from_split line_words_def)
  qed
  obtain l ls where "line = l # ls" using line(1) by (cases line) auto
  then have "words_from 0 line \<noteq> []" using line(2) by (simp add: sep_def)
  then have "map snd (words_from 0 line) \<noteq> []" by simp
  then have ne: "line_words line \<noteq> []" by (simp only: words_from_split line_words_def not_False_eq_True)
  have "length (lr_items lr) = length (take 2 (line_words line))" using words by (metis length_map)
  then have cnt: "0 < lr_token_count lr" using ne length_lr_items[OF lr(2)] by (cases "line_words line") auto
  obtain b where b: "LexerResult_GetTokenAt lr 0 = Some (Some b)" "terminated b" "cstr b = snd (lr_items lr ! 0)"
    using GetTokenAt_ok[OF lr(2) cnt] by blast
  have "snd (lr_items lr ! 0) = map snd (lr_items lr) ! 0" using cnt length_lr_items[OF lr(2)] by simp
  then have "cstr b = hd (line_words line)" using b(3) ne words by (cases "line_words line") auto
  then have find: "c_bsearch (EditorCmdCmp (cells (Some b))) g_editor_commands 0 8 =
      Some (find (\<lambda>c. ec_name c = hd (line_words line)) g_editor_commands)"
    using command_search[OF b(2)] by simp
  have "rd (line @ [0]) 0 = Some 46" using line(1,2) by (cases line) (auto simp: rd_def)
  then have "LineEditor_ProcessInput M fuel le (line @ [0]) (length line) =
      (case find (\<lambda>c. ec_name c = hd (line_words line)) g_editor_commands of
         Some c \<Rightarrow> run_command M fuel (ec_cmdfp c) (le\<lparr>le_lexresult := lr\<rparr>) lr
       | None \<Rightarrow> bind_outcome (tell le False (bytes_of ''*Unrecognized command.'' @ [10]))
           (\<lambda>ms. Returns (LEDITOR_OK, ms, le\<lparr>le_lexresult := lr\<rparr>)))"
    using lr0(1) lr(1) b(1) find
    by (simp add: LineEditor_ProcessInput_def tell_def split: option.split)
  then show ?thesis using lr(2,4) lr0(5) words ne by auto
qed

lemma ProcessInput_text:
  assumes M: "grants_editor M" and ok: "ed_ok le tx" and line: "line \<noteq> []" "hd line \<noteq> 46" "0 \<notin> set line" "length tx + length line < 2 ^ 48"
    and lim: "le_max_length le = 0" "le_max_lines le = 0"
  shows "\<exists>le' b t r n. LineEditor_ProcessInput M fuel le (line @ [0]) (length line) = Returns (LEDITOR_OK, [], le') \<and>
    ed_ok le' (tx @ line) \<and> le' = with_lines (le\<lparr>le_buffer := b\<rparr>) t r n \<and> clength b = length (tx @ line) + 1"
proof -
  have "rd (line @ [0]) 0 = Some (hd line)" using line(1) by (cases line) (auto simp: rd_def)
  moreover obtain le' b t r n where "LineEditor_Append M le (line @ [0]) (length line) = Returns ([], le')" "ed_ok le' (tx @ line)"
      "le' = with_lines (le\<lparr>le_buffer := b\<rparr>) t r n" "clength b = length (tx @ line) + 1"
    using Append_ok[OF M ok line(3,4), of "[0]"] lim by blast
  ultimately show ?thesis using line(2)
    by (intro exI[of _ le'] exI[of _ b] exI[of _ t] exI[of _ r] exI[of _ n]) (simp add: LineEditor_ProcessInput_def)
qed

section \<open>A session\<close>

text \<open>A player's session: the editor gets a text and a connection, then the lines the player types.\<close>

definition open_editor :: "editor_mem \<Rightarrow> line_editor \<Rightarrow> editable_text \<Rightarrow> nat \<Rightarrow> (messages \<times> line_editor) outcome" where
  "open_editor M block target client =
     bind_outcome (defined (LineEditor_Factory M block)) (\<lambda>le.
     bind_outcome (LineEditor_SetEditTarget M target le) (\<lambda>(ms, le).
       Returns (ms, LineEditor_SetPlayerConnection (Some client) le)))"

fun type_lines :: "editor_mem \<Rightarrow> nat \<Rightarrow> byte list list \<Rightarrow> line_editor \<Rightarrow> (messages \<times> line_editor) outcome" where
  "type_lines M fuel [] le = Returns ([], le)"
| "type_lines M fuel (l # ls) le =
     bind_outcome (LineEditor_ProcessInputString M fuel (l @ [10]) le) (\<lambda>(ms, le).
     bind_outcome (type_lines M fuel ls le) (\<lambda>(ms', le). Returns (ms @ ms', le)))"

lemma Factory_ok:
  assumes M: "grants_editor M"
  shows "\<exists>le. LineEditor_Factory M block = Some le \<and> ed_ok le [] \<and> clength (le_buffer le) = 0 \<and>
    le_max_length le = 0 \<and> le_max_lines le = 0 \<and> le_lines_count le = 0 \<and> le_client le = None"
proof -
  have g: "grants_lex (ed_lex M)" "grants_all (ed_bytes M)" "grants_all (ed_lines M)" "grants_all (lm_ptrs (ed_lex M))"
    using M by (auto simp: grants_editor_def grants_lex_def)
  obtain lr where lr: "LexerResult_Prepare (ed_lex M) = Some lr" "lr_wf lr" "lr_subcmd_length lr = 0"
    using LexerResult_Prepare_ok[OF g(1)] by blast
  obtain buf where buf: "cv_init (ed_bytes M) 512 = Some (0, buf)" "cv_wf buf" "cv_bytes buf = []" "ccapacity buf = 512"
      "cdata buf = Some (replicate 512 0)"
    using cv_init_ok[OF g(2), of 512] by (auto simp: MINALLOC_def)
  have "cv_str buf = []" using buf(4,5) by (simp add: cv_str_def cstr_def nonzero_def)
  moreover have "clength buf = 0" using length_cv_bytes[OF buf(2)] buf(3) by simp
  ultimately have h: "holds_text buf []" using buf by (simp add: holds_text_def)
  show ?thesis
    using lr buf(1) g h \<open>clength buf = 0\<close>
    by (simp add: LineEditor_Factory_def LineEditor_Init_def Lexer_Prepare_def sizeof_ptr_def sizeof_TextLine_def mem_simps
        ed_ok_def lines_ok_def line_table_def shown_lines_def zero_line_def)
qed

definition free_text :: "editable_text \<Rightarrow> bool" where
  "free_text t \<longleftrightarrow> et_maxlength t = 0 \<and> et_maxlines t = 0"

lemma open_editor_ok:
  assumes M: "grants_editor M" and t: "free_text t" "0 \<notin> set (fst (EditableText_GetString t))" "length (fst (EditableText_GetString t)) < 2 ^ 40"
  shows "\<exists>le. open_editor M block t c = Returns ([], le) \<and> ed_ok le (fst (EditableText_GetString t)) \<and>
    clength (le_buffer le) = length (fst (EditableText_GetString t)) + 1 \<and> le_max_length le = 0 \<and> le_max_lines le = 0 \<and>
    le_client le = Some c \<and> le_target le = Some (snd (EditableText_GetString t))"
proof -
  obtain str t' where st: "EditableText_GetString t = (str, t')" by (cases "EditableText_GetString t")
  have t': "et_maxlength t' = 0" "et_maxlines t' = 0"
    using t(1) st by (auto simp: EditableText_GetString_def free_text_def Let_def split: if_splits)
  obtain le where le: "LineEditor_Factory M block = Some le" "ed_ok le []" "clength (le_buffer le) = 0" "le_lines_count le = 0"
    using Factory_ok[OF M] by blast
  define le1 where "le1 = le\<lparr>le_target := Some t', le_max_length := 0, le_max_lines := 0,
      le_rfparams := \<lparr>num_indent_spaces = unat (et_indentation t') mod 256,
        rp_line_width = sint (et_line_width t'), bAllowHyphenation = et_hyphenation t'\<rparr>\<rparr>"
  have ok1: "ed_ok le1 []" using le(2) by (simp add: ed_ok_def le1_def lines_ok_def line_table_def)
  obtain le2 b tt r n where ap: "LineEditor_Append M le1 (str @ [0]) (length str) = Returns ([], le2)" "ed_ok le2 str"
      "le2 = with_lines (le1\<lparr>le_buffer := b\<rparr>) tt r n" "clength b = length str + 1"
    using Append_ok[OF M ok1, of str "[0]"] t(2,3) st by (auto simp: le1_def)
  have "open_editor M block t c = Returns ([], le2\<lparr>le_client := Some c\<rparr>)"
    using le(1) ap(1) st t'
    by (simp add: open_editor_def LineEditor_SetEditTarget_def LineEditor_SetPlayerConnection_def le1_def)
  moreover have "ed_ok (le2\<lparr>le_client := Some c\<rparr>) str" using ap(2) by (simp add: ed_ok_def lines_ok_def line_table_def)
  ultimately show ?thesis using ap(3,4) st by (simp add: with_lines_def le1_def)
qed

lemma type_lines_ok:
  assumes M: "grants_editor M"
  shows "ed_ok le tx \<Longrightarrow> le_max_length le = 0 \<Longrightarrow> le_max_lines le = 0 \<Longrightarrow> 0 < clength (le_buffer le) \<Longrightarrow>
    \<forall>l \<in> set ls. 0 \<notin> set l \<and> (l \<noteq> [] \<longrightarrow> hd l \<noteq> 46) \<Longrightarrow> length tx + length (concat ls) + length ls < 2 ^ 48 \<Longrightarrow>
    \<exists>le'. type_lines M fuel ls le = Returns ([], le') \<and> ed_ok le' (tx @ concat (map (\<lambda>l. l @ [10]) ls)) \<and>
      0 < clength (le_buffer le') \<and> le_target le' = le_target le \<and> le_client le' = le_client le \<and>
      le_max_length le' = 0 \<and> le_max_lines le' = 0"
proof (induction ls arbitrary: le tx)
  case (Cons l ls)
  have line: "l @ [10] \<noteq> []" "hd (l @ [10]) \<noteq> 46" "0 \<notin> set (l @ [10])" "length tx + length (l @ [10]) < 2 ^ 48"
    using Cons.prems(5,6) by (cases l; simp)+
  obtain le1 b t r n where p: "LineEditor_ProcessInput M fuel le ((l @ [10]) @ [0]) (length (l @ [10])) = Returns (LEDITOR_OK, [], le1)"
      "ed_ok le1 (tx @ l @ [10])" "le1 = with_lines (le\<lparr>le_buffer := b\<rparr>) t r n" "clength b = length (tx @ l @ [10]) + 1"
    using ProcessInput_text[OF M Cons.prems(1) line Cons.prems(2,3), of fuel] by auto
  obtain le' where "type_lines M fuel ls le1 = Returns ([], le')" "ed_ok le' ((tx @ l @ [10]) @ concat (map (\<lambda>l. l @ [10]) ls))"
      "0 < clength (le_buffer le')" "le_target le' = le_target le1" "le_client le' = le_client le1" "le_max_length le' = 0" "le_max_lines le' = 0"
    using Cons.IH[OF p(2)] Cons.prems p(3,4) by (auto simp: with_lines_def)
  then show ?case using p(1,3) by (simp add: LineEditor_ProcessInputString_def with_lines_def)
qed simp

lemma type_lines_append:
  "type_lines M fuel (ls @ ls') le = bind_outcome (type_lines M fuel ls le) (\<lambda>(ms, le).
     bind_outcome (type_lines M fuel ls' le) (\<lambda>(ms', le). Returns (ms @ ms', le)))"
proof (induction ls arbitrary: le)
  case (Cons l ls)
  show ?case
  proof (cases "LineEditor_ProcessInputString M fuel (l @ [10]) le")
    case (Returns p)
    show ?thesis
    proof (cases "type_lines M fuel ls (snd p)")
      case (Returns q)
      then show ?thesis using Cons[of "snd p"] \<open>LineEditor_ProcessInputString M fuel (l @ [10]) le = Returns p\<close>
        by (cases "type_lines M fuel ls' (snd q)") (simp_all add: case_prod_beta)
    qed (use Cons[of "snd p"] Returns in \<open>simp_all add: case_prod_beta\<close>)
  qed simp_all
next
  case Nil
  show ?case by (cases "type_lines M fuel ls' le") (simp_all add: case_prod_beta)
qed

section \<open>What the commands do\<close>

lemma cmd_save:
  assumes M: "grants_editor M" and ok: "ed_ok le tx" "0 < clength (le_buffer le)" and t: "le_target le = Some t"
  shows "\<exists>le'. LineEditor_ProcessInput M fuel le (bytes_of ''.s'' @ [10] @ [0]) (length (bytes_of ''.s'' @ [10])) =
      Returns (LEDITOR_SAVE, [], le') \<and> le_target le' = Some (t\<lparr>et_text := tx @ [0], et_needs_update := True\<rparr>)"
proof -
  let ?line = "bytes_of ''.s'' @ [10]"
  have l: "?line \<noteq> []" "hd ?line = 46" "0 \<notin> set ?line" "length ?line < 2 ^ 49" by (simp_all add: bytes_of_def)
  have w: "find (\<lambda>c. ec_name c = hd (line_words ?line)) g_editor_commands = Some (command ''.s'' ''.s'' ''Save buffer and quit'' CmdSave)"
    by code_simp
  obtain lr where lr: "LineEditor_ProcessInput M fuel le (?line @ [0]) (length ?line) = run_command M fuel CmdSave (le\<lparr>le_lexresult := lr\<rparr>) lr"
    using ProcessInput_command[OF M ok(1) l, of fuel] unfolding w by (auto simp: command_def)
  have h: "holds_text (le_buffer le) tx" using ok(1) by (simp add: ed_ok_def)
  have "read_cells (cells (cdata (le_buffer le))) 0 (clength (le_buffer le)) = Some (tx @ [0])"
    using holds_text_bytes[OF h ok(2)] by (simp add: read_cells_def cv_bytes_def)
  then show ?thesis
    using lr t by (simp add: run_command_def EditorCmdSave_def EditableText_assign_def)
qed

lemma spans_append: "xs = [] \<or> last xs = 10 \<Longrightarrow> spans st (xs @ ys) = spans st xs @ spans (st + length xs) ys"
proof (induction xs arbitrary: st rule: length_induct)
  case (1 xs)
  show ?case
  proof (cases "xs = []")
    case False
    then have "10 \<in> set xs" using 1(2) last_in_set by force
    then obtain w zs where xs: "xs = w @ 10 # zs" "10 \<notin> set w" by (meson split_list_first)
    then have "zs = [] \<or> last zs = 10" using 1(2) by (auto split: if_splits)
    then have "spans (st + length w + 1) (zs @ ys) = spans (st + length w + 1) zs @ spans (st + length w + 1 + length zs) ys"
      using 1(1)[rule_format, of zs "st + length w + 1"] xs(1) by simp
    then show ?thesis using xs by (simp add: spans_line add.assoc)
  qed (simp add: spans_none)
qed

lemma DeleteLine_ok:
  assumes M: "grants_editor M" and ok: "ed_ok le (a @ w @ 10 # b)" "0 < clength (le_buffer le)"
    and line: "10 \<notin> set w" "a = [] \<or> last a = 10" and small: "length (a @ w @ 10 # b) < 2 ^ 48"
  shows "\<exists>le'. LineEditor_DeleteLine M le (count_list a 10) = Some le' \<and> cv_wf (le_buffer le') \<and> cv_str (le_buffer le') = a @ b \<and>
    clength (le_buffer le') = clength (le_buffer le) \<and>
    cv_bytes (le_buffer le') = a @ b @ 0 # drop (length b + 1) (w @ 10 # replicate (length b + 1) 0) \<and>
    line_table le' = shown_lines (cv_bytes (le_buffer le')) (clength (le_buffer le))"
proof -
  let ?tx = "a @ w @ 10 # b" and ?n = "count_list a 10" and ?zs = "replicate (length b + 1) (0 :: byte)"
  let ?z = "drop (length b + 1) (w @ 10 # ?zs)"
  have g: "grants_all (ed_bytes M)" "grants_all (ed_lines M)" using M by (auto simp: grants_editor_def grants_lex_def)
  have h: "holds_text (le_buffer le) ?tx" and lo: "lines_ok le" and lt: "line_table le = spans 0 ?tx"
    using ok(1) by (auto simp: ed_ok_def shown_lines_def)
  note hb = holds_text_bytes[OF h ok(2)]
  obtain d where d: "cdata (le_buffer le) = Some d" "length d = max MINALLOC (ccapacity (le_buffer le))" "clength (le_buffer le) \<le> ccapacity (le_buffer le)"
    using h by (auto simp: holds_text_def cv_wf_def)
  define junk where "junk = drop (length ?tx + 1) d"
  have dd: "d = ?tx @ 0 # junk"
    using hb d(1) append_take_drop_id[of "length ?tx + 1" d] by (simp add: cv_bytes_def junk_def)
  have sp: "spans 0 ?tx = spans 0 a @ \<lparr>tl_start = length a, tl_length = length w\<rparr> # spans (length a + length w + 1) b"
    using spans_append[OF line(2), of 0 "w @ 10 # b"] line(1) by (simp add: spans_line)
  have n: "length (spans 0 a) = ?n" by (rule length_spans)
  have cnt: "length (line_table le) = le_lines_count le" using lo by (simp add: line_table_def lines_ok_def)
  then have nc: "?n < le_lines_count le" using lt sp n by simp
  have nth: "cells (le_lines le) ! i = spans 0 ?tx ! i" if "i < le_lines_count le" for i
    using lt that by (metis line_table_def nth_take)
  have at: "cells (le_lines le) ! ?n = \<lparr>tl_start = length a, tl_length = length w\<rparr>"
    using nth[OF nc] sp n by (simp add: nth_append)
  have rd: "rd (cells (le_lines le)) ?n = Some \<lparr>tl_start = length a, tl_length = length w\<rparr>"
    using at nc lo by (simp add: lines_ok_def rd_in)
  have sz: "sz (length a + length w + 1) = length a + length w + 1" using small by (intro sz_small) simp
  have sub: "sz_sub (clength (le_buffer le)) (length a + length w + 1) = length b + 1"
    using hb(3) small by (subst sz_sub_le) simp_all
  have read: "read_cells d (length a + length w + 1) (length b + 1) = Some (b @ [0])"
    by (simp add: dd read_cells_def)
  have temp: "copy_cells (cells (malloc_cells (ed_bytes M) 1 (length b + 1))) 0 (b @ [0]) = Some (b @ [0])"
    using g(1) by (simp add: mem_simps)
  have fill: "fill_cells d (length a + length w + 1) (length b + 1) 0 = Some ((a @ w @ [10]) @ ?zs @ junk)"
    by (simp add: dd fill_cells_def)
  define d2 where "d2 = a @ (b @ [0]) @ drop (length b + 1) (w @ 10 # ?zs @ junk)"
  have copy: "copy_cells ((a @ w @ [10]) @ ?zs @ junk) (length a) (take (length b + 1) (b @ [0])) = Some d2"
    by (simp add: copy_cells_def d2_def)
  have "drop (length b + 1) (w @ 10 # ?zs @ junk) = drop (length b + 1) ((w @ 10 # ?zs) @ junk)" by simp
  also have "\<dots> = ?z @ junk" by (subst drop_append) simp
  finally have d2: "d2 = (a @ b @ 0 # ?z) @ junk" by (simp add: d2_def)
  have lz: "length (a @ b @ 0 # ?z) = clength (le_buffer le)" using hb(3) by simp
  let ?le = "le\<lparr>le_buffer := (le_buffer le)\<lparr>cdata := Some d2\<rparr>, le_lines_count := ?n\<rparr>"
  have bytes: "take (clength (le_buffer le)) d2 = a @ b @ 0 # ?z" using lz
    by (metis append_eq_conv_conj d2)
  have R: "0 + ?n \<le> length a \<and> length a \<le> 0 + length ?tx \<and> take ?n (spans 0 ?tx) @ spans (length a) (drop (length a - 0) (?tx @ [])) = spans 0 (?tx @ []) \<and>
     (?n = 0 \<longrightarrow> length a = 0) \<and> (0 < ?n \<longrightarrow> tl_start (spans 0 ?tx ! (?n - 1)) + tl_length (spans 0 ?tx ! (?n - 1)) + 1 = length a)"
    using sp n by (intro spans_rebuild) (simp_all add: nth_append)
  have lo': "lines_ok ?le" using lo nc by (simp add: lines_ok_def)
  have c: "length a \<le> clength (le_buffer le)" "le_lines_count ?le \<le> length a" "le_lines_count ?le = 0 \<longrightarrow> length a = 0"
    "0 < le_lines_count ?le \<longrightarrow> tl_start (cells (le_lines ?le) ! (le_lines_count ?le - 1)) + tl_length (cells (le_lines ?le) ! (le_lines_count ?le - 1)) + 1 = length a"
    using R hb(3) nth[of "?n - 1"] nc by auto
  have len: "clength (le_buffer le) \<le> length d2" "clength (le_buffer le) < 2 ^ 50" using lz small hb(3) by (simp_all add: d2)
  obtain le' t r k where rb: "rebuild_lines M d2 (clength (le_buffer le)) (length a) ?le = Some le'" "lines_ok le'" "le' = with_lines ?le t r k"
      "line_table le' = (if le_lines_count ?le = 0 \<and> 10 \<notin> set (take (clength (le_buffer le)) d2) \<and> 0 < clength (le_buffer le)
        then [\<lparr>tl_start = 0, tl_length = clength (le_buffer le)\<rparr>]
        else line_table ?le @ spans (length a) (take (clength (le_buffer le) - length a) (drop (length a) d2)))"
    using rebuild_lines_ok[OF g(2) len lo' c] by blast
  have "LineEditor_RebuildLineIndices M (le\<lparr>le_buffer := (le_buffer le)\<lparr>cdata := Some d2\<rparr>\<rparr>) ?n = Some le'"
    using nc rd rb(1) by (simp add: LineEditor_RebuildLineIndices_def)
  then have "LineEditor_DeleteLine M le ?n = Some le'"
    using nc d(1) rd sz sub read temp fill copy by (simp add: LineEditor_DeleteLine_def Let_def del: take_append)
  moreover have buf: "le_buffer le' = (le_buffer le)\<lparr>cdata := Some d2\<rparr>" using rb(3) by (simp add: with_lines_def)
  moreover have "length d2 = length d" using lz hb(3) by (simp add: d2 dd)
  then have "cv_wf (le_buffer le')" using h d buf by (simp add: holds_text_def cv_wf_def)
  moreover have "0 \<notin> set ?tx" using h cstr_no_zero by (metis holds_text_def cv_str_def)
  then have "cstr d2 = a @ b" using cstr_zero[of "a @ b" "?z @ junk"] by (simp add: d2)
  then have "cv_str (le_buffer le') = a @ b"
    using buf d(3) hb(3) by (simp add: cv_str_def cstr_take)
  moreover have cvb: "cv_bytes (le_buffer le') = a @ b @ 0 # ?z" using bytes buf by (simp add: cv_bytes_def)
  moreover have "line_table le' = shown_lines (cv_bytes (le_buffer le')) (clength (le_buffer le))"
  proof (cases "10 \<in> set (a @ b @ 0 # ?z)")
    case True
    have "line_table ?le = spans 0 a"
    proof -
      have "line_table ?le = take ?n (line_table le)" using nc by (simp add: line_table_def min_def)
      then show ?thesis using lt sp n by simp
    qed
    moreover have "take (clength (le_buffer le) - length a) (drop (length a) d2) = b @ 0 # ?z"
      using bytes by (metis append_eq_conv_conj drop_take)
    moreover have "\<not> (le_lines_count ?le = 0 \<and> 10 \<notin> set (take (clength (le_buffer le)) d2) \<and> 0 < clength (le_buffer le))"
      using True bytes by metis
    ultimately have "line_table le' = spans 0 a @ spans (length a) (b @ 0 # ?z)" using rb(4) by (simp only: if_False)
    then have "line_table le' = spans 0 (a @ b @ 0 # ?z)" using spans_append[OF line(2), of 0 "b @ 0 # ?z"] by (simp only: add_0)
    then show ?thesis using True cvb by (simp add: shown_lines_def)
  next
    case False
    then have "count_list a 10 = 0" by (simp add: count_list_0_iff)
    then show ?thesis using rb(4) False bytes cvb ok(2) by (simp add: shown_lines_def)
  qed
  ultimately show ?thesis using buf by simp
qed

text \<open>The text of each line of the table.\<close>

lemma spans_texts:
  "map (\<lambda>l. take (tl_length l) (drop (tl_start l - st) (xs @ ys))) (spans st xs) = butlast (split_at_byte 10 xs)"
proof (induction xs arbitrary: st rule: length_induct)
  case (1 xs)
  show ?case
  proof (cases "10 \<in> set xs")
    case True
    then obtain w zs where xs: "xs = w @ 10 # zs" "10 \<notin> set w" by (meson split_list_first)
    have ge: "st + length w + 1 \<le> tl_start l" if "l \<in> set (spans (st + length w + 1) zs)" for l
      using that spans_rebuild[of _ "st + length w + 1" zs "tl_start l" "[]"] by (metis in_set_conv_nth le_trans le_add1)
    have "map (\<lambda>l. take (tl_length l) (drop (tl_start l - st) (xs @ ys))) (spans (st + length w + 1) zs) =
        map (\<lambda>l. take (tl_length l) (drop (tl_start l - (st + length w + 1)) (zs @ ys))) (spans (st + length w + 1) zs)"
    proof (rule map_cong[OF refl])
      fix l assume "l \<in> set (spans (st + length w + 1) zs)"
      then have "tl_start l - st = (tl_start l - (st + length w + 1)) + (length w + 1)" using ge by fastforce
      then have "drop (tl_start l - st) (xs @ ys) = drop (tl_start l - (st + length w + 1)) (drop (length w + 1) (xs @ ys))"
        by (simp only: drop_drop)
      moreover have "drop (length w + 1) (xs @ ys) = zs @ ys" using xs(1) by simp
      ultimately show "take (tl_length l) (drop (tl_start l - st) (xs @ ys)) =
          take (tl_length l) (drop (tl_start l - (st + length w + 1)) (zs @ ys))" by (simp only:)
    qed
    also have "\<dots> = butlast (split_at_byte 10 zs)" using 1[rule_format, of zs "st + length w + 1"] xs(1) by simp
    finally show ?thesis using xs by (simp add: spans_line split_at_byte_some)
  qed (simp add: spans_none split_at_byte_none)
qed

lemma spans_inside: "l \<in> set (spans st xs) \<Longrightarrow> st \<le> tl_start l \<and> tl_start l + tl_length l < st + length xs"
proof (induction xs arbitrary: st rule: length_induct)
  case (1 xs)
  show ?case
  proof (cases "10 \<in> set xs")
    case True
    then obtain w zs where xs: "xs = w @ 10 # zs" "10 \<notin> set w" by (meson split_list_first)
    then consider "l = \<lparr>tl_start = st, tl_length = length w\<rparr>" | "l \<in> set (spans (st + length w + 1) zs)"
      using 1(2) by (auto simp: spans_line)
    then show ?thesis
    proof cases
      case 2
      then show ?thesis using 1(1)[rule_format, of zs "st + length w + 1"] xs(1) by fastforce
    qed (simp add: xs(1))
  qed (use 1(2) in \<open>simp add: spans_none\<close>)
qed

definition line_message :: "bool \<Rightarrow> nat \<Rightarrow> byte list \<Rightarrow> bool \<times> byte list" where
  "line_message raw i w = (raw, two_digits i @ bytes_of ''] '' @ w @ [10])"

lemma print_step:
  assumes c: "le_client le = Some c" and l: "rd (cells (le_lines le)) idx = Some l" "tl_length l < 512"
    "tl_start l + tl_length l \<le> length (cells (cdata (le_buffer le)))"
    and buf: "length linebuf = 512"
  shows "\<exists>lb. length lb = 512 \<and> print_loop M le raw idx (Suc n) (Some linebuf) 512 =
    bind_outcome (print_loop M le raw (Suc idx) n (Some lb) 512)
      (\<lambda>ms. Returns (line_message raw idx (cstr (take (tl_length l) (drop (tl_start l) (cells (cdata (le_buffer le)))))) # ms))"
proof -
  let ?ys = "take (tl_length l) (drop (tl_start l) (cells (cdata (le_buffer le))))"
  let ?b = "linebuf[tl_length l := 0]"
  define lb where "lb = ?ys @ drop (tl_length l) ?b"
  have ly: "length ?ys = tl_length l" using l(3) by simp
  have lb: "length lb = 512" using buf ly l(2) by (simp add: lb_def)
  have w: "wr linebuf (tl_length l) 0 = Some ?b" using l(2) buf by (simp add: wr_in)
  have r: "read_cells (cells (cdata (le_buffer le))) (tl_start l) (tl_length l) = Some ?ys" using l(3) by (simp add: read_cells_in)
  have cp: "copy_cells ?b 0 ?ys = Some lb" using ly l(2) buf by (simp add: copy_cells_def lb_def)
  have "drop (tl_length l) ?b = 0 # drop (Suc (tl_length l)) linebuf"
    using l(2) buf by (simp add: Cons_nth_drop_Suc[symmetric])
  then have lb0: "lb = ?ys @ 0 # drop (Suc (tl_length l)) linebuf" by (simp add: lb_def)
  then have "terminated lb" "cstr lb = cstr ?ys" by (auto simp: terminated_def cstr_append not_terminated)
  then have s: "std_string (Some lb) = Some (cstr ?ys)" by (simp add: std_string_ok)
  show ?thesis
    using c l(1,2) w r cp s lb by (intro exI[of _ lb]) (simp add: line_message_def tell_def Let_def)
qed

lemma print_loop_ok:
  assumes c: "le_client le = Some c"
  shows "\<forall>i. idx \<le> i \<and> i < idx + n \<longrightarrow> i < length (cells (le_lines le)) \<and> tl_length (cells (le_lines le) ! i) < 512 \<and>
      tl_start (cells (le_lines le) ! i) + tl_length (cells (le_lines le) ! i) \<le> length (cells (cdata (le_buffer le))) \<Longrightarrow>
    length linebuf = 512 \<Longrightarrow>
    print_loop M le raw idx n (Some linebuf) 512 =
      Returns (map (\<lambda>i. line_message raw i (cstr (take (tl_length (cells (le_lines le) ! i)) (drop (tl_start (cells (le_lines le) ! i)) (cells (cdata (le_buffer le))))))) [idx..<idx + n])"
proof (induction n arbitrary: idx linebuf)
  case (Suc n)
  let ?l = "cells (le_lines le) ! idx"
  have "idx < length (cells (le_lines le)) \<and> tl_length ?l < 512 \<and> tl_start ?l + tl_length ?l \<le> length (cells (cdata (le_buffer le)))"
    using Suc.prems(1) by auto
  then obtain lb where "length lb = 512" "print_loop M le raw idx (Suc n) (Some linebuf) 512 =
      bind_outcome (print_loop M le raw (Suc idx) n (Some lb) 512)
        (\<lambda>ms. Returns (line_message raw idx (cstr (take (tl_length ?l) (drop (tl_start ?l) (cells (cdata (le_buffer le)))))) # ms))"
    using print_step[OF c, of idx ?l linebuf] Suc.prems(2) rd_in by metis
  moreover have "[idx..<idx + Suc n] = idx # [Suc idx..<Suc idx + n]" by (simp add: upt_rec)
  ultimately show ?case using Suc.IH[of "Suc idx" lb] Suc.prems(1) by (simp del: print_loop.simps)
qed simp

lemma print_loop_512:
  assumes c: "le_client le = Some c"
  shows "\<forall>i. idx \<le> i \<and> i < idx + k \<longrightarrow> i < length (cells (le_lines le)) \<and> tl_length (cells (le_lines le) ! i) < 512 \<and>
      tl_start (cells (le_lines le) ! i) + tl_length (cells (le_lines le) ! i) \<le> length (cells (cdata (le_buffer le))) \<Longrightarrow>
    idx + k < length (cells (le_lines le)) \<Longrightarrow> tl_length (cells (le_lines le) ! (idx + k)) = 512 \<Longrightarrow> k < n \<Longrightarrow>
    length linebuf = 512 \<Longrightarrow> print_loop M le raw idx n (Some linebuf) 512 = Faults"
proof (induction k arbitrary: idx n linebuf)
  case 0
  then obtain m where "n = Suc m" by (cases n) auto
  then show ?case using 0 by (simp add: rd_in wr_def)
next
  case (Suc k)
  let ?l = "cells (le_lines le) ! idx"
  obtain m where m: "n = Suc m" using Suc.prems(4) by (cases n) auto
  have "idx < length (cells (le_lines le)) \<and> tl_length ?l < 512 \<and> tl_start ?l + tl_length ?l \<le> length (cells (cdata (le_buffer le)))"
    using Suc.prems(1) by auto
  then obtain lb where "length lb = 512" "print_loop M le raw idx (Suc m) (Some linebuf) 512 =
      bind_outcome (print_loop M le raw (Suc idx) m (Some lb) 512)
        (\<lambda>ms. Returns (line_message raw idx (cstr (take (tl_length ?l) (drop (tl_start ?l) (cells (cdata (le_buffer le)))))) # ms))"
    using print_step[OF c, of idx ?l linebuf] Suc.prems(5) rd_in by metis
  then show ?case using Suc.IH[of "Suc idx" m lb] Suc.prems m by (simp del: print_loop.simps)
qed

lemma table_texts:
  assumes ok: "ed_ok le tx" "0 < clength (le_buffer le)" "10 \<in> set tx" and i: "i < le_lines_count le"
  shows "i < length (cells (le_lines le))" "le_lines_count le = length (butlast (split_at_byte 10 tx))"
    "tl_length (cells (le_lines le) ! i) = length (butlast (split_at_byte 10 tx) ! i)"
    "tl_start (cells (le_lines le) ! i) + tl_length (cells (le_lines le) ! i) \<le> length (cells (cdata (le_buffer le)))"
    "take (tl_length (cells (le_lines le) ! i)) (drop (tl_start (cells (le_lines le) ! i)) (cells (cdata (le_buffer le)))) =
      butlast (split_at_byte 10 tx) ! i"
proof -
  have h: "holds_text (le_buffer le) tx" and lo: "lines_ok le" and lt: "line_table le = spans 0 tx"
    using ok(1,3) by (auto simp: ed_ok_def shown_lines_def)
  let ?d = "cells (cdata (le_buffer le))" and ?l = "cells (le_lines le) ! i"
  define junk where "junk = drop (length tx + 1) ?d"
  have d: "?d = tx @ 0 # junk"
    using holds_text_bytes[OF h ok(2)] append_take_drop_id[of "length tx + 1" ?d] by (simp add: cv_bytes_def junk_def)
  have n: "length (line_table le) = le_lines_count le" using lo by (simp add: line_table_def lines_ok_def)
  have texts: "map (\<lambda>l. take (tl_length l) (drop (tl_start l) (tx @ 0 # junk))) (spans 0 tx) = butlast (split_at_byte 10 tx)"
    using spans_texts[of 0 tx "0 # junk"] by simp
  show c: "le_lines_count le = length (butlast (split_at_byte 10 tx))" using arg_cong[OF texts, of length] n lt by simp
  show "i < length (cells (le_lines le))" using i lo by (simp add: lines_ok_def)
  have l: "?l = spans 0 tx ! i" using lt i by (metis line_table_def nth_take)
  have i': "i < length (spans 0 tx)" using i n lt by simp
  then have ins: "tl_start ?l + tl_length ?l < length tx" using spans_inside[of ?l 0 tx] l by simp
  show le: "tl_start ?l + tl_length ?l \<le> length ?d" using ins d by simp
  show t: "take (tl_length ?l) (drop (tl_start ?l) ?d) = butlast (split_at_byte 10 tx) ! i"
    using arg_cong[OF texts, of "\<lambda>xs. xs ! i"] i' l d by simp
  show "tl_length ?l = length (butlast (split_at_byte 10 tx) ! i)"
  proof -
    have "length (take (tl_length ?l) (drop (tl_start ?l) ?d)) = tl_length ?l" using le by simp
    then show ?thesis unfolding t by simp
  qed
qed

lemma split_lines: "\<forall>w \<in> set ws. 10 \<notin> set w \<Longrightarrow> split_at_byte 10 (concat (map (\<lambda>w. w @ [10]) ws)) = ws @ [[]]"
  by (induction ws) (simp_all add: split_at_byte_some)

lemma cmd_print:
  assumes M: "grants_editor M" and ok: "ed_ok le (concat (map (\<lambda>w. w @ [10]) ws))" "0 < clength (le_buffer le)" "ws \<noteq> []"
    and ws: "\<forall>w \<in> set ws. 10 \<notin> set w \<and> 0 \<notin> set w" and c: "le_client le = Some c"
  shows "\<exists>lr. lr_wf lr \<and> lr_subcmd_length lr \<le> length (cells (lr_subcommands lr)) \<and>
      LineEditor_ProcessInput M fuel le (bytes_of ''.p'' @ [10] @ [0]) (length (bytes_of ''.p'' @ [10])) =
        bind_outcome (print_loop M le False 0 (length ws) (Some (replicate 512 0)) 512) (\<lambda>ms. Returns (LEDITOR_OK, ms, le\<lparr>le_lexresult := lr\<rparr>)) \<and>
      (\<forall>i < length ws. i < length (cells (le_lines le)) \<and> tl_length (cells (le_lines le) ! i) = length (ws ! i) \<and>
        tl_start (cells (le_lines le) ! i) + tl_length (cells (le_lines le) ! i) \<le> length (cells (cdata (le_buffer le))) \<and>
        take (tl_length (cells (le_lines le) ! i)) (drop (tl_start (cells (le_lines le) ! i)) (cells (cdata (le_buffer le)))) = ws ! i)"
proof -
  let ?line = "bytes_of ''.p'' @ [10]" and ?tx = "concat (map (\<lambda>w. w @ [10]) ws)"
  have g: "grants_all (ed_bytes M)" using M by (simp add: grants_editor_def grants_lex_def)
  have l: "?line \<noteq> []" "hd ?line = 46" "0 \<notin> set ?line" "length ?line < 2 ^ 49" by (simp_all add: bytes_of_def)
  have w: "find (\<lambda>c. ec_name c = hd (line_words ?line)) g_editor_commands = Some (command ''.p'' ''.p [r]'' ''Show buffer; r flag shows raw color tags'' CmdPrint)"
    "take 2 (line_words ?line) = [bytes_of ''.p'']"
    by code_simp+
  obtain lr where lr: "lr_wf lr" "map snd (lr_items lr) = take 2 (line_words ?line)" "lr_subcmd_length lr \<le> length (cells (lr_subcommands lr))"
      "LineEditor_ProcessInput M fuel le (?line @ [0]) (length ?line) = run_command M fuel CmdPrint (le\<lparr>le_lexresult := lr\<rparr>) lr"
    using ProcessInput_command[OF M ok(1) l, of fuel] unfolding w(1) by (auto simp: command_def)
  have "length (map snd (lr_items lr)) = 1" unfolding lr(2) w(2) by simp
  then have "length (lr_items lr) = 1" by simp
  then have cnt: "LexerResult_GetTokenCount lr = 1" using length_lr_items[OF lr(1)] by (simp add: LexerResult_GetTokenCount_def)
  have nl: "10 \<in> set ?tx" using ok(3) by (cases ws) auto
  have sp: "butlast (split_at_byte 10 ?tx) = ws" using split_lines[of ws] ws by simp
  have n: "0 < le_lines_count le"
  proof -
    have "line_table le = spans 0 ?tx" using ok(1) nl by (simp add: ed_ok_def shown_lines_def)
    moreover have "length (spans 0 ?tx) = length ws" using arg_cong[OF spans_texts[of 0 ?tx "[]"], of length] sp by simp
    ultimately show ?thesis using ok(3) by (cases "le_lines_count le") (auto simp: line_table_def)
  qed
  note tt = table_texts[OF ok(1,2) nl]
  have cw: "le_lines_count le = length ws" using tt(2)[OF n] sp by simp
  have fill: "fill_cells (cells (malloc_cells (ed_bytes M) 1 512)) 0 512 0 = Some (replicate 512 0)"
    using g by (simp add: mem_simps)
  have pl: "print_loop M (le\<lparr>le_lexresult := lr\<rparr>) False i k lb r = print_loop M le False i k lb r" for i k lb r
    by (induction k arbitrary: i lb r) (simp_all add: tell_def)
  have "LineEditor_ProcessInput M fuel le (?line @ [0]) (length ?line) =
      bind_outcome (print_loop M le False 0 (length ws) (Some (replicate 512 0)) 512) (\<lambda>ms. Returns (LEDITOR_OK, ms, le\<lparr>le_lexresult := lr\<rparr>))"
    unfolding lr(4) using cnt ok(2) fill cw pl by (simp add: run_command_def EditorCmdPrint_def)
  moreover have "\<forall>i < length ws. i < length (cells (le_lines le)) \<and> tl_length (cells (le_lines le) ! i) = length (ws ! i) \<and>
        tl_start (cells (le_lines le) ! i) + tl_length (cells (le_lines le) ! i) \<le> length (cells (cdata (le_buffer le))) \<and>
        take (tl_length (cells (le_lines le) ! i)) (drop (tl_start (cells (le_lines le) ! i)) (cells (cdata (le_buffer le)))) = ws ! i"
    using tt cw sp by simp
  ultimately show ?thesis using lr(1,3) unfolding append_assoc by blast
qed

section \<open>Properties\<close>

text \<open>C6: a player opens the editor on an empty text without limits, types lines of less than 512 bytes that do not
  start with a full stop, and then \<open>.p\<close> and \<open>.s\<close>. The editor answers nothing while the lines come in, shows
  exactly the lines with their numbers, and the text that the scripts get is the lines, each with its newline,
  and one zero byte (the terminator of the buffer, which its length counts).\<close>

theorem editor_session:
  assumes "grants_editor M" "free_text t" "fst (EditableText_GetString t) = []" "ls \<noteq> []"
    "\<forall>l \<in> set ls. 0 \<notin> set l \<and> 10 \<notin> set l \<and> (l \<noteq> [] \<longrightarrow> hd l \<noteq> 46) \<and> length l < 512"
    "length (concat ls) + length ls < 2 ^ 40"
  shows "\<exists>le le' t'. open_editor M block t c = Returns ([], le) \<and>
    type_lines M fuel (ls @ [bytes_of ''.p'', bytes_of ''.s'']) le =
      Returns (map (\<lambda>i. line_message False i (ls ! i)) [0..<length ls], le') \<and>
    le_target le' = Some t' \<and> fst (EditableText_GetString t') = concat (map (\<lambda>l. l @ [10]) ls) @ [0]"
proof -
  let ?tx = "concat (map (\<lambda>l. l @ [10]) ls)"
  obtain le where le: "open_editor M block t c = Returns ([], le)" "ed_ok le []" "0 < clength (le_buffer le)"
      "le_max_length le = 0" "le_max_lines le = 0" "le_client le = Some c" "le_target le = Some (snd (EditableText_GetString t))"
    using open_editor_ok[OF assms(1,2), of block c] assms(3) by auto
  obtain le1 where le1: "type_lines M fuel ls le = Returns ([], le1)" "ed_ok le1 ?tx" "0 < clength (le_buffer le1)"
      "le_target le1 = le_target le" "le_client le1 = Some c"
    using type_lines_ok[OF assms(1) le(2,4,5,3), of ls fuel] assms(5,6) le(6) by auto
  obtain lr where lr: "lr_wf lr" "lr_subcmd_length lr \<le> length (cells (lr_subcommands lr))"
      "LineEditor_ProcessInput M fuel le1 (bytes_of ''.p'' @ [10] @ [0]) (length (bytes_of ''.p'' @ [10])) =
        bind_outcome (print_loop M le1 False 0 (length ls) (Some (replicate 512 0)) 512) (\<lambda>ms. Returns (LEDITOR_OK, ms, le1\<lparr>le_lexresult := lr\<rparr>))"
      "\<forall>i < length ls. i < length (cells (le_lines le1)) \<and> tl_length (cells (le_lines le1) ! i) = length (ls ! i) \<and>
        tl_start (cells (le_lines le1) ! i) + tl_length (cells (le_lines le1) ! i) \<le> length (cells (cdata (le_buffer le1))) \<and>
        take (tl_length (cells (le_lines le1) ! i)) (drop (tl_start (cells (le_lines le1) ! i)) (cells (cdata (le_buffer le1)))) = ls ! i"
    using cmd_print[OF assms(1) le1(2,3) assms(4) _ le1(5)] assms(5) by blast
  have "print_loop M le1 False 0 (length ls) (Some (replicate 512 0)) 512 =
      Returns (map (\<lambda>i. line_message False i (ls ! i)) [0..<length ls])"
    using lr(4) assms(5) by (subst print_loop_ok[OF le1(5)]) (auto simp: cstr_id intro!: map_cong)
  then have p: "LineEditor_ProcessInputString M fuel (bytes_of ''.p'' @ [10]) le1 =
      Returns (map (\<lambda>i. line_message False i (ls ! i)) [0..<length ls], le1\<lparr>le_lexresult := lr\<rparr>)"
    using lr(3) by (simp add: LineEditor_ProcessInputString_def)
  have "ed_ok (le1\<lparr>le_lexresult := lr\<rparr>) ?tx" using le1(2) lr(1,2) by (simp add: ed_ok_def lines_ok_def line_table_def)
  then obtain le2 where s: "LineEditor_ProcessInput M fuel (le1\<lparr>le_lexresult := lr\<rparr>) (bytes_of ''.s'' @ [10] @ [0]) (length (bytes_of ''.s'' @ [10])) =
      Returns (LEDITOR_SAVE, [], le2)"
      "le_target le2 = Some (snd (EditableText_GetString t)\<lparr>et_text := ?tx @ [0], et_needs_update := True\<rparr>)"
    using cmd_save[OF assms(1), of "le1\<lparr>le_lexresult := lr\<rparr>" ?tx "snd (EditableText_GetString t)" fuel] le1(3,4) le(7) by auto
  have "type_lines M fuel (ls @ [bytes_of ''.p'', bytes_of ''.s'']) le =
      Returns (map (\<lambda>i. line_message False i (ls ! i)) [0..<length ls], le2)"
    using le1(1) p s(1) by (simp add: type_lines_append LineEditor_ProcessInputString_def)
  then show ?thesis using le(1) s(2) by (simp add: EditableText_GetString_def)
qed

definition ed_mgr :: editor_mem where
  "ed_mgr = \<lparr>ed_lex = lex_mgr, ed_text = text_mgrs, ed_lines = \<lparr>grants = \<lambda>_. True, fresh = \<lambda>i. \<lparr>tl_start = i, tl_length = 5\<rparr>\<rparr>\<rparr>"

lemma ed_mgr_grants: "grants_editor ed_mgr"
  by (simp add: ed_mgr_def grants_editor_def lex_mgr_grants) (simp add: grants_all_def)

definition raw_block :: line_editor where
  "raw_block = \<lparr>le_buffer = cv8, le_lexer = no_markers, le_lexresult = \<lparr>lr_bFilled = False, lr_tokens = None, lr_token_count = 9,
     lr_token_reserved = 2, lr_token_starts = None, lr_orig_str = None, lr_subcommands = None, lr_subcmd_length = 0, lr_subcmd_reserved = 4\<rparr>,
     le_lines = None, le_lines_reserved = 4, le_lines_count = 7, le_bSaveResult = True, le_refcount = 12, le_client = Some 3,
     le_max_lines = 1, le_max_length = 1, le_rfparams = \<lparr>num_indent_spaces = 0, rp_line_width = 0, bAllowHyphenation = True\<rparr>,
     le_target = None\<rparr>"

theorem editor_session_witness:
  "\<exists>le le' t'. open_editor ed_mgr raw_block EditableText_Factory 5 = Returns ([], le) \<and>
    type_lines ed_mgr 0 ([bytes_of ''Dear all'', [], bytes_of ''bye''] @ [bytes_of ''.p'', bytes_of ''.s'']) le =
      Returns (map (\<lambda>i. line_message False i ([bytes_of ''Dear all'', [], bytes_of ''bye''] ! i)) [0..<length [bytes_of ''Dear all'', [], bytes_of ''bye'']], le') \<and>
    le_target le' = Some t' \<and> fst (EditableText_GetString t') = concat (map (\<lambda>l. l @ [10]) [bytes_of ''Dear all'', [], bytes_of ''bye'']) @ [0]"
  by (rule editor_session[OF ed_mgr_grants])
    (simp_all add: bytes_of_def free_text_def EditableText_Factory_def EditableText_GetString_def)

text \<open>the insert command inserts nothing. The editor splits a command line into at most two words, and
  the command wants three before it does anything: whatever the player types after \<open>.i\<close> and a number is lost,
  without a message.\<close>

theorem insert_command_inserts_nothing:
  assumes "grants_editor M" "ed_ok le tx" "line \<noteq> []" "hd line = 46" "0 \<notin> set line" "length line < 2 ^ 49"
    "hd (line_words line) = bytes_of ''.i''" "2 \<le> length (line_words line)"
  shows "\<exists>lr. LineEditor_ProcessInput M fuel le (line @ [0]) (length line) = Returns (LEDITOR_OK, [], le\<lparr>le_lexresult := lr\<rparr>)"
proof -
  have w: "find (\<lambda>c. ec_name c = bytes_of ''.i'') g_editor_commands =
      Some (command ''.i'' ''.i <line #> <text>'' ''Insert text before line #'' CmdInsert)" by code_simp
  obtain lr where lr: "lr_wf lr" "map snd (lr_items lr) = take 2 (line_words line)"
      "LineEditor_ProcessInput M fuel le (line @ [0]) (length line) = run_command M fuel CmdInsert (le\<lparr>le_lexresult := lr\<rparr>) lr"
    using ProcessInput_command[OF assms(1-6), of fuel] unfolding assms(7) w by (auto simp: command_def)
  have "length (map snd (lr_items lr)) = 2" unfolding lr(2) using assms(8) by simp
  then have cnt: "lr_token_count lr = 2" using length_lr_items[OF lr(1)] by simp
  then obtain b where "LexerResult_GetTokenAt lr 1 = Some (Some b)" "terminated b"
    using GetTokenAt_ok[OF lr(1), of 1] by auto
  then show ?thesis
    unfolding lr(3) using cnt
    by (intro exI[of _ lr]) (simp add: run_command_def EditorCmdInsert_def LexerResult_GetTokenCount_def line_number_def std_string_ok)
qed

lemma fresh_editor:
  obtains le where "LineEditor_Factory ed_mgr raw_block = Some le" "ed_ok le []"
  using Factory_ok[OF ed_mgr_grants, of raw_block] by blast

theorem insert_command_inserts_nothing_witness:
  "\<exists>le lr. LineEditor_Factory ed_mgr raw_block = Some le \<and>
    LineEditor_ProcessInput ed_mgr 0 le (bytes_of ''.i 0 Dear all,'' @ [10] @ [0]) (length (bytes_of ''.i 0 Dear all,'' @ [10])) =
      Returns (LEDITOR_OK, [], le\<lparr>le_lexresult := lr\<rparr>)"
proof -
  obtain le where le: "LineEditor_Factory ed_mgr raw_block = Some le" "ed_ok le []" by (rule fresh_editor)
  have "\<exists>lr. LineEditor_ProcessInput ed_mgr 0 le ((bytes_of ''.i 0 Dear all,'' @ [10]) @ [0]) (length (bytes_of ''.i 0 Dear all,'' @ [10])) =
      Returns (LEDITOR_OK, [], le\<lparr>le_lexresult := lr\<rparr>)"
  proof (rule insert_command_inserts_nothing[OF ed_mgr_grants le(2)])
    show "hd (line_words (bytes_of ''.i 0 Dear all,'' @ [10])) = bytes_of ''.i''"
      "2 \<le> length (line_words (bytes_of ''.i 0 Dear all,'' @ [10]))" by code_simp+
  qed (simp_all add: bytes_of_def)
  then show ?thesis using le(1) by auto
qed

text \<open>deleting a line takes it out of the text (what the buffer holds as a string), but the length of the
  buffer stays: behind the terminator it still counts the end of the deleted line, or zeros, and the table of
  lines is built over that too. All of it is printed and saved.\<close>

theorem delete_leaves_remains:
  assumes "grants_editor M" "ed_ok le (a @ w @ 10 # b)" "0 < clength (le_buffer le)" "10 \<notin> set w" "a = [] \<or> last a = 10"
    "length (a @ w @ 10 # b) < 2 ^ 48"
  shows "\<exists>le'. LineEditor_DeleteLine M le (count_list a 10) = Some le' \<and> cv_str (le_buffer le') = a @ b \<and>
    cv_bytes (le_buffer le') = a @ b @ 0 # drop (length b + 1) (w @ 10 # replicate (length b + 1) 0) \<and>
    line_table le' = shown_lines (cv_bytes (le_buffer le')) (length (cv_bytes (le_buffer le')))"
proof -
  obtain le' where le': "LineEditor_DeleteLine M le (count_list a 10) = Some le'" "cv_wf (le_buffer le')" "cv_str (le_buffer le') = a @ b"
      "clength (le_buffer le') = clength (le_buffer le)"
      "cv_bytes (le_buffer le') = a @ b @ 0 # drop (length b + 1) (w @ 10 # replicate (length b + 1) 0)"
      "line_table le' = shown_lines (cv_bytes (le_buffer le')) (clength (le_buffer le))"
    using DeleteLine_ok[OF assms] by blast
  then show ?thesis using length_cv_bytes[OF le'(2)] by simp
qed

theorem delete_leaves_remains_witness:
  "\<exists>le0 le le'. open_editor ed_mgr raw_block EditableText_Factory 5 = Returns ([], le0) \<and>
    type_lines ed_mgr 0 [bytes_of ''first'', bytes_of ''ab''] le0 = Returns ([], le) \<and>
    LineEditor_DeleteLine ed_mgr le (count_list [] (10 :: byte)) = Some le' \<and> cv_str (le_buffer le') = [] @ (bytes_of ''ab'' @ [10]) \<and>
    cv_bytes (le_buffer le') = [] @ (bytes_of ''ab'' @ [10]) @ 0 #
      drop (length (bytes_of ''ab'' @ [10]) + 1) (bytes_of ''first'' @ 10 # replicate (length (bytes_of ''ab'' @ [10]) + 1) 0) \<and>
    line_table le' = shown_lines (cv_bytes (le_buffer le')) (length (cv_bytes (le_buffer le')))"
proof -
  have t: "free_text EditableText_Factory" "fst (EditableText_GetString EditableText_Factory) = []"
    by (simp_all add: free_text_def EditableText_Factory_def EditableText_GetString_def)
  obtain le0 where le0: "open_editor ed_mgr raw_block EditableText_Factory 5 = Returns ([], le0)" "ed_ok le0 []" "0 < clength (le_buffer le0)"
      "le_max_length le0 = 0" "le_max_lines le0 = 0"
    using open_editor_ok[OF ed_mgr_grants t(1), of raw_block 5] t(2) by auto
  obtain le where le: "type_lines ed_mgr 0 [bytes_of ''first'', bytes_of ''ab''] le0 = Returns ([], le)"
      "ed_ok le ([] @ bytes_of ''first'' @ 10 # (bytes_of ''ab'' @ [10]))" "0 < clength (le_buffer le)"
    using type_lines_ok[OF ed_mgr_grants le0(2,4,5,3), of "[bytes_of ''first'', bytes_of ''ab'']" 0] by (auto simp: bytes_of_def)
  have "10 \<notin> set (bytes_of ''first'')" "length ([] @ bytes_of ''first'' @ 10 # (bytes_of ''ab'' @ [10])) < 2 ^ 48"
    by (simp_all add: bytes_of_def)
  then show ?thesis
    using delete_leaves_remains[OF ed_mgr_grants le(2,3)] le0(1) le(1) by fast
qed

text \<open>C35: showing a text with a line of 512 bytes writes behind the line buffer. The buffer has 512 bytes, the check
  before it is used asks for more than 512, and the terminator is written at the index of the length.\<close>

theorem print_line_of_512_overflows:
  assumes "grants_editor M" "free_text t" "fst (EditableText_GetString t) = []"
    "\<forall>l \<in> set (ls @ [long] @ ls'). 0 \<notin> set l \<and> 10 \<notin> set l \<and> (l \<noteq> [] \<longrightarrow> hd l \<noteq> 46)"
    "\<forall>l \<in> set ls. length l < 512" "length long = 512" "length (concat (ls @ [long] @ ls')) + length (ls @ [long] @ ls') < 2 ^ 40"
  shows "\<exists>le le'. open_editor M block t c = Returns ([], le) \<and> type_lines M fuel (ls @ [long] @ ls') le = Returns ([], le') \<and>
    LineEditor_ProcessInputString M fuel (bytes_of ''.p'' @ [10]) le' = Faults"
proof -
  let ?ls = "ls @ [long] @ ls'"
  obtain le where le: "open_editor M block t c = Returns ([], le)" "ed_ok le []" "0 < clength (le_buffer le)"
      "le_max_length le = 0" "le_max_lines le = 0" "le_client le = Some c"
    using open_editor_ok[OF assms(1,2), of block c] assms(3) by auto
  obtain le1 where le1: "type_lines M fuel ?ls le = Returns ([], le1)" "ed_ok le1 (concat (map (\<lambda>l. l @ [10]) ?ls))"
      "0 < clength (le_buffer le1)" "le_client le1 = Some c"
    using type_lines_ok[OF assms(1) le(2,4,5,3), of ?ls fuel] assms(4,7) le(6) by auto
  obtain lr where lr:
      "LineEditor_ProcessInput M fuel le1 (bytes_of ''.p'' @ [10] @ [0]) (length (bytes_of ''.p'' @ [10])) =
        bind_outcome (print_loop M le1 False 0 (length ?ls) (Some (replicate 512 0)) 512) (\<lambda>ms. Returns (LEDITOR_OK, ms, le1\<lparr>le_lexresult := lr\<rparr>))"
      "\<forall>i < length ?ls. i < length (cells (le_lines le1)) \<and> tl_length (cells (le_lines le1) ! i) = length (?ls ! i) \<and>
        tl_start (cells (le_lines le1) ! i) + tl_length (cells (le_lines le1) ! i) \<le> length (cells (cdata (le_buffer le1)))"
    using cmd_print[OF assms(1) le1(2,3) _ _ le1(4), of fuel] assms(4) by auto
  have "?ls ! i = ls ! i" if "i < length ls" for i using that by (simp add: nth_append)
  then have "\<forall>i. 0 \<le> i \<and> i < 0 + length ls \<longrightarrow> i < length (cells (le_lines le1)) \<and> tl_length (cells (le_lines le1) ! i) < 512 \<and>
      tl_start (cells (le_lines le1) ! i) + tl_length (cells (le_lines le1) ! i) \<le> length (cells (cdata (le_buffer le1)))"
  proof (intro allI impI)
    fix i assume "0 \<le> i \<and> i < 0 + length ls"
    then have i: "i < length ?ls" "?ls ! i = ls ! i" "length (ls ! i) < 512"
      using \<open>\<And>i. i < length ls \<Longrightarrow> ?ls ! i = ls ! i\<close> assms(5) by auto
    show "i < length (cells (le_lines le1)) \<and> tl_length (cells (le_lines le1) ! i) < 512 \<and>
      tl_start (cells (le_lines le1) ! i) + tl_length (cells (le_lines le1) ! i) \<le> length (cells (cdata (le_buffer le1)))"
      using lr(2)[rule_format, OF i(1)] unfolding i(2) using i(3) by (metis)
  qed
  moreover have "0 + length ls < length (cells (le_lines le1))" "tl_length (cells (le_lines le1) ! (0 + length ls)) = 512"
    using lr(2)[rule_format, of "length ls"] assms(6) by (simp_all add: nth_append)
  ultimately have "print_loop M le1 False 0 (length ?ls) (Some (replicate 512 0)) 512 = Faults"
    by (intro print_loop_512[OF le1(4), where k = "length ls"]) auto
  then show ?thesis using le(1) le1(1) lr(1) by (auto simp: LineEditor_ProcessInputString_def)
qed

theorem print_line_of_512_overflows_witness:
  "\<exists>le le'. open_editor ed_mgr raw_block EditableText_Factory 5 = Returns ([], le) \<and>
    type_lines ed_mgr 0 ([[72]] @ [replicate 512 65] @ []) le = Returns ([], le') \<and>
    LineEditor_ProcessInputString ed_mgr 0 (bytes_of ''.p'' @ [10]) le' = Faults"
proof (rule print_line_of_512_overflows[OF ed_mgr_grants])
  show "\<forall>l \<in> set ([[72]] @ [replicate 512 65] @ []). (0 :: byte) \<notin> set l \<and> 10 \<notin> set l \<and> (l \<noteq> [] \<longrightarrow> hd l \<noteq> 46)"
    by (simp add: hd_replicate)
qed (simp_all add: free_text_def EditableText_Factory_def EditableText_GetString_def)

text \<open>a text object made from a string hides it: \<open>GetString\<close> answers from a copy that was never filled. So the
  editor opens with an empty text, and saving without having typed anything replaces the string by a zero byte.\<close>

theorem editing_a_new_text_erases_it:
  assumes "grants_editor M"
  shows "\<exists>le le' t'. fst (EditableText_GetString (EditableText_Factory_from str)) = [] \<and>
    open_editor M block (EditableText_Factory_from str) c = Returns ([], le) \<and>
    type_lines M fuel [bytes_of ''.s''] le = Returns ([], le') \<and> le_target le' = Some t' \<and> et_text t' = [0]"
proof -
  let ?t = "EditableText_Factory_from str"
  have t: "free_text ?t" "fst (EditableText_GetString ?t) = []"
    by (simp_all add: free_text_def EditableText_Factory_from_def EditableText_Factory_def EditableText_GetString_def)
  obtain le where le: "open_editor M block ?t c = Returns ([], le)" "ed_ok le []" "0 < clength (le_buffer le)"
      "le_target le = Some (snd (EditableText_GetString ?t))"
    using open_editor_ok[OF assms t(1), of block c] t(2) by auto
  obtain le' where "LineEditor_ProcessInput M fuel le (bytes_of ''.s'' @ [10] @ [0]) (length (bytes_of ''.s'' @ [10])) = Returns (LEDITOR_SAVE, [], le')"
      "le_target le' = Some (snd (EditableText_GetString ?t)\<lparr>et_text := [] @ [0], et_needs_update := True\<rparr>)"
    using cmd_save[OF assms le(2,3,4), of fuel] by blast
  then show ?thesis using le(1) t(2) by (simp add: LineEditor_ProcessInputString_def)
qed

theorem editing_a_new_text_erases_it_witness:
  "\<exists>le le' t'. fst (EditableText_GetString (EditableText_Factory_from (bytes_of ''old''))) = [] \<and>
    open_editor ed_mgr raw_block (EditableText_Factory_from (bytes_of ''old'')) 5 = Returns ([], le) \<and>
    type_lines ed_mgr 0 [bytes_of ''.s''] le = Returns ([], le') \<and> le_target le' = Some t' \<and> et_text t' = [0]"
  by (rule editing_a_new_text_erases_it[OF ed_mgr_grants])

text \<open>Further behaviour: a line that is not ended by a newline cannot be deleted (its end is taken to be one byte
  further than it is, and the length of the rest wraps around); a text that is longer than its limit
  crashes the server when the editor opens, because the refusal is sent to a client that is not set yet.\<close>

theorem delete_unterminated_line_faults:
  assumes "ed_ok le tx" "0 < clength (le_buffer le)" "10 \<notin> set tx" "length tx < 2 ^ 48"
  shows "LineEditor_DeleteLine M le 0 = None"
proof -
  have h: "holds_text (le_buffer le) tx" using assms(1) by (simp add: ed_ok_def)
  note hb = holds_text_bytes[OF h assms(2)]
  have lt: "line_table le = [\<lparr>tl_start = 0, tl_length = length tx + 1\<rparr>]"
    using assms(1,2,3) hb(3) by (simp add: ed_ok_def shown_lines_def)
  then have "rd (cells (le_lines le)) 0 = Some \<lparr>tl_start = 0, tl_length = length tx + 1\<rparr>"
    by (cases "cells (le_lines le)"; cases "le_lines_count le") (auto simp: line_table_def rd_def)
  moreover have "sz (length tx + 1 + 1) = length tx + 2" using assms(4) by (subst sz_small) simp_all
  moreover have "sz_sub (length tx + 1) (length tx + 2) = length tx + 1 + 2 ^ 64 - (length tx + 2)"
    using assms(4) by (intro sz_sub_wrap) simp_all
  moreover have "length (cells (cdata (le_buffer le))) < 2 ^ 62"
  proof -
    obtain d where "cdata (le_buffer le) = Some d" "length d < 2 ^ 62"
      using h cv_wfE by (metis holds_text_def)
    then show ?thesis by simp
  qed
  then have "read_cells (cells (cdata (le_buffer le))) (length tx + 2) (length tx + 1 + 2 ^ 64 - (length tx + 2)) = None"
    by (simp add: read_cells_def)
  ultimately show ?thesis using hb(3) by (simp add: LineEditor_DeleteLine_def)
qed

theorem text_over_its_limit_crashes:
  assumes "grants_editor M" "0 < unat (et_maxlength t)" "unat (et_maxlength t) < length (fst (EditableText_GetString t))"
    "length (fst (EditableText_GetString t)) < 2 ^ 40"
  shows "open_editor M block t c = Faults"
proof -
  obtain str t' where st: "EditableText_GetString t = (str, t')" by (cases "EditableText_GetString t")
  have m: "et_maxlength t' = et_maxlength t" using st by (auto simp: EditableText_GetString_def Let_def split: if_splits)
  obtain le where le: "LineEditor_Factory M block = Some le" "clength (le_buffer le) = 0" "le_client le = None"
    using Factory_ok[OF assms(1)] by blast
  have "CountNewlines (str @ [0]) (length str) = Some (count_list str 10)" by (subst CountNewlines_ok) auto
  moreover have "sz (length str) = length str" using assms(4) st by (intro sz_small) simp
  ultimately show ?thesis
    using le st m assms(2,3)
    by (simp add: open_editor_def LineEditor_SetEditTarget_def LineEditor_Append_def tell_def)
qed

end
