(* ===== verification/Uuid.thy ===== *)
theory Uuid
  imports C_Strings
begin

text \<open>
  uuid.cpp: the identifiers of the scripts' objects. The union is its 16 bytes; a field of the struct is read from
  its bytes in the order of the x86-64 target, lowest byte first. The registration calls of the script engine are
  left out.
\<close>

unbundle bit_operations_syntax

section \<open>Bytes of integers\<close>

text \<open>A number stored in \<open>k\<close> bytes, lowest first, and the number that is stored in some bytes.\<close>

fun le_bytes :: "nat \<Rightarrow> nat \<Rightarrow> byte list" where
  "le_bytes 0 n = []"
| "le_bytes (Suc k) n = word_of_nat n # le_bytes k (n div 256)"

fun le_value :: "byte list \<Rightarrow> nat" where
  "le_value [] = 0"
| "le_value (b # bs) = unat b + 256 * le_value bs"

type_synonym uuid = "byte list"

definition get_field :: "nat \<Rightarrow> nat \<Rightarrow> uuid \<Rightarrow> nat" where
  "get_field at k d = le_value (take k (drop at d))"

definition set_field :: "nat \<Rightarrow> nat \<Rightarrow> nat \<Rightarrow> uuid \<Rightarrow> uuid" where
  "set_field at k v d = take at d @ le_bytes k v @ drop (at + k) d"

abbreviation time_low :: "uuid \<Rightarrow> nat" where "time_low \<equiv> get_field 0 4"
abbreviation time_mid :: "uuid \<Rightarrow> nat" where "time_mid \<equiv> get_field 4 2"
abbreviation time_hi_and_version :: "uuid \<Rightarrow> nat" where "time_hi_and_version \<equiv> get_field 6 2"
abbreviation clock_seq_hi_and_reserved :: "uuid \<Rightarrow> nat" where "clock_seq_hi_and_reserved \<equiv> get_field 8 1"
abbreviation clock_seq_low :: "uuid \<Rightarrow> nat" where "clock_seq_low \<equiv> get_field 9 1"
abbreviation nodes :: "nat \<Rightarrow> uuid \<Rightarrow> nat" where "nodes i \<equiv> get_field (10 + i) 1"

definition UUID_zero :: uuid where
  "UUID_zero = replicate 16 0"

definition UUID_of_halves :: "64 word \<Rightarrow> 64 word \<Rightarrow> uuid" where
  "UUID_of_halves half1 half2 = le_bytes 8 (unat half1) @ le_bytes 8 (unat half2)"

definition UUID_CopyFromByteArray :: "byte list \<Rightarrow> nat \<Rightarrow> uuid \<Rightarrow> uuid option" where
  "UUID_CopyFromByteArray inp len d = (if len = 16 then read_cells inp 0 16 else Some d)"

definition UUID_CopyToByteArray :: "byte list \<Rightarrow> nat \<Rightarrow> uuid \<Rightarrow> (int \<times> byte list) option" where
  "UUID_CopyToByteArray out len d =
     (if len < 16 then Some (-1, out)
      else do { out \<leftarrow> copy_cells out 0 (take 8 d); out \<leftarrow> copy_cells out 8 (drop 8 d); Some (0, out) })"

definition UUID_GetAsInt128 :: "uuid \<Rightarrow> 64 word \<times> 64 word" where
  "UUID_GetAsInt128 d = (word_of_nat (get_field 0 8 d), word_of_nat (get_field 8 8 d))"

section \<open>The text\<close>

text \<open>The lower-case hexadecimal digits of a number that has at most \<open>p\<close> of them (\<open>%p.px\<close>).\<close>

definition hex_char :: "nat \<Rightarrow> byte" where
  "hex_char n = (if n < 10 then 48 + word_of_nat n else 87 + word_of_nat n)"

fun hex_digits :: "nat \<Rightarrow> nat \<Rightarrow> byte list" where
  "hex_digits 0 n = []"
| "hex_digits (Suc p) n = hex_digits p (n div 16) @ [hex_char (n mod 16)]"

text \<open>\<open>strtoul\<close> in base 16: spaces, a sign, perhaps \<open>0x\<close> before a digit, then digits.\<close>

definition c_isxdigit :: "byte \<Rightarrow> bool" where
  "c_isxdigit b \<longleftrightarrow> c_isdigit b \<or> 65 \<le> b \<and> b \<le> 70 \<or> 97 \<le> b \<and> b \<le> 102"

definition xdigit_value :: "byte \<Rightarrow> nat" where
  "xdigit_value b = (if c_isdigit b then unat b - 48 else if b \<le> 70 then unat b - 55 else unat b - 87)"

definition xdigits_value :: "byte list \<Rightarrow> nat" where
  "xdigits_value ds = foldl (\<lambda>n d. 16 * n + xdigit_value d) 0 ds"

definition c_strtoul_16 :: "byte list \<Rightarrow> nat" where
  "c_strtoul_16 str =
     (let s = dropWhile c_isspace str;
          neg = (s \<noteq> [] \<and> hd s = 45);
          s = (if s \<noteq> [] \<and> (hd s = 45 \<or> hd s = 43) then tl s else s);
          s = (if 2 < length s \<and> s ! 0 = 48 \<and> (s ! 1 = 120 \<or> s ! 1 = 88) \<and> c_isxdigit (s ! 2) then drop 2 s else s);
          v = xdigits_value (takeWhile c_isxdigit s)
      in if 2 ^ 64 \<le> v then 2 ^ 64 - 1 else if neg then (2 ^ 64 - v) mod 2 ^ 64 else v)"

definition UUID_ToString :: "uuid \<Rightarrow> byte list option" where
  "UUID_ToString d = do {
     temp \<leftarrow> c_snprintf (replicate 38 0) 38
       (hex_digits 8 (time_low d) @ [45] @ hex_digits 4 (time_mid d) @ [45] @ hex_digits 4 (time_hi_and_version d) @ [45] @
        hex_digits 2 (clock_seq_hi_and_reserved d) @ hex_digits 2 (clock_seq_low d) @ [45] @
        hex_digits 2 (nodes 0 d) @ hex_digits 2 (nodes 1 d) @ hex_digits 2 (nodes 2 d) @
        hex_digits 2 (nodes 3 d) @ hex_digits 2 (nodes 4 d) @ hex_digits 2 (nodes 5 d));
     std_string (Some temp)
   }"

text \<open>\<open>strncpy\<close> of \<open>n\<close> bytes from \<open>pstr + at\<close> into an array of \<open>n + 1\<close> zeros, read by \<open>strtoul\<close>.\<close>

definition hex_part :: "byte list \<Rightarrow> nat \<Rightarrow> nat \<Rightarrow> nat option" where
  "hex_part pstr at n = do { a \<leftarrow> c_strncpy (replicate (n + 1) 0) (drop at pstr) n; Some (c_strtoul_16 a) }"

text \<open>\<open>htonl\<close> and \<open>htons\<close> reverse the bytes of their argument.\<close>

definition c_hton :: "nat \<Rightarrow> nat \<Rightarrow> nat" where
  "c_hton k v = le_value (rev (le_bytes k v))"

definition UUID_FromString :: "byte list \<Rightarrow> uuid \<Rightarrow> (bool \<times> uuid) option" where
  "UUID_FromString str d =
     (let pstr = str @ [0] in
      if 36 \<noteq> length str \<or> str ! 8 \<noteq> 45 \<or> str ! 13 \<noteq> 45 \<or> str ! 18 \<noteq> 45 \<or> str ! 23 \<noteq> 45 then Some (False, d)
      else do {
        first \<leftarrow> hex_part pstr 0 8;
        second \<leftarrow> hex_part pstr 9 4;
        third \<leftarrow> hex_part pstr 14 4;
        fourth \<leftarrow> hex_part pstr 19 4;
        fifth_a \<leftarrow> hex_part pstr 24 8;
        fifth_b \<leftarrow> hex_part pstr 32 4;
        let d = set_field 6 2 third (set_field 4 2 second (set_field 0 4 first d));
        let fourthint = fourth mod 2 ^ 32;
        let d = set_field 9 1 (fourthint mod 256) (set_field 8 1 (fourthint div 256 mod 256) d);
        let fifth_a_int = c_hton 4 fifth_a;
        let fifth_b_int = c_hton 2 fifth_b;
        Some (True, set_field 14 2 fifth_b_int (set_field 10 4 fifth_a_int d))
      })"

section \<open>Generated identifiers\<close>

text \<open>The two versions of the code: two numbers of the processor, or four of \<open>random()\<close>. The masks set the version
  and the variant of RFC 4122.\<close>

definition UUID_set_version :: "uuid \<Rightarrow> uuid" where
  "UUID_set_version d =
     (let d = set_field 8 1 (unat (word_of_nat (clock_seq_hi_and_reserved d) AND 191 OR 128 :: byte)) d
      in set_field 6 2 (unat (word_of_nat (time_hi_and_version d) AND 20479 OR 16384 :: 16 word)) d)"

definition UUID_Generate_intrinsics :: "64 word \<Rightarrow> 64 word \<Rightarrow> uuid" where
  "UUID_Generate_intrinsics halfone halftwo = UUID_set_version (UUID_of_halves halfone halftwo)"

definition UUID_Generate_random :: "64 word \<Rightarrow> 64 word \<Rightarrow> 64 word \<Rightarrow> 64 word \<Rightarrow> uuid" where
  "UUID_Generate_random dwone dwtwo dwthree dwfour =
     UUID_set_version (UUID_of_halves (push_bit 32 dwone OR dwtwo) (push_bit 32 dwthree OR dwfour))"

section \<open>Digits and numbers\<close>

lemma length_le_bytes [simp]: "length (le_bytes k n) = k"
  by (induction k arbitrary: n) auto

lemma le_bytes_le_value: "length bs = k \<Longrightarrow> le_bytes k (le_value bs) = bs"
proof (induction bs arbitrary: k)
  case (Cons b bs)
  then obtain j where j: "k = Suc j" "length bs = j" by auto
  have "(unat b + 256 * le_value bs) div 256 = le_value bs" using unsigned_less[where ?'a = nat, of b] by simp
  moreover have "word_of_nat (unat b + 256 * le_value bs) = b"
    using arg_cong[of "256 :: byte" 0 "\<lambda>c. b + c * word_of_nat (le_value bs)"] by simp
  ultimately show ?case using Cons.IH[OF j(2)] j(1) by simp
qed simp

lemma le_value_less: "le_value bs < 256 ^ length bs"
proof (induction bs)
  case (Cons b bs)
  have "unat b < 256" using unsigned_less[where ?'a = nat, of b] by simp
  then show ?case using Cons by simp
qed simp

lemma hex_digits_length [simp]: "length (hex_digits p n) = p"
  by (induction p arbitrary: n) auto

lemma less_16: "(n :: nat) < 16 \<Longrightarrow> n \<in> {0, 1, 2, 3, 4, 5, 6, 7, 8, 9, 10, 11, 12, 13, 14, 15}"
  by (simp only: insert_iff empty_iff) arith

lemma hex_digit_ok:
  assumes "n < 16"
  shows "c_isxdigit (hex_char n)" "xdigit_value (hex_char n) = n" "hex_char n \<noteq> 0" "\<not> c_isspace (hex_char n)"
    "hex_char n \<noteq> 45" "hex_char n \<noteq> 43" "hex_char n \<noteq> 120" "hex_char n \<noteq> 88"
proof -
  have "c_isxdigit (hex_char n) \<and> xdigit_value (hex_char n) = n \<and> hex_char n \<noteq> 0 \<and> \<not> c_isspace (hex_char n) \<and>
    hex_char n \<noteq> 45 \<and> hex_char n \<noteq> 43 \<and> hex_char n \<noteq> 120 \<and> hex_char n \<noteq> 88"
    using less_16[OF assms] by (elim insertE emptyE)
      (simp_all add: hex_char_def c_isxdigit_def xdigit_value_def c_isspace_def c_isdigit_def)
  then show "c_isxdigit (hex_char n)" "xdigit_value (hex_char n) = n" "hex_char n \<noteq> 0" "\<not> c_isspace (hex_char n)"
    "hex_char n \<noteq> 45" "hex_char n \<noteq> 43" "hex_char n \<noteq> 120" "hex_char n \<noteq> 88" by simp_all
qed

lemma hex_digits_set: "b \<in> set (hex_digits p n) \<Longrightarrow> \<exists>m < 16. b = hex_char m"
proof (induction p arbitrary: n)
  case (Suc p)
  then consider "b \<in> set (hex_digits p (n div 16))" | "b = hex_char (n mod 16)" by auto
  then show ?case
  proof cases
    case 1
    then show ?thesis by (rule Suc.IH)
  next
    case 2
    then show ?thesis by (intro exI[of _ "n mod 16"]) simp
  qed
qed simp

lemma hex_digits_value: "xdigits_value (hex_digits p n) = n mod 16 ^ p"
proof (induction p arbitrary: n)
  case (Suc p)
  have "n mod (16 * 16 ^ p) = 16 * (n div 16 mod 16 ^ p) + n mod 16" by (rule mod_mult2_eq)
  then show ?case using Suc[of "n div 16"] by (simp add: xdigits_value_def hex_digit_ok)
qed (simp add: xdigits_value_def)

lemma hex_digits_add: "hex_digits (p + q) n = hex_digits p (n div 16 ^ q) @ hex_digits q n"
  by (induction q arbitrary: n) (simp_all add: div_mult2_eq)

text \<open>Reading back digits that were printed.\<close>

lemma c_strtoul_hex_digits:
  assumes "n < 16 ^ p" "0 < p" "p \<le> 8"
  shows "c_strtoul_16 (hex_digits p n @ [0]) = n"
proof -
  let ?ds = "hex_digits p n"
  have ds: "c_isxdigit b \<and> \<not> c_isspace b \<and> b \<noteq> 45 \<and> b \<noteq> 43 \<and> b \<noteq> 120 \<and> b \<noteq> 88" if b: "b \<in> set ?ds" for b
  proof -
    obtain m where "m < 16" "b = hex_char m" using hex_digits_set[OF b] by auto
    then show ?thesis by (simp add: hex_digit_ok)
  qed
  have "?ds \<noteq> []" using assms(2) hex_digits_length[of p n] by (metis list.size(3) less_irrefl)
  then obtain d es where d: "?ds = d # es" by (cases ?ds) simp_all
  have h: "\<not> c_isspace d" "d \<noteq> 45" "d \<noteq> 43" using ds[of d] d by auto
  have nx: "(?ds @ [0]) ! 1 \<noteq> 120 \<and> (?ds @ [0]) ! 1 \<noteq> 88"
    using ds[of "hd es"] d by (cases es) (simp_all del: hex_digits.simps)
  have s: "dropWhile c_isspace (?ds @ [0]) = ?ds @ [0]" "hd (?ds @ [0]) = d" "?ds @ [0] \<noteq> []" using h(1) d by simp_all
  have "takeWhile c_isxdigit (?ds @ [0]) = ?ds"
    using ds by (subst takeWhile_append2) (auto simp: c_isxdigit_def c_isdigit_def)
  then have v: "xdigits_value (takeWhile c_isxdigit (?ds @ [0])) = n"
    using hex_digits_value[of p n] assms(1) by simp
  have "(16 :: nat) ^ p \<le> 16 ^ 8" using assms(3) by (intro power_increasing) simp_all
  also have "(16 :: nat) ^ 8 \<le> 2 ^ 64" by simp
  finally have "n < 2 ^ 64" by (rule less_le_trans[OF assms(1)])
  then have "\<not> 2 ^ 64 \<le> n" by (simp only: not_le)
  then show ?thesis using h(2,3) nx by (simp only: c_strtoul_16_def Let_def s v if_False not_True_eq_False simp_thms)
qed

lemma hex_part_ok:
  assumes "pstr = xs @ hex_digits p n @ ys" "length xs = at" "n < 16 ^ p" "0 < p" "p \<le> 8"
  shows "hex_part pstr at p = Some n"
proof -
  have nz: "0 \<notin> set (hex_digits p n)" using hex_digits_set hex_digit_ok(3) by metis
  have last: "drop p (replicate (p + 1) (0 :: byte)) = [0]" by (simp only: drop_replicate) simp
  have "c_strncpy (replicate (p + 1) 0) (drop at pstr) p = Some (hex_digits p n @ [0])"
    using assms(1,2) nz last by (subst c_strncpy_ok) (simp_all add: cstr_id del: replicate_Suc)
  then show ?thesis using c_strtoul_hex_digits[OF assms(3-5)] by (simp add: hex_part_def)
qed

section \<open>Text and back\<close>

lemma hex_digits_mod: "hex_digits p (n mod 16 ^ p) = hex_digits p n"
proof (induction p arbitrary: n)
  case (Suc p)
  have "n mod (16 * 16 ^ p) = 16 * (n div 16 mod 16 ^ p) + n mod 16" by (rule mod_mult2_eq)
  then have "n mod (16 * 16 ^ p) div 16 = n div 16 mod 16 ^ p" "n mod (16 * 16 ^ p) mod 16 = n mod 16" by simp_all
  then show ?case using Suc[of "n div 16"] by simp
qed simp

text \<open>The digits of bytes, one after the other, are those of the number with the first byte highest.\<close>

lemma hex_of_bytes: "concat (map (\<lambda>b. hex_digits 2 (unat b)) bs) = hex_digits (2 * length bs) (le_value (rev bs))"
proof (induction bs rule: rev_induct)
  case (snoc x xs)
  let ?v = "unat x + 256 * le_value (rev xs)"
  have x: "unat x < 256" using unsigned_less[where ?'a = nat, of x] by simp
  then have "?v div 256 = le_value (rev xs)" "?v mod 256 = unat x" by simp_all
  then have "hex_digits (2 * length xs + 2) ?v = hex_digits (2 * length xs) (le_value (rev xs)) @ hex_digits 2 (unat x)"
    using hex_digits_add[of "2 * length xs" 2 ?v] hex_digits_mod[of 2 ?v] by simp
  then show ?case using snoc by simp
qed simp

lemma printed_string:
  assumes "length out < cap" "0 \<notin> set out"
  shows "\<exists>t. c_snprintf (replicate cap 0) cap out = Some t \<and> std_string (Some t) = Some out"
proof -
  obtain t where t: "c_snprintf (replicate cap 0) cap out = Some t" "take (length out + 1) t = out @ [0]"
    using c_snprintf_ok[of out cap "replicate cap 0"] assms by auto
  have eq: "t = out @ 0 # drop (length out + 1) t"
    using t(2) append_take_drop_id[of "length out + 1" t] by (metis append.assoc append_Cons append_Nil)
  have "terminated t" by (subst eq) (simp add: terminated_def)
  moreover have "cstr t = out" by (subst eq) (rule cstr_zero[OF assms(2)])
  ultimately show ?thesis using t(1) std_string_ok[of t] by simp
qed

text \<open>C36: the text of an identifier gives it back: whatever the sixteen bytes are, \<open>ToString\<close> returns a text of 36
  characters, and \<open>FromString\<close> on this text restores the bytes.\<close>

theorem uuid_text_round_trip:
  assumes "length d = 16" "length e = 16"
  shows "\<exists>str. UUID_ToString d = Some str \<and> length str = 36 \<and> UUID_FromString str e = Some (True, d)"
proof -
  obtain b0 b1 b2 b3 b4 b5 b6 b7 b8 b9 b10 b11 b12 b13 b14 b15 where
    d: "d = [b0, b1, b2, b3, b4, b5, b6, b7, b8, b9, b10, b11, b12, b13, b14, b15]"
    using assms(1) by (auto simp: length_Suc_conv eval_nat_numeral)
  obtain e0 e1 e2 e3 e4 e5 e6 e7 e8 e9 e10 e11 e12 e13 e14 e15 where
    e: "e = [e0, e1, e2, e3, e4, e5, e6, e7, e8, e9, e10, e11, e12, e13, e14, e15]"
    using assms(2) by (auto simp: length_Suc_conv eval_nat_numeral)
  define p1 p2 p3 p4 p5 p6 where p: "p1 = hex_digits 8 (le_value [b0, b1, b2, b3])" "p2 = hex_digits 4 (le_value [b4, b5])"
    "p3 = hex_digits 4 (le_value [b6, b7])" "p4 = hex_digits 4 (le_value (rev [b8, b9]))"
    "p5 = hex_digits 8 (le_value (rev [b10, b11, b12, b13]))" "p6 = hex_digits 4 (le_value (rev [b14, b15]))"
  define str where "str = p1 @ [45] @ p2 @ [45] @ p3 @ [45] @ p4 @ [45] @ p5 @ p6"
  have len: "length p1 = 8" "length p2 = 4" "length p3 = 4" "length p4 = 4" "length p5 = 8" "length p6 = 4"
    by (simp_all add: p)
  have "0 \<notin> set (hex_digits k n)" for k n using hex_digits_set hex_digit_ok(3) by metis
  then have nz: "length str = 36" "0 \<notin> set str" by (simp_all add: str_def len) (simp_all add: p)
  have "hex_digits 2 (unat b8) @ hex_digits 2 (unat b9) = p4"
    "hex_digits 2 (unat b10) @ hex_digits 2 (unat b11) @ hex_digits 2 (unat b12) @ hex_digits 2 (unat b13) = p5"
    "hex_digits 2 (unat b14) @ hex_digits 2 (unat b15) = p6"
    using hex_of_bytes[of "[b8, b9]"] hex_of_bytes[of "[b10, b11, b12, b13]"] hex_of_bytes[of "[b14, b15]"]
    by (simp_all add: p del: hex_digits.simps le_value.simps)
  then have "hex_digits 8 (time_low d) @ [45] @ hex_digits 4 (time_mid d) @ [45] @ hex_digits 4 (time_hi_and_version d) @ [45] @
      hex_digits 2 (clock_seq_hi_and_reserved d) @ hex_digits 2 (clock_seq_low d) @ [45] @
      hex_digits 2 (nodes 0 d) @ hex_digits 2 (nodes 1 d) @ hex_digits 2 (nodes 2 d) @
      hex_digits 2 (nodes 3 d) @ hex_digits 2 (nodes 4 d) @ hex_digits 2 (nodes 5 d) = str"
    by (simp add: str_def p(1-3) d get_field_def del: hex_digits.simps)
  then have out: "UUID_ToString d = Some str"
    using printed_string[of str 38] nz by (auto simp: UUID_ToString_def simp del: replicate_Suc)
  have less: "le_value xs < 16 ^ (2 * length xs)" for xs using le_value_less[of xs] by (simp add: power_mult)
  note hex = hex_part_ok[of "str @ [0]"]
  have parts: "hex_part (str @ [0]) 0 8 = Some (le_value [b0, b1, b2, b3])"
    "hex_part (str @ [0]) 9 4 = Some (le_value [b4, b5])" "hex_part (str @ [0]) 14 4 = Some (le_value [b6, b7])"
    "hex_part (str @ [0]) 19 4 = Some (le_value (rev [b8, b9]))"
    "hex_part (str @ [0]) 24 8 = Some (le_value (rev [b10, b11, b12, b13]))"
    "hex_part (str @ [0]) 32 4 = Some (le_value (rev [b14, b15]))"
    using hex[of "[]" 8 "le_value [b0, b1, b2, b3]"] less[of "[b0, b1, b2, b3]"]
      hex[of "p1 @ [45]" 4 "le_value [b4, b5]"] less[of "[b4, b5]"]
      hex[of "p1 @ [45] @ p2 @ [45]" 4 "le_value [b6, b7]"] less[of "[b6, b7]"]
      hex[of "p1 @ [45] @ p2 @ [45] @ p3 @ [45]" 4 "le_value (rev [b8, b9])"] less[of "rev [b8, b9]"]
      hex[of "p1 @ [45] @ p2 @ [45] @ p3 @ [45] @ p4 @ [45]" 8 "le_value (rev [b10, b11, b12, b13])"] less[of "rev [b10, b11, b12, b13]"]
      hex[of "p1 @ [45] @ p2 @ [45] @ p3 @ [45] @ p4 @ [45] @ p5" 4 "le_value (rev [b14, b15])"] less[of "rev [b14, b15]"]
    by (simp_all add: str_def p del: le_value.simps hex_digits.simps)
  have four: "le_value (rev [b8, b9]) mod 2 ^ 32 = unat b9 + 256 * unat b8"
    using unsigned_less[where ?'a = nat, of b8] unsigned_less[where ?'a = nat, of b9] by simp
  have bytes: "le_bytes 1 ((unat b9 + 256 * unat b8) mod 256) = [b9]" "le_bytes 1 ((unat b9 + 256 * unat b8) div 256 mod 256) = [b8]"
    using unsigned_less[where ?'a = nat, of b8] unsigned_less[where ?'a = nat, of b9] by simp_all
  have hton: "le_bytes k (c_hton k (le_value (rev bs))) = bs" if "length bs = k" for k bs
    using le_bytes_le_value[of "rev bs" k] le_bytes_le_value[of bs k] that by (simp add: c_hton_def)
  have dashes: "str ! 8 = 45" "str ! 13 = 45" "str ! 18 = 45" "str ! 23 = 45"
    by (simp_all add: str_def nth_append len)
  have fields: "le_bytes 4 (le_value [b0, b1, b2, b3]) = [b0, b1, b2, b3]" "le_bytes 2 (le_value [b4, b5]) = [b4, b5]"
    "le_bytes 2 (le_value [b6, b7]) = [b6, b7]" "le_bytes 4 (c_hton 4 (le_value (rev [b10, b11, b12, b13]))) = [b10, b11, b12, b13]"
    "le_bytes 2 (c_hton 2 (le_value (rev [b14, b15]))) = [b14, b15]"
    by (intro le_bytes_le_value hton, simp)+
  have "UUID_FromString str e = Some (True, d)"
    unfolding UUID_FromString_def Let_def parts set_field_def using nz(1) dashes bytes fields four
    by (simp add: e d del: le_bytes.simps le_value.simps)
  then show ?thesis using out nz(1) by blast
qed

theorem uuid_text_round_trip_witness:
  "\<exists>str. UUID_ToString (replicate 16 255) = Some str \<and> length str = 36 \<and> UUID_FromString str UUID_zero = Some (True, replicate 16 255)"
  by (rule uuid_text_round_trip) (simp_all add: UUID_zero_def)

section \<open>Version and variant\<close>

lemma le_value_le_bytes: "le_value (le_bytes k n) = n mod 256 ^ k"
proof (induction k arbitrary: n)
  case (Suc k)
  have "n mod (256 * 256 ^ k) = 256 * (n div 256 mod 256 ^ k) + n mod 256" by (rule mod_mult2_eq)
  then show ?case using Suc[of "n div 256"] by (simp add: unat_of_nat)
qed simp

lemma version_bits:
  "unat (w AND 191 OR 128 :: byte) div 64 = 2" "unat (v AND 20479 OR 16384 :: 16 word) div 4096 = 4"
proof -
  have "drop_bit 6 (w AND 191 OR 128) = (2 :: byte)" "drop_bit 12 (v AND 20479 OR 16384) = (4 :: 16 word)"
    by (rule bit_word_eqI, auto simp: bit_simps less_Suc_eq eval_nat_numeral bit_numeral_rec split: if_splits)+
  then show "unat (w AND 191 OR 128 :: byte) div 64 = 2" "unat (v AND 20479 OR 16384 :: 16 word) div 4096 = 4"
    by (auto simp: drop_bit_eq_div unat_div dest!: arg_cong[of _ _ unat])
qed

lemma set_version_bits:
  assumes "length d = 16"
  shows "length (UUID_set_version d) = 16" "time_hi_and_version (UUID_set_version d) div 4096 = 4"
    "clock_seq_hi_and_reserved (UUID_set_version d) div 64 = 2"
proof -
  obtain b0 b1 b2 b3 b4 b5 b6 b7 b8 b9 b10 b11 b12 b13 b14 b15 where
    d: "d = [b0, b1, b2, b3, b4, b5, b6, b7, b8, b9, b10, b11, b12, b13, b14, b15]"
    using assms(1) by (auto simp: length_Suc_conv eval_nat_numeral)
  let ?w = "b8 AND 191 OR 128" and ?v = "word_of_nat (le_value [b6, b7]) AND 20479 OR 16384 :: 16 word"
  have f: "clock_seq_hi_and_reserved d = unat b8" "time_hi_and_version d = le_value [b6, b7]" by (simp_all add: d get_field_def)
  have n: "UUID_set_version d = [b0, b1, b2, b3, b4, b5] @ le_bytes 2 (unat ?v) @ le_bytes 1 (unat ?w) @ [b9, b10, b11, b12, b13, b14, b15]"
    by (simp add: UUID_set_version_def set_field_def f get_field_def d del: le_bytes.simps)
  show "length (UUID_set_version d) = 16" by (simp add: n del: le_bytes.simps)
  have "unat ?w < 256" "unat ?v < 65536" by (simp_all add: unsigned_less[where ?'a = nat, THEN less_le_trans])
  then have "clock_seq_hi_and_reserved (UUID_set_version d) = unat ?w" "time_hi_and_version (UUID_set_version d) = unat ?v"
    by (simp_all add: n get_field_def le_value_le_bytes del: le_bytes.simps)
  then show "time_hi_and_version (UUID_set_version d) div 4096 = 4" "clock_seq_hi_and_reserved (UUID_set_version d) div 64 = 2"
    by (simp_all add: version_bits)
qed

text \<open>every identifier the server makes, whatever random numbers it gets and with either generator, is a version 4
  identifier of RFC 4122: the version digit is 4 and the variant bits are 10.\<close>

theorem generated_uuids_are_version_4:
  "d = UUID_Generate_intrinsics r1 r2 \<or> d = UUID_Generate_random r1 r2 r3 r4 \<Longrightarrow>
   length d = 16 \<and> time_hi_and_version d div 2 ^ 12 = 4 \<and> clock_seq_hi_and_reserved d div 2 ^ 6 = 2"
  using set_version_bits by (auto simp: UUID_Generate_intrinsics_def UUID_Generate_random_def UUID_of_halves_def)

theorem generated_uuids_are_version_4_witness:
  "\<exists>d. d = UUID_Generate_random 1804289383 846930886 1681692777 1714636915 \<and>
     length d = 16 \<and> time_hi_and_version d div 2 ^ 12 = 4 \<and> clock_seq_hi_and_reserved d div 2 ^ 6 = 2"
  using generated_uuids_are_version_4[OF disjI2[OF refl], of 1804289383 846930886 1681692777 1714636915] by blast

end
