(* ===== verification/MpInt.thy ===== *)
theory MpInt
  imports Mud_Prelude "HOL-Library.Signed_Division"
begin

text \<open>
  mpint.cpp: the big integers of the scripts. The value of a GMP number is an integer and the \<open>mpz_\<close> functions are what
  the GMP manual says of them: \<open>mpz_tdiv_q\<close> and \<open>mpz_tdiv_r\<close> round towards zero, \<open>mpz_cmp\<close> has the sign of the
  difference, \<open>mpz_export\<close> and \<open>mpz_import\<close> (most significant byte first) write and read the magnitude. An operation
  that checks its divisor also says whether it raised the exception of the script engine. Locks and the overloads on
  doubles and on MPFloat are left out.
\<close>

record mpint =
  mp_value :: int
  mp_refcount :: int

text \<open>What the constructors make: a number with one reference.\<close>

definition MPInt_new :: "int \<Rightarrow> mpint" where
  "MPInt_new initval = \<lparr>mp_value = initval, mp_refcount = 1\<rparr>"

definition MPInt_AddRef :: "mpint \<Rightarrow> mpint" where
  "MPInt_AddRef m = m\<lparr>mp_refcount := mp_refcount m + 1\<rparr>"

text \<open>\<open>mpz_cmp\<close>: any number with the sign of the difference; the difference itself stands for it.\<close>

definition mpz_cmp :: "int \<Rightarrow> int \<Rightarrow> int" where
  "mpz_cmp a b = sgn (a - b)"

section \<open>Assignment\<close>

definition MPInt_assign :: "mpint \<Rightarrow> mpint \<Rightarrow> mpint" where
  "MPInt_assign this other = MPInt_AddRef (this\<lparr>mp_value := mp_value other\<rparr>)"

definition MPInt_assign_uint :: "mpint \<Rightarrow> 32 word \<Rightarrow> mpint" where
  "MPInt_assign_uint this num = MPInt_AddRef (this\<lparr>mp_value := uint num\<rparr>)"

definition MPInt_assign_int :: "mpint \<Rightarrow> 32 word \<Rightarrow> mpint" where
  "MPInt_assign_int this num = MPInt_AddRef (this\<lparr>mp_value := sint num\<rparr>)"

section \<open>Arithmetic assignment\<close>

definition MPInt_add_assign :: "mpint \<Rightarrow> mpint \<Rightarrow> mpint" where
  "MPInt_add_assign this other = MPInt_AddRef (this\<lparr>mp_value := mp_value this + mp_value other\<rparr>)"

definition MPInt_add_assign_uint :: "mpint \<Rightarrow> 32 word \<Rightarrow> mpint" where
  "MPInt_add_assign_uint this num = MPInt_AddRef (this\<lparr>mp_value := mp_value this + uint num\<rparr>)"

definition MPInt_sub_assign :: "mpint \<Rightarrow> mpint \<Rightarrow> mpint" where
  "MPInt_sub_assign this other = MPInt_AddRef (this\<lparr>mp_value := mp_value this - mp_value other\<rparr>)"

definition MPInt_sub_assign_uint :: "mpint \<Rightarrow> 32 word \<Rightarrow> mpint" where
  "MPInt_sub_assign_uint this num = MPInt_AddRef (this\<lparr>mp_value := mp_value this - uint num\<rparr>)"

definition MPInt_mul_assign :: "mpint \<Rightarrow> mpint \<Rightarrow> mpint" where
  "MPInt_mul_assign this other = MPInt_AddRef (this\<lparr>mp_value := mp_value this * mp_value other\<rparr>)"

definition MPInt_mul_assign_uint :: "mpint \<Rightarrow> 32 word \<Rightarrow> mpint" where
  "MPInt_mul_assign_uint this num = MPInt_AddRef (this\<lparr>mp_value := mp_value this * uint num\<rparr>)"

definition MPInt_mul_assign_int :: "mpint \<Rightarrow> 32 word \<Rightarrow> mpint" where
  "MPInt_mul_assign_int this num = MPInt_AddRef (this\<lparr>mp_value := mp_value this * sint num\<rparr>)"

definition MPInt_mod_assign :: "mpint \<Rightarrow> mpint \<Rightarrow> bool \<times> mpint" where
  "MPInt_mod_assign this other = 
     (if mp_value other = 0 then (True, MPInt_AddRef this)
      else (False, MPInt_AddRef (this\<lparr>mp_value := mp_value this smod mp_value other\<rparr>)))"

definition MPInt_mod_assign_uint :: "mpint \<Rightarrow> 32 word \<Rightarrow> bool \<times> mpint" where
  "MPInt_mod_assign_uint this num = 
     (if num = 0 then (True, MPInt_AddRef this)
      else (False, this\<lparr>mp_value := mp_value this smod uint num\<rparr>))"

definition MPInt_div_assign :: "mpint \<Rightarrow> mpint \<Rightarrow> bool \<times> mpint" where
  "MPInt_div_assign this other = 
     (if mp_value other = 0 then (True, MPInt_AddRef this)
      else (False, this\<lparr>mp_value := mp_value this sdiv mp_value other\<rparr>))"

definition MPInt_div_assign_uint :: "mpint \<Rightarrow> 32 word \<Rightarrow> bool \<times> mpint" where
  "MPInt_div_assign_uint this num = 
     (if num = 0 then (True, MPInt_AddRef this)
      else (False, this\<lparr>mp_value := mp_value this sdiv uint num\<rparr>))"

definition MPInt_powassign :: "mpint \<Rightarrow> 32 word \<Rightarrow> mpint" where
  "MPInt_powassign this exponent = this\<lparr>mp_value := mp_value this ^ unat exponent\<rparr>"

section \<open>Comparison\<close>

text \<open>The overload on two big integers keeps the result of \<open>mpz_cmp\<close> in a \<open>bool\<close>.\<close>

definition MPInt_equals :: "mpint \<Rightarrow> mpint \<Rightarrow> bool" where
  "MPInt_equals this other = (mpz_cmp (mp_value this) (mp_value other) = 0)"

definition MPInt_equals_int :: "mpint \<Rightarrow> 32 word \<Rightarrow> bool" where
  "MPInt_equals_int this num = (mpz_cmp (mp_value this) (sint num) = 0)"

definition MPInt_equals_uint :: "mpint \<Rightarrow> 32 word \<Rightarrow> bool" where
  "MPInt_equals_uint this num = (mpz_cmp (mp_value this) (uint num) = 0)"

definition MPInt_opCmp :: "mpint \<Rightarrow> mpint \<Rightarrow> int" where
  "MPInt_opCmp this other = of_bool (mpz_cmp (mp_value this) (mp_value other) \<noteq> 0)"

definition MPInt_opCmp_int :: "mpint \<Rightarrow> 32 word \<Rightarrow> int" where
  "MPInt_opCmp_int this num = mpz_cmp (mp_value this) (sint num)"

definition MPInt_opCmp_uint :: "mpint \<Rightarrow> 32 word \<Rightarrow> int" where
  "MPInt_opCmp_uint this num = mpz_cmp (mp_value this) (uint num)"

section \<open>Arithmetic\<close>

definition MPInt_plus :: "mpint \<Rightarrow> mpint \<Rightarrow> mpint" where
  "MPInt_plus this other = MPInt_new (mp_value this + mp_value other)"

definition MPInt_plus_uint :: "mpint \<Rightarrow> 32 word \<Rightarrow> mpint" where
  "MPInt_plus_uint this num = MPInt_new (mp_value this + uint num)"

definition MPInt_minus :: "mpint \<Rightarrow> mpint \<Rightarrow> mpint" where
  "MPInt_minus this other = MPInt_new (mp_value this - mp_value other)"

definition MPInt_minus_uint :: "mpint \<Rightarrow> 32 word \<Rightarrow> mpint" where
  "MPInt_minus_uint this num = MPInt_new (mp_value this - uint num)"

definition MPInt_times :: "mpint \<Rightarrow> mpint \<Rightarrow> mpint" where
  "MPInt_times this other = MPInt_new (mp_value this * mp_value other)"

definition MPInt_times_uint :: "mpint \<Rightarrow> 32 word \<Rightarrow> mpint" where
  "MPInt_times_uint this num = MPInt_new (mp_value this * uint num)"

definition MPInt_uint_minus :: "32 word \<Rightarrow> mpint \<Rightarrow> mpint" where
  "MPInt_uint_minus a mpnum = MPInt_new (uint a - mp_value mpnum)"

definition MPInt_negate :: "mpint \<Rightarrow> mpint" where
  "MPInt_negate this = MPInt_new (- mp_value this)"

definition MPInt_times_int :: "mpint \<Rightarrow> 32 word \<Rightarrow> mpint" where
  "MPInt_times_int this num = MPInt_new (mp_value this * sint num)"

definition MPInt_divide :: "mpint \<Rightarrow> mpint \<Rightarrow> bool \<times> mpint" where
  "MPInt_divide this other = 
     (if mp_value other = 0 then (True, MPInt_new 0) else (False, MPInt_new (mp_value this sdiv mp_value other)))"

definition MPInt_divide_uint :: "mpint \<Rightarrow> 32 word \<Rightarrow> bool \<times> mpint" where
  "MPInt_divide_uint this num = 
     (if num = 0 then (True, MPInt_new 0) else (False, MPInt_new (mp_value this sdiv uint num)))"

definition MPInt_modulo :: "mpint \<Rightarrow> mpint \<Rightarrow> bool \<times> mpint" where
  "MPInt_modulo this other = 
     (if mp_value other = 0 then (True, MPInt_new 0) else (False, MPInt_new (mp_value this smod mp_value other)))"

definition MPInt_modulo_uint :: "mpint \<Rightarrow> 32 word \<Rightarrow> bool \<times> mpint" where
  "MPInt_modulo_uint this num = 
     (if num = 0 then (True, MPInt_new 0) else (False, MPInt_new (mp_value this smod uint num)))"

definition MPInt_pow :: "mpint \<Rightarrow> 32 word \<Rightarrow> mpint" where
  "MPInt_pow this exponent = MPInt_new (mp_value this ^ unat exponent)"

definition MPInt_Abs :: "mpint \<Rightarrow> mpint" where
  "MPInt_Abs this = MPInt_new \<bar>mp_value this\<bar>"

text \<open>The functions registered for the operators of the scripts between two big integers.\<close>

datatype script_op = OpAdd | OpSub | OpMul | OpDiv | OpMod

fun script_method :: "script_op \<Rightarrow> mpint \<Rightarrow> mpint \<Rightarrow> bool \<times> mpint" where
  "script_method OpAdd a b = (False, MPInt_plus a b)"
| "script_method OpSub a b = (False, MPInt_plus a b)"
| "script_method OpMul a b = (False, MPInt_times a b)"
| "script_method OpDiv a b = MPInt_divide a b"
| "script_method OpMod a b = MPInt_modulo a b"

section \<open>Bytes\<close>

text \<open>The bytes of a magnitude, most significant first and none for zero, and their value.\<close>

fun be_bytes :: "nat \<Rightarrow> byte list" where
  "be_bytes n = (if n = 0 then [] else be_bytes (n div 256) @ [word_of_nat n])"

declare be_bytes.simps [simp del]

definition be_value :: "byte list \<Rightarrow> nat" where
  "be_value bs = foldl (\<lambda>n b. 256 * n + unat b) 0 bs"

definition resize :: "nat \<Rightarrow> byte list \<Rightarrow> byte list" where
  "resize n v = take n v @ replicate (n - length v) 0"

definition MPInt_SerializeOut :: "mpint \<Rightarrow> byte list \<Rightarrow> byte list option" where
  "MPInt_SerializeOut this outbuffer =
     (let data = be_bytes (nat \<bar>mp_value this\<bar>); sign = (if mp_value this \<ge> 0 then 0 else 1) in
      if data \<noteq> [] then do {
        let outbuffer = resize (length data + 1) outbuffer;
        outbuffer \<leftarrow> copy_cells outbuffer 0 [sign];
        copy_cells outbuffer 1 data
      } else Some (resize 1 outbuffer))"

definition MPInt_SerializeIn :: "byte list option \<Rightarrow> nat \<Rightarrow> mpint \<Rightarrow> mpint option" where
  "MPInt_SerializeIn inbuffer len this = do {
     sign \<leftarrow> rd (cells inbuffer) 0;
     bs \<leftarrow> read_cells (cells inbuffer) 1 (sz_sub len 1);
     let v = int (be_value bs);
     Some (this\<lparr>mp_value := (if sign \<noteq> 0 then - v else v)\<rparr>)
   }"

section \<open>What the scripts get\<close>

lemma be_value_bytes: "be_value (be_bytes n) = n"
proof (induction n rule: be_bytes.induct)
  case (1 n)
  have "unat (word_of_nat n :: byte) = n mod 256" by (simp add: unat_of_nat)
  then show ?case using 1 by (subst be_bytes.simps) (auto simp: be_value_def)
qed

lemma be_bytes_empty: "be_bytes n = [] \<longleftrightarrow> n = 0"
  by (subst be_bytes.simps) simp

text \<open>C37: a big integer survives being written to bytes and read back, whatever its size and sign, zero included.\<close>

theorem mpint_bytes_round_trip:
  assumes "length (be_bytes (nat \<bar>mp_value m\<bar>)) < 2 ^ 63"
  shows "\<exists>bs. MPInt_SerializeOut m [] = Some bs \<and> MPInt_SerializeIn (Some bs) (length bs) n = Some (n\<lparr>mp_value := mp_value m\<rparr>)"
proof (cases "mp_value m = 0")
  case True
  then show ?thesis
    by (simp add: MPInt_SerializeOut_def MPInt_SerializeIn_def be_bytes_empty resize_def rd_def cells_def size_simps
        mem_simps be_value_def)
next
  case False
  let ?d = "be_bytes (nat \<bar>mp_value m\<bar>)" and ?s = "if mp_value m \<ge> 0 then 0 else 1 :: byte"
  have "?d \<noteq> []" using False by (simp add: be_bytes_empty)
  then have "MPInt_SerializeOut m [] = Some (?s # ?d)"
    by (simp add: MPInt_SerializeOut_def resize_def mem_simps)
  moreover have "sz_sub (length (?s # ?d)) 1 = length ?d" using assms by (simp add: size_simps)
  then have "MPInt_SerializeIn (Some (?s # ?d)) (length (?s # ?d)) n = Some (n\<lparr>mp_value := mp_value m\<rparr>)"
    by (simp add: MPInt_SerializeIn_def rd_def cells_def mem_simps be_value_bytes)
  ultimately show ?thesis by blast
qed

theorem mpint_bytes_round_trip_witness:
  "\<exists>bs. MPInt_SerializeOut (MPInt_new (- 1000000)) [] = Some bs \<and>
     MPInt_SerializeIn (Some bs) (length bs) (MPInt_new 7) = Some ((MPInt_new 7)\<lparr>mp_value := mp_value (MPInt_new (- 1000000))\<rparr>)"
  by (rule mpint_bytes_round_trip) (simp add: MPInt_new_def be_bytes.simps)

text \<open>C38: the scripts' division and remainder of big integers: for a divisor that is not zero they are the quotient
  and the remainder with the sign of the dividend; for zero both raise an exception and give zero.\<close>

theorem script_division:
  "if mp_value b = 0 then script_method OpDiv a b = (True, MPInt_new 0) \<and> script_method OpMod a b = (True, MPInt_new 0)
   else \<exists>q r. script_method OpDiv a b = (False, MPInt_new q) \<and> script_method OpMod a b = (False, MPInt_new r) \<and>
     mp_value a = q * mp_value b + r \<and> \<bar>r\<bar> < \<bar>mp_value b\<bar> \<and> (r = 0 \<or> sgn r = sgn (mp_value a))"
proof (cases "mp_value b = 0")
  case False
  let ?q = "mp_value a sdiv mp_value b" and ?r = "mp_value a smod mp_value b"
  have "\<bar>?r\<bar> < \<bar>mp_value b\<bar>" "?r = 0 \<or> sgn ?r = sgn (mp_value a)"
  proof -
    define m where "m = \<bar>mp_value a\<bar> mod \<bar>mp_value b\<bar>"
    have m: "0 \<le> m" "m < \<bar>mp_value b\<bar>" using False by (simp_all add: m_def)
    have r: "?r = sgn (mp_value a) * m" by (simp add: signed_modulo_int_def m_def)
    show "\<bar>?r\<bar> < \<bar>mp_value b\<bar>" "?r = 0 \<or> sgn ?r = sgn (mp_value a)"
      unfolding r using m by (auto simp: abs_mult sgn_mult abs_sgn_eq sgn_1_pos)
  qed
  moreover have "mp_value a = ?q * mp_value b + ?r" by (simp add: sdiv_mult_smod_eq)
  ultimately show ?thesis using False by (auto simp: MPInt_divide_def MPInt_modulo_def)
qed (simp add: MPInt_divide_def MPInt_modulo_def)


end
