(* ===== verification/Variant.thy ===== *)
theory Variant
  imports C_Strings
begin

text \<open>
  sqlitevariant.h and sqlitevariant.cpp: the values of the columns of a row. A variant has a type and a union that is
  either a number or the pointer to a block the variant owns. The union is modelled as one or the other: writing a
  number over the pointer, or freeing the block, leaves a number, and using a number as a pointer is a fault unless
  it is zero. Conversions between the two floating-point types are arguments.
\<close>

unbundle bit_operations_syntax

section \<open>Variants\<close>

datatype stored_type = VARNONE | VARINT | VARREAL | VARBLOB | VARTEXT

datatype varunion = Bits "64 word" | Block "byte list"

record sqlite_variant =
  v_storedtype :: stored_type
  v_datalen :: nat
  v_reservedlen :: nat
  v_data :: varunion

text \<open>The allocator, the address of a block, and the conversions of \<open>float\<close> and \<open>double\<close> on their bits.\<close>

record variant_mem =
  vm_bytes :: "byte mem_mgr"
  vm_address :: "byte list \<Rightarrow> 64 word"
  vm_to_double :: "32 word \<Rightarrow> 64 word"
  vm_to_float :: "64 word \<Rightarrow> 32 word"

definition union_bits :: "variant_mem \<Rightarrow> varunion \<Rightarrow> 64 word" where
  "union_bits M u = (case u of Bits w \<Rightarrow> w | Block b \<Rightarrow> vm_address M b)"

text \<open>Writing a 32-bit member keeps the upper half of the union.\<close>

definition low_half :: "variant_mem \<Rightarrow> varunion \<Rightarrow> 32 word \<Rightarrow> varunion" where
  "low_half M u v = Bits (push_bit 32 (drop_bit 32 (union_bits M u)) OR ucast v)"

definition of_pointer :: "byte list option \<Rightarrow> varunion" where
  "of_pointer p = (case p of None \<Rightarrow> Bits 0 | Some b \<Rightarrow> Block b)"

text \<open>The block behind the pointer in the union, \<open>None\<close> for null; a number other than zero is no pointer.\<close>

definition as_blob :: "varunion \<Rightarrow> byte list option option" where
  "as_blob u = (case u of Block b \<Rightarrow> Some (Some b) | Bits w \<Rightarrow> (if w = 0 then Some None else None))"

abbreviation blob_is_null :: "varunion \<Rightarrow> bool" where
  "blob_is_null u \<equiv> (u = Bits 0)"

abbreviation holds_blob :: "sqlite_variant \<Rightarrow> bool" where
  "holds_blob v \<equiv> v_storedtype v = VARBLOB \<or> v_storedtype v = VARTEXT"

definition FreeBlobHeapMemIfAllocated :: "variant_mem \<Rightarrow> sqlite_variant \<Rightarrow> sqlite_variant option" where
  "FreeBlobHeapMemIfAllocated M v =
     (if holds_blob v \<and> \<not> blob_is_null (v_data v)
      then (case v_data v of Block b \<Rightarrow> Some (v\<lparr>v_data := Bits (vm_address M b)\<rparr>) | Bits w \<Rightarrow> None)
      else Some v)"

definition SQLiteVariant_ForceSetType :: "stored_type \<Rightarrow> sqlite_variant \<Rightarrow> sqlite_variant" where
  "SQLiteVariant_ForceSetType vartype v = v\<lparr>v_storedtype := vartype\<rparr>"

definition SQLiteVariant_HasType :: "sqlite_variant \<Rightarrow> bool" where
  "SQLiteVariant_HasType v \<longleftrightarrow> VARNONE \<noteq> v_storedtype v"

definition VariantTypeToString :: "stored_type \<Rightarrow> byte list" where
  "VariantTypeToString t = bytes_of (case t of VARNONE \<Rightarrow> ''NULL'' | VARINT \<Rightarrow> ''INT'' | VARREAL \<Rightarrow> ''REAL'' |
     VARBLOB \<Rightarrow> ''BLOB'' | VARTEXT \<Rightarrow> ''TEXT'')"

text \<open>\<open>memset\<close> of the block; of no bytes it does nothing whatever the pointer is.\<close>

definition zero_blob :: "varunion \<Rightarrow> nat \<Rightarrow> varunion option" where
  "zero_blob u n =
     (if n = 0 then Some u else do { p \<leftarrow> as_blob u; b \<leftarrow> fill_cells (cells p) 0 n 0; Some (Block b) })"

definition SQLiteVariant_ClearValue :: "sqlite_variant \<Rightarrow> sqlite_variant option" where
  "SQLiteVariant_ClearValue v =
     (let v = v\<lparr>v_datalen := 0\<rparr> in
      if holds_blob v then do { u \<leftarrow> zero_blob (v_data v) (v_reservedlen v); Some (v\<lparr>v_data := u\<rparr>) }
      else Some (v\<lparr>v_data := Bits 0\<rparr>))"

definition SQLiteVariant_new :: sqlite_variant where
  "SQLiteVariant_new = \<lparr>v_storedtype = VARNONE, v_datalen = 0, v_reservedlen = 0, v_data = Bits 0\<rparr>"

definition SQLiteVariant_copy :: "variant_mem \<Rightarrow> sqlite_variant \<Rightarrow> sqlite_variant option" where
  "SQLiteVariant_copy M other =
     (if holds_blob other then do {
        p \<leftarrow> as_blob (v_data other);
        bs \<leftarrow> read_cells (cells p) 0 (v_reservedlen other);
        b \<leftarrow> copy_cells (cells (malloc_cells (vm_bytes M) 1 (v_reservedlen other))) 0 bs;
        Some (other\<lparr>v_data := Block b\<rparr>)
      } else Some other)"

text \<open>The move constructor: the new variant, and what is left of the other.\<close>

definition SQLiteVariant_move :: "sqlite_variant \<Rightarrow> sqlite_variant \<times> sqlite_variant" where
  "SQLiteVariant_move other = (other, other\<lparr>v_data := Bits 0, v_storedtype := VARNONE\<rparr>)"

definition SQLiteVariant_assign :: "variant_mem \<Rightarrow> sqlite_variant \<Rightarrow> sqlite_variant \<Rightarrow> sqlite_variant option" where
  "SQLiteVariant_assign M v other =
     (if holds_blob other then do {
        u \<leftarrow> (if blob_is_null (v_data v) then Some (of_pointer (malloc_cells (vm_bytes M) 1 (v_reservedlen other)))
              else if v_reservedlen v < v_reservedlen other then do {
                p \<leftarrow> as_blob (v_data v);
                Some (of_pointer (realloc_cells (vm_bytes M) 1 p (v_reservedlen other)))
              } else Some (v_data v));
        q \<leftarrow> as_blob (v_data other);
        bs \<leftarrow> read_cells (cells q) 0 (v_reservedlen other);
        p \<leftarrow> as_blob u;
        b \<leftarrow> copy_cells (cells p) 0 bs;
        Some (other\<lparr>v_data := Block b\<rparr>)
      } else Some other)"

definition SQLiteVariant_destroy :: "sqlite_variant \<Rightarrow> unit option" where
  "SQLiteVariant_destroy v =
     (if holds_blob v \<and> \<not> blob_is_null (v_data v) then map_option (\<lambda>_. ()) (as_blob (v_data v)) else Some ())"

section \<open>Setting a value\<close>

text \<open>Signed and unsigned integers are the same bits; the overloads differ in nothing else.\<close>

definition SQLiteVariant_SetInt :: "variant_mem \<Rightarrow> 32 word \<Rightarrow> sqlite_variant \<Rightarrow> sqlite_variant option" where
  "SQLiteVariant_SetInt M x v = do {
     v \<leftarrow> FreeBlobHeapMemIfAllocated M v;
     Some (v\<lparr>v_data := low_half M (v_data v) x, v_datalen := 4, v_storedtype := VARINT\<rparr>)
   }"

definition SQLiteVariant_SetInt64 :: "variant_mem \<Rightarrow> 64 word \<Rightarrow> sqlite_variant \<Rightarrow> sqlite_variant option" where
  "SQLiteVariant_SetInt64 M x v = do {
     v \<leftarrow> FreeBlobHeapMemIfAllocated M v;
     Some (v\<lparr>v_data := Bits x, v_datalen := 8, v_storedtype := VARINT\<rparr>)
   }"

definition SQLiteVariant_SetFloat :: "variant_mem \<Rightarrow> 32 word \<Rightarrow> sqlite_variant \<Rightarrow> sqlite_variant option" where
  "SQLiteVariant_SetFloat M x v = do {
     v \<leftarrow> FreeBlobHeapMemIfAllocated M v;
     Some (v\<lparr>v_data := Bits (vm_to_double M x), v_datalen := 4, v_storedtype := VARREAL\<rparr>)
   }"

definition SQLiteVariant_SetDouble :: "variant_mem \<Rightarrow> 64 word \<Rightarrow> sqlite_variant \<Rightarrow> sqlite_variant option" where
  "SQLiteVariant_SetDouble M x v = do {
     v \<leftarrow> FreeBlobHeapMemIfAllocated M v;
     Some (v\<lparr>v_data := Bits x, v_datalen := 8, v_storedtype := VARREAL\<rparr>)
   }"

text \<open>Growing the block of a text or blob, and making one when there is none.\<close>

definition grow_blob :: "variant_mem \<Rightarrow> nat \<Rightarrow> nat \<Rightarrow> sqlite_variant \<Rightarrow> sqlite_variant option" where
  "grow_blob M needed reserve v =
     (if holds_blob v \<and> \<not> blob_is_null (v_data v) \<and> needed > v_reservedlen v
      then do {
        p \<leftarrow> as_blob (v_data v);
        Some (v\<lparr>v_reservedlen := reserve, v_data := of_pointer (realloc_cells (vm_bytes M) 1 p reserve)\<rparr>)
      } else Some v)"

definition make_blob :: "variant_mem \<Rightarrow> sqlite_variant \<Rightarrow> sqlite_variant" where
  "make_blob M v =
     (if blob_is_null (v_data v)
      then v\<lparr>v_data := of_pointer (malloc_cells (vm_bytes M) 1 (v_datalen v)), v_reservedlen := v_datalen v\<rparr> else v)"

definition SQLiteVariant_SetText :: "variant_mem \<Rightarrow> byte list \<Rightarrow> sqlite_variant \<Rightarrow> sqlite_variant option" where
  "SQLiteVariant_SetText M str v = do {
     v \<leftarrow> grow_blob M (sz (length str + 1)) (sz (2 * (length str + 1))) v;
     let v = make_blob M (v\<lparr>v_datalen := sz (length str + 1)\<rparr>);
     u \<leftarrow> zero_blob (v_data v) (v_reservedlen v);
     p \<leftarrow> as_blob u;
     b \<leftarrow> c_strncpy (cells p) (str @ [0]) (v_datalen v);
     Some (v\<lparr>v_data := Block b, v_storedtype := VARTEXT\<rparr>)
   }"

definition SQLiteVariant_SetBlob :: "variant_mem \<Rightarrow> byte list option \<Rightarrow> nat \<Rightarrow> sqlite_variant \<Rightarrow> sqlite_variant option" where
  "SQLiteVariant_SetBlob M data len v = do {
     v \<leftarrow> grow_blob M len (max (sz (2 * len)) 4) v;
     let v = make_blob M (v\<lparr>v_datalen := max len 4\<rparr>);
     u \<leftarrow> zero_blob (v_data v) (v_reservedlen v);
     u \<leftarrow> (case data of
             None \<Rightarrow> Some u
           | Some d \<Rightarrow> do {
               bs \<leftarrow> read_cells d 0 (v_datalen v);
               p \<leftarrow> as_blob u;
               b \<leftarrow> copy_cells (cells p) 0 bs;
               Some (Block b) });
     Some (v\<lparr>v_data := u, v_storedtype := VARBLOB\<rparr>)
   }"

section \<open>Getting a value\<close>

text \<open>The inner \<open>None\<close> is the answer false, which leaves the caller's variable as it was.\<close>

definition SQLiteVariant_GetInt :: "variant_mem \<Rightarrow> sqlite_variant \<Rightarrow> 32 word option" where
  "SQLiteVariant_GetInt M v = (if VARINT = v_storedtype v then Some (ucast (union_bits M (v_data v))) else None)"

definition SQLiteVariant_GetInt64 :: "variant_mem \<Rightarrow> sqlite_variant \<Rightarrow> 64 word option" where
  "SQLiteVariant_GetInt64 M v = (if VARINT = v_storedtype v then Some (union_bits M (v_data v)) else None)"

definition SQLiteVariant_GetFloat :: "variant_mem \<Rightarrow> sqlite_variant \<Rightarrow> 32 word option" where
  "SQLiteVariant_GetFloat M v =
     (if VARREAL = v_storedtype v then Some (vm_to_float M (union_bits M (v_data v))) else None)"

definition SQLiteVariant_GetDouble :: "variant_mem \<Rightarrow> sqlite_variant \<Rightarrow> 64 word option" where
  "SQLiteVariant_GetDouble M v = (if VARREAL = v_storedtype v then Some (union_bits M (v_data v)) else None)"

definition SQLiteVariant_GetText :: "sqlite_variant \<Rightarrow> byte list option option" where
  "SQLiteVariant_GetText v =
     (if VARTEXT = v_storedtype v then do { p \<leftarrow> as_blob (v_data v); s \<leftarrow> std_string p; Some (Some s) } else Some None)"

definition SQLiteVariant_GetBlob :: "sqlite_variant \<Rightarrow> byte list option option" where
  "SQLiteVariant_GetBlob v =
     (if VARBLOB = v_storedtype v
      then do { p \<leftarrow> as_blob (v_data v); bs \<leftarrow> read_cells (cells p) 0 (v_datalen v); Some (Some bs) }
      else Some None)"

section \<open>Binding a value to a statement\<close>

text \<open>The values of SQLite. \<open>bound_value\<close> is the argument of the bind call the code makes (a pointer is what it
  points to, null is \<open>NULL\<close>, a negative length of a text means up to its terminator), inner \<open>None\<close> when it returns an
  error without a call.\<close>

datatype sql_value = SqlNull | SqlInteger "64 word" | SqlReal "64 word" | SqlText "byte list" | SqlBlob "byte list"

definition bound_value :: "variant_mem \<Rightarrow> sqlite_variant option \<Rightarrow> sql_value option option" where
  "bound_value M value =
     (case value of
        None \<Rightarrow> Some None
      | Some v \<Rightarrow>
          (case v_storedtype v of
             VARINT \<Rightarrow>
               (if v_datalen v = 1 \<or> v_datalen v = 2 \<or> v_datalen v = 4
                then Some (Some (SqlInteger (scast (ucast (union_bits M (v_data v)) :: 32 word))))
                else if v_datalen v = 8 then Some (Some (SqlInteger (union_bits M (v_data v))))
                else Some None)
           | VARREAL \<Rightarrow>
               (if v_datalen v = 4
                then Some (Some (SqlReal (vm_to_double M (vm_to_float M (union_bits M (v_data v))))))
                else Some (Some (SqlReal (union_bits M (v_data v)))))
           | VARTEXT \<Rightarrow> do {
               p \<leftarrow> as_blob (v_data v);
               if p = None then Some (Some SqlNull)
               else do {
                 let n = to_int32 (sz_sub (v_datalen v) 1);
                 bs \<leftarrow> (if n < 0 then std_string p else read_cells (cells p) 0 (nat n));
                 Some (Some (SqlText bs)) } }
           | VARBLOB \<Rightarrow> do {
               p \<leftarrow> as_blob (v_data v);
               if p = None then Some (Some SqlNull)
               else do { bs \<leftarrow> read_cells (cells p) 0 (nat (to_int32 (v_datalen v))); Some (Some (SqlBlob bs)) } }
           | VARNONE \<Rightarrow> Some None))"

section \<open>The type of a variant and its union\<close>

text \<open>What the sets keep: a text or blob owns a block of the reserved length with room for its data, the terminator
  of a text included; any other variant has a number in its union.\<close>

definition var_ok :: "sqlite_variant \<Rightarrow> bool" where
  "var_ok v \<longleftrightarrow>
     (if holds_blob v
      then (\<exists>b. v_data v = Block b \<and> length b = v_reservedlen v \<and> v_datalen v \<le> length b \<and> 0 < v_reservedlen v \<and>
             (v_storedtype v = VARTEXT \<longrightarrow> terminated b) \<and> length b < 2 ^ 62)
      else (\<exists>w. v_data v = Bits w))"

text \<open>The operations on a column's value, and when one goes well: a text or blob never follows a number other
  than zero, and a blob has at least four bytes and fits, when the block is not grown.\<close>

datatype var_op = PutInt "32 word" | PutInt64 "64 word" | PutFloat "32 word" | PutDouble "64 word"
  | PutText "byte list" | PutBlob "byte list" | ClearIt

fun var_step :: "variant_mem \<Rightarrow> var_op \<Rightarrow> sqlite_variant \<Rightarrow> sqlite_variant option" where
  "var_step M (PutInt x) v = SQLiteVariant_SetInt M x v"
| "var_step M (PutInt64 x) v = SQLiteVariant_SetInt64 M x v"
| "var_step M (PutFloat x) v = SQLiteVariant_SetFloat M x v"
| "var_step M (PutDouble x) v = SQLiteVariant_SetDouble M x v"
| "var_step M (PutText s) v = SQLiteVariant_SetText M s v"
| "var_step M (PutBlob d) v = SQLiteVariant_SetBlob M (Some d) (length d) v"
| "var_step M ClearIt v = SQLiteVariant_ClearValue v"

fun goes_well :: "var_op \<Rightarrow> sqlite_variant \<Rightarrow> bool" where
  "goes_well (PutText s) v \<longleftrightarrow> (\<forall>w. v_data v = Bits w \<longrightarrow> w = 0)"
| "goes_well (PutBlob d) v \<longleftrightarrow> (\<forall>w. v_data v = Bits w \<longrightarrow> w = 0) \<and> 4 \<le> length d"
| "goes_well _ v \<longleftrightarrow> True"

definition op_small :: "var_op \<Rightarrow> bool" where
  "op_small p = (case p of PutText s \<Rightarrow> length s < 2 ^ 60 | PutBlob d \<Rightarrow> length d < 2 ^ 60 | _ \<Rightarrow> True)"

lemma var_ok_new: "var_ok SQLiteVariant_new"
  by (simp add: var_ok_def SQLiteVariant_new_def)

lemma zero_blob_block: "length b = n \<Longrightarrow> 0 < n \<Longrightarrow> zero_blob (Block b) n = Some (Block (replicate n 0))"
  by (simp add: zero_blob_def as_blob_def mem_simps)

lemma zero_blob_number: "w \<noteq> 0 \<Longrightarrow> zero_blob (Bits w) n = None \<or> zero_blob (Bits w) n = Some (Bits w)"
  by (simp add: zero_blob_def as_blob_def)

text \<open>The block after growing or making it, for a variant that has a block or a null pointer.\<close>

lemma grown_blob:
  assumes M: "grants_all (vm_bytes M)" and v: "var_ok v" "\<forall>w. v_data v = Bits w \<longrightarrow> w = 0"
    and n: "0 < n" "n \<le> dl" "dl \<le> r" "r < 2 ^ 62" "holds_blob v \<Longrightarrow> v_reservedlen v < n \<or> dl \<le> v_reservedlen v"
  shows "\<exists>v' b. grow_blob M n r v = Some v' \<and> v_data (make_blob M (v'\<lparr>v_datalen := dl\<rparr>)) = Block b \<and>
    v_datalen (make_blob M (v'\<lparr>v_datalen := dl\<rparr>)) = dl \<and>
    length b = v_reservedlen (make_blob M (v'\<lparr>v_datalen := dl\<rparr>)) \<and> dl \<le> length b \<and> length b < 2 ^ 62"
proof (cases "holds_blob v")
  case True
  then obtain b where b: "v_data v = Block b" "length b = v_reservedlen v" "length b < 2 ^ 62"
    using v(1) by (auto simp: var_ok_def)
  show ?thesis
  proof (cases "v_reservedlen v < n")
    case True
    then have "grow_blob M n r v =
        Some (v\<lparr>v_reservedlen := r, v_data := Block (take r b @ map (fresh (vm_bytes M)) [length b..<r])\<rparr>)"
      using b \<open>holds_blob v\<close> M by (simp add: grow_blob_def as_blob_def of_pointer_def mem_simps)
    then show ?thesis using n b True by (simp add: make_blob_def)
  next
    case False
    then show ?thesis using b n(5) \<open>holds_blob v\<close> by (simp add: grow_blob_def make_blob_def)
  qed
next
  case False
  then have "v_data v = Bits 0" using v by (auto simp: var_ok_def)
  then show ?thesis using False M n by (simp add: grow_blob_def make_blob_def mem_simps of_pointer_def)
qed

lemma set_text_ok:
  assumes "grants_all (vm_bytes M)" "var_ok v" "\<forall>w. v_data v = Bits w \<longrightarrow> w = 0" "length str < 2 ^ 60"
  shows "\<exists>v' b. SQLiteVariant_SetText M str v = Some v' \<and> var_ok v' \<and> v_storedtype v' = VARTEXT \<and> v_data v' = Block b \<and>
    v_datalen v' = length str + 1 \<and> take (length str + 1) b = cstr str @ replicate (length str + 1 - length (cstr str)) 0"
proof -
  let ?n = "length str + 1"
  have n: "sz ?n = ?n" "sz (2 * ?n) = 2 * ?n" using assms(4) by (simp_all add: size_simps)
  obtain v1 b where v1: "grow_blob M ?n (2 * ?n) v = Some v1" "v_data (make_blob M (v1\<lparr>v_datalen := ?n\<rparr>)) = Block b"
      "v_datalen (make_blob M (v1\<lparr>v_datalen := ?n\<rparr>)) = ?n"
      "length b = v_reservedlen (make_blob M (v1\<lparr>v_datalen := ?n\<rparr>))" "?n \<le> length b" "length b < 2 ^ 62"
    using grown_blob[OF assms(1-3), of ?n ?n "2 * ?n"] assms(4) by fastforce
  let ?v = "make_blob M (v1\<lparr>v_datalen := ?n\<rparr>)" and ?cs = "cstr str @ replicate (?n - length (cstr str)) (0 :: byte)"
  have pos: "0 < v_reservedlen ?v" using v1(4,5) by linarith
  have cs: "cstr (str @ [0]) = cstr str" by (simp add: cstr_append not_terminated)
  have len: "length (cstr str) \<le> length str" by (rule length_cstr_le)
  have "c_strncpy (replicate (v_reservedlen ?v) 0) (str @ [0]) ?n =
      Some (cstr str @ replicate (?n - length (cstr str)) 0 @ replicate (v_reservedlen ?v - ?n) 0)"
    using v1(4,5) cs by (subst c_strncpy_ok) simp_all
  then have "SQLiteVariant_SetText M str v =
      Some (?v\<lparr>v_data := Block (?cs @ replicate (v_reservedlen ?v - ?n) 0), v_storedtype := VARTEXT\<rparr>)"
    using v1(1-3) zero_blob_block[OF v1(4) pos]
    by (simp only: SQLiteVariant_SetText_def n as_blob_def Let_def bind.bind_lunit cells_Some varunion.case append_assoc)
  moreover have "length ?cs = ?n" using len by simp
  ultimately show ?thesis using v1(3-6) pos len
    by (auto simp: var_ok_def terminated_def)
qed

lemma set_blob_ok:
  assumes "grants_all (vm_bytes M)" "var_ok v" "\<forall>w. v_data v = Bits w \<longrightarrow> w = 0" "length d < 2 ^ 60" "4 \<le> length d"
  shows "\<exists>v' b. SQLiteVariant_SetBlob M (Some d) (length d) v = Some v' \<and> var_ok v' \<and> v_storedtype v' = VARBLOB \<and>
    v_data v' = Block b \<and> v_datalen v' = length d \<and> take (length d) b = d"
proof -
  let ?n = "length d"
  have n: "max (sz (2 * ?n)) 4 = 2 * ?n" "max ?n 4 = ?n" using assms(4,5) by (simp_all add: size_simps)
  obtain v1 b where v1: "grow_blob M ?n (2 * ?n) v = Some v1" "v_data (make_blob M (v1\<lparr>v_datalen := ?n\<rparr>)) = Block b"
      "v_datalen (make_blob M (v1\<lparr>v_datalen := ?n\<rparr>)) = ?n"
      "length b = v_reservedlen (make_blob M (v1\<lparr>v_datalen := ?n\<rparr>))" "?n \<le> length b" "length b < 2 ^ 62"
    using grown_blob[OF assms(1-3), of ?n ?n "2 * ?n"] assms(4,5) by fastforce
  let ?v = "make_blob M (v1\<lparr>v_datalen := ?n\<rparr>)" and ?b = "d @ replicate (length b - ?n) 0"
  have pos: "0 < v_reservedlen ?v" using v1(4,5) assms(5) by linarith
  have "read_cells d 0 ?n = Some d" "copy_cells (replicate (v_reservedlen ?v) 0) 0 d = Some ?b"
    using v1(4,5) by (simp_all add: mem_simps)
  then have "SQLiteVariant_SetBlob M (Some d) ?n v = Some (?v\<lparr>v_data := Block ?b, v_storedtype := VARBLOB\<rparr>)"
    using v1(1-3) zero_blob_block[OF v1(4) pos]
    by (simp only: SQLiteVariant_SetBlob_def n as_blob_def Let_def bind.bind_lunit cells_Some varunion.case option.case)
  then show ?thesis using v1(3-6) pos by (auto simp: var_ok_def)
qed

lemma free_blob_ok: "var_ok v \<Longrightarrow> \<exists>w. FreeBlobHeapMemIfAllocated M v = Some (v\<lparr>v_data := Bits w\<rparr>)"
proof (cases "holds_blob v")
  case False
  moreover assume "var_ok v"
  ultimately obtain w where "v_data v = Bits w" by (auto simp: var_ok_def)
  then have "v = v\<lparr>v_data := Bits w\<rparr>" by (cases v) simp
  then show ?thesis using False by (auto simp: FreeBlobHeapMemIfAllocated_def)
qed (auto simp: var_ok_def FreeBlobHeapMemIfAllocated_def)

lemma low_half_value: "low_half M u x = Bits w \<Longrightarrow> ucast w = x"
  by (auto simp: low_half_def intro!: bit_word_eqI simp: bit_simps)

lemma set_number_ok:
  assumes "var_ok v"
  shows "\<exists>v'. SQLiteVariant_SetInt M x v = Some v' \<and> var_ok v' \<and> SQLiteVariant_GetInt M v' = Some x \<and> v_datalen v' = 4"
    "\<exists>v'. SQLiteVariant_SetInt64 M y v = Some v' \<and> var_ok v' \<and> SQLiteVariant_GetInt64 M v' = Some y \<and> v_datalen v' = 8"
    "\<exists>v'. SQLiteVariant_SetFloat M x v = Some v' \<and> var_ok v' \<and> SQLiteVariant_GetDouble M v' = Some (vm_to_double M x) \<and> v_datalen v' = 4"
    "\<exists>v'. SQLiteVariant_SetDouble M y v = Some v' \<and> var_ok v' \<and> SQLiteVariant_GetDouble M v' = Some y \<and> v_datalen v' = 8"
proof -
  obtain w where w: "FreeBlobHeapMemIfAllocated M v = Some (v\<lparr>v_data := Bits w\<rparr>)" using free_blob_ok[OF assms] by blast
  obtain z where z: "low_half M (Bits w) x = Bits z" by (simp add: low_half_def)
  show "\<exists>v'. SQLiteVariant_SetInt M x v = Some v' \<and> var_ok v' \<and> SQLiteVariant_GetInt M v' = Some x \<and> v_datalen v' = 4"
    using w z low_half_value[OF z] by (simp add: SQLiteVariant_SetInt_def var_ok_def SQLiteVariant_GetInt_def union_bits_def)
  show "\<exists>v'. SQLiteVariant_SetInt64 M y v = Some v' \<and> var_ok v' \<and> SQLiteVariant_GetInt64 M v' = Some y \<and> v_datalen v' = 8"
    "\<exists>v'. SQLiteVariant_SetFloat M x v = Some v' \<and> var_ok v' \<and> SQLiteVariant_GetDouble M v' = Some (vm_to_double M x) \<and> v_datalen v' = 4"
    "\<exists>v'. SQLiteVariant_SetDouble M y v = Some v' \<and> var_ok v' \<and> SQLiteVariant_GetDouble M v' = Some y \<and> v_datalen v' = 8"
    using w by (simp_all add: SQLiteVariant_SetInt64_def SQLiteVariant_SetFloat_def SQLiteVariant_SetDouble_def var_ok_def
        SQLiteVariant_GetInt64_def SQLiteVariant_GetDouble_def union_bits_def)
qed

lemma clear_ok:
  assumes "var_ok v"
  shows "\<exists>v'. SQLiteVariant_ClearValue v = Some v' \<and> var_ok v'"
proof (cases "holds_blob v")
  case True
  then obtain b where "v_data v = Block b" "length b = v_reservedlen v" "0 < v_reservedlen v" "length b < 2 ^ 62"
    using assms by (auto simp: var_ok_def)
  then show ?thesis using True zero_blob_block[of b "v_reservedlen v"]
    by (auto simp: SQLiteVariant_ClearValue_def var_ok_def terminated_def)
qed (auto simp: SQLiteVariant_ClearValue_def var_ok_def)

text \<open>A text or blob over a number other than zero uses the number as a pointer.\<close>

lemma blob_over_number:
  assumes "var_ok v" "v_data v = Bits w" "w \<noteq> 0"
  shows "SQLiteVariant_SetText M str v = None" "SQLiteVariant_SetBlob M (Some d) n v = None"
proof -
  have h: "\<not> holds_blob v" using assms by (auto simp: var_ok_def)
  then have "grow_blob M k r v = Some v" "make_blob M (v\<lparr>v_datalen := k\<rparr>) = v\<lparr>v_datalen := k\<rparr>" for k r
    using assms by (simp_all add: grow_blob_def make_blob_def)
  moreover have "as_blob (v_data v) = None" using assms by (simp add: as_blob_def)
  moreover have "zero_blob (v_data v) (v_reservedlen v) \<in> {None, Some (v_data v)}"
    using zero_blob_number[OF assms(3)] assms(2) by simp
  ultimately show "SQLiteVariant_SetText M str v = None" "SQLiteVariant_SetBlob M (Some d) n v = None"
    by (auto simp: SQLiteVariant_SetText_def SQLiteVariant_SetBlob_def bind_eq_None_conv)
qed

text \<open>Fewer than four bytes are read past their end.\<close>

lemma short_blob_reads_past: "length d < 4 \<Longrightarrow> SQLiteVariant_SetBlob M (Some d) (length d) v = None"
proof -
  assume d: "length d < 4"
  have "v_datalen (make_blob M (v'\<lparr>v_datalen := 4\<rparr>)) = 4" for v' by (simp add: make_blob_def)
  moreover have "max (length d) 4 = 4" using d by simp
  moreover have "read_cells d 0 4 = None" using d by (simp add: read_cells_def)
  ultimately show ?thesis by (auto simp: SQLiteVariant_SetBlob_def bind_eq_None_conv)
qed

text \<open>C10: the type of a variant says what its union holds, and the sets and the clearing of a column keep it so: they
  return exactly when no text or blob is put over a number other than zero and every blob has at least four bytes,
  and then the type still matches. The others are undefined behaviour.\<close>

theorem variant_type_matches_union:
  assumes "grants_all (vm_bytes M)" "var_ok v" "op_small p"
  shows "if goes_well p v then \<exists>v'. var_step M p v = Some v' \<and> var_ok v' else var_step M p v = None"
proof (cases p)
  case (PutText s)
  show ?thesis
  proof (cases "goes_well p v")
    case True
    then show ?thesis using PutText assms set_text_ok[of M v s] by (fastforce simp: op_small_def)
  next
    case False
    then show ?thesis using PutText assms blob_over_number(1)[of v] by auto
  qed
next
  case (PutBlob d)
  show ?thesis
  proof (cases "goes_well p v")
    case True
    then show ?thesis using PutBlob assms set_blob_ok[of M v d] by (fastforce simp: op_small_def)
  next
    case False
    then show ?thesis using PutBlob assms blob_over_number(2)[of v] short_blob_reads_past[of d M v] by auto
  qed
qed (use set_number_ok[OF assms(2), of M] clear_ok[OF assms(2)] in fastforce)+

definition var_mgr :: variant_mem where
  "var_mgr = \<lparr>vm_bytes = \<lparr>grants = \<lambda>_. True, fresh = \<lambda>_. 7\<rparr>, vm_address = \<lambda>_. 4096, vm_to_double = ucast, vm_to_float = ucast\<rparr>"

theorem variant_type_matches_union_witness:
  "\<exists>v. var_step var_mgr (PutInt 7) SQLiteVariant_new = Some v \<and> var_step var_mgr (PutText (bytes_of ''seven'')) v = None"
proof -
  obtain v where v: "SQLiteVariant_SetInt var_mgr 7 SQLiteVariant_new = Some v" "var_ok v" "SQLiteVariant_GetInt var_mgr v = Some 7"
    using set_number_ok(1)[OF var_ok_new, of var_mgr 7] by blast
  have M: "grants_all (vm_bytes var_mgr)" by (simp add: var_mgr_def grants_all_def)
  obtain w where w: "v_data v = Bits w" "ucast w = (7 :: 32 word)"
    using v(2,3) by (auto simp: var_ok_def SQLiteVariant_GetInt_def union_bits_def split: if_splits)
  have "w \<noteq> 0" using w(2) by auto
  have "op_small (PutText (bytes_of ''seven''))" by (simp add: op_small_def bytes_of_def)
  then have "var_step var_mgr (PutText (bytes_of ''seven'')) v = None"
    using variant_type_matches_union[OF M v(2), of "PutText (bytes_of ''seven'')"] w(1) \<open>w \<noteq> 0\<close> by simp
  then show ?thesis using v(1) by auto
qed

end
