(* ===== verification/Database.thy ===== *)
theory Database
  imports Variant Uuid MpInt LineEditor
begin

text \<open>
  sqliteutil.cpp, sqlitetable.cpp and sqliterow.cpp: the tables and rows that keep the scripts' objects. SQLite is an
  argument: what preparing a statement answers, whether a parameter can be bound, and what the \<open>k\<close>-th step of a
  statement gives (a result code, the values of the row, the changed database). A statement is its text and the
  values bound to it in order. Tables live in a store by address, as columns point to foreign tables and scripts share
  tables; the values of a row are a map from column names to variants. Destructors, reference counts of rows, log
  output and the registration calls of the script engine are left out.
\<close>

section \<open>SQLite\<close>

record 'db sqlite =
  sq_prepare :: "'db \<Rightarrow> byte list \<Rightarrow> int"
  sq_bind :: "byte list \<Rightarrow> nat \<Rightarrow> int"
  sq_step :: "'db \<Rightarrow> byte list \<Rightarrow> sql_value list \<Rightarrow> nat \<Rightarrow> int \<times> sql_value list \<times> 'db"

abbreviation (input) SQLITE_OK :: int where "SQLITE_OK \<equiv> 0"
abbreviation (input) SQLITE_ERROR :: int where "SQLITE_ERROR \<equiv> 1"
abbreviation (input) SQLITE_ROW :: int where "SQLITE_ROW \<equiv> 100"
abbreviation (input) SQLITE_DONE :: int where "SQLITE_DONE \<equiv> 101"

section \<open>sqliteutil.cpp\<close>

text \<open>\<open>str.find(c, pos)\<close>.\<close>

definition string_find :: "byte list \<Rightarrow> byte \<Rightarrow> nat \<Rightarrow> nat option" where
  "string_find str c pos = map_option (\<lambda>i. pos + i) (first_idx (\<lambda>b. b = c) (drop pos str))"

lemma string_find_bounds: "string_find str c pos = Some p \<Longrightarrow> pos \<le> p \<and> p < length str"
  by (auto simp: string_find_def first_idx_Some)

function escape_loop :: "byte list \<Rightarrow> nat \<Rightarrow> byte list" where
  "escape_loop str pos =
     (if pos < length str then
        (case string_find str 39 pos of
           None \<Rightarrow> str
         | Some p \<Rightarrow> escape_loop (take p str @ [39, 39] @ drop (p + 1) str) (p + 2))
      else str)"
  by pat_completeness auto
termination
  by (relation "measure (\<lambda>(str, pos). length str - pos)") (auto dest!: string_find_bounds)

declare escape_loop.simps [simp del]

definition SQLEscapeString :: "byte list \<Rightarrow> byte list" where
  "SQLEscapeString str = escape_loop str 0"

function unquote_loop :: "byte list \<Rightarrow> nat \<Rightarrow> byte list" where
  "unquote_loop str pos =
     (if pos < length str then
        (case string_find str 39 pos of
           None \<Rightarrow> str
         | Some p \<Rightarrow> unquote_loop (take p str @ drop (p + 1) str) (p + 1))
      else str)"
  by pat_completeness auto
termination
  by (relation "measure (\<lambda>(str, pos). length str - pos)") (auto dest!: string_find_bounds)

declare unquote_loop.simps [simp del]

definition SQLStripString :: "byte list \<Rightarrow> byte list" where
  "SQLStripString str = unquote_loop str 0"

definition checktablequery :: "byte list" where
  "checktablequery = bytes_of ''SELECT name FROM sqlite_master WHERE type='' @ [39] @ bytes_of ''table'' @ [39] @ bytes_of '' AND name=$tablename;''"

definition DoesSQLiteTableExist :: "'db sqlite \<Rightarrow> 'db \<Rightarrow> byte list \<Rightarrow> int \<times> 'db" where
  "DoesSQLiteTableExist S db tablename =
     (if sq_prepare S db checktablequery \<noteq> SQLITE_OK then (-1, db)
      else if sq_bind S checktablequery 1 \<noteq> SQLITE_OK then (-1, db)
      else (case sq_step S db checktablequery [SqlText tablename] 0 of
              (r, _, db) \<Rightarrow> (if r = SQLITE_ROW then 1 else 0, db)))"

text \<open>The name column of the pragma; the pointer to its text is null when the step gave no row.\<close>

fun columns_loop :: "'db sqlite \<Rightarrow> nat \<Rightarrow> byte list \<Rightarrow> nat \<Rightarrow> byte list set \<Rightarrow> 'db \<Rightarrow> (byte list set \<times> 'db) outcome" where
  "columns_loop S 0 query k columnset db = Running"
| "columns_loop S (Suc fuel) query k columnset db =
     (case sq_step S db query [] k of
        (r, row, db) \<Rightarrow>
          if r = SQLITE_DONE then Returns (columnset, db)
          else if r = SQLITE_ROW then
            (case rd row 1 of Some (SqlText name) \<Rightarrow> columns_loop S fuel query (Suc k) (insert name columnset) db | _ \<Rightarrow> Faults)
          else Faults)"

definition GetTableColumns :: "'db sqlite \<Rightarrow> nat \<Rightarrow> 'db \<Rightarrow> byte list \<Rightarrow> (int \<times> byte list set \<times> 'db) outcome" where
  "GetTableColumns S fuel db tablename =
     (let query = bytes_of ''pragma table_info('' @ SQLStripString tablename @ bytes_of '');'' in
      if sq_prepare S db query \<noteq> SQLITE_OK then Returns (-1, {}, db)
      else bind_outcome (columns_loop S fuel query 0 {} db) (\<lambda>(columnset, db). Returns (SQLITE_OK, columnset, db)))"

definition ExecSQLiteStatement :: "'db sqlite \<Rightarrow> 'db \<Rightarrow> byte list \<Rightarrow> int \<times> 'db" where
  "ExecSQLiteStatement S db query =
     (if sq_prepare S db query \<noteq> SQLITE_OK then (sq_prepare S db query, db)
      else (case sq_step S db query [] 0 of (r, _, db) \<Rightarrow> (r, db)))"

definition AddColumnToSQLiteTable :: "'db sqlite \<Rightarrow> 'db \<Rightarrow> byte list \<Rightarrow> byte list \<Rightarrow> byte list \<Rightarrow> int \<times> 'db" where
  "AddColumnToSQLiteTable S db tablename colname coltype =
     (let query = SQLStripString (bytes_of ''alter table '' @ tablename @ bytes_of '' add column '' @ colname @ [32] @ coltype) in
      if sq_prepare S db query \<noteq> SQLITE_OK then (sq_prepare S db query, db)
      else (case sq_step S db query [] 0 of (r, _, db) \<Rightarrow> (r, db)))"

section \<open>Columns and tables\<close>

datatype key_type = KEY_NONE | KEY_PRIMARY | KEY_AUTO_PRIMARY | KEY_FOREIGN | KEY_PRIMARY_AND_FOREIGN

record sqlite_column =
  col_type :: stored_type
  col_name :: "byte list"
  col_foreignname :: "byte list"
  col_keytype :: key_type
  col_foreigntable :: "nat option"

record sqlite_table =
  tab_columns :: "sqlite_column list"
  tab_subtables :: "byte list \<Rightarrow> nat option"
  tab_primary :: "sqlite_column list"
  tab_foreign :: "sqlite_column list"
  tab_name :: "byte list"
  tab_loadquery :: "byte list"
  tab_storequery :: "byte list"
  tab_subquery :: "byte list"
  tab_bIsSubTable :: bool
  tab_refcount :: int

type_synonym tables = "nat \<Rightarrow> sqlite_table option"

definition IsPrimaryKey :: "sqlite_column \<Rightarrow> bool" where
  "IsPrimaryKey c \<longleftrightarrow> KEY_PRIMARY = col_keytype c \<or> KEY_AUTO_PRIMARY = col_keytype c"

definition IsForeignKey :: "sqlite_column \<Rightarrow> bool" where
  "IsForeignKey c \<longleftrightarrow> KEY_FOREIGN = col_keytype c \<or> KEY_PRIMARY_AND_FOREIGN = col_keytype c"

definition SQLiteTable_AddRef :: "nat \<Rightarrow> tables \<Rightarrow> tables option" where
  "SQLiteTable_AddRef a tabs = (case tabs a of None \<Rightarrow> None | Some t \<Rightarrow> Some (tabs(a \<mapsto> t\<lparr>tab_refcount := tab_refcount t + 1\<rparr>)))"

definition SQLiteTable_new :: "byte list \<Rightarrow> sqlite_table" where
  "SQLiteTable_new tablename =
     \<lparr>tab_columns = [], tab_subtables = \<lambda>_. None, tab_primary = [], tab_foreign = [], tab_name = tablename,
      tab_loadquery = [], tab_storequery = [], tab_subquery = [], tab_bIsSubTable = False, tab_refcount = 1\<rparr>"

text \<open>A column takes a reference on its foreign table.\<close>

definition SQLiteColumn_new ::
    "byte list \<Rightarrow> stored_type \<Rightarrow> key_type \<Rightarrow> nat option \<Rightarrow> byte list \<Rightarrow> tables \<Rightarrow> (sqlite_column \<times> tables) option" where
  "SQLiteColumn_new name vartype keytype foreigntable foreignname tabs = do {
     tabs \<leftarrow> (case foreigntable of None \<Rightarrow> Some tabs | Some f \<Rightarrow> SQLiteTable_AddRef f tabs);
     Some (\<lparr>col_type = vartype, col_name = name, col_foreignname = foreignname, col_keytype = keytype,
            col_foreigntable = foreigntable\<rparr>, tabs)
   }"

text \<open>For an automatic key the column is made twice: the second one replaces the one whose type was set.\<close>

definition SQLiteTable_AddColumn ::
    "nat \<Rightarrow> byte list \<Rightarrow> stored_type \<Rightarrow> key_type \<Rightarrow> nat option \<Rightarrow> byte list \<Rightarrow> tables \<Rightarrow> (bool \<times> tables) option" where
  "SQLiteTable_AddColumn a name vartype keytype foreigntable foreignname tabs =
     (if keytype \<in> {KEY_FOREIGN, KEY_PRIMARY_AND_FOREIGN} \<and> (foreigntable = None \<or> foreignname = []) then Some (False, tabs)
      else do {
        tabs \<leftarrow> (if keytype = KEY_AUTO_PRIMARY
                 then map_option snd (SQLiteColumn_new name vartype keytype foreigntable foreignname tabs) else Some tabs);
        (newcol, tabs) \<leftarrow> SQLiteColumn_new name vartype keytype foreigntable foreignname tabs;
        t \<leftarrow> tabs a;
        let t = (if keytype \<in> {KEY_AUTO_PRIMARY, KEY_PRIMARY, KEY_PRIMARY_AND_FOREIGN}
                 then t\<lparr>tab_primary := tab_primary t @ [newcol]\<rparr> else t);
        let t = (if keytype \<in> {KEY_FOREIGN, KEY_PRIMARY_AND_FOREIGN}
                 then t\<lparr>tab_foreign := tab_foreign t @ [newcol]\<rparr> else t);
        Some (True, tabs(a \<mapsto> t\<lparr>tab_columns := tab_columns t @ [newcol]\<rparr>))
      })"

fun foreign_keys_loop :: "nat \<Rightarrow> nat \<Rightarrow> byte list \<Rightarrow> sqlite_column list \<Rightarrow> tables \<Rightarrow> tables option" where
  "foreign_keys_loop a sub name [] tabs = Some tabs"
| "foreign_keys_loop a sub name (c # cs) tabs = do {
     (_, tabs) \<leftarrow> SQLiteTable_AddColumn sub (name @ [95] @ col_name c) (col_type c) KEY_PRIMARY_AND_FOREIGN (Some a) (col_name c) tabs;
     foreign_keys_loop a sub name cs tabs
   }"

definition SQLiteTable_CreateSubTable :: "nat \<Rightarrow> nat \<Rightarrow> byte list \<Rightarrow> tables \<Rightarrow> tables option" where
  "SQLiteTable_CreateSubTable a sub name tabs = do {
     t \<leftarrow> tabs a;
     let subtablename = tab_name t @ [95] @ name;
     let tabs = tabs(sub \<mapsto> (SQLiteTable_new subtablename)\<lparr>tab_bIsSubTable := True\<rparr>,
                     a \<mapsto> t\<lparr>tab_subtables := (tab_subtables t)(subtablename \<mapsto> sub)\<rparr>);
     tabs \<leftarrow> SQLiteTable_AddRef sub tabs;
     tabs \<leftarrow> foreign_keys_loop a sub (tab_name t) (tab_primary t) tabs;
     (_, tabs) \<leftarrow> SQLiteTable_AddColumn sub (bytes_of ''subtable_index'') VARINT KEY_PRIMARY (Some a) [] tabs;
     Some tabs
   }"

definition SQLiteTable_GetSubTable :: "nat \<Rightarrow> byte list \<Rightarrow> tables \<Rightarrow> (nat option \<times> tables) option" where
  "SQLiteTable_GetSubTable a name tabs = do {
     t \<leftarrow> tabs a;
     case tab_subtables t (tab_name t @ [95] @ name) of
       None \<Rightarrow> Some (None, tabs)
     | Some sub \<Rightarrow> do { tabs \<leftarrow> SQLiteTable_AddRef sub tabs; Some (Some sub, tabs) }
   }"

section \<open>The statements of a table\<close>

text \<open>A list with a separator after every element but the last; an element may be left out, its separator with it.\<close>

fun separated :: "('c \<Rightarrow> bool) \<Rightarrow> ('c \<Rightarrow> byte list) \<Rightarrow> byte list \<Rightarrow> 'c list \<Rightarrow> byte list" where
  "separated skip f comma [] = []"
| "separated skip f comma (c # cs) =
     (if skip c then [] else f c @ (if cs \<noteq> [] then comma else [])) @ separated skip f comma cs"

definition placeholder :: "sqlite_column \<Rightarrow> byte list" where
  "placeholder c = 36 # col_name c"

definition equals_placeholder :: "sqlite_column \<Rightarrow> byte list" where
  "equals_placeholder c = col_name c @ [61] @ placeholder c"

definition ProduceUpdateList :: "sqlite_table \<Rightarrow> byte list" where
  "ProduceUpdateList t = separated (\<lambda>c. IsPrimaryKey c \<or> IsForeignKey c) equals_placeholder [44, 32] (tab_columns t)"

definition ProducePlaceholderList :: "sqlite_table \<Rightarrow> byte list" where
  "ProducePlaceholderList t = separated (\<lambda>_. False) placeholder [44, 32] (tab_columns t)"

definition ProduceInsertValuesNameList :: "sqlite_table \<Rightarrow> byte list" where
  "ProduceInsertValuesNameList t = separated (\<lambda>_. False) col_name [44, 32] (tab_columns t)"

definition GetPrimaryKeyStringList :: "sqlite_table \<Rightarrow> byte list" where
  "GetPrimaryKeyStringList t = separated (\<lambda>_. False) col_name [44] (tab_primary t)"

definition GetForeignKeyStringList :: "sqlite_table \<Rightarrow> byte list" where
  "GetForeignKeyStringList t = separated (\<lambda>_. False) col_name [44] (tab_foreign t)"

definition ProducePropertyNameList :: "tables \<Rightarrow> sqlite_table \<Rightarrow> byte list option" where
  "ProducePropertyNameList tabs t =
     (let buffer = concat (map (\<lambda>c. col_name c @ [32] @ VariantTypeToString (col_type c) @ [44, 32]) (tab_columns t)) @
            bytes_of ''PRIMARY KEY('' @ GetPrimaryKeyStringList t @ [41] in
      if tab_foreign t = [] then Some buffer
      else (case col_foreigntable (last (tab_foreign t)) of
              None \<Rightarrow> Some buffer
            | Some f \<Rightarrow> do {
                foreigntable \<leftarrow> tabs f;
                Some (buffer @ bytes_of '', FOREIGN KEY('' @ GetForeignKeyStringList t @ bytes_of '') REFERENCES '' @
                  tab_name foreigntable @ [40] @ GetPrimaryKeyStringList foreigntable @ [41]) }))"

definition ProduceSubTableSelectConditionString :: "sqlite_table \<Rightarrow> byte list" where
  "ProduceSubTableSelectConditionString t = separated (\<lambda>_. False) equals_placeholder (bytes_of '' AND '') (tab_foreign t)"

definition ProduceSelectConditionString :: "sqlite_table \<Rightarrow> byte list" where
  "ProduceSelectConditionString t =
     (if length (tab_primary t) = 1 then equals_placeholder (last (tab_primary t))
      else separated (\<lambda>_. False) equals_placeholder (bytes_of '' AND '') (tab_primary t))"

definition load_statement :: "sqlite_table \<Rightarrow> byte list" where
  "load_statement t = bytes_of ''select '' @ ProduceInsertValuesNameList t @ bytes_of '' from '' @ tab_name t @
     bytes_of '' where '' @ ProduceSelectConditionString t @ [59]"

definition sub_load_statement :: "sqlite_table \<Rightarrow> byte list" where
  "sub_load_statement t = bytes_of ''select '' @ ProduceInsertValuesNameList t @ bytes_of '' from '' @ tab_name t @
     bytes_of '' where '' @ ProduceSubTableSelectConditionString t @ [59]"

definition store_statement :: "sqlite_table \<Rightarrow> byte list" where
  "store_statement t = bytes_of ''INSERT INTO '' @ tab_name t @ [40] @ ProduceInsertValuesNameList t @ bytes_of '') VALUES('' @
     ProducePlaceholderList t @ bytes_of '') ON CONFLICT('' @ GetPrimaryKeyStringList t @ bytes_of '') DO UPDATE SET '' @
     ProduceUpdateList t @ [59]"

section \<open>The values of a row\<close>

type_synonym row_values = "byte list \<Rightarrow> sqlite_variant option"

definition set_column :: "byte list \<Rightarrow> (sqlite_variant \<Rightarrow> sqlite_variant option) \<Rightarrow> row_values \<Rightarrow> row_values option" where
  "set_column colname f vals = do {
     v \<leftarrow> f (case vals colname of None \<Rightarrow> SQLiteVariant_new | Some v \<Rightarrow> v);
     Some (vals(colname \<mapsto> v))
   }"

definition SetColumnVariant :: "variant_mem \<Rightarrow> byte list \<Rightarrow> sqlite_variant \<Rightarrow> row_values \<Rightarrow> row_values option" where
  "SetColumnVariant M colname value = set_column colname (\<lambda>v. SQLiteVariant_assign M v value)"

definition SetColumnInt :: "variant_mem \<Rightarrow> byte list \<Rightarrow> 32 word \<Rightarrow> row_values \<Rightarrow> row_values option" where
  "SetColumnInt M colname x = set_column colname (SQLiteVariant_SetInt M x)"

definition SetColumnInt64 :: "variant_mem \<Rightarrow> byte list \<Rightarrow> 64 word \<Rightarrow> row_values \<Rightarrow> row_values option" where
  "SetColumnInt64 M colname x = set_column colname (SQLiteVariant_SetInt64 M x)"

definition SetColumnFloat :: "variant_mem \<Rightarrow> byte list \<Rightarrow> 32 word \<Rightarrow> row_values \<Rightarrow> row_values option" where
  "SetColumnFloat M colname x = set_column colname (SQLiteVariant_SetFloat M x)"

definition SetColumnDouble :: "variant_mem \<Rightarrow> byte list \<Rightarrow> 64 word \<Rightarrow> row_values \<Rightarrow> row_values option" where
  "SetColumnDouble M colname x = set_column colname (SQLiteVariant_SetDouble M x)"

definition SetColumnText :: "variant_mem \<Rightarrow> byte list \<Rightarrow> byte list \<Rightarrow> row_values \<Rightarrow> row_values option" where
  "SetColumnText M colname str = set_column colname (SQLiteVariant_SetText M str)"

definition SetColumnEditableText :: "variant_mem \<Rightarrow> byte list \<Rightarrow> editable_text \<Rightarrow> row_values \<Rightarrow> (row_values \<times> editable_text) option" where
  "SetColumnEditableText M colname et vals =
     (case EditableText_GetString et of (str, et) \<Rightarrow>
        do { vals \<leftarrow> set_column colname (SQLiteVariant_SetText M str) vals; Some (vals, et) })"

definition SetColumnBlob :: "variant_mem \<Rightarrow> byte list \<Rightarrow> byte list option \<Rightarrow> nat \<Rightarrow> row_values \<Rightarrow> row_values option" where
  "SetColumnBlob M colname data datalen = set_column colname (SQLiteVariant_SetBlob M data datalen)"

definition SetColumnUUID :: "variant_mem \<Rightarrow> byte list \<Rightarrow> uuid \<Rightarrow> row_values \<Rightarrow> row_values option" where
  "SetColumnUUID M colname d = SetColumnBlob M colname (Some d) 16"

definition SetColumnMPInt :: "variant_mem \<Rightarrow> byte list \<Rightarrow> mpint \<Rightarrow> row_values \<Rightarrow> row_values option" where
  "SetColumnMPInt M colname mpzin vals = do {
     buffer \<leftarrow> MPInt_SerializeOut mpzin [];
     SetColumnBlob M colname (Some buffer) (length buffer) vals
   }"

text \<open>A column that was set gives its value, or leaves \<open>out\<close> when it has another type; else the default.\<close>

definition get_column :: "(sqlite_variant \<Rightarrow> 'v option) \<Rightarrow> byte list \<Rightarrow> 'v \<Rightarrow> 'v \<Rightarrow> row_values \<Rightarrow> bool \<times> 'v" where
  "get_column get colname out defval vals =
     (case vals colname of
        None \<Rightarrow> (False, defval)
      | Some v \<Rightarrow> (True, case get v of None \<Rightarrow> out | Some x \<Rightarrow> x))"

definition GetColumnInt :: "variant_mem \<Rightarrow> byte list \<Rightarrow> 32 word \<Rightarrow> 32 word \<Rightarrow> row_values \<Rightarrow> bool \<times> 32 word" where
  "GetColumnInt M = get_column (SQLiteVariant_GetInt M)"

definition GetColumnInt64 :: "variant_mem \<Rightarrow> byte list \<Rightarrow> 64 word \<Rightarrow> 64 word \<Rightarrow> row_values \<Rightarrow> bool \<times> 64 word" where
  "GetColumnInt64 M = get_column (SQLiteVariant_GetInt64 M)"

definition GetColumnFloat :: "variant_mem \<Rightarrow> byte list \<Rightarrow> 32 word \<Rightarrow> 32 word \<Rightarrow> row_values \<Rightarrow> bool \<times> 32 word" where
  "GetColumnFloat M = get_column (SQLiteVariant_GetFloat M)"

definition GetColumnDouble :: "variant_mem \<Rightarrow> byte list \<Rightarrow> 64 word \<Rightarrow> 64 word \<Rightarrow> row_values \<Rightarrow> bool \<times> 64 word" where
  "GetColumnDouble M = get_column (SQLiteVariant_GetDouble M)"

definition GetColumnText :: "byte list \<Rightarrow> byte list \<Rightarrow> byte list \<Rightarrow> row_values \<Rightarrow> (bool \<times> byte list) option" where
  "GetColumnText colname out defval vals =
     (case vals colname of
        None \<Rightarrow> Some (False, defval)
      | Some v \<Rightarrow> do { r \<leftarrow> SQLiteVariant_GetText v; Some (True, case r of None \<Rightarrow> out | Some s \<Rightarrow> s) })"

text \<open>The default of the overload for editable texts is not used.\<close>

definition GetColumnEditableText :: "byte list \<Rightarrow> editable_text \<Rightarrow> byte list \<Rightarrow> row_values \<Rightarrow> (bool \<times> editable_text) option" where
  "GetColumnEditableText colname out defval vals =
     (case vals colname of
        None \<Rightarrow> Some (False, EditableText_set [] out)
      | Some v \<Rightarrow> do {
          r \<leftarrow> SQLiteVariant_GetText v;
          Some (True, EditableText_set (case r of None \<Rightarrow> [] | Some s \<Rightarrow> s) out) })"

definition GetColumnVector :: "byte list \<Rightarrow> byte list \<Rightarrow> row_values \<Rightarrow> (bool \<times> byte list) option" where
  "GetColumnVector colname out vals =
     (case vals colname of
        None \<Rightarrow> Some (False, out)
      | Some v \<Rightarrow> do { r \<leftarrow> SQLiteVariant_GetBlob v; Some (True, case r of None \<Rightarrow> out | Some s \<Rightarrow> s) })"

definition GetColumnUUID :: "byte list \<Rightarrow> uuid \<Rightarrow> row_values \<Rightarrow> (bool \<times> uuid) option" where
  "GetColumnUUID colname uuidout vals =
     (case vals colname of
        None \<Rightarrow> Some (False, uuidout)
      | Some v \<Rightarrow> do {
          p \<leftarrow> as_blob (v_data v);
          d \<leftarrow> UUID_CopyFromByteArray (cells p) (v_datalen v) uuidout;
          Some (True, d) })"

definition GetColumnMPInt :: "byte list \<Rightarrow> mpint \<Rightarrow> 32 word \<Rightarrow> row_values \<Rightarrow> (bool \<times> mpint) option" where
  "GetColumnMPInt colname mpzout defval vals =
     (case vals colname of
        None \<Rightarrow> Some (False, MPInt_assign_int mpzout defval)
      | Some v \<Rightarrow> do {
          p \<leftarrow> as_blob (v_data v);
          m \<leftarrow> MPInt_SerializeIn p (v_datalen v) mpzout;
          Some (True, m) })"

text \<open>The default values of a new row; keys get none.\<close>

fun init_loop :: "variant_mem \<Rightarrow> sqlite_column list \<Rightarrow> row_values \<Rightarrow> row_values option" where
  "init_loop M [] vals = Some vals"
| "init_loop M (c # cs) vals = do {
     vals \<leftarrow> (if KEY_NONE \<noteq> col_keytype c then Some vals
              else (case col_type c of
                      VARNONE \<Rightarrow> Some vals
                    | VARINT \<Rightarrow> SetColumnInt M (col_name c) 0 vals
                    | VARREAL \<Rightarrow> SetColumnDouble M (col_name c) 0 vals
                    | VARBLOB \<Rightarrow> SetColumnBlob M (col_name c) None 0 vals
                    | VARTEXT \<Rightarrow> SetColumnText M (col_name c) [] vals));
     init_loop M cs vals
   }"

definition SQLiteRow_InitFromTable :: "variant_mem \<Rightarrow> sqlite_table \<Rightarrow> row_values \<Rightarrow> row_values option" where
  "SQLiteRow_InitFromTable M t vals = init_loop M (tab_columns t) vals"

definition SQLiteRow_new :: "variant_mem \<Rightarrow> sqlite_table \<Rightarrow> row_values option" where
  "SQLiteRow_new M t = SQLiteRow_InitFromTable M t (\<lambda>_. None)"

fun clear_loop :: "byte list list \<Rightarrow> row_values \<Rightarrow> row_values option" where
  "clear_loop [] vals = Some vals"
| "clear_loop (n # ns) vals = do {
     vals \<leftarrow> (case vals n of None \<Rightarrow> Some vals | Some v \<Rightarrow> do { v \<leftarrow> SQLiteVariant_ClearValue v; Some (vals(n \<mapsto> v)) });
     clear_loop ns vals
   }"

text \<open>\<open>ClearValues\<close> passes over the names in the map.\<close>

definition SQLiteRow_ClearValues :: "byte list list \<Rightarrow> row_values \<Rightarrow> row_values option" where
  "SQLiteRow_ClearValues names vals = clear_loop names vals"

section \<open>Loading and storing\<close>

text \<open>One value of a row that was read. An integer is read as an \<open>int\<close>; a text ends at its first zero.\<close>

definition load_value :: "variant_mem \<Rightarrow> byte list \<Rightarrow> sql_value \<Rightarrow> row_values \<Rightarrow> row_values option" where
  "load_value M name x vals =
     (case x of
        SqlInteger i \<Rightarrow> SetColumnInt M name (ucast i) vals
      | SqlReal d \<Rightarrow> SetColumnDouble M name d vals
      | SqlBlob b \<Rightarrow> SetColumnBlob M name (if b = [] then None else Some b) (length b) vals
      | SqlNull \<Rightarrow> Some vals
      | SqlText s \<Rightarrow> SetColumnText M name (cstr s) vals)"

fun load_columns :: "variant_mem \<Rightarrow> sqlite_column list \<Rightarrow> sql_value list \<Rightarrow> row_values \<Rightarrow> row_values option" where
  "load_columns M cs [] vals = Some vals"
| "load_columns M [] (x # xs) vals = None"
| "load_columns M (c # cs) (x # xs) vals = do { vals \<leftarrow> load_value M (col_name c) x vals; load_columns M cs xs vals }"

text \<open>Binding the values of the named columns in order, from parameter \<open>pos\<close>; inner \<open>None\<close> when one cannot be bound.\<close>

fun bind_named :: "'db sqlite \<Rightarrow> variant_mem \<Rightarrow> byte list \<Rightarrow> byte list list \<Rightarrow> nat \<Rightarrow> row_values \<Rightarrow> sql_value list option option" where
  "bind_named S M query [] pos vals = Some (Some [])"
| "bind_named S M query (n # ns) pos vals = do {
     x \<leftarrow> bound_value M (vals n);
     case x of
       None \<Rightarrow> Some None
     | Some x \<Rightarrow>
         (if sq_bind S query pos \<noteq> SQLITE_OK then Some None
          else do { r \<leftarrow> bind_named S M query ns (Suc pos) vals; Some (map_option ((#) x) r) })
   }"

definition cached_load :: "nat \<Rightarrow> tables \<Rightarrow> (byte list \<times> tables) option" where
  "cached_load a tabs = do {
     t \<leftarrow> tabs a;
     let t = (if tab_loadquery t = [] then t\<lparr>tab_loadquery := load_statement t\<rparr> else t);
     Some (tab_loadquery t, tabs(a \<mapsto> t))
   }"

definition SQLiteTable_LoadRow ::
    "'db sqlite \<Rightarrow> variant_mem \<Rightarrow> nat \<Rightarrow> tables \<Rightarrow> row_values \<Rightarrow> 'db \<Rightarrow> (int \<times> row_values \<times> tables \<times> 'db) option" where
  "SQLiteTable_LoadRow S M a tabs vals db = do {
     t \<leftarrow> tabs a;
     if tab_primary t = [] then Some (SQLITE_ERROR, vals, tabs, db)
     else case DoesSQLiteTableExist S db (tab_name t) of
       (r, db) \<Rightarrow>
         if r \<le> 0 then Some (SQLITE_ERROR, vals, tabs, db)
         else do {
           (query, tabs) \<leftarrow> cached_load a tabs;
           if sq_prepare S db query \<noteq> SQLITE_OK then Some (sq_prepare S db query, vals, tabs, db)
           else do {
             args \<leftarrow> bind_named S M query (map col_name (tab_primary t)) 1 vals;
             case args of
               None \<Rightarrow> Some (SQLITE_ERROR, vals, tabs, db)
             | Some args \<Rightarrow>
                 (case sq_step S db query args 0 of
                    (r, row, db) \<Rightarrow>
                      if r \<noteq> SQLITE_ROW then Some (r, vals, tabs, db)
                      else do { vals \<leftarrow> load_columns M (tab_columns t) row vals; Some (SQLITE_OK, vals, tabs, db) })
           }
         }
   }"

text \<open>The rows of a subtable that belong to a row of its parent: one new row for each row of the answer.\<close>

fun sub_rows_loop ::
    "'db sqlite \<Rightarrow> variant_mem \<Rightarrow> nat \<Rightarrow> sqlite_table \<Rightarrow> byte list \<Rightarrow> sql_value list \<Rightarrow> nat \<Rightarrow> row_values list \<Rightarrow> 'db \<Rightarrow> (row_values list \<times> 'db) outcome" where
  "sub_rows_loop S M 0 t query args k rows db = Running"
| "sub_rows_loop S M (Suc fuel) t query args k rows db =
     (case sq_step S db query args k of
        (r, row, db) \<Rightarrow>
          if r \<noteq> SQLITE_ROW then Returns (rows, db)
          else bind_outcome (defined (do { vals \<leftarrow> SQLiteRow_new M t; load_columns M (tab_columns t) row vals })) (\<lambda>vals.
            sub_rows_loop S M fuel t query args (Suc k) (rows @ [vals]) db))"

definition SQLiteTable_LoadSubTable ::
    "'db sqlite \<Rightarrow> variant_mem \<Rightarrow> nat \<Rightarrow> nat \<Rightarrow> tables \<Rightarrow> row_values \<Rightarrow> 'db \<Rightarrow> (bool \<times> row_values list \<times> tables \<times> 'db) outcome" where
  "SQLiteTable_LoadSubTable S M fuel a tabs parent_row db =
     bind_outcome (defined (tabs a)) (\<lambda>t.
       if \<not> tab_bIsSubTable t then Returns (False, [], tabs, db)
       else case DoesSQLiteTableExist S db (tab_name t) of
         (r, db) \<Rightarrow>
           if r \<le> 0 then Returns (False, [], tabs, db)
           else (let t = (if tab_subquery t = [] then t\<lparr>tab_subquery := sub_load_statement t\<rparr> else t);
                     tabs = tabs(a \<mapsto> t); query = tab_subquery t in
             if sq_prepare S db query \<noteq> SQLITE_OK then Returns (False, [], tabs, db)
             else bind_outcome (defined (bind_named S M query (map col_foreignname (tab_foreign t)) 1 parent_row)) (\<lambda>args.
               case args of
                 None \<Rightarrow> Returns (False, [], tabs, db)
               | Some args \<Rightarrow>
                   bind_outcome (sub_rows_loop S M fuel t query args 0 [] db) (\<lambda>(rows, db). Returns (True, rows, tabs, db)))))"

text \<open>Binding all columns of a row that is stored. A foreign key that has no value is taken from the parent row.\<close>

definition foreign_value :: "variant_mem \<Rightarrow> sqlite_column \<Rightarrow> row_values option \<Rightarrow> row_values \<Rightarrow> row_values option option" where
  "foreign_value M c prow vals =
     (if IsForeignKey c \<and> vals (col_name c) = None then
        (case (col_foreigntable c, prow) of
           (Some _, Some p) \<Rightarrow>
             (case p (col_foreignname c) of
                None \<Rightarrow> Some (Some vals)
              | Some value \<Rightarrow> map_option Some (SetColumnVariant M (col_name c) value vals))
         | _ \<Rightarrow> Some None)
      else Some (Some vals))"

fun bind_row ::
    "'db sqlite \<Rightarrow> variant_mem \<Rightarrow> byte list \<Rightarrow> sqlite_column list \<Rightarrow> nat \<Rightarrow> row_values option \<Rightarrow> row_values \<Rightarrow> (sql_value list option \<times> row_values) option" where
  "bind_row S M query [] pos prow vals = Some (Some [], vals)"
| "bind_row S M query (c # cs) pos prow vals = do {
     vs \<leftarrow> foreign_value M c prow vals;
     case vs of
       None \<Rightarrow> Some (None, vals)
     | Some vals \<Rightarrow> do {
         x \<leftarrow> bound_value M (vals (col_name c));
         case x of
           None \<Rightarrow> Some (None, vals)
         | Some x \<Rightarrow>
             (if sq_bind S query pos \<noteq> SQLITE_OK then Some (None, vals)
              else do { (r, vals) \<leftarrow> bind_row S M query cs (Suc pos) prow vals; Some (map_option ((#) x) r, vals) })
       }
   }"

definition cached_store :: "nat \<Rightarrow> tables \<Rightarrow> (byte list \<times> tables) option" where
  "cached_store a tabs = do {
     t \<leftarrow> tabs a;
     let t = (if tab_storequery t = [] then t\<lparr>tab_storequery := store_statement t\<rparr> else t);
     Some (tab_storequery t, tabs(a \<mapsto> t))
   }"

definition SQLiteTable_PerformUpsert ::
    "'db sqlite \<Rightarrow> variant_mem \<Rightarrow> nat \<Rightarrow> tables \<Rightarrow> row_values \<Rightarrow> row_values option \<Rightarrow> 'db \<Rightarrow> (int \<times> row_values \<times> tables \<times> 'db) option" where
  "SQLiteTable_PerformUpsert S M a tabs vals prow db = do {
     (query, tabs) \<leftarrow> cached_store a tabs;
     t \<leftarrow> tabs a;
     if sq_prepare S db query \<noteq> SQLITE_OK then Some (SQLITE_ERROR, vals, tabs, db)
     else do {
       (args, vals) \<leftarrow> bind_row S M query (tab_columns t) 1 prow vals;
       case args of
         None \<Rightarrow> Some (SQLITE_ERROR, vals, tabs, db)
       | Some args \<Rightarrow>
           (case sq_step S db query args 0 of
              (r, _, db) \<Rightarrow> Some (if r \<noteq> SQLITE_DONE then SQLITE_ERROR else SQLITE_OK, vals, tabs, db))
     }
   }"

definition create_table :: "'db sqlite \<Rightarrow> tables \<Rightarrow> sqlite_table \<Rightarrow> 'db \<Rightarrow> (bool \<times> 'db) option" where
  "create_table S tabs t db = do {
     props \<leftarrow> ProducePropertyNameList tabs t;
     case ExecSQLiteStatement S db (bytes_of ''CREATE TABLE '' @ tab_name t @ [40] @ props @ bytes_of '');'') of
       (r, db) \<Rightarrow>
         if r \<noteq> SQLITE_DONE then Some (False, db)
         else (case ExecSQLiteStatement S db (bytes_of ''CREATE UNIQUE INDEX idx_'' @ tab_name t @ bytes_of '' ON '' @ tab_name t @
                      bytes_of '' ('' @ GetPrimaryKeyStringList t @ bytes_of '');'') of
                 (r, db) \<Rightarrow> Some (r = SQLITE_DONE, db))
   }"

fun missing_columns :: "'db sqlite \<Rightarrow> byte list \<Rightarrow> byte list set \<Rightarrow> sqlite_column list \<Rightarrow> 'db \<Rightarrow> bool \<times> 'db" where
  "missing_columns S tablename columnset [] db = (True, db)"
| "missing_columns S tablename columnset (c # cs) db =
     (if col_name c \<notin> columnset then
        (case AddColumnToSQLiteTable S db tablename (col_name c) (VariantTypeToString (col_type c)) of
           (r, db) \<Rightarrow> if r = SQLITE_DONE then missing_columns S tablename columnset cs db else (False, db))
      else missing_columns S tablename columnset cs db)"

definition SQLiteTable_StoreRow ::
    "'db sqlite \<Rightarrow> variant_mem \<Rightarrow> nat \<Rightarrow> nat \<Rightarrow> tables \<Rightarrow> row_values \<Rightarrow> row_values option \<Rightarrow> 'db \<Rightarrow> (int \<times> row_values \<times> tables \<times> 'db) outcome" where
  "SQLiteTable_StoreRow S M fuel a tabs vals prow db =
     bind_outcome (defined (tabs a)) (\<lambda>t.
       if tab_primary t = [] then Returns (SQLITE_ERROR, vals, tabs, db)
       else case DoesSQLiteTableExist S db (tab_name t) of
         (r, db) \<Rightarrow>
           bind_outcome (defined (if r = 0 then create_table S tabs t db else Some (0 \<le> r, db))) (\<lambda>(ok, db).
             if \<not> ok then Returns (SQLITE_ERROR, vals, tabs, db)
             else bind_outcome (GetTableColumns S fuel db (tab_name t)) (\<lambda>(r, columnset, db).
               if r \<noteq> SQLITE_OK then Returns (SQLITE_ERROR, vals, tabs, db)
               else (case missing_columns S (tab_name t) columnset (tab_columns t) db of
                       (ok, db) \<Rightarrow>
                         if \<not> ok then Returns (SQLITE_ERROR, vals, tabs, db)
                         else defined (SQLiteTable_PerformUpsert S M a tabs vals prow db)))))"

section \<open>Rows as the scripts have them\<close>

definition SQLiteRow_LoadFromDB ::
    "'db sqlite \<Rightarrow> variant_mem \<Rightarrow> nat option \<Rightarrow> tables \<Rightarrow> row_values \<Rightarrow> 'db \<Rightarrow> (bool \<times> row_values \<times> tables \<times> 'db) option" where
  "SQLiteRow_LoadFromDB S M table tabs vals db =
     (case table of
        None \<Rightarrow> Some (False, vals, tabs, db)
      | Some a \<Rightarrow> do { (r, vals, tabs, db) \<leftarrow> SQLiteTable_LoadRow S M a tabs vals db; Some (r \<noteq> SQLITE_ERROR, vals, tabs, db) })"

text \<open>Without a table the answer is \<open>SQLITE_ERROR\<close> as a \<open>bool\<close>, which is true.\<close>

definition SQLiteRow_StoreChildRowIntoDB ::
    "'db sqlite \<Rightarrow> variant_mem \<Rightarrow> nat \<Rightarrow> nat option \<Rightarrow> tables \<Rightarrow> row_values \<Rightarrow> row_values option \<Rightarrow> 'db \<Rightarrow> (bool \<times> row_values \<times> tables \<times> 'db) outcome" where
  "SQLiteRow_StoreChildRowIntoDB S M fuel table tabs vals parent_row db =
     (case table of
        None \<Rightarrow> Returns (SQLITE_ERROR \<noteq> 0, vals, tabs, db)
      | Some a \<Rightarrow> bind_outcome (SQLiteTable_StoreRow S M fuel a tabs vals parent_row db) (\<lambda>(r, vals, tabs, db).
          Returns (r \<noteq> SQLITE_ERROR, vals, tabs, db)))"

definition SQLiteRow_StoreIntoDB ::
    "'db sqlite \<Rightarrow> variant_mem \<Rightarrow> nat \<Rightarrow> nat option \<Rightarrow> tables \<Rightarrow> row_values \<Rightarrow> 'db \<Rightarrow> (bool \<times> row_values \<times> tables \<times> 'db) outcome" where
  "SQLiteRow_StoreIntoDB S M fuel table tabs vals db = SQLiteRow_StoreChildRowIntoDB S M fuel table tabs vals None db"

text \<open>The child rows, each with its table, with the values of their parent.\<close>

fun StoreAllChildRowsIntoDB ::
    "'db sqlite \<Rightarrow> variant_mem \<Rightarrow> nat \<Rightarrow> (nat option \<times> row_values) list \<Rightarrow> row_values \<Rightarrow> tables \<Rightarrow> 'db \<Rightarrow> (bool \<times> tables \<times> 'db) outcome" where
  "StoreAllChildRowsIntoDB S M fuel [] vals tabs db = Returns (True, tabs, db)"
| "StoreAllChildRowsIntoDB S M fuel ((table, child) # rows) vals tabs db =
     bind_outcome (SQLiteRow_StoreChildRowIntoDB S M fuel table tabs child (Some vals) db) (\<lambda>(ok, _, tabs, db).
       if \<not> ok then Returns (False, tabs, db) else StoreAllChildRowsIntoDB S M fuel rows vals tabs db)"

section \<open>Quotes\<close>

definition doubled :: "byte list \<Rightarrow> byte list" where
  "doubled str = concat (map (\<lambda>b. if b = 39 then [39, 39] else [b]) str)"

lemma doubled_append [simp]: "doubled (xs @ ys) = doubled xs @ doubled ys"
  by (simp add: doubled_def)

lemma doubled_plain: "39 \<notin> set xs \<Longrightarrow> doubled xs = xs"
  by (induction xs) (auto simp: doubled_def)

lemma escape_loop_ok: "pos \<le> length str \<Longrightarrow> escape_loop str pos = take pos str @ doubled (drop pos str)"
proof (induction str pos rule: escape_loop.induct)
  case (1 str pos)
  show ?case
  proof (cases "string_find str 39 pos")
    case None
    then have "39 \<notin> set (drop pos str)" by (auto simp: string_find_def first_idx_None)
    then show ?thesis using None by (subst escape_loop.simps) (simp add: doubled_plain)
  next
    case (Some p)
    then obtain i where i: "p = pos + i" "first_idx (\<lambda>b. b = 39) (drop pos str) = Some i" by (auto simp: string_find_def)
    then have p: "p < length str" "str ! p = 39" "\<And>j. j < i \<Longrightarrow> str ! (pos + j) \<noteq> 39"
      using 1(2) by (auto simp: first_idx_Some)
    have "39 \<notin> set (take i (drop pos str))" using p by (auto simp: in_set_conv_nth i(1))
    moreover have "drop pos str = take i (drop pos str) @ 39 # drop (p + 1) str"
      using id_take_nth_drop[of i "drop pos str"] p(1,2) i(1) by (simp add: add.commute)
    moreover have "doubled (39 # ys) = 39 # 39 # doubled ys" for ys by (simp add: doubled_def)
    ultimately have d: "doubled (drop pos str) = take i (drop pos str) @ 39 # 39 # doubled (drop (p + 1) str)"
      using doubled_append[of "take i (drop pos str)" "39 # drop (p + 1) str"] doubled_plain[of "take i (drop pos str)"] by simp
    have t: "take pos str @ take i (drop pos str) = take p str" by (simp add: i(1) take_add)
    have "pos < length str" using p(1) i(1) by simp
    then have "escape_loop str pos = escape_loop (take p str @ [39, 39] @ drop (p + 1) str) (p + 2)"
      using Some by (subst escape_loop.simps) simp
    also have "\<dots> = take p str @ [39, 39] @ doubled (drop (p + 1) str)"
      using 1(1)[OF \<open>pos < length str\<close> Some] p(1) by simp
    also have "\<dots> = take pos str @ doubled (drop pos str)"
      unfolding d t[symmetric] by simp
    finally show ?thesis .
  qed
qed

text \<open>Escaping doubles every quote; stripping skips the character behind each quote it takes out, so that of two quotes
  in a row one stays.\<close>

theorem SQLEscapeString_correct: "SQLEscapeString str = doubled str"
  by (simp add: SQLEscapeString_def escape_loop_ok)

lemma strip_keeps_a_quote: "SQLStripString [39, 39] = [39]"
  by (simp add: SQLStripString_def unquote_loop.simps string_find_def)

section \<open>Values that survive a round trip\<close>

datatype script_value = SvInt "32 word" | SvDouble "64 word" | SvText "byte list" | SvBlob "byte list"

text \<open>SQLite stores a NaN as NULL and a negative zero as zero.\<close>

definition storable_double :: "64 word \<Rightarrow> bool" where
  "storable_double x \<longleftrightarrow> x \<noteq> 2 ^ 63 \<and> \<not> (and (drop_bit 52 x) 0x7FF = 0x7FF \<and> take_bit 52 x \<noteq> 0)"

fun sv_ok :: "script_value \<Rightarrow> bool" where
  "sv_ok (SvText s) \<longleftrightarrow> 0 \<notin> set s \<and> length s < 2 ^ 30"
| "sv_ok (SvBlob d) \<longleftrightarrow> 4 \<le> length d \<and> length d < 2 ^ 30"
| "sv_ok (SvDouble x) \<longleftrightarrow> storable_double x"
| "sv_ok (SvInt w) \<longleftrightarrow> True"

fun set_value :: "variant_mem \<Rightarrow> byte list \<Rightarrow> script_value \<Rightarrow> row_values \<Rightarrow> row_values option" where
  "set_value M n (SvInt w) vals = SetColumnInt M n w vals"
| "set_value M n (SvDouble x) vals = SetColumnDouble M n x vals"
| "set_value M n (SvText s) vals = SetColumnText M n s vals"
| "set_value M n (SvBlob d) vals = SetColumnBlob M n (Some d) (length d) vals"

fun column_reads :: "variant_mem \<Rightarrow> byte list \<Rightarrow> script_value \<Rightarrow> row_values \<Rightarrow> bool" where
  "column_reads M n (SvInt w) vals \<longleftrightarrow> GetColumnInt M n 0 0 vals = (True, w)"
| "column_reads M n (SvDouble x) vals \<longleftrightarrow> GetColumnDouble M n 0 0 vals = (True, x)"
| "column_reads M n (SvText s) vals \<longleftrightarrow> GetColumnText n [] [] vals = Some (True, s)"
| "column_reads M n (SvBlob d) vals \<longleftrightarrow> GetColumnVector n [] vals = Some (True, d)"

fun sql_of :: "script_value \<Rightarrow> sql_value" where
  "sql_of (SvInt w) = SqlInteger (scast w)"
| "sql_of (SvDouble x) = SqlReal x"
| "sql_of (SvText s) = SqlText s"
| "sql_of (SvBlob d) = SqlBlob d"

fun has_value :: "variant_mem \<Rightarrow> sqlite_variant \<Rightarrow> script_value \<Rightarrow> bool" where
  "has_value M v (SvInt w) \<longleftrightarrow> SQLiteVariant_GetInt M v = Some w \<and> v_datalen v = 4"
| "has_value M v (SvDouble x) \<longleftrightarrow> SQLiteVariant_GetDouble M v = Some x \<and> v_datalen v = 8"
| "has_value M v (SvText s) \<longleftrightarrow> v_storedtype v = VARTEXT \<and> v_datalen v = length s + 1 \<and>
     (\<exists>b. v_data v = Block b \<and> take (length s + 1) b = s @ [0])"
| "has_value M v (SvBlob d) \<longleftrightarrow> v_storedtype v = VARBLOB \<and> v_datalen v = length d \<and>
     (\<exists>b. v_data v = Block b \<and> take (length d) b = d)"

fun room_for :: "script_value \<Rightarrow> sqlite_variant \<Rightarrow> bool" where
  "room_for (SvInt _) v \<longleftrightarrow> True"
| "room_for (SvDouble _) v \<longleftrightarrow> True"
| "room_for _ v \<longleftrightarrow> (\<forall>w. v_data v = Bits w \<longrightarrow> w = 0)"

definition ready :: "row_values \<Rightarrow> byte list \<Rightarrow> script_value \<Rightarrow> bool" where
  "ready vals n sv \<longleftrightarrow> (\<forall>v. vals n = Some v \<longrightarrow> var_ok v \<and> room_for sv v)"

definition column_has :: "variant_mem \<Rightarrow> row_values \<Rightarrow> byte list \<Rightarrow> script_value \<Rightarrow> bool" where
  "column_has M vals n sv \<longleftrightarrow> (\<exists>v. vals n = Some v \<and> var_ok v \<and> has_value M v sv)"

lemma set_value_ok:
  assumes M: "grants_all (vm_bytes M)" and r: "ready vals n sv" and sv: "sv_ok sv"
  shows "\<exists>v. set_value M n sv vals = Some (vals(n \<mapsto> v)) \<and> var_ok v \<and> has_value M v sv"
proof -
  define v0 where "v0 = (case vals n of None \<Rightarrow> SQLiteVariant_new | Some v \<Rightarrow> v)"
  have v0: "var_ok v0" "room_for sv v0"
    using r var_ok_new by (auto simp: v0_def ready_def SQLiteVariant_new_def split: option.split) (cases sv; simp)
  show ?thesis
  proof (cases sv)
    case (SvInt w)
    then show ?thesis using set_number_ok(1)[OF v0(1), of M w]
      by (auto simp: SetColumnInt_def set_column_def v0_def)
  next
    case (SvDouble x)
    then show ?thesis using set_number_ok(4)[OF v0(1), of M x]
      by (auto simp: SetColumnDouble_def set_column_def v0_def)
  next
    case (SvText s)
    then obtain v' b where "SQLiteVariant_SetText M s v0 = Some v'" "var_ok v'" "v_storedtype v' = VARTEXT" "v_data v' = Block b"
        "v_datalen v' = length s + 1" "take (length s + 1) b = s @ [0]"
      using set_text_ok[OF M v0(1), of s] v0(2) sv by (auto simp: cstr_id)
    then show ?thesis using SvText by (auto simp: SetColumnText_def set_column_def v0_def)
  next
    case (SvBlob d)
    then obtain v' b where "SQLiteVariant_SetBlob M (Some d) (length d) v0 = Some v'" "var_ok v'" "v_storedtype v' = VARBLOB"
        "v_data v' = Block b" "v_datalen v' = length d" "take (length d) b = d"
      using set_blob_ok[OF M v0(1), of d] v0(2) sv by auto
    then show ?thesis using SvBlob by (auto simp: SetColumnBlob_def set_column_def v0_def)
  qed
qed

lemma bound_has_value:
  assumes "has_value M v sv" "sv_ok sv"
  shows "bound_value M (Some v) = Some (Some (sql_of sv))"
proof (cases sv)
  case (SvText s)
  then obtain b where b: "v_data v = Block b" "take (length s + 1) b = s @ [0]" using assms(1) by auto
  then have "length s + 1 \<le> length b" by (metis length_append_singleton length_take min.cobounded1 Suc_eq_plus1)
  moreover have "take (length s) b = s" using arg_cong[OF b(2), of "take (length s)"] by simp
  moreover have "sz_sub (length s + 1) 1 = length s" "to_int32 (length s) = int (length s)"
    using assms(2) SvText by (simp_all add: size_simps)
  ultimately show ?thesis using SvText assms b by (simp add: bound_value_def as_blob_def mem_simps)
next
  case (SvBlob d)
  then obtain b where b: "v_data v = Block b" "take (length d) b = d" using assms(1) by auto
  then have "length d \<le> length b" by (metis length_take min.cobounded1)
  moreover have "to_int32 (length d) = int (length d)" using assms(2) SvBlob by (simp add: size_simps)
  ultimately show ?thesis using SvBlob assms b by (simp add: bound_value_def as_blob_def mem_simps)
qed (use assms in \<open>auto simp: bound_value_def SQLiteVariant_GetInt_def SQLiteVariant_GetDouble_def split: if_splits\<close>)

lemma has_value_reads:
  assumes "column_has M vals n sv" "sv_ok sv"
  shows "column_reads M n sv vals"
proof -
  obtain v where v: "vals n = Some v" "var_ok v" "has_value M v sv" using assms(1) by (auto simp: column_has_def)
  show ?thesis
  proof (cases sv)
    case (SvText s)
    then obtain b where b: "v_data v = Block b" "take (length s + 1) b = s @ [0]" using v(3) by auto
    have eq: "b = s @ 0 # drop (length s + 1) b"
      using append_take_drop_id[of "length s + 1" b] unfolding b(2) by simp
    have nz: "0 \<notin> set s" using assms(2) SvText by simp
    have "terminated b" by (subst eq) (simp add: terminated_def)
    moreover have "cstr b = s" by (subst eq) (rule cstr_zero[OF nz])
    ultimately have "std_string (Some b) = Some s" by (simp add: std_string_ok)
    then show ?thesis using SvText v b by (simp add: GetColumnText_def SQLiteVariant_GetText_def as_blob_def)
  next
    case (SvBlob d)
    then obtain b where b: "v_data v = Block b" "take (length d) b = d" using v(3) by auto
    then have "length d \<le> length b" by (metis length_take min.cobounded1)
    then show ?thesis using SvBlob v b by (simp add: GetColumnVector_def SQLiteVariant_GetBlob_def as_blob_def mem_simps)
  qed (use v in \<open>auto simp: GetColumnInt_def GetColumnDouble_def get_column_def\<close>)
qed

fun set_row :: "variant_mem \<Rightarrow> sqlite_column list \<Rightarrow> script_value list \<Rightarrow> row_values \<Rightarrow> row_values option" where
  "set_row M (c # cs) (sv # svs) vals = do { vals \<leftarrow> set_value M (col_name c) sv vals; set_row M cs svs vals }"
| "set_row M cs svs vals = Some vals"

lemma set_row_ok:
  assumes M: "grants_all (vm_bytes M)"
  shows "list_all2 (\<lambda>c sv. ready vals (col_name c) sv \<and> sv_ok sv) cs svs \<Longrightarrow> distinct (map col_name cs) \<Longrightarrow>
    \<exists>vals'. set_row M cs svs vals = Some vals' \<and> list_all2 (\<lambda>c sv. column_has M vals' (col_name c) sv) cs svs \<and>
      (\<forall>n. n \<notin> set (map col_name cs) \<longrightarrow> vals' n = vals n)"
proof (induction cs svs arbitrary: vals rule: list_induct2')
  case (4 c cs sv svs)
  then obtain v where v: "set_value M (col_name c) sv vals = Some (vals(col_name c \<mapsto> v))" "var_ok v" "has_value M v sv"
    using set_value_ok[OF M, of vals "col_name c" sv] by auto
  define w where "w = vals(col_name c \<mapsto> v)"
  have "col_name d \<noteq> col_name c" if "d \<in> set cs" for d
    using 4(3) imageI[OF that, of col_name] by auto
  then have same: "ready w (col_name d) x = ready vals (col_name d) x" if "d \<in> set cs" for d x
    using that by (simp add: ready_def w_def)
  have "list_all2 (\<lambda>c sv. ready vals (col_name c) sv \<and> sv_ok sv) cs svs" using 4(2) by simp
  then have "list_all2 (\<lambda>c sv. ready w (col_name c) sv \<and> sv_ok sv) cs svs"
    by (rule list.rel_mono_strong) (simp add: same)
  then obtain vals' where vals': "set_row M cs svs w = Some vals'" "list_all2 (\<lambda>c sv. column_has M vals' (col_name c) sv) cs svs"
      "\<forall>n. n \<notin> set (map col_name cs) \<longrightarrow> vals' n = w n"
    using 4(1)[of w] 4(3) by auto
  then show ?case using v 4(3) by (auto simp: column_has_def w_def)
qed auto

lemma column_has_ready: "column_has M vals n sv \<Longrightarrow> ready vals n sv"
  by (cases sv) (auto simp: column_has_def ready_def)

section \<open>New rows\<close>

text \<open>A value of the type a column was declared with.\<close>

fun fits :: "stored_type \<Rightarrow> script_value \<Rightarrow> bool" where
  "fits t (SvInt _) \<longleftrightarrow> t = VARINT"
| "fits t (SvDouble _) \<longleftrightarrow> t = VARREAL"
| "fits t (SvText _) \<longleftrightarrow> t = VARTEXT"
| "fits t (SvBlob _) \<longleftrightarrow> t = VARBLOB"

definition default_ok :: "row_values \<Rightarrow> sqlite_column \<Rightarrow> bool" where
  "default_ok vals c \<longleftrightarrow> (\<forall>v. vals (col_name c) = Some v \<longrightarrow> var_ok v \<and>
     (col_type c \<in> {VARTEXT, VARBLOB} \<longrightarrow> (\<exists>b. v_data v = Block b)))"

lemma default_blob:
  assumes "grants_all (vm_bytes M)"
  shows "\<exists>v b. SQLiteVariant_SetBlob M None 0 SQLiteVariant_new = Some v \<and> var_ok v \<and> v_data v = Block b"
  using assms by (simp add: SQLiteVariant_SetBlob_def SQLiteVariant_new_def grow_blob_def make_blob_def mem_simps
      of_pointer_def zero_blob_def as_blob_def var_ok_def)

lemma init_loop_ok:
  assumes M: "grants_all (vm_bytes M)"
  shows "\<forall>c \<in> set cs. vals (col_name c) = None \<Longrightarrow> distinct (map col_name cs) \<Longrightarrow>
    \<exists>vals'. init_loop M cs vals = Some vals' \<and> (\<forall>c \<in> set cs. default_ok vals' c) \<and>
      (\<forall>n. n \<notin> set (map col_name cs) \<longrightarrow> vals' n = vals n)"
proof (induction cs arbitrary: vals)
  case (Cons c cs)
  let ?first = "if KEY_NONE \<noteq> col_keytype c then Some vals
     else (case col_type c of VARNONE \<Rightarrow> Some vals | VARINT \<Rightarrow> SetColumnInt M (col_name c) 0 vals
       | VARREAL \<Rightarrow> SetColumnDouble M (col_name c) 0 vals | VARBLOB \<Rightarrow> SetColumnBlob M (col_name c) None 0 vals
       | VARTEXT \<Rightarrow> SetColumnText M (col_name c) [] vals)"
  have none: "vals (col_name c) = None" using Cons.prems(1) by simp
  obtain v1 where v1: "SQLiteVariant_SetInt M 0 SQLiteVariant_new = Some v1" "var_ok v1"
    using set_number_ok(1)[OF var_ok_new, of M 0] by auto
  obtain v2 where v2: "SQLiteVariant_SetDouble M 0 SQLiteVariant_new = Some v2" "var_ok v2"
    using set_number_ok(4)[OF var_ok_new, of M 0] by auto
  obtain v3 b3 where v3: "SQLiteVariant_SetBlob M None 0 SQLiteVariant_new = Some v3" "var_ok v3" "v_data v3 = Block b3"
    using default_blob[OF M] by auto
  obtain v4 b4 where v4: "SQLiteVariant_SetText M [] SQLiteVariant_new = Some v4" "var_ok v4" "v_data v4 = Block b4"
    using set_text_ok[OF M var_ok_new, of "[]"] by (auto simp: SQLiteVariant_new_def)
  have "\<exists>w. ?first = Some w \<and> default_ok w c \<and> (\<forall>n. n \<noteq> col_name c \<longrightarrow> w n = vals n)"
    using none v1 v2 v3 v4
    by (cases "col_type c") (simp_all add: SetColumnInt_def SetColumnDouble_def SetColumnBlob_def SetColumnText_def
        set_column_def default_ok_def)
  then obtain w where w: "?first = Some w" "default_ok w c" "\<forall>n. n \<noteq> col_name c \<longrightarrow> w n = vals n" by blast
  have "\<forall>d \<in> set cs. w (col_name d) = None" using Cons.prems w(3) by (auto simp: image_iff)
  then obtain vals' where vals': "init_loop M cs w = Some vals'" "\<forall>d \<in> set cs. default_ok vals' d"
      "\<forall>n. n \<notin> set (map col_name cs) \<longrightarrow> vals' n = w n"
    using Cons.IH[of w] Cons.prems(2) by auto
  have "default_ok vals' c" using vals'(3) w(2) Cons.prems(2) by (simp add: default_ok_def)
  then show ?case using w(1) vals' w(3) by auto
qed auto

lemma default_ready: "default_ok vals c \<Longrightarrow> fits (col_type c) sv \<Longrightarrow> ready vals (col_name c) sv"
  by (cases sv) (auto simp: default_ok_def ready_def)

lemma new_row_ready:
  assumes "grants_all (vm_bytes M)" "distinct (map col_name (tab_columns t))"
  shows "\<exists>vals. SQLiteRow_new M t = Some vals \<and> (\<forall>c \<in> set (tab_columns t). \<forall>sv. fits (col_type c) sv \<longrightarrow> ready vals (col_name c) sv)"
  using init_loop_ok[OF assms(1), of "tab_columns t" "\<lambda>_. None"] assms(2) default_ready
  by (auto simp: SQLiteRow_new_def SQLiteRow_InitFromTable_def)

section \<open>Storing and loading\<close>

lemma bind_row_ok:
  assumes "list_all2 (\<lambda>c sv. column_has M vals (col_name c) sv \<and> sv_ok sv) cs svs"
  shows "bind_row S M query cs pos prow vals = Some (r, vals') \<Longrightarrow> vals' = vals \<and> (r = None \<or> r = Some (map sql_of svs))"
  using assms
proof (induction cs svs arbitrary: pos r rule: list_induct2')
  case (4 c cs sv svs)
  obtain v where v: "vals (col_name c) = Some v" "has_value M v sv" using 4(3) by (auto simp: column_has_def)
  then have "bound_value M (vals (col_name c)) = Some (Some (sql_of sv))" using 4(3) by (simp add: bound_has_value)
  then show ?case using 4 v(1) by (auto simp: foreign_value_def bind_eq_Some_conv split: if_splits)
qed auto

lemma bind_named_ok:
  assumes "list_all2 (\<lambda>n sv. column_has M vals n sv \<and> sv_ok sv) ns svs"
  shows "\<forall>i. pos \<le> i \<and> i < pos + length ns \<longrightarrow> sq_bind S query i = SQLITE_OK \<Longrightarrow>
    bind_named S M query ns pos vals = Some (Some (map sql_of svs))"
  using assms
proof (induction ns svs arbitrary: pos rule: list_induct2')
  case (4 n ns sv svs)
  obtain v where v: "vals n = Some v" "has_value M v sv" using 4(3) by (auto simp: column_has_def)
  then have "bound_value M (vals n) = Some (Some (sql_of sv))" using 4(3) by (simp add: bound_has_value)
  then show ?case using 4 by auto
qed auto

lemma load_value_is_set:
  assumes "sv_ok sv"
  shows "load_value M n (sql_of sv) vals = set_value M n sv vals"
proof (cases sv)
  case (SvInt w)
  have "ucast (scast w :: 64 word) = w" by (rule bit_word_eqI) (auto simp: bit_simps)
  then show ?thesis using SvInt by (simp add: load_value_def)
qed (use assms in \<open>auto simp: load_value_def cstr_id\<close>)

lemma load_columns_is_set:
  "list_all2 (\<lambda>c sv. sv_ok sv) cs svs \<Longrightarrow> load_columns M cs (map sql_of svs) vals = set_row M cs svs vals"
  by (induction cs svs arbitrary: vals rule: list_induct2') (auto simp: load_value_is_set intro!: arg_cong2[where f = Option.bind] ext)

text \<open>A table as the schemas of the scripts make it, before its first statement: a foreign key column is part of the
  primary key, as the update of an existing row leaves every key column out. The part of a row that is its key. What
  SQLite promises, for databases whose table has the declared columns: after the insert statement succeeded with values
  of the declared types, the table exists and the select statement with the key of these values gives them back.\<close>

definition table_ok :: "sqlite_table \<Rightarrow> bool" where
  "table_ok t \<longleftrightarrow> distinct (map col_name (tab_columns t)) \<and> tab_primary t \<noteq> [] \<and> set (tab_primary t) \<subseteq> set (tab_columns t) \<and>
     (\<forall>c \<in> set (tab_columns t). IsPrimaryKey c \<or> IsForeignKey c \<longrightarrow> c \<in> set (tab_primary t)) \<and>
     distinct (map col_name (tab_primary t)) \<and> tab_loadquery t = [] \<and> tab_storequery t = []"

definition key_part :: "sqlite_table \<Rightarrow> 'x list \<Rightarrow> 'x list" where
  "key_part t xs = map (\<lambda>k. the (map_of (zip (map col_name (tab_columns t)) xs) (col_name k))) (tab_primary t)"

definition keeps_rows :: "'db sqlite \<Rightarrow> sqlite_table \<Rightarrow> bool" where
  "keeps_rows S t \<longleftrightarrow>
     (\<forall>db svs row db'. sq_step S db (store_statement t) (map sql_of svs) 0 = (SQLITE_DONE, row, db') \<and>
        list_all2 (\<lambda>c sv. fits (col_type c) sv \<and> sv_ok sv) (tab_columns t) svs \<longrightarrow>
        sq_prepare S db' checktablequery = SQLITE_OK \<and> sq_bind S checktablequery 1 = SQLITE_OK \<and>
        (\<exists>r db1. sq_step S db' checktablequery [SqlText (tab_name t)] 0 = (SQLITE_ROW, r, db1) \<and>
           sq_prepare S db1 (load_statement t) = SQLITE_OK \<and>
           (\<forall>i. 1 \<le> i \<and> i \<le> length (tab_primary t) \<longrightarrow> sq_bind S (load_statement t) i = SQLITE_OK) \<and>
           (\<exists>db2. sq_step S db1 (load_statement t) (key_part t (map sql_of svs)) 0 = (SQLITE_ROW, map sql_of svs, db2))))"

lemma bind_outcome_Returns: "bind_outcome x f = Returns y \<longleftrightarrow> (\<exists>z. x = Returns z \<and> f z = Returns y)"
  by (cases x) simp_all

lemma defined_Returns: "defined x = Returns y \<longleftrightarrow> x = Some y"
  by (cases x) simp_all

lemma stored_by_upsert:
  assumes "SQLiteTable_StoreRow S M fuel a tabs vals prow db = Returns (SQLITE_OK, vals', tabs', db')"
  shows "\<exists>db1. SQLiteTable_PerformUpsert S M a tabs vals prow db1 = Some (SQLITE_OK, vals', tabs', db')"
  using assms by (auto simp: SQLiteTable_StoreRow_def bind_outcome_Returns defined_Returns case_prod_unfold split: if_splits)

lemma upsert_binds:
  assumes "SQLiteTable_PerformUpsert S M a tabs vals prow db = Some (SQLITE_OK, vals', tabs', db')" "tabs a = Some t" "tab_storequery t = []"
    "list_all2 (\<lambda>c sv. column_has M vals (col_name c) sv \<and> sv_ok sv) (tab_columns t) svs"
  shows "tabs' = tabs(a \<mapsto> t\<lparr>tab_storequery := store_statement t\<rparr>)"
    "\<exists>row. sq_step S db (store_statement t) (map sql_of svs) 0 = (SQLITE_DONE, row, db')"
proof -
  let ?t = "t\<lparr>tab_storequery := store_statement t\<rparr>"
  have c: "cached_store a tabs = Some (store_statement t, tabs(a \<mapsto> ?t))"
    using assms(2,3) by (simp add: cached_store_def store_statement_def bytes_of_def)
  obtain r vals2 where b: "bind_row S M (store_statement t) (tab_columns t) 1 prow vals = Some (r, vals2)" "r \<noteq> None"
      "tabs' = tabs(a \<mapsto> ?t)" "fst (sq_step S db (store_statement t) (the r) 0) = SQLITE_DONE"
      "snd (snd (sq_step S db (store_statement t) (the r) 0)) = db'"
    using assms(1) by (fastforce simp: SQLiteTable_PerformUpsert_def c bind_eq_Some_conv case_prod_unfold split: if_splits option.splits)
  have "r = Some (map sql_of svs)" using bind_row_ok[OF assms(4) b(1)] b(2) by simp
  then show "tabs' = tabs(a \<mapsto> ?t)" "\<exists>row. sq_step S db (store_statement t) (map sql_of svs) 0 = (SQLITE_DONE, row, db')"
    using b(3-5) by (auto simp: prod_eq_iff)
qed

lemma key_part_all2:
  assumes "list_all2 (\<lambda>c x. P (col_name c) x) (tab_columns t) xs" "distinct (map col_name (tab_columns t))"
    "set (tab_primary t) \<subseteq> set (tab_columns t)"
  shows "list_all2 (\<lambda>k x. P (col_name k) x) (tab_primary t) (key_part t xs)"
proof -
  have len: "length xs = length (tab_columns t)" using assms(1) by (simp add: list_all2_lengthD)
  have "P (col_name k) (the (map_of (zip (map col_name (tab_columns t)) xs) (col_name k)))" if k: "k \<in> set (tab_primary t)" for k
  proof -
    obtain i where i: "i < length (tab_columns t)" "tab_columns t ! i = k"
      using k assms(3) by (meson in_set_conv_nth subsetD)
    then have "map_of (zip (map col_name (tab_columns t)) xs) (map col_name (tab_columns t) ! i) = Some (xs ! i)"
      using assms(2) len by (intro map_of_zip_nth) simp_all
    then show ?thesis using i assms(1) by (auto simp: list_all2_conv_all_nth)
  qed
  then show ?thesis by (auto simp: key_part_def list_all2_conv_all_nth)
qed

lemma key_part_map:
  assumes "length xs = length (tab_columns t)" "set (tab_primary t) \<subseteq> set (tab_columns t)"
  shows "key_part t (map f xs) = map f (key_part t xs)"
proof -
  have "the (map_of (zip (map col_name (tab_columns t)) (map f xs)) (col_name k)) =
      f (the (map_of (zip (map col_name (tab_columns t)) xs) (col_name k)))" if "k \<in> set (tab_primary t)" for k
  proof -
    have "col_name k \<in> set (map col_name (tab_columns t))" using that assms(2) by auto
    then obtain x where "map_of (zip (map col_name (tab_columns t)) xs) (col_name k) = Some x"
      using assms(1) by (metis length_map map_of_zip_is_Some)
    then show ?thesis by (simp add: zip_map2 map_of_map)
  qed
  then show ?thesis by (simp add: key_part_def)
qed


text \<open>A toy database for the witness: the last values that were inserted.\<close>

definition toy_key :: sqlite_column where
  "toy_key = \<lparr>col_type = VARINT, col_name = bytes_of ''id'', col_foreignname = [], col_keytype = KEY_PRIMARY, col_foreigntable = None\<rparr>"

definition toy_name :: sqlite_column where
  "toy_name = \<lparr>col_type = VARTEXT, col_name = bytes_of ''name'', col_foreignname = [], col_keytype = KEY_NONE, col_foreigntable = None\<rparr>"

definition toy_table :: sqlite_table where
  "toy_table = (SQLiteTable_new (bytes_of ''hero''))\<lparr>tab_columns := [toy_key, toy_name], tab_primary := [toy_key]\<rparr>"

lemma toy_columns: "tab_columns toy_table = [toy_key, toy_name]" "tab_primary toy_table = [toy_key]"
    "tab_storequery toy_table = []" "tab_loadquery toy_table = []"
  by (simp_all add: toy_table_def SQLiteTable_new_def)

lemma toy_names: "col_name toy_key = [105, 100]" "col_name toy_name = [110, 97, 109, 101]"
    "col_type toy_key = VARINT" "col_type toy_name = VARTEXT" "col_keytype toy_key = KEY_PRIMARY" "col_keytype toy_name = KEY_NONE"
  by (simp_all add: toy_key_def toy_name_def bytes_of_def)

definition toy_step :: "sql_value list \<Rightarrow> byte list \<Rightarrow> sql_value list \<Rightarrow> nat \<Rightarrow> int \<times> sql_value list \<times> sql_value list" where
  "toy_step db query args k =
     (if hd query = 73 then (101, [], args)
      else if hd query = 112 then (if k < 2 then (100, [SqlInteger 0, SqlText (col_name ([toy_key, toy_name] ! k))], db) else (101, [], db))
      else (100, db, db))"

definition toy_sqlite :: "sql_value list sqlite" where
  "toy_sqlite = \<lparr>sq_prepare = \<lambda>_ _. 0, sq_bind = \<lambda>_ _. 0, sq_step = toy_step\<rparr>"


section \<open>What is not kept\<close>

lemma foreign_value_elsewhere:
  assumes "foreign_value M c prow vals = Some (Some vals')" "n \<noteq> col_name c"
  shows "vals' n = vals n"
  using assms by (auto simp: foreign_value_def SetColumnVariant_def set_column_def bind_eq_Some_conv split: if_splits option.splits)

lemma unset_column_blocks:
  "bind_row S M query cs pos prow vals = Some (r, vals') \<Longrightarrow> distinct (map col_name cs) \<Longrightarrow> c \<in> set cs \<Longrightarrow>
    \<not> IsForeignKey c \<Longrightarrow> vals (col_name c) = None \<Longrightarrow> r = None"
proof (induction cs arbitrary: pos vals r vals')
  case (Cons d cs)
  show ?case
  proof (cases "d = c")
    case True
    then show ?thesis using Cons.prems by (simp add: foreign_value_def bound_value_def)
  next
    case False
    then have c: "c \<in> set cs" using Cons.prems(3) by simp
    then have "col_name c \<in> col_name ` set cs" by blast
    then have ne: "col_name c \<noteq> col_name d" using Cons.prems(2) by auto
    obtain vs where vs: "foreign_value M d prow vals = Some vs" using Cons.prems(1) by (auto simp: bind_eq_Some_conv)
    show ?thesis
    proof (cases vs)
      case (Some vals2)
      have "vals2 (col_name c) = None" using foreign_value_elsewhere[OF vs[unfolded Some] ne] Cons.prems(5) by simp
      then show ?thesis using Cons.prems(1,2,4) c vs Some Cons.IH[of _ vals2]
        by (auto simp: bind_eq_Some_conv split: option.splits if_splits)
    qed (use Cons.prems(1) vs in simp)
  qed
qed simp



text \<open>a 64-bit integer that a script stores comes back cut to its low 32 bits: it is bound whole, but read from the
  result with the function for 32-bit integers.\<close>

theorem long_integers_are_cut:
  assumes "\<And>v. vals n = Some v \<Longrightarrow> var_ok v" "\<And>v. other n = Some v \<Longrightarrow> var_ok v"
  shows "\<exists>v other'. SetColumnInt64 M n w vals = Some (vals(n \<mapsto> v)) \<and> bound_value M (Some v) = Some (Some (SqlInteger w)) \<and>
    load_value M n (SqlInteger w) other = Some other' \<and> GetColumnInt M n 0 0 other' = (True, ucast w)"
proof -
  have ok: "var_ok (case vals n of None \<Rightarrow> SQLiteVariant_new | Some v \<Rightarrow> v)" if "\<And>v. vals n = Some v \<Longrightarrow> var_ok v" for vals
    using that var_ok_new by (auto simp: SQLiteVariant_new_def split: option.split)
  obtain v where v: "SQLiteVariant_SetInt64 M w (case vals n of None \<Rightarrow> SQLiteVariant_new | Some v \<Rightarrow> v) = Some v"
      "SQLiteVariant_GetInt64 M v = Some w" "v_datalen v = 8"
    using set_number_ok(2)[OF ok[of vals], of M w] assms(1) by blast
  obtain u where u: "SQLiteVariant_SetInt M (ucast w) (case other n of None \<Rightarrow> SQLiteVariant_new | Some v \<Rightarrow> v) = Some u"
      "SQLiteVariant_GetInt M u = Some (ucast w)"
    using set_number_ok(1)[OF ok[of other], of M "ucast w"] assms(2) by blast
  have "bound_value M (Some v) = Some (Some (SqlInteger w))"
    using v(2,3) by (auto simp: bound_value_def SQLiteVariant_GetInt64_def split: if_splits)
  moreover have "SetColumnInt64 M n w vals = Some (vals(n \<mapsto> v))"
    using v(1) by (simp add: SetColumnInt64_def set_column_def)
  moreover have "load_value M n (SqlInteger w) other = Some (other(n \<mapsto> u))"
    using u(1) by (simp add: load_value_def SetColumnInt_def set_column_def)
  ultimately show ?thesis using u(2) by (auto simp: GetColumnInt_def get_column_def)
qed

theorem long_integers_are_cut_witness:
  "\<exists>v vals'. SetColumnInt64 var_mgr [105] 0x100000005 (\<lambda>_. None) = Some [[105] \<mapsto> v] \<and>
    bound_value var_mgr (Some v) = Some (Some (SqlInteger 0x100000005)) \<and>
    load_value var_mgr [105] (SqlInteger 0x100000005) (\<lambda>_. None) = Some vals' \<and> GetColumnInt var_mgr [105] 0 0 vals' = (True, 5)"
proof -
  have cut: "ucast (0x100000005 :: 64 word) = (5 :: 32 word)" by simp
  show ?thesis
    by (rule long_integers_are_cut[where vals = "\<lambda>_. None" and n = "[105]" and other = "\<lambda>_. None" and M = var_mgr and w = "0x100000005", unfolded cut])
      simp_all
qed

text \<open>A row that is not in the database loads successfully and keeps its values.\<close>

theorem missing_row_loads:
  assumes "SQLiteTable_LoadRow S M a tabs vals db = Some (SQLITE_DONE, vals', tabs', db')"
  shows "SQLiteRow_LoadFromDB S M (Some a) tabs vals db = Some (True, vals, tabs', db')"
proof -
  have "vals' = vals" using assms
    by (auto simp: SQLiteTable_LoadRow_def bind_eq_Some_conv case_prod_unfold split: if_splits option.splits)
  then show ?thesis using assms by (simp add: SQLiteRow_LoadFromDB_def)
qed

end
