(* ===== verification/Spec2Isabelle.thy ===== *)
theory Spec2Isabelle
  imports Prioq HrtPrioq BitUtils Utf8 Vector CharVector Talloc PoolAlloc IoHelper Telnet AnsiColor CmdTagLexer
    ThreadPool TickThread ZCompressor Client TextUtil Reflow ServerInput MudMain Lexer LineEditor Uuid MpInt Variant Database
begin

text \<open>
  Verification of the core of the mud server (src/src): a single-process game server. One main thread waits
  for events, accepts connections and turns input into tasks; worker threads run the tasks; a tick thread adds
  timed tasks; scripts (run by AngelScript) react to lines of input, write to the clients and keep their objects
  in a database.

  \<^bold>\<open>How the C code is modelled.\<close> A struct is a record with the fields of the source, an array a list of cells with
  checked access, a null pointer \<open>None\<close> (or an address absent from a map where structures are shared). An
  operation on memory returns an option: \<open>None\<close> is undefined behaviour (an access outside of a block or through
  null, a signed overflow, a double free). A function that may block, loop forever or fault has the type
  \<open>outcome\<close>: \<open>Returns v\<close>, \<open>Faults\<close>, \<open>Running\<close> (not finished with the fuel or the kernel answers it was given).
  \<open>size_t\<close> arithmetic that can wrap is written with \<open>sz\<close> and \<open>sz_sub\<close>, \<open>int\<close> arithmetic that can overflow with
  \<open>int32\<close>, bytes and masks are words. What is not code of the repository is an argument: the allocator
  (\<open>mem_mgr\<close>: which requests are granted, what fresh memory holds), zlib (\<open>zlib\<close>), the results of \<open>send\<close>, \<open>read\<close>
  and \<open>epoll_wait\<close>, random numbers, floating-point arithmetic, and the scripts and C++ parts (\<open>platform\<close>, \<open>boot\<close>).

  \<^bold>\<open>The theories\<close>, each named after the file it models, from the bottom up.
  \<^item> Mud_Prelude: integer conversions, memory blocks, allocator, lists. C_Strings: the C library's string functions.
  \<^item> Containers: BinHeap (the sift loops shared by the two queues, the interface \<open>min_queue\<close>), ArrayHeap (the
    growable array around them), Prioq (prioq.c) and HrtPrioq (hrt_prioq.c) as its instances; Vector (vector.c, the
    interface \<open>push_seq\<close>), CharVector (charvector.c), Talloc (talloc.c), PoolAlloc (poolalloc.c).
  \<^item> Bytes and text: BitUtils (bitutils.c), Utf8 (utf8.c), AnsiColor (ansicolor.c), CmdTagLexer (cmdtaglexer.c),
    TextUtil and Reflow (textutil.c), Rand (rand.c, crypto.c).
  \<^item> A connection: IoHelper (iohelper.c), Telnet (telnet.c), ZCompressor (zcompressor.c), Client (client.c).
  \<^item> Threads: ThreadPool (threadpool.c: its operations, and the workers as a step relation over the points where
    they can interfere), TickThread (tickthread.c).
  \<^item> The server: Server (server.c), ServerInput (what the input task does with the bytes of a client),
    ServerClients (who owns a client), ServerInit (server_init.c), ServerLife (start, stop and reload), MudMain
    (mud.c, the loop of the main thread).
  \<^item> What the scripts use: Lexer (lexer.c and commandlexer.cpp, the words of a command), LineEditor (leditor.cpp and
    editabletext.cpp, the editor of a player), Uuid (uuid.cpp), MpInt (mpint.cpp), Variant (sqlitevariant.h), Database
    (sqliteutil.cpp, sqlitetable.cpp, sqliterow.cpp: schemas, statements, loading and storing of rows).

  \<^bold>\<open>How the parts interact.\<close> \<open>MudMain.mud_loop\<close> calls \<open>Server_AcceptClient\<close>, \<open>Server_HandleUserInput\<close> and
  \<open>Server_Reload\<close>; an input task goes through \<open>ThreadPool_AddTask\<close> and runs \<open>HandleUserInputTask\<close>, which reads with
  \<open>read_to_cv\<close>, filters with \<open>TelnetStream_ProcessByte\<close>, decompresses with \<open>ZCompressor\<close> and hands lines to the
  scripts; messages go through \<open>Client_Sendf\<close>, that is \<open>ANSIColorizeString\<close>, \<open>ZCompressor_CompressRawData\<close> and
  \<open>write_full_raw\<close>. A row of a script object holds variants; texts of the editor, identifiers and big integers become
  texts and blobs in them, and \<open>SQLiteTable_StoreRow\<close> and \<open>SQLiteTable_LoadRow\<close> bind and read them. Packages come from \<open>MemoryPool_Alloc\<close>, clients live in a \<open>Vector\<close>, tasks in a \<open>Prioq\<close>.

  \<^bold>\<open>Interfaces\<close> are locales, interpreted on the code's own definitions: \<open>heap_order\<close> and \<open>min_queue\<close> (both queues),
  \<open>array_heap\<close>, \<open>push_seq\<close> (pointer vectors and byte buffers), and those the component theories declare.

  \<^bold>\<open>What the lemmas show.\<close> For each component a well-formedness predicate (\<open>cv_wf\<close>, \<open>pool_wf\<close>, \<open>tp_inv\<close>, \<open>owned\<close>
  and so on) and a lemma per operation, ending in \<open>_ok\<close>: from well-formed arguments it does not fault, keeps the
  predicate, and computes the stated function of the abstract contents (the multiset of a queue, the bytes
  of a buffer, the free elements of a pool, the words of a text). The properties, marked C1, C2 and so on in the
  order of their importance, are stated over the code's definitions; each with hypotheses has a witness that
  applies it to concrete values. Theorems without a number are further results of the same kind.
  Errors of the code are stated as theorems too (for instance \<open>tp_stop_loses_wakeup\<close>, \<open>release_race\<close>,
  \<open>reload_swallows_kill\<close>).

  \<^bold>\<open>Fuel.\<close> Loops bounded by their data are recursive functions with a measure. Fuel is used where the C loop can
  run forever: the counting loop of utf8.c (a theorem gives enough fuel for valid text, another shows that no fuel is
  enough after an invalid byte), the two loops over zlib calls (zlib may make no progress), following the break
  table in textutil.c (the number of words plus one is enough), and the main loop, which runs over the list of
  event batches it is given.

  \<^bold>\<open>Not modelled.\<close> Locks are not data: the theories of threads say which stretches are one step, the others treat a
  function that runs under its object's mutex as atomic. Output to the console and the log file is left out. A
  join is taken to return. serverconfig.c only zeroes a record and is never called. SQLite and GMP are used through
  their documented results: SQLite is an argument (\<open>Database.sqlite\<close>, with \<open>keeps_rows\<close> as what it promises), big
  integers are \<open>int\<close>. The C++ files that register the engine's classes with AngelScript, run scripts and walk script
  objects (as_manager.cpp, as_api.cpp, as_cinterface.cpp, database.cpp, player.cpp), and the floating-point numbers of
  mpfloat.cpp, are not modelled: their code is calls of those libraries. The vendored libraries (sqlite, gmp-6.2.0,
  the AngelScript add-ons) and the tests are no code of the server.
\<close>

end
